(* ===== verification/Mos_Prelude.thy ===== *)
theory Mos_Prelude
  imports Main "HOL-Library.Word" "HOL-Library.Monad_Syntax"
begin

text \<open>
  Shared vocabulary of the development: the machine integer types of the 32-bit RISC-V target
  (\<^verbatim>\<open>include/types.h\<close>), the error codes of \<^verbatim>\<open>include/error.h\<close>, the named collections of rewrite
  rules that the component proofs use, and the generic lemmas on words and options they share.

  Conventions used by every theory of the development:
  \<^item> a C function that can return \<open>-E_X\<close> has a result of type \<open>err + 'a\<close>: \<open>Inl E_X\<close> is that
    return value and \<open>Inr v\<close> is success with the out-parameter (or return value) \<open>v\<close>;
  \<^item> state is passed explicitly and the result is wrapped in \<open>option\<close>: \<open>None\<close> means that the
    call never returns to its caller, because of \<^verbatim>\<open>panic\<close>, a failed \<^verbatim>\<open>assert\<close> or \<^verbatim>\<open>panic_on\<close>,
    a store through a NULL pointer, or a loop that does not end.
\<close>

unbundle bit_operations_syntax

type_synonym u8 = "8 word"
type_synonym u16 = "16 word"
type_synonym u32 = "32 word"
type_synonym u64 = "64 word"

named_theorems mem_simps "reads of a memory after writes"
named_theorems mmu_simps "address and page-table-entry arithmetic"
named_theorems list_rep_simps "what the queue macros do to the represented list"

section \<open>Error codes (include/error.h)\<close>

datatype err =
    E_UNSPECIFIED
  | E_BAD_ENV
  | E_INVAL
  | E_NO_MEM
  | E_NO_SYS
  | E_NO_FREE_ENV
  | E_IPC_NOT_RECV
  | E_NO_DISK
  | E_MAX_OPEN
  | E_NOT_FOUND
  | E_BAD_PATH
  | E_FILE_EXISTS
  | E_NOT_EXEC
  | E_NO_RING_DESC

text \<open>The numeric values of the \<^verbatim>\<open>#define\<close>s; the code returns them negated.\<close>

fun errno :: "err \<Rightarrow> int" where
  "errno E_UNSPECIFIED = 1"
| "errno E_BAD_ENV = 2"
| "errno E_INVAL = 3"
| "errno E_NO_MEM = 4"
| "errno E_NO_SYS = 5"
| "errno E_NO_FREE_ENV = 6"
| "errno E_IPC_NOT_RECV = 7"
| "errno E_NO_DISK = 8"
| "errno E_MAX_OPEN = 9"
| "errno E_NOT_FOUND = 10"
| "errno E_BAD_PATH = 11"
| "errno E_FILE_EXISTS = 12"
| "errno E_NOT_EXEC = 13"
| "errno E_NO_RING_DESC = 14"

lemma errno_inj: "errno e = errno e' \<Longrightarrow> e = e'"
  by (cases e; cases e'; simp)

lemma errno_pos: "0 < errno e"
  by (cases e; simp)

text \<open>The 32-bit register image of a negative return value.\<close>

definition neg_errno :: "err \<Rightarrow> u32" where
  "neg_errno e = - of_int (errno e)"

lemma errno_bound: "errno e \<le> 14"
  by (cases e; simp)

lemma neg_errno_neq_0: "neg_errno e \<noteq> 0"
  by (cases e; simp add: neg_errno_def)

section \<open>Generic facts\<close>

lemma bind_Some_iff: "(x \<bind> f = Some y) = (\<exists>a. x = Some a \<and> f a = Some y)"
  by (cases x; simp)

lemma Suc_unat_less:
  fixes a b :: "'a::len word"
  assumes "a < b" shows "unat (a + 1) = Suc (unat a)"
proof -
  have "unat a < unat b" using assms by (simp add: word_less_nat_alt)
  moreover have "unat b < 2 ^ LENGTH('a)" by simp
  ultimately have "Suc (unat a) < 2 ^ LENGTH('a)" by linarith
  then show ?thesis by (simp add: unat_word_ariths)
qed

lemma unat_less_2_32: "unat (a :: u32) < 2 ^ 32"
  using unsigned_less [of a] by simp

lemma unat_add_no_overflow:
  fixes a b :: u32
  assumes "unat a + unat b < 2 ^ 32" shows "unat (a + b) = unat a + unat b"
  using assms by (simp add: unat_word_ariths)

lemma unat_add4:
  fixes a :: u32
  assumes "unat a + 4 < 2 ^ 32" shows "unat (a + 4) = unat a + 4"
  using assms unat_add_no_overflow [of a 4] by simp

text \<open>How many keys a partial map sends to a given value, and what one update does to the count.\<close>

lemma card_map_upd:
  assumes "finite {x. f x = Some p}"
  shows "card {x. (f(k := w)) x = Some p} + (if f k = Some p then 1 else 0)
       = card {x. f x = Some p} + (if w = Some p then 1 else 0)"
proof -
  let ?A = "{x. f x = Some p \<and> x \<noteq> k}"
  have new: "{x. (f(k := w)) x = Some p} = (if w = Some p then insert k ?A else ?A)" by auto
  have old: "{x. f x = Some p} = (if f k = Some p then insert k ?A else ?A)" by auto
  have "finite ?A" using assms by (rule rev_finite_subset) auto
  then show ?thesis unfolding new old by simp
qed

end
