(* ===== verification/Mos_Memory.thy ===== *)
theory Mos_Memory
  imports Mos_Prelude
begin

text \<open>
  Memory and the string library of \<^verbatim>\<open>lib/string.c\<close>.  Memory is a total function from 32-bit byte
  addresses to bytes; the 32-bit accesses are little endian.  The loops of \<open>memcpy\<close> and \<open>memset\<close>
  are kept as the code has them, with the unaligned prefix, the word loop and the tail, and are
  shown equal to the byte-wise reference on every region that does not reach the last four bytes
  of the address space (there the guard \<open>dst + 4 <= max\<close> of the word loop wraps around).
\<close>

section \<open>Bytes and words\<close>

type_synonym mem = "u32 \<Rightarrow> u8"

definition ld32 :: "mem \<Rightarrow> u32 \<Rightarrow> u32" where
  "ld32 m a = ucast (m a) OR push_bit 8 (ucast (m (a + 1)))
     OR push_bit 16 (ucast (m (a + 2))) OR push_bit 24 (ucast (m (a + 3)))"

definition st32 :: "mem \<Rightarrow> u32 \<Rightarrow> u32 \<Rightarrow> mem" where
  "st32 m a v = m(a := ucast v, a + 1 := ucast (drop_bit 8 v),
     a + 2 := ucast (drop_bit 16 v), a + 3 := ucast (drop_bit 24 v))"

definition aligned4 :: "u32 \<Rightarrow> bool" where
  "aligned4 a \<longleftrightarrow> 4 dvd unat a"

lemma word_offsets_distinct: "a + 1 \<noteq> (a::u32)" "a + 2 \<noteq> a" "a + 3 \<noteq> a" "a + 2 \<noteq> a + 1" "a + 3 \<noteq> a + 1" "a + 3 \<noteq> a + 2"
  by simp_all

lemma ld32_eqI:
  assumes "\<And>j. j < 4 \<Longrightarrow> m' (a + of_nat j) = m (a + of_nat j)"
  shows "ld32 m' a = ld32 m a"
  using assms [of 0] assms [of 1] assms [of 2] assms [of 3] by (simp add: ld32_def)

lemma ld32_st32_same [mem_simps]: "ld32 (st32 m a v) a = v"
proof -
  have "ld32 (st32 m a v) a = ucast (ucast v :: u8) OR push_bit 8 (ucast (ucast (drop_bit 8 v) :: u8))
     OR push_bit 16 (ucast (ucast (drop_bit 16 v) :: u8)) OR push_bit 24 (ucast (ucast (drop_bit 24 v) :: u8))"
    by (simp add: ld32_def st32_def)
  also have "\<dots> = v"
  proof (rule bit_word_eqI)
    fix n :: nat assume "n < LENGTH(32)"
    then consider "n < 8" | "8 \<le> n" "n < 16" | "16 \<le> n" "n < 24" | "24 \<le> n" "n < 32"
      by fastforce
    then show "bit (ucast (ucast v :: u8) OR push_bit 8 (ucast (ucast (drop_bit 8 v) :: u8) :: u32)
     OR push_bit 16 (ucast (ucast (drop_bit 16 v) :: u8)) OR push_bit 24 (ucast (ucast (drop_bit 24 v) :: u8))) n
      = bit v n"
      by cases (auto simp: bit_simps)
  qed
  finally show ?thesis .
qed

lemma aligned4_bytes:
  assumes "aligned4 a" "aligned4 b" "a \<noteq> b" "i < 4" "j < 4"
  shows "a + of_nat i \<noteq> b + of_nat j"
proof
  assume eq: "a + of_nat i = b + of_nat j"
  have ua: "unat (x + of_nat k) = unat x + k" if al: "aligned4 x" and k: "k < 4" for x :: u32 and k
  proof -
    have "unat x < 2 ^ 32" by (rule unat_less_2_32)
    with al have "unat x + 4 \<le> 2 ^ 32" by (auto simp: aligned4_def elim!: dvdE)
    with k show ?thesis by (simp add: unat_word_ariths unat_of_nat)
  qed
  have "unat a + i = unat b + j" using eq ua assms by metis
  moreover have "4 dvd unat a" "4 dvd unat b" using assms by (simp_all add: aligned4_def)
  ultimately have "unat a = unat b" using assms(4,5) by (auto elim!: dvdE)
  with assms(3) show False by (simp add: word_unat_eq_iff)
qed

lemma ld32_st32_other [mem_simps]:
  assumes "aligned4 a" "aligned4 b" "a \<noteq> b"
  shows "ld32 (st32 m a v) b = ld32 m b"
proof -
  have ne: "b + of_nat j \<noteq> a + of_nat i" if "i < 4" "j < 4" for i j
    using aligned4_bytes [OF assms that] by metis
  have "st32 m a v (b + of_nat j) = m (b + of_nat j)" if "j < 4" for j
    using ne [of 0 j] ne [of 1 j] ne [of 2 j] ne [of 3 j] that by (simp add: st32_def)
  from this [of 0] this [of 1] this [of 2] this [of 3] show ?thesis
    by (simp add: ld32_def)
qed

section \<open>memset (lib/string.c)\<close>

text \<open>The first and the last loop of \<^verbatim>\<open>memset\<close>: \<open>while (... && dst < max) *dst++ = byte\<close>. The first
  one also stops at an aligned address; both return the updated memory and \<open>dst\<close>.\<close>

function set_prefix :: "mem \<Rightarrow> u32 \<Rightarrow> u32 \<Rightarrow> u8 \<Rightarrow> mem \<times> u32" where
  "set_prefix m dst mx byte =
     (if dst AND 3 \<noteq> 0 \<and> dst < mx then set_prefix (m(dst := byte)) (dst + 1) mx byte else (m, dst))"
  by pat_completeness auto
termination
  by (relation "measure (\<lambda>(m, dst, mx, byte). unat mx - unat dst)")
     (auto simp: Suc_unat_less word_less_nat_alt)

function set_tail :: "mem \<Rightarrow> u32 \<Rightarrow> u32 \<Rightarrow> u8 \<Rightarrow> mem" where
  "set_tail m dst mx byte =
     (if dst < mx then set_tail (m(dst := byte)) (dst + 1) mx byte else m)"
  by pat_completeness auto
termination
  by (relation "measure (\<lambda>(m, dst, mx, byte). unat mx - unat dst)")
     (auto simp: Suc_unat_less word_less_nat_alt)

text \<open>The word loop \<open>while (dst + 4 <= max) { *(uint32_t *)dst = word; dst += 4; }\<close>; the addition in
  its guard is modulo \<open>2 ^ 32\<close>, so it need not end.\<close>

partial_function (option) set_words :: "mem \<Rightarrow> u32 \<Rightarrow> u32 \<Rightarrow> u32 \<Rightarrow> (mem \<times> u32) option" where
  "set_words m dst mx w =
     (if dst + 4 \<le> mx then set_words (st32 m dst w) (dst + 4) mx w else Some (m, dst))"

definition memset :: "mem \<Rightarrow> u32 \<Rightarrow> u32 \<Rightarrow> u32 \<Rightarrow> mem option" where
  "memset m dst c n =
     (let mx = dst + n;
          byte = ucast (c AND 0xff) :: u8;
          word = ucast byte OR push_bit 8 (ucast byte) OR push_bit 16 (ucast byte) OR push_bit 24 (ucast byte);
          (m1, dst1) = set_prefix m dst mx byte
      in do { (m2, dst2) \<leftarrow> set_words m1 dst1 mx word;
              Some (set_tail m2 dst2 mx byte) })"

declare set_prefix.simps [simp del] set_tail.simps [simp del]

text \<open>The reference: exactly the addresses of \<open>[dst, dst + n)\<close> hold the byte.\<close>

definition filled :: "mem \<Rightarrow> u32 \<Rightarrow> u32 \<Rightarrow> u8 \<Rightarrow> mem" where
  "filled m lo hi b = (\<lambda>a. if lo \<le> a \<and> a < hi then b else m a)"

lemma filled_empty: "hi \<le> lo \<Longrightarrow> filled m lo hi b = m"
  by (auto simp: filled_def fun_eq_iff)

lemma filled_step:
  assumes "lo < hi"
  shows "filled (m(lo := b)) (lo + 1) hi b = filled m lo hi b"
proof
  fix a
  have "(lo + 1 \<le> a) = (lo < a)"
    using assms by (simp add: word_le_nat_alt word_less_nat_alt Suc_unat_less Suc_le_eq)
  then show "filled (m(lo := b)) (lo + 1) hi b a = filled m lo hi b a"
    using assms by (auto simp: filled_def)
qed

lemma filled_trans:
  assumes "lo \<le> mid" "mid \<le> hi"
  shows "filled (filled m lo mid b) mid hi b = filled m lo hi b"
  using assms by (auto simp: filled_def fun_eq_iff)

lemma set_tail_filled: "set_tail m dst mx b = filled m dst mx b"
proof (induction m dst mx b rule: set_tail.induct)
  case (1 m dst mx b)
  show ?case
  proof (cases "dst < mx")
    case True
    with "1.IH" show ?thesis
      unfolding set_tail.simps [of m dst mx b] by (simp only: filled_step if_True)
  next
    case False
    then show ?thesis by (simp add: set_tail.simps [of m dst mx b] filled_empty)
  qed
qed

lemma set_prefix_filled:
  "dst \<le> mx \<Longrightarrow> \<exists>d. set_prefix m dst mx b = (filled m dst d b, d) \<and> dst \<le> d \<and> d \<le> mx"
proof (induction m dst mx b rule: set_prefix.induct)
  case (1 m dst mx b)
  show ?case
  proof (cases "dst AND 3 \<noteq> 0 \<and> dst < mx")
    case True
    then have lt: "dst < mx" by simp
    have le: "dst + 1 \<le> mx" using lt by (simp add: word_le_nat_alt word_less_nat_alt Suc_unat_less)
    have ge: "dst < dst + 1" using lt by (simp add: word_less_nat_alt Suc_unat_less)
    obtain d where d: "set_prefix (m(dst := b)) (dst + 1) mx b = (filled (m(dst := b)) (dst + 1) d b, d)"
      "dst + 1 \<le> d" "d \<le> mx"
      using 1 True le by blast
    moreover have "dst < d" using ge d(2) by simp
    ultimately show ?thesis using True
      by (simp add: set_prefix.simps [of m dst mx b] filled_step less_imp_le)
  next
    case False
    then have "set_prefix m dst mx b = (m, dst)"
      unfolding set_prefix.simps [of m dst mx b] by (simp only: if_False)
    then show ?thesis using 1(2) by (auto simp: filled_empty)
  qed
qed

lemma le4_cases:
  fixes a lo :: u32
  assumes "unat lo + 4 < 2 ^ 32"
  shows "(lo \<le> a \<and> a < lo + 4) = (a = lo \<or> a = lo + 1 \<or> a = lo + 2 \<or> a = lo + 3)"
proof -
  have u: "unat (lo + 1) = unat lo + 1" "unat (lo + 2) = unat lo + 2" "unat (lo + 3) = unat lo + 3"
    "unat (lo + 4) = unat lo + 4"
    using assms unat_add_no_overflow [of lo 1] unat_add_no_overflow [of lo 2]
      unat_add_no_overflow [of lo 3] unat_add_no_overflow [of lo 4] by simp_all
  show ?thesis
    unfolding word_le_nat_alt word_less_nat_alt word_unat_eq_iff u by auto
qed

lemma bytes_of_rep:
  fixes b :: u8
  defines "w \<equiv> ucast b OR push_bit 8 (ucast b) OR push_bit 16 (ucast b) OR push_bit 24 (ucast b) :: u32"
  shows "ucast w = b" "ucast (drop_bit 8 w) = b" "ucast (drop_bit 16 w) = b" "ucast (drop_bit 24 w) = b"
proof -
  have nb: "\<not> bit b n" if "8 \<le> n" for n using that by (simp add: bit_word.rep_eq bit_take_bit_iff)
  show "ucast w = b" "ucast (drop_bit 8 w) = b" "ucast (drop_bit 16 w) = b" "ucast (drop_bit 24 w) = b"
    unfolding w_def
    by (rule bit_word_eqI; auto simp: bit_simps nb dest: impossible_bit)+
qed

lemma st32_filled:
  fixes b :: u8
  assumes "unat dst + 4 < 2 ^ 32"
  shows "st32 m dst (ucast b OR push_bit 8 (ucast b) OR push_bit 16 (ucast b) OR push_bit 24 (ucast b))
       = filled m dst (dst + 4) b"
  unfolding st32_def filled_def bytes_of_rep
  using le4_cases [OF assms] by (auto simp: fun_eq_iff)

lemma set_words_filled:
  fixes b :: u8
  assumes "dst \<le> mx" "unat mx + 4 < 2 ^ 32"
  shows "\<exists>d. set_words m dst mx (ucast b OR push_bit 8 (ucast b) OR push_bit 16 (ucast b) OR push_bit 24 (ucast b))
       = Some (filled m dst d b, d) \<and> dst \<le> d \<and> d \<le> mx"
  using assms(1)
proof (induction "unat mx - unat dst" arbitrary: m dst rule: less_induct)
  case less
  have no: "unat (dst + 4) = unat dst + 4"
    using less.prems assms(2) by (simp add: word_le_nat_alt unat_add4)
  show ?case
  proof (cases "dst + 4 \<le> mx")
    case True
    let ?m = "filled m dst (dst + 4) b"
    have *: "unat dst + 4 \<le> unat mx" using True no by (simp add: word_le_nat_alt)
    then have dec: "unat mx - unat (dst + 4) < unat mx - unat dst" using no by simp
    from less.hyps [OF dec True, of ?m] obtain d where
      d: "set_words ?m (dst + 4) mx (ucast b OR push_bit 8 (ucast b) OR push_bit 16 (ucast b) OR push_bit 24 (ucast b))
          = Some (filled ?m (dst + 4) d b, d)" "dst + 4 \<le> d" "d \<le> mx" by blast
    have le: "dst \<le> dst + 4" using no by (simp add: word_le_nat_alt)
    have "unat dst + 4 < 2 ^ 32" using * assms(2) by simp
    then show ?thesis using True d le
      by (auto simp: set_words.simps [of m dst] st32_filled filled_trans)
  next
    case False
    then show ?thesis using less.prems by (simp add: set_words.simps [of m dst] filled_empty)
  qed
qed

theorem memset_filled:
  assumes "unat dst + unat n + 4 < 2 ^ 32"
  shows "memset m dst c n = Some (filled m dst (dst + n) (ucast (c AND 0xff)))"
proof -
  define mx b where "mx = dst + n" and "b = (ucast (c AND 0xff) :: u8)"
  have mx: "unat mx = unat dst + unat n" unfolding mx_def using assms by (intro unat_add_no_overflow) simp
  then have le: "dst \<le> mx" and lim: "unat mx + 4 < 2 ^ 32" using assms by (simp_all add: word_le_nat_alt)
  from set_prefix_filled [OF le, of m b] obtain d where
    d: "set_prefix m dst mx b = (filled m dst d b, d)" "dst \<le> d" "d \<le> mx" by blast
  from set_words_filled [OF d(3) lim, of "filled m dst d b" b] obtain e where
    e: "set_words (filled m dst d b) d mx (ucast b OR push_bit 8 (ucast b) OR push_bit 16 (ucast b) OR push_bit 24 (ucast b))
        = Some (filled (filled m dst d b) d e b, e)" "d \<le> e" "e \<le> mx" by blast
  have "set_tail (filled (filled m dst d b) d e b) e mx b = filled m dst mx b"
    using d e by (simp add: set_tail_filled filled_trans)
  then show ?thesis
    using d(1) e(1) unfolding memset_def by (simp add: Let_def flip: mx_def b_def)
qed

section \<open>memcpy (lib/string.c)\<close>

text \<open>The byte loops \<open>while (dst < max) *dst++ = *src++\<close> and, with the alignment test, the prefix
  loop; and the word loop.\<close>

function copy_tail :: "mem \<Rightarrow> u32 \<Rightarrow> u32 \<Rightarrow> u32 \<Rightarrow> mem" where
  "copy_tail m dst src mx =
     (if dst < mx then copy_tail (m(dst := m src)) (dst + 1) (src + 1) mx else m)"
  by pat_completeness auto
termination
  by (relation "measure (\<lambda>(m, dst, src, mx). unat mx - unat dst)")
     (auto simp: Suc_unat_less word_less_nat_alt)

function copy_prefix :: "mem \<Rightarrow> u32 \<Rightarrow> u32 \<Rightarrow> u32 \<Rightarrow> mem \<times> u32 \<times> u32" where
  "copy_prefix m dst src mx =
     (if dst AND 3 \<noteq> 0 \<and> dst < mx then copy_prefix (m(dst := m src)) (dst + 1) (src + 1) mx
      else (m, dst, src))"
  by pat_completeness auto
termination
  by (relation "measure (\<lambda>(m, dst, src, mx). unat mx - unat dst)")
     (auto simp: Suc_unat_less word_less_nat_alt)

declare copy_tail.simps [simp del] copy_prefix.simps [simp del]

partial_function (option) copy_words :: "mem \<Rightarrow> u32 \<Rightarrow> u32 \<Rightarrow> u32 \<Rightarrow> (mem \<times> u32 \<times> u32) option" where
  "copy_words m dst src mx =
     (if dst + 4 \<le> mx then copy_words (st32 m dst (ld32 m src)) (dst + 4) (src + 4) mx
      else Some (m, dst, src))"

definition memcpy :: "mem \<Rightarrow> u32 \<Rightarrow> u32 \<Rightarrow> u32 \<Rightarrow> mem option" where
  "memcpy m dst src n =
     (let mx = dst + n
      in if src AND 3 \<noteq> dst AND 3 then Some (copy_tail m dst src mx)
         else (let (m1, dst1, src1) = copy_prefix m dst src mx
               in do { (m2, dst2, src2) \<leftarrow> copy_words m1 dst1 src1 mx;
                       Some (copy_tail m2 dst2 src2 mx) }))"

text \<open>The reference copy of \<open>[src, src + (hi - dst))\<close> to \<open>[dst, hi)\<close>, and the condition that the
  two regions do not overlap.\<close>

definition copied :: "mem \<Rightarrow> u32 \<Rightarrow> u32 \<Rightarrow> u32 \<Rightarrow> mem" where
  "copied m dst src hi = (\<lambda>a. if dst \<le> a \<and> a < hi then m (src + (a - dst)) else m a)"

definition no_overlap :: "u32 \<Rightarrow> u32 \<Rightarrow> u32 \<Rightarrow> bool" where
  "no_overlap dst src hi \<longleftrightarrow>
     (\<forall>a b. dst \<le> a \<and> a < hi \<and> dst \<le> b \<and> b < hi \<longrightarrow> src + (a - dst) \<noteq> b)"

lemma copied_empty: "hi \<le> dst \<Longrightarrow> copied m dst src hi = m"
  by (auto simp: copied_def fun_eq_iff)

lemma copied_trans:
  assumes "no_overlap dst src hi" "dst \<le> mid" "mid \<le> hi"
  shows "copied (copied m dst src mid) mid (src + (mid - dst)) hi = copied m dst src hi"
proof
  fix a
  have shift: "src + (mid - dst) + (a - mid) = src + (a - dst)" by simp
  show "copied (copied m dst src mid) mid (src + (mid - dst)) hi a = copied m dst src hi a"
  proof (cases "mid \<le> a \<and> a < hi")
    case True
    then have a: "dst \<le> a" "a < hi" using assms by auto
    have out: "\<not> (dst \<le> src + (a - dst) \<and> src + (a - dst) < mid)"
    proof
      assume "dst \<le> src + (a - dst) \<and> src + (a - dst) < mid"
      then have "dst \<le> src + (a - dst)" "src + (a - dst) < hi" using assms(3) by auto
      with a show False using assms(1) unfolding no_overlap_def by blast
    qed
    then have "copied m dst src mid (src + (a - dst)) = m (src + (a - dst))"
      unfolding copied_def by (simp only: if_False)
    then show ?thesis using True a by (simp add: copied_def [of _ mid] copied_def [of m dst src hi] shift)
  next
    case False
    then show ?thesis using assms(2,3) by (auto simp: copied_def)
  qed
qed

lemma no_overlap_suffix:
  assumes "no_overlap dst src hi" "dst \<le> mid"
  shows "no_overlap mid (src + (mid - dst)) hi"
  unfolding no_overlap_def
proof (intro allI impI)
  fix a b assume ab: "mid \<le> a \<and> a < hi \<and> mid \<le> b \<and> b < hi"
  have shift: "src + (mid - dst) + (a - mid) = src + (a - dst)" by simp
  from ab have "dst \<le> a" "dst \<le> b" using assms(2) by auto
  then show "src + (mid - dst) + (a - mid) \<noteq> b"
    unfolding shift using ab assms(1) unfolding no_overlap_def by blast
qed

lemma copied_one:
  assumes "dst < hi" shows "m(dst := m src) = copied m dst src (dst + 1)"
proof -
  have "(dst \<le> a \<and> a < dst + 1) = (a = dst)" for a
    using assms unfolding word_le_nat_alt word_less_nat_alt Suc_unat_less [OF assms] word_unat_eq_iff by auto
  then show ?thesis by (auto simp: copied_def fun_eq_iff)
qed

lemma copied_step:
  assumes "no_overlap dst src hi" "dst < hi"
  shows "copied (m(dst := m src)) (dst + 1) (src + 1) hi = copied m dst src hi"
proof -
  have "dst \<le> dst + 1" "dst + 1 \<le> hi"
    using assms(2) by (simp_all add: word_le_nat_alt word_less_nat_alt Suc_unat_less)
  from copied_trans [OF assms(1) this] show ?thesis by (simp add: copied_one [OF assms(2)])
qed

lemma no_overlap_step:
  assumes "no_overlap dst src hi" "dst < hi" shows "no_overlap (dst + 1) (src + 1) hi"
proof -
  have "dst \<le> dst + 1" using assms(2) by (simp add: word_le_nat_alt word_less_nat_alt Suc_unat_less)
  from no_overlap_suffix [OF assms(1) this] show ?thesis by simp
qed

lemma copy_tail_copied: "no_overlap dst src mx \<Longrightarrow> copy_tail m dst src mx = copied m dst src mx"
proof (induction m dst src mx rule: copy_tail.induct)
  case (1 m dst src mx)
  show ?case
  proof (cases "dst < mx")
    case True
    from "1.IH" [OF True no_overlap_step [OF "1.prems" True]]
    have "copy_tail m dst src mx = copied (m(dst := m src)) (dst + 1) (src + 1) mx"
      unfolding copy_tail.simps [of m dst] using True by (simp only: if_True)
    then show ?thesis by (simp only: copied_step [OF "1.prems" True])
  next
    case False
    then show ?thesis by (simp add: copy_tail.simps [of m dst] copied_empty)
  qed
qed

lemma copy_prefix_copied:
  "no_overlap dst src mx \<Longrightarrow> dst \<le> mx \<Longrightarrow>
   \<exists>d. copy_prefix m dst src mx = (copied m dst src d, d, src + (d - dst)) \<and> dst \<le> d \<and> d \<le> mx"
proof (induction m dst src mx rule: copy_prefix.induct)
  case (1 m dst src mx)
  show ?case
  proof (cases "dst AND 3 \<noteq> 0 \<and> dst < mx")
    case True
    then have lt: "dst < mx" by simp
    have le: "dst + 1 \<le> mx" "dst < dst + 1" "dst \<le> dst + 1"
      using lt by (simp_all add: word_le_nat_alt word_less_nat_alt Suc_unat_less)
    obtain d where d: "copy_prefix (m(dst := m src)) (dst + 1) (src + 1) mx
        = (copied (m(dst := m src)) (dst + 1) (src + 1) d, d, src + 1 + (d - (dst + 1)))"
      "dst + 1 \<le> d" "d \<le> mx"
      using "1.IH" [OF True no_overlap_step [OF "1.prems"(1) lt] le(1)] by blast
    have dd: "dst < d" "dst \<le> d" using le d(2) by auto
    have no: "no_overlap dst src d" using "1.prems"(1) d(3) unfolding no_overlap_def by fastforce
    have "copy_prefix m dst src mx = (copied m dst src d, d, src + (d - dst))"
      unfolding copy_prefix.simps [of m dst] using True d(1) copied_step [OF no dd(1), of m]
      by (simp only: if_True) (simp add: algebra_simps)
    then show ?thesis using dd(2) d(3) by blast
  next
    case False
    then have "copy_prefix m dst src mx = (m, dst, src)"
      unfolding copy_prefix.simps [of m dst] by (simp only: if_False)
    then show ?thesis using "1.prems"(2) by (auto simp: copied_empty)
  qed
qed

lemma bytes_of_ld32:
  "ucast (ld32 m a) = m a" "ucast (drop_bit 8 (ld32 m a)) = m (a + 1)"
  "ucast (drop_bit 16 (ld32 m a)) = m (a + 2)" "ucast (drop_bit 24 (ld32 m a)) = m (a + 3)"
proof -
  have nb: "\<not> bit (b :: u8) n" if "8 \<le> n" for b n using that by (auto dest: bit_imp_le_length)
  show "ucast (ld32 m a) = m a" "ucast (drop_bit 8 (ld32 m a)) = m (a + 1)"
    "ucast (drop_bit 16 (ld32 m a)) = m (a + 2)" "ucast (drop_bit 24 (ld32 m a)) = m (a + 3)"
    unfolding ld32_def
    by (rule bit_word_eqI; auto simp: bit_simps nb)+
qed

lemma st32_ld32_copied:
  assumes "unat dst + 4 < 2 ^ 32"
  shows "st32 m dst (ld32 m src) = copied m dst src (dst + 4)"
  unfolding st32_def copied_def bytes_of_ld32
  using le4_cases [OF assms] by (auto simp: fun_eq_iff)

lemma copy_words_copied:
  assumes "no_overlap dst src mx" "dst \<le> mx" "unat mx + 4 < 2 ^ 32"
  shows "\<exists>d. copy_words m dst src mx = Some (copied m dst src d, d, src + (d - dst)) \<and> dst \<le> d \<and> d \<le> mx"
  using assms(1,2)
proof (induction "unat mx - unat dst" arbitrary: m dst src rule: less_induct)
  case less
  have no: "unat (dst + 4) = unat dst + 4"
    using less.prems assms(3) by (simp add: word_le_nat_alt unat_add4)
  show ?case
  proof (cases "dst + 4 \<le> mx")
    case True
    let ?m = "copied m dst src (dst + 4)"
    have *: "unat dst + 4 \<le> unat mx" using True no by (simp add: word_le_nat_alt)
    have le: "dst \<le> dst + 4" using no by (simp add: word_le_nat_alt)
    have ov: "no_overlap (dst + 4) (src + 4) mx" using no_overlap_suffix [OF less.prems(1) le] by simp
    have dec: "unat mx - unat (dst + 4) < unat mx - unat dst" using * no by simp
    from less.hyps [OF dec ov True, of ?m] obtain d where
      d: "copy_words ?m (dst + 4) (src + 4) mx
          = Some (copied ?m (dst + 4) (src + 4) d, d, src + 4 + (d - (dst + 4)))" "dst + 4 \<le> d" "d \<le> mx"
      by blast
    have "no_overlap dst src d" using less.prems(1) d(3) unfolding no_overlap_def by fastforce
    from copied_trans [OF this le d(2), of m]
    have "copied ?m (dst + 4) (src + 4) d = copied m dst src d" by simp
    moreover have "unat dst + 4 < 2 ^ 32" using * assms(3) by simp
    ultimately show ?thesis using True d le
      by (auto simp: copy_words.simps [of m dst] st32_ld32_copied algebra_simps)
  next
    case False
    then show ?thesis using less.prems by (auto simp: copy_words.simps [of m dst] copied_empty)
  qed
qed

theorem memcpy_copied:
  assumes "unat dst + unat n + 4 < 2 ^ 32" and "no_overlap dst src (dst + n)"
  shows "memcpy m dst src n = Some (copied m dst src (dst + n))"
proof -
  define mx where "mx = dst + n"
  have mx: "unat mx = unat dst + unat n" unfolding mx_def using assms(1) by (intro unat_add_no_overflow) simp
  then have le: "dst \<le> mx" and lim: "unat mx + 4 < 2 ^ 32" using assms(1) by (simp_all add: word_le_nat_alt)
  have no: "no_overlap dst src mx" using assms(2) by (simp add: mx_def)
  show ?thesis
  proof (cases "src AND 3 = dst AND 3")
    case False
    then show ?thesis using copy_tail_copied [OF no] by (simp add: memcpy_def Let_def mx_def)
  next
    case True
    from copy_prefix_copied [OF no le, of m] obtain d where
      d: "copy_prefix m dst src mx = (copied m dst src d, d, src + (d - dst))" "dst \<le> d" "d \<le> mx" by blast
    have no2: "no_overlap d (src + (d - dst)) mx" by (rule no_overlap_suffix [OF no d(2)])
    from copy_words_copied [OF no2 d(3) lim, of "copied m dst src d"] obtain e where
      e: "copy_words (copied m dst src d) d (src + (d - dst)) mx
          = Some (copied (copied m dst src d) d (src + (d - dst)) e, e, src + (d - dst) + (e - d))"
         "d \<le> e" "e \<le> mx" by blast
    have "no_overlap dst src e" using no e(3) unfolding no_overlap_def by fastforce
    then have c: "copied (copied m dst src d) d (src + (d - dst)) e = copied m dst src e"
      using copied_trans d(2) e(2) by blast
    have le2: "dst \<le> e" using d e by simp
    have sh: "src + (d - dst) + (e - d) = src + (e - dst)" by simp
    have "copy_tail (copied m dst src e) e (src + (e - dst)) mx = copied m dst src mx"
      using copy_tail_copied [OF no_overlap_suffix [OF no le2]] copied_trans [OF no le2 e(3)] by simp
    then show ?thesis using True d(1) e(1)
      by (simp add: memcpy_def Let_def c sh del: add_diff_eq flip: mx_def)
  qed
qed

section \<open>C strings (lib/string.c)\<close>

text \<open>The loop of \<^verbatim>\<open>strlen\<close> (with its counter \<open>n\<close>), \<^verbatim>\<open>strcpy\<close>, \<^verbatim>\<open>strchr\<close> (\<open>None\<close> inside is the
  NULL it returns) and \<^verbatim>\<open>strcmp\<close>. None of them is bounded, so each is a partial function. Plain
  \<^verbatim>\<open>char\<close> is unsigned on this target.\<close>

partial_function (option) strlen_loop :: "mem \<Rightarrow> u32 \<Rightarrow> u32 \<Rightarrow> u32 option" where
  "strlen_loop m s n = (if m s \<noteq> 0 then strlen_loop m (s + 1) (n + 1) else Some n)"

definition strlen :: "mem \<Rightarrow> u32 \<Rightarrow> u32 option" where
  "strlen m s = strlen_loop m s 0"

partial_function (option) strcpy :: "mem \<Rightarrow> u32 \<Rightarrow> u32 \<Rightarrow> mem option" where
  "strcpy m dst src =
     (let m' = m(dst := m src)
      in if m src \<noteq> 0 then strcpy m' (dst + 1) (src + 1) else Some m')"

partial_function (option) strchr :: "mem \<Rightarrow> u32 \<Rightarrow> u32 \<Rightarrow> u32 option option" where
  "strchr m s c =
     (if m s \<noteq> 0 then (if ucast (m s) = c then Some (Some s) else strchr m (s + 1) c)
      else Some None)"

partial_function (option) strcmp :: "mem \<Rightarrow> u32 \<Rightarrow> u32 \<Rightarrow> int option" where
  "strcmp m p q =
     (if m p \<noteq> 0 \<and> m p = m q then strcmp m (p + 1) (q + 1)
      else if (ucast (m p) :: u32) < ucast (m q) then Some (-1)
      else if (ucast (m p) :: u32) > ucast (m q) then Some 1
      else Some 0)"

text \<open>\<open>cstr m s xs\<close>: a NUL-terminated string with the bytes \<open>xs\<close> is stored at \<open>s\<close>.\<close>

fun cstr :: "mem \<Rightarrow> u32 \<Rightarrow> u8 list \<Rightarrow> bool" where
  "cstr m s [] = (m s = 0)"
| "cstr m s (x # xs) = (m s = x \<and> x \<noteq> 0 \<and> cstr m (s + 1) xs)"

lemma cstr_unique: "cstr m s xs \<Longrightarrow> cstr m s ys \<Longrightarrow> xs = ys"
  by (induction m s xs arbitrary: ys rule: cstr.induct) (case_tac ys; force)+

lemma strlen_loop_cstr: "cstr m s xs \<Longrightarrow> strlen_loop m s n = Some (n + of_nat (length xs))"
  by (induction m s xs arbitrary: n rule: cstr.induct) (simp_all add: strlen_loop.simps algebra_simps)

theorem strlen_cstr: "cstr m s xs \<Longrightarrow> strlen m s = Some (of_nat (length xs))"
  by (simp add: strlen_def strlen_loop_cstr)

lemma cstr_frame:
  "cstr m s xs \<Longrightarrow> (\<And>i. i \<le> length xs \<Longrightarrow> m' (s + of_nat i) = m (s + of_nat i)) \<Longrightarrow> cstr m' s xs"
proof (induction m s xs rule: cstr.induct)
  case (1 m s)
  from 1(1) 1(2) [of 0] show ?case by simp
next
  case (2 m s x xs)
  have "m' (s + 1 + of_nat i) = m (s + 1 + of_nat i)" if "i \<le> length xs" for i
    using 2(3) [of "Suc i"] that by (simp add: algebra_simps)
  with 2 2(3) [of 0] show ?case by simp
qed

text \<open>The bytes that \<open>strcpy\<close> writes: the string and its terminator.\<close>

lemma strcpy_frame:
  "cstr m src xs \<Longrightarrow>
   (\<And>i j. i \<le> length xs \<Longrightarrow> j \<le> length xs \<Longrightarrow> dst + of_nat i \<noteq> src + of_nat j) \<Longrightarrow>
   length xs < 2 ^ 32 \<Longrightarrow>
   \<exists>m'. strcpy m dst src = Some m' \<and> cstr m' dst xs \<and>
     (\<forall>a. (\<forall>i \<le> length xs. a \<noteq> dst + of_nat i) \<longrightarrow> m' a = m a)"
proof (induction xs arbitrary: m dst src)
  case Nil
  then show ?case by (intro exI [of _ "m(dst := m src)"]) (auto simp: strcpy.simps [of m dst])
next
  case (Cons x xs)
  let ?m = "m(dst := m src)"
  have disj: "dst + 1 + of_nat i \<noteq> src + 1 + of_nat j" if "i \<le> length xs" "j \<le> length xs" for i j
    using Cons.prems(2) [of "Suc i" "Suc j"] that by (simp add: algebra_simps)
  have "?m (src + 1 + of_nat i) = m (src + 1 + of_nat i)" if "i \<le> length xs" for i
    using Cons.prems(2) [of 0 "Suc i"] that by (auto simp: algebra_simps)
  moreover have "cstr m (src + 1) xs" using Cons.prems(1) by simp
  ultimately have c: "cstr ?m (src + 1) xs" by (rule cstr_frame [rotated])
  have len: "length xs < 2 ^ 32" using Cons.prems(3) by simp
  from Cons.IH [OF c disj len] obtain m' where
    m': "strcpy ?m (dst + 1) (src + 1) = Some m'" "cstr m' (dst + 1) xs"
    and frame: "\<And>a. (\<forall>i \<le> length xs. a \<noteq> dst + 1 + of_nat i) \<Longrightarrow> m' a = ?m a" by blast
  have "dst \<noteq> dst + 1 + of_nat i" if "i \<le> length xs" for i
  proof
    assume "dst = dst + 1 + of_nat i"
    then have "of_nat (Suc i) = (0 :: u32)" by (simp add: algebra_simps)
    then have "2 ^ LENGTH(32) dvd Suc i" by (simp only: word_of_nat_eq_0_iff)
    then show False using that Cons.prems(3) by (auto dest!: dvd_imp_le)
  qed
  then have "m' dst = x" using frame [of dst] Cons.prems(1) by simp
  moreover have "m' a = m a" if "\<forall>i \<le> Suc (length xs). a \<noteq> dst + of_nat i" for a
  proof -
    have "a \<noteq> dst + 1 + of_nat i" if "i \<le> length xs" for i
      using \<open>\<forall>i \<le> Suc (length xs). a \<noteq> dst + of_nat i\<close> [rule_format, of "Suc i"] that
      by (simp add: algebra_simps)
    moreover have "a \<noteq> dst" using that [rule_format, of 0] by simp
    ultimately show ?thesis using frame [of a] by simp
  qed
  moreover have "strcpy m dst src = Some m'"
    using m'(1) Cons.prems(1) by (simp add: strcpy.simps [of m dst] Let_def)
  ultimately show ?case using m' Cons.prems(1) by auto
qed

lemma unat_ucast_u8: "unat (ucast (x :: u8) :: u32) = unat x"
proof -
  have "unat x < 2 ^ 8" using unsigned_less [of x] by simp
  then have "unat x < 2 ^ 32" by simp
  then show ?thesis by (simp add: unsigned_ucast_eq take_bit_nat_eq_self)
qed

lemma ucast_u8_less: "((ucast (x :: u8) :: u32) < ucast y) = (x < y)"
  by (simp add: word_less_nat_alt unat_ucast_u8)

lemma ucast_u8_eq: "((ucast (x :: u8) :: u32) = ucast y) = (x = y)"
  unfolding word_unat_eq_iff unat_ucast_u8 ..

lemma ucast_u8_eq_0: "((ucast (x :: u8) :: u32) = 0) = (x = 0)"
  using ucast_u8_eq [of x 0] by simp

theorem strchr_cstr:
  "cstr m s xs \<Longrightarrow>
   strchr m s (ucast c) =
     Some (if c \<in> set xs then Some (s + of_nat (length (takeWhile (\<lambda>x. x \<noteq> c) xs))) else None)"
  by (induction m s xs rule: cstr.induct)
     (auto simp: strchr.simps algebra_simps ucast_u8_eq)

text \<open>\<open>strcmp\<close> is the three-way lexicographic comparison; in particular it returns 0 exactly on
  equal strings, which is what the directory lookup relies on.\<close>

fun lex_cmp :: "u8 list \<Rightarrow> u8 list \<Rightarrow> int" where
  "lex_cmp [] [] = 0"
| "lex_cmp [] (y # ys) = -1"
| "lex_cmp (x # xs) [] = 1"
| "lex_cmp (x # xs) (y # ys) = (if x = y then lex_cmp xs ys else if x < y then -1 else 1)"

lemma lex_cmp_0_iff: "lex_cmp xs ys = 0 \<longleftrightarrow> xs = ys"
  by (induction xs ys rule: lex_cmp.induct) auto

lemma strcmp_lex: "cstr m p xs \<Longrightarrow> cstr m q ys \<Longrightarrow> strcmp m p q = Some (lex_cmp xs ys)"
proof (induction xs ys arbitrary: p q rule: lex_cmp.induct)
  case 1
  then show ?case by (simp add: strcmp.simps [of m p])
next
  case (2 y ys)
  then show ?case by (simp add: strcmp.simps [of m p] ucast_u8_less ucast_u8_eq_0 word_greater_zero_iff)
next
  case (3 x xs)
  then show ?case by (simp add: strcmp.simps [of m p] ucast_u8_less ucast_u8_eq_0 word_greater_zero_iff)
next
  case (4 x xs y ys)
  show ?case
  proof (cases "x = y")
    case True
    with 4 show ?thesis by (simp add: strcmp.simps [of m p])
  next
    case False
    with "4.prems" show ?thesis
      by (auto simp: strcmp.simps [of m p] ucast_u8_less not_less_iff_gr_or_eq)
  qed
qed

theorem strcmp_0_iff: "cstr m p xs \<Longrightarrow> cstr m q ys \<Longrightarrow> strcmp m p q = Some 0 \<longleftrightarrow> xs = ys"
  by (simp add: strcmp_lex lex_cmp_0_iff)

end
