(* ===== verification/Mos_Queue.thy ===== *)
theory Mos_Queue
  imports Mos_Prelude
begin

text \<open>
  The intrusive doubly linked lists and tail queues of \<^verbatim>\<open>include/queue.h\<close>, at pointer level.

  The state of one list head and of the link fields of all elements is the record \<open>links\<close>:
  \<open>q_first\<close> is \<^verbatim>\<open>lh_first\<close> / \<^verbatim>\<open>tqh_first\<close>, \<open>q_next e\<close> is \<^verbatim>\<open>e->field.le_next\<close> / \<^verbatim>\<open>tqe_next\<close> and
  \<open>q_prev e\<close> is \<^verbatim>\<open>e->field.le_prev\<close> / \<^verbatim>\<open>tqe_prev\<close>.  The latter is the address of a pointer cell:
  the head's first pointer or some element's next pointer (type \<open>cell\<close>), or NULL.  A tail queue
  adds \<^verbatim>\<open>tqh_last\<close>.  Each macro is translated assignment by assignment; a store through a NULL
  \<open>prev\<close> pointer is the result \<open>None\<close>.

  The locale \<open>intrusive_list\<close> is the interface the page allocator and the environment table rely
  on, with represented lists as its specification; \<open>tail_queue\<close> extends it for the scheduler.
\<close>

section \<open>Pointers and cells\<close>

datatype 'a cell = FirstCell | NextCell 'a

record 'a links =
  q_first :: "'a option"
  q_next :: "'a \<Rightarrow> 'a option"
  q_prev :: "'a \<Rightarrow> 'a cell option"

record 'a tailq = "'a links" +
  tqh_last :: "'a cell option"

fun deref :: "('a, 'b) links_scheme \<Rightarrow> 'a cell \<Rightarrow> 'a option" where
  "deref q FirstCell = q_first q"
| "deref q (NextCell e) = q_next q e"

fun put :: "('a, 'b) links_scheme \<Rightarrow> 'a cell \<Rightarrow> 'a option \<Rightarrow> ('a, 'b) links_scheme" where
  "put q FirstCell v = q\<lparr>q_first := v\<rparr>"
| "put q (NextCell e) v = q\<lparr>q_next := (q_next q)(e := v)\<rparr>"

definition set_prev :: "('a, 'b) links_scheme \<Rightarrow> 'a \<Rightarrow> 'a cell option \<Rightarrow> ('a, 'b) links_scheme" where
  "set_prev q e c = q\<lparr>q_prev := (q_prev q)(e := c)\<rparr>"

definition set_next :: "('a, 'b) links_scheme \<Rightarrow> 'a \<Rightarrow> 'a option \<Rightarrow> ('a, 'b) links_scheme" where
  "set_next q e v = q\<lparr>q_next := (q_next q)(e := v)\<rparr>"

section \<open>The LIST macros\<close>

definition LIST_EMPTY :: "('a, 'b) links_scheme \<Rightarrow> bool" where
  "LIST_EMPTY q \<longleftrightarrow> q_first q = None"

definition LIST_FIRST :: "('a, 'b) links_scheme \<Rightarrow> 'a option" where
  "LIST_FIRST q = q_first q"

definition LIST_NEXT :: "('a, 'b) links_scheme \<Rightarrow> 'a \<Rightarrow> 'a option" where
  "LIST_NEXT q e = q_next q e"

definition LIST_INIT :: "('a, 'b) links_scheme \<Rightarrow> ('a, 'b) links_scheme" where
  "LIST_INIT q = q\<lparr>q_first := None\<rparr>"

definition LIST_INSERT_AFTER :: "('a, 'b) links_scheme \<Rightarrow> 'a \<Rightarrow> 'a \<Rightarrow> ('a, 'b) links_scheme" where
  "LIST_INSERT_AFTER q listelm elm =
     (let q = set_next q elm (q_next q listelm);
          q = (case q_next q listelm of None \<Rightarrow> q | Some n \<Rightarrow> set_prev q n (Some (NextCell elm)));
          q = set_next q listelm (Some elm)
      in set_prev q elm (Some (NextCell listelm)))"

definition LIST_INSERT_BEFORE :: "('a, 'b) links_scheme \<Rightarrow> 'a \<Rightarrow> 'a \<Rightarrow> ('a, 'b) links_scheme option" where
  "LIST_INSERT_BEFORE q listelm elm =
     (let q = set_prev q elm (q_prev q listelm);
          q = set_next q elm (Some listelm)
      in do { c \<leftarrow> q_prev q listelm;
              let q = put q c (Some elm);
              Some (set_prev q listelm (Some (NextCell elm))) })"

definition LIST_INSERT_HEAD :: "('a, 'b) links_scheme \<Rightarrow> 'a \<Rightarrow> ('a, 'b) links_scheme" where
  "LIST_INSERT_HEAD q elm =
     (let q = set_next q elm (q_first q);
          q = (case q_first q of None \<Rightarrow> q | Some n \<Rightarrow> set_prev q n (Some (NextCell elm)));
          q = q\<lparr>q_first := Some elm\<rparr>
      in set_prev q elm (Some FirstCell))"

definition LIST_REMOVE :: "('a, 'b) links_scheme \<Rightarrow> 'a \<Rightarrow> ('a, 'b) links_scheme option" where
  "LIST_REMOVE q elm =
     (let q = (case q_next q elm of None \<Rightarrow> q | Some n \<Rightarrow> set_prev q n (q_prev q elm))
      in do { c \<leftarrow> q_prev q elm; Some (put q c (q_next q elm)) })"

section \<open>The TAILQ macros\<close>

definition TAILQ_INIT :: "('a, 'b) tailq_scheme \<Rightarrow> ('a, 'b) tailq_scheme" where
  "TAILQ_INIT q = q\<lparr>q_first := None, tqh_last := Some FirstCell\<rparr>"

definition TAILQ_EMPTY :: "('a, 'b) tailq_scheme \<Rightarrow> bool" where
  "TAILQ_EMPTY q \<longleftrightarrow> q_first q = None"

definition TAILQ_FIRST :: "('a, 'b) tailq_scheme \<Rightarrow> 'a option" where
  "TAILQ_FIRST q = q_first q"

definition TAILQ_INSERT_HEAD :: "('a, 'b) tailq_scheme \<Rightarrow> 'a \<Rightarrow> ('a, 'b) tailq_scheme" where
  "TAILQ_INSERT_HEAD q elm =
     (let q = set_next q elm (q_first q);
          q = (case q_first q of
                 Some n \<Rightarrow> set_prev q n (Some (NextCell elm))
               | None \<Rightarrow> q\<lparr>tqh_last := Some (NextCell elm)\<rparr>);
          q = q\<lparr>q_first := Some elm\<rparr>
      in set_prev q elm (Some FirstCell))"

definition TAILQ_INSERT_TAIL :: "('a, 'b) tailq_scheme \<Rightarrow> 'a \<Rightarrow> ('a, 'b) tailq_scheme option" where
  "TAILQ_INSERT_TAIL q elm =
     (let q = set_next q elm None;
          q = set_prev q elm (tqh_last q)
      in do { c \<leftarrow> tqh_last q;
              let q = put q c (Some elm);
              Some (q\<lparr>tqh_last := Some (NextCell elm)\<rparr>) })"

definition TAILQ_INSERT_AFTER :: "('a, 'b) tailq_scheme \<Rightarrow> 'a \<Rightarrow> 'a \<Rightarrow> ('a, 'b) tailq_scheme" where
  "TAILQ_INSERT_AFTER q listelm elm =
     (let q = set_next q elm (q_next q listelm);
          q = (case q_next q elm of
                 Some n \<Rightarrow> set_prev q n (Some (NextCell elm))
               | None \<Rightarrow> q\<lparr>tqh_last := Some (NextCell elm)\<rparr>);
          q = set_next q listelm (Some elm)
      in set_prev q elm (Some (NextCell listelm)))"

definition TAILQ_REMOVE :: "('a, 'b) tailq_scheme \<Rightarrow> 'a \<Rightarrow> ('a, 'b) tailq_scheme option" where
  "TAILQ_REMOVE q elm =
     (let q = (case q_next q elm of
                 Some n \<Rightarrow> set_prev q n (q_prev q elm)
               | None \<Rightarrow> q\<lparr>tqh_last := q_prev q elm\<rparr>)
      in do { c \<leftarrow> q_prev q elm; Some (put q c (q_next q elm)) })"

text \<open>The state of link fields in zero-initialised storage, and of an uninitialised head.\<close>

definition zero_links :: "'a links" where
  "zero_links = \<lparr>q_first = None, q_next = (\<lambda>_. None), q_prev = (\<lambda>_. None)\<rparr>"

definition zero_tailq :: "'a tailq" where
  "zero_tailq = \<lparr>q_first = None, q_next = (\<lambda>_. None), q_prev = (\<lambda>_. None), tqh_last = None\<rparr>"

text \<open>The traversal \<open>LIST_FOREACH\<close> / \<open>TAILQ_FOREACH\<close>, with a bound on the number of elements.\<close>

fun walk_from :: "nat \<Rightarrow> ('a, 'b) links_scheme \<Rightarrow> 'a option \<Rightarrow> 'a list option" where
  "walk_from n q None = Some []"
| "walk_from 0 q (Some e) = None"
| "walk_from (Suc n) q (Some e) = map_option ((#) e) (walk_from n q (q_next q e))"

section \<open>Represented lists\<close>

text \<open>\<open>seg q c xs\<close>: starting from the pointer stored in cell \<open>c\<close>, the next pointers run through
  \<open>xs\<close> and end in NULL, and every prev pointer is the address of the cell that points to it.\<close>

fun seg :: "('a, 'b) links_scheme \<Rightarrow> 'a cell \<Rightarrow> 'a list \<Rightarrow> bool" where
  "seg q c [] \<longleftrightarrow> deref q c = None"
| "seg q c (x # xs) \<longleftrightarrow> deref q c = Some x \<and> q_prev q x = Some c \<and> seg q (NextCell x) xs"

definition list_rep :: "('a, 'b) links_scheme \<Rightarrow> 'a list \<Rightarrow> bool" where
  "list_rep q xs \<longleftrightarrow> distinct xs \<and> seg q FirstCell xs"

text \<open>The same for an initial part of a list, and the cell in which the rest continues.\<close>

fun part :: "('a, 'b) links_scheme \<Rightarrow> 'a cell \<Rightarrow> 'a list \<Rightarrow> bool" where
  "part q c [] \<longleftrightarrow> True"
| "part q c (x # xs) \<longleftrightarrow> deref q c = Some x \<and> q_prev q x = Some c \<and> part q (NextCell x) xs"

fun end_cell :: "'a cell \<Rightarrow> 'a list \<Rightarrow> 'a cell" where
  "end_cell c [] = c"
| "end_cell c (x # xs) = end_cell (NextCell x) xs"

definition tailq_rep :: "('a, 'b) tailq_scheme \<Rightarrow> 'a list \<Rightarrow> bool" where
  "tailq_rep q xs \<longleftrightarrow> list_rep q xs \<and> tqh_last q = Some (end_cell FirstCell xs)"

lemma end_cell_append [simp]: "end_cell c (xs @ ys) = end_cell (end_cell c xs) ys"
  by (induction xs arbitrary: c) auto

lemma end_cell_cases: "xs \<noteq> [] \<Longrightarrow> end_cell c xs = NextCell (last xs)"
  by (induction xs arbitrary: c) auto

lemma seg_append: "seg q c (xs @ ys) \<longleftrightarrow> part q c xs \<and> seg q (end_cell c xs) ys"
  by (induction xs arbitrary: c) auto

lemma seg_part: "seg q c xs \<longleftrightarrow> part q c xs \<and> deref q (end_cell c xs) = None"
  using seg_append [of q c xs "[]"] by simp

lemma seg_cong:
  assumes "seg q c xs" "deref q' c = deref q c"
    "\<And>x. x \<in> set xs \<Longrightarrow> q_next q' x = q_next q x" "\<And>x. x \<in> set xs \<Longrightarrow> q_prev q' x = q_prev q x"
  shows "seg q' c xs"
  using assms by (induction xs arbitrary: c) auto

lemma part_cong:
  assumes "part q c xs" "xs \<noteq> [] \<Longrightarrow> deref q' c = deref q c"
    "\<And>x. x \<in> set (butlast xs) \<Longrightarrow> q_next q' x = q_next q x"
    "\<And>x. x \<in> set xs \<Longrightarrow> q_prev q' x = q_prev q x"
  shows "part q' c xs"
  using assms
proof (induction xs arbitrary: c)
  case (Cons x xs)
  have "part q' (NextCell x) xs"
  proof (rule Cons.IH)
    show "part q (NextCell x) xs" using Cons.prems(1) by simp
    show "deref q' (NextCell x) = deref q (NextCell x)" if "xs \<noteq> []"
      using Cons.prems(3) [of x] that by simp
    show "q_next q' y = q_next q y" if "y \<in> set (butlast xs)" for y
      using Cons.prems(3) [of y] that by (cases "xs = []") auto
    show "q_prev q' y = q_prev q y" if "y \<in> set xs" for y
      using Cons.prems(4) [of y] that by simp
  qed
  then show ?case using Cons.prems(1,2) Cons.prems(4) [of x] by simp
qed simp

lemma seg_unique: "seg q c xs \<Longrightarrow> seg q c ys \<Longrightarrow> xs = ys"
proof (induction xs arbitrary: c ys)
  case Nil
  then show ?case by (cases ys) auto
next
  case (Cons x xs)
  then show ?case by (cases ys) auto
qed

lemma list_rep_unique: "list_rep q xs \<Longrightarrow> list_rep q ys \<Longrightarrow> xs = ys"
  by (auto simp: list_rep_def dest: seg_unique)

lemma walk_from_seg:
  "seg q c xs \<Longrightarrow> length xs \<le> n \<Longrightarrow> walk_from n q (deref q c) = Some xs"
proof (induction xs arbitrary: c n)
  case (Cons x xs)
  then obtain k where "n = Suc k" by (cases n) auto
  with Cons.IH [of "NextCell x" k] Cons.prems show ?case by simp
qed simp

lemmas link_defs = set_prev_def set_next_def Let_def

lemma list_rep_first [list_rep_simps]: "list_rep q xs \<Longrightarrow> LIST_FIRST q = (case xs of [] \<Rightarrow> None | x # _ \<Rightarrow> Some x)"
  by (cases xs) (auto simp: list_rep_def LIST_FIRST_def)

lemma list_rep_init: "list_rep (LIST_INIT q) []"
  by (simp add: list_rep_def LIST_INIT_def)

lemma insert_head_fields:
  "q_first (LIST_INSERT_HEAD q x) = Some x"
  "q_next (LIST_INSERT_HEAD q x) y = (if y = x then q_first q else q_next q y)"
  "q_prev (LIST_INSERT_HEAD q x) y =
     (if y = x then Some FirstCell else if q_first q = Some y then Some (NextCell x) else q_prev q y)"
  by (cases "q_first q"; simp add: LIST_INSERT_HEAD_def link_defs)+

lemma tailq_insert_head_fields:
  "q_first (TAILQ_INSERT_HEAD q x) = Some x"
  "q_next (TAILQ_INSERT_HEAD q x) y = (if y = x then q_first q else q_next q y)"
  "q_prev (TAILQ_INSERT_HEAD q x) y =
     (if y = x then Some FirstCell else if q_first q = Some y then Some (NextCell x) else q_prev q y)"
  "tqh_last (TAILQ_INSERT_HEAD q x) = (if q_first q = None then Some (NextCell x) else tqh_last q)"
  by (cases "q_first q"; simp add: TAILQ_INSERT_HEAD_def link_defs)+

text \<open>The common argument for both: a state with these fields represents the longer list.\<close>

lemma seg_insert_head:
  assumes "seg q FirstCell xs" "x \<notin> set xs" "distinct xs"
    and "q_first q' = Some x"
    and "\<And>y. q_next q' y = (if y = x then q_first q else q_next q y)"
    and "\<And>y. q_prev q' y =
           (if y = x then Some FirstCell else if q_first q = Some y then Some (NextCell x) else q_prev q y)"
  shows "seg q' FirstCell (x # xs)"
proof (cases xs)
  case Nil
  then show ?thesis using assms by simp
next
  case (Cons y ys)
  have "seg q' (NextCell y) ys"
  proof (rule seg_cong)
    show "seg q (NextCell y) ys" using assms(1) Cons by simp
  qed (use assms Cons in auto)
  then show ?thesis using assms Cons by auto
qed

lemma list_rep_insert_head:
  assumes "list_rep q xs" "x \<notin> set xs"
  shows "list_rep (LIST_INSERT_HEAD q x) (x # xs)"
proof -
  have "seg q FirstCell xs" "distinct xs" using assms(1) by (auto simp: list_rep_def)
  then have "seg (LIST_INSERT_HEAD q x) FirstCell (x # xs)"
    by (rule seg_insert_head [OF _ assms(2) _ insert_head_fields])
  with assms show ?thesis by (simp add: list_rep_def)
qed

text \<open>What removing an element does to the links, for both kinds of list.\<close>

definition unlink :: "('a, 'b) links_scheme \<Rightarrow> 'a \<Rightarrow> 'a cell \<Rightarrow> ('a, 'b) links_scheme" where
  "unlink q x c =
     put (case q_next q x of None \<Rightarrow> q | Some n \<Rightarrow> set_prev q n (Some c)) c (q_next q x)"

lemma put_fields [simp]:
  "q_prev (put q c v) = q_prev q"
  "q_next (put q c v) = (case c of FirstCell \<Rightarrow> q_next q | NextCell e \<Rightarrow> (q_next q)(e := v))"
  "q_first (put q c v) = (case c of FirstCell \<Rightarrow> v | NextCell e \<Rightarrow> q_first q)"
  by (cases c; simp)+

lemma deref_put [simp]: "deref (put q c v) d = (if d = c then v else deref q d)"
  by (cases c; cases d) auto

lemma unlink_prev: "q_prev (unlink q x c) y = (if q_next q x = Some y then Some c else q_prev q y)"
  by (auto simp: unlink_def set_prev_def split: option.splits)

lemma unlink_next: "q_next (unlink q x c) y = (if c = NextCell y then q_next q x else q_next q y)"
  by (cases c) (auto simp: unlink_def set_prev_def split: option.splits)

lemma unlink_deref: "deref (unlink q x c) d = (if d = c then q_next q x else deref q d)"
proof -
  have "deref (case q_next q x of None \<Rightarrow> q | Some n \<Rightarrow> set_prev q n (Some c)) d = deref q d"
    by (cases d) (auto simp: set_prev_def split: option.splits)
  then show ?thesis unfolding unlink_def by simp
qed

lemma unlink_first: "q_first (unlink q x c) = (if c = FirstCell then q_next q x else q_first q)"
  using unlink_deref [of q x c FirstCell] by (auto split: if_splits)

lemma seg_unlink:
  assumes "seg q FirstCell (as @ x # bs)" "distinct (as @ x # bs)"
  shows "q_prev q x = Some (end_cell FirstCell as)"
    and "seg (unlink q x (end_cell FirstCell as)) FirstCell (as @ bs)"
proof -
  define c where "c = end_cell FirstCell as"
  have as: "part q FirstCell as" and dx: "deref q c = Some x" and px: "q_prev q x = Some c"
    and bs: "seg q (NextCell x) bs"
    using assms(1) by (auto simp: seg_append c_def)
  show "q_prev q x = Some (end_cell FirstCell as)" using px by (simp add: c_def)
  have c_in: "c = FirstCell \<and> as = [] \<or> (\<exists>l. as \<noteq> [] \<and> l = last as \<and> c = NextCell l)"
    unfolding c_def using end_cell_cases [of as FirstCell] by (cases "as = []") auto
  have nx: "q_next q x = (case bs of [] \<Rightarrow> None | b # _ \<Rightarrow> Some b)" using bs by (cases bs) auto
  have "part (unlink q x c) FirstCell as"
  proof (rule part_cong [OF as])
    fix y assume "y \<in> set as"
    then show "q_prev (unlink q x c) y = q_prev q y"
      using assms(2) nx by (auto simp: unlink_prev split: list.splits)
  next
    fix y assume y: "y \<in> set (butlast as)"
    then have "as \<noteq> []" by auto
    moreover have "distinct as" using assms(2) by simp
    ultimately have "y \<noteq> last as" using y
      by (metis append_butlast_last_id distinct_append disjoint_iff list.set_intros(1))
    then show "q_next (unlink q x c) y = q_next q y" using c_in by (auto simp: unlink_next)
  qed (use c_in in \<open>auto simp: unlink_first\<close>)
  moreover have "seg (unlink q x c) c bs"
  proof (cases bs)
    case Nil
    then show ?thesis using nx by (simp add: unlink_deref)
  next
    case (Cons b cs)
    have "seg (unlink q x c) (NextCell b) cs"
    proof (rule seg_cong)
      show "seg q (NextCell b) cs" using bs Cons by simp
    next
      fix y assume y: "y \<in> set cs"
      then have "y \<notin> set as" using assms(2) Cons by auto
      then have "c \<noteq> NextCell y" using c_in last_in_set by auto
      then show "q_next (unlink q x c) y = q_next q y" by (simp add: unlink_next)
      show "q_prev (unlink q x c) y = q_prev q y" using y assms(2) Cons nx by (auto simp: unlink_prev)
    next
      have "b \<notin> set as" using assms(2) Cons by auto
      then have "c \<noteq> NextCell b" using c_in last_in_set by auto
      then show "deref (unlink q x c) (NextCell b) = deref q (NextCell b)" by (simp add: unlink_next)
    qed
    then show ?thesis using Cons nx by (simp add: unlink_deref unlink_prev)
  qed
  ultimately show "seg (unlink q x (end_cell FirstCell as)) FirstCell (as @ bs)"
    by (simp add: seg_append c_def)
qed

lemma list_rep_remove:
  assumes "list_rep q xs" "x \<in> set xs"
  shows "\<exists>q'. LIST_REMOVE q x = Some q' \<and> list_rep q' (remove1 x xs)"
proof -
  obtain as bs where xs: "xs = as @ x # bs" using assms(2) by (auto simp: in_set_conv_decomp)
  have d: "distinct (as @ x # bs)" and s: "seg q FirstCell (as @ x # bs)"
    using assms(1) xs by (auto simp: list_rep_def)
  note u = seg_unlink [OF s d]
  have "LIST_REMOVE q x = Some (unlink q x (end_cell FirstCell as))"
    using u(1) by (auto simp: LIST_REMOVE_def unlink_def link_defs split: option.splits)
  moreover have "remove1 x xs = as @ bs" using xs d by (simp add: remove1_append)
  ultimately show ?thesis using u(2) d by (auto simp: list_rep_def)
qed

lemma list_rep_insert_after:
  assumes "list_rep q (as @ l # bs)" "x \<notin> set (as @ l # bs)"
  shows "list_rep (LIST_INSERT_AFTER q l x) (as @ l # x # bs)"
proof -
  define q' where "q' = LIST_INSERT_AFTER q l x"
  have d: "distinct (as @ l # bs)" and s: "seg q FirstCell (as @ l # bs)"
    using assms(1) by (auto simp: list_rep_def)
  have xl: "x \<noteq> l" using assms(2) by auto
  have f: "q_first q' = q_first q"
    "\<And>y. q_next q' y = (if y = l then Some x else if y = x then q_next q l else q_next q y)"
    "\<And>y. q_prev q' y = (if y = x then Some (NextCell l) else if q_next q l = Some y then Some (NextCell x) else q_prev q y)"
    using xl by (cases "q_next q l"; simp add: q'_def LIST_INSERT_AFTER_def link_defs)+
  have as: "part q FirstCell (as @ [l])" and bs: "seg q (NextCell l) bs"
    using s seg_append [of q FirstCell "as @ [l]" bs] by auto
  have nl: "q_next q l = (case bs of [] \<Rightarrow> None | b # _ \<Rightarrow> Some b)" using bs by (cases bs) auto
  have "part q' FirstCell (as @ [l])"
  proof (rule part_cong [OF as])
    fix y assume "y \<in> set (as @ [l])"
    then show "q_prev q' y = q_prev q y" using f(3) d assms(2) nl by (auto split: list.splits)
  next
    fix y assume "y \<in> set (butlast (as @ [l]))"
    then show "q_next q' y = q_next q y" using f(2) d assms(2) by auto
  qed (simp add: f)
  moreover have "seg q' (NextCell l) (x # bs)"
  proof (cases bs)
    case Nil
    then show ?thesis using f nl xl by simp
  next
    case (Cons b cs)
    have "seg q' (NextCell b) cs"
    proof (rule seg_cong)
      show "seg q (NextCell b) cs" using bs Cons by simp
    qed (use f d assms(2) Cons nl in auto)
    then show ?thesis using f nl xl Cons assms(2) by auto
  qed
  ultimately have "seg q' FirstCell ((as @ [l]) @ x # bs)" unfolding seg_append by simp
  then show ?thesis using d assms(2) by (auto simp: list_rep_def q'_def)
qed

lemma tailq_rep_init: "tailq_rep (TAILQ_INIT q) []"
  by (simp add: tailq_rep_def list_rep_def TAILQ_INIT_def)

lemma tailq_rep_first [list_rep_simps]:
  "tailq_rep q xs \<Longrightarrow> TAILQ_FIRST q = (case xs of [] \<Rightarrow> None | x # _ \<Rightarrow> Some x)"
  by (cases xs) (auto simp: tailq_rep_def list_rep_def TAILQ_FIRST_def)

lemma tailq_rep_empty [list_rep_simps]: "tailq_rep q xs \<Longrightarrow> TAILQ_EMPTY q \<longleftrightarrow> xs = []"
  by (cases xs) (auto simp: tailq_rep_def list_rep_def TAILQ_EMPTY_def)

lemma tailq_rep_insert_head:
  assumes "tailq_rep q xs" "x \<notin> set xs"
  shows "tailq_rep (TAILQ_INSERT_HEAD q x) (x # xs)"
proof -
  have s: "seg q FirstCell xs" "distinct xs" and l: "tqh_last q = Some (end_cell FirstCell xs)"
    using assms(1) by (auto simp: tailq_rep_def list_rep_def)
  then have "seg (TAILQ_INSERT_HEAD q x) FirstCell (x # xs)"
    by (intro seg_insert_head [OF _ assms(2) _ tailq_insert_head_fields(1-3)])
  moreover have "tqh_last (TAILQ_INSERT_HEAD q x) = Some (end_cell FirstCell (x # xs))"
    using s l by (cases xs) (auto simp: tailq_insert_head_fields)
  ultimately show ?thesis using assms(2) s by (auto simp: tailq_rep_def list_rep_def)
qed

lemma put_tqh_last [simp]: "tqh_last (put q c v) = tqh_last q"
  by (cases c) auto

lemma tailq_rep_insert_tail:
  assumes "tailq_rep q xs" "x \<notin> set xs"
  shows "\<exists>q'. TAILQ_INSERT_TAIL q x = Some q' \<and> tailq_rep q' (xs @ [x])"
proof -
  define c where "c = end_cell FirstCell xs"
  have d: "distinct xs" and xs: "part q FirstCell xs" and l: "tqh_last q = Some c"
    using assms(1) by (auto simp: tailq_rep_def list_rep_def seg_part c_def)
  have c_in: "c = FirstCell \<and> xs = [] \<or> xs \<noteq> [] \<and> c = NextCell (last xs)"
    unfolding c_def using end_cell_cases [of xs FirstCell] by (cases "xs = []") auto
  then have cx: "c \<noteq> NextCell x" using assms(2) last_in_set by auto
  define q0 where "q0 = set_prev (set_next q x None) x (Some c)"
  define q' where "q' = (put q0 c (Some x))\<lparr>tqh_last := Some (NextCell x)\<rparr>"
  have eq: "TAILQ_INSERT_TAIL q x = Some q'"
    using l by (simp add: TAILQ_INSERT_TAIL_def q'_def q0_def link_defs)
  have fields: "q_first q' = (if c = FirstCell then Some x else q_first q)"
    "\<And>y. q_next q' y = (if c = NextCell y then Some x else if y = x then None else q_next q y)"
    "\<And>y. q_prev q' y = (if y = x then Some c else q_prev q y)"
    by (cases c; simp add: q'_def q0_def link_defs)+
  have "part q' FirstCell xs"
  proof (rule part_cong [OF xs])
    fix y assume y: "y \<in> set (butlast xs)"
    then have "xs \<noteq> []" "y \<in> set xs" by (auto dest: in_set_butlastD)
    moreover have "y \<noteq> last xs"
      using y d \<open>xs \<noteq> []\<close> by (metis append_butlast_last_id distinct_append disjoint_iff list.set_intros(1))
    ultimately show "q_next q' y = q_next q y" using c_in assms(2) by (auto simp: fields)
  qed (use c_in assms(2) in \<open>auto simp: fields\<close>)
  moreover have "deref q' c = Some x" using c_in by (auto simp: fields)
  moreover have "deref q' (NextCell x) = None" using cx by (auto simp: fields)
  ultimately have "seg q' FirstCell (xs @ [x])" using cx
    by (simp add: seg_append fields flip: c_def)
  moreover have "tqh_last q' = Some (end_cell FirstCell (xs @ [x]))" by (simp add: q'_def)
  ultimately show ?thesis using eq d assms(2) by (auto simp: tailq_rep_def list_rep_def)
qed

lemma tailq_rep_remove:
  assumes "tailq_rep q xs" "x \<in> set xs"
  shows "\<exists>q'. TAILQ_REMOVE q x = Some q' \<and> tailq_rep q' (remove1 x xs)"
proof -
  obtain as bs where xs: "xs = as @ x # bs" using assms(2) by (auto simp: in_set_conv_decomp)
  have d: "distinct (as @ x # bs)" and s: "seg q FirstCell (as @ x # bs)"
    and l: "tqh_last q = Some (end_cell FirstCell (as @ x # bs))"
    using assms(1) xs by (auto simp: tailq_rep_def list_rep_def)
  define c where "c = end_cell FirstCell as"
  note u = seg_unlink [OF s d, folded c_def]
  define q' where "q' = (if q_next q x = None then (unlink q x c)\<lparr>tqh_last := Some c\<rparr> else unlink q x c)"
  have "(put q c v)\<lparr>tqh_last := w\<rparr> = put (q\<lparr>tqh_last := w\<rparr>) c v" for v w by (cases c) simp_all
  then have eq: "TAILQ_REMOVE q x = Some q'"
    using u(1) by (auto simp: TAILQ_REMOVE_def unlink_def q'_def link_defs split: option.splits)
  have rm: "remove1 x xs = as @ bs" using xs d by (simp add: remove1_append)
  have "seg q' FirstCell (as @ bs)"
    by (rule seg_cong [OF u(2)]) (auto simp: q'_def)
  moreover have "tqh_last q' = Some (end_cell FirstCell (as @ bs))"
  proof (cases bs)
    case Nil
    then have "q_next q x = None" using s by (simp add: seg_append)
    then show ?thesis using Nil by (simp add: q'_def c_def)
  next
    case (Cons b cs)
    then have "q_next q x = Some b" using s by (simp add: seg_append)
    then show ?thesis using Cons l by (simp add: q'_def unlink_def set_prev_def)
  qed
  ultimately show ?thesis using eq rm d by (auto simp: tailq_rep_def list_rep_def)
qed

section \<open>The interfaces\<close>

text \<open>What a client of a list may rely on: the operations, and the list each of them represents
  afterwards. \<open>remove\<close> is partial because an element that was never inserted has a NULL \<open>prev\<close>.\<close>

locale intrusive_list =
  fixes rep :: "'q \<Rightarrow> 'a list \<Rightarrow> bool"
    and init :: "'q \<Rightarrow> 'q"
    and first :: "'q \<Rightarrow> 'a option"
    and insert_head :: "'q \<Rightarrow> 'a \<Rightarrow> 'q"
    and remove :: "'q \<Rightarrow> 'a \<Rightarrow> 'q option"
  assumes rep_unique: "rep q xs \<Longrightarrow> rep q ys \<Longrightarrow> xs = ys"
    and rep_distinct: "rep q xs \<Longrightarrow> distinct xs"
    and rep_init: "rep (init q) []"
    and rep_first: "rep q xs \<Longrightarrow> first q = (case xs of [] \<Rightarrow> None | x # _ \<Rightarrow> Some x)"
    and rep_insert_head: "rep q xs \<Longrightarrow> x \<notin> set xs \<Longrightarrow> rep (insert_head q x) (x # xs)"
    and rep_remove: "rep q xs \<Longrightarrow> x \<in> set xs \<Longrightarrow> \<exists>q'. remove q x = Some q' \<and> rep q' (remove1 x xs)"
begin

lemma first_None_iff: "rep q xs \<Longrightarrow> first q = None \<longleftrightarrow> xs = []"
  by (simp add: rep_first split: list.splits)

lemma pop:
  assumes "rep q xs" "first q = Some x"
  shows "\<exists>ys q'. xs = x # ys \<and> remove q x = Some q' \<and> rep q' ys"
proof -
  obtain ys where xs: "xs = x # ys" using assms by (auto simp: rep_first split: list.splits)
  with rep_remove [OF assms(1), of x] show ?thesis by auto
qed

lemma push_remove:
  assumes "rep q xs" "x \<notin> set xs"
  shows "\<exists>q'. remove (insert_head q x) x = Some q' \<and> rep q' xs"
  using rep_remove [OF rep_insert_head [OF assms], of x] by simp

lemma remove_absent:
  assumes "rep q xs" "x \<in> set xs" "remove q x = Some q'" "rep q' ys"
  shows "x \<notin> set ys"
proof -
  have "ys = remove1 x xs" using rep_remove [OF assms(1,2)] assms(3,4) rep_unique by auto
  then show ?thesis using rep_distinct [OF assms(1)] by auto
qed

lemma rep_insert_heads:
  assumes "rep q xs" "distinct ys" "set ys \<inter> set xs = {}"
  shows "rep (fold (\<lambda>y q. insert_head q y) ys q) (rev ys @ xs)"
  using assms
proof (induction ys arbitrary: q xs)
  case (Cons y ys)
  from Cons.IH [of "insert_head q y" "y # xs"] Cons.prems rep_insert_head [of q xs y]
  show ?case by auto
qed simp

end

locale tail_queue = intrusive_list rep init first insert_head remove
  for rep :: "'q \<Rightarrow> 'a list \<Rightarrow> bool"
    and init :: "'q \<Rightarrow> 'q"
    and first :: "'q \<Rightarrow> 'a option"
    and insert_head :: "'q \<Rightarrow> 'a \<Rightarrow> 'q"
    and remove :: "'q \<Rightarrow> 'a \<Rightarrow> 'q option" +
  fixes insert_tail :: "'q \<Rightarrow> 'a \<Rightarrow> 'q option"
  assumes rep_insert_tail: "rep q xs \<Longrightarrow> x \<notin> set xs \<Longrightarrow> \<exists>q'. insert_tail q x = Some q' \<and> rep q' (xs @ [x])"
begin

text \<open>The scheduler's rotation: take an element out and append it.\<close>

lemma move_to_tail:
  assumes "rep q xs" "x \<in> set xs"
  shows "\<exists>q' q''. remove q x = Some q' \<and> insert_tail q' x = Some q'' \<and> rep q'' (remove1 x xs @ [x])"
proof -
  obtain q' where q': "remove q x = Some q'" "rep q' (remove1 x xs)" using rep_remove [OF assms] by blast
  then have "x \<notin> set (remove1 x xs)" using rep_distinct [OF assms(1)] by simp
  with rep_insert_tail [OF q'(2)] q'(1) show ?thesis by blast
qed

end

lemma list_rep_distinct: "list_rep q xs \<Longrightarrow> distinct xs"
  by (simp add: list_rep_def)

lemma tailq_rep_distinct: "tailq_rep q xs \<Longrightarrow> distinct xs"
  by (simp add: tailq_rep_def list_rep_def)

lemma tailq_rep_unique: "tailq_rep q xs \<Longrightarrow> tailq_rep q ys \<Longrightarrow> xs = ys"
  by (auto simp: tailq_rep_def dest: list_rep_unique)

interpretation lst: intrusive_list list_rep LIST_INIT LIST_FIRST LIST_INSERT_HEAD LIST_REMOVE
  by unfold_locales
     (rule list_rep_unique list_rep_distinct list_rep_init list_rep_first list_rep_insert_head
       list_rep_remove; assumption)+

interpretation tq: tail_queue tailq_rep TAILQ_INIT TAILQ_FIRST TAILQ_INSERT_HEAD TAILQ_REMOVE TAILQ_INSERT_TAIL
  by unfold_locales
     (rule tailq_rep_unique tailq_rep_distinct tailq_rep_init tailq_rep_first tailq_rep_insert_head
       tailq_rep_remove tailq_rep_insert_tail; assumption)+

end
