(* ===== verification/Mos_Pmap.thy ===== *)
theory Mos_Pmap
  imports Mos_Memory Mos_Queue
begin

text \<open>
  Physical and virtual memory management: \<^verbatim>\<open>include/mmu.h\<close>, \<^verbatim>\<open>include/pmap.h\<close> and \<^verbatim>\<open>kern/pmap.c\<close>.

  The record \<open>pmap\<close> holds the globals of \<^verbatim>\<open>kern/pmap.c\<close>: \<open>mem\<close> is physical memory (kernel virtual
  addresses equal physical ones on this port), \<open>pp_ref i\<close> is \<^verbatim>\<open>pages[i].pp_ref\<close>, \<open>page_free_list\<close> is
  the list head together with the \<^verbatim>\<open>pp_link\<close> fields, and \<open>pages_addr\<close> the address in the pointer
  \<^verbatim>\<open>pages\<close>.  A \<^verbatim>\<open>struct Page *\<close> is its index in the array.  \<open>fences\<close> is the sequence of
  \<^verbatim>\<open>sfence.vma\<close> instructions executed, newest first.  Page directories and page tables are pages of
  \<open>mem\<close> and are read and written there as the code does, so aliasing between them is visible.
  Addresses that the linker chooses (\<^verbatim>\<open>end\<close>, \<^verbatim>\<open>_text\<close>, \<^verbatim>\<open>_data\<close>, \<^verbatim>\<open>kernel_pgdir\<close>) are arguments.
\<close>

section \<open>Constants and address arithmetic (include/mmu.h)\<close>

definition PMEMSIZE :: u32 where "PMEMSIZE = 64 * 1024 * 1024"
definition BY2PG :: u32 where "BY2PG = 4096"
definition PDMAP :: u32 where "PDMAP = 4 * 1024 * 1024"
definition KERNBASE :: u32 where "KERNBASE = 0x80200000"
definition OPENSBISIZE :: u32 where "OPENSBISIZE = 0x200000"
definition KSTACKTOP :: u32 where "KSTACKTOP = 0x80600000"
definition KSEG1 :: u32 where "KSEG1 = 0xA0000000"
definition ULIM :: u32 where "ULIM = 0x80000000"
definition UVPT :: u32 where "UVPT = ULIM - PDMAP"
definition UPAGES :: u32 where "UPAGES = UVPT - PDMAP"
definition UENVS :: u32 where "UENVS = UPAGES - PDMAP"
definition UTOP :: u32 where "UTOP = UENVS"
definition UXSTACKTOP :: u32 where "UXSTACKTOP = UTOP"
definition USTACKTOP :: u32 where "USTACKTOP = UTOP - 2 * BY2PG"
definition UTEXT :: u32 where "UTEXT = PDMAP"
definition UCOW :: u32 where "UCOW = UTEXT - BY2PG"
definition UTEMP :: u32 where "UTEMP = UCOW - BY2PG"
definition SV32MODE :: u32 where "SV32MODE = 0x80000000"

definition PTE_V :: u32 where "PTE_V = 0x001"
definition PTE_R :: u32 where "PTE_R = 0x002"
definition PTE_W :: u32 where "PTE_W = 0x004"
definition PTE_X :: u32 where "PTE_X = 0x008"
definition PTE_U :: u32 where "PTE_U = 0x010"
definition PTE_G :: u32 where "PTE_G = 0x020"
definition PTE_D :: u32 where "PTE_D = 0x080"
definition PTE_COW :: u32 where "PTE_COW = 0x100"
definition PTE_LIBRARY :: u32 where "PTE_LIBRARY = 0x200"

lemmas layout_defs = PMEMSIZE_def BY2PG_def PDMAP_def KERNBASE_def OPENSBISIZE_def KSTACKTOP_def
  KSEG1_def ULIM_def UVPT_def UPAGES_def UENVS_def UTOP_def UXSTACKTOP_def USTACKTOP_def UTEXT_def
  UCOW_def UTEMP_def SV32MODE_def
lemmas pte_defs = PTE_V_def PTE_R_def PTE_W_def PTE_X_def PTE_U_def PTE_G_def PTE_D_def PTE_COW_def
  PTE_LIBRARY_def

definition ROUND :: "u32 \<Rightarrow> u32 \<Rightarrow> u32" where "ROUND a n = (a + n - 1) AND NOT (n - 1)"
definition ROUNDDOWN :: "u32 \<Rightarrow> u32 \<Rightarrow> u32" where "ROUNDDOWN a n = a AND NOT (n - 1)"

definition PPN :: "u32 \<Rightarrow> u32" where "PPN va = drop_bit 12 va"
definition VPN :: "u32 \<Rightarrow> u32" where "VPN va = drop_bit 12 va"
definition PDX :: "u32 \<Rightarrow> u32" where "PDX va = drop_bit 22 va AND 0x03FF"
definition PTX :: "u32 \<Rightarrow> u32" where "PTX va = drop_bit 12 va AND 0x03FF"
definition PTE_ADDR :: "u32 \<Rightarrow> u32" where "PTE_ADDR pte = push_bit 2 (pte AND NOT 0x3FF)"
definition ADDR_PTE :: "u32 \<Rightarrow> u32" where "ADDR_PTE addr = push_bit 10 (PPN addr)"
definition PA2IDX :: "u32 \<Rightarrow> u32" where "PA2IDX pa = PPN (pa - KERNBASE)"

definition has :: "u32 \<Rightarrow> u32 \<Rightarrow> bool" where
  "has pte flag \<longleftrightarrow> pte AND flag \<noteq> 0"

section \<open>State (kern/pmap.c, include/pmap.h)\<close>

datatype fence = FenceAll | FenceAsid u32 | FenceVa u32 | FenceVaAsid u32 u32

record pmap =
  mem :: mem
  memsize :: u32
  npage :: u32
  freemem :: u32
  pages_addr :: u32
  pp_ref :: "nat \<Rightarrow> u16"
  page_free_list :: "nat links"
  fences :: "fence list"

definition page2ppn :: "nat \<Rightarrow> u32" where
  "page2ppn pp = of_nat pp + PPN KERNBASE"

definition page2pa :: "nat \<Rightarrow> u32" where
  "page2pa pp = push_bit 12 (page2ppn pp)"

definition pa2page :: "('a) pmap_scheme \<Rightarrow> u32 \<Rightarrow> nat option" where
  "pa2page s pa = (if PPN (pa - KERNBASE) \<ge> npage s then None else Some (unat (PPN (pa - KERNBASE))))"

definition KADDR :: "('a) pmap_scheme \<Rightarrow> u32 \<Rightarrow> u32 option" where
  "KADDR s pa = (if PA2IDX pa \<ge> npage s then None else Some pa)"

definition PADDR :: "u32 \<Rightarrow> u32 option" where
  "PADDR kva = (if kva < ULIM then None else Some kva)"

definition page2kva :: "('a) pmap_scheme \<Rightarrow> nat \<Rightarrow> u32 option" where
  "page2kva s pp = KADDR s (page2pa pp)"

definition rd :: "('a) pmap_scheme \<Rightarrow> u32 \<Rightarrow> u32" where
  "rd s a = ld32 (mem s) a"

definition wr :: "('a) pmap_scheme \<Rightarrow> u32 \<Rightarrow> u32 \<Rightarrow> ('a) pmap_scheme" where
  "wr s a v = s\<lparr>mem := st32 (mem s) a v\<rparr>"

definition set_ref :: "('a) pmap_scheme \<Rightarrow> nat \<Rightarrow> u16 \<Rightarrow> ('a) pmap_scheme" where
  "set_ref s pp r = s\<lparr>pp_ref := (pp_ref s)(pp := r)\<rparr>"

definition va2pa :: "('a) pmap_scheme \<Rightarrow> u32 \<Rightarrow> u32 \<Rightarrow> u32 option" where
  "va2pa s pgdir va =
     (let pde = rd s (pgdir + 4 * PDX va)
      in if \<not> has pde PTE_V then Some (NOT 0)
         else do { p \<leftarrow> KADDR s (PTE_ADDR pde);
                   let pte = rd s (p + 4 * PTX va);
                   Some (if \<not> has pte PTE_V then NOT 0 else PTE_ADDR pte) })"

section \<open>Boot-time allocation (kern/pmap.c)\<close>

definition mips_detect_memory :: "('a) pmap_scheme \<Rightarrow> ('a) pmap_scheme" where
  "mips_detect_memory s =
     (let s = s\<lparr>memsize := PMEMSIZE\<rparr> in s\<lparr>npage := (memsize s - OPENSBISIZE) div BY2PG\<rparr>)"

definition alloc :: "u32 \<Rightarrow> u32 \<Rightarrow> u32 \<Rightarrow> bool \<Rightarrow> ('a) pmap_scheme \<Rightarrow> (u32 \<times> ('a) pmap_scheme) option" where
  "alloc kend n align clear s =
     (let s = (if freemem s = 0 then s\<lparr>freemem := kend\<rparr> else s);
          s = s\<lparr>freemem := ROUND (freemem s) align\<rparr>;
          alloced_mem = freemem s;
          s = s\<lparr>freemem := freemem s + n\<rparr>
      in if freemem s \<ge> ULIM + memsize s then None
         else if clear then do { m \<leftarrow> memset (mem s) alloced_mem 0 n; Some (alloced_mem, s\<lparr>mem := m\<rparr>) }
         else Some (alloced_mem, s))"

text \<open>\<open>riscv_create_mapping\<close>: the loop \<open>for (i = 0; i < sz; i += BY2PG)\<close> from a given \<open>i\<close>.\<close>

definition riscv_map_page ::
  "u32 \<Rightarrow> u32 \<Rightarrow> u32 \<Rightarrow> u32 \<Rightarrow> u32 \<Rightarrow> ('a) pmap_scheme \<Rightarrow> ('a) pmap_scheme option" where
  "riscv_map_page kend pgdir va pa perm s =
     (let pgdir_entryp = pgdir + 4 * PDX va
      in do { (pte, s) \<leftarrow>
                (if has (rd s pgdir_entryp) PTE_V then Some (PTE_ADDR (rd s pgdir_entryp), s)
                 else do { (pte, s) \<leftarrow> alloc kend BY2PG BY2PG True s;
                           Some (pte, wr s pgdir_entryp (ADDR_PTE pte OR PTE_V)) });
              Some (wr s (pte + 4 * PTX va) (ADDR_PTE pa OR perm OR PTE_V)) })"

partial_function (option) riscv_mapping_loop ::
  "u32 \<Rightarrow> u32 \<Rightarrow> u32 \<Rightarrow> u32 \<Rightarrow> u32 \<Rightarrow> u32 \<Rightarrow> u32 \<Rightarrow> ('a) pmap_scheme \<Rightarrow> ('a) pmap_scheme option" where
  "riscv_mapping_loop kend pgdir va pa sz perm i s =
     (if i < sz then
        do { s \<leftarrow> riscv_map_page kend pgdir (va + i) (pa + i) perm s;
             riscv_mapping_loop kend pgdir va pa sz perm (i + BY2PG) s }
      else Some s)"

definition riscv_create_mapping ::
  "u32 \<Rightarrow> u32 \<Rightarrow> u32 \<Rightarrow> u32 \<Rightarrow> u32 \<Rightarrow> u32 \<Rightarrow> ('a) pmap_scheme \<Rightarrow> ('a) pmap_scheme option" where
  "riscv_create_mapping kend pgdir va pa sz perm s = riscv_mapping_loop kend pgdir va pa sz perm 0 s"

definition VIRTIOBASE :: u32 where "VIRTIOBASE = 0x10001000"
definition VIRTIOSIZE :: u32 where "VIRTIOSIZE = 0x8000"

text \<open>\<open>riscv_kvm_map\<close> sets up the identity mapping of the kernel and the device window; the write of
  \<^verbatim>\<open>satp\<close> that follows turns translation on and is not part of this state, the full fence is.\<close>

definition riscv_kvm_map :: "u32 \<Rightarrow> u32 \<Rightarrow> u32 \<Rightarrow> u32 \<Rightarrow> ('a) pmap_scheme \<Rightarrow> ('a) pmap_scheme option" where
  "riscv_kvm_map kend ktext kdata kernel_pgdir s = do {
     s \<leftarrow> riscv_create_mapping kend kernel_pgdir ktext ktext (kdata - ktext) (PTE_R OR PTE_X OR PTE_G) s;
     s \<leftarrow> riscv_create_mapping kend kernel_pgdir kdata kdata (ULIM + memsize s - kdata) (PTE_R OR PTE_W OR PTE_G) s;
     s \<leftarrow> riscv_create_mapping kend kernel_pgdir (KSEG1 + VIRTIOBASE) VIRTIOBASE VIRTIOSIZE (PTE_R OR PTE_W OR PTE_G) s;
     Some (s\<lparr>fences := FenceAll # fences s\<rparr>) }"

text \<open>\<^verbatim>\<open>sizeof(struct Page)\<close>: two pointers and a \<^verbatim>\<open>u_short\<close>, padded to a multiple of four.\<close>

definition sizeof_Page :: u32 where "sizeof_Page = 12"

definition mips_vm_init :: "u32 \<Rightarrow> u32 \<Rightarrow> u32 \<Rightarrow> u32 \<Rightarrow> ('a) pmap_scheme \<Rightarrow> ('a) pmap_scheme option" where
  "mips_vm_init kend ktext kdata kernel_pgdir s = do {
     (pages, s) \<leftarrow> alloc kend (npage s * sizeof_Page) BY2PG True s;
     riscv_kvm_map kend ktext kdata kernel_pgdir (s\<lparr>pages_addr := pages, pp_ref := (\<lambda>_. 0)\<rparr>) }"

section \<open>The physical page allocator (kern/pmap.c)\<close>

partial_function (option) page_init_used :: "nat \<Rightarrow> ('a) pmap_scheme \<Rightarrow> (nat \<times> ('a) pmap_scheme) option" where
  "page_init_used i s =
     do { kva \<leftarrow> page2kva s i;
          if kva < freemem s then page_init_used (Suc i) (set_ref s i 1) else Some (i, s) }"

function page_init_free :: "nat \<Rightarrow> ('a) pmap_scheme \<Rightarrow> ('a) pmap_scheme" where
  "page_init_free i s =
     (if i < unat (npage s)
      then page_init_free (Suc i) (s\<lparr>page_free_list := LIST_INSERT_HEAD (page_free_list s) i\<rparr>)
      else s)"
  by pat_completeness auto
termination
  by (relation "measure (\<lambda>(i, s). unat (npage s) - i)") auto

declare page_init_free.simps [simp del]

definition page_init :: "('a) pmap_scheme \<Rightarrow> ('a) pmap_scheme option" where
  "page_init s =
     (let s = s\<lparr>page_free_list := LIST_INIT (page_free_list s)\<rparr>;
          s = s\<lparr>freemem := ROUND (freemem s) BY2PG\<rparr>
      in do { (i, s) \<leftarrow> page_init_used 0 s; Some (page_init_free i s) })"

definition page_alloc :: "('a) pmap_scheme \<Rightarrow> ((err + nat) \<times> ('a) pmap_scheme) option" where
  "page_alloc s =
     (case LIST_FIRST (page_free_list s) of
        None \<Rightarrow> Some (Inl E_NO_MEM, s)
      | Some pp \<Rightarrow>
          do { fl \<leftarrow> LIST_REMOVE (page_free_list s) pp;
               let s = s\<lparr>page_free_list := fl\<rparr>;
               kva \<leftarrow> page2kva s pp;
               m \<leftarrow> memset (mem s) kva 0 BY2PG;
               Some (Inr pp, s\<lparr>mem := m\<rparr>) })"

definition page_free :: "nat \<Rightarrow> ('a) pmap_scheme \<Rightarrow> ('a) pmap_scheme option" where
  "page_free pp s =
     (if pp_ref s pp \<noteq> 0 then None
      else Some (s\<lparr>page_free_list := LIST_INSERT_HEAD (page_free_list s) pp\<rparr>))"

definition page_decref :: "nat \<Rightarrow> ('a) pmap_scheme \<Rightarrow> ('a) pmap_scheme option" where
  "page_decref pp s =
     (if pp_ref s pp = 0 then None
      else (let s = set_ref s pp (pp_ref s pp - 1)
            in if pp_ref s pp = 0 then page_free pp s else Some s))"

section \<open>Page tables (kern/pmap.c)\<close>

definition tlb_flush :: "u32 \<Rightarrow> u32 \<Rightarrow> ('a) pmap_scheme \<Rightarrow> ('a) pmap_scheme" where
  "tlb_flush asid va s =
     s\<lparr>fences := (if va = 0 \<and> asid = 0 then FenceAll
                  else if va = 0 then FenceAsid asid
                  else if asid = 0 then FenceVa va
                  else FenceVaAsid va asid) # fences s\<rparr>"

text \<open>\<open>pgdir_walk\<close> returns 0 with \<open>*ppte\<close> NULL as \<open>Inr None\<close>.\<close>

definition pgdir_walk ::
  "u32 \<Rightarrow> u32 \<Rightarrow> bool \<Rightarrow> ('a) pmap_scheme \<Rightarrow> ((err + u32 option) \<times> ('a) pmap_scheme) option" where
  "pgdir_walk pgdir va create s =
     (let pgdir_entryp = pgdir + 4 * PDX va;
          finish = (\<lambda>s. do { t \<leftarrow> KADDR s (PTE_ADDR (rd s pgdir_entryp));
                             Some (Inr (Some (t + 4 * PTX va)), s) })
      in if \<not> has (rd s pgdir_entryp) PTE_V then
           if create then
             do { (r, s) \<leftarrow> page_alloc s;
                  case r of
                    Inl e \<Rightarrow> Some (Inl e, s)
                  | Inr pp \<Rightarrow>
                      (let s = set_ref s pp 1
                       in finish (wr s pgdir_entryp (ADDR_PTE (page2pa pp) OR PTE_V))) }
           else Some (Inr None, s)
         else finish s)"

definition page_lookup ::
  "u32 \<Rightarrow> u32 \<Rightarrow> ('a) pmap_scheme \<Rightarrow> ((nat \<times> u32) option \<times> ('a) pmap_scheme) option" where
  "page_lookup pgdir va s =
     do { (r, s) \<leftarrow> pgdir_walk pgdir va False s;
          case r of
            Inr (Some pte) \<Rightarrow>
              if \<not> has (rd s pte) PTE_V then Some (None, s)
              else do { pp \<leftarrow> pa2page s (PTE_ADDR (rd s pte)); Some (Some (pp, pte), s) }
          | _ \<Rightarrow> Some (None, s) }"

definition page_remove :: "u32 \<Rightarrow> u32 \<Rightarrow> u32 \<Rightarrow> ('a) pmap_scheme \<Rightarrow> ('a) pmap_scheme option" where
  "page_remove pgdir asid va s =
     do { (r, s) \<leftarrow> page_lookup pgdir va s;
          case r of
            None \<Rightarrow> Some s
          | Some (pp, pte) \<Rightarrow>
              do { s \<leftarrow> page_decref pp s;
                   Some (tlb_flush asid va (wr s pte 0)) } }"

text \<open>Steps 2 to 4 of \<open>page_insert\<close>: (re-)get or create the entry, write it, count the reference,
  drop the user's view of the page directory and fence.\<close>

definition page_insert_new ::
  "u32 \<Rightarrow> u32 \<Rightarrow> nat \<Rightarrow> u32 \<Rightarrow> u32 \<Rightarrow> ('a) pmap_scheme \<Rightarrow> ((err + unit) \<times> ('a) pmap_scheme) option" where
  "page_insert_new pgdir asid pp va perm s =
     do { (r, s) \<leftarrow> pgdir_walk pgdir va True s;
          case r of
            Inl e \<Rightarrow> Some (Inl e, s)
          | Inr None \<Rightarrow> None
          | Inr (Some pte) \<Rightarrow>
              (let s = wr s pte (ADDR_PTE (page2pa pp) OR perm OR PTE_V);
                   s = set_ref s pp (pp_ref s pp + 1);
                   s = wr s (pgdir + 4 * PDX UVPT) 0
               in Some (Inr (), tlb_flush asid 0 s)) }"

definition page_insert ::
  "u32 \<Rightarrow> u32 \<Rightarrow> nat \<Rightarrow> u32 \<Rightarrow> u32 \<Rightarrow> ('a) pmap_scheme \<Rightarrow> ((err + unit) \<times> ('a) pmap_scheme) option" where
  "page_insert pgdir asid pp va perm s =
     do { (r, s) \<leftarrow> pgdir_walk pgdir va False s;
          let perm = (if has perm PTE_W then perm OR PTE_R else perm);
          case r of
            Inr (Some pte) \<Rightarrow>
              if has (rd s pte) PTE_V then
                do { old \<leftarrow> pa2page s (PTE_ADDR (rd s pte));
                     if old \<noteq> pp then
                       do { s \<leftarrow> page_remove pgdir asid va s; page_insert_new pgdir asid pp va perm s }
                     else
                       (let s = wr s pte (ADDR_PTE (page2pa pp) OR perm OR PTE_V)
                        in Some (Inr (), tlb_flush asid va s)) }
              else page_insert_new pgdir asid pp va perm s
          | _ \<Rightarrow> page_insert_new pgdir asid pp va perm s }"

end
