(* ===== verification/Mos_Frames.thy ===== *)
theory Mos_Frames
  imports Mos_Pmap
begin

text \<open>
  Arithmetic of physical frames and page-table entries: the address of the frame with index \<open>p\<close>, its
  way back through \<^verbatim>\<open>pa2page\<close> and \<^verbatim>\<open>KADDR\<close>, the frame number stored in an entry, and what a word store or a
  \<^verbatim>\<open>memset\<close> of a whole frame does to the entries of every frame.  \<open>page_bound\<close> is the number of frames for
  which these addresses do not wrap around; the real machine has 15872.
\<close>


lemma PDX_less: "PDX va < 1024"
proof -
  have "PDX va \<le> 0x3FF" unfolding PDX_def by (rule word_and_le1)
  then show ?thesis by (rule order_le_less_trans) simp
qed

lemma PTX_less: "PTX va < 1024"
proof -
  have "PTX va \<le> 0x3FF" unfolding PTX_def by (rule word_and_le1)
  then show ?thesis by (rule order_le_less_trans) simp
qed

lemma bit_not_3ff: "bit (NOT (0x3FF :: u32)) n \<longleftrightarrow> 10 \<le> n \<and> n < 32"
proof -
  have "(0x3FF :: u32) = mask 10" by (simp add: mask_eq_exp_minus_1)
  then show ?thesis by (simp only: bit_not_iff bit_mask_iff) auto
qed

lemma bit_fff: "bit (0xFFF :: u32) n \<longleftrightarrow> n < 12"
proof -
  have "(0xFFF :: u32) = mask 12" by (simp add: mask_eq_exp_minus_1)
  then show ?thesis by (simp only: bit_mask_iff) auto
qed

text \<open>A flag word that stays inside the ten flag bits does not disturb the frame number.\<close>

definition flag_bits :: "u32 \<Rightarrow> bool" where
  "flag_bits f \<longleftrightarrow> f AND NOT 0x3FF = 0"

lemma flag_bits_bit: "flag_bits f \<Longrightarrow> 10 \<le> k \<Longrightarrow> k < 32 \<Longrightarrow> \<not> bit f k"
  unfolding flag_bits_def by (metis bit_0_eq bit_and_iff bit_not_3ff bot_apply bot_bool_def)

lemma PTE_ADDR_ADDR_PTE:
  assumes "a AND 0xFFF = 0" "flag_bits f"
  shows "PTE_ADDR (ADDR_PTE a OR f) = a"
proof (rule bit_word_eqI)
  fix n assume n: "n < LENGTH(32)"
  have low: "\<not> bit a k" if "k < 12" for k
    using assms(1) that by (metis bit_0_eq bit_and_iff bit_fff bot_apply bot_bool_def)
  note high = flag_bits_bit [OF assms(2)]
  have "bit (PTE_ADDR (ADDR_PTE a OR f)) n \<longleftrightarrow>
     2 \<le> n \<and> n < 32 \<and> (bit (push_bit 10 (drop_bit 12 a)) (n - 2) \<or> bit f (n - 2)) \<and> 10 \<le> n - 2 \<and> n - 2 < 32"
    unfolding PTE_ADDR_def ADDR_PTE_def PPN_def
    by (simp only: bit_push_bit_iff bit_and_iff bit_or_iff bit_not_3ff) auto
  also have "\<dots> \<longleftrightarrow> 12 \<le> n \<and> n < 32 \<and> bit a n"
    using high [of "n - 2"] by (auto simp: bit_push_bit_iff bit_drop_bit_eq)
  also have "\<dots> \<longleftrightarrow> bit a n" using low [of n] n by (cases "n < 12") auto
  finally show "bit (PTE_ADDR (ADDR_PTE a OR f)) n = bit a n" .
qed

definition page_bound :: nat where "page_bound = 0x70000"

lemma page2pa_unat: "p < page_bound \<Longrightarrow> unat (page2pa p) = 4096 * (p + 0x80200)"
  by (simp add: page2pa_def page2ppn_def PPN_def KERNBASE_def page_bound_def push_bit_eq_mult
        drop_bit_eq_div unat_word_ariths unat_of_nat)

lemma page2pa_inj: "p < page_bound \<Longrightarrow> q < page_bound \<Longrightarrow> page2pa p = page2pa q \<Longrightarrow> p = q"
  by (metis page2pa_unat add_right_cancel mult_cancel1 zero_neq_numeral)

lemma page2pa_aligned: "p < page_bound \<Longrightarrow> page2pa p AND 0xFFF = 0"
proof -
  assume "p < page_bound"
  then have "2 ^ 12 dvd unat (page2pa p)" by (simp add: page2pa_unat)
  then have "page2pa p AND mask 12 = 0" by (simp only: and_mask_dvd_nat)
  then show ?thesis by (simp add: mask_eq_exp_minus_1)
qed

lemma PPN_page2pa: "p < page_bound \<Longrightarrow> PPN (page2pa p - KERNBASE) = of_nat p"
proof -
  assume p: "p < page_bound"
  have "unat (page2pa p - KERNBASE) = 4096 * p"
    using p by (subst unat_sub) (simp_all add: word_le_nat_alt page2pa_unat KERNBASE_def)
  then have "unat (PPN (page2pa p - KERNBASE)) = p"
    by (simp add: PPN_def unat_drop_bit_eq) (simp add: drop_bit_eq_div)
  then show ?thesis
    by (metis of_nat_unat ucast_id)
qed

lemma pa2page_page2pa: 
  assumes "p < unat (npage s)" "unat (npage s) \<le> page_bound"
  shows "pa2page s (page2pa p) = Some p"
proof -
  have p: "p < page_bound" using assms by simp
  have "unat (of_nat p :: u32) = p" using p by (simp add: page_bound_def unat_of_nat)
  then show ?thesis using assms PPN_page2pa [OF p]
    by (simp add: pa2page_def word_le_nat_alt)
qed

lemma KADDR_page2pa:
  assumes "p < unat (npage s)" "unat (npage s) \<le> page_bound"
  shows "KADDR s (page2pa p) = Some (page2pa p)"
  using pa2page_page2pa [OF assms] by (auto simp: KADDR_def pa2page_def PA2IDX_def split: if_splits)

lemma page2kva_page2pa:
  assumes "p < unat (npage s)" "unat (npage s) \<le> page_bound"
  shows "page2kva s p = Some (page2pa p)"
  using KADDR_page2pa [OF assms] by (simp add: page2kva_def)

definition slot :: "nat \<Rightarrow> u32 \<Rightarrow> u32" where
  "slot d i = page2pa d + 4 * i"

definition ent :: "mem \<Rightarrow> nat \<Rightarrow> u32 \<Rightarrow> u32" where
  "ent m d i = ld32 m (slot d i)"

lemma slot_unat:
  assumes "d < page_bound" "i < 1024"
  shows "unat (slot d i) = 4096 * (d + 0x80200) + 4 * unat i"
proof -
  have i: "unat i < 1024" using assms(2) by (simp add: word_less_nat_alt)
  then have "unat (4 * i) = 4 * unat i" by (simp add: unat_word_ariths)
  with i assms(1) show ?thesis
    unfolding slot_def by (simp add: unat_add_no_overflow page2pa_unat page_bound_def)
qed

lemma slot_aligned: "d < page_bound \<Longrightarrow> i < 1024 \<Longrightarrow> aligned4 (slot d i)"
  unfolding aligned4_def by (simp add: slot_unat)

lemma slot_eq_iff:
  assumes "d < page_bound" "i < 1024" "e < page_bound" "j < 1024"
  shows "slot d i = slot e j \<longleftrightarrow> d = e \<and> i = j"
proof
  assume "slot d i = slot e j"
  then have "4096 * (d + 0x80200) + 4 * unat i = 4096 * (e + 0x80200) + 4 * unat j"
    by (simp only: slot_unat [OF assms(1,2), symmetric] slot_unat [OF assms(3,4), symmetric])
  moreover have "unat i < 1024" "unat j < 1024" using assms by (simp_all add: word_less_nat_alt)
  ultimately have "d = e \<and> unat i = unat j" by (cases d e rule: linorder_cases) auto
  then show "d = e \<and> i = j" by (auto simp: word_unat_eq_iff)
qed simp

lemma ent_st32 [mem_simps]:
  assumes "d < page_bound" "i < 1024" "e < page_bound" "j < 1024"
  shows "ent (st32 m (slot d i) v) e j = (if d = e \<and> i = j then v else ent m e j)"
  using slot_eq_iff [OF assms] slot_aligned assms
  by (auto simp: ent_def ld32_st32_same ld32_st32_other)

lemma ent_filled [mem_simps]:
  assumes "p < page_bound" "d < page_bound" "i < 1024"
  shows "ent (filled m (page2pa p) (page2pa p + 4096) 0) d i = (if d = p then 0 else ent m d i)"
proof -
  have i: "unat i < 1024" using assms by (simp add: word_less_nat_alt)
  have p: "unat (page2pa p + 4096) = 4096 * (p + 0x80201)"
    using assms(1) by (simp add: unat_add_no_overflow page2pa_unat page_bound_def)
  have off: "unat (slot d i + of_nat k) = 4096 * (d + 0x80200) + 4 * unat i + k" if "k < 4" for k
    using that i assms by (subst unat_add_no_overflow) (simp_all add: slot_unat unat_of_nat page_bound_def)
  have inside: "(page2pa p \<le> slot d i + of_nat k \<and> slot d i + of_nat k < page2pa p + 4096) = (d = p)"
    if "k < 4" for k
    using off [OF that] that i assms(1)
    by (auto simp: word_le_nat_alt word_less_nat_alt p page2pa_unat)
  from inside [of 0] inside [of 1] inside [of 2] inside [of 3] show ?thesis
    by (simp add: ent_def ld32_def filled_def)
qed

lemma page_cleared:
  assumes "p < page_bound"
  shows "memset m (page2pa p) 0 BY2PG = Some (filled m (page2pa p) (page2pa p + 4096) 0)"
  using memset_filled [of "page2pa p" BY2PG m 0] assms
  by (simp add: BY2PG_def page2pa_unat page_bound_def)

lemma pa2page_Some_eq:
  assumes "pa AND 0xFFF = 0" "pa2page s pa = Some t" "unat (npage s) \<le> page_bound"
  shows "pa = page2pa t" "t < unat (npage s)"
proof -
  let ?o = "pa - KERNBASE"
  have t: "t = unat (PPN ?o)" and lt: "PPN ?o < npage s"
    using assms(2) by (auto simp: pa2page_def not_le split: if_splits)
  then show tn: "t < unat (npage s)" by (simp add: word_less_nat_alt)
  then have tb: "t < page_bound" using assms(3) by simp
  have "pa AND mask 12 = 0" using assms(1) by (simp add: mask_eq_exp_minus_1)
  then have "2 ^ 12 dvd unat pa" by (simp only: and_mask_dvd_nat)
  moreover have "2 ^ 12 dvd unat KERNBASE" by (simp add: KERNBASE_def)
  ultimately have dvd: "2 ^ 12 dvd unat ?o"
    by (simp add: unat_sub_if' KERNBASE_def)
  have "unat ?o div 4096 = t" unfolding t by (simp add: PPN_def unat_drop_bit_eq) (simp add: drop_bit_eq_div)
  with dvd have "unat ?o = 4096 * t" by auto
  moreover have "unat (page2pa t - KERNBASE) = 4096 * t"
    using tb by (subst unat_sub) (simp_all add: word_le_nat_alt page2pa_unat KERNBASE_def)
  ultimately have "?o = page2pa t - KERNBASE" by (simp add: word_unat_eq_iff)
  then show "pa = page2pa t" by simp
qed

lemma PTE_ADDR_aligned: "PTE_ADDR e AND 0xFFF = 0"
proof (rule bit_word_eqI)
  fix n assume "n < LENGTH(32)"
  show "bit (PTE_ADDR e AND 0xFFF) n = bit (0 :: u32) n"
    unfolding PTE_ADDR_def by (simp only: bit_and_iff bit_push_bit_iff bit_not_3ff bit_fff) auto
qed

lemma has_V_iff: "has e PTE_V \<longleftrightarrow> bit e 0"
  unfolding has_def PTE_V_def by (simp add: and_one_eq bit_0 odd_iff_mod_2_eq_one)

lemma has_V_or [simp]: "has (x OR y) PTE_V \<longleftrightarrow> has x PTE_V \<or> has y PTE_V" "has PTE_V PTE_V"
  unfolding has_V_iff bit_or_iff by (simp_all add: PTE_V_def)

lemma not_has_0 [simp]: "\<not> has 0 f"
  by (simp add: has_def)

lemma flag_bits_or: "flag_bits f \<Longrightarrow> flag_bits g \<Longrightarrow> flag_bits (f OR g)"
  unfolding flag_bits_def by (simp add: bit.conj_disj_distrib2)

lemma flag_bits_pte [simp]: "flag_bits PTE_V" "flag_bits PTE_R" "flag_bits PTE_W" "flag_bits PTE_X"
  "flag_bits PTE_U" "flag_bits PTE_G" "flag_bits PTE_D" "flag_bits PTE_COW" "flag_bits PTE_LIBRARY"
  by (simp_all add: flag_bits_def pte_defs)

text \<open>The frame a valid entry points to.\<close>

definition entry_frame :: "('a) pmap_scheme \<Rightarrow> u32 \<Rightarrow> nat option" where
  "entry_frame s e = (if has e PTE_V then pa2page s (PTE_ADDR e) else None)"

lemma entry_frame_0 [simp]: "entry_frame s 0 = None"
  by (simp add: entry_frame_def)

lemma entry_frame_new:
  assumes "p < unat (npage s)" "unat (npage s) \<le> page_bound" "flag_bits f"
  shows "entry_frame s (ADDR_PTE (page2pa p) OR f OR PTE_V) = Some p"
proof -
  have "page2pa p AND 0xFFF = 0" using assms by (intro page2pa_aligned) simp
  moreover have "flag_bits (f OR PTE_V)" by (intro flag_bits_or assms(3)) simp
  ultimately have "PTE_ADDR (ADDR_PTE (page2pa p) OR (f OR PTE_V)) = page2pa p" by (rule PTE_ADDR_ADDR_PTE)
  then show ?thesis using pa2page_page2pa [OF assms(1,2)] by (simp add: entry_frame_def or.assoc)
qed

lemma entry_frame_Some:
  assumes "entry_frame s e = Some t" "unat (npage s) \<le> page_bound"
  shows "has e PTE_V" "PTE_ADDR e = page2pa t" "t < unat (npage s)" "t < page_bound"
proof -
  show "has e PTE_V" using assms by (auto simp: entry_frame_def split: if_splits)
  with assms have "pa2page s (PTE_ADDR e) = Some t" by (simp add: entry_frame_def)
  from pa2page_Some_eq [OF PTE_ADDR_aligned this assms(2)] assms(2)
  show "PTE_ADDR e = page2pa t" "t < unat (npage s)" "t < page_bound" by auto
qed
end
