(* ===== verification/Mos_Vm.thy ===== *)
theory Mos_Vm
  imports Mos_Frames
begin

text \<open>
  The address spaces that the page tables in memory describe, and their invariant.

  \<open>D\<close> is the set of frames used as page directories of live environments.  \<open>ptab s D (d, i)\<close> is the
  page-table frame in slot \<open>i\<close> of directory \<open>d\<close> (user part only, below \<open>PDX UTOP\<close>), \<open>ptes s D (d, i, j)\<close>
  the raw entry \<open>j\<close> of that table (0 where there is no table), and \<open>maps s D (d, i, j)\<close> the frame it maps.

  \<open>vm_inv s D L X\<close> is the invariant of \<^verbatim>\<open>kern/pmap.c\<close>:
  \<^item> \<open>tables_ok\<close>: every valid entry points to a frame, no two directory slots share a page table, and no
    user mapping reaches a directory or a page table;
  \<^item> \<open>refs_ok\<close>: \<^verbatim>\<open>pp_ref\<close> of every frame is the number of user mappings of it, plus one for each use as a page
    table or directory, plus the \<open>X p\<close> references the kernel itself holds;
  \<^item> \<open>free_ok\<close>: \<^verbatim>\<open>page_free_list\<close> is a well-formed list of exactly the frames with no references, apart from
    the frames in \<open>L\<close> that were allocated and not yet used.
\<close>


definition table_at :: "('a) pmap_scheme \<Rightarrow> nat \<Rightarrow> u32 \<Rightarrow> nat option" where
  "table_at s d i = entry_frame s (ent (mem s) d i)"

definition ptab :: "('a) pmap_scheme \<Rightarrow> nat set \<Rightarrow> nat \<times> u32 \<Rightarrow> nat option" where
  "ptab s D = (\<lambda>(d, i). if d \<in> D \<and> i < PDX UTOP then table_at s d i else None)"

definition ptes :: "('a) pmap_scheme \<Rightarrow> nat set \<Rightarrow> nat \<times> u32 \<times> u32 \<Rightarrow> u32" where
  "ptes s D = (\<lambda>(d, i, j).
     case ptab s D (d, i) of None \<Rightarrow> 0 | Some t \<Rightarrow> if j < 1024 then ent (mem s) t j else 0)"

definition maps :: "('a) pmap_scheme \<Rightarrow> nat set \<Rightarrow> nat \<times> u32 \<times> u32 \<Rightarrow> nat option" where
  "maps s D k = entry_frame s (ptes s D k)"

definition tables_ok :: "('a) pmap_scheme \<Rightarrow> nat set \<Rightarrow> bool" where
  "tables_ok s D \<longleftrightarrow>
     unat (npage s) \<le> page_bound \<and> finite D \<and> (\<forall>d \<in> D. d < unat (npage s))
   \<and> (\<forall>d \<in> D. \<forall>i < PDX UTOP. has (ent (mem s) d i) PTE_V \<longrightarrow> table_at s d i \<noteq> None)
   \<and> (\<forall>k. has (ptes s D k) PTE_V \<longrightarrow> maps s D k \<noteq> None)
   \<and> (\<forall>k t. ptab s D k = Some t \<longrightarrow> t \<notin> D)
   \<and> (\<forall>k k' t. ptab s D k = Some t \<longrightarrow> ptab s D k' = Some t \<longrightarrow> k = k')
   \<and> (\<forall>k p. maps s D k = Some p \<longrightarrow> p \<notin> D \<and> p \<notin> ran (ptab s D))"

definition refs :: "('a) pmap_scheme \<Rightarrow> nat set \<Rightarrow> nat \<Rightarrow> nat" where
  "refs s D p = card {k. maps s D k = Some p} + card {k. ptab s D k = Some p} + (if p \<in> D then 1 else 0)"

definition refs_ok :: "('a) pmap_scheme \<Rightarrow> nat set \<Rightarrow> (nat \<Rightarrow> nat) \<Rightarrow> bool" where
  "refs_ok s D X \<longleftrightarrow> (\<forall>p < unat (npage s). unat (pp_ref s p) = refs s D p + X p)"

definition free_ok :: "('a) pmap_scheme \<Rightarrow> nat set \<Rightarrow> bool" where
  "free_ok s L \<longleftrightarrow>
     (\<forall>p \<in> L. p < unat (npage s) \<and> pp_ref s p = 0)
   \<and> (\<exists>fl. list_rep (page_free_list s) fl \<and> set fl = {p. p < unat (npage s) \<and> pp_ref s p = 0 \<and> p \<notin> L})"

definition vm_inv :: "('a) pmap_scheme \<Rightarrow> nat set \<Rightarrow> nat set \<Rightarrow> (nat \<Rightarrow> nat) \<Rightarrow> bool" where
  "vm_inv s D L X \<longleftrightarrow> tables_ok s D \<and> refs_ok s D X \<and> free_ok s L"

lemma user_slots: "PDX UTOP = 509" "PDX UVPT = 511"
  by (simp_all add: PDX_def layout_defs)

lemma user_slot_less: "i < PDX UTOP \<Longrightarrow> i < 1024"
  by (simp add: user_slots word_less_nat_alt)

lemma view_cong:
  assumes "mem s' = mem s" "npage s' = npage s"
  shows "table_at s' = table_at s" "ptab s' = ptab s" "ptes s' = ptes s" "maps s' = maps s"
    "tables_ok s' = tables_ok s" "refs s' = refs s" "entry_frame s' = entry_frame s"
proof -
  show e: "entry_frame s' = entry_frame s"
    using assms by (simp add: entry_frame_def pa2page_def fun_eq_iff)
  then show t: "table_at s' = table_at s" by (intro ext) (simp add: table_at_def assms)
  then show p: "ptab s' = ptab s" by (simp add: ptab_def fun_eq_iff)
  then show q: "ptes s' = ptes s" by (intro ext) (simp add: ptes_def assms split: prod.splits option.splits)
  with e show m: "maps s' = maps s" by (simp add: maps_def fun_eq_iff)
  with p q t show "tables_ok s' = tables_ok s" "refs s' = refs s"
    by (intro ext, simp add: tables_ok_def refs_def assms)+
qed

lemma tables_okD:
  assumes "tables_ok s D"
  shows "unat (npage s) \<le> page_bound" "finite D" "d \<in> D \<Longrightarrow> d < page_bound" "d \<in> D \<Longrightarrow> d < unat (npage s)"
    "ptab s D k = Some t \<Longrightarrow> t < page_bound" "ptab s D k = Some t \<Longrightarrow> t < unat (npage s)"
    "ptab s D k = Some t \<Longrightarrow> t \<notin> D" "ptab s D k = Some t \<Longrightarrow> ptab s D k' = Some t \<Longrightarrow> k = k'"
    "maps s D m = Some p \<Longrightarrow> p \<notin> D" "maps s D m = Some p \<Longrightarrow> ptab s D k \<noteq> Some p"
    "maps s D m = Some p \<Longrightarrow> p < unat (npage s)"
    "d \<in> D \<Longrightarrow> i < PDX UTOP \<Longrightarrow> has (ent (mem s) d i) PTE_V \<Longrightarrow> \<exists>t. ptab s D (d, i) = Some t"
    "has (ptes s D m) PTE_V \<Longrightarrow> \<exists>p. maps s D m = Some p"
proof -
  show b: "unat (npage s) \<le> page_bound" and "finite D" using assms by (simp_all add: tables_ok_def)
  show "d \<in> D \<Longrightarrow> d < unat (npage s)" using assms by (simp add: tables_ok_def)
  with b show "d \<in> D \<Longrightarrow> d < page_bound" by simp
  have *: "entry_frame s (ent (mem s) (fst k) (snd k)) = Some t" if "ptab s D k = Some t"
    using that by (auto simp: ptab_def table_at_def split: prod.splits if_splits)
  from entry_frame_Some(3,4) [OF * b]
  show "ptab s D k = Some t \<Longrightarrow> t < page_bound" "ptab s D k = Some t \<Longrightarrow> t < unat (npage s)" by auto
  show "maps s D m = Some p \<Longrightarrow> p < unat (npage s)"
    using entry_frame_Some(3) [OF _ b] by (simp add: maps_def)
  have mp: "\<forall>k p. maps s D k = Some p \<longrightarrow> p \<notin> D \<and> p \<notin> ran (ptab s D)"
    and inj: "\<forall>k k' t. ptab s D k = Some t \<longrightarrow> ptab s D k' = Some t \<longrightarrow> k = k'"
    and nd: "\<forall>k t. ptab s D k = Some t \<longrightarrow> t \<notin> D"
    and val: "\<forall>k. has (ptes s D k) PTE_V \<longrightarrow> maps s D k \<noteq> None"
    and pde: "\<forall>d \<in> D. \<forall>i < PDX UTOP. has (ent (mem s) d i) PTE_V \<longrightarrow> table_at s d i \<noteq> None"
    by (insert assms, unfold tables_ok_def, (elim conjE, assumption)+)
  show "ptab s D k = Some t \<Longrightarrow> t \<notin> D" using nd by blast
  show "ptab s D k = Some t \<Longrightarrow> ptab s D k' = Some t \<Longrightarrow> k = k'" using inj by blast
  show "maps s D m = Some p \<Longrightarrow> p \<notin> D" using mp by blast
  show "maps s D m = Some p \<Longrightarrow> ptab s D k \<noteq> Some p" using mp [rule_format, of m p] by (auto intro: ranI)
  show "has (ptes s D m) PTE_V \<Longrightarrow> \<exists>p. maps s D m = Some p" using val [rule_format, of m] by auto
  show "d \<in> D \<Longrightarrow> i < PDX UTOP \<Longrightarrow> has (ent (mem s) d i) PTE_V \<Longrightarrow> \<exists>t. ptab s D (d, i) = Some t"
    using pde [rule_format, of d i] by (auto simp: ptab_def)
qed

lemma ptab_dom: "ptab s D (d, i) = Some t \<Longrightarrow> d \<in> D \<and> i < PDX UTOP"
  by (auto simp: ptab_def split: if_splits)

lemma finite_views:
  assumes "tables_ok s D"
  shows "finite {k. ptab s D k = Some p}" "finite {k. maps s D k = Some p}"
proof -
  let ?I = "{..< (1024 :: u32)}"
  have D: "finite D" using assms by (rule tables_okD)
  have "{k. ptab s D k = Some p} \<subseteq> D \<times> ?I"
    by (auto dest!: ptab_dom user_slot_less)
  then show "finite {k. ptab s D k = Some p}"
    by (rule finite_subset) (intro finite_cartesian_product D finite)
  have "{k. maps s D k = Some p} \<subseteq> D \<times> ?I \<times> ?I"
    by (auto simp: maps_def ptes_def dest!: ptab_dom user_slot_less split: option.splits if_splits)
  then show "finite {k. maps s D k = Some p}"
    by (rule finite_subset) (intro finite_cartesian_product D finite)
qed

lemma wr_fields [simp]: "npage (wr s a v) = npage s" "pp_ref (wr s a v) = pp_ref s"
  "page_free_list (wr s a v) = page_free_list s" "fences (wr s a v) = fences s"
  "mem (wr s a v) = st32 (mem s) a v"
  by (simp_all add: wr_def)

lemma set_ref_fields [simp]: "npage (set_ref s p r) = npage s" "mem (set_ref s p r) = mem s"
  "page_free_list (set_ref s p r) = page_free_list s" "fences (set_ref s p r) = fences s"
  "pp_ref (set_ref s p r) = (pp_ref s)(p := r)"
  by (simp_all add: set_ref_def)

lemma rd_ent: "rd s (slot d i) = ent (mem s) d i"
  by (simp add: rd_def ent_def)

lemma entry_frame_cong: "npage s' = npage s \<Longrightarrow> entry_frame s' = entry_frame s"
  by (simp add: entry_frame_def pa2page_def fun_eq_iff)

lemma ptab_eqI:
  assumes "npage s' = npage s"
    and "\<And>d i. d \<in> D \<Longrightarrow> i < PDX UTOP \<Longrightarrow> ent (mem s') d i = ent (mem s) d i"
  shows "ptab s' D = ptab s D"
  using assms(2) by (auto simp: ptab_def table_at_def entry_frame_cong [OF assms(1)] fun_eq_iff)

lemma ptes_eqI:
  assumes "ptab s' D = ptab s D"
    and "\<And>k t j. ptab s D k = Some t \<Longrightarrow> j < 1024 \<Longrightarrow> ent (mem s') t j = ent (mem s) t j"
  shows "ptes s' D = ptes s D"
  using assms by (auto simp: ptes_def fun_eq_iff split: option.splits)

text \<open>A store into a page table changes exactly one user entry.\<close>

lemma view_wr_pte:
  assumes ok: "tables_ok s D" and t: "ptab s D (d, i) = Some t" and j: "j < 1024"
  shows "ptab (wr s (slot t j) v) D = ptab s D"
    and "ptes (wr s (slot t j) v) D = (ptes s D)((d, i, j) := v)"
    and "e \<in> D \<Longrightarrow> l < 1024 \<Longrightarrow> ent (mem (wr s (slot t j) v)) e l = ent (mem s) e l"
proof -
  let ?s = "wr s (slot t j) v"
  note tb = tables_okD(5) [OF ok t]
  show dirs: "ent (mem ?s) e l = ent (mem s) e l" if "e \<in> D" "l < 1024" for e l
    using tables_okD(3,7) [OF ok] t tb j that by (auto simp: ent_st32)
  show tab: "ptab ?s D = ptab s D"
    by (rule ptab_eqI) (simp_all only: wr_fields(1) dirs user_slot_less)
  show "ptes ?s D = (ptes s D)((d, i, j) := v)"
  proof
    fix k :: "nat \<times> u32 \<times> u32"
    obtain e l n where k: "k = (e, l, n)" by (cases k)
    show "ptes ?s D k = ((ptes s D)((d, i, j) := v)) k"
    proof (cases "ptab s D (e, l)")
      case None
      then show ?thesis using t by (auto simp: k ptes_def tab)
    next
      case (Some u)
      then have "u < page_bound" "u = t \<longleftrightarrow> (e, l) = (d, i)" using tables_okD(5,8) [OF ok] t by auto
      then show ?thesis using Some tb j by (auto simp: k ptes_def tab ent_st32)
    qed
  qed
qed

text \<open>Clearing a frame that is neither a directory nor a page table changes no entry.\<close>

lemma view_clear:
  assumes ok: "tables_ok s D" and p: "p < page_bound" "p \<notin> D" "\<And>k. ptab s D k \<noteq> Some p"
  defines "s' \<equiv> s\<lparr>mem := filled (mem s) (page2pa p) (page2pa p + 4096) 0\<rparr>"
  shows "ptab s' D = ptab s D" "ptes s' D = ptes s D"
    and "e \<in> D \<Longrightarrow> l < 1024 \<Longrightarrow> ent (mem s') e l = ent (mem s) e l"
    and "l < 1024 \<Longrightarrow> ent (mem s') p l = 0"
proof -
  show dirs: "ent (mem s') e l = ent (mem s) e l" if "e \<in> D" "l < 1024" for e l
    using that tables_okD(3) [OF ok] p by (auto simp: s'_def ent_filled)
  show "l < 1024 \<Longrightarrow> ent (mem s') p l = 0" using p by (simp add: s'_def ent_filled)
  show tab: "ptab s' D = ptab s D"
    by (rule ptab_eqI) (simp_all only: dirs user_slot_less, simp add: s'_def)
  show "ptes s' D = ptes s D"
    using p tables_okD(5) [OF ok] by (intro ptes_eqI tab) (auto simp: s'_def ent_filled)
qed

text \<open>Stores into a directory: entering an empty table, removing an emptied one, and the slots
  above the user part.\<close>

lemma view_wr_pde:
  assumes ok: "tables_ok s D" and d: "d \<in> D" "i < 1024"
  shows "ptab (wr s (slot d i) v) D = (if i < PDX UTOP then (ptab s D)((d, i) := entry_frame s v) else ptab s D)"
    and "e < page_bound \<Longrightarrow> l < 1024 \<Longrightarrow> ent (mem (wr s (slot d i) v)) e l = (if (e, l) = (d, i) then v else ent (mem s) e l)"
proof -
  note db = tables_okD(3) [OF ok d(1)]
  show e: "ent (mem (wr s (slot d i) v)) e l = (if (e, l) = (d, i) then v else ent (mem s) e l)"
    if "e < page_bound" "l < 1024" for e l
    using that db d by (auto simp: ent_st32)
  show "ptab (wr s (slot d i) v) D = (if i < PDX UTOP then (ptab s D)((d, i) := entry_frame s v) else ptab s D)"
    using e tables_okD(3) [OF ok] d
    by (auto simp: ptab_def table_at_def entry_frame_cong [of "wr s (slot d i) v" s] fun_eq_iff user_slot_less
             simp del: wr_fields(5))
qed

section \<open>Preservation by the single stores\<close>

declare split_paired_All [simp del] split_paired_Ex [simp del]

lemma maps_npage: "npage s' = npage s \<Longrightarrow> ptes s' D = ptes s D \<Longrightarrow> maps s' D = maps s D"
  by (simp add: maps_def fun_eq_iff entry_frame_def pa2page_def)

lemma tables_okI:
  assumes "unat (npage s) \<le> page_bound" "finite D" "\<And>d. d \<in> D \<Longrightarrow> d < unat (npage s)"
    and "\<And>d i. d \<in> D \<Longrightarrow> i < PDX UTOP \<Longrightarrow> has (ent (mem s) d i) PTE_V \<Longrightarrow> ptab s D (d, i) \<noteq> None"
    and "\<And>k. has (ptes s D k) PTE_V \<Longrightarrow> maps s D k \<noteq> None"
    and "\<And>k t. ptab s D k = Some t \<Longrightarrow> t \<notin> D"
    and "\<And>k k' t. ptab s D k = Some t \<Longrightarrow> ptab s D k' = Some t \<Longrightarrow> k = k'"
    and "\<And>k p. maps s D k = Some p \<Longrightarrow> p \<notin> D"
    and "\<And>k k' p. maps s D k = Some p \<Longrightarrow> ptab s D k' \<noteq> Some p"
  shows "tables_ok s D"
  unfolding tables_ok_def
proof (intro conjI ballI allI impI)
  fix d i assume a: "d \<in> D" "i < PDX UTOP" "has (ent (mem s) d i) PTE_V"
  from assms(4) [OF this] a show "table_at s d i \<noteq> None" by (simp add: ptab_def)
next
  fix k p assume "maps s D k = Some p"
  from assms(9) [OF this] show "p \<notin> ran (ptab s D)" by (auto simp: ran_def)
qed (fact assms(1-3) | erule assms(5-8) | assumption)+

lemma tables_ok_same:
  assumes ok: "tables_ok s D" and np: "npage s' = npage s"
    and tab: "ptab s' D = ptab s D" and pte: "ptes s' D = ptes s D"
    and pde: "\<And>d i. d \<in> D \<Longrightarrow> i < PDX UTOP \<Longrightarrow> ent (mem s') d i = ent (mem s) d i"
  shows "tables_ok s' D" "refs s' D = refs s D"
proof -
  note mp = maps_npage [OF np pte]
  show "refs s' D = refs s D" by (simp add: refs_def tab mp fun_eq_iff)
  show "tables_ok s' D"
  proof (rule tables_okI; (unfold tab mp pte np)?)
    fix d i assume "d \<in> D" "i < PDX UTOP" "has (ent (mem s') d i) PTE_V"
    then show "ptab s D (d, i) \<noteq> None" using tables_okD(12) [OF ok, of d i] pde by auto
  qed (use tables_okD(1,2,4,7,8,9,10,13) [OF ok] in blast)+
qed

lemma maps_wr_pte:
  assumes "tables_ok s D" "ptab s D (d, i) = Some t" "j < 1024"
  shows "maps (wr s (slot t j) v) D = (maps s D)((d, i, j) := entry_frame s v)"
  using view_wr_pte(2) [OF assms, of v] entry_frame_cong [of "wr s (slot t j) v" s]
  by (simp add: maps_def fun_eq_iff)

lemma tables_ok_wr_pte:
  assumes ok: "tables_ok s D" and t: "ptab s D (d, i) = Some t" and j: "j < 1024"
    and v: "has v PTE_V \<Longrightarrow> \<exists>p. entry_frame s v = Some p \<and> p \<notin> D \<and> (\<forall>k. ptab s D k \<noteq> Some p)"
  shows "tables_ok (wr s (slot t j) v) D"
proof -
  note tab = view_wr_pte(1) [OF ok t j, of v] and pte = view_wr_pte(2) [OF ok t j, of v]
    and pde = view_wr_pte(3) [OF ok t j] and mp = maps_wr_pte [OF ok t j, of v]
  have v': "entry_frame s v = Some p \<Longrightarrow> p \<notin> D \<and> (\<forall>k. ptab s D k \<noteq> Some p)" for p
    using v by (auto simp: entry_frame_def split: if_splits)
  show ?thesis
  proof (rule tables_okI)
    fix e l assume "e \<in> D" "l < PDX UTOP" "has (ent (mem (wr s (slot t j) v)) e l) PTE_V"
    with tables_okD(12) [OF ok] pde user_slot_less show "ptab (wr s (slot t j) v) D (e, l) \<noteq> None"
      unfolding tab by fastforce
  next
    fix k assume "has (ptes (wr s (slot t j) v) D k) PTE_V"
    with v tables_okD(13) [OF ok, of k] show "maps (wr s (slot t j) v) D k \<noteq> None"
      unfolding pte mp by (auto split: if_splits)
  next
    fix k p assume "maps (wr s (slot t j) v) D k = Some p"
    then show "p \<notin> D" using v' tables_okD(9) [OF ok] unfolding mp by (auto split: if_splits)
  next
    fix k k' p assume "maps (wr s (slot t j) v) D k = Some p"
    then show "ptab (wr s (slot t j) v) D k' \<noteq> Some p"
      using v' tables_okD(10) [OF ok] unfolding mp tab by (auto split: if_splits)
  qed (use tables_okD(1,2,4,7,8) [OF ok] in \<open>auto simp: tab\<close>)
qed

lemma refs_wr_pte:
  assumes ok: "tables_ok s D" and t: "ptab s D (d, i) = Some t" and j: "j < 1024"
  shows "refs (wr s (slot t j) v) D p + (if maps s D (d, i, j) = Some p then 1 else 0)
       = refs s D p + (if entry_frame s v = Some p then 1 else 0)"
  using card_map_upd [OF finite_views(2) [OF ok, of p], of "(d, i, j)" "entry_frame s v"]
  unfolding refs_def view_wr_pte(1) [OF assms] maps_wr_pte [OF assms] by simp

text \<open>Entering an empty page table.\<close>

lemma new_table:
  assumes ok: "tables_ok s D" and d: "d \<in> D" "i < PDX UTOP" and none: "ptab s D (d, i) = None"
    and p: "p < unat (npage s)" "p \<notin> D" "\<And>k. ptab s D k \<noteq> Some p" "\<And>k. maps s D k \<noteq> Some p"
    and zero: "\<And>l. l < 1024 \<Longrightarrow> ent (mem s) p l = 0"
  defines "s' \<equiv> wr s (slot d i) (ADDR_PTE (page2pa p) OR PTE_V)"
  shows "ptab s' D = (ptab s D)((d, i) := Some p)" "ptes s' D = ptes s D" "tables_ok s' D"
    and "refs s' D q = refs s D q + (if q = p then 1 else 0)"
proof -
  let ?v = "ADDR_PTE (page2pa p) OR PTE_V"
  note il = user_slot_less [OF d(2)] and np = tables_okD(1) [OF ok]
  have ef: "entry_frame s ?v = Some p" using entry_frame_new [OF p(1) np, of 0] by (simp add: flag_bits_def)
  show tab: "ptab s' D = (ptab s D)((d, i) := Some p)"
    unfolding s'_def view_wr_pde(1) [OF ok d(1) il] ef using d by simp
  have ent': "ent (mem s') e l = (if (e, l) = (d, i) then ?v else ent (mem s) e l)"
    if "e < page_bound" "l < 1024" for e l
    unfolding s'_def using view_wr_pde(2) [OF ok d(1) il that] .
  have pb: "p < page_bound" using p(1) np by simp
  show pte: "ptes s' D = ptes s D"
  proof
    fix k :: "nat \<times> u32 \<times> u32"
    obtain e l n where k: "k = (e, l, n)" by (cases k)
    show "ptes s' D k = ptes s D k"
    proof (cases "(e, l) = (d, i)")
      case True
      then show ?thesis using none p(2) d zero ent' [OF pb, of n] by (auto simp: k ptes_def tab)
    next
      case False
      have "ent (mem s') t n = ent (mem s) t n" if "ptab s D (e, l) = Some t" "n < 1024" for t
        using ent' [of t n] that tables_okD(5,7) [OF ok that(1)] d by auto
      with False show ?thesis by (auto simp: k ptes_def tab split: option.splits)
    qed
  qed
  have nps: "npage s' = npage s" by (simp add: s'_def)
  note mp = maps_npage [OF nps pte]
  show "tables_ok s' D"
  proof (rule tables_okI; (unfold tab mp pte nps)?)
    fix e l assume a: "e \<in> D" "l < PDX UTOP" "has (ent (mem s') e l) PTE_V"
    show "((ptab s D)((d, i) := Some p)) (e, l) \<noteq> None"
      using a tables_okD(12) [OF ok a(1,2)] ent' [OF tables_okD(3) [OF ok a(1)] user_slot_less [OF a(2)]]
      by (auto split: if_splits)
  next
    fix k k' t assume "((ptab s D)((d, i) := Some p)) k = Some t" "((ptab s D)((d, i) := Some p)) k' = Some t"
    then show "k = k'" using tables_okD(8) [OF ok, of k t k'] p(3) [of k] p(3) [of k'] 
      by (cases "k = (d, i)"; cases "k' = (d, i)") auto
  next
    fix k t assume "((ptab s D)((d, i) := Some p)) k = Some t"
    then show "t \<notin> D" using tables_okD(7) [OF ok, of k t] p(2) by (cases "k = (d, i)") auto
  next
    fix k k' q assume "maps s D k = Some q"
    then show "((ptab s D)((d, i) := Some p)) k' \<noteq> Some q"
      using tables_okD(10) [OF ok, of k q k'] p(4) [of k] by auto
  qed (use tables_okD(1,2,4,9,13) [OF ok] in blast)+
  have "card {k. ((ptab s D)((d, i) := Some p)) k = Some q} = card {k. ptab s D k = Some q} + (if q = p then 1 else 0)"
    using card_map_upd [OF finite_views(1) [OF ok, of q], of "(d, i)" "Some p"] none by simp
  then show "refs s' D q = refs s D q + (if q = p then 1 else 0)"
    by (simp add: refs_def tab mp)
qed
end
