(* ===== verification/Mos_Vm_Ops.thy ===== *)
theory Mos_Vm_Ops
  imports Mos_Vm
begin

text \<open>
  What the operations of \<^verbatim>\<open>kern/pmap.c\<close> do to the address spaces of theory \<open>Mos_Vm\<close>, and that each of
  them keeps \<open>vm_inv\<close>.  The lemmas come as case rules, one case for each way the C function can return;
  that no case is a panic is part of what they say.
\<close>


lemma refs_ok_refD:
  "refs_ok s D X \<Longrightarrow> p < unat (npage s) \<Longrightarrow> unat (pp_ref s p) = refs s D p + X p"
  by (simp add: refs_ok_def)

lemma unreferenced:
  assumes "tables_ok s D" "refs_ok s D X" "p < unat (npage s)" "pp_ref s p = 0"
  shows "p \<notin> D" "ptab s D k \<noteq> Some p" "maps s D m \<noteq> Some p"
proof -
  have "refs s D p = 0" using refs_ok_refD [OF assms(2,3)] assms(4) by simp
  then show "p \<notin> D" "ptab s D k \<noteq> Some p" "maps s D m \<noteq> Some p"
    using finite_views [OF assms(1), of p] by (auto simp: refs_def split: if_splits)
qed

lemma referenced:
  assumes "tables_ok s D" "refs_ok s D X" "p < unat (npage s)"
    and "p \<in> D \<or> ptab s D k = Some p \<or> maps s D m = Some p"
  shows "pp_ref s p \<noteq> 0"
  using unreferenced [OF assms(1-3)] assms(4) by blast

section \<open>The allocator\<close>

definition alloc_frame :: "('a) pmap_scheme \<Rightarrow> ('a) pmap_scheme \<Rightarrow> bool" where
  "alloc_frame s s' \<longleftrightarrow> npage s' = npage s \<and> memsize s' = memsize s \<and> freemem s' = freemem s
     \<and> pages_addr s' = pages_addr s \<and> pmap.more s' = pmap.more s"

lemma page_alloc_cases:
  assumes "vm_inv s D L X"
  obtains (fail) "page_alloc s = Some (Inl E_NO_MEM, s)" "\<And>p. p < unat (npage s) \<Longrightarrow> pp_ref s p = 0 \<Longrightarrow> p \<in> L"
  | (ok) p s' where "page_alloc s = Some (Inr p, s')" "p < unat (npage s)" "pp_ref s p = 0" "p \<notin> L"
      "vm_inv s' D (insert p L) X" "ptab s' D = ptab s D" "ptes s' D = ptes s D"
      "\<And>l. l < 1024 \<Longrightarrow> ent (mem s') p l = 0" "pp_ref s' = pp_ref s" "fences s' = fences s"
      "alloc_frame s s'" "mem s' = filled (mem s) (page2pa p) (page2pa p + 4096) 0"
proof -
  have tok: "tables_ok s D" and rok: "refs_ok s D X" and fok: "free_ok s L"
    using assms by (simp_all add: vm_inv_def)
  note nb = tables_okD(1) [OF tok]
  obtain fl where fl: "list_rep (page_free_list s) fl"
    and fls: "set fl = {p. p < unat (npage s) \<and> pp_ref s p = 0 \<and> p \<notin> L}"
    using fok by (auto simp: free_ok_def)
  show thesis
  proof (cases "LIST_FIRST (page_free_list s)")
    case None
    with lst.first_None_iff [OF fl] fls have "p < unat (npage s) \<Longrightarrow> pp_ref s p = 0 \<Longrightarrow> p \<in> L" for p by auto
    moreover have "page_alloc s = Some (Inl E_NO_MEM, s)" using None by (simp add: page_alloc_def)
    ultimately show thesis by (intro fail)
  next
    case (Some p)
    from lst.pop [OF fl Some] obtain ys q where ys: "fl = p # ys" "LIST_REMOVE (page_free_list s) p = Some q"
      "list_rep q ys" by blast
    have p: "p < unat (npage s)" "pp_ref s p = 0" "p \<notin> L" using fls ys(1) by auto
    then have pb: "p < page_bound" using nb by simp
    define s' where "s' = s\<lparr>page_free_list := q, mem := filled (mem s) (page2pa p) (page2pa p + 4096) 0\<rparr>"
    have run: "page_alloc s = Some (Inr p, s')"
      using page2kva_page2pa [of p "s\<lparr>page_free_list := q\<rparr>"] p nb ys(2) page_cleared [OF pb, of "mem s"] Some
      by (simp add: page_alloc_def s'_def)
    note un = unreferenced [OF tok rok p(1,2)]
    note vc = view_clear [OF tok pb un(1,2)]
    let ?c = "s\<lparr>mem := filled (mem s) (page2pa p) (page2pa p + 4096) 0\<rparr>"
    have eq: "mem s' = mem ?c" "npage s' = npage ?c" by (simp_all add: s'_def)
    note vw = view_cong [OF eq]
    have "tables_ok ?c D" "refs ?c D = refs s D"
      using tables_ok_same [OF tok, of ?c] vc by (simp_all add: user_slot_less)
    then have "tables_ok s' D" "refs s' D = refs s D" by (simp_all add: vw)
    moreover have "distinct fl" by (rule lst.rep_distinct [OF fl])
    then have "free_ok s' (insert p L)"
      using fok p ys fls by (auto simp: free_ok_def s'_def intro!: exI [of _ ys])
    ultimately have inv: "vm_inv s' D (insert p L) X"
      using rok by (simp add: vm_inv_def refs_ok_def s'_def)
    show thesis
      by (rule ok [OF run p inv])
         (simp_all add: vw vc(1,2) eq, simp_all add: alloc_frame_def s'_def ent_filled pb)
  qed
qed

lemma page_free_vm_inv:
  assumes "vm_inv s D L X" "p \<in> L"
  shows "\<exists>s'. page_free p s = Some s' \<and> vm_inv s' D (L - {p}) X \<and> mem s' = mem s \<and> npage s' = npage s
     \<and> pp_ref s' = pp_ref s"
proof -
  have fok: "free_ok s L" and p: "p < unat (npage s)" "pp_ref s p = 0"
    using assms by (auto simp: vm_inv_def free_ok_def)
  then obtain fl where fl: "list_rep (page_free_list s) fl"
    and fls: "set fl = {p. p < unat (npage s) \<and> pp_ref s p = 0 \<and> p \<notin> L}"
    by (auto simp: free_ok_def)
  define s' where "s' = s\<lparr>page_free_list := LIST_INSERT_HEAD (page_free_list s) p\<rparr>"
  have "list_rep (page_free_list s') (p # fl)"
    using list_rep_insert_head [OF fl, of p] fls assms(2) by (simp add: s'_def)
  moreover have "set (p # fl) = {q. q < unat (npage s') \<and> pp_ref s' q = 0 \<and> q \<notin> L - {p}}"
    using fls p by (auto simp: s'_def)
  ultimately have "free_ok s' (L - {p})" using fok unfolding free_ok_def by (auto simp: s'_def)
  moreover have "tables_ok s' D" "refs_ok s' D X"
    using assms(1) view_cong [of s' s] by (simp_all add: vm_inv_def refs_ok_def s'_def)
  ultimately show ?thesis using p by (simp add: page_free_def vm_inv_def s'_def)
qed

text \<open>Dropping one reference: \<^verbatim>\<open>page_decref\<close> keeps the free list exact, whatever the tables say.\<close>

lemma page_decref_free_ok:
  assumes "free_ok s L" "p < unat (npage s)" "pp_ref s p \<noteq> 0"
  shows "\<exists>s'. page_decref p s = Some s' \<and> free_ok s' L \<and> mem s' = mem s \<and> npage s' = npage s
     \<and> fences s' = fences s \<and> pp_ref s' = (pp_ref s)(p := pp_ref s p - 1)"
proof -
  obtain fl where fl: "list_rep (page_free_list s) fl"
    and fls: "set fl = {p. p < unat (npage s) \<and> pp_ref s p = 0 \<and> p \<notin> L}"
    using assms(1) by (auto simp: free_ok_def)
  have pL: "p \<notin> L" using assms by (auto simp: free_ok_def)
  let ?s = "set_ref s p (pp_ref s p - 1)"
  show ?thesis
  proof (cases "pp_ref s p - 1 = 0")
    case True
    let ?q = "LIST_INSERT_HEAD (page_free_list s) p"
    have "list_rep ?q (p # fl)" using list_rep_insert_head [OF fl, of p] fls assms(3) by simp
    moreover have "set (p # fl) = {q. q < unat (npage s) \<and> ((pp_ref s)(p := 0)) q = 0 \<and> q \<notin> L}"
      using fls assms(2) pL by auto
    ultimately have "free_ok (?s\<lparr>page_free_list := ?q\<rparr>) L"
      using assms(1) True unfolding free_ok_def by (auto simp: set_ref_def)
    then show ?thesis using assms(3) True by (simp add: page_decref_def page_free_def)
  next
    case False
    then have "{q. q < unat (npage s) \<and> ((pp_ref s)(p := pp_ref s p - 1)) q = 0 \<and> q \<notin> L} = set fl"
      using fls assms(3) by auto
    then have "free_ok ?s L" using assms(1) fl pL unfolding free_ok_def by auto
    then show ?thesis using assms(3) False by (simp add: page_decref_def)
  qed
qed

section \<open>Walking the tables\<close>

definition user_va :: "u32 \<Rightarrow> bool" where
  "user_va va \<longleftrightarrow> PDX va < PDX UTOP"

definition key :: "nat \<Rightarrow> u32 \<Rightarrow> nat \<times> u32 \<times> u32" where
  "key d va = (d, PDX va, PTX va)"

lemma ptab_None_invalid:
  assumes "tables_ok s D" "d \<in> D" "user_va va" "ptab s D (d, PDX va) = None"
  shows "\<not> has (ent (mem s) d (PDX va)) PTE_V"
  using tables_okD(12) [OF assms(1,2), of "PDX va"] assms(3,4) by (auto simp: user_va_def)

lemma ptab_Some_entry:
  assumes "tables_ok s D" "ptab s D (d, i) = Some t"
  shows "has (ent (mem s) d i) PTE_V" "PTE_ADDR (ent (mem s) d i) = page2pa t"
    "KADDR s (PTE_ADDR (ent (mem s) d i)) = Some (page2pa t)"
proof -
  have e: "entry_frame s (ent (mem s) d i) = Some t"
    using assms(2) by (auto simp: ptab_def table_at_def split: if_splits)
  note f = entry_frame_Some [OF e tables_okD(1) [OF assms(1)]]
  then show "has (ent (mem s) d i) PTE_V" "PTE_ADDR (ent (mem s) d i) = page2pa t" by auto
  then show "KADDR s (PTE_ADDR (ent (mem s) d i)) = Some (page2pa t)"
    using KADDR_page2pa [OF f(3) tables_okD(1) [OF assms(1)]] by simp
qed

lemma pgdir_walk_present:
  assumes "tables_ok s D" "ptab s D (d, PDX va) = Some t"
  shows "pgdir_walk (page2pa d) va create s = Some (Inr (Some (slot t (PTX va))), s)"
  using ptab_Some_entry [OF assms] by (simp add: pgdir_walk_def Let_def rd_ent flip: slot_def)

lemma pgdir_walk_absent:
  assumes "tables_ok s D" "d \<in> D" "user_va va" "ptab s D (d, PDX va) = None"
  shows "pgdir_walk (page2pa d) va False s = Some (Inr None, s)"
  using ptab_None_invalid [OF assms] unfolding pgdir_walk_def Let_def slot_def [symmetric]
  by (simp add: rd_ent)

lemma vm_inv_cases:
  assumes "vm_inv s D L X"
  shows "tables_ok s D" "refs_ok s D X" "free_ok s L"
  using assms by (simp_all add: vm_inv_def)

lemma pgdir_walk_create:
  assumes inv: "vm_inv s D L X" and d: "d \<in> D" "user_va va" and none: "ptab s D (d, PDX va) = None"
  obtains (fail) "pgdir_walk (page2pa d) va True s = Some (Inl E_NO_MEM, s)"
      "\<And>p. p < unat (npage s) \<Longrightarrow> pp_ref s p = 0 \<Longrightarrow> p \<in> L"
  | (ok) t s' where "pgdir_walk (page2pa d) va True s = Some (Inr (Some (slot t (PTX va))), s')"
      "vm_inv s' D L X" "ptab s' D = (ptab s D)((d, PDX va) := Some t)" "ptes s' D = ptes s D"
      "pp_ref s' = (pp_ref s)(t := 1)" "pp_ref s t = 0" "t \<notin> L" "fences s' = fences s" "npage s' = npage s"
      "mem s' = st32 (filled (mem s) (page2pa t) (page2pa t + 4096) 0) (slot d (PDX va)) (ADDR_PTE (page2pa t) OR PTE_V)"
proof (cases rule: page_alloc_cases [OF inv])
  case 1
  show thesis
    by (rule fail) (use 1 ptab_None_invalid [OF vm_inv_cases(1) [OF inv] d none] in
      \<open>simp_all add: pgdir_walk_def Let_def rd_ent flip: slot_def\<close>)
next
  case (2 p s1)
  let ?i = "PDX va"
  let ?v = "ADDR_PTE (page2pa p) OR PTE_V"
  define s2 where "s2 = set_ref s1 p 1"
  define s3 where "s3 = wr s2 (slot d ?i) ?v"
  note inv1 = vm_inv_cases [OF 2(5)]
  have v2: "ptab s2 D = ptab s D" "ptes s2 D = ptes s D" "tables_ok s2 D" "refs s2 D = refs s1 D" "maps s2 D = maps s1 D"
    using view_cong [of s2 s1] 2(6,7) inv1(1) by (simp_all add: s2_def)
  have p1: "p < unat (npage s1)" "pp_ref s1 p = 0" using 2 by (simp_all add: alloc_frame_def)
  note un = unreferenced [OF inv1(1,2) p1]
  have nt: "ptab s3 D = (ptab s2 D)((d, ?i) := Some p)" "ptes s3 D = ptes s2 D" "tables_ok s3 D"
      "\<And>q. refs s3 D q = refs s2 D q + (if q = p then 1 else 0)"
    unfolding s3_def
    by (rule new_table [OF v2(3) d(1) d(2) [unfolded user_va_def]];
        use none v2 un 2(6,8) p1 in \<open>simp add: s2_def\<close>)+
  have "refs_ok s3 D X"
    unfolding refs_ok_def
  proof (intro allI impI)
    fix q assume "q < unat (npage s3)"
    then have "unat (pp_ref s1 q) = refs s1 D q + X q"
      using refs_ok_refD [OF inv1(2), of q] by (simp add: s3_def s2_def)
    moreover have "pp_ref s3 = (pp_ref s1)(p := 1)" by (simp add: s3_def s2_def)
    ultimately show "unat (pp_ref s3 q) = refs s3 D q + X q"
      using p1(2) by (auto simp: nt(4) v2(4))
  qed
  moreover have "free_ok s3 L"
    using inv1(3) 2(4) by (auto simp: free_ok_def s3_def s2_def elim!: ex_forward)
  ultimately have inv3: "vm_inv s3 D L X" using nt(3) by (simp add: vm_inv_def)
  have "rd s (page2pa d + 4 * ?i) = ent (mem s) d ?i" by (simp add: rd_def ent_def slot_def)
  moreover have "ptab s3 D (d, ?i) = Some p" by (simp add: nt)
  note ptab_Some_entry(3) [OF nt(3) this]
  ultimately have run: "pgdir_walk (page2pa d) va True s = Some (Inr (Some (slot p (PTX va))), s3)"
    using 2(1) ptab_None_invalid [OF vm_inv_cases(1) [OF inv] d none]
    by (simp add: pgdir_walk_def Let_def s3_def s2_def slot_def rd_def ent_def)
  show thesis
    by (rule ok [OF run inv3]) (use 2 nt v2 in \<open>simp_all add: s3_def s2_def alloc_frame_def wr_def set_ref_def\<close>)
qed

lemma PTX_1024: "PTX va < 1024" by (rule PTX_less)

lemma maps_key:
  assumes "maps s D (key d va) = Some p"
  obtains t where "ptab s D (d, PDX va) = Some t" "entry_frame s (ent (mem s) t (PTX va)) = Some p"
  using assms that PTX_less by (auto simp: maps_def ptes_def key_def split: option.splits)

lemma page_lookup_mapped:
  assumes ok: "tables_ok s D" and m: "maps s D (key d va) = Some p"
  obtains t where "ptab s D (d, PDX va) = Some t"
    "page_lookup (page2pa d) va s = Some (Some (p, slot t (PTX va)), s)"
proof -
  from m obtain t where t: "ptab s D (d, PDX va) = Some t" "entry_frame s (ent (mem s) t (PTX va)) = Some p"
    by (rule maps_key)
  then have "has (ent (mem s) t (PTX va)) PTE_V" "pa2page s (PTE_ADDR (ent (mem s) t (PTX va))) = Some p"
    by (auto simp: entry_frame_def split: if_splits)
  then show thesis
    using that t(1) pgdir_walk_present [OF ok t(1)] by (simp add: page_lookup_def rd_ent)
qed

lemma page_lookup_unmapped:
  assumes ok: "tables_ok s D" "d \<in> D" "user_va va" and m: "maps s D (key d va) = None"
  shows "page_lookup (page2pa d) va s = Some (None, s)"
proof (cases "ptab s D (d, PDX va)")
  case None
  then show ?thesis using pgdir_walk_absent [OF ok None] by (simp add: page_lookup_def)
next
  case (Some t)
  have "ptes s D (key d va) = ent (mem s) t (PTX va)" using Some PTX_less by (simp add: ptes_def key_def)
  with m tables_okD(13) [OF ok(1), of "key d va"] have "\<not> has (ent (mem s) t (PTX va)) PTE_V" by auto
  then show ?thesis using pgdir_walk_present [OF ok(1) Some] by (simp add: page_lookup_def rd_ent)
qed

section \<open>Removing a mapping\<close>

lemma tlb_flush_fields [simp]: "mem (tlb_flush a va s) = mem s" "npage (tlb_flush a va s) = npage s"
  "pp_ref (tlb_flush a va s) = pp_ref s" "page_free_list (tlb_flush a va s) = page_free_list s"
  by (simp_all add: tlb_flush_def)

text \<open>Which translations a fence drops from the TLB.\<close>

fun covers :: "fence \<Rightarrow> u32 \<Rightarrow> u32 \<Rightarrow> bool" where
  "covers FenceAll va asid \<longleftrightarrow> True"
| "covers (FenceAsid a) va asid \<longleftrightarrow> a = asid"
| "covers (FenceVa v) va asid \<longleftrightarrow> v = va"
| "covers (FenceVaAsid v a) va asid \<longleftrightarrow> v = va \<and> a = asid"

lemma tlb_flush_covers: "v = va \<or> v = 0 \<Longrightarrow> \<exists>f. fences (tlb_flush a v s) = f # fences s \<and> covers f va a"
  by (auto simp: tlb_flush_def)

lemma vm_inv_cong:
  assumes "mem s' = mem s" "npage s' = npage s" "pp_ref s' = pp_ref s" "page_free_list s' = page_free_list s"
  shows "vm_inv s' D L X = vm_inv s D L X"
  using view_cong [OF assms(1,2)] assms by (simp add: vm_inv_def refs_ok_def free_ok_def)

lemma unat_minus_1: "x \<noteq> 0 \<Longrightarrow> unat (x - 1) = unat x - 1"
  by (metis unat_minus_one)

lemma page_remove_mapped:
  assumes inv: "vm_inv s D L X" and m: "maps s D (key d va) = Some p"
  obtains s' where "page_remove (page2pa d) asid va s = Some s'" "vm_inv s' D L X"
    "ptab s' D = ptab s D" "ptes s' D = (ptes s D)(key d va := 0)"
    "pp_ref s' = (pp_ref s)(p := pp_ref s p - 1)" "npage s' = npage s"
    "\<exists>f. fences s' = f # fences s \<and> covers f va asid"
proof -
  note i = vm_inv_cases [OF inv]
  obtain t where t: "ptab s D (d, PDX va) = Some t"
    and lk: "page_lookup (page2pa d) va s = Some (Some (p, slot t (PTX va)), s)"
    using page_lookup_mapped [OF i(1) m] by blast
  have p: "p < unat (npage s)" using tables_okD(11) [OF i(1) m] .
  have ref: "pp_ref s p \<noteq> 0" using referenced [OF i(1,2) p] m by blast
  from page_decref_free_ok [OF i(3) p ref] obtain s1 where s1: "page_decref p s = Some s1" "free_ok s1 L"
    "mem s1 = mem s" "npage s1 = npage s" "fences s1 = fences s"
    "pp_ref s1 = (pp_ref s)(p := pp_ref s p - 1)" by blast
  define s2 where "s2 = wr s1 (slot t (PTX va)) 0"
  define s3 where "s3 = tlb_flush asid va s2"
  note v1 = view_cong [OF s1(3,4)]
  have t1: "ptab s1 D (d, PDX va) = Some t" and ok1: "tables_ok s1 D" using t i(1) by (simp_all add: v1)
  note w = view_wr_pte [OF ok1 t1 PTX_less [of va], where v = 0, folded s2_def]
  have ok2: "tables_ok s2 D" unfolding s2_def by (rule tables_ok_wr_pte [OF ok1 t1 PTX_less]) simp
  have rf: "refs s2 D q + (if q = p then 1 else 0) = refs s D q" for q
    using refs_wr_pte [OF ok1 t1 PTX_less [of va], where v = 0 and p = q] m
    by (cases "q = p") (simp_all add: s2_def v1 key_def)
  have "refs_ok s2 D X"
    unfolding refs_ok_def
  proof (intro allI impI)
    fix q assume "q < unat (npage s2)"
    then have "unat (pp_ref s q) = refs s D q + X q"
      using refs_ok_refD [OF i(2), of q] s1(4) by (simp add: s2_def)
    moreover have "pp_ref s2 = (pp_ref s)(p := pp_ref s p - 1)" by (simp add: s2_def s1)
    ultimately show "unat (pp_ref s2 q) = refs s2 D q + X q"
      using rf [of q] unat_minus_1 [OF ref] by (auto split: if_splits)
  qed
  moreover have "free_ok s2 L" using s1(2) by (simp add: s2_def free_ok_def)
  ultimately have inv2: "vm_inv s2 D L X" using ok2 by (simp add: vm_inv_def)
  have run: "page_remove (page2pa d) asid va s = Some s3"
    using lk s1(1) by (simp add: page_remove_def s3_def s2_def)
  have v3: "ptab s3 = ptab s2" "ptes s3 = ptes s2" using view_cong [of s3 s2] by (simp_all add: s3_def)
  have inv3: "vm_inv s3 D L X" using inv2 vm_inv_cong [of s3 s2] by (simp add: s3_def)
  show thesis
    by (rule that [OF run inv3])
       (use w(1,2) tlb_flush_covers [of va va asid s2] in
         \<open>simp_all add: v3 v1 key_def\<close>, simp_all add: s3_def s2_def s1)
qed

lemma page_remove_unmapped:
  assumes "tables_ok s D" "d \<in> D" "user_va va" "maps s D (key d va) = None"
  shows "page_remove (page2pa d) asid va s = Some s"
  using page_lookup_unmapped [OF assms] by (simp add: page_remove_def)

section \<open>Inserting a mapping\<close>

definition insertable :: "('a) pmap_scheme \<Rightarrow> nat set \<Rightarrow> nat set \<Rightarrow> nat \<Rightarrow> bool" where
  "insertable s D L p \<longleftrightarrow> p < unat (npage s) \<and> p \<notin> D \<and> p \<notin> ran (ptab s D)
     \<and> (p \<in> L \<or> pp_ref s p \<noteq> 0) \<and> pp_ref s p + 1 \<noteq> 0"

definition insert_perm :: "u32 \<Rightarrow> u32" where
  "insert_perm perm = (if has perm PTE_W then perm OR PTE_R else perm)"

definition new_pte :: "nat \<Rightarrow> u32 \<Rightarrow> u32" where
  "new_pte p perm = ADDR_PTE (page2pa p) OR insert_perm perm OR PTE_V"

lemma insert_perm_flags: "flag_bits perm \<Longrightarrow> flag_bits (insert_perm perm)"
  by (simp add: insert_perm_def flag_bits_or)

lemma new_pte_frame:
  assumes "p < unat (npage s)" "unat (npage s) \<le> page_bound" "flag_bits perm"
  shows "entry_frame s (new_pte p perm) = Some p"
  unfolding new_pte_def using assms by (intro entry_frame_new insert_perm_flags)

text \<open>Steps 3 and 4 of \<^verbatim>\<open>page_insert\<close>, on a state in which the page table exists and the entry is empty.\<close>

definition insert_steps :: "u32 \<Rightarrow> u32 \<Rightarrow> nat \<Rightarrow> u32 \<Rightarrow> u32 \<Rightarrow> ('a) pmap_scheme \<Rightarrow> ('a) pmap_scheme" where
  "insert_steps pgdir asid p pte v s =
     (let s = wr s pte v; s = set_ref s p (pp_ref s p + 1); s = wr s (pgdir + 4 * PDX UVPT) 0
      in tlb_flush asid 0 s)"

lemma insert_steps_inv:
  fixes asid :: u32
  assumes inv: "vm_inv s D L X" and d: "d \<in> D" and t: "ptab s D (d, PDX va) = Some t"
    and none: "maps s D (key d va) = None" and p: "insertable s D L p" and f: "flag_bits perm"
  defines "s' \<equiv> insert_steps (page2pa d) asid p (slot t (PTX va)) (new_pte p perm) s"
  shows "vm_inv s' D (L - {p}) X" "ptab s' D = ptab s D" "ptes s' D = (ptes s D)(key d va := new_pte p perm)"
    "pp_ref s' = (pp_ref s)(p := pp_ref s p + 1)" "npage s' = npage s" "\<exists>f. fences s' = f # fences s \<and> covers f va asid"
proof -
  note i = vm_inv_cases [OF inv]
  let ?v = "new_pte p perm"
  define s1 where "s1 = wr s (slot t (PTX va)) ?v"
  define s2 where "s2 = set_ref s1 p (pp_ref s1 p + 1)"
  define s3 where "s3 = wr s2 (slot d (PDX UVPT)) 0"
  have s': "s' = tlb_flush asid 0 s3"
    by (simp add: s'_def insert_steps_def s3_def s2_def s1_def slot_def Let_def)
  have pn: "p < unat (npage s)" "p \<notin> D" "ptab s D k \<noteq> Some p" for k
    using p by (auto simp: insertable_def ran_def)
  have ef: "entry_frame s ?v = Some p" using new_pte_frame [OF pn(1) tables_okD(1) [OF i(1)] f] .
  note w = view_wr_pte [OF i(1) t PTX_less [of va], where v = ?v, folded s1_def]
  have ok1: "tables_ok s1 D"
    unfolding s1_def by (rule tables_ok_wr_pte [OF i(1) t PTX_less]) (use ef pn in auto)
  note v2 = view_cong [of s2 s1]
  have ok2: "tables_ok s2 D" using ok1 v2 by (simp add: s2_def)
  have hi: "PDX UVPT < 1024" "\<not> PDX UVPT < PDX UTOP" by (simp_all add: user_slots)
  note wp = view_wr_pde [OF ok2 d hi(1), where v = 0, folded s3_def]
  have tab3: "ptab s3 D = ptab s2 D" using wp(1) hi(2) by simp
  have pde3: "ent (mem s3) e l = ent (mem s2) e l" if "e < page_bound" "l < 1024" "e \<noteq> d \<or> l < PDX UTOP" for e l
    using wp(2) [OF that(1,2)] that(3) hi(2) by auto
  have pte3: "ptes s3 D = ptes s2 D"
    using pde3 tables_okD(5,7) [OF ok2] d by (intro ptes_eqI tab3) blast
  have np3: "npage s3 = npage s2" by (simp add: s3_def)
  have "ent (mem s3) e l = ent (mem s2) e l" if "e \<in> D" "l < PDX UTOP" for e l
    using pde3 tables_okD(3) [OF ok2] that user_slot_less by blast
  note ok3 = tables_ok_same [OF ok2 np3 tab3 pte3 this]
  have rf: "refs s3 D q = refs s D q + (if q = p then 1 else 0)" for q
    using refs_wr_pte [OF i(1) t PTX_less [of va], where v = ?v and p = q] none ef v2
    by (cases "q = p") (simp_all add: ok3(2) s1_def s2_def key_def)
  have pr: "pp_ref s3 = (pp_ref s)(p := pp_ref s p + 1)" by (simp add: s3_def s2_def s1_def)
  have "unat (pp_ref s p + 1) = Suc (unat (pp_ref s p))"
    using unatSuc [of "pp_ref s p"] p by (simp add: insertable_def add.commute)
  then have "refs_ok s3 D X"
    using refs_ok_refD [OF i(2)] rf pr by (auto simp: refs_ok_def s3_def s2_def s1_def)
  moreover have "{q. q < unat (npage s) \<and> pp_ref s q = 0 \<and> q \<notin> L}
      = {q. q < unat (npage s) \<and> ((pp_ref s)(p := pp_ref s p + 1)) q = 0 \<and> q \<notin> L - {p}}"
    using p by (auto simp: insertable_def)
  then have "free_ok s3 (L - {p})"
    using i(3) pr unfolding free_ok_def by (simp add: s3_def s2_def s1_def)
  ultimately have "vm_inv s3 D (L - {p}) X" using ok3 by (simp add: vm_inv_def)
  then show "vm_inv s' D (L - {p}) X" using vm_inv_cong [of s' s3] by (simp add: s')
  have v: "ptab s' = ptab s3" "ptes s' = ptes s3" using view_cong [of s' s3] by (simp_all add: s')
  show "ptab s' D = ptab s D" using tab3 v2 w(1) by (simp add: v s2_def)
  show "ptes s' D = (ptes s D)(key d va := ?v)" using pte3 v2 w(2) by (simp add: v s2_def key_def)
  show "pp_ref s' = (pp_ref s)(p := pp_ref s p + 1)" "npage s' = npage s" "\<exists>f. fences s' = f # fences s \<and> covers f va asid"
    using pr tlb_flush_covers [of 0 va asid s3] by (simp_all add: s', simp_all add: s3_def s2_def s1_def)
qed

lemma page_insert_new_steps:
  assumes "pgdir_walk (page2pa d) va True s = Some (Inr (Some pte), s')"
  shows "page_insert_new (page2pa d) asid p va (insert_perm perm) s
       = Some (Inr (), insert_steps (page2pa d) asid p pte (new_pte p perm) s')"
  using assms by (simp add: page_insert_new_def insert_steps_def new_pte_def Let_def)

lemma page_insert_new_inv:
  assumes inv: "vm_inv s D L X" and d: "d \<in> D" "user_va va"
    and none: "maps s D (key d va) = None" and p: "insertable s D L p" and f: "flag_bits perm"
  obtains (fail) "page_insert_new (page2pa d) asid p va (insert_perm perm) s = Some (Inl E_NO_MEM, s)"
      "ptab s D (d, PDX va) = None" "\<And>q. q < unat (npage s) \<Longrightarrow> pp_ref s q = 0 \<Longrightarrow> q \<in> L"
  | (ok) s' where "page_insert_new (page2pa d) asid p va (insert_perm perm) s = Some (Inr (), s')"
      "vm_inv s' D (L - {p}) X" "ptes s' D = (ptes s D)(key d va := new_pte p perm)"
      "pp_ref s' p = pp_ref s p + 1" "npage s' = npage s" "\<exists>f. fences s' = f # fences s \<and> covers f va asid"
proof (cases "ptab s D (d, PDX va)")
  case (Some t)
  note st = insert_steps_inv [OF inv d(1) Some none p f, of asid]
  note w = pgdir_walk_present [OF vm_inv_cases(1) [OF inv] Some, of True]
  show thesis by (rule ok [OF page_insert_new_steps [OF w] st(1,3)]) (use st(4-) in simp_all)
next
  case None
  show thesis
  proof (cases rule: pgdir_walk_create [OF inv d None])
    case 1
    show thesis by (rule fail) (use 1 None in \<open>simp_all add: page_insert_new_def\<close>)
  next
    case (2 t s1)
    have t1: "ptab s1 D (d, PDX va) = Some t" by (simp add: 2)
    have n1: "maps s1 D (key d va) = None" using none maps_npage [OF 2(9,4)] by simp
    have "t \<noteq> p" using 2(6,7) p by (auto simp: insertable_def)
    moreover have "ran (ptab s1 D) = insert t (ran (ptab s D))" using 2(3) None by simp
    ultimately have "insertable s1 D L p" using p 2(5,9) by (simp add: insertable_def)
    note st = insert_steps_inv [OF 2(2) d(1) t1 n1 this f, of asid]
    show thesis
      by (rule ok [OF page_insert_new_steps [OF 2(1)] st(1)])
         (use st(3-) 2 \<open>t \<noteq> p\<close> in simp_all)
  qed
qed

text \<open>Where nothing is mapped, \<^verbatim>\<open>page_insert\<close> goes straight to the creation of the entry.\<close>

lemma page_insert_unmapped:
  assumes tb: "tables_ok s D" and d: "d \<in> D" "user_va va" and n: "maps s D (key d va) = None"
  shows "page_insert (page2pa d) asid p va perm s = page_insert_new (page2pa d) asid p va (insert_perm perm) s"
proof (cases "ptab s D (d, PDX va)")
  case None
  then show ?thesis using pgdir_walk_absent [OF tb d None] by (simp add: page_insert_def insert_perm_def Let_def)
next
  case (Some t)
  have "ptes s D (key d va) = ent (mem s) t (PTX va)" using Some PTX_less by (simp add: ptes_def key_def)
  with n tables_okD(13) [OF tb, of "key d va"] have "\<not> has (ent (mem s) t (PTX va)) PTE_V" by auto
  then show ?thesis using pgdir_walk_present [OF tb Some, of False] by (simp add: page_insert_def insert_perm_def Let_def rd_ent)
qed

text \<open>Where the page itself is mapped already, the entry gets its new permissions and every count stays.\<close>

lemma rewrite_pte_inv:
  fixes asid :: u32
  assumes inv: "vm_inv s D L X" and t: "ptab s D (d, PDX va) = Some t" and m: "maps s D (key d va) = Some p" and p: "insertable s D L p" and f: "flag_bits perm"
  defines "s' \<equiv> tlb_flush asid va (wr s (slot t (PTX va)) (new_pte p perm))"
  shows "vm_inv s' D (L - {p}) X" "ptes s' D = (ptes s D)(key d va := new_pte p perm)"
proof -
  note i = vm_inv_cases [OF inv]
  define s1 where "s1 = wr s (slot t (PTX va)) (new_pte p perm)"
  have pn: "p < unat (npage s)" "p \<notin> D" "ptab s D k \<noteq> Some p" for k using p by (auto simp: insertable_def ran_def)
  have ef: "entry_frame s (new_pte p perm) = Some p" using new_pte_frame [OF pn(1) tables_okD(1) [OF i(1)] f] .
  have ok1: "tables_ok s1 D" unfolding s1_def by (rule tables_ok_wr_pte [OF i(1) t PTX_less]) (use ef pn in auto)
  have "refs s1 D q = refs s D q" for q
    using refs_wr_pte [OF i(1) t PTX_less [of va], where v = "new_pte p perm" and p = q] m ef by (cases "q = p") (simp_all add: s1_def key_def)
  then have r1: "refs_ok s1 D X" using i(2) by (simp add: refs_ok_def s1_def)
  have "pp_ref s p \<noteq> 0" using referenced [OF i(1,2) pn(1)] m by blast
  then have "L - {p} = L" using i(3) by (auto simp: free_ok_def)
  then have "free_ok s1 (L - {p})" using i(3) by (simp add: free_ok_def s1_def)
  with ok1 r1 have "vm_inv s1 D (L - {p}) X" by (simp add: vm_inv_def)
  then show "vm_inv s' D (L - {p}) X" using vm_inv_cong [of s' s1] by (simp add: s'_def s1_def)
  show "ptes s' D = (ptes s D)(key d va := new_pte p perm)"
    using view_wr_pte(2) [OF i(1) t PTX_less [of va], where v = "new_pte p perm"] view_cong(3) [of s' s1] by (simp add: s'_def s1_def key_def)
qed

lemma page_insert_cases:
  assumes inv: "vm_inv s D L X" and d: "d \<in> D" "user_va va"
    and p: "insertable s D L p" and f: "flag_bits perm"
  obtains (fail) "page_insert (page2pa d) asid p va perm s = Some (Inl E_NO_MEM, s)"
      "ptab s D (d, PDX va) = None" "\<And>q. q < unat (npage s) \<Longrightarrow> pp_ref s q = 0 \<Longrightarrow> q \<in> L"
  | (ok) s' where "page_insert (page2pa d) asid p va perm s = Some (Inr (), s')"
      "vm_inv s' D (L - {p}) X" "ptes s' D = (ptes s D)(key d va := new_pte p perm)"
      "pp_ref s' p = (if maps s D (key d va) = Some p then pp_ref s p else pp_ref s p + 1)"
      "npage s' = npage s" "\<exists>f. hd (fences s') = f \<and> covers f va asid"
proof (cases "maps s D (key d va)")
  case None
  note run = page_insert_unmapped [OF vm_inv_cases(1) [OF inv] d None]
  show thesis
  proof (cases rule: page_insert_new_inv [OF inv d None p f, of asid])
    case 1
    show thesis by (rule fail) (use 1 run in simp_all)
  next
    case (2 s')
    show thesis by (rule ok [of s']) (use 2 run None in auto)
  qed
next
  case (Some old)
  obtain t where t: "ptab s D (d, PDX va) = Some t" "entry_frame s (ent (mem s) t (PTX va)) = Some old"
    using maps_key [OF Some] by blast
  then have e: "has (ent (mem s) t (PTX va)) PTE_V" "pa2page s (PTE_ADDR (ent (mem s) t (PTX va))) = Some old"
    by (auto simp: entry_frame_def split: if_splits)
  note walk = pgdir_walk_present [OF vm_inv_cases(1) [OF inv] t(1), of False]
  show thesis
  proof (cases "old = p")
    case True
    let ?s1 = "wr s (slot t (PTX va)) (new_pte p perm)"
    have run: "page_insert (page2pa d) asid p va perm s = Some (Inr (), tlb_flush asid va ?s1)"
      using walk e True by (simp add: page_insert_def rd_ent new_pte_def insert_perm_def Let_def)
    show thesis
      by (rule ok [OF run rewrite_pte_inv [OF inv t(1) Some [unfolded True] p f]])
         (use tlb_flush_covers [of va va asid ?s1] Some True in auto)
  next
    case False
    obtain s1 where s1: "page_remove (page2pa d) asid va s = Some s1" "vm_inv s1 D L X"
      "ptab s1 D = ptab s D" "ptes s1 D = (ptes s D)(key d va := 0)"
      "pp_ref s1 = (pp_ref s)(old := pp_ref s old - 1)" "npage s1 = npage s"
      using page_remove_mapped [OF inv Some, of asid] by metis
    have p1: "insertable s1 D L p" using p s1(3,5,6) False by (simp add: insertable_def)
    have n1: "maps s1 D (key d va) = None" by (simp add: maps_def s1(4))
    have run: "page_insert (page2pa d) asid p va perm s = page_insert_new (page2pa d) asid p va (insert_perm perm) s1"
      using walk e False s1(1) by (simp add: page_insert_def rd_ent insert_perm_def Let_def)
    show thesis
    proof (cases rule: page_insert_new_inv [OF s1(2) d n1 p1 f, of asid])
      case 1
      then show thesis using t(1) s1(3) by simp
    next
      case (2 s')
      show thesis by (rule ok [of s']) (use 2 run Some False s1 in auto)
    qed
  qed
qed

section \<open>Boot\<close>

lemma page_init_used_run:
  assumes "unat (freemem s) = 4096 * (k + 0x80200)" "k < unat (npage s)" "unat (npage s) \<le> page_bound" "i \<le> k"
  shows "page_init_used i s = Some (k, s\<lparr>pp_ref := \<lambda>j. if i \<le> j \<and> j < k then 1 else pp_ref s j\<rparr>)"
  using assms
proof (induction "k - i" arbitrary: i s)
  case 0
  then have [simp]: "i = k" by simp
  have "page2kva s k = Some (page2pa k)" using 0 by (intro page2kva_page2pa) auto
  moreover have "\<not> page2pa k < freemem s" using 0 by (simp add: word_less_nat_alt page2pa_unat)
  moreover have "(\<lambda>j. if k \<le> j \<and> j < k then 1 else pp_ref s j) = pp_ref s" by (auto simp: fun_eq_iff)
  ultimately show ?case by (subst page_init_used.simps) simp
next
  case (Suc n)
  let ?s = "set_ref s i 1"
  have kva: "page2kva s i = Some (page2pa i)" using Suc by (intro page2kva_page2pa) auto
  have lt: "page2pa i < freemem s" using Suc by (simp add: word_less_nat_alt page2pa_unat)
  have fm: "freemem ?s = freemem s" by (simp add: set_ref_def)
  have "page_init_used (Suc i) ?s = Some (k, ?s\<lparr>pp_ref := \<lambda>j. if Suc i \<le> j \<and> j < k then 1 else pp_ref ?s j\<rparr>)"
    using Suc.hyps(2) Suc.prems by (intro Suc.hyps(1)) (simp_all add: fm)
  moreover have "(\<lambda>j. if Suc i \<le> j \<and> j < k then 1 else pp_ref ?s j) = (\<lambda>j. if i \<le> j \<and> j < k then 1 else pp_ref s j)"
    using Suc.hyps(2) by (auto simp: fun_eq_iff)
  ultimately show ?case
    using kva lt by (subst page_init_used.simps) (simp add: set_ref_def)
qed

lemma page_init_free_fold:
  "i \<le> unat (npage s) \<Longrightarrow> page_init_free i s =
     s\<lparr>page_free_list := fold (\<lambda>p q. LIST_INSERT_HEAD q p) [i..<unat (npage s)] (page_free_list s)\<rparr>"
proof (induction i s rule: page_init_free.induct)
  case (1 i s)
  show ?case
  proof (cases "i < unat (npage s)")
    case True
    then show ?thesis using 1 by (subst page_init_free.simps) (simp add: upt_conv_Cons)
  next
    case False
    then show ?thesis using "1.prems" by (subst page_init_free.simps) simp
  qed
qed

lemma vm_inv_boot:
  assumes "unat (npage s) \<le> page_bound" "list_rep (page_free_list s) fl"
    and "set fl = {p. p < unat (npage s) \<and> pp_ref s p = 0}"
  shows "vm_inv s {} {} (\<lambda>p. unat (pp_ref s p))"
proof -
  have e: "ptab s {} = (\<lambda>_. None)" by (auto simp: ptab_def)
  then have e2: "ptes s {} = (\<lambda>_. 0)" by (auto simp: ptes_def)
  then have e3: "maps s {} = (\<lambda>_. None)" by (auto simp: maps_def)
  have "tables_ok s {}" by (rule tables_okI) (use assms(1) in \<open>simp_all add: e e2 e3\<close>)
  moreover have "refs_ok s {} (\<lambda>p. unat (pp_ref s p))" by (simp add: refs_ok_def refs_def e e3)
  ultimately show ?thesis using assms(2,3) by (auto simp: vm_inv_def free_ok_def)
qed

lemma page_init_run:
  assumes fm: "unat (ROUND (freemem s) BY2PG) = 4096 * (k + 0x80200)" and k: "k < unat (npage s)" "unat (npage s) \<le> page_bound"
    and z: "pp_ref s = (\<lambda>_. 0)"
  shows "\<exists>s'. page_init s = Some s' \<and> list_rep (page_free_list s') (rev [k..<unat (npage s)])
     \<and> pp_ref s' = (\<lambda>j. if j < k then 1 else 0) \<and> mem s' = mem s \<and> npage s' = npage s
     \<and> freemem s' = ROUND (freemem s) BY2PG \<and> memsize s' = memsize s \<and> pages_addr s' = pages_addr s
     \<and> vm_inv s' {} {} (\<lambda>p. if p < k then 1 else 0)"
proof -
  define s1 where "s1 = s\<lparr>page_free_list := LIST_INIT (page_free_list s), freemem := ROUND (freemem s) BY2PG\<rparr>"
  define s2 where "s2 = s1\<lparr>pp_ref := \<lambda>j. if 0 \<le> j \<and> j < k then 1 else pp_ref s1 j\<rparr>"
  define s3 where "s3 = page_init_free k s2"
  have "page_init_used 0 s1 = Some (k, s2)"
    unfolding s2_def by (rule page_init_used_run) (use fm k in \<open>simp_all add: s1_def\<close>)
  then have run: "page_init s = Some s3" by (simp add: page_init_def s3_def s1_def Let_def)
  have s3: "s3 = s2\<lparr>page_free_list := fold (\<lambda>p q. LIST_INSERT_HEAD q p) [k..<unat (npage s)] (LIST_INIT (page_free_list s))\<rparr>"
    using page_init_free_fold [of k s2] k by (simp add: s3_def s2_def s1_def)
  have fl: "list_rep (page_free_list s3) (rev [k..<unat (npage s)])"
    using lst.rep_insert_heads [OF list_rep_init, of "[k..<unat (npage s)]"] by (simp add: s3)
  have pr: "pp_ref s3 = (\<lambda>j. if j < k then 1 else 0)" by (simp add: s3 s2_def s1_def z fun_eq_iff)
  have np: "npage s3 = npage s" "mem s3 = mem s" "freemem s3 = ROUND (freemem s) BY2PG" "memsize s3 = memsize s" "pages_addr s3 = pages_addr s"
    by (simp_all add: s3 s2_def s1_def)
  have "vm_inv s3 {} {} (\<lambda>p. unat (pp_ref s3 p))"
    by (rule vm_inv_boot [OF _ fl]) (use k in \<open>auto simp: np pr\<close>)
  moreover have "(\<lambda>p. unat (pp_ref s3 p)) = (\<lambda>p. if p < k then 1 else 0)" by (auto simp: pr fun_eq_iff)
  ultimately show ?thesis using run fl pr np by simp
qed

section \<open>A small concrete machine\<close>

text \<open>Three frames: frame 0 is an (empty) page directory, frame 1 was just allocated, frame 2 is free.\<close>

definition demo :: pmap where
  "demo = \<lparr>mem = (\<lambda>_. 0), memsize = 0, npage = 3, freemem = 0, pages_addr = 0,
     pp_ref = (\<lambda>_. 0)(0 := 1), page_free_list = LIST_INSERT_HEAD (LIST_INIT zero_links) 2, fences = []\<rparr>"

lemma demo_inv: "vm_inv demo {0} {1} (\<lambda>_. 0)"
proof -
  have z: "ent (mem demo) d i = 0" for d i by (simp add: demo_def ent_def ld32_def)
  have e: "ptab demo {0} = (\<lambda>_. None)" by (auto simp: ptab_def table_at_def z)
  then have e2: "ptes demo {0} = (\<lambda>_. 0)" by (auto simp: ptes_def)
  then have e3: "maps demo {0} = (\<lambda>_. None)" by (auto simp: maps_def)
  have "tables_ok demo {0}"
    by (rule tables_okI) (simp_all add: e e2 e3 z, simp_all add: demo_def page_bound_def)
  moreover have "refs_ok demo {0} (\<lambda>_. 0)" by (simp add: refs_ok_def refs_def e e3) (simp add: demo_def)
  moreover have "list_rep (page_free_list demo) [2]"
    using list_rep_insert_head [OF list_rep_init, of 2 zero_links] by (simp add: demo_def)
  then have "free_ok demo {1}"
    unfolding free_ok_def by (auto simp: demo_def intro!: exI [of _ "[2]"])
  ultimately show ?thesis by (simp add: vm_inv_def)
qed

lemma demo_insertable: "insertable demo {0} {1} 1"
proof -
  have "ent (mem demo) d i = 0" for d i by (simp add: demo_def ent_def ld32_def)
  then have "ptab demo {0} = (\<lambda>_. None)" by (auto simp: ptab_def table_at_def)
  then show ?thesis by (simp add: insertable_def) (simp add: demo_def)
qed

lemma demo_va: "user_va 0x400000" "key 0 0x400000 = (0, 1, 0)"
  by (simp_all add: user_va_def user_slots key_def) (simp_all add: PDX_def PTX_def)

lemma demo_mapped: "\<exists>s :: pmap. vm_inv s {0} {} (\<lambda>_. 0) \<and> maps s {0} (key 0 0x400000) = Some 1"
proof (cases rule: page_insert_cases [OF demo_inv singletonI demo_va(1) demo_insertable flag_bits_pte(2), of 1])
  case 1
  from 1(3) [of 2] show ?thesis by (simp add: demo_def)
next
  case ok: (2 s')
  have "entry_frame s' (new_pte 1 PTE_R) = Some 1"
    using ok(5) by (intro new_pte_frame) (simp_all add: demo_def page_bound_def)
  with ok show ?thesis by (auto simp: maps_def intro!: exI [of _ s'])
qed

section \<open>Correctness of page management\<close>

text \<open>Property C1. \<^verbatim>\<open>page_insert\<close> never panics on a well-formed address space and has two outcomes.  Either it
  returns 0: then exactly the entry of \<open>va\<close> in that directory is changed, to a valid entry for the page with
  the requested permissions (write implies read), the reference counts, free list, separation of tables from user
  pages are all as the invariant demands, and the last instruction fences the translation of \<open>va\<close>.
  Or it returns \<open>-E_NO_MEM\<close>: then nothing at all has changed, and there really was no free page.\<close>

theorem page_insert_correct:
  assumes "vm_inv s D L X" "d \<in> D" "user_va va" "insertable s D L p" "flag_bits perm"
  shows "page_insert (page2pa d) asid p va perm s = Some (Inl E_NO_MEM, s) \<and>
           (\<forall>q. q < unat (npage s) \<and> pp_ref s q = 0 \<longrightarrow> q \<in> L)
       \<or> (\<exists>s'. page_insert (page2pa d) asid p va perm s = Some (Inr (), s') \<and>
            vm_inv s' D (L - {p}) X \<and>
            ptes s' D = (ptes s D)(key d va := new_pte p perm) \<and> maps s' D (key d va) = Some p \<and>
            covers (hd (fences s')) va asid)"
proof (cases rule: page_insert_cases [OF assms, of asid])
  case 1
  then show ?thesis by blast
next
  case (2 s')
  have "p < unat (npage s)" "unat (npage s) \<le> page_bound"
    using assms(4) tables_okD(1) [OF vm_inv_cases(1) [OF assms(1)]] by (simp_all add: insertable_def)
  with 2(5) assms(5) have "entry_frame s' (new_pte p perm) = Some p" by (intro new_pte_frame) simp_all
  with 2 show ?thesis by (auto simp: maps_def)
qed

theorem page_insert_correct_witness:
  "page_insert (page2pa 0) 1 1 0x400000 PTE_R demo = Some (Inl E_NO_MEM, demo) \<and>
     (\<forall>q. q < unat (npage demo) \<and> pp_ref demo q = 0 \<longrightarrow> q \<in> {1})
   \<or> (\<exists>s'. page_insert (page2pa 0) 1 1 0x400000 PTE_R demo = Some (Inr (), s') \<and>
        vm_inv s' {0} ({1} - {1}) (\<lambda>_. 0) \<and>
        ptes s' {0} = (ptes demo {0})(key 0 0x400000 := new_pte 1 PTE_R) \<and>
        maps s' {0} (key 0 0x400000) = Some 1 \<and> covers (hd (fences s')) 0x400000 1)"
  by (rule page_insert_correct [OF demo_inv singletonI demo_va(1) demo_insertable flag_bits_pte(2)])

text \<open>Property C2. \<^verbatim>\<open>page_remove\<close> of a user address never panics; it clears exactly the entry of \<open>va\<close> (when it was
  mapped), drops one reference of the page that was there, puts the page on the free list precisely when that
  was the last one, and fences the translation; an unmapped address is left as it is.\<close>

theorem page_remove_correct:
  assumes "vm_inv s D L X" "d \<in> D" "user_va va"
  shows "\<exists>s'. page_remove (page2pa d) asid va s = Some s' \<and> vm_inv s' D L X \<and>
     (case maps s D (key d va) of
        None \<Rightarrow> s' = s
      | Some p \<Rightarrow> ptes s' D = (ptes s D)(key d va := 0) \<and>
          pp_ref s' = (pp_ref s)(p := pp_ref s p - 1) \<and> covers (hd (fences s')) va asid)"
proof (cases "maps s D (key d va)")
  case None
  then show ?thesis using page_remove_unmapped [OF vm_inv_cases(1) [OF assms(1)] assms(2,3)] assms(1) by simp
next
  case (Some p)
  from page_remove_mapped [OF assms(1) this, of asid] obtain s' where
    "page_remove (page2pa d) asid va s = Some s'" "vm_inv s' D L X" "ptes s' D = (ptes s D)(key d va := 0)"
    "pp_ref s' = (pp_ref s)(p := pp_ref s p - 1)" "\<exists>f. fences s' = f # fences s \<and> covers f va asid" by metis
  with Some show ?thesis by auto
qed

theorem page_remove_correct_witness:
  "\<exists>s s' :: pmap. page_remove (page2pa 0) 1 0x400000 s = Some s' \<and> vm_inv s' {0} {} (\<lambda>_. 0) \<and>
     pp_ref s' = (pp_ref s)(1 := pp_ref s 1 - 1)"
proof -
  obtain s :: pmap where s: "vm_inv s {0} {} (\<lambda>_. 0)" "maps s {0} (key 0 0x400000) = Some 1"
    using demo_mapped by blast
  from page_remove_correct [OF s(1) singletonI demo_va(1), of 1] show ?thesis by (auto simp: s(2))
qed

text \<open>\<^verbatim>\<open>page_lookup\<close> agrees with the abstract map: it finds a page exactly when the address is mapped,
  it is the page of the map, the entry pointer it returns is the one whose content is that mapping, and the state
  does not change.\<close>

theorem page_lookup_correct:
  assumes "vm_inv s D L X" "d \<in> D" "user_va va"
  shows "\<exists>r. page_lookup (page2pa d) va s = Some (r, s) \<and> map_option fst r = maps s D (key d va) \<and>
     (\<forall>p pte. r = Some (p, pte) \<longrightarrow> rd s pte = ptes s D (key d va))"
proof (cases "maps s D (key d va)")
  case None
  then show ?thesis using page_lookup_unmapped [OF vm_inv_cases(1) [OF assms(1)] assms(2,3)] by simp
next
  case (Some p)
  obtain t where t: "ptab s D (d, PDX va) = Some t"
    "page_lookup (page2pa d) va s = Some (Some (p, slot t (PTX va)), s)"
    using page_lookup_mapped [OF vm_inv_cases(1) [OF assms(1)] Some] by blast
  then have "rd s (slot t (PTX va)) = ptes s D (key d va)" using PTX_less by (simp add: rd_ent ptes_def key_def)
  with t(2) Some show ?thesis by simp
qed

theorem page_lookup_correct_witness:
  "\<exists>s :: pmap. \<exists>r. page_lookup (page2pa 0) 0x400000 s = Some (r, s) \<and> map_option fst r = Some 1"
proof -
  obtain s :: pmap where s: "vm_inv s {0} {} (\<lambda>_. 0)" "maps s {0} (key 0 0x400000) = Some 1"
    using demo_mapped by blast
  from page_lookup_correct [OF s(1) singletonI demo_va(1)] show ?thesis by (auto simp: s(2))
qed

text \<open>Property C3. \<^verbatim>\<open>page_alloc\<close> hands out a zeroed page that nothing refers to and that is not already
  handed out, without disturbing any address space; it fails with \<open>-E_NO_MEM\<close> only when every unreferenced page
  is already handed out, and then changes nothing.\<close>

theorem page_alloc_correct:
  assumes "vm_inv s D L X"
  shows "page_alloc s = Some (Inl E_NO_MEM, s) \<and> {p. p < unat (npage s) \<and> pp_ref s p = 0} = L
       \<or> (\<exists>p s'. page_alloc s = Some (Inr p, s') \<and> p < unat (npage s) \<and> pp_ref s' p = 0 \<and> p \<notin> L \<and>
            p \<notin> D \<and> p \<notin> ran (ptab s D) \<and> p \<notin> ran (maps s D) \<and>
            (\<forall>i < 1024. ent (mem s') p i = 0) \<and>
            vm_inv s' D (insert p L) X \<and> ptes s' D = ptes s D \<and> pp_ref s' = pp_ref s)"
proof (cases rule: page_alloc_cases [OF assms])
  case 1
  moreover have "p < unat (npage s) \<and> pp_ref s p = 0" if "p \<in> L" for p
    using vm_inv_cases(3) [OF assms] that by (simp add: free_ok_def)
  ultimately show ?thesis by blast
next
  case (2 p s')
  note un = unreferenced [OF vm_inv_cases(1,2) [OF assms] 2(2,3)]
  have "p \<notin> ran (ptab s D)" "p \<notin> ran (maps s D)" using un(2,3) by (auto simp: ran_def)
  with un(1) 2 show ?thesis by (intro disjI2 exI [of _ p] exI [of _ s']) simp
qed

theorem page_alloc_correct_witness:
  "page_alloc demo = Some (Inl E_NO_MEM, demo) \<and> {p. p < unat (npage demo) \<and> pp_ref demo p = 0} = {1}
   \<or> (\<exists>p s'. page_alloc demo = Some (Inr p, s') \<and> p < unat (npage demo) \<and> pp_ref s' p = 0 \<and> p \<notin> {1} \<and>
        p \<notin> {0} \<and> p \<notin> ran (ptab demo {0}) \<and> p \<notin> ran (maps demo {0}) \<and>
        (\<forall>i < 1024. ent (mem s') p i = 0) \<and>
        vm_inv s' {0} (insert p {1}) (\<lambda>_. 0) \<and> ptes s' {0} = ptes demo {0} \<and> pp_ref s' = pp_ref demo)"
  by (rule page_alloc_correct [OF demo_inv])

text \<open>At boot \<^verbatim>\<open>page_init\<close> terminates, gives one reference to each of the \<open>k\<close> frames below the
  end of the kernel's own memory, puts every other frame on the free list exactly once, and establishes the
  invariant.\<close>

theorem page_init_correct:
  assumes "unat (ROUND (freemem s) BY2PG) = 4096 * (k + 0x80200)" "k < unat (npage s)"
    and "unat (npage s) \<le> page_bound" "pp_ref s = (\<lambda>_. 0)"
  shows "\<exists>s'. page_init s = Some s' \<and> list_rep (page_free_list s') (rev [k..<unat (npage s)])
     \<and> pp_ref s' = (\<lambda>j. if j < k then 1 else 0) \<and> mem s' = mem s
     \<and> vm_inv s' {} {} (\<lambda>p. if p < k then 1 else 0)"
  using page_init_run [OF assms] by blast

theorem page_init_correct_witness:
  "\<exists>s'. page_init (mips_detect_memory (demo\<lparr>freemem := 0x80400001, pp_ref := (\<lambda>_. 0)\<rparr>)) = Some s' \<and>
     list_rep (page_free_list s') (rev [513..<15872])"
proof -
  let ?s = "mips_detect_memory (demo\<lparr>freemem := 0x80400001, pp_ref := (\<lambda>_. 0)\<rparr>)"
  have np: "unat (npage ?s) = 15872"
    by (simp add: mips_detect_memory_def layout_defs Let_def)
  have fm: "unat (ROUND (freemem ?s) BY2PG) = 4096 * (513 + 0x80200)"
    by (simp add: mips_detect_memory_def ROUND_def BY2PG_def Let_def)
  have pr: "pp_ref ?s = (\<lambda>_. 0)" by (simp add: mips_detect_memory_def Let_def)
  have "513 < unat (npage ?s)" "unat (npage ?s) \<le> page_bound" unfolding np by (simp_all add: page_bound_def)
  from page_init_correct [OF fm this pr, unfolded np] show ?thesis by blast
qed
end
