(* ===== verification/Mos_Pool.thy ===== *)
theory Mos_Pool
  imports Mos_Prelude
begin

text \<open>
  The contract that the kernel's bitmap allocators share (ASIDs in \<^verbatim>\<open>kern/env.c\<close>, ring descriptors in
  \<^verbatim>\<open>kern/disk_driver.c\<close>): a pool of at most \<open>cap\<close> numbered resources, an allocation that takes an available one or
  reports that there is none, and a release that makes one available again.
\<close>

text \<open>\<open>n\<close> allocations in a row; \<open>None\<close> if one of them fails.\<close>

fun alloc_n :: "('s \<Rightarrow> ((err + nat) \<times> 's) option) \<Rightarrow> nat \<Rightarrow> 's \<Rightarrow> (nat list \<times> 's) option" where
  "alloc_n al 0 s = Some ([], s)"
| "alloc_n al (Suc n) s =
     (case al s of
        Some (Inr k, s') \<Rightarrow> map_option (\<lambda>(ks, s''). (k # ks, s'')) (alloc_n al n s')
      | _ \<Rightarrow> None)"

locale resource_pool =
  fixes avail :: "'s \<Rightarrow> nat set"
    and cap :: nat
    and full :: err
    and al :: "'s \<Rightarrow> ((err + nat) \<times> 's) option"
    and release :: "nat \<Rightarrow> 's \<Rightarrow> 's option"
  assumes avail_bound: "avail s \<subseteq> {..<cap}"
    and alloc_empty: "avail s = {} \<Longrightarrow> al s = Some (Inl full, s)"
    and alloc_some: "avail s \<noteq> {} \<Longrightarrow> \<exists>k s'. al s = Some (Inr k, s') \<and> k \<in> avail s \<and> avail s' = avail s - {k}"
    and release_some: "k < cap \<Longrightarrow> k \<notin> avail s \<Longrightarrow> \<exists>s'. release k s = Some s' \<and> avail s' = insert k (avail s)"
begin

lemma finite_avail: "finite (avail s)"
  using avail_bound [of s] by (rule finite_subset) simp

lemma alloc_fails_iff: "(\<exists>e s'. al s = Some (Inl e, s')) \<longleftrightarrow> avail s = {}"
proof (cases "avail s = {}")
  case True
  then show ?thesis using alloc_empty by blast
next
  case False
  then obtain k s' where "al s = Some (Inr k, s')" using alloc_some by blast
  then show ?thesis using False by simp
qed

lemma alloc_release:
  assumes "al s = Some (Inr k, s')"
  shows "\<exists>s''. release k s' = Some s'' \<and> avail s'' = avail s"
proof -
  have "avail s \<noteq> {}" using alloc_empty [of s] assms by (cases "avail s = {}") simp_all
  from alloc_some [OF this] assms have k: "k \<in> avail s" "avail s' = avail s - {k}" by simp_all
  then have "k < cap" "k \<notin> avail s'" using avail_bound [of s] by auto
  from release_some [OF this] k show ?thesis by (auto simp: insert_absorb)
qed

lemma alloc_n_distinct:
  assumes "n \<le> card (avail s)"
  shows "\<exists>ks s'. alloc_n al n s = Some (ks, s') \<and> length ks = n \<and> distinct ks \<and> set ks \<subseteq> avail s \<and>
     avail s' = avail s - set ks"
  using assms
proof (induction n arbitrary: s)
  case 0
  then show ?case by simp
next
  case (Suc n)
  then have "avail s \<noteq> {}" by auto
  then obtain k s1 where k: "al s = Some (Inr k, s1)" "k \<in> avail s" "avail s1 = avail s - {k}"
    using alloc_some by blast
  then have "n \<le> card (avail s1)" using Suc.prems finite_avail [of s] by simp
  from Suc.IH [OF this] obtain ks s' where "alloc_n al n s1 = Some (ks, s')" "length ks = n" "distinct ks"
    "set ks \<subseteq> avail s1" "avail s' = avail s1 - set ks" by blast
  with k show ?case by (intro exI [of _ "k # ks"] exI [of _ s']) auto
qed

lemma alloc_n_exhausts:
  assumes "n = card (avail s)" "alloc_n al n s = Some (ks, s')"
  shows "al s' = Some (Inl full, s')"
proof -
  obtain ks' s'' where r: "alloc_n al n s = Some (ks', s'')" "length ks' = n" "distinct ks'" "set ks' \<subseteq> avail s"
    "avail s'' = avail s - set ks'" using alloc_n_distinct [of n s] assms(1) by auto
  have "card (set ks') = card (avail s)" using r(2,3) assms(1) by (simp add: distinct_card)
  then have "set ks' = avail s" using r(4) finite_avail [of s] by (simp add: card_subset_eq)
  with r assms(2) show ?thesis by (intro alloc_empty) simp
qed

end

end
