(* ===== verification/Mos_Disk.thy ===== *)
theory Mos_Disk
  imports Mos_Vm_Ops Mos_Pool "HOL-Library.Multiset"
begin

text \<open>
  The virtio block driver: \<^verbatim>\<open>kern/disk_driver.c\<close> with \<^verbatim>\<open>include/disk.h\<close> and \<^verbatim>\<open>include/drivers\<close>.

  The record \<open>vring\<close> is the global \<^verbatim>\<open>disk\<close> together with the contents of the rings it points to.  Reads of device
  registers are given by a function argument \<open>R\<close>, as the device is not part of the program; writes are logged.
  \<open>disk_step\<close> interleaves the driver's calls with what the virtio specification lets the device do, and
  \<open>disk_reachable\<close> are the states that can result; \<open>sys_inv\<close> is their invariant: the descriptors split into the free
  ones and disjoint three-element chains, and the device or the unread part of the used ring holds each chain's head.
\<close>


section \<open>Rings and registers (include/drivers, include/disk.h)\<close>

definition VIRTIO_QUEUE_NUM :: nat where "VIRTIO_QUEUE_NUM = 32"
definition VRING_DESC_F_NEXT :: u16 where "VRING_DESC_F_NEXT = 1"
definition VRING_DESC_F_WRITE :: u16 where "VRING_DESC_F_WRITE = 2"
definition VIRTIO_BLK_T_IN :: u32 where "VIRTIO_BLK_T_IN = 0"
definition VIRTIO_BLK_T_OUT :: u32 where "VIRTIO_BLK_T_OUT = 1"
definition DISK_STATUS_NO_RESP :: u8 where "DISK_STATUS_NO_RESP = 0xff"
definition DISK_BUFFUER_LEN :: u32 where "DISK_BUFFUER_LEN = 512"

record vring_desc =
  d_addr :: u64
  d_len :: u32
  d_flags :: u16
  d_next :: u16

record virtio_blk_outhdr =
  oh_type :: u32
  oh_ioprio :: u32
  oh_sector :: u64

record vring =
  desc_addr :: u32
  avail_addr :: u32
  used_addr :: u32
  outhdr_addr :: u32
  ring_desc :: "nat \<Rightarrow> vring_desc"
  avail_flags :: u16
  avail_idx :: u16
  avail_ring :: "nat \<Rightarrow> u16"
  used_flags :: u16
  dev_used_idx :: u16
  used_ring :: "nat \<Rightarrow> u32"
  desc_free_bitmap :: u32
  outhdr :: "nat \<Rightarrow> virtio_blk_outhdr"
  used_idx :: u16
  mmio_log :: "(u32 \<times> u32) list"

definition zero_desc :: vring_desc where "zero_desc = \<lparr>d_addr = 0, d_len = 0, d_flags = 0, d_next = 0\<rparr>"
definition zero_outhdr :: virtio_blk_outhdr where "zero_outhdr = \<lparr>oh_type = 0, oh_ioprio = 0, oh_sector = 0\<rparr>"

text \<open>\<^verbatim>\<open>*R(reg) = val\<close>.\<close>

definition wreg :: "u32 \<Rightarrow> u32 \<Rightarrow> vring \<Rightarrow> vring" where
  "wreg reg val v = v\<lparr>mmio_log := (reg, val) # mmio_log v\<rparr>"

definition clear_feature :: "nat \<Rightarrow> u32 \<Rightarrow> u32" where
  "clear_feature n features = features AND NOT (push_bit n 1)"

section \<open>Initialisation (virtio_disk_init)\<close>

definition virtio_disk_init ::
  "(u32 \<Rightarrow> u32) \<Rightarrow> u32 \<Rightarrow> vring \<Rightarrow> ('a) pmap_scheme \<Rightarrow> (vring \<times> ('a) pmap_scheme) option" where
  "virtio_disk_init R kend v s =
     (if R 0x000 \<noteq> 0x74726976 \<or> R 0x004 \<noteq> 2 then None
      else if R 0x008 \<noteq> 2 \<or> R 0x00c \<noteq> 0x554d4551 then None
      else
        (let status = 0;
             v = wreg 0x070 status v;
             status = status OR 1;
             v = wreg 0x070 status v;
             status = status OR 2;
             v = wreg 0x070 status v;
             features = R 0x010;
             features = clear_feature 5 features;
             features = clear_feature 7 features;
             features = clear_feature 11 features;
             features = clear_feature 12 features;
             features = clear_feature 27 features;
             features = clear_feature 28 features;
             features = clear_feature 29 features;
             v = wreg 0x020 features v;
             status = status OR 8;
             v = wreg 0x070 status v;
             status = R 0x070
         in if status AND 8 = 0 then None
            else
              (let v = wreg 0x030 0 v;
                   mx = R 0x034
               in if R 0x044 \<noteq> 0 then None
                  else if mx = 0 then None
                  else if mx < of_nat VIRTIO_QUEUE_NUM then None
                  else do {
                    (d, s) \<leftarrow> alloc kend (32 * 16) 16 True s;
                    (a, s) \<leftarrow> alloc kend (6 + 2 * 32) 2 True s;
                    (u, s) \<leftarrow> alloc kend (6 + 8 * 32) 4 True s;
                    (h, s) \<leftarrow> alloc kend (32 * 16) 16 True s;
                    let v = v\<lparr>desc_addr := d, avail_addr := a, used_addr := u, outhdr_addr := h,
                              ring_desc := (\<lambda>_. zero_desc), avail_flags := 1, avail_idx := 0, avail_ring := (\<lambda>_. 0),
                              used_flags := 0, dev_used_idx := 0, used_ring := (\<lambda>_. 0), outhdr := (\<lambda>_. zero_outhdr)\<rparr>;
                    let v = wreg 0x038 (of_nat VIRTIO_QUEUE_NUM) v;
                    let v = wreg 0x080 d v; let v = wreg 0x084 0 v;
                    let v = wreg 0x090 a v; let v = wreg 0x094 0 v;
                    let v = wreg 0x0a0 u v; let v = wreg 0x0a4 0 v;
                    let v = wreg 0x044 1 v;
                    let v = v\<lparr>desc_free_bitmap := ucast ((push_bit VIRTIO_QUEUE_NUM 1 :: u64) - 1)\<rparr>;
                    let status = status OR 4;
                    Some (wreg 0x070 status v, s) })))"

section \<open>Descriptors\<close>

definition desc_free :: "vring \<Rightarrow> nat \<Rightarrow> bool" where
  "desc_free v i \<longleftrightarrow> desc_free_bitmap v AND push_bit i 1 \<noteq> 0"

function alloc_desc_from :: "nat \<Rightarrow> vring \<Rightarrow> (nat \<times> vring) option" where
  "alloc_desc_from i v =
     (if i < VIRTIO_QUEUE_NUM then
        if desc_free v i then Some (i, v\<lparr>desc_free_bitmap := desc_free_bitmap v AND NOT (push_bit i 1)\<rparr>)
        else alloc_desc_from (Suc i) v
      else None)"
  by pat_completeness auto
termination by (relation "measure (\<lambda>(i, v). VIRTIO_QUEUE_NUM - i)") auto

declare alloc_desc_from.simps [simp del]

definition alloc_desc :: "vring \<Rightarrow> ((err + nat) \<times> vring) option" where
  "alloc_desc v =
     (if desc_free_bitmap v = 0 then Some (Inl E_NO_RING_DESC, v)
      else do { (i, v) \<leftarrow> alloc_desc_from 0 v; Some (Inr i, v) })"

definition free_desc :: "nat \<Rightarrow> vring \<Rightarrow> vring option" where
  "free_desc idx v =
     (if \<not> idx < VIRTIO_QUEUE_NUM then None
      else if desc_free v idx then None
      else Some (v\<lparr>desc_free_bitmap := desc_free_bitmap v OR push_bit idx 1\<rparr>))"

fun free_descs :: "nat list \<Rightarrow> vring \<Rightarrow> vring option" where
  "free_descs [] v = Some v"
| "free_descs (i # is) v = do { v \<leftarrow> free_desc i v; free_descs is v }"

text \<open>\<open>alloc_3_desc\<close>: \<open>got\<close> are the descriptors allocated so far, in order, \<open>n\<close> more are wanted.\<close>

fun alloc_more_desc :: "nat \<Rightarrow> nat list \<Rightarrow> vring \<Rightarrow> ((err + nat list) \<times> vring) option" where
  "alloc_more_desc 0 got v = Some (Inr got, v)"
| "alloc_more_desc (Suc n) got v =
     do { (r, v) \<leftarrow> alloc_desc v;
          case r of
            Inl e \<Rightarrow> do { v \<leftarrow> free_descs got v; Some (Inl e, v) }
          | Inr i \<Rightarrow> alloc_more_desc n (got @ [i]) v }"

definition alloc_3_desc :: "vring \<Rightarrow> ((err + nat list) \<times> vring) option" where
  "alloc_3_desc v = alloc_more_desc 3 [] v"

partial_function (option) free_chain :: "nat \<Rightarrow> vring \<Rightarrow> vring option" where
  "free_chain idx v =
     (let last_flag = d_flags (ring_desc v idx);
          last_next = d_next (ring_desc v idx)
      in do { v \<leftarrow> free_desc idx v;
              if last_flag AND VRING_DESC_F_NEXT \<noteq> 0 then free_chain (unat last_next) v else Some v })"

section \<open>Requests and completion\<close>

definition virtio_disk_req :: "u32 \<Rightarrow> vring \<Rightarrow> mem \<Rightarrow> ((err + unit) \<times> vring \<times> mem) option" where
  "virtio_disk_req req v m =
     (if req < KSTACKTOP then Some (Inl E_INVAL, v, m)
      else do {
        (r, v) \<leftarrow> alloc_3_desc v;
        case r of
          Inl e \<Rightarrow> Some (Inl e, v, m)
        | Inr idx \<Rightarrow>
            (let i0 = idx ! 0; i1 = idx ! 1; i2 = idx ! 2;
                 w = m (req + 4) \<noteq> 0;
                 v = v\<lparr>outhdr := (outhdr v)(i0 := \<lparr>oh_type = (if w then VIRTIO_BLK_T_OUT else VIRTIO_BLK_T_IN),
                                                  oh_ioprio = 0, oh_sector = ucast (ld32 m req)\<rparr>)\<rparr>;
                 v = v\<lparr>ring_desc := (ring_desc v)(i0 := \<lparr>d_addr = ucast (outhdr_addr v + 16 * of_nat i0), d_len = 16,
                                              d_flags = VRING_DESC_F_NEXT, d_next = of_nat i1\<rparr>)\<rparr>;
                 v = v\<lparr>ring_desc := (ring_desc v)(i1 := \<lparr>d_addr = ucast (req + 6), d_len = DISK_BUFFUER_LEN,
                                              d_flags = (if w then 0 else VRING_DESC_F_WRITE) OR VRING_DESC_F_NEXT,
                                              d_next = of_nat i2\<rparr>)\<rparr>;
                 m = m(req + 5 := DISK_STATUS_NO_RESP);
                 v = v\<lparr>ring_desc := (ring_desc v)(i2 := \<lparr>d_addr = ucast (req + 5), d_len = 1,
                                              d_flags = VRING_DESC_F_WRITE, d_next = 0\<rparr>)\<rparr>;
                 v = v\<lparr>avail_ring := (avail_ring v)(unat (avail_idx v) mod VIRTIO_QUEUE_NUM := of_nat i0)\<rparr>;
                 v = v\<lparr>avail_idx := avail_idx v + 1\<rparr>
             in if used_flags v = 0 then Some (Inr (), wreg 0x050 0 v, m)
                else if used_flags v \<noteq> 1 then None
                else Some (Inr (), v, m)) })"

partial_function (option) recycle_used :: "vring \<Rightarrow> vring option" where
  "recycle_used v =
     (if used_idx v \<noteq> dev_used_idx v then
        do { v \<leftarrow> free_chain (unat (used_ring v (unat (used_idx v) mod VIRTIO_QUEUE_NUM))) v;
             recycle_used (v\<lparr>used_idx := used_idx v + 1\<rparr>) }
      else Some v)"

definition virtio_disk_intr :: "(u32 \<Rightarrow> u32) \<Rightarrow> vring \<Rightarrow> vring option" where
  "virtio_disk_intr R v =
     recycle_used (if R 0x060 \<noteq> 0 then wreg 0x064 (R 0x060 AND 3) v else v)"

section \<open>The free bitmap\<close>

lemma desc_free_iff: "desc_free v i \<longleftrightarrow> bit (desc_free_bitmap v) i"
  unfolding desc_free_def by (simp add: push_bit_eq_mult and_exp_eq_0_iff_not_bit)

lemma desc_free_less: "desc_free v i \<Longrightarrow> i < 32"
  using bit_imp_le_length [of "desc_free_bitmap v" i] by (simp add: desc_free_iff)

definition free_set :: "vring \<Rightarrow> nat set" where
  "free_set v = {i. desc_free v i}"

lemma finite_free_set: "finite (free_set v)"
  using desc_free_less by (intro finite_subset [of "free_set v" "{..<32}"]) (auto simp: free_set_def)

definition set_bitmap :: "vring \<Rightarrow> u32 \<Rightarrow> vring" where
  "set_bitmap v b = v\<lparr>desc_free_bitmap := b\<rparr>"

lemma bitmap_clear: "free_set (v\<lparr>desc_free_bitmap := desc_free_bitmap v AND NOT (push_bit i 1)\<rparr>) = free_set v - {i}"
  by (auto simp: free_set_def desc_free_iff bit_simps push_bit_eq_mult dest: bit_imp_le_length)

lemma bitmap_set: "i < 32 \<Longrightarrow> free_set (v\<lparr>desc_free_bitmap := desc_free_bitmap v OR push_bit i 1\<rparr>) = insert i (free_set v)"
  by (auto simp: free_set_def desc_free_iff bit_simps push_bit_eq_mult)

lemma bitmap_eqI: "free_set v = free_set (v\<lparr>desc_free_bitmap := b\<rparr>) \<Longrightarrow> desc_free_bitmap v = b"
  by (rule bit_eqI) (auto simp: free_set_def desc_free_iff)

lemma alloc_desc_from_run:
  assumes "\<exists>k \<ge> i. k \<in> free_set v"
  shows "\<exists>k. k \<in> free_set v \<and> alloc_desc_from i v =
     Some (k, v\<lparr>desc_free_bitmap := desc_free_bitmap v AND NOT (push_bit k 1)\<rparr>)"
  using assms
proof (induction i v rule: alloc_desc_from.induct)
  case (1 i v)
  then obtain k where k: "i \<le> k" "k \<in> free_set v" by blast
  then have i: "i < VIRTIO_QUEUE_NUM" using desc_free_less [of v k] by (simp add: free_set_def VIRTIO_QUEUE_NUM_def)
  show ?case
  proof (cases "desc_free v i")
    case True
    then show ?thesis using i by (subst alloc_desc_from.simps) (simp add: free_set_def)
  next
    case False
    then have "Suc i \<le> k" using k by (cases "i = k") (auto simp: free_set_def)
    with "1.IH" [OF i False] k(2) False i show ?thesis by (subst alloc_desc_from.simps) auto
  qed
qed

lemma alloc_desc_cases:
  obtains (fail) "alloc_desc v = Some (Inl E_NO_RING_DESC, v)" "free_set v = {}"
  | (ok) k b where "alloc_desc v = Some (Inr k, set_bitmap v b)" "k \<in> free_set v" "k < 32"
      "free_set (set_bitmap v b) = free_set v - {k}"
proof (cases "desc_free_bitmap v = 0")
  case True
  then show thesis by (intro fail) (simp_all add: alloc_desc_def free_set_def desc_free_def)
next
  case False
  then obtain k where "k \<in> free_set v" by (auto simp: free_set_def desc_free_iff bit_eq_iff)
  with alloc_desc_from_run [of 0 v] obtain k where "k \<in> free_set v"
    "alloc_desc_from 0 v = Some (k, v\<lparr>desc_free_bitmap := desc_free_bitmap v AND NOT (push_bit k 1)\<rparr>)" by blast
  with False bitmap_clear [of v k] desc_free_less [of v k] show thesis
    by (intro ok) (auto simp: alloc_desc_def set_bitmap_def free_set_def)
qed

lemma free_desc_run:
  assumes "i < 32" "i \<notin> free_set v"
  shows "\<exists>b. free_desc i v = Some (set_bitmap v b) \<and> free_set (set_bitmap v b) = insert i (free_set v)"
  using assms bitmap_set [OF assms(1), of v]
  by (auto simp: free_desc_def set_bitmap_def free_set_def VIRTIO_QUEUE_NUM_def)

lemma set_bitmap_twice [simp]: "set_bitmap (set_bitmap v b) c = set_bitmap v c"
  by (simp add: set_bitmap_def)

interpretation desc_pool: resource_pool free_set 32 E_NO_RING_DESC alloc_desc free_desc
proof
  fix v
  show "free_set v \<subseteq> {..<32}" using desc_free_less by (auto simp: free_set_def)
  show "alloc_desc v = Some (Inl E_NO_RING_DESC, v)" if "free_set v = {}"
    by (rule alloc_desc_cases [of v]) (use that in auto)
  show "\<exists>k v'. alloc_desc v = Some (Inr k, v') \<and> k \<in> free_set v \<and> free_set v' = free_set v - {k}" if "free_set v \<noteq> {}"
    by (rule alloc_desc_cases [of v]) (use that in auto)
  show "\<exists>v'. free_desc k v = Some v' \<and> free_set v' = insert k (free_set v)" if "k < 32" "k \<notin> free_set v" for k
    using free_desc_run [OF that] by auto
qed

lemma free_descs_run:
  assumes "distinct is" "set is \<subseteq> {..<32}" "set is \<inter> free_set v = {}"
  shows "\<exists>b. free_descs is v = Some (set_bitmap v b) \<and> free_set (set_bitmap v b) = set is \<union> free_set v"
  using assms
proof (induction "is" arbitrary: v)
  case Nil
  show ?case by (rule exI [of _ "desc_free_bitmap v"]) (simp add: set_bitmap_def)
next
  case (Cons i "is")
  then obtain b where b: "free_desc i v = Some (set_bitmap v b)" "free_set (set_bitmap v b) = insert i (free_set v)"
    using free_desc_run [of i v] by auto
  from Cons.IH [of "set_bitmap v b"] Cons.prems b show ?case by auto
qed

lemma set_bitmap_same: "free_set (set_bitmap v b) = free_set v \<Longrightarrow> set_bitmap v b = v"
  using bitmap_eqI [of v b] by (simp add: set_bitmap_def)

lemma alloc_more_desc_cases:
  assumes "free_set (set_bitmap v b) = free_set v - set got" "distinct got" "set got \<subseteq> free_set v"
  shows "alloc_more_desc n got (set_bitmap v b) = Some (Inl E_NO_RING_DESC, v) \<and> card (free_set v) < length got + n
     \<or> (\<exists>idx c. alloc_more_desc n got (set_bitmap v b) = Some (Inr idx, set_bitmap v c) \<and> length idx = length got + n \<and>
          distinct idx \<and> set idx \<subseteq> free_set v \<and> free_set (set_bitmap v c) = free_set v - set idx)"
  using assms
proof (induction n arbitrary: got b)
  case 0
  then show ?case by (intro disjI2 exI [of _ got] exI [of _ b]) simp
next
  case (Suc n)
  have got32: "set got \<subseteq> {..<32}" using Suc.prems(3) desc_free_less by (auto simp: free_set_def)
  show ?case
  proof (cases rule: alloc_desc_cases [of "set_bitmap v b"])
    case fail
    from free_descs_run [OF Suc.prems(2) got32, of "set_bitmap v b"] fail(2) obtain c where
      c: "free_descs got (set_bitmap v b) = Some (set_bitmap v c)" "free_set (set_bitmap v c) = set got"
      by auto
    have g: "set got = free_set v" using fail(2) Suc.prems by auto
    then have "set_bitmap v c = v" using c(2) by (intro set_bitmap_same) simp
    moreover have "card (free_set v) = length got" using g Suc.prems(2) by (metis distinct_card)
    ultimately show ?thesis using fail(1) c(1) by simp
  next
    case (ok k c)
    let ?got = "got @ [k]"
    have "free_set (set_bitmap v c) = free_set v - set ?got" using ok(4) Suc.prems(1) by auto
    moreover have "distinct ?got" "set ?got \<subseteq> free_set v" using ok(2) Suc.prems by auto
    ultimately show ?thesis using Suc.IH [of c ?got] ok(1) by simp
  qed
qed

lemma alloc_3_desc_cases:
  obtains (fail) "alloc_3_desc v = Some (Inl E_NO_RING_DESC, v)" "card (free_set v) < 3"
  | (ok) i0 i1 i2 b where "alloc_3_desc v = Some (Inr [i0, i1, i2], set_bitmap v b)"
      "distinct [i0, i1, i2]" "{i0, i1, i2} \<subseteq> free_set v"
      "free_set (set_bitmap v b) = free_set v - {i0, i1, i2}"
proof -
  have self: "set_bitmap v (desc_free_bitmap v) = v" by (simp add: set_bitmap_def)
  have three: "\<exists>x y z. idx = [x, y, z]" if "length idx = 3" for idx :: "nat list"
    using that by (auto simp: numeral_3_eq_3 length_Suc_conv)
  from alloc_more_desc_cases [of v "desc_free_bitmap v" "[]" 3, unfolded self] three show thesis
    unfolding alloc_3_desc_def [symmetric] using fail ok by fastforce
qed

section \<open>Chains in flight\<close>

type_synonym chain = "nat \<times> nat \<times> nat"

fun chain_idx :: "chain \<Rightarrow> nat list" where
  "chain_idx (a, b, c) = [a, b, c]"

fun linked :: "vring \<Rightarrow> chain \<Rightarrow> bool" where
  "linked v (a, b, c) \<longleftrightarrow>
     d_flags (ring_desc v a) AND VRING_DESC_F_NEXT \<noteq> 0 \<and> unat (d_next (ring_desc v a)) = b \<and>
     d_flags (ring_desc v b) AND VRING_DESC_F_NEXT \<noteq> 0 \<and> unat (d_next (ring_desc v b)) = c \<and>
     d_flags (ring_desc v c) AND VRING_DESC_F_NEXT = 0"

definition in_use :: "chain list \<Rightarrow> nat list" where
  "in_use cs = concat (map chain_idx cs)"

definition disk_inv :: "vring \<Rightarrow> chain list \<Rightarrow> bool" where
  "disk_inv v cs \<longleftrightarrow> distinct (in_use cs) \<and> (\<forall>c \<in> set cs. linked v c) \<and> free_set v = {..<32} - set (in_use cs)
     \<and> set (in_use cs) \<subseteq> {..<32}"

lemma in_use_Cons [simp]: "in_use (c # cs) = chain_idx c @ in_use cs"
  by (simp add: in_use_def)

lemma in_use_Nil [simp]: "in_use [] = []"
  by (simp add: in_use_def)

lemma linked_cong:
  assumes "\<And>i. i \<in> set (chain_idx c) \<Longrightarrow> ring_desc v' i = ring_desc v i"
  shows "linked v' c = linked v c"
  using assms by (cases c) auto

lemma free_chain_run:
  assumes inv: "disk_inv v ((a, b, c) # cs)"
  shows "\<exists>w. free_chain a v = Some (set_bitmap v w) \<and> disk_inv (set_bitmap v w) cs"
proof -
  have d: "distinct [a, b, c]" "a < 32" "b < 32" "c < 32" "{a, b, c} \<inter> free_set v = {}" "linked v (a, b, c)"
    and r: "distinct (in_use cs)" "{a, b, c} \<inter> set (in_use cs) = {}" "\<forall>x \<in> set cs. linked v x"
      "set (in_use cs) \<subseteq> {..<32}" and f: "free_set v = {..<32} - ({a, b, c} \<union> set (in_use cs))"
    using inv by (auto simp: disk_inv_def)
  obtain w1 where w1: "free_desc a v = Some (set_bitmap v w1)" "free_set (set_bitmap v w1) = insert a (free_set v)"
    using free_desc_run [of a v] d by auto
  obtain w2 where w2: "free_desc b (set_bitmap v w1) = Some (set_bitmap v w2)"
    "free_set (set_bitmap v w2) = insert b (insert a (free_set v))"
    using free_desc_run [of b "set_bitmap v w1"] d w1 by auto
  obtain w3 where w3: "free_desc c (set_bitmap v w2) = Some (set_bitmap v w3)"
    "free_set (set_bitmap v w3) = insert c (insert b (insert a (free_set v)))"
    using free_desc_run [of c "set_bitmap v w2"] d w2 by auto
  have rd: "ring_desc (set_bitmap v w) = ring_desc v" for w by (simp add: set_bitmap_def)
  have "free_chain c (set_bitmap v w2) = Some (set_bitmap v w3)"
    using w3(1) d(6) by (subst free_chain.simps) (simp add: rd Let_def)
  then have "free_chain b (set_bitmap v w1) = Some (set_bitmap v w3)"
    using w2(1) d(6) by (subst free_chain.simps) (simp add: rd Let_def)
  then have run: "free_chain a v = Some (set_bitmap v w3)"
    using w1(1) d(6) by (subst free_chain.simps) (simp add: rd Let_def)
  have "free_set (set_bitmap v w3) = {..<32} - set (in_use cs)" using w3(2) f r d by auto
  moreover have "\<forall>x \<in> set cs. linked (set_bitmap v w3) x" using r(3) linked_cong [of _ "set_bitmap v w3" v] rd by simp
  ultimately show ?thesis using run r by (auto simp: disk_inv_def)
qed

lemma in_use_mset: "mset (in_use cs) = (\<Sum>c \<in># mset cs. mset (chain_idx c))"
  by (induction cs) simp_all

lemma disk_inv_perm:
  assumes "mset cs = mset cs'"
  shows "disk_inv v cs = disk_inv v cs'"
proof -
  have m: "mset (in_use cs) = mset (in_use cs')" by (simp add: in_use_mset assms)
  then have "distinct (in_use cs) = distinct (in_use cs')" "set (in_use cs) = set (in_use cs')"
    by (rule mset_eq_imp_distinct_iff, rule mset_eq_setD)
  moreover have "set cs = set cs'" using assms by (rule mset_eq_setD)
  ultimately show ?thesis by (simp add: disk_inv_def)
qed

definition heads :: "chain list \<Rightarrow> nat set" where
  "heads cs = fst ` set cs"

lemma heads_in_use: "h \<in> heads cs \<Longrightarrow> h \<in> set (in_use cs)"
  by (induction cs) (auto simp: heads_def)

lemma free_chain_head:
  assumes inv: "disk_inv v cs" and h: "h \<in> heads cs"
  obtains w cs' where "free_chain h v = Some (set_bitmap v w)" "disk_inv (set_bitmap v w) cs'" "heads cs' = heads cs - {h}"
    "set cs' \<subseteq> set cs"
proof -
  obtain b c where c: "(h, b, c) \<in> set cs" using h by (auto simp: heads_def)
  let ?cs = "remove1 (h, b, c) cs"
  have inv': "disk_inv v ((h, b, c) # ?cs)" using inv disk_inv_perm [of cs "(h, b, c) # ?cs" v] c by simp
  have "h \<notin> heads ?cs" using inv' heads_in_use [of h ?cs] by (auto simp: disk_inv_def)
  then have "heads ?cs = heads cs - {h}"
    using c by (auto simp: heads_def image_iff dest: in_set_remove1 [THEN iffD1, rotated] set_remove1_subset [THEN subsetD])
  with free_chain_run [OF inv'] that set_remove1_subset show thesis by metis
qed

section \<open>The used ring\<close>

definition pending :: "vring \<Rightarrow> nat list" where
  "pending v = map (\<lambda>k. unat (used_ring v (unat (used_idx v + of_nat k) mod VIRTIO_QUEUE_NUM)))
     [0..<unat (dev_used_idx v - used_idx v)]"

definition ring_inv :: "vring \<Rightarrow> chain list \<Rightarrow> bool" where
  "ring_inv v cs \<longleftrightarrow> disk_inv v cs \<and> distinct (pending v) \<and> set (pending v) \<subseteq> heads cs"

lemma pending_Cons:
  assumes "used_idx v \<noteq> dev_used_idx v"
  shows "pending v = unat (used_ring v (unat (used_idx v) mod VIRTIO_QUEUE_NUM))
     # pending (v\<lparr>used_idx := used_idx v + 1\<rparr>)"
proof -
  let ?n = "unat (dev_used_idx v - used_idx v)"
  have "dev_used_idx v - used_idx v \<noteq> 0" using assms by simp
  then have "unat (dev_used_idx v - used_idx v - 1) = ?n - 1" "0 < ?n"
    by (simp_all add: unat_minus_one unat_gt_0)
  then have n: "?n = Suc (unat (dev_used_idx v - (used_idx v + 1)))" by (simp add: diff_diff_eq)
  show ?thesis unfolding pending_def n
    by (subst upt_conv_Cons) (simp_all add: map_Suc_upt [symmetric] comp_def algebra_simps del: map_Suc_upt upt_Suc)
qed

lemma pending_Nil: "used_idx v = dev_used_idx v \<Longrightarrow> pending v = []"
  by (simp add: pending_def)

lemma recycle_used_run:
  assumes "ring_inv v cs"
  shows "\<exists>v' cs'. recycle_used v = Some v' \<and> ring_inv v' cs' \<and> pending v' = [] \<and> heads cs' = heads cs - set (pending v)
     \<and> set cs' \<subseteq> set cs \<and> used_flags v' = used_flags v"
  using assms
proof (induction "length (pending v)" arbitrary: v cs)
  case 0
  then have "used_idx v = dev_used_idx v" using pending_Cons [of v] by auto
  then have "recycle_used v = Some v" by (subst recycle_used.simps) simp
  with 0 show ?case by auto
next
  case (Suc n)
  then have ne: "used_idx v \<noteq> dev_used_idx v" using pending_Nil [of v] by auto
  let ?h = "unat (used_ring v (unat (used_idx v) mod VIRTIO_QUEUE_NUM))"
  note p = pending_Cons [OF ne]
  have inv: "disk_inv v cs" "?h \<in> heads cs" using Suc.prems p by (simp_all add: ring_inv_def)
  obtain w cs1 where w: "free_chain ?h v = Some (set_bitmap v w)" "disk_inv (set_bitmap v w) cs1"
    "heads cs1 = heads cs - {?h}" "set cs1 \<subseteq> set cs"
    using free_chain_head [OF inv] by blast
  define v1 where "v1 = (set_bitmap v w)\<lparr>used_idx := used_idx v + 1\<rparr>"
  have p1: "pending v1 = pending (v\<lparr>used_idx := used_idx v + 1\<rparr>)"
    by (simp add: v1_def set_bitmap_def pending_def)
  have "disk_inv v1 cs1" using w(2) linked_cong [of _ v1 "set_bitmap v w"]
    by (simp add: disk_inv_def v1_def free_set_def desc_free_def)
  then have "ring_inv v1 cs1" using Suc.prems p p1 w(3) by (auto simp: ring_inv_def)
  moreover have "n = length (pending v1)" using Suc.hyps(2) p p1 by simp
  ultimately obtain v' cs' where v': "recycle_used v1 = Some v'" "ring_inv v' cs'" "pending v' = []"
    "heads cs' = heads cs1 - set (pending v1)" "set cs' \<subseteq> set cs1" "used_flags v' = used_flags v1"
    using Suc.hyps(1) by blast
  have "recycle_used v = Some v'" using ne w(1) v'(1)
    by (subst recycle_used.simps) (simp add: v1_def set_bitmap_def)
  moreover have "heads cs' = heads cs - set (pending v)" using v'(4) w(3) p p1 by auto
  moreover have "set cs' \<subseteq> set cs" "used_flags v' = used_flags v"
    using v'(5,6) w(4) by (auto simp: v1_def set_bitmap_def)
  ultimately show ?case using v'(2,3) by blast
qed

lemma disk_inv_cong:
  assumes "ring_desc v' = ring_desc v" "desc_free_bitmap v' = desc_free_bitmap v"
  shows "disk_inv v' cs = disk_inv v cs"
  using assms linked_cong [of _ v' v] by (simp add: disk_inv_def free_set_def desc_free_def)

lemma pending_cong:
  assumes "used_ring v' = used_ring v" "used_idx v' = used_idx v" "dev_used_idx v' = dev_used_idx v"
  shows "pending v' = pending v"
  using assms by (simp add: pending_def)

lemma virtio_disk_req_cases:
  assumes inv: "ring_inv v cs" and fl: "used_flags v = 0 \<or> used_flags v = 1"
  obtains (inval) "req < KSTACKTOP" "virtio_disk_req req v m = Some (Inl E_INVAL, v, m)"
  | (busy) "virtio_disk_req req v m = Some (Inl E_NO_RING_DESC, v, m)" "card (free_set v) < 3"
  | (ok) v' i0 i1 i2 where "virtio_disk_req req v m = Some (Inr (), v', m(req + 5 := DISK_STATUS_NO_RESP))"
      "ring_inv v' ((i0, i1, i2) # cs)" "i0 \<notin> heads cs" "pending v' = pending v"
      "used_flags v' = used_flags v" "avail_idx v' = avail_idx v + 1"
      "avail_ring v' (unat (avail_idx v) mod VIRTIO_QUEUE_NUM) = of_nat i0" "i0 < 32"
      "ring_desc v' i1 = \<lparr>d_addr = ucast (req + 6), d_len = 512, d_flags = (if m (req + 4) \<noteq> 0 then 1 else 3), d_next = of_nat i2\<rparr>"
      "d_addr (ring_desc v' i2) = ucast (req + 5)"
      "outhdr v' i0 = \<lparr>oh_type = (if m (req + 4) \<noteq> 0 then 1 else 0), oh_ioprio = 0, oh_sector = ucast (ld32 m req)\<rparr>"
proof (cases "req < KSTACKTOP")
  case True
  then show thesis by (intro inval) (simp_all add: virtio_disk_req_def)
next
  case False
  show thesis
  proof (cases rule: alloc_3_desc_cases [of v])
    case fail
    with False show thesis by (intro busy) (simp_all add: virtio_disk_req_def)
  next
    case a: (ok i0 i1 i2 b)
    define w where "w = (m (req + 4) \<noteq> 0)"
    define v1 where "v1 = (set_bitmap v b)\<lparr>
       outhdr := (outhdr v)(i0 := \<lparr>oh_type = (if w then VIRTIO_BLK_T_OUT else VIRTIO_BLK_T_IN),
                                   oh_ioprio = 0, oh_sector = ucast (ld32 m req)\<rparr>),
       ring_desc := (ring_desc v)(i0 := \<lparr>d_addr = ucast (outhdr_addr v + 16 * of_nat i0), d_len = 16,
                                         d_flags = VRING_DESC_F_NEXT, d_next = of_nat i1\<rparr>,
                                  i1 := \<lparr>d_addr = ucast (req + 6), d_len = DISK_BUFFUER_LEN,
                                         d_flags = (if w then 0 else VRING_DESC_F_WRITE) OR VRING_DESC_F_NEXT,
                                         d_next = of_nat i2\<rparr>,
                                  i2 := \<lparr>d_addr = ucast (req + 5), d_len = 1,
                                         d_flags = VRING_DESC_F_WRITE, d_next = 0\<rparr>),
       avail_ring := (avail_ring v)(unat (avail_idx v) mod VIRTIO_QUEUE_NUM := of_nat i0),
       avail_idx := avail_idx v + 1\<rparr>"
    define v' where "v' = (if used_flags v = 0 then wreg 0x050 0 v1 else v1)"
    have run: "virtio_disk_req req v m = Some (Inr (), v', m(req + 5 := DISK_STATUS_NO_RESP))"
      using False a(1) fl
      by (auto simp: virtio_disk_req_def v'_def v1_def w_def set_bitmap_def Let_def wreg_def)
    have f: "{i0, i1, i2} \<inter> set (in_use cs) = {}" "i0 < 32" "i1 < 32" "i2 < 32"
      using a(3) inv by (auto simp: ring_inv_def disk_inv_def)
    have desc': "ring_desc v' = ring_desc v1" "desc_free_bitmap v' = desc_free_bitmap v1" "outhdr v' = outhdr v1"
      by (simp_all add: v'_def wreg_def)
    have bits: "VRING_DESC_F_NEXT AND VRING_DESC_F_NEXT \<noteq> 0" "VRING_DESC_F_WRITE AND VRING_DESC_F_NEXT = 0"
      "(VRING_DESC_F_WRITE OR VRING_DESC_F_NEXT) AND VRING_DESC_F_NEXT \<noteq> 0"
      by (simp_all add: VRING_DESC_F_NEXT_def VRING_DESC_F_WRITE_def)
    have "linked v1 (i0, i1, i2)" using a(2) f bits by (auto simp: v1_def unat_of_nat)
    moreover have "linked v1 c" if "c \<in> set cs" for c
    proof -
      have "set (chain_idx c) \<subseteq> set (in_use cs)" using that by (auto simp: in_use_def)
      then have "linked v1 c = linked v c" using f by (intro linked_cong) (auto simp: v1_def)
      then show ?thesis using inv that by (simp add: ring_inv_def disk_inv_def)
    qed
    moreover have "free_set v1 = free_set (set_bitmap v b)" by (simp add: v1_def free_set_def desc_free_def)
    ultimately have "disk_inv v1 ((i0, i1, i2) # cs)"
      using a(2-) f inv by (auto simp: ring_inv_def disk_inv_def)
    then have d': "disk_inv v' ((i0, i1, i2) # cs)" using disk_inv_cong desc' by blast
    have p: "pending v' = pending v" by (rule pending_cong) (simp_all add: v'_def wreg_def v1_def set_bitmap_def)
    have i0: "i0 \<notin> heads cs" using f heads_in_use [of i0 cs] by auto
    have r: "ring_inv v' ((i0, i1, i2) # cs)"
      using d' p inv by (auto simp: ring_inv_def heads_def)
    show thesis
      by (rule ok [OF run r i0 p])
         (use a(2) f in \<open>simp_all add: v'_def wreg_def v1_def set_bitmap_def w_def DISK_BUFFUER_LEN_def
            VRING_DESC_F_NEXT_def VRING_DESC_F_WRITE_def VIRTIO_BLK_T_OUT_def VIRTIO_BLK_T_IN_def\<close>)
  qed
qed

section \<open>Driver and device together\<close>

text \<open>The device owns the chain heads \<open>dev\<close> that were made available to it and not yet returned.  It may at any
  time return one of them (writing the buffer and the status byte of the request), or ask not to be notified.\<close>

type_synonym dstate = "vring \<times> mem \<times> nat set"

definition complete :: "nat \<Rightarrow> vring \<Rightarrow> vring" where
  "complete h v = v\<lparr>used_ring := (used_ring v)(unat (dev_used_idx v) mod VIRTIO_QUEUE_NUM := of_nat h),
                    dev_used_idx := dev_used_idx v + 1\<rparr>"

inductive disk_step :: "dstate \<Rightarrow> dstate \<Rightarrow> bool" where
  accepted: "virtio_disk_req req v m = Some (Inr (), v', m') \<Longrightarrow>
     disk_step (v, m, dev) (v', m', insert (unat (avail_ring v' (unat (avail_idx v) mod VIRTIO_QUEUE_NUM))) dev)"
| refused: "virtio_disk_req req v m = Some (Inl e, v', m') \<Longrightarrow> disk_step (v, m, dev) (v', m', dev)"
| intr: "virtio_disk_intr R v = Some v' \<Longrightarrow> disk_step (v, m, dev) (v', m, dev)"
| device_done: "h \<in> dev \<Longrightarrow> disk_step (v, m, dev) (complete h v, m', dev - {h})"
| device_flag: "f = 0 \<or> f = 1 \<Longrightarrow> disk_step (v, m, dev) (v\<lparr>used_flags := f\<rparr>, m, dev)"

definition disk_start :: "vring \<Rightarrow> bool" where
  "disk_start v \<longleftrightarrow> desc_free_bitmap v = - 1 \<and> used_idx v = dev_used_idx v \<and> used_flags v = 0"

inductive disk_reachable :: "dstate \<Rightarrow> bool" where
  start: "disk_start v \<Longrightarrow> disk_reachable (v, m, {})"
| step: "disk_reachable s \<Longrightarrow> disk_step s s' \<Longrightarrow> disk_reachable s'"

definition sys_inv :: "vring \<Rightarrow> nat set \<Rightarrow> chain list \<Rightarrow> bool" where
  "sys_inv v dev cs \<longleftrightarrow> ring_inv v cs \<and> dev = heads cs - set (pending v) \<and> (used_flags v = 0 \<or> used_flags v = 1)"

lemma heads_bound: "disk_inv v cs \<Longrightarrow> heads cs \<subseteq> {..<32}"
  unfolding disk_inv_def using heads_in_use by blast

lemma card_heads: "disk_inv v cs \<Longrightarrow> card (heads cs) \<le> 10"
proof -
  assume inv: "disk_inv v cs"
  have "length (in_use cs) = 3 * length cs" by (induction cs) (auto simp: in_use_def)
  moreover have "length (in_use cs) \<le> 32"
    using inv card_mono [of "{..<32 :: nat}" "set (in_use cs)"] by (simp add: disk_inv_def distinct_card)
  moreover have "card (heads cs) \<le> length cs" unfolding heads_def
    by (rule order_trans [OF card_image_le card_length]) simp
  ultimately show ?thesis by linarith
qed

lemma pending_complete:
  assumes "length (pending v) < 32" "h < 32"
  shows "pending (complete h v) = pending v @ [h]"
proof -
  let ?n = "unat (dev_used_idx v - used_idx v)"
  have n: "?n < 32" using assms(1) by (simp add: pending_def)
  have dev: "dev_used_idx v = used_idx v + of_nat ?n" by simp
  have md: "unat (used_idx v + of_nat k) mod 32 = (unat (used_idx v) + k) mod 32" for k
    by (simp add: unat_word_ariths unat_of_nat mod_add_right_eq mod_mod_cancel)
  have "unat (dev_used_idx v + 1 - used_idx v) = Suc ?n"
  proof -
    have s: "unat (x + 1) = Suc (unat x)" if "unat x < 32" for x :: u16 using that by (simp add: unat_word_ariths)
    have "dev_used_idx v + 1 - used_idx v = (dev_used_idx v - used_idx v) + 1" by (simp add: algebra_simps)
    then show ?thesis by (simp only: s [OF n])
  qed
  moreover have "(unat (used_idx v) + k) mod 32 \<noteq> (unat (used_idx v) + ?n) mod 32" if "k < ?n" for k
  proof
    assume "(unat (used_idx v) + k) mod 32 = (unat (used_idx v) + ?n) mod 32"
    then have "32 dvd ?n - k" using that mod_eq_dvd_iff_nat [of "unat (used_idx v) + k" "unat (used_idx v) + ?n" 32] by simp
    with that n show False using nat_dvd_not_less [of "?n - k" 32] by linarith
  qed
  moreover have "unat (dev_used_idx v) mod 32 = (unat (used_idx v) + ?n) mod 32" by (subst dev) (rule md)
  ultimately show ?thesis using assms(2)
    by (auto simp: pending_def complete_def VIRTIO_QUEUE_NUM_def md unat_of_nat)
qed

lemma disk_step_inv:
  assumes "disk_step s s'" "s = (v, m, dev)" "sys_inv v dev cs" "s' = (v', m', dev')"
  shows "\<exists>cs'. sys_inv v' dev' cs'"
  using assms
proof (cases rule: disk_step.cases)
  case (accepted req v0 m0 v1 m1 dev0)
  have s: "v0 = v" "m0 = m" "dev0 = dev" "v1 = v'" "m1 = m'"
    and dev': "dev' = insert (unat (avail_ring v' (unat (avail_idx v) mod VIRTIO_QUEUE_NUM))) dev"
    using accepted assms by auto
  have inv: "ring_inv v cs" "used_flags v = 0 \<or> used_flags v = 1" "dev = heads cs - set (pending v)"
    using assms(3) by (simp_all add: sys_inv_def)
  show ?thesis
  proof (cases rule: virtio_disk_req_cases [OF inv(1,2), of req m])
    case (3 w i0 i1 i2)
    have w: "w = v'" using 3(1) accepted(3) s by simp
    have "unat (avail_ring v' (unat (avail_idx v) mod VIRTIO_QUEUE_NUM)) = i0"
      using 3(7,8) by (simp add: w unat_of_nat)
    moreover have "i0 \<notin> set (pending v)" using 3(3) inv(1) by (auto simp: ring_inv_def)
    ultimately have "dev' = heads ((i0, i1, i2) # cs) - set (pending v')"
      using dev' inv(3) 3(4) by (auto simp: w heads_def)
    then show ?thesis using 3(2,5) inv(2) by (auto simp: sys_inv_def w intro!: exI [of _ "(i0, i1, i2) # cs"])
  qed (use accepted(3) s in simp_all)
next
  case (refused req v0 m0 e v1 m1 dev0)
  have s: "v0 = v" "m0 = m" "dev' = dev" "v1 = v'" using refused assms by auto
  have inv: "ring_inv v cs" "used_flags v = 0 \<or> used_flags v = 1" using assms(3) by (simp_all add: sys_inv_def)
  have "v' = v"
    by (rule virtio_disk_req_cases [OF inv, of req m]) (use refused(3) s in simp_all)
  then show ?thesis using assms(3) s by auto
next
  case (intr R v0 v1 m0 dev0)
  have s: "v0 = v" "v1 = v'" "dev' = dev" using intr assms by auto
  let ?v = "if R 0x060 \<noteq> 0 then wreg 0x064 (R 0x060 AND 3) v else v"
  have p: "pending ?v = pending v" by (rule pending_cong) (simp_all add: wreg_def)
  have "ring_inv ?v cs"
    using assms(3) p disk_inv_cong [of ?v v cs] by (simp add: sys_inv_def ring_inv_def wreg_def split: if_splits)
  from recycle_used_run [OF this] intr(3) s p obtain cs' where
    "ring_inv v' cs'" "pending v' = []" "heads cs' = heads cs - set (pending v)" "used_flags v' = used_flags ?v"
    by (auto simp: virtio_disk_intr_def)
  with assms(3) s show ?thesis by (auto simp: sys_inv_def wreg_def intro!: exI [of _ cs'])
next
  case (device_done h dev0 v0 m0 m1)
  have s: "v0 = v" "v' = complete h v" "dev' = dev - {h}" "h \<in> dev" using device_done assms by auto
  have inv: "ring_inv v cs" "dev = heads cs - set (pending v)" using assms(3) by (simp_all add: sys_inv_def)
  have d: "disk_inv v cs" using inv(1) by (simp add: ring_inv_def)
  have "length (pending v) = card (set (pending v))" using inv(1) by (simp add: ring_inv_def distinct_card)
  also have "\<dots> \<le> card (heads cs)" using inv(1) by (intro card_mono) (auto simp: ring_inv_def heads_def)
  finally have len: "length (pending v) < 32" using card_heads [OF d] by simp
  have "h < 32" using s(4) inv(2) heads_bound [OF d] by auto
  note p = pending_complete [OF len this]
  have "disk_inv (complete h v) cs" using d disk_inv_cong [of "complete h v" v] by (simp add: complete_def)
  then have "ring_inv (complete h v) cs" using inv s(4) p by (auto simp: ring_inv_def)
  then show ?thesis using s inv(2) p assms(3) by (auto simp: sys_inv_def complete_def intro!: exI [of _ cs])
next
  case (device_flag f v0 m0 dev0)
  have s: "v' = v\<lparr>used_flags := f\<rparr>" "dev' = dev" using device_flag assms by auto
  have "pending v' = pending v" using s by (intro pending_cong) simp_all
  moreover have "disk_inv v' cs = disk_inv v cs" using s by (intro disk_inv_cong) simp_all
  ultimately show ?thesis using assms(3) s device_flag(3) by (auto simp: sys_inv_def ring_inv_def intro!: exI [of _ cs])
qed

lemma reachable_inv: "disk_reachable s \<Longrightarrow> s = (v, m, dev) \<Longrightarrow> \<exists>cs. sys_inv v dev cs"
proof (induction arbitrary: v m dev rule: disk_reachable.induct)
  case (start v0 m0)
  then have "free_set v = {..<32}" by (auto simp: free_set_def desc_free_iff disk_start_def)
  with start show ?case
    by (intro exI [of _ "[]"]) (auto simp: sys_inv_def ring_inv_def disk_inv_def heads_def disk_start_def pending_Nil)
next
  case (step s s')
  obtain v0 m0 dev0 where s: "s = (v0, m0, dev0)" by (cases s)
  obtain cs where "sys_inv v0 dev0 cs" using step.IH [OF s] by blast
  from disk_step_inv [OF step.hyps(2) s this step.prems] show ?case .
qed

section \<open>Correctness of the driver\<close>

text \<open>Property C8. In every state that the driver and the device can reach together, recycling completed requests
  terminates without tripping an assertion, and leaves exactly the descriptors of requests still at the device in use;
  if the device has returned everything, all 32 descriptors are free again.\<close>

theorem virtio_disk_intr_safe:
  assumes "disk_reachable (v, m, dev)"
  shows "\<exists>v' cs. virtio_disk_intr R v = Some v' \<and> disk_inv v' cs \<and> heads cs = dev \<and> pending v' = [] \<and>
     (dev = {} \<longrightarrow> free_set v' = {..<32})"
proof -
  obtain cs where inv: "sys_inv v dev cs" using reachable_inv [OF assms] by blast
  let ?v = "if R 0x060 \<noteq> 0 then wreg 0x064 (R 0x060 AND 3) v else v"
  have p: "pending ?v = pending v" by (rule pending_cong) (simp_all add: wreg_def)
  have "ring_inv ?v cs"
    using inv p disk_inv_cong [of ?v v cs] by (simp add: sys_inv_def ring_inv_def wreg_def split: if_splits)
  from recycle_used_run [OF this] p obtain v' cs' where r: "virtio_disk_intr R v = Some v'"
    "ring_inv v' cs'" "pending v' = []" "heads cs' = heads cs - set (pending v)"
    by (auto simp: virtio_disk_intr_def)
  moreover have "heads cs' = dev" using r(4) inv by (simp add: sys_inv_def)
  moreover have "free_set v' = {..<32}" if "dev = {}"
    using \<open>heads cs' = dev\<close> that r(2) by (auto simp: ring_inv_def disk_inv_def heads_def)
  ultimately show ?thesis by (auto simp: ring_inv_def)
qed

definition demo_ring :: vring where
  "demo_ring = \<lparr>desc_addr = 0, avail_addr = 0, used_addr = 0, outhdr_addr = 0, ring_desc = (\<lambda>_. zero_desc),
     avail_flags = 1, avail_idx = 0, avail_ring = (\<lambda>_. 0), used_flags = 0, dev_used_idx = 0, used_ring = (\<lambda>_. 0),
     desc_free_bitmap = - 1, outhdr = (\<lambda>_. zero_outhdr), used_idx = 0, mmio_log = []\<rparr>"

lemma demo_ring_reachable: "disk_reachable (demo_ring, \<lambda>_. 0, {})"
  by (rule disk_reachable.start) (simp add: disk_start_def demo_ring_def)

theorem virtio_disk_intr_safe_witness:
  "\<exists>v' cs. virtio_disk_intr (\<lambda>_. 0) demo_ring = Some v' \<and> disk_inv v' cs \<and> heads cs = {} \<and> pending v' = [] \<and>
     (({} :: nat set) = {} \<longrightarrow> free_set v' = {..<32})"
  by (rule virtio_disk_intr_safe [OF demo_ring_reachable])



section \<open>Where the rings are allocated\<close>

text \<open>\<^verbatim>\<open>mips_init\<close> calls \<^verbatim>\<open>virtio_disk_init\<close> after \<^verbatim>\<open>page_init\<close>, so the boot allocator gives the descriptor
  table memory that is already on the page free list: the table starts at the first free frame, whose reference count
  is 0 and which \<^verbatim>\<open>page_alloc\<close> will hand out.\<close>

theorem disk_rings_in_free_page:
  assumes "unat (ROUND (freemem s) BY2PG) = 4096 * (k + 0x80200)" "k < 15872" "npage s = 15872"
    and "memsize s = PMEMSIZE" "pp_ref s = (\<lambda>_. 0)"
  shows "\<exists>s1 a s2 fl. page_init s = Some s1 \<and> alloc kend (32 * 16) 16 True s1 = Some (a, s2) \<and>
     a = page2pa k \<and> list_rep (page_free_list s2) fl \<and> k \<in> set fl \<and> pp_ref s2 k = 0"
proof -
  have np: "unat (npage s) = 15872" by (simp add: assms(3))
  have k: "k < unat (npage s)" "unat (npage s) \<le> page_bound" using assms(2) by (simp_all add: np page_bound_def)
  obtain s1 where s1: "page_init s = Some s1" "list_rep (page_free_list s1) (rev [k..<unat (npage s)])"
    "pp_ref s1 = (\<lambda>j. if j < k then 1 else 0)" "freemem s1 = ROUND (freemem s) BY2PG" "memsize s1 = memsize s"
    using page_init_run [OF assms(1) k assms(5)] by blast
  have kb: "k < page_bound" using k by simp
  then have fm: "freemem s1 = page2pa k" using s1(4) assms(1) by (simp add: word_unat_eq_iff page2pa_unat)
  have lt: "unat (page2pa k) = 4096 * (k + 0x80200)" by (rule page2pa_unat [OF kb])
  then have nz: "page2pa k \<noteq> 0" by (auto simp: unat_eq_zero [symmetric])
  have r: "ROUND (page2pa k) 16 = page2pa k"
  proof -
    have m: "(15 :: u32) = mask 4" by (simp add: mask_eq_exp_minus_1)
    have low: "\<not> bit (page2pa k) n" if "n < 12" for n
      using page2pa_aligned [OF kb] that by (metis bit_0_eq bit_and_iff bit_fff bot_apply bot_bool_def)
    have "page2pa k + mask 4 = page2pa k OR mask 4"
      using low by (intro disjunctive_add) (auto simp: bit_mask_iff)
    moreover have "(page2pa k OR mask 4) AND NOT (mask 4) = page2pa k"
      using low by (intro bit_word_eqI) (auto simp: bit_and_iff bit_or_iff bit_not_iff bit_mask_iff)
    ultimately show ?thesis by (simp add: ROUND_def m add.commute [of _ "page2pa k"])
  qed
  have sum: "unat (page2pa k + 512) = 4096 * (k + 0x80200) + 512"
    using lt assms(2) by (subst unat_add_no_overflow) simp_all
  have lim: "\<not> page2pa k + 512 \<ge> ULIM + memsize s1"
    using sum assms(2,4) s1(5) by (simp add: word_le_nat_alt layout_defs)
  obtain m where m: "memset (mem s1) (page2pa k) 0 512 = Some m"
    using memset_filled [of "page2pa k" 512 "mem s1" 0] lt assms(2) by simp
  define s2 where "s2 = s1\<lparr>freemem := page2pa k + 512, mem := m\<rparr>"
  have "alloc kend (32 * 16) 16 True s1 = Some (page2pa k, s2)"
    using lim m by (simp add: alloc_def fm nz r s2_def Let_def)
  moreover have "k \<in> set (rev [k..<unat (npage s)])" using k(1) by simp
  ultimately show ?thesis using s1(1-3) by (intro exI [of _ s1] exI [of _ s2] exI) (auto simp: s2_def)
qed

theorem disk_rings_in_free_page_witness:
  "\<exists>s1 a s2 fl. page_init (mips_detect_memory (demo\<lparr>freemem := 0x80400001, pp_ref := (\<lambda>_. 0)\<rparr>)) = Some s1 \<and>
     alloc 0x80600000 (32 * 16) 16 True s1 = Some (a, s2) \<and>
     a = page2pa 513 \<and> list_rep (page_free_list s2) fl \<and> 513 \<in> set fl \<and> pp_ref s2 513 = 0"
  by (rule disk_rings_in_free_page)
     (simp_all add: mips_detect_memory_def ROUND_def layout_defs Let_def)
end
