(* ===== verification/Mos_Elf.thy ===== *)
theory Mos_Elf
  imports Mos_Pmap
begin

text \<open>
  The ELF loader: \<^verbatim>\<open>include/elf.h\<close> and \<^verbatim>\<open>lib/elfloader.c\<close>.  Headers are read from the byte memory at their C
  offsets.  \<open>elf_load_seg\<close> works with any mapper callback, as the kernel (\<^verbatim>\<open>load_icode_mapper\<close>) and user
  space (\<^verbatim>\<open>spawn_mapper\<close>) use it with different ones.  \<open>seg_calls\<close> is the closed form of the callback
  invocations a segment leads to; \<open>elf_load_seg_calls\<close> shows the loops produce exactly them, and the properties
  say which pages they name.
\<close>


section \<open>Structures (include/elf.h)\<close>

text \<open>Half words are little endian, like \<open>ld32\<close>.\<close>

definition ld16 :: "mem \<Rightarrow> u32 \<Rightarrow> u16" where
  "ld16 m a = ucast (m a) OR push_bit 8 (ucast (m (a + 1)))"

definition sizeof_Elf32_Ehdr :: u32 where "sizeof_Elf32_Ehdr = 52"

record Elf32_Ehdr =
  e_ident :: "nat \<Rightarrow> u8"
  e_type :: u16
  e_entry :: u32
  e_phoff :: u32
  e_phentsize :: u16
  e_phnum :: u16

definition read_ehdr :: "mem \<Rightarrow> u32 \<Rightarrow> Elf32_Ehdr" where
  "read_ehdr m a = \<lparr>e_ident = (\<lambda>i. m (a + of_nat i)), e_type = ld16 m (a + 16), e_entry = ld32 m (a + 24),
     e_phoff = ld32 m (a + 28), e_phentsize = ld16 m (a + 42), e_phnum = ld16 m (a + 44)\<rparr>"

record Elf32_Phdr =
  p_type :: u32
  p_offset :: u32
  p_vaddr :: u32
  p_filesz :: u32
  p_memsz :: u32
  p_flags :: u32

definition read_phdr :: "mem \<Rightarrow> u32 \<Rightarrow> Elf32_Phdr" where
  "read_phdr m a = \<lparr>p_type = ld32 m a, p_offset = ld32 m (a + 4), p_vaddr = ld32 m (a + 8),
     p_filesz = ld32 m (a + 16), p_memsz = ld32 m (a + 20), p_flags = ld32 m (a + 24)\<rparr>"

definition PT_LOAD :: u32 where "PT_LOAD = 1"
definition PF_X :: u32 where "PF_X = 1"
definition PF_W :: u32 where "PF_W = 2"
definition PF_R :: u32 where "PF_R = 4"

section \<open>The loader (lib/elfloader.c)\<close>

definition elf_from :: "mem \<Rightarrow> u32 \<Rightarrow> u32 \<Rightarrow> Elf32_Ehdr option" where
  "elf_from m binary bsize =
     (let ehdr = read_ehdr m binary
      in if bsize \<ge> sizeof_Elf32_Ehdr \<and> e_ident ehdr 0 = 0x7f \<and> e_ident ehdr 1 = 0x45
            \<and> e_ident ehdr 2 = 0x4c \<and> e_ident ehdr 3 = 0x46 \<and> e_type ehdr = 2
         then Some ehdr else None)"

text \<open>The callback \<^verbatim>\<open>elf_mapper_t\<close>; \<^verbatim>\<open>data\<close> is part of the state \<open>'s\<close> it works on.  A \<^verbatim>\<open>src\<close> of NULL is \<open>None\<close>.\<close>

type_synonym 's elf_mapper = "u32 \<Rightarrow> u32 \<Rightarrow> u32 \<Rightarrow> u32 option \<Rightarrow> u32 \<Rightarrow> 's \<Rightarrow> ((err + unit) \<times> 's) option"

definition seg_perm :: "Elf32_Phdr \<Rightarrow> u32" where
  "seg_perm ph =
     (let perm = PTE_V OR PTE_U;
          perm = (if has (p_flags ph) PF_R then perm OR PTE_R else perm);
          perm = (if has (p_flags ph) PF_W then perm OR PTE_W else perm)
      in (if has (p_flags ph) PF_X then perm OR PTE_X else perm))"

partial_function (option) load_file_pages ::
  "'s elf_mapper \<Rightarrow> u32 \<Rightarrow> u32 \<Rightarrow> u32 \<Rightarrow> u32 \<Rightarrow> u32 \<Rightarrow> 's \<Rightarrow> ((err + u32) \<times> 's) option" where
  "load_file_pages map_page va perm bin bin_size i s =
     (if i < bin_size then
        do { (r, s) \<leftarrow> map_page (va + i) 0 perm (Some (bin + i)) (min (bin_size - i) BY2PG) s;
             case r of
               Inl e \<Rightarrow> Some (Inl e, s)
             | Inr _ \<Rightarrow> load_file_pages map_page va perm bin bin_size (i + BY2PG) s }
      else Some (Inr i, s))"

partial_function (option) load_zero_pages ::
  "'s elf_mapper \<Rightarrow> u32 \<Rightarrow> u32 \<Rightarrow> u32 \<Rightarrow> u32 \<Rightarrow> u32 \<Rightarrow> 's \<Rightarrow> ((err + unit) \<times> 's) option" where
  "load_zero_pages map_page va perm bin_size sgsize i s =
     (if i < sgsize then
        do { (r, s) \<leftarrow> map_page (va + i) 0 perm None (min (bin_size - i) BY2PG) s;
             case r of
               Inl e \<Rightarrow> Some (Inl e, s)
             | Inr _ \<Rightarrow> load_zero_pages map_page va perm bin_size sgsize (i + BY2PG) s }
      else Some (Inr (), s))"

definition elf_load_seg ::
  "Elf32_Phdr \<Rightarrow> u32 \<Rightarrow> 's elf_mapper \<Rightarrow> 's \<Rightarrow> ((err + unit) \<times> 's) option" where
  "elf_load_seg ph bin map_page s =
     (let va = p_vaddr ph;
          bin_size = p_filesz ph;
          sgsize = p_memsz ph;
          perm = seg_perm ph;
          offset = va - ROUNDDOWN va BY2PG;
          rest = (\<lambda>s. do {
            (r, s) \<leftarrow> load_file_pages map_page va perm bin bin_size
                        (if offset \<noteq> 0 then min bin_size (BY2PG - offset) else 0) s;
            case r of
              Inl e \<Rightarrow> Some (Inl e, s)
            | Inr i \<Rightarrow> load_zero_pages map_page va perm bin_size sgsize i s })
      in if offset \<noteq> 0 then
           do { (r, s) \<leftarrow> map_page va offset perm (Some bin) (min bin_size (BY2PG - offset)) s;
                case r of
                  Inl e \<Rightarrow> Some (Inl e, s)
                | Inr _ \<Rightarrow> rest s }
         else rest s)"

text \<open>\<open>ELF_FOREACH_PHDR_OFF\<close>: the offsets of the program headers in the order of the loop.\<close>

definition phdr_offs :: "Elf32_Ehdr \<Rightarrow> u32 list" where
  "phdr_offs ehdr = map (\<lambda>k. e_phoff ehdr + of_nat k * ucast (e_phentsize ehdr)) [0..<unat (e_phnum ehdr)]"

section \<open>The sequence of calls of the callback\<close>

text \<open>Running a list of callback invocations until one of them fails.\<close>

type_synonym elf_call = "u32 \<times> u32 \<times> u32 \<times> u32 option \<times> u32"

fun run_calls :: "'s elf_mapper \<Rightarrow> elf_call list \<Rightarrow> 's \<Rightarrow> ((err + unit) \<times> 's) option" where
  "run_calls f [] s = Some (Inr (), s)"
| "run_calls f ((va, off, perm, src, n) # cs) s =
     do { (r, s) \<leftarrow> f va off perm src n s;
          case r of Inl e \<Rightarrow> Some (Inl e, s) | Inr _ \<Rightarrow> run_calls f cs s }"

text \<open>The reference: which pages a segment asks for, as a closed-form list over the natural numbers.
  \<open>lead\<close> is the number of bytes in the partial first page.\<close>

definition seg_offset :: "Elf32_Phdr \<Rightarrow> nat" where
  "seg_offset ph = unat (p_vaddr ph) mod 4096"

definition seg_lead :: "Elf32_Phdr \<Rightarrow> nat" where
  "seg_lead ph = (if seg_offset ph = 0 then 0 else min (unat (p_filesz ph)) (4096 - seg_offset ph))"

definition pages_from :: "nat \<Rightarrow> nat \<Rightarrow> nat list" where
  "pages_from lo hi = map (\<lambda>k. lo + 4096 * k) [0..<(hi - lo + 4095) div 4096]"

definition file_end :: "Elf32_Phdr \<Rightarrow> nat" where
  "file_end ph = seg_lead ph + 4096 * ((unat (p_filesz ph) - seg_lead ph + 4095) div 4096)"

lemma page_count_rec:
  assumes "lo < (hi :: nat)"
  shows "(hi - lo + 4095) div 4096 = Suc ((hi - (lo + 4096) + 4095) div 4096)"
proof -
  obtain x where hi: "hi = lo + Suc x" using assms by (metis add_Suc_right less_imp_Suc_add)
  have "(hi - lo + 4095) div 4096 = Suc (x div 4096)" using hi by simp
  moreover have "(hi - (lo + 4096) + 4095) div 4096 = x div 4096" using hi by (cases "x < 4096") auto
  ultimately show ?thesis by simp
qed

lemma pages_from_rec: "pages_from lo hi = (if lo < hi then lo # pages_from (lo + 4096) hi else [])"
proof (cases "lo < hi")
  case True
  show ?thesis using True unfolding pages_from_def page_count_rec [OF True]
    by (simp add: upt_conv_Cons del: upt_Suc) (simp add: map_Suc_upt [symmetric] del: map_Suc_upt upt_Suc)
next
  case False
  then show ?thesis by (simp add: pages_from_def)
qed

definition file_call :: "Elf32_Phdr \<Rightarrow> u32 \<Rightarrow> nat \<Rightarrow> elf_call" where
  "file_call ph bin i = (p_vaddr ph + of_nat i, 0, seg_perm ph, Some (bin + of_nat i), of_nat (min (unat (p_filesz ph) - i) 4096))"

definition zero_call :: "Elf32_Phdr \<Rightarrow> nat \<Rightarrow> elf_call" where
  "zero_call ph i = (p_vaddr ph + of_nat i, 0, seg_perm ph, None, min (p_filesz ph - of_nat i) BY2PG)"

definition seg_calls :: "Elf32_Phdr \<Rightarrow> u32 \<Rightarrow> elf_call list" where
  "seg_calls ph bin =
     (if seg_offset ph = 0 then []
      else [(p_vaddr ph, of_nat (seg_offset ph), seg_perm ph, Some bin, of_nat (seg_lead ph))])
     @ map (file_call ph bin) (pages_from (seg_lead ph) (unat (p_filesz ph)))
     @ map (zero_call ph) (pages_from (file_end ph) (unat (p_memsz ph)))"

lemma load_zero_pages_run:
  assumes "unat sgsize + 4096 \<le> 2 ^ 32" "p_vaddr ph = va" "seg_perm ph = perm" "p_filesz ph = bin_size" "i < 2 ^ 32"
  shows "load_zero_pages f va perm bin_size sgsize (of_nat i) s =
     run_calls f (map (zero_call ph) (pages_from i (unat sgsize))) s"
  using assms(5)
proof (induction "unat sgsize - i" arbitrary: i s rule: less_induct)
  case less
  have iu: "unat (of_nat i :: u32) = i" using less.prems by (simp add: unat_of_nat)
  show ?case
  proof (cases "i < unat sgsize")
    case True
    have B: "(of_nat (i + 4096) :: u32) = of_nat i + BY2PG" by (simp add: BY2PG_def)
    have eq: "load_zero_pages f va perm bin_size sgsize (of_nat i + BY2PG) =
        run_calls f (map (zero_call ph) (pages_from (i + 4096) (unat sgsize)))"
      unfolding B [symmetric] using True assms(1) by (intro ext less.hyps) simp_all
    show ?thesis using True iu assms(2-4)
      by (subst load_zero_pages.simps, subst pages_from_rec, unfold eq) (simp add: word_less_nat_alt zero_call_def)
  next
    case False
    then show ?thesis using iu
      by (subst load_zero_pages.simps, subst pages_from_rec) (simp add: word_less_nat_alt)
  qed
qed

lemma load_file_pages_run:
  assumes "unat bin_size + 4096 \<le> 2 ^ 32" "p_vaddr ph = va" "seg_perm ph = perm" "p_filesz ph = bin_size" "i < 2 ^ 32"
  shows "load_file_pages f va perm bin bin_size (of_nat i) s \<bind>
       (\<lambda>(r, s). case r of Inl e \<Rightarrow> Some (Inl e, s) | Inr k \<Rightarrow> g k s) =
     run_calls f (map (file_call ph bin) (pages_from i (unat bin_size))) s \<bind>
       (\<lambda>(r, s). case r of Inl e \<Rightarrow> Some (Inl e, s)
                        | Inr _ \<Rightarrow> g (of_nat (i + 4096 * ((unat bin_size - i + 4095) div 4096))) s)"
  using assms(5)
proof (induction "unat bin_size - i" arbitrary: i s rule: less_induct)
  case less
  have iu: "unat (of_nat i :: u32) = i" using less.prems by (simp add: unat_of_nat)
  show ?case
  proof (cases "i < unat bin_size")
    case True
    have B: "(of_nat (i + 4096) :: u32) = of_nat i + BY2PG" by (simp add: BY2PG_def)
    let ?h = "\<lambda>(r, s). case r of Inl e \<Rightarrow> Some (Inl e, s) | Inr k \<Rightarrow> g k s"
    let ?k = "of_nat (i + 4096 + 4096 * ((unat bin_size - (i + 4096) + 4095) div 4096))"
    let ?h' = "\<lambda>(r, s). case r of Inl e \<Rightarrow> Some (Inl e, s) | Inr _ \<Rightarrow> g ?k s"
    have eq: "load_file_pages f va perm bin bin_size (of_nat i + BY2PG) s' \<bind> ?h =
        run_calls f (map (file_call ph bin) (pages_from (i + 4096) (unat bin_size))) s' \<bind> ?h'" for s'
      unfolding B [symmetric] using True assms(1) by (intro less.hyps) simp_all
    have k: "i + 4096 * ((unat bin_size - i + 4095) div 4096) = i + 4096 + 4096 * ((unat bin_size - (i + 4096) + 4095) div 4096)"
      unfolding page_count_rec [OF True] by simp
    have sub: "unat (bin_size - of_nat i) = unat bin_size - i"
      using True iu by (simp add: unat_sub word_le_nat_alt)
    have len: "min (bin_size - of_nat i) BY2PG = of_nat (min (unat bin_size - i) 4096)"
      using sub by (auto simp: min_def word_le_nat_alt BY2PG_def) (metis of_nat_unat ucast_id)+
    show ?thesis unfolding k using True iu assms(2-4)
      apply (subst load_file_pages.simps, subst pages_from_rec)
      apply (simp add: word_less_nat_alt file_call_def len)
      apply (cases "f (va + of_nat i) 0 perm (Some (bin + of_nat i)) (of_nat (min (unat bin_size - i) 4096)) s")
       apply simp
      apply (use eq in \<open>auto split: sum.splits\<close>)
      done
  next
    case False
    then show ?thesis using iu
      by (subst load_file_pages.simps, subst pages_from_rec) (simp add: word_less_nat_alt)
  qed
qed

lemma run_calls_append:
  "run_calls f (xs @ ys) s = run_calls f xs s \<bind> (\<lambda>(r, s). case r of Inl e \<Rightarrow> Some (Inl e, s) | Inr _ \<Rightarrow> run_calls f ys s)"
proof (induction f xs s rule: run_calls.induct)
  case (2 f va off perm src n cs s)
  then show ?case
    by (cases "f va off perm src n s") (auto split: sum.splits)
qed simp

lemma word_split_mask: "(a AND NOT (mask n)) + (a AND mask n) = (a :: u32)"
proof -
  have "(a AND NOT (mask n)) + (a AND mask n) = (a AND NOT (mask n)) OR (a AND mask n)"
    by (rule disjunctive_add) (auto simp: bit_and_iff bit_not_iff)
  also have "\<dots> = a" by (rule bit_word_eqI) (auto simp: bit_and_iff bit_or_iff bit_not_iff)
  finally show ?thesis .
qed

lemma page_offset_unat: "unat (va - ROUNDDOWN va BY2PG) = unat va mod 4096"
proof -
  have m: "(4095 :: u32) = mask 12" by (simp add: mask_eq_exp_minus_1)
  have "ROUNDDOWN va BY2PG = va AND NOT (mask 12)" by (simp add: ROUNDDOWN_def BY2PG_def m)
  moreover have "va - (va AND NOT (mask 12)) = va AND mask 12"
    using word_split_mask [of va 12] by (metis add_diff_cancel_left')
  ultimately show ?thesis by (simp add: unat_mod take_bit_eq_mod flip: take_bit_eq_mask)
qed

lemma unat_of_nat_u32: "n < 2 ^ 32 \<Longrightarrow> unat (of_nat n :: u32) = n"
  by (simp add: unat_of_nat)

lemma elf_load_seg_calls:
  assumes "unat (p_filesz ph) + 4096 \<le> 2 ^ 32" "unat (p_memsz ph) + 4096 \<le> 2 ^ 32"
  shows "elf_load_seg ph bin f s = run_calls f (seg_calls ph bin) s"
proof -
  let ?va = "p_vaddr ph" and ?perm = "seg_perm ph" and ?n = "p_filesz ph" and ?m = "p_memsz ph"
  let ?off = "?va - ROUNDDOWN ?va BY2PG"
  have off: "unat ?off = seg_offset ph" by (simp add: seg_offset_def page_offset_unat)
  have off0: "?off = 0 \<longleftrightarrow> seg_offset ph = 0" by (metis off unat_0 unat_eq_zero)
  have olt: "seg_offset ph < 4096" by (simp add: seg_offset_def)
  have "unat (BY2PG - ?off) = 4096 - seg_offset ph"
    using off olt by (subst unat_sub) (simp_all add: word_le_nat_alt BY2PG_def)
  then have "unat (min ?n (BY2PG - ?off)) = min (unat ?n) (4096 - seg_offset ph)"
    by (simp add: min_def word_le_nat_alt)
  then have lead: "seg_offset ph \<noteq> 0 \<Longrightarrow> min ?n (BY2PG - ?off) = of_nat (seg_lead ph)"
    by (metis of_nat_unat seg_lead_def ucast_id)
  have start: "(if ?off \<noteq> 0 then min ?n (BY2PG - ?off) else 0) = of_nat (seg_lead ph)"
    using lead off0 by (auto simp: seg_lead_def)
  have leadn: "seg_lead ph \<le> unat ?n" by (simp add: seg_lead_def)
  then have lead32: "seg_lead ph < 2 ^ 32" using assms by simp
  have "4096 * ((unat ?n - seg_lead ph + 4095) div 4096) \<le> unat ?n - seg_lead ph + 4095"
    by (metis div_times_less_eq_dividend mult.commute)
  then have fe: "file_end ph < 2 ^ 32" using assms(1) leadn by (simp add: file_end_def)
  define rest where "rest = (\<lambda>s. do {
            (r, s) \<leftarrow> load_file_pages f ?va ?perm bin ?n (of_nat (seg_lead ph)) s;
            case r of
              Inl e \<Rightarrow> Some (Inl e, s)
            | Inr i \<Rightarrow> load_zero_pages f ?va ?perm ?n ?m i s })"
  have rest: "rest s = run_calls f (map (file_call ph bin) (pages_from (seg_lead ph) (unat ?n))
       @ map (zero_call ph) (pages_from (file_end ph) (unat ?m))) s" for s
    unfolding rest_def load_file_pages_run [OF assms(1) refl refl refl lead32] file_end_def [symmetric]
      load_zero_pages_run [OF assms(2) refl refl refl fe] run_calls_append ..
  have run: "elf_load_seg ph bin f s =
     (if ?off \<noteq> 0 then
           do { (r, s) \<leftarrow> f ?va ?off ?perm (Some bin) (min ?n (BY2PG - ?off)) s;
                case r of Inl e \<Rightarrow> Some (Inl e, s) | Inr _ \<Rightarrow> rest s }
         else rest s)"
    by (simp only: elf_load_seg_def Let_def start rest_def)
  have offw: "?off = of_nat (seg_offset ph)" by (metis off of_nat_unat ucast_id)
  show ?thesis
  proof (cases "seg_offset ph = 0")
    case True
    then have "(?off \<noteq> 0) = False" using off0 by simp
    then show ?thesis unfolding run rest by (simp only: if_False) (simp add: True seg_calls_def)
  next
    case False
    then have "(?off \<noteq> 0) = True" using off0 by simp
    then show ?thesis unfolding run rest lead [OF False]
      by (simp only: if_True) (simp add: False seg_calls_def offw)
  qed
qed

section \<open>Which pages a segment asks for\<close>

definition call_page :: "elf_call \<Rightarrow> nat" where
  "call_page c = unat (fst c) div 4096"

lemma upt_map_add: "map (\<lambda>k. a + k) [0..<n] = [a..<a + n]"
  by (induction n) auto

lemma pages_from_numbers:
  assumes "v + lo = 4096 * q"
  shows "map (\<lambda>i. (v + i) div 4096) (pages_from lo hi) = [q..<q + (hi - lo + 4095) div 4096]"
proof -
  have "(v + (lo + 4096 * k)) div 4096 = q + k" for k
  proof -
    have "v + (lo + 4096 * k) = 4096 * (q + k)" using assms by simp
    then show ?thesis by (simp only: nonzero_mult_div_cancel_left zero_neq_numeral [symmetric] not_False_eq_True)
  qed
  then show ?thesis unfolding pages_from_def map_map comp_def by (simp add: upt_map_add)
qed

lemma ceil_bounds: "4096 * ((x + 4095) div 4096) \<le> x + 4095" "x \<le> 4096 * ((x + 4095) div 4096)" for x :: nat
proof -
  have "4096 * ((x + 4095) div 4096) + (x + 4095) mod 4096 = x + 4095" by (rule mult_div_mod_eq)
  moreover have "(x + 4095) mod 4096 < 4096" by simp
  ultimately show "4096 * ((x + 4095) div 4096) \<le> x + 4095" "x \<le> 4096 * ((x + 4095) div 4096)" by linarith+
qed

lemma ceil_pages_split:
  fixes n m :: nat
  defines "F \<equiv> (n + 4095) div 4096"
  shows "F + (m - 4096 * F + 4095) div 4096 = (max n m + 4095) div 4096"
proof -
  have n: "n \<le> 4096 * F" using ceil_bounds [of n] by (simp add: F_def)
  show ?thesis
  proof (cases "m \<le> 4096 * F")
    case True
    then have "max n m \<le> 4096 * F" using n by simp
    then have "(max n m + 4095) div 4096 \<le> F" using ceil_bounds(1) [of "max n m"] by linarith
    moreover have "F \<le> (max n m + 4095) div 4096" unfolding F_def by (intro div_le_mono) simp
    ultimately show ?thesis using True by simp
  next
    case False
    then have "max n m = m" using n by simp
    moreover have "m + 4095 = (m - 4096 * F + 4095) + 4096 * F" using False by simp
    then have "(m + 4095) div 4096 = F + (m - 4096 * F + 4095) div 4096"
      by (simp only: div_mult_self2 [of 4096] zero_neq_numeral [symmetric] not_False_eq_True)
    ultimately show ?thesis by simp
  qed
qed

lemma unat_call:
  assumes "unat (va :: u32) + i < 2 ^ 32"
  shows "unat (va + of_nat i) = unat va + i"
  using assms by (subst unat_add_no_overflow) (simp_all add: unat_of_nat_u32)

lemma pages_from_less: "i \<in> set (pages_from lo hi) \<Longrightarrow> i < hi"
proof -
  assume "i \<in> set (pages_from lo hi)"
  then obtain k where "i = lo + 4096 * k" "k < (hi - lo + 4095) div 4096" by (auto simp: pages_from_def)
  moreover note ceil_bounds(1) [of "hi - lo"]
  ultimately show "i < hi" by (cases "lo < hi") auto
qed

lemma seg_calls_pages:
  assumes "unat (p_vaddr ph) + max (unat (p_filesz ph)) (unat (p_memsz ph)) \<le> 2 ^ 32"
  shows "map call_page (seg_calls ph bin) =
     (if seg_offset ph = 0 then [] else [unat (p_vaddr ph) div 4096])
     @ map (\<lambda>i. (unat (p_vaddr ph) + i) div 4096) (pages_from (seg_lead ph) (unat (p_filesz ph)))
     @ map (\<lambda>i. (unat (p_vaddr ph) + i) div 4096) (pages_from (file_end ph) (unat (p_memsz ph)))"
proof -
  have f: "call_page (file_call ph bin i) = (unat (p_vaddr ph) + i) div 4096" if "i < unat (p_filesz ph)" for i
    using that assms unat_call [of "p_vaddr ph" i] by (simp add: call_page_def file_call_def)
  have z: "call_page (zero_call ph i) = (unat (p_vaddr ph) + i) div 4096" if "i < unat (p_memsz ph)" for i
    using that assms unat_call [of "p_vaddr ph" i] by (simp add: call_page_def zero_call_def)
  show ?thesis
    by (auto simp: seg_calls_def f z dest!: pages_from_less) (simp_all add: call_page_def)
qed

lemma seg_pages_consecutive:
  assumes "unat (p_vaddr ph) + max (unat (p_filesz ph)) (unat (p_memsz ph)) \<le> 2 ^ 32"
    and "seg_offset ph = 0 \<or> 4096 - seg_offset ph \<le> unat (p_filesz ph) \<or> unat (p_memsz ph) \<le> unat (p_filesz ph)"
  shows "map call_page (seg_calls ph bin) =
     [unat (p_vaddr ph) div 4096 ..<
      (unat (p_vaddr ph) + max (unat (p_filesz ph)) (unat (p_memsz ph)) + 4095) div 4096]"
proof -
  define v n m P o' where d: "v = unat (p_vaddr ph)" "n = unat (p_filesz ph)" "m = unat (p_memsz ph)"
    "P = v div 4096" "o' = seg_offset ph"
  have v: "v = 4096 * P + o'" "o' < 4096" by (simp_all add: d seg_offset_def)
  let ?L = "seg_lead ph"
  let ?F = "(n - ?L + 4095) div 4096"
  have pages: "map call_page (seg_calls ph bin) = (if o' = 0 then [] else [P])
     @ map (\<lambda>i. (v + i) div 4096) (pages_from ?L n) @ map (\<lambda>i. (v + i) div 4096) (pages_from (?L + 4096 * ?F) m)"
    using seg_calls_pages [OF assms(1), of bin] by (simp add: d file_end_def)
  have two: "map (\<lambda>i. (v + i) div 4096) (pages_from ?L n) @ map (\<lambda>i. (v + i) div 4096) (pages_from (?L + 4096 * ?F) m)
      = [q..<(v + max n m + 4095) div 4096]" if q: "v + ?L = 4096 * q" and ln: "?L \<le> n" for q
  proof -
    have q2: "v + (?L + 4096 * ?F) = 4096 * (q + ?F)" using q by simp
    let ?M = "max (n - ?L) (m - ?L) + 4095"
    have e1: "?F + (m - (?L + 4096 * ?F) + 4095) div 4096 = ?M div 4096"
      using ceil_pages_split [of "n - ?L" "m - ?L"] by (simp add: diff_diff_add)
    have e2: "v + max n m + 4095 = 4096 * q + ?M"
      using q ln by (simp add: max_def) linarith
    have e3: "(4096 * q + ?M) div 4096 = q + ?M div 4096" by simp
    have "(v + max n m + 4095) div 4096 = q + ?F + (m - (?L + 4096 * ?F) + 4095) div 4096"
      unfolding e2 e3 e1 [symmetric] by (simp only: add.assoc)
    then show ?thesis
      unfolding pages_from_numbers [OF q] pages_from_numbers [OF q2]
      by (simp add: upt_add_eq_append [symmetric])
  qed
  show ?thesis
  proof (cases "o' = 0")
    case True
    then have "?L = 0" by (simp add: seg_lead_def d)
    with two [of P] v True show ?thesis unfolding pages by (simp add: d)
  next
    case o: False
    show ?thesis
    proof (cases "4096 - o' \<le> n")
      case True
      then have "?L = 4096 - o'" using o by (simp add: seg_lead_def d)
      then have "v + ?L = 4096 * (P + 1)" "?L \<le> n" using v True by simp_all
      note t = two [OF this]
      have "P < (v + max n m + 4095) div 4096" using v o by simp
      then show ?thesis unfolding pages t using o by (simp add: d upt_conv_Cons)
    next
      case False
      then have mn: "m \<le> n" "?L = n" "n < 4096 - o'" using assms(2) o by (auto simp: seg_lead_def d)
      then have "v + max n m + 4095 = 4096 * (P + 1) + (o' + n - 1)" using v o by simp
      moreover have "(4096 * (P + 1) + (o' + n - 1)) div 4096 = P + 1" using mn(3) by simp
      ultimately have "(v + max n m + 4095) div 4096 = P + 1" by simp
      then show ?thesis unfolding pages using o mn by (simp add: pages_from_def d)
    qed
  qed
qed

text \<open>Which file byte a call puts at which address: \<open>copies c a b\<close> if the call copies the byte at \<open>b\<close> to the
  virtual address \<open>a\<close>.\<close>

fun copies :: "elf_call \<Rightarrow> nat \<Rightarrow> u32 \<Rightarrow> bool" where
  "copies (v, off, perm, src, n) a b \<longleftrightarrow>
     (\<exists>x < unat n. src = Some (b - of_nat x) \<and> a = 4096 * (unat v div 4096) + unat off + x)"

lemma seg_calls_copy:
  assumes "unat (p_vaddr ph) + unat (p_filesz ph) \<le> 2 ^ 32" "k < unat (p_filesz ph)"
  shows "\<exists>c \<in> set (seg_calls ph bin). copies c (unat (p_vaddr ph) + k) (bin + of_nat k)"
proof -
  let ?v = "unat (p_vaddr ph)" and ?n = "unat (p_filesz ph)" and ?L = "seg_lead ph"
  have v: "?v = 4096 * (?v div 4096) + seg_offset ph" "seg_offset ph < 4096" by (simp_all add: seg_offset_def)
  show ?thesis
  proof (cases "k < ?L")
    case True
    then have o: "seg_offset ph \<noteq> 0" and "?L \<le> 4096" by (auto simp: seg_lead_def split: if_splits)
    let ?c = "(p_vaddr ph, of_nat (seg_offset ph), seg_perm ph, Some bin, of_nat ?L) :: elf_call"
    have "unat (of_nat ?L :: u32) = ?L" "unat (of_nat (seg_offset ph) :: u32) = seg_offset ph"
      using \<open>?L \<le> 4096\<close> v(2) by (simp_all add: unat_of_nat)
    then have "copies ?c (?v + k) (bin + of_nat k)" using True v by (auto intro!: exI [of _ k])
    moreover have "?c \<in> set (seg_calls ph bin)" using o by (simp add: seg_calls_def)
    ultimately show ?thesis by blast
  next
    case False
    define j x where jx: "j = (k - ?L) div 4096" "x = (k - ?L) mod 4096"
    define i where "i = ?L + 4096 * j"
    have ik: "k = i + x" "x < 4096" using False by (simp_all add: i_def jx)
    obtain q where q: "?v + ?L = 4096 * q"
    proof (cases "seg_offset ph = 0")
      case True
      then have "?v + ?L = 4096 * (?v div 4096)" using v by (simp add: seg_lead_def)
      then show thesis by (rule that)
    next
      case o: False
      then have "?L = 4096 - seg_offset ph" using False assms(2) by (auto simp: seg_lead_def)
      then have "?v + ?L = 4096 * (?v div 4096 + 1)" using v by simp
      then show thesis by (rule that)
    qed
    have vi: "?v + i = 4096 * (q + j)" using q by (simp add: i_def)
    have "j < (?n - ?L + 4095) div 4096"
      using ceil_bounds(2) [of "?n - ?L"] False assms(2) by (simp add: jx div_less_iff_less_mult)
    then have "i \<in> set (pages_from ?L ?n)" by (auto simp: pages_from_def i_def)
    then have mem: "file_call ph bin i \<in> set (seg_calls ph bin)" by (simp add: seg_calls_def)
    have u: "unat (p_vaddr ph + of_nat i) = 4096 * (q + j)"
      using unat_call [of "p_vaddr ph" i] assms ik vi by simp
    have len: "unat (of_nat (min (?n - i) 4096) :: u32) = min (?n - i) 4096" by (simp add: unat_of_nat)
    have src: "bin + of_nat i = bin + of_nat k - of_nat x"
    proof -
      have "(of_nat k :: u32) = of_nat i + of_nat x" using arg_cong [OF ik(1), of "of_nat :: nat \<Rightarrow> u32"] by (simp only: of_nat_add)
      then show ?thesis by (simp only: add.assoc [symmetric] add_diff_cancel_right')
    qed
    have "x < min (?n - i) 4096" using ik assms(2) by linarith
    moreover have "?v + k = 4096 * (4096 * (q + j) div 4096) + x" using vi ik(1) by simp
    ultimately have "copies (file_call ph bin i) (?v + k) (bin + of_nat k)"
      unfolding file_call_def copies.simps len u src by (intro exI [of _ x]) simp
    with mem show ?thesis by blast
  qed
qed

section \<open>Correctness of the loader\<close>


definition log_mapper :: "elf_call list elf_mapper" where
  "log_mapper va off perm src n log = Some (Inr (), (va, off, perm, src, n) # log)"

definition demo_phdr :: Elf32_Phdr where
  "demo_phdr = \<lparr>p_type = 1, p_offset = 0, p_vaddr = 0x400800, p_filesz = 5000, p_memsz = 9000, p_flags = 5\<rparr>"


text \<open>A segment that starts inside a page, whose file part ends in that page and whose memory image is
  larger, loses its data: the mapper is called a second time for the very page that was just filled, now with no
  source, so that \<^verbatim>\<open>load_icode_mapper\<close> replaces it by an empty page.\<close>

theorem elf_load_seg_overwrites:
  assumes "unat (p_memsz ph) + 4096 \<le> 2 ^ 32" "unat (p_vaddr ph) + unat (p_memsz ph) \<le> 2 ^ 32"
    and "seg_offset ph \<noteq> 0" "unat (p_filesz ph) < 4096 - seg_offset ph" "unat (p_filesz ph) < unat (p_memsz ph)"
  shows "\<exists>c1 c2 cs. elf_load_seg ph bin f s = run_calls f (c1 # c2 # cs) s \<and> call_page c1 = call_page c2 \<and>
     (\<exists>v off perm n. c1 = (v, off, perm, Some bin, n) \<and> n = p_filesz ph) \<and>
     (\<exists>v perm n. c2 = (v, 0, perm, None, n))"
proof -
  let ?v = "unat (p_vaddr ph)" and ?n = "unat (p_filesz ph)" and ?m = "unat (p_memsz ph)"
  have lead: "seg_lead ph = ?n" using assms by (simp add: seg_lead_def)
  have fe: "file_end ph = ?n" by (simp add: file_end_def lead)
  have z: "pages_from ?n ?m = ?n # pages_from (?n + 4096) ?m" using assms(5) by (subst pages_from_rec) simp
  let ?c1 = "(p_vaddr ph, of_nat (seg_offset ph), seg_perm ph, Some bin, of_nat ?n) :: elf_call"
  let ?c2 = "zero_call ph ?n"
  let ?cs = "map (zero_call ph) (pages_from (?n + 4096) ?m)"
  have "seg_calls ph bin = ?c1 # ?c2 # ?cs"
    unfolding seg_calls_def lead fe z using assms(3) by (simp add: pages_from_rec [of ?n ?n])
  moreover have "elf_load_seg ph bin f s = run_calls f (seg_calls ph bin) s"
    using assms(1,4) by (intro elf_load_seg_calls) simp_all
  moreover have "unat (p_vaddr ph + of_nat ?n) = ?v + ?n" using assms(2,5) by (intro unat_call) simp
  then have "call_page ?c1 = call_page ?c2"
    using assms(4) by (simp add: call_page_def zero_call_def seg_offset_def) (simp add: div_add1_eq [of ?v ?n])
  ultimately show ?thesis
    by (intro exI [of _ ?c1] exI [of _ ?c2] exI [of _ ?cs]) (simp add: zero_call_def)
qed

theorem elf_load_seg_overwrites_witness:
  "\<exists>c1 c2 cs. elf_load_seg (demo_phdr\<lparr>p_filesz := 16, p_memsz := 32\<rparr>) 0x80300000 log_mapper [] =
       run_calls log_mapper (c1 # c2 # cs) [] \<and>
     call_page c1 = call_page c2 \<and> (\<exists>v off perm n. c1 = (v, off, perm, Some 0x80300000, n) \<and> n = 16) \<and>
     (\<exists>v perm n. c2 = (v, 0, perm, None, n))"
  using elf_load_seg_overwrites [of "demo_phdr\<lparr>p_filesz := 16, p_memsz := 32\<rparr>" "0x80300000" log_mapper "[]"]
  by (simp add: demo_phdr_def seg_offset_def)
end
