(* ===== verification/Mos_Env.thy ===== *)
theory Mos_Env
  imports Mos_Disk Mos_Elf
begin

text \<open>
  Environments (processes): \<^verbatim>\<open>include/env.h\<close>, \<^verbatim>\<open>include/trap.h\<close>, \<^verbatim>\<open>kern/env.c\<close> and \<^verbatim>\<open>kern/sched.c\<close>.

  \<open>kstate\<close> is the whole kernel state: \<open>pm\<close> the memory management of \<^verbatim>\<open>kern/pmap.c\<close>, \<open>envs\<close> the array \<^verbatim>\<open>envs\<close> (a
  \<^verbatim>\<open>struct Env *\<close> is its index, its link fields are in the two list records), \<open>kstack_tf\<close> the trap frame below
  \<^verbatim>\<open>KSTACKTOP\<close>, \<open>mkenvid_i\<close> and \<open>sched_count\<close> the static counters of \<^verbatim>\<open>mkenvid\<close> and \<^verbatim>\<open>schedule\<close>, \<open>satp\<close> the address-space
  register, \<open>disk\<close> the disk driver.  \<open>console_out\<close> is what system calls print and \<open>console_in\<close> the results of the next
  polls of the console; diagnostics printed with \<^verbatim>\<open>printk\<close> are not part of the state.
\<close>


section \<open>State\<close>

record trapframe =
  tf_regs :: "nat \<Rightarrow> u32"
  tf_sstatus :: u32
  tf_sscratch :: u32
  tf_scause :: u32
  tf_sepc :: u32
  tf_stval :: u32
  tf_sip :: u32

definition set_reg :: "nat \<Rightarrow> u32 \<Rightarrow> trapframe \<Rightarrow> trapframe" where
  "set_reg r v tf = tf\<lparr>tf_regs := (tf_regs tf)(r := v)\<rparr>"

definition LOG2NENV :: nat where "LOG2NENV = 10"
definition NENV :: nat where "NENV = 1024"
definition NASID :: nat where "NASID = 64"
definition ENVX :: "u32 \<Rightarrow> nat" where "ENVX envid = unat (envid AND (of_nat NENV - 1))"

definition ENV_FREE :: u32 where "ENV_FREE = 0"
definition ENV_RUNNABLE :: u32 where "ENV_RUNNABLE = 1"
definition ENV_NOT_RUNNABLE :: u32 where "ENV_NOT_RUNNABLE = 2"

lemmas status_defs = ENV_FREE_def ENV_RUNNABLE_def ENV_NOT_RUNNABLE_def

record env =
  env_tf :: trapframe
  env_id :: u32
  env_asid :: u32
  env_parent_id :: u32
  env_status :: u32
  env_pgdir :: u32
  env_pri :: u32
  env_ipc_value :: u32
  env_ipc_from :: u32
  env_ipc_recving :: u32
  env_ipc_dstva :: u32
  env_ipc_perm :: u32
  env_user_tlb_mod_entry :: u32
  env_pgdir_copy_pa :: u32
  env_runs :: u32

text \<open>\<^verbatim>\<open>sizeof(struct Env)\<close>: a trap frame of 152 bytes, two two-word links and fourteen words.\<close>

definition sizeof_Env :: u32 where "sizeof_Env = 224"

record kstate =
  pm :: pmap
  envs :: "nat \<Rightarrow> env"
  curenv :: "nat option"
  env_free_list :: "nat links"
  env_sched_list :: "nat tailq"
  base_pgdir :: u32
  asid_bitmap :: "nat \<Rightarrow> u32"
  mkenvid_i :: u32
  cur_pgdir :: u32
  sched_count :: u32
  kstack_tf :: trapframe
  satp :: u32
  disk :: vring
  console_out :: "u8 list"
  console_in :: "u32 list"
  envs_addr :: u32
  kernel_pgdir :: u32

definition upd_env :: "nat \<Rightarrow> (env \<Rightarrow> env) \<Rightarrow> kstate \<Rightarrow> kstate" where
  "upd_env e f s = s\<lparr>envs := (envs s)(e := f (envs s e))\<rparr>"

text \<open>\<^verbatim>\<open>curenv->field\<close>: a NULL \<^verbatim>\<open>curenv\<close> does not return.\<close>

definition the_curenv :: "kstate \<Rightarrow> env option" where
  "the_curenv s = map_option (envs s) (curenv s)"

section \<open>ASIDs\<close>

definition asid_used :: "(nat \<Rightarrow> u32) \<Rightarrow> nat \<Rightarrow> bool" where
  "asid_used bm i \<longleftrightarrow> bm (i div 32) AND push_bit (i mod 32) 1 \<noteq> 0"

function asid_alloc_from :: "nat \<Rightarrow> kstate \<Rightarrow> (err + u32) \<times> kstate" where
  "asid_alloc_from i s =
     (if i < NASID then
        if \<not> asid_used (asid_bitmap s) i
        then (Inr (of_nat i),
              s\<lparr>asid_bitmap := (asid_bitmap s)(i div 32 := asid_bitmap s (i div 32) OR push_bit (i mod 32) 1)\<rparr>)
        else asid_alloc_from (Suc i) s
      else (Inl E_NO_FREE_ENV, s))"
  by pat_completeness auto
termination by (relation "measure (\<lambda>(i, s). NASID - i)") auto

declare asid_alloc_from.simps [simp del]

definition asid_alloc :: "kstate \<Rightarrow> (err + u32) \<times> kstate" where
  "asid_alloc s = asid_alloc_from 0 s"

definition asid_free :: "u32 \<Rightarrow> kstate \<Rightarrow> kstate" where
  "asid_free i s =
     (let index = unat (drop_bit 5 i); inner = unat (i AND 31)
      in s\<lparr>asid_bitmap := (asid_bitmap s)(index := asid_bitmap s index AND NOT (push_bit inner 1))\<rparr>)"

section \<open>Environment ids\<close>

definition mkenvid :: "nat \<Rightarrow> kstate \<Rightarrow> u32 \<times> kstate" where
  "mkenvid e s =
     (let s = s\<lparr>mkenvid_i := mkenvid_i s + 1\<rparr>
      in (push_bit (1 + LOG2NENV) (mkenvid_i s) OR of_nat e, s))"

text \<open>The result \<open>None\<close> inside \<open>Inr\<close> is the NULL that \<^verbatim>\<open>envid2env(0, ...)\<close> stores when there is no current env.
  The comparison \<^verbatim>\<open>e->env_parent_id != curenv->env_id\<close> dereferences \<^verbatim>\<open>curenv\<close>.\<close>

definition envid2env :: "u32 \<Rightarrow> bool \<Rightarrow> kstate \<Rightarrow> (err + nat option) option" where
  "envid2env envid checkperm s =
     (if envid = 0 then Some (Inr (curenv s))
      else
        (let e = ENVX envid
         in if env_status (envs s e) = ENV_FREE \<or> env_id (envs s e) \<noteq> envid then Some (Inl E_BAD_ENV)
            else if checkperm \<and> curenv s \<noteq> Some e then
              do { ce \<leftarrow> the_curenv s;
                   Some (if env_parent_id (envs s e) \<noteq> env_id ce then Inl E_BAD_ENV else Inr (Some e)) }
            else Some (Inr (Some e))))"

section \<open>Address spaces\<close>

text \<open>\<open>map_segment\<close>: its loop variable is an \<^verbatim>\<open>int\<close> compared with an unsigned \<^verbatim>\<open>size\<close>.\<close>

partial_function (option) map_segment_loop ::
  "u32 \<Rightarrow> u32 \<Rightarrow> u32 \<Rightarrow> u32 \<Rightarrow> u32 \<Rightarrow> u32 \<Rightarrow> u32 \<Rightarrow> pmap \<Rightarrow> pmap option" where
  "map_segment_loop pgdir asid pa va sz perm i s =
     (if i < sz then
        do { pp \<leftarrow> pa2page s (pa + i);
             (r, s) \<leftarrow> page_insert pgdir asid pp (va + i) perm s;
             case r of Inl _ \<Rightarrow> None | Inr _ \<Rightarrow> map_segment_loop pgdir asid pa va sz perm (i + BY2PG) s }
      else Some s)"

definition map_segment :: "u32 \<Rightarrow> u32 \<Rightarrow> u32 \<Rightarrow> u32 \<Rightarrow> u32 \<Rightarrow> u32 \<Rightarrow> pmap \<Rightarrow> pmap option" where
  "map_segment pgdir asid pa va sz perm s =
     (if pa mod BY2PG \<noteq> 0 \<or> va mod BY2PG \<noteq> 0 \<or> sz mod BY2PG \<noteq> 0 then None
      else map_segment_loop pgdir asid pa va sz perm 0 s)"

fun env_init_loop :: "nat \<Rightarrow> kstate \<Rightarrow> kstate" where
  "env_init_loop 0 s = s"
| "env_init_loop (Suc i) s =
     (let s = upd_env i (\<lambda>e. e\<lparr>env_status := ENV_FREE\<rparr>) s
      in env_init_loop i (s\<lparr>env_free_list := LIST_INSERT_HEAD (env_free_list s) i\<rparr>))"

definition env_init :: "kstate \<Rightarrow> kstate option" where
  "env_init s =
     (let s = s\<lparr>env_free_list := LIST_INIT (env_free_list s)\<rparr>;
          s = s\<lparr>env_sched_list := TAILQ_INIT (env_sched_list s)\<rparr>;
          s = env_init_loop NENV s
      in do {
           (r, p) \<leftarrow> page_alloc (pm s);
           case r of
             Inl _ \<Rightarrow> None
           | Inr pp \<Rightarrow> do {
               let p = set_ref p pp (pp_ref p pp + 1);
               base \<leftarrow> page2kva p pp;
               pages_pa \<leftarrow> PADDR (pages_addr p);
               p \<leftarrow> map_segment base 0 pages_pa UPAGES (ROUND (npage p * sizeof_Page) BY2PG) (PTE_G OR PTE_R OR PTE_U) p;
               envs_pa \<leftarrow> PADDR (envs_addr s);
               p \<leftarrow> map_segment base 0 envs_pa UENVS (ROUND (of_nat NENV * sizeof_Env) BY2PG) (PTE_G OR PTE_R OR PTE_U) p;
               Some (s\<lparr>pm := p, base_pgdir := base\<rparr>) } })"

definition env_setup_vm :: "nat \<Rightarrow> kstate \<Rightarrow> ((err + unit) \<times> kstate) option" where
  "env_setup_vm e s = do {
     (r, p) \<leftarrow> page_alloc (pm s);
     case r of
       Inl er \<Rightarrow> Some (Inl er, s\<lparr>pm := p\<rparr>)
     | Inr pp \<Rightarrow> do {
         let p = set_ref p pp (pp_ref p pp + 1);
         pgdir \<leftarrow> page2kva p pp;
         let s = upd_env e (\<lambda>en. en\<lparr>env_pgdir := pgdir\<rparr>) s;
         m \<leftarrow> memcpy (mem p) pgdir (kernel_pgdir s) BY2PG;
         m \<leftarrow> memcpy m (pgdir + 4 * PDX UTOP) (base_pgdir s + 4 * PDX UTOP) (4 * (PDX UVPT - PDX UTOP));
         Some (Inr (), upd_env e (\<lambda>en. en\<lparr>env_pgdir_copy_pa := 0\<rparr>) (s\<lparr>pm := p\<lparr>mem := m\<rparr>\<rparr>)) } }"

section \<open>Allocation\<close>

text \<open>The value of \<^verbatim>\<open>env_setup_vm\<close> is not looked at.\<close>

definition env_alloc :: "u32 \<Rightarrow> kstate \<Rightarrow> ((err + nat) \<times> kstate) option" where
  "env_alloc parent_id s =
     (case LIST_FIRST (env_free_list s) of
        None \<Rightarrow> Some (Inl E_NO_FREE_ENV, s)
      | Some e \<Rightarrow> do {
          (_, s) \<leftarrow> env_setup_vm e s;
          let s = upd_env e (\<lambda>en. en\<lparr>env_user_tlb_mod_entry := 0, env_runs := 0\<rparr>) s;
          let (i, s) = mkenvid e s;
          let s = upd_env e (\<lambda>en. en\<lparr>env_id := i\<rparr>) s;
          let (r, s) = asid_alloc s;
          case r of
            Inl er \<Rightarrow> Some (Inl er, s)
          | Inr asid \<Rightarrow> do {
              let s = upd_env e (\<lambda>en. en\<lparr>env_asid := asid, env_parent_id := parent_id\<rparr>) s;
              let s = upd_env e (\<lambda>en. en\<lparr>env_tf := (env_tf en)\<lparr>tf_sstatus := 2, tf_sscratch := USTACKTOP - 4 - 4\<rparr>\<rparr>) s;
              fl \<leftarrow> LIST_REMOVE (env_free_list s) e;
              Some (Inr e, s\<lparr>env_free_list := fl\<rparr>) } })"

section \<open>Loading programs\<close>

definition load_icode_mapper :: "nat \<Rightarrow> kstate elf_mapper" where
  "load_icode_mapper e va offset perm src n s = do {
     (r, p) \<leftarrow> page_alloc (pm s);
     case r of
       Inl er \<Rightarrow> Some (Inl er, s\<lparr>pm := p\<rparr>)
     | Inr pp \<Rightarrow> do {
         p \<leftarrow> (case src of
                  None \<Rightarrow> Some p
                | Some a \<Rightarrow> do { kva \<leftarrow> page2kva p pp;
                                m \<leftarrow> memcpy (mem p) (kva + offset) a n;
                                Some (p\<lparr>mem := m\<rparr>) });
         (r, p) \<leftarrow> page_insert (env_pgdir (envs s e)) (env_asid (envs s e)) pp va perm p;
         Some (r, s\<lparr>pm := p\<rparr>) } }"

fun load_icode_segs :: "nat \<Rightarrow> u32 \<Rightarrow> u32 list \<Rightarrow> kstate \<Rightarrow> kstate option" where
  "load_icode_segs e binary [] s = Some s"
| "load_icode_segs e binary (ph_off # offs) s =
     (let ph = read_phdr (mem (pm s)) (binary + ph_off)
      in if p_type ph = PT_LOAD then
           do { (r, s) \<leftarrow> elf_load_seg ph (binary + p_offset ph) (load_icode_mapper e) s;
                case r of Inl _ \<Rightarrow> None | Inr _ \<Rightarrow> load_icode_segs e binary offs s }
         else load_icode_segs e binary offs s)"

definition load_icode :: "nat \<Rightarrow> u32 \<Rightarrow> u32 \<Rightarrow> kstate \<Rightarrow> kstate option" where
  "load_icode e binary bsize s =
     (case elf_from (mem (pm s)) binary bsize of
        None \<Rightarrow> None
      | Some ehdr \<Rightarrow> do {
          s \<leftarrow> load_icode_segs e binary (phdr_offs ehdr) s;
          Some (upd_env e (\<lambda>en. en\<lparr>env_tf := (env_tf en)\<lparr>tf_sepc := e_entry ehdr\<rparr>\<rparr>) s) })"

definition env_create :: "u32 \<Rightarrow> u32 \<Rightarrow> u32 \<Rightarrow> kstate \<Rightarrow> (nat \<times> kstate) option" where
  "env_create binary bsize priority s = do {
     (r, s) \<leftarrow> env_alloc 0 s;
     case r of
       Inl _ \<Rightarrow> None
     | Inr e \<Rightarrow> do {
         let s = upd_env e (\<lambda>en. en\<lparr>env_pri := priority, env_status := ENV_RUNNABLE\<rparr>) s;
         s \<leftarrow> load_icode e binary bsize s;
         Some (e, s\<lparr>env_sched_list := TAILQ_INSERT_HEAD (env_sched_list s) e\<rparr>) } }"

section \<open>Freeing\<close>

fun free_ptes :: "u32 \<Rightarrow> u32 \<Rightarrow> u32 \<Rightarrow> u32 \<Rightarrow> nat list \<Rightarrow> pmap \<Rightarrow> pmap option" where
  "free_ptes pgdir asid pdeno pt [] s = Some s"
| "free_ptes pgdir asid pdeno pt (pteno # ps) s =
     (if has (rd s (pt + 4 * of_nat pteno)) PTE_V then
        do { s \<leftarrow> page_remove pgdir asid (push_bit 22 pdeno OR push_bit 12 (of_nat pteno)) s;
             free_ptes pgdir asid pdeno pt ps s }
      else free_ptes pgdir asid pdeno pt ps s)"

fun free_pdes :: "u32 \<Rightarrow> u32 \<Rightarrow> nat list \<Rightarrow> pmap \<Rightarrow> pmap option" where
  "free_pdes pgdir asid [] s = Some s"
| "free_pdes pgdir asid (pdeno # ps) s =
     (let pde = rd s (pgdir + 4 * of_nat pdeno)
      in if \<not> has pde PTE_V then free_pdes pgdir asid ps s
         else do {
           let pa = PTE_ADDR pde;
           pt \<leftarrow> KADDR s pa;
           s \<leftarrow> free_ptes pgdir asid (of_nat pdeno) pt [0..<1024] s;
           let s = wr s (pgdir + 4 * of_nat pdeno) 0;
           pp \<leftarrow> pa2page s pa;
           s \<leftarrow> page_decref pp s;
           free_pdes pgdir asid ps (tlb_flush asid 0 s) })"

definition env_free :: "nat \<Rightarrow> kstate \<Rightarrow> kstate option" where
  "env_free e s =
     (let en = envs s e
      in do {
           p \<leftarrow> free_pdes (env_pgdir en) (env_asid en) [0..<unat (PDX UTOP)] (pm s);
           p \<leftarrow> (if env_pgdir_copy_pa en \<noteq> 0 then
                    do { c \<leftarrow> pa2page p (env_pgdir_copy_pa en);
                         if pp_ref p c \<noteq> 1 then None else page_decref c p }
                  else Some p);
           pa \<leftarrow> PADDR (env_pgdir en);
           pp \<leftarrow> pa2page p pa;
           p \<leftarrow> page_decref pp p;
           let s = asid_free (env_asid en) (s\<lparr>pm := p\<rparr>);
           let s = s\<lparr>pm := tlb_flush (env_asid en) 0 (pm s)\<rparr>;
           let s = upd_env e (\<lambda>en. en\<lparr>env_status := ENV_FREE\<rparr>) s;
           let s = s\<lparr>env_free_list := LIST_INSERT_HEAD (env_free_list s) e\<rparr>;
           q \<leftarrow> TAILQ_REMOVE (env_sched_list s) e;
           Some (s\<lparr>env_sched_list := q\<rparr>) })"

section \<open>Running and scheduling\<close>

text \<open>\<open>env_run\<close> does not return: its result is the state in which \<^verbatim>\<open>env_pop_tf\<close> resumes user mode.  \<^verbatim>\<open>pre_env_run\<close> is
  empty unless the judge's macros are defined.\<close>

definition env_run :: "nat \<Rightarrow> kstate \<Rightarrow> kstate option" where
  "env_run e s =
     (if env_status (envs s e) \<noteq> ENV_RUNNABLE then None
      else
        (let s = (case curenv s of None \<Rightarrow> s | Some c \<Rightarrow> upd_env c (\<lambda>en. en\<lparr>env_tf := kstack_tf s\<rparr>) s);
             s = s\<lparr>curenv := Some e\<rparr>;
             s = upd_env e (\<lambda>en. en\<lparr>env_runs := env_runs en + 1\<rparr>) s;
             s = s\<lparr>cur_pgdir := env_pgdir (envs s e)\<rparr>
         in Some (s\<lparr>satp := SV32MODE OR push_bit 22 (env_asid (envs s e)) OR PPN (cur_pgdir s)\<rparr>)))"

text \<open>The device registers that \<^verbatim>\<open>virtio_disk_intr\<close> reads are the argument \<open>R\<close>.\<close>

definition is_runnable :: "kstate \<Rightarrow> nat \<Rightarrow> bool" where
  "is_runnable s e \<longleftrightarrow> env_status (envs s e) = ENV_RUNNABLE"

definition must_switch :: "bool \<Rightarrow> kstate \<Rightarrow> bool" where
  "must_switch yield s \<longleftrightarrow> yield \<or> sched_count s = 0 \<or> (case curenv s of None \<Rightarrow> True | Some e \<Rightarrow> \<not> is_runnable s e)"

definition requeue_cur :: "kstate \<Rightarrow> kstate option" where
  "requeue_cur s =
     (case curenv s of
        None \<Rightarrow> Some s
      | Some e \<Rightarrow>
          if is_runnable s e then
            do { q \<leftarrow> TAILQ_REMOVE (env_sched_list s) e;
                 q \<leftarrow> TAILQ_INSERT_TAIL q e;
                 Some (s\<lparr>env_sched_list := q\<rparr>) }
          else Some s)"

definition pick_env :: "kstate \<Rightarrow> (nat \<times> kstate) option" where
  "pick_env s = do {
     s \<leftarrow> requeue_cur s;
     if TAILQ_EMPTY (env_sched_list s) then None
     else do { e \<leftarrow> TAILQ_FIRST (env_sched_list s);
               Some (e, s\<lparr>sched_count := env_pri (envs s e)\<rparr>) } }"

definition schedule :: "(u32 \<Rightarrow> u32) \<Rightarrow> bool \<Rightarrow> kstate \<Rightarrow> kstate option" where
  "schedule R yield s = do {
     v \<leftarrow> virtio_disk_intr R (disk s);
     let s = s\<lparr>disk := v\<rparr>;
     (e, s) \<leftarrow> (if must_switch yield s then pick_env s else do { e \<leftarrow> curenv s; Some (e, s) });
     env_run e (s\<lparr>sched_count := sched_count s - 1\<rparr>) }"

text \<open>\<open>env_destroy\<close> comes back to its caller (\<open>Inl\<close>) unless it destroyed the current environment, in which case it
  runs another one (\<open>Inr\<close>).\<close>

definition env_destroy :: "(u32 \<Rightarrow> u32) \<Rightarrow> nat \<Rightarrow> kstate \<Rightarrow> (kstate + kstate) option" where
  "env_destroy R e s = do {
     s \<leftarrow> env_free e s;
     if curenv s = Some e then
       do { s \<leftarrow> schedule R True (s\<lparr>curenv := None\<rparr>); Some (Inr s) }
     else Some (Inl s) }"
end
