(* ===== verification/Mos_Space.thy ===== *)
theory Mos_Space
  imports Mos_Vm_Ops
begin

text \<open>
  The life of an address space: how the view of theory \<open>Mos_Vm\<close> changes when an emptied page table is taken out of its
  directory slot, and when a directory is added to or dropped from the set of live ones.
\<close>


section \<open>Removing a page table\<close>

lemma clear_table:
  assumes ok: "tables_ok s D" and t: "ptab s D (d, i) = Some t" and empty: "\<And>j. maps s D (d, i, j) = None"
  defines "s' \<equiv> wr s (slot d i) 0"
  shows "ptab s' D = (ptab s D)((d, i) := None)" "maps s' D = maps s D"
    and "ptes s' D = (\<lambda>(a, b, c). if (a, b) = (d, i) then 0 else ptes s D (a, b, c))"
    and "tables_ok s' D" "refs s' D q + (if q = t then 1 else 0) = refs s D q"
proof -
  have d: "d \<in> D" "i < PDX UTOP" using ptab_dom [OF t] by auto
  note il = user_slot_less [OF d(2)]
  show tab: "ptab s' D = (ptab s D)((d, i) := None)"
    unfolding s'_def view_wr_pde(1) [OF ok d(1) il] using d by simp
  have ent': "ent (mem s') e l = (if (e, l) = (d, i) then 0 else ent (mem s) e l)"
    if "e < page_bound" "l < 1024" for e l
    unfolding s'_def using view_wr_pde(2) [OF ok d(1) il that] .
  show pte: "ptes s' D = (\<lambda>(a, b, c). if (a, b) = (d, i) then 0 else ptes s D (a, b, c))"
  proof
    fix k :: "nat \<times> u32 \<times> u32"
    obtain e l n where k: "k = (e, l, n)" by (cases k)
    have "ent (mem s') u n = ent (mem s) u n" if "ptab s D (e, l) = Some u" "n < 1024" for u
      using ent' [of u n] that tables_okD(5,7) [OF ok that(1)] d by auto
    then show "ptes s' D k = (\<lambda>(a, b, c). if (a, b) = (d, i) then 0 else ptes s D (a, b, c)) k"
      by (auto simp: k ptes_def tab split: option.splits)
  qed
  have nps: "npage s' = npage s" by (simp add: s'_def)
  show mp: "maps s' D = maps s D"
  proof
    fix k :: "nat \<times> u32 \<times> u32"
    obtain e l n where k: "k = (e, l, n)" by (cases k)
    show "maps s' D k = maps s D k"
      using empty [of n] by (auto simp: k maps_def pte entry_frame_cong [OF nps])
  qed
  show "tables_ok s' D"
  proof (rule tables_okI; (unfold mp nps)?)
    fix e l assume a: "e \<in> D" "l < PDX UTOP" "has (ent (mem s') e l) PTE_V"
    show "ptab s' D (e, l) \<noteq> None"
      using a tables_okD(12) [OF ok a(1,2)] ent' [OF tables_okD(3) [OF ok a(1)] user_slot_less [OF a(2)]]
      by (auto simp: tab split: if_splits)
  next
    fix k assume "has (ptes s' D k) PTE_V"
    then show "maps s D k \<noteq> None"
      using tables_okD(13) [OF ok, of k] by (auto simp: pte split: prod.splits if_splits)
  next
    fix k k' t assume "ptab s' D k = Some t" "ptab s' D k' = Some t"
    then show "k = k'" using tables_okD(8) [OF ok, of k t k'] by (auto simp: tab split: if_splits)
  next
    fix k t assume "ptab s' D k = Some t"
    then show "t \<notin> D" using tables_okD(7) [OF ok, of k t] by (auto simp: tab split: if_splits)
  next
    fix k k' p assume "maps s D k = Some p"
    then show "ptab s' D k' \<noteq> Some p" using tables_okD(10) [OF ok, of k p k'] by (auto simp: tab)
  qed (use tables_okD(1,2,4,9) [OF ok] in blast)+
  have "card {k. ((ptab s D)((d, i) := None)) k = Some q} + (if q = t then 1 else 0) = card {k. ptab s D k = Some q}"
    using card_map_upd [OF finite_views(1) [OF ok, of q], of "(d, i)" None] t by (cases "q = t") simp_all
  then show "refs s' D q + (if q = t then 1 else 0) = refs s D q" by (simp add: refs_def tab mp)
qed

section \<open>Adding and dropping a directory\<close>

lemma view_drop_dir:
  assumes "\<And>i. ptab s D (d, i) = None"
  shows "ptab s (D - {d}) = ptab s D" "ptes s (D - {d}) = ptes s D" "maps s (D - {d}) = maps s D"
proof -
  show tab: "ptab s (D - {d}) = ptab s D"
  proof
    fix k show "ptab s (D - {d}) k = ptab s D k" using assms [of "snd k"] by (cases k) (auto simp: ptab_def)
  qed
  show "ptes s (D - {d}) = ptes s D" by (simp add: ptes_def tab)
  then show "maps s (D - {d}) = maps s D" by (simp add: maps_def fun_eq_iff)
qed

lemma drop_dir:
  assumes ok: "tables_ok s D" and d: "d \<in> D" and empty: "\<And>i. ptab s D (d, i) = None"
  shows "tables_ok s (D - {d})" "refs s (D - {d}) q + (if q = d then 1 else 0) = refs s D q"
proof -
  note v = view_drop_dir [of s D d, OF empty]
  show "refs s (D - {d}) q + (if q = d then 1 else 0) = refs s D q" using d by (simp add: refs_def v)
  show "tables_ok s (D - {d})"
  proof (rule tables_okI; (unfold v)?)
    fix e l assume "e \<in> D - {d}" "l < PDX UTOP" "has (ent (mem s) e l) PTE_V"
    then show "ptab s D (e, l) \<noteq> None" using tables_okD(12) [OF ok, of e l] by auto
  qed (use tables_okD(1,2,4,7,8,9,10,13) [OF ok] in \<open>blast | simp\<close>)+
qed

lemma add_dir:
  assumes ok: "tables_ok s D" and d: "d \<notin> D" "d < unat (npage s)"
    and empty: "\<And>i. i < PDX UTOP \<Longrightarrow> \<not> has (ent (mem s) d i) PTE_V"
    and un: "\<And>k. ptab s D k \<noteq> Some d" "\<And>k. maps s D k \<noteq> Some d"
  shows "ptab s (insert d D) = ptab s D" "ptes s (insert d D) = ptes s D" "maps s (insert d D) = maps s D"
    "tables_ok s (insert d D)" "refs s (insert d D) q = refs s D q + (if q = d then 1 else 0)"
proof -
  show tab: "ptab s (insert d D) = ptab s D"
  proof
    fix k show "ptab s (insert d D) k = ptab s D k"
      using empty [of "snd k"] d by (cases k) (auto simp: ptab_def table_at_def entry_frame_def)
  qed
  show pte: "ptes s (insert d D) = ptes s D" by (simp add: ptes_def tab)
  then show mp: "maps s (insert d D) = maps s D" by (simp add: maps_def fun_eq_iff)
  show "refs s (insert d D) q = refs s D q + (if q = d then 1 else 0)" using d by (simp add: refs_def tab mp)
  show "tables_ok s (insert d D)"
  proof (rule tables_okI; (unfold tab pte mp)?)
    fix e l assume "e \<in> insert d D" "l < PDX UTOP" "has (ent (mem s) e l) PTE_V"
    then show "ptab s D (e, l) \<noteq> None" using tables_okD(12) [OF ok, of e l] empty by auto
  next
    fix k t assume "ptab s D k = Some t"
    then show "t \<notin> insert d D" using tables_okD(7) [OF ok, of k t] un(1) [of k] by auto
  next
    fix k p assume "maps s D k = Some p"
    then show "p \<notin> insert d D" using tables_okD(9) [OF ok, of k p] un(2) [of k] by auto
  qed (use tables_okD(1,2,4,8,10,13) [OF ok] d(2) in \<open>blast | simp\<close>)+
qed
end
