(* ===== verification/Mos_Env_Free.thy ===== *)
theory Mos_Env_Free
  imports Mos_Env Mos_Space
begin

text \<open>
  \<^verbatim>\<open>env_free\<close> gives everything back: the loops over page tables and directory slots unmap every user page of the
  environment, free the page tables, the copy of the directory and the directory itself, and leave every other address
  space as it was.  \<open>space_inv\<close> ties the page directories of the live environments to \<open>vm_inv\<close>; \<open>table_inv\<close> is the
  invariant written above \<^verbatim>\<open>env_sched_list\<close> in \<^verbatim>\<open>kern/env.c\<close>, together with its counterpart for the free list.
\<close>


declare split_paired_All [simp del] split_paired_Ex [simp del]

section \<open>Addresses of directory and table slots\<close>

lemma bit_3ff: "bit (0x3FF :: u32) n \<longleftrightarrow> n < 10"
proof -
  have "(0x3FF :: u32) = mask 10" by (simp add: mask_eq_exp_minus_1)
  then show ?thesis by (simp only: bit_mask_iff) auto
qed

lemma small_bits: "i < 1024 \<Longrightarrow> bit (i :: u32) n \<Longrightarrow> n < 10"
proof -
  assume i: "i < 1024" and b: "bit i n"
  have "i AND mask 10 = i" using i by (intro less_mask_eq) simp
  then have "bit (i AND mask 10) n" using b by simp
  then show "n < 10" by (simp add: bit_and_iff bit_mask_iff)
qed

definition va_of :: "u32 \<Rightarrow> u32 \<Rightarrow> u32" where
  "va_of i j = push_bit 22 i OR push_bit 12 j"

lemma va_of_parts:
  assumes "i < 1024" "j < 1024"
  shows "PDX (va_of i j) = i" "PTX (va_of i j) = j"
proof -
  note si = small_bits [OF assms(1)] and sj = small_bits [OF assms(2)]
  show "PDX (va_of i j) = i"
  proof (rule bit_word_eqI)
    fix n assume "n < LENGTH(32)"
    have "bit (PDX (va_of i j)) n \<longleftrightarrow> bit (va_of i j) (22 + n) \<and> n < 10"
      unfolding PDX_def by (simp only: bit_and_iff bit_drop_bit_eq bit_3ff comp_def)
    also have "\<dots> \<longleftrightarrow> bit i n"
      using si [of n] sj [of "10 + n"] by (auto simp: va_of_def bit_or_iff bit_push_bit_iff)
    finally show "bit (PDX (va_of i j)) n = bit i n" .
  qed
  show "PTX (va_of i j) = j"
  proof (rule bit_word_eqI)
    fix n assume "n < LENGTH(32)"
    have "bit (PTX (va_of i j)) n \<longleftrightarrow> bit (va_of i j) (12 + n) \<and> n < 10"
      unfolding PTX_def by (simp only: bit_and_iff bit_drop_bit_eq bit_3ff comp_def)
    also have "\<dots> \<longleftrightarrow> bit j n"
      using sj [of n] by (auto simp: va_of_def bit_or_iff bit_push_bit_iff)
    finally show "bit (PTX (va_of i j)) n = bit j n" .
  qed
qed

section \<open>Emptying a page table\<close>

lemma maps_dom: "maps s D (d, i, j) = Some p \<Longrightarrow> j < 1024 \<and> (\<exists>t. ptab s D (d, i) = Some t)"
  by (auto simp: maps_def ptes_def split: option.splits if_splits)

lemma free_ptes_run:
  assumes "vm_inv s D L X" "ptab s D (d, i) = Some t" "set js \<subseteq> {..<1024}"
  shows "\<exists>s'. free_ptes (page2pa d) asid i (page2pa t) js s = Some s' \<and> vm_inv s' D L X \<and> ptab s' D = ptab s D \<and>
     npage s' = npage s \<and> (\<forall>a b c. maps s' D (a, b, c) = (if (a, b) = (d, i) \<and> unat c \<in> set js then None else maps s D (a, b, c)))"
  using assms
proof (induction js arbitrary: s)
  case Nil
  then show ?case by simp
next
  case (Cons j js)
  note inv = vm_inv_cases [OF Cons.prems(1)]
  have d: "d \<in> D" "i < PDX UTOP" using ptab_dom [OF Cons.prems(2)] by auto
  have j: "(of_nat j :: u32) < 1024" "unat (of_nat j :: u32) = j"
    using Cons.prems(3) by (simp_all add: word_less_nat_alt unat_of_nat)
  have uj: "unat c = j \<longleftrightarrow> c = of_nat j" for c :: u32 using j(2) by (auto simp: word_unat_eq_iff)
  note va = va_of_parts [OF user_slot_less [OF d(2)] j(1)]
  have key: "key d (va_of i (of_nat j)) = (d, i, of_nat j)" by (simp add: key_def va)
  have uva: "user_va (va_of i (of_nat j))" using d(2) by (simp add: user_va_def va)
  have rd: "rd s (page2pa t + 4 * of_nat j) = ptes s D (d, i, of_nat j)"
    using Cons.prems(2) j(1) by (simp add: ptes_def rd_ent flip: slot_def)
  show ?case
  proof (cases "has (ptes s D (d, i, of_nat j)) PTE_V")
    case True
    then obtain p where p: "maps s D (key d (va_of i (of_nat j))) = Some p"
      using tables_okD(13) [OF inv(1), of "(d, i, of_nat j)"] key by auto
    obtain s1 where s1: "page_remove (page2pa d) asid (va_of i (of_nat j)) s = Some s1" "vm_inv s1 D L X"
      "ptab s1 D = ptab s D" "ptes s1 D = (ptes s D)(key d (va_of i (of_nat j)) := 0)" "npage s1 = npage s"
      using page_remove_mapped [OF Cons.prems(1) p, of asid] by metis
    have m1: "maps s1 D = (maps s D)((d, i, of_nat j) := None)"
      by (auto simp: maps_def s1(4) key entry_frame_cong [OF s1(5)])
    obtain s' where s': "free_ptes (page2pa d) asid i (page2pa t) js s1 = Some s'" "vm_inv s' D L X" "ptab s' D = ptab s1 D"
      "npage s' = npage s1"
      "\<forall>a b c. maps s' D (a, b, c) = (if (a, b) = (d, i) \<and> unat c \<in> set js then None else maps s1 D (a, b, c))"
      using Cons.IH [OF s1(2)] Cons.prems(2,3) s1(3) by auto
    moreover have "free_ptes (page2pa d) asid i (page2pa t) (j # js) s = Some s'"
      using s'(1) s1(1) True rd by (simp add: va_of_def)
    moreover have "maps s' D (a, b, c) = (if (a, b) = (d, i) \<and> unat c \<in> set (j # js) then None else maps s D (a, b, c))" for a b c
      by (auto simp: s'(5) [rule_format] m1 uj)
    ultimately show ?thesis using s1(3,5) by (intro exI [of _ s']) simp
  next
    case False
    then have "maps s D (d, i, of_nat j) = None" by (simp add: maps_def entry_frame_def)
    moreover obtain s' where s': "free_ptes (page2pa d) asid i (page2pa t) js s = Some s'" "vm_inv s' D L X"
      "ptab s' D = ptab s D" "npage s' = npage s"
      "\<forall>a b c. maps s' D (a, b, c) = (if (a, b) = (d, i) \<and> unat c \<in> set js then None else maps s D (a, b, c))"
      using Cons.IH [OF Cons.prems(1,2)] Cons.prems(3) by auto
    moreover have "free_ptes (page2pa d) asid i (page2pa t) (j # js) s = Some s'" using s'(1) False rd by simp
    ultimately show ?thesis by (intro exI [of _ s']) (auto simp: uj)
  qed
qed

section \<open>Freeing the user part of an address space\<close>

text \<open>One round of the outer loop of \<^verbatim>\<open>env_free\<close>.\<close>

lemma free_pde_step:
  assumes inv: "vm_inv s D L X" and d: "d \<in> D" and i: "i < unat (PDX UTOP)"
  shows "\<exists>s'. free_pdes (page2pa d) asid (i # ps) s = free_pdes (page2pa d) asid ps s' \<and> vm_inv s' D L X \<and>
     npage s' = npage s \<and> ptab s' D = (ptab s D)((d, of_nat i) := None) \<and>
     (\<forall>a b c. maps s' D (a, b, c) = (if (a, b) = (d, of_nat i) then None else maps s D (a, b, c)))"
proof -
  note I = vm_inv_cases [OF inv]
  have iu: "(of_nat i :: u32) < PDX UTOP" using i by (simp add: word_less_nat_alt unat_of_nat user_slots)
  have sl: "page2pa d + 4 * of_nat i = slot d (of_nat i)" by (simp add: slot_def)
  show ?thesis
  proof (cases "ptab s D (d, of_nat i)")
    case None
    then have "\<not> has (ent (mem s) d (of_nat i)) PTE_V" using tables_okD(12) [OF I(1) d iu] by auto
    moreover have "(ptab s D)((d, of_nat i) := None) = ptab s D" using None by auto
    moreover have "maps s D (d, of_nat i, c) = None" for c using None by (simp add: maps_def ptes_def)
    ultimately show ?thesis using inv by (intro exI [of _ s]) (auto simp: sl rd_ent)
  next
    case (Some t)
    note e = ptab_Some_entry [OF I(1) Some]
    obtain s1 where s1: "free_ptes (page2pa d) asid (of_nat i) (page2pa t) [0..<1024] s = Some s1" "vm_inv s1 D L X"
      "ptab s1 D = ptab s D" "npage s1 = npage s"
      "\<forall>a b c. maps s1 D (a, b, c) = (if (a, b) = (d, of_nat i) \<and> unat c \<in> set [0..<1024] then None else maps s D (a, b, c))"
      using free_ptes_run [OF inv Some, of "[0..<1024]" asid] by (metis atLeastLessThan_upt atLeast0LessThan subset_refl)
    note I1 = vm_inv_cases [OF s1(2)]
    have t1: "ptab s1 D (d, of_nat i) = Some t" using s1(3) Some by simp
    have empty: "maps s1 D (d, of_nat i, c) = None" for c
      using s1(5) maps_dom [of s D d "of_nat i" c]
      by (cases "maps s D (d, of_nat i, c)") (auto simp: word_less_nat_alt)
    define s2 where "s2 = wr s1 (slot d (of_nat i)) 0"
    note ct = clear_table [OF I1(1) t1 empty, folded s2_def]
    have tn: "t < unat (npage s1)" using tables_okD(6) [OF I1(1) t1] .
    have tref: "pp_ref s1 t \<noteq> 0" using referenced [OF I1(1,2) tn] t1 by blast
    have pp: "pa2page s2 (page2pa t) = Some t"
      by (rule pa2page_page2pa) (use tn tables_okD(1) [OF I1(1)] in \<open>simp_all add: s2_def\<close>)
    have f2: "free_ok s2 L" "t < unat (npage s2)" "pp_ref s2 t \<noteq> 0"
      using I1(3) tn tref by (simp_all add: s2_def free_ok_def)
    obtain s3 where s3: "page_decref t s2 = Some s3" "free_ok s3 L" "mem s3 = mem s2" "npage s3 = npage s2"
      "pp_ref s3 = (pp_ref s2)(t := pp_ref s2 t - 1)" using page_decref_free_ok [OF f2] by blast
    define s4 where "s4 = tlb_flush asid 0 s3"
    have v3: "ptab s4 = ptab s2" "maps s4 = maps s2" "tables_ok s4 = tables_ok s2" "refs s4 = refs s2"
      using view_cong [of s4 s2] s3(3,4) by (simp_all add: s4_def)
    have "refs_ok s4 D X"
      unfolding refs_ok_def
    proof (intro allI impI)
      fix q assume "q < unat (npage s4)"
      then have "unat (pp_ref s1 q) = refs s1 D q + X q"
        using refs_ok_refD [OF I1(2), of q] s3(4) by (simp add: s4_def s2_def)
      moreover have "pp_ref s4 = (pp_ref s1)(t := pp_ref s1 t - 1)" by (simp add: s4_def s3(5)) (simp add: s2_def)
      ultimately show "unat (pp_ref s4 q) = refs s4 D q + X q"
        using ct(5) [of q] unat_minus_1 [OF tref] by (auto simp: v3 split: if_splits)
    qed
    moreover have "free_ok s4 L" using s3(2) by (simp add: s4_def free_ok_def)
    ultimately have inv4: "vm_inv s4 D L X" using ct(4) by (simp add: vm_inv_def v3)
    have "free_pdes (page2pa d) asid (i # ps) s = free_pdes (page2pa d) asid ps s4"
      using e s1(1) pp s3(1) by (simp add: sl rd_ent Let_def s2_def s4_def)
    moreover have "npage s4 = npage s" using s3(4) s1(4) by (simp add: s4_def s2_def)
    moreover have "maps s4 D (a, b, c) = (if (a, b) = (d, of_nat i) then None else maps s D (a, b, c))" for a b c
    proof (cases "(a, b) = (d, of_nat i)")
      case True
      then show ?thesis using empty [of c] by (simp add: v3 ct(2))
    next
      case False
      then show ?thesis by (auto simp: v3 ct(2) s1(5) [rule_format])
    qed
    ultimately show ?thesis using inv4 ct(1) s1(3) by (intro exI [of _ s4]) (simp add: v3)
  qed
qed

lemma free_pdes_run:
  assumes "vm_inv s D L X" "d \<in> D" "set is \<subseteq> {..<unat (PDX UTOP)}"
  shows "\<exists>s'. free_pdes (page2pa d) asid is s = Some s' \<and> vm_inv s' D L X \<and> npage s' = npage s \<and>
     (\<forall>a b. ptab s' D (a, b) = (if a = d \<and> unat b \<in> set is then None else ptab s D (a, b))) \<and>
     (\<forall>a b c. maps s' D (a, b, c) = (if a = d \<and> unat b \<in> set is then None else maps s D (a, b, c)))"
  using assms
proof (induction "is" arbitrary: s)
  case Nil
  then show ?case by simp
next
  case (Cons i "is")
  have ib: "unat (of_nat i :: u32) = i" using Cons.prems(3) by (simp add: unat_of_nat user_slots)
  have ub: "unat b = i \<longleftrightarrow> b = of_nat i" for b :: u32 using ib by (auto simp: word_unat_eq_iff)
  obtain s1 where s1: "free_pdes (page2pa d) asid (i # is) s = free_pdes (page2pa d) asid is s1" "vm_inv s1 D L X"
    "npage s1 = npage s" "ptab s1 D = (ptab s D)((d, of_nat i) := None)"
    "\<forall>a b c. maps s1 D (a, b, c) = (if (a, b) = (d, of_nat i) then None else maps s D (a, b, c))"
    using free_pde_step [OF Cons.prems(1,2), of i asid "is"] Cons.prems(3) by auto
  obtain s' where s': "free_pdes (page2pa d) asid is s1 = Some s'" "vm_inv s' D L X" "npage s' = npage s1"
     "\<forall>a b. ptab s' D (a, b) = (if a = d \<and> unat b \<in> set is then None else ptab s1 D (a, b))"
     "\<forall>a b c. maps s' D (a, b, c) = (if a = d \<and> unat b \<in> set is then None else maps s1 D (a, b, c))"
    using Cons.IH [OF s1(2)] Cons.prems by auto
  have "ptab s' D (a, b) = (if a = d \<and> unat b \<in> set (i # is) then None else ptab s D (a, b))" for a b
    by (auto simp: s'(4) [rule_format] s1(4) ub)
  moreover have "maps s' D (a, b, c) = (if a = d \<and> unat b \<in> set (i # is) then None else maps s D (a, b, c))" for a b c
    by (auto simp: s'(5) [rule_format] s1(5) [rule_format] ub)
  ultimately show ?case using s1(1,3) s'(1-3) by (intro exI [of _ s']) simp
qed

section \<open>Freeing an environment\<close>

text \<open>Dropping the last reference of a frame that only the kernel holds.\<close>

lemma page_decref_kernel:
  assumes inv: "vm_inv s D L X" and p: "p < unat (npage s)" "0 < X p"
  shows "\<exists>s'. page_decref p s = Some s' \<and> vm_inv s' D L (X(p := X p - 1)) \<and> mem s' = mem s \<and> npage s' = npage s \<and>
     pp_ref s' = (pp_ref s)(p := pp_ref s p - 1)"
proof -
  note I = vm_inv_cases [OF inv]
  have r: "unat (pp_ref s p) = refs s D p + X p" using refs_ok_refD [OF I(2) p(1)] .
  then have ref: "pp_ref s p \<noteq> 0" using p(2) by auto
  obtain s' where s': "page_decref p s = Some s'" "free_ok s' L" "mem s' = mem s" "npage s' = npage s"
    "pp_ref s' = (pp_ref s)(p := pp_ref s p - 1)" using page_decref_free_ok [OF I(3) p(1) ref] by blast
  have "refs_ok s' D (X(p := X p - 1))"
    using I(2) r p(2) unat_minus_1 [OF ref] s'(4,5) view_cong(6) [OF s'(3,4)] by (simp add: refs_ok_def)
  then show ?thesis using s' I(1) view_cong(5) [OF s'(3,4)] by (simp add: vm_inv_def)
qed

lemma page_decref_dir:
  assumes inv: "vm_inv s D L X" and d: "d \<in> D" and empty: "\<And>i. ptab s D (d, i) = None"
  shows "\<exists>s'. page_decref d s = Some s' \<and> vm_inv s' (D - {d}) L X \<and> mem s' = mem s \<and> npage s' = npage s \<and>
     ptes s' (D - {d}) = ptes s D \<and> pp_ref s' = (pp_ref s)(d := pp_ref s d - 1)"
proof -
  note I = vm_inv_cases [OF inv]
  have dn: "d < unat (npage s)" using tables_okD(4) [OF I(1) d] .
  have ref: "pp_ref s d \<noteq> 0" using referenced [OF I(1,2) dn] d by blast
  obtain s' where s': "page_decref d s = Some s'" "free_ok s' L" "mem s' = mem s" "npage s' = npage s"
    "pp_ref s' = (pp_ref s)(d := pp_ref s d - 1)" using page_decref_free_ok [OF I(3) dn ref] by blast
  note dd = drop_dir [OF I(1) d empty] and v = view_cong [OF s'(3,4)]
  have "refs_ok s' (D - {d}) X"
    unfolding refs_ok_def
  proof (intro allI impI)
    fix q assume "q < unat (npage s')"
    then have "unat (pp_ref s q) = refs s D q + X q" using refs_ok_refD [OF I(2), of q] s'(4) by simp
    then show "unat (pp_ref s' q) = refs s' (D - {d}) q + X q"
      using dd(2) [of q] unat_minus_1 [OF ref] s'(5) by (auto simp: v split: if_splits)
  qed
  moreover have "ptes s' (D - {d}) = ptes s D" using view_drop_dir(2) [of s D d, OF empty] by (simp add: v)
  ultimately show ?thesis using s' dd(1) by (simp add: vm_inv_def v)
qed

section \<open>Invariants of the environment table\<close>

definition live :: "kstate \<Rightarrow> nat set" where
  "live s = {e. e < NENV \<and> env_status (envs s e) \<noteq> ENV_FREE}"

text \<open>\<open>dp e\<close> is the frame of the page directory of environment \<open>e\<close>.\<close>

definition space_inv :: "kstate \<Rightarrow> (nat \<Rightarrow> nat) \<Rightarrow> nat set \<Rightarrow> (nat \<Rightarrow> nat) \<Rightarrow> bool" where
  "space_inv s dp L X \<longleftrightarrow> (\<forall>e \<in> live s. env_pgdir (envs s e) = page2pa (dp e)) \<and> inj_on dp (live s)
     \<and> vm_inv (pm s) (dp ` live s) L X"

definition table_inv :: "kstate \<Rightarrow> nat list \<Rightarrow> nat list \<Rightarrow> bool" where
  "table_inv s fl sl \<longleftrightarrow> list_rep (env_free_list s) fl \<and> set fl = {e. e < NENV \<and> env_status (envs s e) = ENV_FREE}
     \<and> tailq_rep (env_sched_list s) sl \<and> set sl = {e. e < NENV \<and> env_status (envs s e) = ENV_RUNNABLE}"

text \<open>The copy of the page directory that \<^verbatim>\<open>do_tlb_miss\<close> makes for the user's view, when there is one.\<close>

definition copy_ok :: "kstate \<Rightarrow> nat \<Rightarrow> nat \<Rightarrow> (nat \<Rightarrow> nat) \<Rightarrow> bool" where
  "copy_ok s e c X \<longleftrightarrow> env_pgdir_copy_pa (envs s e) = 0
     \<or> env_pgdir_copy_pa (envs s e) = page2pa c \<and> c < unat (npage (pm s)) \<and> pp_ref (pm s) c = 1 \<and> X c = 1"

lemma page2pa_PADDR: "p < page_bound \<Longrightarrow> PADDR (page2pa p) = Some (page2pa p)"
  by (simp add: PADDR_def word_less_nat_alt page2pa_unat ULIM_def)

lemma page2pa_nonzero: "p < page_bound \<Longrightarrow> page2pa p \<noteq> 0"
  using page2pa_unat [of p] by (auto simp: unat_eq_zero [symmetric])

lemma upd_env_fields [simp]:
  "pm (upd_env e f s) = pm s" "curenv (upd_env e f s) = curenv s" "env_free_list (upd_env e f s) = env_free_list s"
  "env_sched_list (upd_env e f s) = env_sched_list s" "envs (upd_env e f s) = (envs s)(e := f (envs s e))"
  "asid_bitmap (upd_env e f s) = asid_bitmap s" "disk (upd_env e f s) = disk s" "kstack_tf (upd_env e f s) = kstack_tf s"
  "cur_pgdir (upd_env e f s) = cur_pgdir s" "sched_count (upd_env e f s) = sched_count s"
  "mkenvid_i (upd_env e f s) = mkenvid_i s" "kernel_pgdir (upd_env e f s) = kernel_pgdir s"
  "base_pgdir (upd_env e f s) = base_pgdir s"
  by (simp_all add: upd_env_def)

text \<open>The part of \<^verbatim>\<open>env_free\<close> that gives the memory of the environment back.\<close>

lemma release_space:
  assumes inv: "vm_inv s D L X" and d: "d \<in> D"
    and copy: "cpa = 0 \<or> cpa = page2pa c \<and> c < unat (npage s) \<and> pp_ref s c = 1 \<and> X c = 1"
  shows "\<exists>s1 s2 s3. free_pdes (page2pa d) asid [0..<unat (PDX UTOP)] s = Some s1 \<and>
     (if cpa \<noteq> 0 then do { c \<leftarrow> pa2page s1 cpa; if pp_ref s1 c \<noteq> 1 then None else page_decref c s1 } else Some s1) = Some s2 \<and>
     pa2page s2 (page2pa d) = Some d \<and> page_decref d s2 = Some s3 \<and>
     vm_inv s3 (D - {d}) L (if cpa \<noteq> 0 then X(c := 0) else X) \<and>
     (\<forall>k. maps s3 (D - {d}) k = (if fst k = d then None else maps s D k))"
proof -
  have sub: "set [0..<unat (PDX UTOP)] \<subseteq> {..<unat (PDX UTOP)}" by auto
  obtain s1 where s1: "free_pdes (page2pa d) asid [0..<unat (PDX UTOP)] s = Some s1" "vm_inv s1 D L X" "npage s1 = npage s"
     "\<forall>a b. ptab s1 D (a, b) = (if a = d \<and> unat b \<in> set [0..<unat (PDX UTOP)] then None else ptab s D (a, b))"
     "\<forall>a b c. maps s1 D (a, b, c) = (if a = d \<and> unat b \<in> set [0..<unat (PDX UTOP)] then None else maps s D (a, b, c))"
    using free_pdes_run [OF inv d sub, of asid] by blast
  note I1 = vm_inv_cases [OF s1(2)]
  have e1: "ptab s1 D (d, i) = None" for i
    using s1(4) ptab_dom [of s D d i] by (cases "ptab s D (d, i)") (auto simp: word_less_nat_alt)
  have m1: "maps s1 D k = (if fst k = d then None else maps s D k)" for k
  proof (cases k)
    case (fields a b c)
    show ?thesis
    proof (cases "a = d")
      case True
      then show ?thesis using e1 [of b] fields by (simp add: maps_def ptes_def)
    qed (simp add: fields s1(5))
  qed
  let ?X = "if cpa \<noteq> 0 then X(c := 0) else X"
  obtain s2 where s2: "(if cpa \<noteq> 0 then do { c \<leftarrow> pa2page s1 cpa; if pp_ref s1 c \<noteq> 1 then None else page_decref c s1 } else Some s1) = Some s2"
    "vm_inv s2 D L ?X" "mem s2 = mem s1" "npage s2 = npage s1"
  proof (cases "cpa = 0")
    case True
    then show thesis using that [of s1] s1(2) by simp
  next
    case False
    then have c: "cpa = page2pa c" "c < unat (npage s)" "pp_ref s c = 1" "X c = 1" using copy by auto
    note I = vm_inv_cases [OF inv]
    have "refs s D c = 0" using refs_ok_refD [OF I(2) c(2)] c(3,4) by simp
    then have "maps s D k \<noteq> Some c" "ptab s D l \<noteq> Some c" "c \<notin> D" for k l
      using finite_views [OF I(1), of c] by (auto simp: refs_def split: if_splits)
    then have "maps s1 D k \<noteq> Some c" "ptab s1 D l \<noteq> Some c" for k l
      using s1(4) by (simp_all add: m1, cases l, simp)
    then have "refs s1 D c = 0" using \<open>c \<notin> D\<close> by (simp add: refs_def)
    then have "unat (pp_ref s1 c) = 1" using refs_ok_refD [OF I1(2), of c] c(2,4) s1(3) by simp
    then have r: "pp_ref s1 c = 1" by (metis unat_1 word_unat_eq_iff)
    have cn: "c < unat (npage s1)" using c(2) s1(3) by simp
    obtain s2 where s2: "page_decref c s1 = Some s2" "vm_inv s2 D L (X(c := X c - 1))" "mem s2 = mem s1" "npage s2 = npage s1"
      using page_decref_kernel [OF s1(2) cn] c(4) by auto
    have "pa2page s1 cpa = Some c" using pa2page_page2pa [OF cn tables_okD(1) [OF I1(1)]] c(1) by simp
    then show thesis using that [of s2] s2 False r c(4) by simp
  qed
  note v2 = view_cong [OF s2(3,4)]
  have e2: "ptab s2 D (d, i) = None" for i using e1 by (simp add: v2)
  have dn: "d < unat (npage s2)" using tables_okD(4) [OF vm_inv_cases(1) [OF s2(2)] d] .
  have pd: "pa2page s2 (page2pa d) = Some d"
    by (rule pa2page_page2pa [OF dn tables_okD(1) [OF vm_inv_cases(1) [OF s2(2)]]])
  obtain s3 where s3: "page_decref d s2 = Some s3" "vm_inv s3 (D - {d}) L ?X" "mem s3 = mem s2" "npage s3 = npage s2"
    using page_decref_dir [OF s2(2) d e2] by blast
  have "maps s3 (D - {d}) k = (if fst k = d then None else maps s D k)" for k
    using view_drop_dir(3) [of s2 D d, OF e2] m1 by (simp add: view_cong [OF s3(3,4)] v2)
  with s1(1) s2(1) pd s3(1,2) show ?thesis by blast
qed

lemma asid_free_fields [simp]: "pm (asid_free a s) = pm s" "envs (asid_free a s) = envs s"
  "env_free_list (asid_free a s) = env_free_list s" "env_sched_list (asid_free a s) = env_sched_list s"
  "curenv (asid_free a s) = curenv s" "disk (asid_free a s) = disk s"
  by (simp_all add: asid_free_def Let_def)

lemma env_free_run:
  assumes sp: "space_inv s dp L X" and tb: "table_inv s fl sl"
    and e: "e < NENV" "env_status (envs s e) = ENV_RUNNABLE" and copy: "copy_ok s e c X"
  shows "\<exists>s' X'. env_free e s = Some s' \<and> space_inv s' dp L X' \<and> table_inv s' (e # fl) (remove1 e sl) \<and>
     live s' = live s - {e} \<and> curenv s' = curenv s \<and> disk s' = disk s \<and>
     (\<forall>k. maps (pm s') (dp ` live s') k = (if fst k = dp e then None else maps (pm s) (dp ` live s) k)) \<and>
     (\<forall>x. x \<noteq> e \<longrightarrow> envs s' x = envs s x) \<and> env_status (envs s' e) = ENV_FREE"
proof -
  let ?D = "dp ` live s"
  let ?en = "envs s e"
  have lv: "e \<in> live s" using e by (simp add: live_def status_defs)
  have inv: "vm_inv (pm s) ?D L X" and pg: "env_pgdir ?en = page2pa (dp e)" and inj: "inj_on dp (live s)"
    using sp lv by (simp_all add: space_inv_def)
  have d: "dp e \<in> ?D" using lv by blast
  have db: "dp e < page_bound" using tables_okD(3) [OF vm_inv_cases(1) [OF inv] d] .
  obtain p1 p2 p3 where p: "free_pdes (page2pa (dp e)) (env_asid ?en) [0..<unat (PDX UTOP)] (pm s) = Some p1"
     "(if env_pgdir_copy_pa ?en \<noteq> 0 then do { c \<leftarrow> pa2page p1 (env_pgdir_copy_pa ?en); if pp_ref p1 c \<noteq> 1 then None else page_decref c p1 } else Some p1) = Some p2"
     "pa2page p2 (page2pa (dp e)) = Some (dp e)" "page_decref (dp e) p2 = Some p3"
     "vm_inv p3 (?D - {dp e}) L (if env_pgdir_copy_pa ?en \<noteq> 0 then X(c := 0) else X)"
     "\<forall>k. maps p3 (?D - {dp e}) k = (if fst k = dp e then None else maps (pm s) ?D k)"
    using release_space [OF inv d, of "env_pgdir_copy_pa ?en" c "env_asid ?en"] copy by (auto simp: copy_ok_def)
  have t: "list_rep (env_free_list s) fl" "set fl = {e. e < NENV \<and> env_status (envs s e) = ENV_FREE}"
    "tailq_rep (env_sched_list s) sl" "set sl = {e. e < NENV \<and> env_status (envs s e) = ENV_RUNNABLE}"
    using tb by (simp_all add: table_inv_def)
  have "e \<in> set sl" "e \<notin> set fl" using e t by (simp_all add: status_defs)
  then obtain q where q: "TAILQ_REMOVE (env_sched_list s) e = Some q" "tailq_rep q (remove1 e sl)"
    using tailq_rep_remove [OF t(3)] by blast
  have fl': "list_rep (LIST_INSERT_HEAD (env_free_list s) e) (e # fl)"
    using list_rep_insert_head [OF t(1) \<open>e \<notin> set fl\<close>] .
  define p4 where "p4 = tlb_flush (env_asid ?en) 0 p3"
  define s' where "s' = (asid_free (env_asid ?en) s)\<lparr>pm := p4, envs := (envs s)(e := ?en\<lparr>env_status := ENV_FREE\<rparr>),
     env_free_list := LIST_INSERT_HEAD (env_free_list s) e, env_sched_list := q\<rparr>"
  have run: "env_free e s = Some s'"
    using p(1-4) q(1) pg page2pa_PADDR [OF db]
    by (simp add: env_free_def Let_def s'_def p4_def asid_free_def upd_env_def)
  have lv': "live s' = live s - {e}" by (auto simp: live_def s'_def status_defs)
  have D': "dp ` live s' = ?D - {dp e}" using inj lv lv' by (auto simp: inj_on_def)
  have v4: "maps p4 = maps p3" using view_cong [of p4 p3] by (simp add: p4_def)
  have "vm_inv p4 (?D - {dp e}) L (if env_pgdir_copy_pa ?en \<noteq> 0 then X(c := 0) else X)"
    using p(5) vm_inv_cong [of p4 p3] by (simp add: p4_def)
  then have "space_inv s' dp L (if env_pgdir_copy_pa ?en \<noteq> 0 then X(c := 0) else X)"
    using sp lv' D' inj_on_subset [OF inj] by (auto simp: space_inv_def s'_def)
  moreover have "set (remove1 e sl) = set sl - {e}" using tq.rep_distinct [OF t(3)] by simp
  then have "table_inv s' (e # fl) (remove1 e sl)"
    using fl' q(2) t e by (auto simp: table_inv_def s'_def status_defs)
  ultimately show ?thesis
    using run lv' p(6) v4 D' by (intro exI [of _ s'] exI) (auto simp: s'_def)
qed
end
