(* ===== verification/Mos_Env_Alloc.thy ===== *)
theory Mos_Env_Alloc
  imports Mos_Env_Free
begin

text \<open>
  \<^verbatim>\<open>env_alloc\<close> and what it calls: ASIDs, environment ids, and \<^verbatim>\<open>env_setup_vm\<close>, which copies the kernel's directory and
  the template into a fresh frame.  The case rule \<open>env_alloc_cases\<close> has one case for each way the function returns,
  the two in which it does not do what its comment says included.
\<close>


declare split_paired_All [simp del] split_paired_Ex [simp del]

section \<open>Copying directory slots\<close>

lemma slot_byte_unat:
  assumes "d < page_bound" "l < 1024" "k < 4"
  shows "unat (slot d l + of_nat k) = 4096 * (d + 0x80200) + 4 * unat l + k"
proof -
  have "unat l < 1024" using assms(2) by (simp add: word_less_nat_alt)
  then show ?thesis
    using assms by (subst unat_add_no_overflow) (simp_all add: slot_unat unat_of_nat page_bound_def)
qed

lemma slot_end_unat:
  assumes "d < page_bound" "unat i + unat n \<le> 1024" "i < 1024"
  shows "unat (slot d i + 4 * n) = 4096 * (d + 0x80200) + 4 * unat i + 4 * unat n"
proof -
  have "unat (4 * n) = 4 * unat n" using assms(2) by (simp add: unat_word_ariths)
  then show ?thesis
    using assms by (subst unat_add_no_overflow) (simp_all add: slot_unat page_bound_def)
qed

lemma no_overlap_slots:
  assumes "d < page_bound" "q < page_bound" "d \<noteq> q" "i < 1024" "unat i + unat n \<le> 1024"
  shows "no_overlap (slot d i) (slot q i) (slot d i + 4 * n)"
  unfolding no_overlap_def
proof (intro allI impI notI)
  fix a b assume ab: "slot d i \<le> a \<and> a < slot d i + 4 * n \<and> slot d i \<le> b \<and> b < slot d i + 4 * n"
    and eq: "slot q i + (a - slot d i) = b"
  note u = slot_unat [OF assms(1,4)] slot_end_unat [OF assms(1,5,4)] slot_unat [OF assms(2,4)]
  have off: "unat (a - slot d i) = unat a - unat (slot d i)" using ab by (simp add: unat_sub)
  have a: "unat (slot d i) \<le> unat a" "unat a < unat (slot d i) + 4 * unat n"
    "unat (slot d i) \<le> unat b" "unat b < unat (slot d i) + 4 * unat n"
    using ab by (simp_all add: word_le_nat_alt word_less_nat_alt u)
  have "unat (slot q i + (a - slot d i)) = unat (slot q i) + (unat a - unat (slot d i))"
    using a assms by (subst unat_add_no_overflow) (simp_all add: off u page_bound_def)
  with eq have "unat b = 4096 * (q + 0x80200) + 4 * unat i + (unat a - unat (slot d i))" by (simp add: u)
  with a assms(3,5) show False unfolding u by (cases d q rule: linorder_cases) auto
qed

lemma copy_slots:
  assumes "d < page_bound" "q < page_bound" "d \<noteq> q" "i < 1024" "unat i + unat n \<le> 1024"
  shows "\<exists>m'. memcpy m (slot d i) (slot q i) (4 * n) = Some m' \<and>
     (\<forall>e l. e < page_bound \<and> l < 1024 \<longrightarrow>
        ent m' e l = (if e = d \<and> i \<le> l \<and> unat l < unat i + unat n then ent m q l else ent m e l))"
proof -
  have n4: "unat (4 * n) = 4 * unat n" using assms(5) by (simp add: unat_word_ariths)
  let ?m = "copied m (slot d i) (slot q i) (slot d i + 4 * n)"
  have "memcpy m (slot d i) (slot q i) (4 * n) = Some ?m"
    using assms n4 no_overlap_slots [OF assms]
    by (intro memcpy_copied) (simp_all add: slot_unat page_bound_def)
  moreover have "ent ?m e l = (if e = d \<and> i \<le> l \<and> unat l < unat i + unat n then ent m q l else ent m e l)"
    if el: "e < page_bound" "l < 1024" for e l
  proof -
    have l: "unat l < 1024" using el(2) by (simp add: word_less_nat_alt)
    have inside: "(slot d i \<le> slot e l + of_nat k \<and> slot e l + of_nat k < slot d i + 4 * n)
        = (e = d \<and> i \<le> l \<and> unat l < unat i + unat n)" if "k < 4" for k
      using that l assms(5) unfolding word_le_nat_alt word_less_nat_alt
        slot_unat [OF assms(1,4)] slot_end_unat [OF assms(1,5,4)] slot_byte_unat [OF el that]
      by (cases e d rule: linorder_cases) auto
    have src: "slot q i + (slot d l + of_nat k - slot d i) = slot q l + of_nat k" for k
      by (simp add: slot_def algebra_simps)
    have "?m (slot e l + of_nat k) = (if e = d \<and> i \<le> l \<and> unat l < unat i + unat n then m (slot q l + of_nat k) else m (slot e l + of_nat k))"
      if "k < 4" for k
    proof (cases "e = d \<and> i \<le> l \<and> unat l < unat i + unat n")
      case True
      then have "?m (slot e l + of_nat k) = m (slot q i + (slot d l + of_nat k - slot d i))"
        using inside [OF that] by (simp add: copied_def)
      then show ?thesis using True unfolding src by simp
    next
      case False
      then show ?thesis using inside [OF that] by (auto simp: copied_def)
    qed
    from this [of 0] this [of 1] this [of 2] this [of 3] show ?thesis by (simp add: ent_def ld32_def)
  qed
  ultimately show ?thesis by blast
qed

section \<open>Setting up an address space\<close>

text \<open>The kernel's own directory and the template lie in frames that the kernel holds, and the kernel's directory
  maps nothing in the user part.\<close>

definition boot_dirs :: "kstate \<Rightarrow> nat \<Rightarrow> nat \<Rightarrow> bool" where
  "boot_dirs s kp b \<longleftrightarrow> kernel_pgdir s = page2pa kp \<and> base_pgdir s = page2pa b
     \<and> kp < unat (npage (pm s)) \<and> b < unat (npage (pm s)) \<and> pp_ref (pm s) kp \<noteq> 0 \<and> pp_ref (pm s) b \<noteq> 0
     \<and> (\<forall>i < PDX UTOP. \<not> has (ent (mem (pm s)) kp i) PTE_V)"

lemma env_setup_vm_cases:
  assumes inv: "vm_inv (pm s) D L X" and bd: "boot_dirs s kp b"
  obtains (fail) "env_setup_vm e s = Some (Inl E_NO_MEM, s)"
      "\<And>p. p < unat (npage (pm s)) \<Longrightarrow> pp_ref (pm s) p = 0 \<Longrightarrow> p \<in> L"
  | (ok) d p' where "env_setup_vm e s = Some (Inr (), s\<lparr>pm := p', envs := (envs s)(e := (envs s e)\<lparr>env_pgdir := page2pa d, env_pgdir_copy_pa := 0\<rparr>)\<rparr>)"
      "d \<notin> D" "pp_ref (pm s) d = 0" "d < unat (npage (pm s))" "vm_inv p' (insert d D) L X" "npage p' = npage (pm s)"
      "ptes p' (insert d D) = ptes (pm s) D" "\<And>i. i \<in> {509, 510} \<Longrightarrow> ent (mem p') d i = ent (mem (pm s)) b i"
      "d \<notin> L" "\<And>q i. q < page_bound \<Longrightarrow> q \<noteq> d \<Longrightarrow> i < 1024 \<Longrightarrow> ent (mem p') q i = ent (mem (pm s)) q i"
proof (cases rule: page_alloc_cases [OF inv])
  case 1
  show thesis by (rule fail) (use 1 in \<open>simp_all add: env_setup_vm_def\<close>)
next
  case (2 d p1)
  note I = vm_inv_cases [OF inv]
  have np: "npage p1 = npage (pm s)" using 2(11) by (simp add: alloc_frame_def)
  note I1 = vm_inv_cases [OF 2(5)]
  have nb: "unat (npage (pm s)) \<le> page_bound" using tables_okD(1) [OF I(1)] .
  have db: "d < page_bound" "kp < page_bound" "b < page_bound" "d \<noteq> kp" "d \<noteq> b"
    using 2(2,3) bd nb by (auto simp: boot_dirs_def)
  define p2 where "p2 = set_ref p1 d (pp_ref p1 d + 1)"
  have kva: "page2kva p2 d = Some (page2pa d)"
    by (rule page2kva_page2pa) (use 2(2) np nb in \<open>simp_all add: p2_def\<close>)
  obtain m1 where m1: "memcpy (mem p1) (slot d 0) (slot kp 0) (4 * 1024) = Some m1"
    "\<forall>e l. e < page_bound \<and> l < 1024 \<longrightarrow> ent m1 e l = (if e = d then ent (mem p1) kp l else ent (mem p1) e l)"
    using copy_slots [OF db(1,2,4), of 0 1024 "mem p1"] by (auto simp: word_less_nat_alt)
  have nn: "(PDX UVPT - PDX UTOP) = 2" by (simp add: user_slots)
  obtain m2 where m2: "memcpy m1 (slot d 509) (slot b 509) (4 * 2) = Some m2"
    "\<forall>e l. e < page_bound \<and> l < 1024 \<longrightarrow> ent m2 e l = (if e = d \<and> 509 \<le> l \<and> unat l < 511 then ent m1 b l else ent m1 e l)"
    using copy_slots [OF db(1,3,5), of 509 2 m1] by (auto simp: word_less_nat_alt)
  define p3 where "p3 = p2\<lparr>mem := m2\<rparr>"
  have run: "env_setup_vm e s = Some (Inr (), s\<lparr>pm := p3, envs := (envs s)(e := (envs s e)\<lparr>env_pgdir := page2pa d, env_pgdir_copy_pa := 0\<rparr>)\<rparr>)"
    using 2(1) kva m1(1) m2(1) bd
    by (simp add: env_setup_vm_def Let_def p2_def p3_def slot_def BY2PG_def nn user_slots boot_dirs_def upd_env_def)
  have ent3: "ent (mem p3) e l = (if e = d then (if 509 \<le> l \<and> unat l < 511 then ent (mem p1) b l else ent (mem p1) kp l) else ent (mem p1) e l)"
    if "e < page_bound" "l < 1024" for e l
    using m1(2) m2(2) that db by (simp add: p3_def)
  have un: "d \<notin> D" "ptab (pm s) D k \<noteq> Some d" "maps (pm s) D j \<noteq> Some d" for k j
    using unreferenced [OF I(1,2) 2(2,3)] by auto
  have np3: "npage p3 = npage (pm s)" using np by (simp add: p3_def p2_def)
  have dirs: "ent (mem p3) e l = ent (mem p1) e l" if "e \<in> D" "l < PDX UTOP" for e l
    using ent3 [OF tables_okD(3) [OF I(1) that(1)] user_slot_less [OF that(2)]] un(1) that(1) by auto
  have tab: "ptab p3 D = ptab p1 D" by (rule ptab_eqI) (simp_all add: np3 np dirs)
  have pte: "ptes p3 D = ptes p1 D"
    by (rule ptes_eqI [OF tab]) (use ent3 tables_okD(5) [OF I1(1)] un(2) 2(6) in auto)
  note ok3 = tables_ok_same [OF I1(1) _ tab pte dirs]
  have t3: "tables_ok p3 D" "refs p3 D = refs p1 D" using ok3 np3 np by simp_all
  have mp: "maps p3 D = maps (pm s) D"
    using maps_npage [of p3 "pm s" D] pte 2(7) np3 by simp
  have "\<not> has (ent (mem p3) d i) PTE_V" if "i < PDX UTOP" for i
  proof -
    have "\<not> (509 \<le> i)" using that by (simp add: user_slots not_le)
    moreover have "ent (mem p1) kp i = ent (mem (pm s)) kp i"
      using 2(12) db ent_filled [OF db(1,2) user_slot_less [OF that], of "mem (pm s)"] by simp
    ultimately show ?thesis using ent3 [OF db(1) user_slot_less [OF that]] bd that by (simp add: boot_dirs_def)
  qed
  note ad = add_dir [OF t3(1) un(1) _ this]
  have ad: "ptes p3 (insert d D) = ptes p3 D" "tables_ok p3 (insert d D)"
    "\<And>q. refs p3 (insert d D) q = refs p3 D q + (if q = d then 1 else 0)"
    using ad un(2,3) 2(2,6) by (simp_all add: np3 tab mp)
  have pr: "pp_ref p3 = (pp_ref (pm s))(d := 1)" using 2(3,9) by (simp add: p3_def p2_def)
  have "refs_ok p3 (insert d D) X"
    unfolding refs_ok_def
  proof (intro allI impI)
    fix q assume "q < unat (npage p3)"
    then have "unat (pp_ref (pm s) q) = refs p1 D q + X q"
      using refs_ok_refD [OF I1(2), of q] np3 np 2(9) by simp
    then show "unat (pp_ref p3 q) = refs p3 (insert d D) q + X q"
      using 2(3) by (auto simp: pr ad(3) t3(2))
  qed
  moreover have "free_ok p3 L"
    using I1(3) 2(3,4,9) pr np np3 by (auto simp: free_ok_def p3_def p2_def elim!: ex_forward)
  ultimately have inv3: "vm_inv p3 (insert d D) L X" using ad(2) by (simp add: vm_inv_def)
  have slots: "ent (mem p3) d i = ent (mem (pm s)) b i" if "i \<in> {509, 510}" for i
  proof -
    have i: "i < 1024" "509 \<le> i \<and> unat i < 511" using that by auto
    then have "ent (mem p3) d i = ent (mem p1) b i" using ent3 [OF db(1) i(1)] by simp
    then show ?thesis using 2(12) db ent_filled [OF db(1,3) i(1), of "mem (pm s)"] by simp
  qed
  have other: "ent (mem p3) q i = ent (mem (pm s)) q i" if "q < page_bound" "q \<noteq> d" "i < 1024" for q i
    using ent3 [OF that(1,3)] 2(12) ent_filled [OF db(1) that(1,3), of "mem (pm s)"] that(2) by simp
  show thesis by (rule ok [OF run un(1) 2(3,2) inv3 np3]) (use ad(1) pte 2(4,7) slots other in simp_all)
qed

section \<open>ASIDs\<close>

lemma asid_used_bit: "asid_used bm i \<longleftrightarrow> bit (bm (i div 32)) (i mod 32)"
  unfolding asid_used_def by (simp add: push_bit_eq_mult and_exp_eq_0_iff_not_bit)

definition used_asids :: "kstate \<Rightarrow> nat set" where
  "used_asids s = {i. i < NASID \<and> asid_used (asid_bitmap s) i}"

lemma div_mod_eq_iff: "i div n = j div n \<and> i mod n = j mod n \<longleftrightarrow> i = (j :: nat)"
  by (metis div_mult_mod_eq)

lemma asid_set_bit:
  "asid_used (bm(i div 32 := bm (i div 32) OR push_bit (i mod 32) 1)) j \<longleftrightarrow> i = j \<or> asid_used bm j"
  using div_mod_eq_iff [of i 32 j]
  by (auto simp: asid_used_bit bit_simps push_bit_eq_mult)

lemma asid_clear_bit:
  "asid_used (bm(i div 32 := bm (i div 32) AND NOT (push_bit (i mod 32) 1))) j \<longleftrightarrow> i \<noteq> j \<and> asid_used bm j"
  using div_mod_eq_iff [of i 32 j]
  by (auto simp: asid_used_bit bit_simps push_bit_eq_mult)

lemma asid_alloc_from_cases:
  "(\<forall>k. i \<le> k \<and> k < NASID \<longrightarrow> asid_used (asid_bitmap s) k) \<and> asid_alloc_from i s = (Inl E_NO_FREE_ENV, s)
   \<or> (\<exists>k b. i \<le> k \<and> k < NASID \<and> \<not> asid_used (asid_bitmap s) k \<and> (\<forall>j. i \<le> j \<and> j < k \<longrightarrow> asid_used (asid_bitmap s) j) \<and>
        asid_alloc_from i s = (Inr (of_nat k), s\<lparr>asid_bitmap := b\<rparr>) \<and> (\<forall>j. asid_used b j \<longleftrightarrow> k = j \<or> asid_used (asid_bitmap s) j))"
proof (induction i s rule: asid_alloc_from.induct)
  case (1 i s)
  show ?case
  proof (cases "i < NASID")
    case False
    then show ?thesis by (auto simp: asid_alloc_from.simps)
  next
    case i: True
    show ?thesis
    proof (cases "asid_used (asid_bitmap s) i")
      case False
      then have "asid_alloc_from i s = (Inr (of_nat i),
          s\<lparr>asid_bitmap := (asid_bitmap s)(i div 32 := asid_bitmap s (i div 32) OR push_bit (i mod 32) 1)\<rparr>)"
        using i by (subst asid_alloc_from.simps) simp
      then show ?thesis using False i asid_set_bit by (intro disjI2 exI [of _ i]) auto
    next
      case True
      then have eq: "asid_alloc_from i s = asid_alloc_from (Suc i) s" using i by (subst asid_alloc_from.simps) simp
      have ge: "i \<le> k \<longleftrightarrow> k = i \<or> Suc i \<le> k" for k by auto
      show ?thesis using "1.IH" [OF i] True unfolding eq ge by auto
    qed
  qed
qed

lemma asid_alloc_cases:
  obtains (fail) "asid_alloc s = (Inl E_NO_FREE_ENV, s)" "used_asids s = {..<NASID}"
  | (ok) k b where "asid_alloc s = (Inr (of_nat k), s\<lparr>asid_bitmap := b\<rparr>)" "k < NASID" "k \<notin> used_asids s"
      "\<And>j. j < k \<Longrightarrow> j \<in> used_asids s" "used_asids (s\<lparr>asid_bitmap := b\<rparr>) = insert k (used_asids s)"
proof -
  from asid_alloc_from_cases [of 0 s] show thesis
  proof
    assume "(\<forall>k. 0 \<le> k \<and> k < NASID \<longrightarrow> asid_used (asid_bitmap s) k) \<and> asid_alloc_from 0 s = (Inl E_NO_FREE_ENV, s)"
    then show thesis by (intro fail) (auto simp: asid_alloc_def used_asids_def)
  next
    assume "\<exists>k b. 0 \<le> k \<and> k < NASID \<and> \<not> asid_used (asid_bitmap s) k \<and> (\<forall>j. 0 \<le> j \<and> j < k \<longrightarrow> asid_used (asid_bitmap s) j) \<and>
        asid_alloc_from 0 s = (Inr (of_nat k), s\<lparr>asid_bitmap := b\<rparr>) \<and> (\<forall>j. asid_used b j \<longleftrightarrow> k = j \<or> asid_used (asid_bitmap s) j)"
    then obtain k b where "k < NASID" "\<not> asid_used (asid_bitmap s) k" "\<forall>j. j < k \<longrightarrow> asid_used (asid_bitmap s) j"
      "asid_alloc_from 0 s = (Inr (of_nat k), s\<lparr>asid_bitmap := b\<rparr>)" "\<forall>j. asid_used b j \<longleftrightarrow> k = j \<or> asid_used (asid_bitmap s) j"
      by blast
    then show thesis by (intro ok [of k b]) (auto simp: asid_alloc_def used_asids_def)
  qed
qed

lemma asid_free_used:
  assumes "k < NASID"
  shows "used_asids (asid_free (of_nat k) s) = used_asids s - {k}"
proof -
  have k: "k < 64" using assms by (simp add: NASID_def)
  have "unat (of_nat k :: u32) = k" using k by (simp add: unat_of_nat)
  then have "unat (drop_bit 5 (of_nat k :: u32)) = k div 32"
    by (simp add: unat_drop_bit_eq) (simp add: drop_bit_eq_div)
  moreover have m: "(31 :: u32) = mask 5" by (simp add: mask_eq_exp_minus_1)
  have "unat (of_nat k AND (31 :: u32)) = k mod 32"
    using k unfolding m by (simp add: unat_mod unat_of_nat take_bit_eq_mod flip: take_bit_eq_mask)
  ultimately show ?thesis using asid_clear_bit [of "asid_bitmap s" k]
    by (auto simp: used_asids_def asid_free_def Let_def)
qed

text \<open>ASIDs as a pool: an allocated ASID is a small number, and \<^verbatim>\<open>asid_free\<close> always returns.\<close>

definition asid_alloc_nat :: "kstate \<Rightarrow> ((err + nat) \<times> kstate) option" where
  "asid_alloc_nat s = Some (map_prod (map_sum id unat) id (asid_alloc s))"

definition asid_free_nat :: "nat \<Rightarrow> kstate \<Rightarrow> kstate option" where
  "asid_free_nat k s = Some (asid_free (of_nat k) s)"

interpretation asid_pool: resource_pool "\<lambda>s. {..<NASID} - used_asids s" NASID E_NO_FREE_ENV asid_alloc_nat asid_free_nat
proof
  fix s :: kstate
  have sub: "used_asids s \<subseteq> {..<NASID}" by (auto simp: used_asids_def)
  have small: "unat (of_nat k :: u32) = k" if "k < NASID" for k using that by (simp add: NASID_def unat_of_nat)
  show "{..<NASID} - used_asids s \<subseteq> {..<NASID}" by auto
  show "asid_alloc_nat s = Some (Inl E_NO_FREE_ENV, s)" if "{..<NASID} - used_asids s = {}"
    by (rule asid_alloc_cases [of s]) (use that in \<open>auto simp: asid_alloc_nat_def\<close>)
  show "\<exists>k s'. asid_alloc_nat s = Some (Inr k, s') \<and> k \<in> {..<NASID} - used_asids s \<and>
      {..<NASID} - used_asids s' = {..<NASID} - used_asids s - {k}" if "{..<NASID} - used_asids s \<noteq> {}"
    by (rule asid_alloc_cases [of s]) (use that small in \<open>auto simp: asid_alloc_nat_def\<close>)
  show "\<exists>s'. asid_free_nat k s = Some s' \<and> {..<NASID} - used_asids s' = insert k ({..<NASID} - used_asids s)"
    if "k < NASID" "k \<notin> {..<NASID} - used_asids s" for k
    using that asid_free_used [OF that(1), of s] by (auto simp: asid_free_nat_def)
qed

section \<open>Environment ids\<close>

lemma ENVX_mkenvid:
  assumes "e < NENV"
  shows "ENVX (fst (mkenvid e s)) = e"
proof -
  have e: "(of_nat e :: u32) < 1024" "unat (of_nat e :: u32) = e"
    using assms by (simp_all add: NENV_def word_less_nat_alt unat_of_nat)
  have m: "(of_nat NENV - 1 :: u32) = 0x3FF" by (simp add: NENV_def)
  have "fst (mkenvid e s) AND 0x3FF = of_nat e"
  proof (rule bit_word_eqI)
    fix n assume "n < LENGTH(32)"
    show "bit (fst (mkenvid e s) AND 0x3FF) n = bit (of_nat e :: u32) n"
      using small_bits [OF e(1), of n] bit_3ff [of n]
      by (auto simp: mkenvid_def LOG2NENV_def bit_and_iff bit_or_iff bit_push_bit_iff)
  qed
  then show ?thesis by (simp add: ENVX_def m e(2))
qed

lemma mkenvid_nonzero:
  assumes "take_bit 21 (mkenvid_i s + 1) \<noteq> 0"
  shows "fst (mkenvid e s) \<noteq> 0"
proof
  assume z: "fst (mkenvid e s) = 0"
  obtain n where n: "n < 21" "bit (mkenvid_i s + 1) n"
    using assms by (auto simp: bit_eq_iff bit_take_bit_iff)
  have "bit (fst (mkenvid e s)) (11 + n)"
    using n by (simp add: mkenvid_def LOG2NENV_def bit_or_iff bit_push_bit_iff)
  with z show False by simp
qed

section \<open>Allocating an environment\<close>

lemma env_alloc_cases:
  assumes inv: "vm_inv (pm s) D L X" and bd: "boot_dirs s kp b" and fl: "list_rep (env_free_list s) fl"
  obtains (empty) "fl = []" "env_alloc parent s = Some (Inl E_NO_FREE_ENV, s)"
  | (no_mem) e fl' k s' where "fl = e # fl'" "env_alloc parent s = Some (Inr e, s')" "pm s' = pm s"
      "env_pgdir (envs s' e) = env_pgdir (envs s e)" "list_rep (env_free_list s') fl'" "k \<notin> used_asids s"
      "\<And>p. p < unat (npage (pm s)) \<Longrightarrow> pp_ref (pm s) p = 0 \<Longrightarrow> p \<in> L"
  | (no_asid) e fl' s' where "fl = e # fl'" "env_alloc parent s = Some (Inl E_NO_FREE_ENV, s')" "used_asids s = {..<NASID}"
  | (ok) e fl' d k s' where "fl = e # fl'" "env_alloc parent s = Some (Inr e, s')"
      "d \<notin> D" "d < unat (npage (pm s))" "vm_inv (pm s') (insert d D) L X" "ptes (pm s') (insert d D) = ptes (pm s) D"
      "npage (pm s') = npage (pm s)"
      "list_rep (env_free_list s') fl'" "k < NASID" "k \<notin> used_asids s" "used_asids s' = insert k (used_asids s)"
      "envs s' = (envs s)(e := (envs s e)\<lparr>env_pgdir := page2pa d, env_pgdir_copy_pa := 0, env_user_tlb_mod_entry := 0, env_runs := 0,
         env_id := fst (mkenvid e s), env_asid := of_nat k, env_parent_id := parent,
         env_tf := (env_tf (envs s e))\<lparr>tf_sstatus := 2, tf_sscratch := USTACKTOP - 8\<rparr>\<rparr>)"
      "mkenvid_i s' = mkenvid_i s + 1" "env_sched_list s' = env_sched_list s" "curenv s' = curenv s" "disk s' = disk s"
      "kernel_pgdir s' = kernel_pgdir s" "base_pgdir s' = base_pgdir s" "kstack_tf s' = kstack_tf s"
      "pp_ref (pm s) d = 0" "d \<notin> L" "cur_pgdir s' = cur_pgdir s"
      "\<And>q i. q < page_bound \<Longrightarrow> q \<noteq> d \<Longrightarrow> i < 1024 \<Longrightarrow> ent (mem (pm s')) q i = ent (mem (pm s)) q i"
proof (cases fl)
  case Nil
  then have "LIST_FIRST (env_free_list s) = None" using list_rep_first [OF fl] by simp
  then show thesis using Nil by (intro empty) (simp_all add: env_alloc_def)
next
  case (Cons e fl')
  have first: "LIST_FIRST (env_free_list s) = Some e" using list_rep_first [OF fl] Cons by simp
  from lst.pop [OF fl first] Cons obtain q where q: "LIST_REMOVE (env_free_list s) e = Some q" "list_rep q fl'" by auto
  have uf: "used_asids (s1\<lparr>pm := p, envs := x, mkenvid_i := i\<rparr>) = used_asids s1" for s1 p x i by (simp add: used_asids_def)
  show thesis
  proof (cases rule: env_setup_vm_cases [OF inv bd, of e])
    case f: 1
    let ?s = "(snd (mkenvid e s))\<lparr>envs := (envs s)(e := (envs s e)\<lparr>env_user_tlb_mod_entry := 0, env_runs := 0, env_id := fst (mkenvid e s)\<rparr>)\<rparr>"
    have us: "used_asids ?s = used_asids s" by (simp add: used_asids_def mkenvid_def Let_def)
    show thesis
    proof (cases rule: asid_alloc_cases [of ?s])
      case fail
      then show thesis using first f(1) us
        by (intro no_asid [OF Cons]) (simp_all add: env_alloc_def upd_env_def mkenvid_def Let_def)
    next
      case a: (ok k bm)
      define s' where "s' = ?s\<lparr>asid_bitmap := bm, env_free_list := q, envs := (envs s)(e := (envs s e)\<lparr>env_user_tlb_mod_entry := 0,
         env_runs := 0, env_id := fst (mkenvid e s), env_asid := of_nat k, env_parent_id := parent,
         env_tf := (env_tf (envs s e))\<lparr>tf_sstatus := 2, tf_sscratch := USTACKTOP - 8\<rparr>\<rparr>)\<rparr>"
      have run: "env_alloc parent s = Some (Inr e, s')"
        using first f(1) a(1) q(1) by (simp add: env_alloc_def upd_env_def mkenvid_def Let_def s'_def)
      show thesis
        by (rule no_mem [OF Cons run _ _ _ _ f(2)])
           (use a(3) us q(2) in \<open>simp_all add: s'_def mkenvid_def Let_def\<close>)
    qed
  next
    case g: (2 d p')
    let ?x = "(envs s e)\<lparr>env_pgdir := page2pa d, env_pgdir_copy_pa := 0, env_user_tlb_mod_entry := 0, env_runs := 0, env_id := fst (mkenvid e s)\<rparr>"
    let ?s = "s\<lparr>pm := p', mkenvid_i := mkenvid_i s + 1, envs := (envs s)(e := ?x)\<rparr>"
    have us: "used_asids ?s = used_asids s" by (simp add: used_asids_def mkenvid_def Let_def)
    show thesis
    proof (cases rule: asid_alloc_cases [of ?s])
      case fail
      then show thesis using first g(1) us
        by (intro no_asid [OF Cons]) (simp_all add: env_alloc_def upd_env_def mkenvid_def Let_def)
    next
      case a: (ok k bm)
      define s' where "s' = ?s\<lparr>asid_bitmap := bm, env_free_list := q, envs := (envs s)(e := ?x\<lparr>env_asid := of_nat k, env_parent_id := parent,
         env_tf := (env_tf (envs s e))\<lparr>tf_sstatus := 2, tf_sscratch := USTACKTOP - 8\<rparr>\<rparr>)\<rparr>"
      have run: "env_alloc parent s = Some (Inr e, s')"
        using first g(1) a(1) q(1) by (simp add: env_alloc_def upd_env_def mkenvid_def Let_def s'_def)
      have "used_asids s' = used_asids (?s\<lparr>asid_bitmap := bm\<rparr>)" by (simp add: s'_def used_asids_def)
      then have ua: "used_asids s' = insert k (used_asids s)" using a(5) us by simp
      show thesis
        by (rule ok [OF Cons run g(2,4) _ _ _ _ a(2) _ ua])
           (use g(3,5-7,9,10) q(2) a(3) us in \<open>simp_all add: s'_def mkenvid_def Let_def\<close>)
    qed
  qed
qed
end
