(* ===== verification/Mos_Sched.thy ===== *)
theory Mos_Sched
  imports Mos_Env_Alloc
begin

text \<open>
  Scheduling (\<^verbatim>\<open>kern/sched.c\<close>) and the life of an environment.  \<open>schedule_switches\<close>, \<open>schedule_keeps\<close> and
  \<open>schedule_no_runnable\<close> are the three outcomes of \<open>schedule\<close>; \<open>kdemo\<close> is a concrete kernel state that satisfies the
  invariants; the properties at the end are those of \<^verbatim>\<open>kern/env.c\<close> and \<^verbatim>\<open>kern/sched.c\<close>.
\<close>



declare split_paired_All [simp del] split_paired_Ex [simp del]

section \<open>The scheduler\<close>

definition disk_ok :: "kstate \<Rightarrow> bool" where
  "disk_ok s \<longleftrightarrow> (\<exists>cs. ring_inv (disk s) cs)"

lemma disk_intr_ok:
  assumes "disk_ok s"
  obtains v cs where "virtio_disk_intr R (disk s) = Some v" "ring_inv v cs"
proof -
  obtain cs where cs: "ring_inv (disk s) cs" using assms by (auto simp: disk_ok_def)
  let ?v = "if R 0x060 \<noteq> 0 then wreg 0x064 (R 0x060 AND 3) (disk s) else disk s"
  have p: "pending ?v = pending (disk s)" by (rule pending_cong) (simp_all add: wreg_def)
  have "ring_inv ?v cs"
    using cs p disk_inv_cong [of ?v "disk s" cs] by (simp add: ring_inv_def wreg_def split: if_splits)
  from recycle_used_run [OF this] that show thesis by (auto simp: virtio_disk_intr_def)
qed

text \<open>What \<^verbatim>\<open>env_run\<close> leaves behind: the trap frame of the interrupted environment is saved, and the chosen one runs
  in its own address space; nothing else in the table changes but the run counter.\<close>

definition switched :: "kstate \<Rightarrow> nat \<Rightarrow> kstate \<Rightarrow> bool" where
  "switched s e s' \<longleftrightarrow> curenv s' = Some e \<and> cur_pgdir s' = env_pgdir (envs s e)
     \<and> satp s' = SV32MODE OR push_bit 22 (env_asid (envs s e)) OR PPN (env_pgdir (envs s e))
     \<and> (\<forall>c. curenv s = Some c \<longrightarrow> env_tf (envs s' c) = kstack_tf s)
     \<and> (\<forall>x. curenv s \<noteq> Some x \<longrightarrow> env_tf (envs s' x) = env_tf (envs s x))
     \<and> (\<forall>x. env_status (envs s' x) = env_status (envs s x) \<and> env_pgdir (envs s' x) = env_pgdir (envs s x))
     \<and> (\<forall>x. envs s' x = (envs s x)\<lparr>env_tf := env_tf (envs s' x), env_runs := env_runs (envs s' x)\<rparr>)
     \<and> pm s' = pm s"

lemma env_run_ok:
  assumes "is_runnable s e"
  shows "\<exists>s'. env_run e s = Some s' \<and> switched s e s' \<and> env_sched_list s' = env_sched_list s \<and>
     env_free_list s' = env_free_list s \<and> disk s' = disk s \<and> sched_count s' = sched_count s \<and>
     (\<forall>x. env_pri (envs s' x) = env_pri (envs s x))"
  using assms
  by (auto simp: env_run_def is_runnable_def switched_def upd_env_def Let_def split: option.splits)

definition rotate_cur :: "nat option \<Rightarrow> nat list \<Rightarrow> nat list" where
  "rotate_cur c sl = (case c of Some e \<Rightarrow> if e \<in> set sl then remove1 e sl @ [e] else sl | None \<Rightarrow> sl)"

lemma set_rotate_cur: "distinct sl \<Longrightarrow> set (rotate_cur c sl) = set sl"
  by (auto simp: rotate_cur_def split: option.splits)

lemma rotate_cur_Nil: "rotate_cur c sl = [] \<longleftrightarrow> sl = []"
  by (auto simp: rotate_cur_def split: option.splits)

lemma schedule_switches:
  assumes tb: "table_inv s fl sl" and dk: "disk_ok s" and cur: "\<And>c. curenv s = Some c \<Longrightarrow> c < NENV"
    and sw: "must_switch yield s" and ne: "sl \<noteq> []"
  shows "\<exists>s'. schedule R yield s = Some s' \<and> switched s (hd (rotate_cur (curenv s) sl)) s' \<and>
     table_inv s' fl (rotate_cur (curenv s) sl) \<and> disk_ok s' \<and>
     sched_count s' = env_pri (envs s (hd (rotate_cur (curenv s) sl))) - 1 \<and>
     (\<forall>x. env_pri (envs s' x) = env_pri (envs s x))"
proof -
  let ?sl = "rotate_cur (curenv s) sl"
  obtain v cs where v: "virtio_disk_intr R (disk s) = Some v" "ring_inv v cs" using disk_intr_ok [OF dk] by blast
  have t: "tailq_rep (env_sched_list s) sl" "set sl = {e. e < NENV \<and> env_status (envs s e) = ENV_RUNNABLE}"
    using tb by (simp_all add: table_inv_def)
  have dl: "distinct sl" by (rule tq.rep_distinct [OF t(1)])
  define s1 where "s1 = s\<lparr>disk := v\<rparr>"
  have mem: "c \<in> set sl \<longleftrightarrow> is_runnable s1 c" if "curenv s = Some c" for c
    using cur [OF that] t(2) by (simp add: s1_def is_runnable_def)
  have cur1: "curenv s1 = curenv s" "env_sched_list s1 = env_sched_list s" by (simp_all add: s1_def)
  obtain q where q: "tailq_rep q ?sl" "requeue_cur s1 = Some (s1\<lparr>env_sched_list := q\<rparr>)"
  proof (cases "curenv s")
    case None
    then show thesis using that [of "env_sched_list s1"] t(1) by (simp add: rotate_cur_def requeue_cur_def cur1)
  next
    case (Some c)
    show thesis
    proof (cases "c \<in> set sl")
      case True
      then obtain q1 q2 where "TAILQ_REMOVE (env_sched_list s) c = Some q1" "TAILQ_INSERT_TAIL q1 c = Some q2"
        "tailq_rep q2 (remove1 c sl @ [c])" using tq.move_to_tail [OF t(1) True] by blast
      then show thesis using that [of q2] Some True mem [OF Some] by (simp add: rotate_cur_def requeue_cur_def cur1)
    next
      case False
      then show thesis using that [of "env_sched_list s1"] Some mem [OF Some] t(1)
        by (simp add: rotate_cur_def requeue_cur_def cur1)
    qed
  qed
  define e where "e = hd ?sl"
  obtain r where sl': "?sl = e # r" using ne rotate_cur_Nil [of "curenv s" sl] by (cases ?sl) (auto simp: e_def)
  have eR: "is_runnable s e" using sl' set_rotate_cur [OF dl, of "curenv s"] t(2) by (auto simp: is_runnable_def)
  define s2 where "s2 = s1\<lparr>env_sched_list := q, sched_count := env_pri (envs s e) - 1\<rparr>"
  have e2: "is_runnable s2 e" using eR by (simp add: is_runnable_def s2_def s1_def)
  obtain s' where s': "env_run e s2 = Some s'" "switched s2 e s'" "env_sched_list s' = q" "env_free_list s' = env_free_list s"
    "disk s' = v" "sched_count s' = env_pri (envs s e) - 1" "\<forall>x. env_pri (envs s' x) = env_pri (envs s x)"
    using env_run_ok [OF e2] by (auto simp: s2_def s1_def)
  have c: "must_switch yield s1"
    using sw by (auto simp: must_switch_def is_runnable_def s1_def split: option.splits)
  have "pick_env s1 = Some (e, s1\<lparr>env_sched_list := q, sched_count := env_pri (envs s e)\<rparr>)"
    using q(2) tailq_rep_empty [OF q(1)] tailq_rep_first [OF q(1)] sl' by (simp add: pick_env_def s1_def)
  then have "schedule R yield s = Some s'"
    using v(1) c s'(1) by (simp add: schedule_def s1_def [symmetric] s2_def)
  moreover have "switched s e s'" using s'(2) by (simp add: switched_def s2_def s1_def)
  moreover have "table_inv s' fl ?sl"
    using tb q(1) s'(2,3,4) set_rotate_cur [OF dl, of "curenv s"] by (simp add: table_inv_def switched_def s2_def s1_def)
  moreover have "disk_ok s'" using s'(5) v(2) by (auto simp: disk_ok_def)
  ultimately show ?thesis using s'(6,7) by (intro exI [of _ s']) (simp add: e_def)
qed

lemma schedule_keeps:
  assumes tb: "table_inv s fl sl" and dk: "disk_ok s" and sw: "\<not> must_switch yield s"
  shows "\<exists>c s'. curenv s = Some c \<and> schedule R yield s = Some s' \<and> switched s c s' \<and> table_inv s' fl sl \<and> disk_ok s' \<and>
     sched_count s' = sched_count s - 1"
proof -
  obtain v cs where v: "virtio_disk_intr R (disk s) = Some v" "ring_inv v cs" using disk_intr_ok [OF dk] by blast
  obtain c where c: "curenv s = Some c" "is_runnable s c" using sw by (auto simp: must_switch_def split: option.splits)
  define s1 where "s1 = s\<lparr>disk := v, sched_count := sched_count s - 1\<rparr>"
  have "is_runnable s1 c" using c(2) by (simp add: is_runnable_def s1_def)
  from env_run_ok [OF this] obtain s' where s': "env_run c s1 = Some s'" "switched s1 c s'"
    "env_sched_list s' = env_sched_list s" "env_free_list s' = env_free_list s" "disk s' = v" "sched_count s' = sched_count s - 1"
    by (auto simp: s1_def)
  have "\<not> must_switch yield (s\<lparr>disk := v\<rparr>)" using sw by (simp add: must_switch_def is_runnable_def split: option.splits)
  then have "schedule R yield s = Some s'" using v(1) c(1) s'(1) by (simp add: schedule_def s1_def)
  moreover have "switched s c s'" using s'(2) by (simp add: switched_def s1_def)
  moreover have "table_inv s' fl sl" using tb s'(2-4) by (simp add: table_inv_def switched_def s1_def)
  ultimately show ?thesis using c(1) s'(5,6) v(2) by (auto simp: disk_ok_def)
qed

lemma schedule_no_runnable:
  assumes tb: "table_inv s fl []" and dk: "disk_ok s" and cur: "\<And>c. curenv s = Some c \<Longrightarrow> c < NENV"
    and sw: "must_switch yield s"
  shows "schedule R yield s = None"
proof -
  obtain v cs where v: "virtio_disk_intr R (disk s) = Some v" using disk_intr_ok [OF dk] by blast
  have t: "tailq_rep (env_sched_list s) []" "{e. e < NENV \<and> env_status (envs s e) = ENV_RUNNABLE} = {}"
    using tb by (simp_all add: table_inv_def)
  have "requeue_cur (s\<lparr>disk := v\<rparr>) = Some (s\<lparr>disk := v\<rparr>)"
    using cur t(2) by (auto simp: requeue_cur_def is_runnable_def split: option.splits)
  moreover have "must_switch yield (s\<lparr>disk := v\<rparr>)" using sw by (simp add: must_switch_def is_runnable_def split: option.splits)
  ultimately show ?thesis using v tailq_rep_empty [OF t(1)] by (simp add: schedule_def pick_env_def)
qed

fun yields :: "(u32 \<Rightarrow> u32) \<Rightarrow> nat \<Rightarrow> kstate \<Rightarrow> kstate option" where
  "yields R 0 s = Some s"
| "yields R (Suc n) s = do { s \<leftarrow> schedule R True s; yields R n s }"

lemma rotate_cur_hd: "distinct sl \<Longrightarrow> sl \<noteq> [] \<Longrightarrow> rotate_cur (Some (hd sl)) sl = rotate1 sl"
  by (cases sl) (simp_all add: rotate_cur_def)

lemma yields_rotate:
  assumes "table_inv s fl sl" "disk_ok s" "sl \<noteq> []" "curenv s = Some (hd sl)"
  shows "\<exists>s'. yields R n s = Some s' \<and> table_inv s' fl (rotate n sl) \<and> curenv s' = Some (hd (rotate n sl)) \<and> disk_ok s'"
  using assms
proof (induction n arbitrary: s sl)
  case 0
  then show ?case by simp
next
  case (Suc n)
  have t: "tailq_rep (env_sched_list s) sl" "set sl = {e. e < NENV \<and> env_status (envs s e) = ENV_RUNNABLE}"
    using Suc.prems(1) by (simp_all add: table_inv_def)
  have r: "rotate_cur (curenv s) sl = rotate1 sl"
    using rotate_cur_hd [OF tq.rep_distinct [OF t(1)] Suc.prems(3)] Suc.prems(4) by simp
  have cur: "c < NENV" if "curenv s = Some c" for c
    using that Suc.prems(3,4) t(2) hd_in_set [OF Suc.prems(3)] by auto
  obtain s1 where s1: "schedule R True s = Some s1" "switched s (hd (rotate1 sl)) s1" "table_inv s1 fl (rotate1 sl)" "disk_ok s1"
    using schedule_switches [OF Suc.prems(1,2) cur _ Suc.prems(3), of True R] unfolding r by (auto simp: must_switch_def)
  have "rotate1 sl \<noteq> []" "curenv s1 = Some (hd (rotate1 sl))" using Suc.prems(3) s1(2) by (simp_all add: switched_def)
  from Suc.IH [OF s1(3,4) this] s1(1) show ?case by (simp add: rotate1_rotate_swap)
qed

section \<open>A concrete kernel state\<close>

text \<open>Seven frames: 0 is the page directory of environment 0, 1 was just allocated, 3 and 4 are the kernel's directory
  and the template, the rest is free.  Environments 0 and 1 are runnable and share nothing.\<close>

definition kdemo_pm :: pmap where
  "kdemo_pm = demo\<lparr>npage := 7, pp_ref := (\<lambda>_. 0)(0 := 1, 3 := 1, 4 := 1),
     page_free_list := LIST_INSERT_HEAD (LIST_INSERT_HEAD (LIST_INSERT_HEAD (LIST_INIT zero_links) 6) 5) 2\<rparr>"

definition zero_tf :: trapframe where
  "zero_tf = \<lparr>tf_regs = (\<lambda>_. 0), tf_sstatus = 0, tf_sscratch = 0, tf_scause = 0, tf_sepc = 0, tf_stval = 0, tf_sip = 0\<rparr>"

definition zero_env :: env where
  "zero_env = \<lparr>env_tf = zero_tf, env_id = 0, env_asid = 0, env_parent_id = 0, env_status = ENV_FREE, env_pgdir = 0,
     env_pri = 0, env_ipc_value = 0, env_ipc_from = 0, env_ipc_recving = 0, env_ipc_dstva = 0, env_ipc_perm = 0,
     env_user_tlb_mod_entry = 0, env_pgdir_copy_pa = 0, env_runs = 0\<rparr>"

definition kdemo :: kstate where
  "kdemo = \<lparr>pm = kdemo_pm,
     envs = (\<lambda>_. zero_env)(0 := zero_env\<lparr>env_id := 2048, env_asid := 1, env_status := ENV_RUNNABLE, env_pgdir := page2pa 0, env_pri := 1\<rparr>),
     curenv = Some 0, env_free_list = fold (\<lambda>e q. LIST_INSERT_HEAD q e) (rev [1..<NENV]) (LIST_INIT zero_links),
     env_sched_list = TAILQ_INSERT_HEAD (TAILQ_INIT zero_tailq) 0,
     base_pgdir = page2pa 4, asid_bitmap = (\<lambda>_. 0)(0 := 2), mkenvid_i = 1, cur_pgdir = page2pa 0, sched_count = 0,
     kstack_tf = zero_tf, satp = 0, disk = demo_ring, console_out = [], console_in = [], envs_addr = 0, kernel_pgdir = page2pa 3\<rparr>"

definition kdemo_X :: "nat \<Rightarrow> nat" where
  "kdemo_X = (\<lambda>_. 0)(3 := 1, 4 := 1)"

lemma kdemo_vm: "vm_inv kdemo_pm {0} {1} kdemo_X"
proof -
  have z: "ent (mem kdemo_pm) d i = 0" for d i by (simp add: kdemo_pm_def demo_def ent_def ld32_def)
  have e: "ptab kdemo_pm {0} = (\<lambda>_. None)" by (auto simp: ptab_def table_at_def z)
  then have e2: "ptes kdemo_pm {0} = (\<lambda>_. 0)" by (auto simp: ptes_def)
  then have e3: "maps kdemo_pm {0} = (\<lambda>_. None)" by (auto simp: maps_def)
  have "tables_ok kdemo_pm {0}"
    by (rule tables_okI) (simp_all add: e e2 e3 z, simp_all add: kdemo_pm_def page_bound_def)
  moreover have "refs_ok kdemo_pm {0} kdemo_X"
    by (auto simp: refs_ok_def refs_def e e3) (auto simp: kdemo_pm_def kdemo_X_def)
  ultimately have X: "tables_ok kdemo_pm {0} \<and> refs_ok kdemo_pm {0} kdemo_X" by simp
  have "list_rep (page_free_list kdemo_pm) [2, 5, 6]"
    using list_rep_insert_head [OF list_rep_insert_head [OF list_rep_insert_head [OF list_rep_init, of "6 :: nat" zero_links], of 5], of 2]
    by (simp add: kdemo_pm_def)
  moreover have "set [2, 5, 6] = {p. p < unat (npage kdemo_pm) \<and> pp_ref kdemo_pm p = 0 \<and> p \<notin> {1 :: nat}}"
    by (auto simp: kdemo_pm_def split: if_splits)
  moreover have "\<forall>p \<in> {1}. p < unat (npage kdemo_pm) \<and> pp_ref kdemo_pm p = 0" by (simp add: kdemo_pm_def)
  ultimately have "free_ok kdemo_pm {1}" unfolding free_ok_def by blast
  with X show ?thesis by (simp add: vm_inv_def)
qed

lemma kdemo_live: "live kdemo = {0}"
  by (auto simp: live_def kdemo_def zero_env_def status_defs NENV_def)

lemma kdemo_space: "space_inv kdemo (\<lambda>_. 0) {1} kdemo_X"
proof -
  have "pm kdemo = kdemo_pm" "env_pgdir (envs kdemo 0) = page2pa 0" by (simp_all add: kdemo_def)
  then show ?thesis using kdemo_vm by (simp add: space_inv_def kdemo_live)
qed

lemma kdemo_table: "table_inv kdemo [1..<NENV] [0]"
proof -
  have N: "0 < NENV" by (simp add: NENV_def)
  have "list_rep (env_free_list kdemo) [1..<NENV]"
    using lst.rep_insert_heads [OF list_rep_init, of "rev [1..<NENV]" zero_links] by (simp add: kdemo_def)
  moreover have "tailq_rep (env_sched_list kdemo) [0]"
    using tailq_rep_insert_head [OF tailq_rep_init, of 0 zero_tailq] by (simp add: kdemo_def)
  moreover have "set [1..<NENV] = {e. e < NENV \<and> env_status (envs kdemo e) = ENV_FREE}"
    by (auto simp: kdemo_def zero_env_def status_defs)
  moreover have "set [0] = {e. e < NENV \<and> env_status (envs kdemo e) = ENV_RUNNABLE}"
    using N by (auto simp: kdemo_def zero_env_def status_defs)
  ultimately show ?thesis by (simp add: table_inv_def)
qed

lemma kdemo_boot: "boot_dirs kdemo 3 4"
proof -
  have "ent (mem kdemo_pm) d i = 0" for d i by (simp add: kdemo_pm_def demo_def ent_def ld32_def)
  then show ?thesis by (simp add: boot_dirs_def kdemo_def) (simp add: kdemo_pm_def)
qed

lemma kdemo_disk: "disk_ok kdemo"
proof -
  have "desc_free_bitmap demo_ring = - 1" "pending demo_ring = []" by (simp_all add: demo_ring_def pending_def)
  moreover have "free_set demo_ring = {..<32}" using calculation(1) by (auto simp: free_set_def desc_free_iff)
  ultimately have "ring_inv demo_ring []" by (simp add: ring_inv_def disk_inv_def heads_def)
  then show ?thesis unfolding disk_ok_def kdemo_def by auto
qed
section \<open>Properties\<close>

text \<open>Property C5. \<^verbatim>\<open>schedule\<close> has exactly three outcomes.  When no switch is due the current environment goes on running with
  one tick less.  When one is due and the run queue is not empty, a current environment that is still runnable goes to the
  tail of the queue, the environment now at the head runs in its own address space with as many ticks as its priority (one
  of them used), the trap frame of the interrupted one is saved in its \<^verbatim>\<open>struct Env\<close> and no other environment changes.  When
  one is due and nothing is runnable the kernel panics.  The queue stays the exact list of the runnable environments.\<close>

theorem schedule_correct:
  assumes "table_inv s fl sl" "disk_ok s" "\<And>c. curenv s = Some c \<Longrightarrow> c < NENV"
  shows "(\<not> must_switch yield s \<longrightarrow> (\<exists>c s'. curenv s = Some c \<and> schedule R yield s = Some s' \<and> switched s c s' \<and>
            table_inv s' fl sl \<and> disk_ok s' \<and> sched_count s' = sched_count s - 1))
       \<and> (must_switch yield s \<and> sl \<noteq> [] \<longrightarrow>
            (\<exists>s'. schedule R yield s = Some s' \<and> switched s (hd (rotate_cur (curenv s) sl)) s' \<and>
               table_inv s' fl (rotate_cur (curenv s) sl) \<and> disk_ok s' \<and>
               sched_count s' = env_pri (envs s (hd (rotate_cur (curenv s) sl))) - 1))
       \<and> (must_switch yield s \<and> sl = [] \<longrightarrow> schedule R yield s = None)"
proof (intro conjI impI)
  assume "\<not> must_switch yield s"
  then show "\<exists>c s'. curenv s = Some c \<and> schedule R yield s = Some s' \<and> switched s c s' \<and> table_inv s' fl sl \<and> disk_ok s' \<and>
      sched_count s' = sched_count s - 1" by (rule schedule_keeps [OF assms(1,2)])
next
  assume "must_switch yield s \<and> sl \<noteq> []"
  then show "\<exists>s'. schedule R yield s = Some s' \<and> switched s (hd (rotate_cur (curenv s) sl)) s' \<and>
      table_inv s' fl (rotate_cur (curenv s) sl) \<and> disk_ok s' \<and>
      sched_count s' = env_pri (envs s (hd (rotate_cur (curenv s) sl))) - 1"
    using schedule_switches [OF assms, of yield R] by blast
next
  assume "must_switch yield s \<and> sl = []"
  then show "schedule R yield s = None" using schedule_no_runnable [OF _ assms(2,3)] assms(1) by blast
qed

theorem schedule_correct_witness:
  "\<exists>s'. schedule (\<lambda>_. 0) True kdemo = Some s' \<and> curenv s' = Some 0 \<and> table_inv s' [1..<NENV] [0] \<and> sched_count s' = 0"
proof -
  have "\<And>c. curenv kdemo = Some c \<Longrightarrow> c < NENV" by (simp add: kdemo_def NENV_def)
  from schedule_correct [OF kdemo_table kdemo_disk this, of True "\<lambda>_. 0"]
  show ?thesis by (simp add: must_switch_def switched_def rotate_cur_def) (auto simp: kdemo_def)
qed

text \<open>Property C7. Round robin: when the head of the run queue is running, after \<open>n\<close> yields the environment that runs is
  number \<open>n mod length sl\<close> of the queue, so that of \<open>k\<close> runnable environments each runs once in every \<open>k\<close> yields.\<close>

theorem schedule_round_robin:
  assumes "table_inv s fl sl" "disk_ok s" "sl \<noteq> []" "curenv s = Some (hd sl)"
  shows "\<exists>s'. yields R n s = Some s' \<and> curenv s' = Some (sl ! (n mod length sl)) \<and> table_inv s' fl (rotate n sl)"
  using yields_rotate [OF assms, of R n] hd_rotate_conv_nth [OF assms(3), of n] by auto

theorem schedule_round_robin_witness:
  "\<exists>s'. yields (\<lambda>_. 0) 5 kdemo = Some s' \<and> curenv s' = Some ([0] ! (5 mod length [0 :: nat])) \<and>
     table_inv s' [1..<NENV] (rotate 5 [0])"
  by (rule schedule_round_robin [OF kdemo_table kdemo_disk]) (simp_all add: kdemo_def)


section \<open>Environment ids are never reused\<close>

text \<open>Every id in the table was made by an earlier call of \<^verbatim>\<open>mkenvid\<close> for that slot.\<close>

definition id_of :: "nat \<Rightarrow> nat \<Rightarrow> u32" where
  "id_of g e = push_bit 11 (of_nat g) OR of_nat e"

definition ids_inv :: "kstate \<Rightarrow> bool" where
  "ids_inv s \<longleftrightarrow> (\<forall>e < NENV. env_id (envs s e) = 0 \<or> (\<exists>g. 0 < g \<and> g \<le> unat (mkenvid_i s) \<and> env_id (envs s e) = id_of g e))"

lemma mkenvid_id_of: "unat (mkenvid_i s) < 2 ^ 21 - 1 \<Longrightarrow> fst (mkenvid e s) = id_of (Suc (unat (mkenvid_i s))) e"
  by (simp add: mkenvid_def LOG2NENV_def id_of_def add.commute)

lemma id_of_gen:
  assumes "e < NENV" "g < 2 ^ 21"
  shows "unat (drop_bit 11 (id_of g e)) = g"
proof -
  have e: "(of_nat e :: u32) < 1024" using assms(1) by (simp add: NENV_def word_less_nat_alt unat_of_nat)
  have "drop_bit 11 (id_of g e) = of_nat g"
  proof (rule bit_word_eqI)
    fix n assume n: "n < LENGTH(32)"
    have "bit (of_nat g :: u32) n \<Longrightarrow> n < 21"
      using assms(2) by (metis bit_take_bit_iff of_nat_take_bit take_bit_nat_eq_self bit_of_nat_iff)
    then show "bit (drop_bit 11 (id_of g e)) n = bit (of_nat g :: u32) n"
      using small_bits [OF e, of "11 + n"] by (auto simp: id_of_def bit_drop_bit_eq bit_or_iff bit_push_bit_iff)
  qed
  then show ?thesis using assms(2) by (simp add: unat_of_nat)
qed

lemma id_of_zero: "drop_bit 11 (id_of 0 e) = drop_bit 11 (of_nat e)"
  by (simp add: id_of_def)

lemma fresh_id:
  assumes "ids_inv s" "unat (mkenvid_i s) < 2 ^ 21 - 1" "e < NENV" "x < NENV"
  shows "fst (mkenvid e s) \<noteq> env_id (envs s x)"
proof
  assume eq: "fst (mkenvid e s) = env_id (envs s x)"
  have g: "unat (drop_bit 11 (env_id (envs s x))) = Suc (unat (mkenvid_i s))"
    using id_of_gen [OF assms(3), of "Suc (unat (mkenvid_i s))"] assms(2) eq by (simp add: mkenvid_id_of)
  consider "env_id (envs s x) = 0" | h where "h \<le> unat (mkenvid_i s)" "env_id (envs s x) = id_of h x"
    using assms(1,4) by (auto simp: ids_inv_def)
  then show False
  proof cases
    case 1
    then show ?thesis using g by simp
  next
    case 2
    then show ?thesis using g id_of_gen [OF assms(4), of h] assms(2) by simp
  qed
qed

section \<open>Properties of allocation\<close>

text \<open>Property C6. \<^verbatim>\<open>env_alloc\<close> with a free slot, a free frame and a free ASID takes the first free slot, gives it a page
  directory in a fresh frame that maps nothing in the user part (so the new environment shares no page with any other), an
  ASID that no environment has, an id that no slot had before, and adds it to the invariant of all address spaces once it
  is marked runnable; the ids stay valid and \<^verbatim>\<open>envid2env\<close> finds the environment under its new id.\<close>

theorem env_alloc_correct:
  assumes sp: "space_inv s dp L X" and tb: "table_inv s (e # fl) sl" and bd: "boot_dirs s kp b"
    and fr: "p < unat (npage (pm s))" "pp_ref (pm s) p = 0" "p \<notin> L" and asid: "used_asids s \<noteq> {..<NASID}"
    and ids: "ids_inv s" "unat (mkenvid_i s) < 2 ^ 21 - 1"
  shows "\<exists>s' d k. env_alloc parent s = Some (Inr e, s') \<and> list_rep (env_free_list s') fl \<and>
     space_inv (upd_env e (\<lambda>en. en\<lparr>env_status := ENV_RUNNABLE\<rparr>) s') (dp(e := d)) L X \<and>
     (\<forall>i j. maps (pm s') (insert d (dp ` live s)) (d, i, j) = None) \<and>
     maps (pm s') (insert d (dp ` live s)) = maps (pm s) (dp ` live s) \<and>
     k \<notin> used_asids s \<and> used_asids s' = insert k (used_asids s) \<and> env_asid (envs s' e) = of_nat k \<and>
     env_parent_id (envs s' e) = parent \<and> (\<forall>x < NENV. env_id (envs s' e) \<noteq> env_id (envs s x)) \<and> ids_inv s' \<and>
     envid2env (env_id (envs s' e)) False (upd_env e (\<lambda>en. en\<lparr>env_status := ENV_RUNNABLE\<rparr>) s') = Some (Inr (Some e))"
proof -
  let ?D = "dp ` live s"
  have inv: "vm_inv (pm s) ?D L X" and pg: "\<forall>e \<in> live s. env_pgdir (envs s e) = page2pa (dp e)" and inj: "inj_on dp (live s)"
    using sp by (simp_all add: space_inv_def)
  have t: "list_rep (env_free_list s) (e # fl)" "e < NENV" "env_status (envs s e) = ENV_FREE"
    using tb by (auto simp: table_inv_def)
  have el: "e \<notin> live s" using t(3) by (simp add: live_def)
  from inv bd t(1) show ?thesis
  proof (cases rule: env_alloc_cases [where parent = parent])
    case empty
    then show ?thesis by simp
  next
    case no_mem
    then show ?thesis using fr by blast
  next
    case no_asid
    then show ?thesis using asid by simp
  next
    case (ok e1 fl1 d k s')
    then have [simp]: "e1 = e" "fl1 = fl" by simp_all
    let ?t = "upd_env e (\<lambda>en. en\<lparr>env_status := ENV_RUNNABLE\<rparr>) s'"
    have lv: "live ?t = insert e (live s)" using t(2) by (auto simp: live_def ok(12) status_defs)
    have D: "(dp(e := d)) ` live ?t = insert d ?D" using el by (auto simp: lv image_iff)
    have "inj_on (dp(e := d)) (live ?t)" using inj el ok(3) by (auto simp: lv inj_on_def)
    then have sp': "space_inv ?t (dp(e := d)) L X"
      using ok(5) pg el D by (auto simp: space_inv_def lv ok(12))
    have m: "maps (pm s') (insert d ?D) = maps (pm s) ?D" using ok(6,7) by (simp add: maps_def entry_frame_def pa2page_def fun_eq_iff)
    have nm: "maps (pm s) ?D (d, i, j) = None" for i j using ok(3) by (simp add: maps_def ptes_def ptab_def)
    have fresh: "env_id (envs s' e) \<noteq> env_id (envs s x)" if "x < NENV" for x
      using fresh_id [OF ids t(2) that] by (simp add: ok(12))
    have "unat (mkenvid_i s + 1) = Suc (unat (mkenvid_i s))" using ids(2) by (simp add: unat_word_ariths)
    then have ids': "ids_inv s'"
      using ids mkenvid_id_of [OF ids(2), of e] unfolding ids_inv_def ok(12,13) by (auto simp: le_Suc_eq)
    have "unat (drop_bit 11 (fst (mkenvid e s))) \<noteq> 0"
      using id_of_gen [OF t(2), of "Suc (unat (mkenvid_i s))"] ids(2) by (simp add: mkenvid_id_of)
    then have "fst (mkenvid e s) \<noteq> 0" by auto
    then have "envid2env (env_id (envs s' e)) False ?t = Some (Inr (Some e))"
      using ENVX_mkenvid [OF t(2), of s] by (simp add: envid2env_def Let_def ok(12) status_defs)
    with ok(2,8,10,11) sp' m nm fresh ids' show ?thesis
      by (intro exI [of _ s'] exI [of _ d] exI [of _ k]) (simp add: ok(12))
  qed
qed

lemma kdemo_asids: "used_asids kdemo = {1}"
proof -
  have "(2 :: u32) = push_bit 1 1" by simp
  then have "bit (2 :: u32) n \<longleftrightarrow> n = 1" for n by (simp only: bit_push_bit_iff bit_1_iff) auto
  moreover have "asid_bitmap kdemo = (\<lambda>_. 0)(0 := 2)" by (simp add: kdemo_def)
  ultimately have "asid_used (asid_bitmap kdemo) i \<longleftrightarrow> i div 32 = 0 \<and> i mod 32 = 1" for i by (simp add: asid_used_bit)
  then have "i \<in> used_asids kdemo \<longleftrightarrow> i = 1" for i
    using div_mod_eq_iff [of i 32 1] by (auto simp: used_asids_def NASID_def)
  then show ?thesis by blast
qed

lemma kdemo_ids: "ids_inv kdemo"
proof -
  have "env_id (envs kdemo 0) = id_of 1 0" "mkenvid_i kdemo = 1" by (simp_all add: kdemo_def id_of_def)
  moreover have "env_id (envs kdemo e) = 0" if "e \<noteq> 0" for e using that by (simp add: kdemo_def zero_env_def)
  ultimately have "env_id (envs kdemo e) = 0 \<or> (\<exists>g. 0 < g \<and> g \<le> unat (mkenvid_i kdemo) \<and> env_id (envs kdemo e) = id_of g e)" for e
    by (cases "e = 0") (auto intro: exI [of _ 1])
  then show ?thesis by (simp add: ids_inv_def)
qed

theorem env_alloc_correct_witness:
  "\<exists>s'. env_alloc 2048 kdemo = Some (Inr 1, s') \<and> ids_inv s' \<and> env_parent_id (envs s' 1) = 2048 \<and>
     envid2env (env_id (envs s' 1)) False (upd_env 1 (\<lambda>en. en\<lparr>env_status := ENV_RUNNABLE\<rparr>) s') = Some (Inr (Some 1))"
proof -
  have "table_inv kdemo (1 # [2..<NENV]) [0]" using kdemo_table upt_conv_Cons [of 1 NENV] by (simp add: NENV_def numeral_2_eq_2 del: upt_rec_numeral)
  moreover have "pm kdemo = kdemo_pm" "unat (mkenvid_i kdemo) < 2 ^ 21 - 1" by (simp_all add: kdemo_def)
  moreover have "2 < unat (npage kdemo_pm)" "pp_ref kdemo_pm 2 = 0" by (simp_all add: kdemo_pm_def)
  moreover have "(0 :: nat) \<in> {..<NASID}" "0 \<notin> used_asids kdemo" by (simp_all add: kdemo_asids NASID_def)
  then have "used_asids kdemo \<noteq> {..<NASID}" by blast
  ultimately show ?thesis
    using env_alloc_correct [OF kdemo_space _ kdemo_boot _ _ _ _ kdemo_ids, of 1 "[2..<NENV]" "[0]" 2 2048]
    by auto
qed

text \<open>Error branch, which the code gets wrong: when no frame is free, \<^verbatim>\<open>env_setup_vm\<close> fails but \<^verbatim>\<open>env_alloc\<close>
  ignores its result.  If an ASID is free it reports success, and the environment it returns has no page
  directory of its own: \<^verbatim>\<open>env_pgdir\<close> is the value left by the previous user of the slot.\<close>

theorem env_alloc_ignores_no_mem:
  assumes inv: "vm_inv (pm s) D L X" and bd: "boot_dirs s kp b" and fl: "list_rep (env_free_list s) (e # fl)"
    and full: "\<And>p. p < unat (npage (pm s)) \<Longrightarrow> pp_ref (pm s) p = 0 \<Longrightarrow> p \<in> L" and asid: "used_asids s \<noteq> {..<NASID}"
  shows "\<exists>s'. page_alloc (pm s) = Some (Inl E_NO_MEM, pm s) \<and> env_alloc parent s = Some (Inr e, s') \<and> pm s' = pm s \<and>
     env_pgdir (envs s' e) = env_pgdir (envs s e) \<and> list_rep (env_free_list s') fl"
  using inv bd fl
proof (cases rule: env_alloc_cases [where parent = parent])
  case (ok e1 fl1 d k s')
  then show ?thesis using full by blast
next
  case (no_mem e' fl' k s')
  have "page_alloc (pm s) = Some (Inl E_NO_MEM, pm s)" by (rule page_alloc_cases [OF inv]) (use full in blast)+
  with no_mem show ?thesis by auto
qed (use asid in auto)

lemma NASID_0: "0 < NASID"
  by (simp add: NASID_def)

definition kdemo_full :: kstate where
  "kdemo_full = kdemo\<lparr>pm := kdemo_pm\<lparr>page_free_list := LIST_INIT zero_links\<rparr>\<rparr>"

theorem env_alloc_ignores_no_mem_witness:
  "\<exists>s'. env_alloc 0 kdemo_full = Some (Inr 1, s') \<and> env_pgdir (envs s' 1) = 0"
proof -
  let ?L = "{1, 2, 5, 6} :: nat set"
  let ?p = "kdemo_pm\<lparr>page_free_list := LIST_INIT zero_links\<rparr>"
  note I = vm_inv_cases [OF kdemo_vm]
  have pm: "pm kdemo_full = ?p" by (simp add: kdemo_full_def)
  have free: "p \<in> ?L \<longleftrightarrow> p < unat (npage ?p) \<and> pp_ref ?p p = 0" for p
    by (auto simp: kdemo_pm_def split: if_splits)
  have "\<not> (p < unat (npage ?p) \<and> pp_ref ?p p = 0 \<and> p \<notin> ?L)" for p using free [of p] by argo
  then have "set [] = {p. p < unat (npage ?p) \<and> pp_ref ?p p = 0 \<and> p \<notin> ?L}" unfolding set_eq_iff by simp
  moreover have "\<forall>p \<in> ?L. p < unat (npage ?p) \<and> pp_ref ?p p = 0" using free by (simp only: Ball_def) simp
  moreover have "list_rep (page_free_list ?p) []" by (simp add: list_rep_init)
  ultimately have "free_ok ?p ?L" unfolding free_ok_def by blast
  moreover have "tables_ok ?p {0} = tables_ok kdemo_pm {0}" "refs ?p {0} = refs kdemo_pm {0}"
    using view_cong [of ?p kdemo_pm] by simp_all
  ultimately have "vm_inv (pm kdemo_full) {0} ?L kdemo_X" using I by (simp add: vm_inv_def refs_ok_def pm)
  moreover have "boot_dirs kdemo_full 3 4" using kdemo_boot by (simp add: boot_dirs_def pm) (simp add: kdemo_full_def kdemo_def)
  moreover have "list_rep (env_free_list kdemo_full) (1 # [2..<NENV])"
    using kdemo_table upt_conv_Cons [of 1 NENV]
    by (simp add: table_inv_def kdemo_full_def NENV_def numeral_2_eq_2 del: upt_rec_numeral)
  moreover have "used_asids kdemo_full = {1}" using kdemo_asids by (simp add: used_asids_def kdemo_full_def)
  moreover have "{1 :: nat} \<noteq> {..<NASID}" using NASID_0 by (metis lessThan_iff singletonD zero_neq_one)
  ultimately have "\<exists>s'. page_alloc (pm kdemo_full) = Some (Inl E_NO_MEM, pm kdemo_full) \<and> env_alloc 0 kdemo_full = Some (Inr 1, s') \<and>
      pm s' = pm kdemo_full \<and> env_pgdir (envs s' 1) = env_pgdir (envs kdemo_full 1) \<and> list_rep (env_free_list s') [2..<NENV]"
    using free pm by (intro env_alloc_ignores_no_mem [of _ "{0}" ?L kdemo_X 3 4]) (simp_all only: simp_thms)
  moreover have "env_pgdir (envs kdemo_full 1) = 0" by (simp add: kdemo_full_def kdemo_def zero_env_def)
  ultimately show ?thesis by metis
qed

text \<open>Property C11. The ASID bitmap is a pool of 64: as many allocations in a row as there are free ASIDs succeed and give
  distinct ASIDs, and giving back an ASID just allocated restores the pool.\<close>

theorem asid_alloc_distinct:
  assumes "n \<le> card ({..<NASID} - used_asids s)"
  shows "\<exists>ks s'. alloc_n asid_alloc_nat n s = Some (ks, s') \<and> length ks = n \<and> distinct ks \<and>
     set ks \<subseteq> {..<NASID} - used_asids s \<and> {..<NASID} - used_asids s' = {..<NASID} - used_asids s - set ks"
  using assms by (rule asid_pool.alloc_n_distinct)

theorem asid_alloc_distinct_witness:
  "\<exists>ks s'. alloc_n asid_alloc_nat 63 kdemo = Some (ks, s') \<and> length ks = 63 \<and> distinct ks"
proof -
  have "card ({..<NASID} - used_asids kdemo) = 63" by (simp add: kdemo_asids NASID_def card_Diff_subset)
  then show ?thesis using asid_alloc_distinct [of 63 kdemo] by auto
qed
end
