(* ===== verification/Mos_Data.thy ===== *)
theory Mos_Data
  imports Mos_Vm_Ops
begin

text \<open>
  The contents of data pages.  The page-table operations of \<^verbatim>\<open>kern/pmap.c\<close> write only to page directories and page
  tables: \<open>page_insert_data\<close> says that a frame in use as data keeps every byte, so that what a process finds in a page it
  maps, or gets through a shared mapping, is what was written there.
\<close>

declare split_paired_All [simp del] split_paired_Ex [simp del]

definition same_frame :: "mem \<Rightarrow> mem \<Rightarrow> nat \<Rightarrow> bool" where
  "same_frame m m' q \<longleftrightarrow> (\<forall>k < 4096. m' (page2pa q + of_nat k) = m (page2pa q + of_nat k))"

lemma same_frame_refl [simp]: "same_frame m m q"
  by (simp add: same_frame_def)

lemma same_frame_trans: "same_frame m m1 q \<Longrightarrow> same_frame m1 m2 q \<Longrightarrow> same_frame m m2 q"
  by (simp add: same_frame_def)

lemma byte_unat:
  assumes "q < page_bound" "k < 4096"
  shows "unat (page2pa q + of_nat k) = 4096 * (q + 0x80200) + k"
  using assms by (subst unat_add_no_overflow) (simp_all add: page2pa_unat unat_of_nat page_bound_def)

lemma frame_byte_inj:
  assumes "q < page_bound" "k < 4096" "p < page_bound" "j < 4096" "page2pa q + of_nat k = page2pa p + of_nat j"
  shows "q = p" "k = j"
proof -
  have e: "4096 * (q + 0x80200) + k = 4096 * (p + 0x80200) + j"
    using byte_unat [OF assms(1,2)] byte_unat [OF assms(3,4)] assms(5) by simp
  then show "q = p" using assms(2,4) by (cases q p rule: linorder_cases) auto
  with e show "k = j" by simp
qed

lemma slot_byte:
  assumes "l < 1024" "j < 4"
  shows "\<exists>k < 4096. slot d l + of_nat j = page2pa d + of_nat k"
proof (intro exI conjI)
  show "4 * unat l + j < 4096" using assms by (simp add: word_less_nat_alt)
  show "slot d l + of_nat j = page2pa d + of_nat (4 * unat l + j)" by (simp add: slot_def)
qed

lemma same_frame_words:
  assumes "\<And>i. i < 1024 \<Longrightarrow> ent m' q i = ent m q i"
  shows "same_frame m m' q"
  unfolding same_frame_def
proof (intro allI impI)
  fix k assume k: "k < (4096 :: nat)"
  define a where "a = slot q (of_nat (k div 4))"
  have "unat (of_nat (k div 4) :: u32) = k div 4" using k by (simp add: unat_of_nat)
  then have "ld32 m' a = ld32 m a" using assms [of "of_nat (k div 4)"] k by (simp add: a_def ent_def word_less_nat_alt)
  then have b: "m' (a + of_nat j) = m (a + of_nat j)" if "j < 4" for j
    using bytes_of_ld32 [of m a] bytes_of_ld32 [of m' a] that by (auto simp: less_Suc_eq numeral_eq_Suc)
  have "a + of_nat (k mod 4) = page2pa q + of_nat (4 * (k div 4) + k mod 4)" unfolding a_def slot_def of_nat_add of_nat_mult by simp
  then have "a + of_nat (k mod 4) = page2pa q + of_nat k" by simp
  then show "m' (page2pa q + of_nat k) = m (page2pa q + of_nat k)" using b [of "k mod 4"] by simp
qed

lemma same_frame_st32:
  assumes "q < page_bound" "d < page_bound" "q \<noteq> d" "l < 1024"
  shows "same_frame m (st32 m (slot d l) v) q"
  unfolding same_frame_def
proof (intro allI impI)
  fix k assume k: "k < (4096 :: nat)"
  have ne: "page2pa q + of_nat k \<noteq> slot d l + of_nat j" if "j < 4" for j
    using slot_byte [OF assms(4) that, of d] frame_byte_inj(1) [OF assms(1) k assms(2)] assms(3) by metis
  from ne [of 0] ne [of 1] ne [of 2] ne [of 3]
  show "st32 m (slot d l) v (page2pa q + of_nat k) = m (page2pa q + of_nat k)" by (simp add: st32_def)
qed

lemma in_frame_iff:
  assumes "q < page_bound" "k < 4096" "p < page_bound"
  shows "page2pa p \<le> page2pa q + of_nat k \<and> page2pa q + of_nat k < page2pa p + 4096 \<longleftrightarrow> q = p"
proof -
  have "unat (page2pa p + 4096) = 4096 * (p + 0x80200) + 4096"
    using assms(3) by (subst unat_add_no_overflow) (simp_all add: page2pa_unat page_bound_def)
  then have "page2pa p \<le> page2pa q + of_nat k \<and> page2pa q + of_nat k < page2pa p + 4096
      \<longleftrightarrow> 4096 * (p + 0x80200) \<le> 4096 * (q + 0x80200) + k \<and> 4096 * (q + 0x80200) + k < 4096 * (p + 0x80200) + 4096"
    using byte_unat [OF assms(1,2)] by (simp add: word_le_nat_alt word_less_nat_alt page2pa_unat assms(3))
  then show ?thesis using assms(2) by (cases q p rule: linorder_cases) auto
qed

lemma same_frame_filled:
  assumes "q < page_bound" "p < page_bound" "q \<noteq> p"
  shows "same_frame m (filled m (page2pa p) (page2pa p + 4096) b) q"
  using in_frame_iff [OF assms(1) _ assms(2)] assms(3) by (auto simp: same_frame_def filled_def)

definition zero_frame :: "mem \<Rightarrow> nat \<Rightarrow> bool" where
  "zero_frame m q \<longleftrightarrow> (\<forall>k < 4096. m (page2pa q + of_nat k) = 0)"

lemma zero_frame_filled: "p < page_bound \<Longrightarrow> zero_frame (filled m (page2pa p) (page2pa p + 4096) 0) p"
  using in_frame_iff [of p _ p] by (auto simp: zero_frame_def filled_def)

lemma zero_frame_same: "zero_frame m q \<Longrightarrow> same_frame m m' q \<Longrightarrow> zero_frame m' q"
  by (simp add: zero_frame_def same_frame_def)

lemma page_decref_mem: "page_decref p s = Some s' \<Longrightarrow> mem s' = mem s"
  by (auto simp: page_decref_def page_free_def set_ref_def Let_def split: if_splits)

lemma page_remove_data:
  assumes inv: "vm_inv s D L X" and d: "d \<in> D" "user_va va" and run: "page_remove (page2pa d) asid va s = Some s'"
    and q: "q < page_bound" "q \<notin> ran (ptab s D)"
  shows "same_frame (mem s) (mem s') q"
proof (cases "maps s D (key d va)")
  case None
  then show ?thesis using page_remove_unmapped [OF vm_inv_cases(1) [OF inv] d None, of asid] run by simp
next
  case (Some p)
  obtain t where t: "ptab s D (d, PDX va) = Some t" "page_lookup (page2pa d) va s = Some (Some (p, slot t (PTX va)), s)"
    using page_lookup_mapped [OF vm_inv_cases(1) [OF inv] Some] by blast
  then obtain s1 where s1: "page_decref p s = Some s1" "mem s' = st32 (mem s1) (slot t (PTX va)) 0"
    using run by (auto simp: page_remove_def wr_def bind_eq_Some_conv)
  have "q \<noteq> t" using t(1) q(2) by (auto intro: ranI)
  then show ?thesis
    using same_frame_st32 [OF q(1) tables_okD(5) [OF vm_inv_cases(1) [OF inv] t(1)] _ PTX_less, of "mem s" va 0] s1(2)
    by (simp add: page_decref_mem [OF s1(1)])
qed

lemma insert_steps_data:
  assumes "q < page_bound" "d < page_bound" "t < page_bound" "q \<noteq> d" "q \<noteq> t"
  shows "same_frame (mem s) (mem (insert_steps (page2pa d) asid p (slot t (PTX va)) v s)) q"
proof -
  have "same_frame (mem s) (st32 (mem s) (slot t (PTX va)) v) q" by (rule same_frame_st32) (use assms PTX_less in auto)
  moreover have "same_frame (st32 (mem s) (slot t (PTX va)) v) (st32 (st32 (mem s) (slot t (PTX va)) v) (slot d (PDX UVPT)) 0) q"
    by (rule same_frame_st32) (use assms in \<open>auto simp: user_slots\<close>)
  ultimately show ?thesis
    by (simp add: insert_steps_def Let_def wr_def set_ref_def slot_def [of d, symmetric]) (erule (1) same_frame_trans)
qed

lemma page_insert_new_data:
  assumes inv: "vm_inv s D L X" and d: "d \<in> D" "user_va va"
    and run: "page_insert_new (page2pa d) asid p va (insert_perm perm) s = Some (r, s')"
    and q: "q < page_bound" "q \<notin> D" "q \<notin> ran (ptab s D)" "ptab s D (d, PDX va) = None \<Longrightarrow> pp_ref s q \<noteq> 0 \<or> q \<in> L"
  shows "same_frame (mem s) (mem s') q"
proof (cases "ptab s D (d, PDX va)")
  case (Some t)
  note ok = vm_inv_cases(1) [OF inv]
  have "q \<noteq> t" "q \<noteq> d" using Some q(2,3) d(1) by (auto intro: ranI)
  then show ?thesis
    using run page_insert_new_steps [OF pgdir_walk_present [OF ok Some], of asid p perm]
      insert_steps_data [OF q(1) tables_okD(3) [OF ok d(1)] tables_okD(5) [OF ok Some]] by auto
next
  case None
  show ?thesis
  proof (cases rule: pgdir_walk_create [OF inv d None])
    case 1
    then show ?thesis using run by (simp add: page_insert_new_def)
  next
    case (2 t s1)
    have t1: "ptab s1 D (d, PDX va) = Some t" by (simp add: 2)
    note ok = vm_inv_cases(1) [OF 2(2)]
    have b: "t < page_bound" "d < page_bound" using tables_okD(5) [OF ok t1] tables_okD(3) [OF ok d(1)] by simp_all
    have ne: "q \<noteq> t" "q \<noteq> d" using q(4) [OF None] 2(6,7) q(2) d(1) by auto
    have pd: "PDX va < 1024" using d(2) user_slot_less by (simp add: user_va_def)
    have "same_frame (mem s) (mem s1) q"
      unfolding 2(10) by (rule same_frame_trans [OF same_frame_filled same_frame_st32]) (use q b ne pd in auto)
    moreover have "same_frame (mem s1) (mem s') q"
      using run page_insert_new_steps [OF 2(1), of asid p perm] insert_steps_data [OF q(1) b(2,1) ne(2,1)] by auto
    ultimately show ?thesis by (rule same_frame_trans)
  qed
qed

lemma page_insert_data:
  assumes inv: "vm_inv s D L X" and d: "d \<in> D" "user_va va" and run: "page_insert (page2pa d) asid p va perm s = Some (r, s')"
    and q: "q < page_bound" "q \<notin> D" "q \<notin> ran (ptab s D)" "pp_ref s q \<noteq> 0 \<or> q \<in> L"
  shows "same_frame (mem s) (mem s') q"
proof (cases "ptab s D (d, PDX va)")
  note ok = vm_inv_cases(1) [OF inv]
  case None
  then have "page_insert_new (page2pa d) asid p va (insert_perm perm) s = Some (r, s')"
    using run pgdir_walk_absent [OF ok d None] by (simp add: page_insert_def insert_perm_def Let_def)
  then show ?thesis by (rule page_insert_new_data [OF inv d _ q(1-3)]) (use q(4) in simp)
next
  note ok = vm_inv_cases(1) [OF inv]
  case (Some t)
  note w = pgdir_walk_present [OF ok Some]
  let ?e = "ent (mem s) t (PTX va)"
  show ?thesis
  proof (cases "has ?e PTE_V")
    case False
    then have "page_insert_new (page2pa d) asid p va (insert_perm perm) s = Some (r, s')"
      using run w by (simp add: page_insert_def insert_perm_def Let_def rd_ent)
    then show ?thesis by (rule page_insert_new_data [OF inv d _ q(1-3)]) (use q(4) in simp)
  next
    case True
    have pe: "ptes s D (key d va) = ?e" using Some PTX_less by (simp add: ptes_def key_def)
    then obtain o' where o': "maps s D (key d va) = Some o'" using tables_okD(13) [OF ok] True by metis
    then have po: "pa2page s (PTE_ADDR ?e) = Some o'" using True pe by (simp add: maps_def entry_frame_def)
    show ?thesis
    proof (cases "o' = p")
      case True
      have "q \<noteq> t" using Some q(3) by (auto intro: ranI)
      then have "same_frame (mem s) (st32 (mem s) (slot t (PTX va)) v) q" for v
        by (intro same_frame_st32) (use q(1) tables_okD(5) [OF ok Some] PTX_less in auto)
      then show ?thesis using run w \<open>has ?e PTE_V\<close> po True
        by (auto simp: page_insert_def Let_def rd_ent wr_def)
    next
      case False
      obtain s1 where s1: "page_remove (page2pa d) asid va s = Some s1" "vm_inv s1 D L X" "ptab s1 D = ptab s D"
        using page_remove_mapped [OF inv o', of asid] by blast
      then have "page_insert_new (page2pa d) asid p va (insert_perm perm) s1 = Some (r, s')"
        using run w \<open>has ?e PTE_V\<close> po False by (simp add: page_insert_def insert_perm_def Let_def rd_ent)
      then have "same_frame (mem s1) (mem s') q"
        by (rule page_insert_new_data [OF s1(2) d]) (use q(1-3) s1(3) Some in auto)
      with page_remove_data [OF inv d s1(1) q(1,3)] show ?thesis by (rule same_frame_trans)
    qed
  qed
qed

section \<open>Allocating a page and mapping it\<close>

text \<open>A frame that holds data: it is in use, but not as a directory or a page table.\<close>

definition data_frame :: "('a) pmap_scheme \<Rightarrow> nat set \<Rightarrow> nat set \<Rightarrow> nat \<Rightarrow> bool" where
  "data_frame s D L q \<longleftrightarrow> q < page_bound \<and> q \<notin> D \<and> q \<notin> ran (ptab s D) \<and> (pp_ref s q \<noteq> 0 \<or> q \<in> L)"

text \<open>What \<^verbatim>\<open>page_alloc\<close> followed by \<^verbatim>\<open>page_insert\<close> does, for \<^verbatim>\<open>passive_alloc\<close>, \<^verbatim>\<open>sys_mem_alloc\<close> and the program loader alike.\<close>

lemma alloc_insert_cases:
  assumes inv: "vm_inv s D L X" and d: "d \<in> D" "user_va va" and fl: "flag_bits perm"
  obtains (no_page) "page_alloc s = Some (Inl E_NO_MEM, s)" "\<And>q. q < unat (npage s) \<Longrightarrow> pp_ref s q = 0 \<Longrightarrow> q \<in> L"
  | (leak) p s1 where "page_alloc s = Some (Inr p, s1)" "page_insert (page2pa d) asid p va perm s1 = Some (Inl E_NO_MEM, s1)"
      "vm_inv s1 D (insert p L) X" "ptes s1 D = ptes s D" "p \<notin> L" "npage s1 = npage s"
      "\<And>q. q < unat (npage s) \<Longrightarrow> pp_ref s q = 0 \<Longrightarrow> q \<in> insert p L" "ptab s D (d, PDX va) = None"
  | (ok) p s1 s' where "page_alloc s = Some (Inr p, s1)" "page_insert (page2pa d) asid p va perm s1 = Some (Inr (), s')"
      "vm_inv s' D L X" "npage s' = npage s" "ptes s' D = (ptes s D)(key d va := new_pte p perm)" "maps s' D (key d va) = Some p"
      "pp_ref s p = 0" "p \<notin> L" "p < page_bound" "zero_frame (mem s') p"
      "\<And>q. data_frame s D L q \<Longrightarrow> same_frame (mem s) (mem s') q" "covers (hd (fences s')) va asid"
      "pp_ref s' p = 1"
proof (cases rule: page_alloc_cases [OF inv])
  case 1
  then show thesis by (rule no_page)
next
  case (2 p s1)
  have np: "npage s1 = npage s" using 2(11) by (simp add: alloc_frame_def)
  note un = unreferenced [OF vm_inv_cases(1,2) [OF inv] 2(2,3)]
  have nb: "unat (npage s) \<le> page_bound" using tables_okD(1) [OF vm_inv_cases(1) [OF inv]] .
  have ins: "insertable s1 D (insert p L) p" using 2(2,3,6,9) un np by (auto simp: insertable_def ran_def)
  show thesis
  proof (cases rule: page_insert_cases [OF 2(5) d ins fl, of asid])
    case f: 1
    show thesis by (rule leak [OF 2(1) f(1) 2(5)]) (use f(2,3) 2(4,6,7,9) np in auto)
  next
    case g: (2 s')
    have pb: "p < page_bound" using 2(2) nb by simp
    have L: "insert p L - {p} = L" using 2(4) by auto
    have same: "same_frame (mem s1) (mem s') q" if "data_frame s1 D (insert p L) q" for q
      by (rule page_insert_data [OF 2(5) d g(1)]) (use that in \<open>simp_all add: data_frame_def\<close>)
    have pd: "data_frame s1 D (insert p L) p" using pb un 2(6) by (auto simp: data_frame_def ran_def)
    have z: "zero_frame (mem s') p"
      using zero_frame_same [OF _ same [OF pd]] zero_frame_filled [OF pb] 2(12) by simp
    have df: "same_frame (mem s) (mem s') q" if q: "data_frame s D L q" for q
    proof -
      have "q \<noteq> p" using q 2(3,4) by (auto simp: data_frame_def)
      then have "same_frame (mem s) (mem s1) q"
        unfolding 2(12) by (intro same_frame_filled) (use q pb in \<open>auto simp: data_frame_def\<close>)
      moreover have "data_frame s1 D (insert p L) q" using q 2(6,9) by (simp add: data_frame_def)
      ultimately show ?thesis using same same_frame_trans by blast
    qed
    have mp: "maps s' D (key d va) = Some p"
      using new_pte_frame [of p s' perm] 2(2) nb g(3,5) np fl by (simp add: maps_def)
    have "maps s1 D (key d va) \<noteq> Some p" using un(3) [of "key d va"] maps_npage [OF np 2(7)] by simp
    then have pr: "pp_ref s' p = 1" using g(4) 2(3,9) by simp
    show thesis
      by (rule ok [OF 2(1) g(1)]) (use g 2(3,4,7) L pb z df mp np pr in auto)
  qed
qed
end
