(* ===== verification/Mos_Trap.thy ===== *)
theory Mos_Trap
  imports Mos_Sched Mos_Data
begin

text \<open>
  Page faults: \<^verbatim>\<open>kern/tlbex.c\<close>, and the dispatch table of \<^verbatim>\<open>kern/traps.c\<close>.

  The trap frame that the handlers get is the one below \<^verbatim>\<open>KSTACKTOP\<close>, \<open>kstack_tf\<close>.  The kernel touches user memory
  through the current page directory, as \<^verbatim>\<open>exception_entry\<close> sets \<^verbatim>\<open>sstatus.SUM\<close>: \<open>uva_pa\<close> is the walk of the hardware, and a
  kernel access that faults enters \<^verbatim>\<open>do_tlb_miss\<close> again from supervisor mode (\<open>kload_miss\<close>, \<open>kstore_miss\<close>).  In that
  nested case a copy-on-write page does not help: \<^verbatim>\<open>do_tlb_mod\<close> would resume the user's handler in supervisor mode, where a
  user page cannot be executed, and the fetch fault that follows panics.  The accessed and dirty bits, which the
  hardware sets by itself, are not tracked.
\<close>

declare split_paired_All [simp del] split_paired_Ex [simp del]

section \<open>Address translation\<close>

definition uva_pa :: "('a) pmap_scheme \<Rightarrow> u32 \<Rightarrow> u32 \<Rightarrow> u32 \<Rightarrow> u32 option" where
  "uva_pa s pgdir flag va =
     (let pde = rd s (pgdir + 4 * PDX va); pte = rd s (PTE_ADDR pde + 4 * PTX va)
      in if has pde PTE_V \<and> has pte PTE_V \<and> has pte flag then Some (PTE_ADDR pte + (va AND 0xFFF)) else None)"

section \<open>Demand allocation\<close>

definition passive_alloc :: "u32 \<Rightarrow> u32 \<Rightarrow> u32 \<Rightarrow> kstate \<Rightarrow> kstate option" where
  "passive_alloc va pgdir asid s =
     (if va < UTEMP then None
      else if va \<ge> USTACKTOP \<and> va < USTACKTOP + BY2PG then None
      else if va \<ge> UENVS \<and> va < UPAGES then None
      else if va \<ge> UPAGES \<and> va < UVPT then None
      else if va \<ge> ULIM then None
      else do {
        (r, p) \<leftarrow> page_alloc (pm s);
        case r of
          Inl _ \<Rightarrow> None
        | Inr pp \<Rightarrow> do {
            (r, p) \<leftarrow> page_insert pgdir asid pp (ROUNDDOWN va BY2PG) (PTE_R OR PTE_W OR PTE_U) p;
            case r of Inl _ \<Rightarrow> None | Inr _ \<Rightarrow> Some (s\<lparr>pm := p\<rparr>) } })"

section \<open>Kernel accesses to user memory\<close>

text \<open>\<^verbatim>\<open>do_tlb_miss\<close> for a fault of the kernel itself, when it comes back.\<close>

definition kstore_miss :: "u32 \<Rightarrow> kstate \<Rightarrow> kstate option" where
  "kstore_miss va s = do {
     (r, _) \<leftarrow> page_lookup (cur_pgdir s) (ROUNDDOWN va BY2PG) (pm s);
     case r of
       Some _ \<Rightarrow> None
     | None \<Rightarrow> do { ce \<leftarrow> the_curenv s; passive_alloc (ROUNDDOWN va BY2PG) (cur_pgdir s) (env_asid ce) s } }"

definition kstore8 :: "u32 \<Rightarrow> u8 \<Rightarrow> kstate \<Rightarrow> kstate option" where
  "kstore8 va b s =
     (case uva_pa (pm s) (cur_pgdir s) PTE_W va of
        Some pa \<Rightarrow> Some (s\<lparr>pm := (pm s)\<lparr>mem := (mem (pm s))(pa := b)\<rparr>\<rparr>)
      | None \<Rightarrow> do { s \<leftarrow> kstore_miss va s;
                     pa \<leftarrow> uva_pa (pm s) (cur_pgdir s) PTE_W va;
                     Some (s\<lparr>pm := (pm s)\<lparr>mem := (mem (pm s))(pa := b)\<rparr>\<rparr>) })"

fun kstores :: "u32 \<Rightarrow> u8 list \<Rightarrow> kstate \<Rightarrow> kstate option" where
  "kstores va [] s = Some s"
| "kstores va (b # bs) s = do { s \<leftarrow> kstore8 va b s; kstores (va + 1) bs s }"

text \<open>A load faults in the same way, but only the normal user addresses are filled in on demand.\<close>

definition kload_miss :: "u32 \<Rightarrow> kstate \<Rightarrow> kstate option" where
  "kload_miss va s = do {
     let addr = ROUNDDOWN va BY2PG;
     (r, _) \<leftarrow> page_lookup (cur_pgdir s) addr (pm s);
     if r = None \<and> UTEMP \<le> addr \<and> addr < USTACKTOP
     then do { ce \<leftarrow> the_curenv s; passive_alloc addr (cur_pgdir s) (env_asid ce) s }
     else None }"

definition kload8 :: "u32 \<Rightarrow> kstate \<Rightarrow> (u8 \<times> kstate) option" where
  "kload8 va s =
     (case uva_pa (pm s) (cur_pgdir s) PTE_R va of
        Some pa \<Rightarrow> Some (mem (pm s) pa, s)
      | None \<Rightarrow> do { s \<leftarrow> kload_miss va s;
                     pa \<leftarrow> uva_pa (pm s) (cur_pgdir s) PTE_R va;
                     Some (mem (pm s) pa, s) })"

fun kloads :: "u32 \<Rightarrow> nat \<Rightarrow> kstate \<Rightarrow> (u8 list \<times> kstate) option" where
  "kloads va 0 s = Some ([], s)"
| "kloads va (Suc n) s = do { (b, s) \<leftarrow> kload8 va s; (bs, s) \<leftarrow> kloads (va + 1) n s; Some (b # bs, s) }"

section \<open>Trap frames as bytes\<close>

definition bytes32 :: "u32 \<Rightarrow> u8 list" where
  "bytes32 v = [ucast v, ucast (drop_bit 8 v), ucast (drop_bit 16 v), ucast (drop_bit 24 v)]"

definition word_at :: "u8 list \<Rightarrow> nat \<Rightarrow> u32" where
  "word_at bs i = ucast (bs ! (4 * i)) OR push_bit 8 (ucast (bs ! (4 * i + 1)))
     OR push_bit 16 (ucast (bs ! (4 * i + 2))) OR push_bit 24 (ucast (bs ! (4 * i + 3)))"

definition tf_words :: "trapframe \<Rightarrow> u32 list" where
  "tf_words tf = map (tf_regs tf) [0..<32] @
     [tf_sstatus tf, tf_sscratch tf, tf_scause tf, tf_sepc tf, tf_stval tf, tf_sip tf]"

definition tf_bytes :: "trapframe \<Rightarrow> u8 list" where
  "tf_bytes tf = concat (map bytes32 (tf_words tf))"

definition tf_of_bytes :: "u8 list \<Rightarrow> trapframe" where
  "tf_of_bytes bs = \<lparr>tf_regs = (\<lambda>r. if r < 32 then word_at bs r else 0), tf_sstatus = word_at bs 32, tf_sscratch = word_at bs 33,
     tf_scause = word_at bs 34, tf_sepc = word_at bs 35, tf_stval = word_at bs 36, tf_sip = word_at bs 37\<rparr>"

definition TRAPFRAME_SIZE :: u32 where "TRAPFRAME_SIZE = 152"

section \<open>Handlers\<close>

definition do_tlb_mod :: "kstate \<Rightarrow> kstate option" where
  "do_tlb_mod s =
     (let tmp_tf = kstack_tf s;
          sp = tf_sscratch tmp_tf;
          sp = (if sp < USTACKTOP \<or> sp \<ge> UXSTACKTOP then UXSTACKTOP else sp);
          sp = sp - TRAPFRAME_SIZE
      in do {
           s \<leftarrow> kstores sp (tf_bytes tmp_tf) (s\<lparr>kstack_tf := tmp_tf\<lparr>tf_sscratch := sp\<rparr>\<rparr>);
           ce \<leftarrow> the_curenv s;
           if env_user_tlb_mod_entry ce \<noteq> 0
           then Some (s\<lparr>kstack_tf := (set_reg 10 sp (kstack_tf s))\<lparr>tf_sscratch := sp - 4, tf_sepc := env_user_tlb_mod_entry ce\<rparr>\<rparr>)
           else None })"

fun user_ptes :: "nat list \<Rightarrow> u32 \<Rightarrow> ('a) pmap_scheme \<Rightarrow> ('a) pmap_scheme" where
  "user_ptes [] pt s = s"
| "user_ptes (i # is) pt s =
     (let a = pt + 4 * of_nat i
      in user_ptes is pt (if has (rd s a) PTE_V then wr s a (rd s a OR (PTE_R OR PTE_U)) else s))"

definition self_map :: "u32 \<Rightarrow> kstate \<Rightarrow> kstate option" where
  "self_map addr s = do {
     c \<leftarrow> curenv s;
     (p, s) \<leftarrow> (if env_pgdir_copy_pa (envs s c) = 0 then
                  do { (r, q) \<leftarrow> page_alloc (pm s);
                       case r of
                         Inl _ \<Rightarrow> None
                       | Inr p \<Rightarrow> Some (p, upd_env c (\<lambda>en. en\<lparr>env_pgdir_copy_pa := page2pa p\<rparr>)
                                           (s\<lparr>pm := set_ref q p (pp_ref q p + 1)\<rparr>)) }
                else do { p \<leftarrow> pa2page (pm s) (env_pgdir_copy_pa (envs s c)); Some (p, s) });
     kva \<leftarrow> page2kva (pm s) p;
     m \<leftarrow> memcpy (mem (pm s)) kva (cur_pgdir s) BY2PG;
     let q = user_ptes [0..<1024] kva ((pm s)\<lparr>mem := m\<rparr>);
     let q = wr q (kva + 4 * PDX UVPT) (ADDR_PTE (cur_pgdir s) OR PTE_V OR PTE_R OR PTE_U);
     let q = wr q (cur_pgdir s + 4 * PDX UVPT) (ADDR_PTE kva OR PTE_V);
     let pte_idx = (addr - UVPT) div BY2PG;
     if \<not> has (rd q (cur_pgdir s + 4 * pte_idx)) PTE_V then None else Some (s\<lparr>pm := q\<rparr>) }"

definition do_tlb_miss :: "kstate \<Rightarrow> kstate option" where
  "do_tlb_miss s =
     (let scause = tf_scause (kstack_tf s);
          addr = ROUNDDOWN (tf_stval (kstack_tf s)) BY2PG
      in do {
           (r, p) \<leftarrow> page_lookup (cur_pgdir s) addr (pm s);
           case r of
             Some (_, pte) \<Rightarrow> if scause = 15 \<and> has (rd p pte) PTE_COW then do_tlb_mod s else None
           | None \<Rightarrow>
               if scause = 15 then
                 do { ce \<leftarrow> the_curenv s; passive_alloc addr (cur_pgdir s) (env_asid ce) s }
               else if scause = 13 then
                 if addr \<ge> UTEMP \<and> addr < USTACKTOP then
                   do { ce \<leftarrow> the_curenv s; passive_alloc addr (cur_pgdir s) (env_asid ce) s }
                 else if addr < UVPT \<or> addr \<ge> ULIM then None
                 else self_map addr s
               else None })"

section \<open>Demand allocation\<close>

lemma ROUNDDOWN_bits: "bit (ROUNDDOWN va BY2PG) n \<longleftrightarrow> 12 \<le> n \<and> bit va n"
proof -
  have "(BY2PG - 1 :: u32) = mask 12" by (simp add: BY2PG_def mask_eq_exp_minus_1)
  then show ?thesis by (auto simp: ROUNDDOWN_def bit_and_iff bit_not_iff bit_mask_iff dest: bit_imp_le_length)
qed

lemma ROUNDDOWN_key: "PDX (ROUNDDOWN va BY2PG) = PDX va" "PTX (ROUNDDOWN va BY2PG) = PTX va"
  by (auto intro!: bit_word_eqI simp: PDX_def PTX_def bit_and_iff bit_drop_bit_eq ROUNDDOWN_bits)

lemma ROUNDDOWN_twice: "ROUNDDOWN (ROUNDDOWN va BY2PG) BY2PG = ROUNDDOWN va BY2PG"
  by (rule bit_word_eqI) (auto simp: ROUNDDOWN_bits)

lemma ROUNDDOWN_unat: "unat (ROUNDDOWN va BY2PG) = 4096 * (unat va div 4096)"
proof -
  have "unat va mod 4096 \<le> unat va" by simp
  then have "va - ROUNDDOWN va BY2PG \<le> va" by (simp add: word_le_nat_alt page_offset_unat)
  then have "unat (va - (va - ROUNDDOWN va BY2PG)) = unat va - unat va mod 4096"
    by (simp only: unat_sub page_offset_unat)
  then show ?thesis by (simp add: minus_mod_eq_mult_div)
qed

lemma ROUNDDOWN_le: "4096 dvd unat b \<Longrightarrow> b \<le> ROUNDDOWN va BY2PG \<longleftrightarrow> b \<le> va"
  by (auto simp: word_le_nat_alt ROUNDDOWN_unat elim!: dvdE)

lemma ROUNDDOWN_less: "4096 dvd unat b \<Longrightarrow> ROUNDDOWN va BY2PG < b \<longleftrightarrow> va < b"
  using ROUNDDOWN_le [of b va] by (simp add: not_le [symmetric])

lemma user_va_UTOP: "va < UTOP \<Longrightarrow> user_va va"
proof -
  assume "va < UTOP"
  then have u: "unat va < 0x7f400000" by (simp add: word_less_nat_alt layout_defs)
  have "unat (drop_bit 22 va) = unat va div 4194304" by (simp add: unat_drop_bit_eq) (simp add: drop_bit_eq_div)
  moreover have "unat (PDX va) \<le> unat (drop_bit 22 va)"
    unfolding PDX_def word_le_nat_alt [symmetric] by (rule word_and_le2)
  ultimately have "unat (PDX va) < 509" using u by simp
  then show ?thesis by (simp add: user_va_def user_slots word_less_nat_alt)
qed

definition alloc_perm :: u32 where
  "alloc_perm = PTE_R OR PTE_W OR PTE_U"

lemma passive_alloc_cases:
  assumes inv: "vm_inv (pm s) D L X" and d: "d \<in> D" and va: "UTEMP \<le> va" "va < UTOP" "\<not> (USTACKTOP \<le> va \<and> va < USTACKTOP + BY2PG)"
  obtains (fail) p where "passive_alloc va (page2pa d) asid s = None"
      "\<And>q. q < unat (npage (pm s)) \<Longrightarrow> pp_ref (pm s) q = 0 \<Longrightarrow> q \<in> insert p L"
  | (ok) p p' where "passive_alloc va (page2pa d) asid s = Some (s\<lparr>pm := p'\<rparr>)" "vm_inv p' D L X" "npage p' = npage (pm s)"
      "ptes p' D = (ptes (pm s) D)(key d va := new_pte p alloc_perm)" "maps p' D (key d va) = Some p"
      "pp_ref (pm s) p = 0" "p \<notin> L" "p < page_bound" "zero_frame (mem p') p"
      "\<And>q. data_frame (pm s) D L q \<Longrightarrow> same_frame (mem (pm s)) (mem p') q"
      "covers (hd (fences p')) (ROUNDDOWN va BY2PG) asid"
proof -
  have g: "\<not> va < UTEMP" "\<not> (UENVS \<le> va \<and> va < UPAGES)" "\<not> (UPAGES \<le> va \<and> va < UVPT)" "\<not> ULIM \<le> va"
    using va by (simp_all add: layout_defs word_le_nat_alt word_less_nat_alt)
  let ?va = "ROUNDDOWN va BY2PG"
  have k: "key d ?va = key d va" by (simp add: key_def ROUNDDOWN_key)
  have u: "user_va ?va" using user_va_UTOP [OF va(2)] by (simp add: user_va_def ROUNDDOWN_key)
  have fl: "flag_bits alloc_perm" by (simp add: alloc_perm_def flag_bits_or flag_bits_pte)
  note run = passive_alloc_def alloc_perm_def [symmetric]
  show thesis
  proof (cases rule: alloc_insert_cases [OF inv d u fl, where asid = asid])
    case 1
    show thesis by (rule fail) (use 1 g va(3) in \<open>auto simp: run\<close>)
  next
    case (2 p s1)
    show thesis by (rule fail [of p]) (use 2(1,2,7) g va(3) in \<open>auto simp: run\<close>)
  next
    case (3 p s1 s')
    show thesis by (rule ok [of s' p]) (use 3 g va(3) in \<open>auto simp: run k\<close>)
  qed
qed

section \<open>Properties\<close>

text \<open>Property C12. Demand paging: a load or store fault at an unmapped normal user address (between \<^verbatim>\<open>UTEMP\<close> and
  \<^verbatim>\<open>USTACKTOP\<close>) maps, at exactly that page of the current address space, a zeroed frame that nothing referred to, readable
  and writable; every other entry of every address space, the contents of every page in use and the exactness of the
  reference counts are kept.  The kernel panics only when at most one frame is left.\<close>

theorem do_tlb_miss_demand:
  assumes inv: "vm_inv (pm s) D L X" and d: "d \<in> D" "cur_pgdir s = page2pa d" "curenv s = Some c"
    and cause: "tf_scause (kstack_tf s) \<in> {13, 15}" and va: "tf_stval (kstack_tf s) = va" "UTEMP \<le> va" "va < USTACKTOP"
    and none: "maps (pm s) D (key d va) = None"
  shows "do_tlb_miss s = None \<and> (\<exists>p. \<forall>q. q < unat (npage (pm s)) \<and> pp_ref (pm s) q = 0 \<longrightarrow> q \<in> insert p L)
     \<or> (\<exists>p p'. do_tlb_miss s = Some (s\<lparr>pm := p'\<rparr>) \<and> vm_inv p' D L X \<and>
          ptes p' D = (ptes (pm s) D)(key d va := new_pte p (PTE_R OR PTE_W OR PTE_U)) \<and> maps p' D (key d va) = Some p \<and>
          pp_ref (pm s) p = 0 \<and> p \<notin> L \<and> zero_frame (mem p') p \<and>
          (\<forall>q. data_frame (pm s) D L q \<longrightarrow> same_frame (mem (pm s)) (mem p') q))"
proof -
  let ?va = "ROUNDDOWN va BY2PG"
  have dv: "4096 dvd unat UTEMP" "4096 dvd unat USTACKTOP" by (simp_all add: layout_defs)
  have r: "UTEMP \<le> ?va" "?va < USTACKTOP" using va by (simp_all add: ROUNDDOWN_le dv ROUNDDOWN_less)
  then have r2: "?va < UTOP" "\<not> (USTACKTOP \<le> ?va \<and> ?va < USTACKTOP + BY2PG)"
    by (simp_all add: layout_defs word_less_nat_alt word_le_nat_alt)
  have k: "key d ?va = key d va" by (simp add: key_def ROUNDDOWN_key)
  have "page_lookup (page2pa d) ?va (pm s) = Some (None, pm s)"
    by (rule page_lookup_unmapped [OF vm_inv_cases(1) [OF inv] d(1) user_va_UTOP [OF r2(1)]]) (simp add: k none)
  then have run: "do_tlb_miss s = passive_alloc ?va (page2pa d) (env_asid (envs s c)) s"
    using cause va(1) r d(2,3) by (auto simp: do_tlb_miss_def the_curenv_def)
  from inv d(1) r(1) r2 show ?thesis
  proof (cases rule: passive_alloc_cases [where asid = "env_asid (envs s c)"])
    case (fail p)
    then show ?thesis using run by auto
  next
    case (ok p p')
    then show ?thesis using run by (intro disjI2 exI [of _ p] exI [of _ p']) (simp add: k alloc_perm_def)
  qed
qed

definition fault_at :: "u32 \<Rightarrow> u32 \<Rightarrow> kstate \<Rightarrow> kstate" where
  "fault_at cause va s = s\<lparr>kstack_tf := (kstack_tf s)\<lparr>tf_scause := cause, tf_stval := va\<rparr>\<rparr>"

theorem do_tlb_miss_demand_witness:
  "\<exists>p p'. do_tlb_miss (fault_at 13 0x400123 kdemo) = Some ((fault_at 13 0x400123 kdemo)\<lparr>pm := p'\<rparr>) \<and>
     maps p' {0} (0, 1, 0) = Some p \<and> zero_frame (mem p') p"
proof -
  let ?s = "fault_at 13 0x400123 kdemo"
  have s: "vm_inv (pm ?s) {0} {1} kdemo_X" "cur_pgdir ?s = page2pa 0" "curenv ?s = Some 0"
    "tf_scause (kstack_tf ?s) \<in> {13, 15}" "tf_stval (kstack_tf ?s) = 0x400123"
    using kdemo_vm by (simp_all add: fault_at_def) (simp_all add: kdemo_def)
  have va: "UTEMP \<le> 0x400123" "0x400123 < USTACKTOP" by (simp_all add: layout_defs)
  have z: "ent (mem kdemo_pm) d i = 0" for d i by (simp add: kdemo_pm_def demo_def ent_def ld32_def)
  have k: "key 0 0x400123 = (0, 1, 0)" by (simp add: key_def PDX_def PTX_def)
  have none: "maps (pm ?s) {0} (key 0 0x400123) = None"
    by (simp add: maps_def ptes_def ptab_def table_at_def fault_at_def k kdemo_def z)
  have two: "\<not> (\<exists>p. \<forall>q. q < unat (npage (pm ?s)) \<and> pp_ref (pm ?s) q = 0 \<longrightarrow> q \<in> insert p {1})"
  proof
    assume "\<exists>p. \<forall>q. q < unat (npage (pm ?s)) \<and> pp_ref (pm ?s) q = 0 \<longrightarrow> q \<in> insert p {1}"
    then obtain p where p: "\<And>q. q < unat (npage (pm ?s)) \<Longrightarrow> pp_ref (pm ?s) q = 0 \<Longrightarrow> q = p \<or> q = 1" by auto
    show False using p [of 2] p [of 5] by (simp add: fault_at_def kdemo_def kdemo_pm_def)
  qed
  from do_tlb_miss_demand [OF s(1) _ s(2-5) va none] two show ?thesis by (auto simp: k)
qed

section \<open>Kernel accesses to mapped user pages\<close>

lemma page_offset: "(va :: u32) AND 0xFFF = of_nat (unat va mod 4096)"
proof -
  have m: "(0xFFF :: u32) = mask 12" by (simp add: mask_eq_exp_minus_1)
  have "unat (va AND 0xFFF) = unat va mod 4096"
    unfolding m by (simp add: unat_mod take_bit_eq_mod flip: take_bit_eq_mask)
  then show ?thesis by (simp add: word_unat_eq_iff unat_of_nat)
qed

lemma key_page:
  assumes "unat va div 4096 = unat vb div 4096"
  shows "key d va = key d vb"
proof -
  have "ROUNDDOWN va BY2PG = ROUNDDOWN vb BY2PG" using assms by (simp add: word_unat_eq_iff ROUNDDOWN_unat)
  then show ?thesis using ROUNDDOWN_key [of va] ROUNDDOWN_key [of vb] by (simp add: key_def)
qed

lemma offset_in_page:
  fixes va :: u32
  assumes "unat va mod 4096 + i < 4096"
  shows "key d (va + of_nat i) = key d va" "unat (va + of_nat i) mod 4096 = unat va mod 4096 + i"
proof -
  have "unat va = 4096 * (unat va div 4096) + unat va mod 4096" by simp
  moreover have "unat va div 4096 < 1048576" using unat_less_2_32 [of va] by simp
  ultimately have "unat va + i < 4294967296" using assms by linarith
  then have u: "unat (va + of_nat i) = unat va + i" by (simp add: unat_word_ariths unat_of_nat)
  have s: "(4096 * q + r + i) div 4096 = q \<and> (4096 * q + r + i) mod 4096 = r + i" if "r + i < 4096" for q r :: nat
    using that by (simp add: add.assoc)
  have d: "unat (va + of_nat i) div 4096 = unat va div 4096" "unat (va + of_nat i) mod 4096 = unat va mod 4096 + i"
    using s [OF assms, of "unat va div 4096"] unfolding u by simp_all
  show "key d (va + of_nat i) = key d va" by (rule key_page [OF d(1)])
  show "unat (va + of_nat i) mod 4096 = unat va mod 4096 + i" by (rule d(2))
qed

lemma next_in_page:
  fixes va :: u32
  assumes "unat va mod 4096 + 1 < 4096"
  shows "unat (va + 1) div 4096 = unat va div 4096" "unat (va + 1) mod 4096 = unat va mod 4096 + 1"
proof -
  have "unat va \<noteq> 4294967295" using assms by auto
  then have "unat va + 1 < 2 ^ 32" using unat_less_2_32 [of va] by simp
  then have u: "unat (va + 1) = unat va + 1" by (simp add: unat_word_ariths)
  show "unat (va + 1) div 4096 = unat va div 4096" "unat (va + 1) mod 4096 = unat va mod 4096 + 1"
    using assms unfolding u by (auto simp: mod_Suc div_Suc)
qed

lemma uva_pa_mapped:
  assumes ok: "tables_ok s D" and m: "maps s D (key d va) = Some p" and f: "has (ptes s D (key d va)) flag"
  shows "uva_pa s (page2pa d) flag va = Some (page2pa p + of_nat (unat va mod 4096))"
proof -
  obtain t where t: "ptab s D (d, PDX va) = Some t" "entry_frame s (ent (mem s) t (PTX va)) = Some p"
    using maps_key [OF m] by blast
  have pt: "ptes s D (key d va) = ent (mem s) t (PTX va)" using t(1) PTX_less by (simp add: ptes_def key_def)
  note e = ptab_Some_entry [OF ok t(1)] entry_frame_Some [OF t(2) tables_okD(1) [OF ok]]
  show ?thesis
    using e f unfolding uva_pa_def Let_def slot_def [symmetric] by (simp add: rd_ent pt page_offset flip: slot_def)
qed

fun put_bytes :: "mem \<Rightarrow> u32 \<Rightarrow> u8 list \<Rightarrow> mem" where
  "put_bytes m a [] = m"
| "put_bytes m a (b # bs) = put_bytes (m(a := b)) (a + 1) bs"

lemma data_write_view:
  fixes b :: u8
  assumes ok: "tables_ok s D" and p: "p \<notin> D" "p \<notin> ran (ptab s D)" "p < page_bound" and k: "k < 4096"
  defines "s' \<equiv> s\<lparr>mem := (mem s)(page2pa p + of_nat k := b)\<rparr>"
  shows "ptab s' D = ptab s D" "ptes s' D = ptes s D" "tables_ok s' D" "refs s' D = refs s D" "maps s' D = maps s D"
proof -
  have e: "ent (mem s') q l = ent (mem s) q l" if q: "q < page_bound" "q \<noteq> p" "l < 1024" for q l
  proof -
    have "slot q l + of_nat j \<noteq> page2pa p + of_nat k" if j: "j < 4" for j
      using slot_byte [OF q(3) j, of q] frame_byte_inj(1) [OF q(1) _ p(3) k] q(2) by metis
    from this [of 0] this [of 1] this [of 2] this [of 3] show ?thesis by (simp add: ent_def ld32_def s'_def)
  qed
  have np: "npage s' = npage s" by (simp add: s'_def)
  have dir: "ent (mem s') q l = ent (mem s) q l" if "q \<in> D" "l < PDX UTOP" for q l
    by (rule e) (use that tables_okD(3) [OF ok] p(1) user_slot_less in auto)
  show tab: "ptab s' D = ptab s D" by (rule ptab_eqI) (simp_all add: np dir)
  show pte: "ptes s' D = ptes s D"
    by (rule ptes_eqI [OF tab]) (use e tables_okD(5) [OF ok] p(2) in \<open>blast intro: ranI\<close>)
  show "tables_ok s' D" "refs s' D = refs s D" using tables_ok_same [OF ok np tab pte dir] by simp_all
  show "maps s' D = maps s D" by (rule maps_npage [OF np pte])
qed

lemma data_write_inv:
  assumes inv: "vm_inv s D L X" and p: "maps s D ky = Some p" and k: "k < 4096"
  shows "vm_inv (s\<lparr>mem := (mem s)(page2pa p + of_nat k := b)\<rparr>) D L X"
    "ptes (s\<lparr>mem := (mem s)(page2pa p + of_nat k := b)\<rparr>) D = ptes s D"
    "maps (s\<lparr>mem := (mem s)(page2pa p + of_nat k := b)\<rparr>) D = maps s D"
proof -
  note i = vm_inv_cases [OF inv]
  have "p \<notin> D" "p \<notin> ran (ptab s D)" "p < page_bound"
    using tables_okD(9,10,11) [OF i(1) p] tables_okD(1) [OF i(1)] by (auto simp: ran_def)
  note w = data_write_view [OF i(1) this k, of b]
  show "vm_inv (s\<lparr>mem := (mem s)(page2pa p + of_nat k := b)\<rparr>) D L X"
    using i w(3,4) by (simp add: vm_inv_def refs_ok_def free_ok_def)
  show "ptes (s\<lparr>mem := (mem s)(page2pa p + of_nat k := b)\<rparr>) D = ptes s D"
    "maps (s\<lparr>mem := (mem s)(page2pa p + of_nat k := b)\<rparr>) D = maps s D" using w by simp_all
qed

lemma kstores_run:
  assumes "vm_inv (pm s) D L X" "cur_pgdir s = page2pa d" "maps (pm s) D (key d va) = Some p"
    "has (ptes (pm s) D (key d va)) PTE_W" "unat va mod 4096 + length bs \<le> 4096"
  shows "kstores va bs s = Some (s\<lparr>pm := (pm s)\<lparr>mem := put_bytes (mem (pm s)) (page2pa p + of_nat (unat va mod 4096)) bs\<rparr>\<rparr>) \<and>
    vm_inv ((pm s)\<lparr>mem := put_bytes (mem (pm s)) (page2pa p + of_nat (unat va mod 4096)) bs\<rparr>) D L X \<and>
    ptes ((pm s)\<lparr>mem := put_bytes (mem (pm s)) (page2pa p + of_nat (unat va mod 4096)) bs\<rparr>) D = ptes (pm s) D"
  using assms
proof (induction bs arbitrary: va s)
  case Nil
  then show ?case by simp
next
  case (Cons b bs)
  let ?o = "unat va mod 4096"
  let ?p = "(pm s)\<lparr>mem := (mem (pm s))(page2pa p + of_nat ?o := b)\<rparr>"
  have o: "?o < 4096" by simp
  note w = data_write_inv [OF Cons.prems(1,3) o, of b]
  have st: "kstore8 va b s = Some (s\<lparr>pm := ?p\<rparr>)"
    using uva_pa_mapped [OF vm_inv_cases(1) [OF Cons.prems(1)] Cons.prems(3,4)] Cons.prems(2) by (simp add: kstore8_def)
  show ?case
  proof (cases bs)
    case Nil
    then show ?thesis using st w by (simp add: fun_upd_def)
  next
    case (Cons b' bs')
    then have lt: "?o + 1 < 4096" using Cons.prems(5) by simp
    note nx = next_in_page [OF lt]
    have "key d (va + 1) = key d va" by (rule key_page [OF nx(1)])
    then show ?thesis
      using Cons.IH [of "s\<lparr>pm := ?p\<rparr>" "va + 1"] w Cons.prems st nx(2) by (simp add: ac_simps fun_upd_def)
  qed
qed

lemma kloads_run:
  assumes "tables_ok (pm s) D" "cur_pgdir s = page2pa d" "maps (pm s) D (key d va) = Some p"
    "has (ptes (pm s) D (key d va)) PTE_R" "unat va mod 4096 + n \<le> 4096"
  shows "kloads va n s = Some (map (\<lambda>i. mem (pm s) (page2pa p + of_nat (unat va mod 4096) + of_nat i)) [0..<n], s)"
  using assms
proof (induction n arbitrary: va)
  case 0
  then show ?case by simp
next
  case (Suc n)
  let ?o = "unat va mod 4096"
  have ld: "kload8 va s = Some (mem (pm s) (page2pa p + of_nat ?o), s)"
    using uva_pa_mapped [OF Suc.prems(1,3,4)] Suc.prems(2) by (simp add: kload8_def)
  have up: "[0..<Suc n] = 0 # map Suc [0..<n]" by (simp add: map_Suc_upt upt_conv_Cons del: upt_Suc)
  show ?case
  proof (cases n)
    case 0
    then show ?thesis using ld by simp
  next
    case (Suc m)
    then have lt: "?o + 1 < 4096" using Suc.prems(5) by simp
    note nx = next_in_page [OF lt]
    have "key d (va + 1) = key d va" by (rule key_page [OF nx(1)])
    then show ?thesis
      using Suc.IH [of "va + 1"] Suc.prems ld nx(2) unfolding up by (simp add: ac_simps del: upt_Suc)
  qed
qed

section \<open>Trap frames in memory\<close>

lemma put_bytes_apply:
  assumes "length bs \<le> 4096"
  shows "put_bytes m a bs x = (if unat (x - a) < length bs then bs ! unat (x - a) else m x)"
  using assms
proof (induction bs arbitrary: m a)
  case Nil
  then show ?case by simp
next
  case (Cons b bs)
  show ?case
  proof (cases "x = a")
    case True
    have "x - (a + 1) = - 1" using True by simp
    then have "unat (x - (a + 1)) = 4294967295" by (simp add: unsigned_minus_1_eq_mask mask_eq_exp_minus_1)
    then show ?thesis using Cons True by simp
  next
    case False
    have e: "x - (a + 1) = x - a - 1" by (simp add: algebra_simps)
    have "unat (x - (a + 1)) = unat (x - a) - 1" "unat (x - a) \<noteq> 0"
      using False unat_minus_1 [of "x - a"] unfolding e by (simp_all add: unat_eq_0)
    then show ?thesis using Cons False by (auto simp: nth_Cons')
  qed
qed

lemma length_tf_words: "length (tf_words tf) = 38"
  by (simp add: tf_words_def)

lemma length_bytes: "length (concat (map bytes32 ws)) = 4 * length ws"
  by (induction ws) (simp_all add: bytes32_def)

lemma length_tf_bytes: "length (tf_bytes tf) = 152"
  by (simp add: tf_bytes_def length_bytes length_tf_words)

lemma bytes_nth:
  assumes "i < length ws" "j < 4"
  shows "concat (map bytes32 ws) ! (4 * i + j) = bytes32 (ws ! i) ! j"
  using assms
proof (induction ws arbitrary: i)
  case (Cons w ws)
  have "length (bytes32 w) = 4" by (simp add: bytes32_def)
  then show ?case using Cons by (cases i) (simp_all add: nth_append)
qed simp

lemma word_at_bytes:
  assumes "i < length ws"
  shows "word_at (concat (map bytes32 ws)) i = ws ! i"
proof -
  let ?w = "ws ! i"
  have "bytes32 ?w ! 0 = ucast ?w" "bytes32 ?w ! 1 = ucast (drop_bit 8 ?w)" "bytes32 ?w ! 2 = ucast (drop_bit 16 ?w)"
    "bytes32 ?w ! 3 = ucast (drop_bit 24 ?w)"
    by (simp_all add: bytes32_def numeral_2_eq_2 numeral_3_eq_3)
  moreover have "ucast (ucast ?w :: u8) OR push_bit 8 (ucast (ucast (drop_bit 8 ?w) :: u8))
      OR push_bit 16 (ucast (ucast (drop_bit 16 ?w) :: u8)) OR push_bit 24 (ucast (ucast (drop_bit 24 ?w) :: u8)) = ?w"
    using ld32_st32_same [of "\<lambda>_. 0" 0 ?w] by (simp add: ld32_def st32_def)
  ultimately show ?thesis
    using bytes_nth [OF assms, of 0] bytes_nth [OF assms, of 1] bytes_nth [OF assms, of 2] bytes_nth [OF assms, of 3]
    by (simp add: word_at_def)
qed

lemma tf_roundtrip: "tf_words (tf_of_bytes (tf_bytes tf)) = tf_words tf"
proof (rule nth_equalityI)
  fix i assume "i < length (tf_words (tf_of_bytes (tf_bytes tf)))"
  then have i: "i < 38" by (simp add: length_tf_words)
  have w: "word_at (tf_bytes tf) j = tf_words tf ! j" if "j < 38" for j
    unfolding tf_bytes_def by (rule word_at_bytes) (use that in \<open>simp add: length_tf_words\<close>)
  have "[0..<38] = [0..<32] @ [32, 33, 34, 35, 36, 37]" by (simp add: upt_rec)
  then have "tf_words (tf_of_bytes (tf_bytes tf)) = map (word_at (tf_bytes tf)) [0..<38]"
    by (simp add: tf_words_def tf_of_bytes_def del: upt_rec_numeral)
  then show "tf_words (tf_of_bytes (tf_bytes tf)) ! i = tf_words tf ! i" using i w by simp
qed (simp add: length_tf_words)

text \<open>Property C13. \<^verbatim>\<open>do_tlb_mod\<close> hands a copy-on-write fault to the user's handler: with a handler registered and the exception
  stack mapped writable, it resumes at the handler with the address of a trap frame in \<^verbatim>\<open>a0\<close> and the stack below it;
  reading that frame back through the address space gives all 38 registers of the interrupted context; no page table, no
  reference count and no other page changes.  Without a handler the kernel panics.\<close>

theorem do_tlb_mod_correct:
  assumes inv: "vm_inv (pm s) D L X" and cur: "cur_pgdir s = page2pa d" "curenv s = Some c"
    and ub: "ub = (if tf_sscratch (kstack_tf s) < USTACKTOP \<or> UXSTACKTOP \<le> tf_sscratch (kstack_tf s) then UXSTACKTOP
                     else tf_sscratch (kstack_tf s))" "UXSTACKTOP - BY2PG + 152 \<le> ub"
    and sp: "sp = ub - 152"
    and page: "maps (pm s) D (key d sp) = Some p" "has (ptes (pm s) D (key d sp)) PTE_R" "has (ptes (pm s) D (key d sp)) PTE_W"
  shows "(env_user_tlb_mod_entry (envs s c) = 0 \<longrightarrow> do_tlb_mod s = None) \<and>
    (env_user_tlb_mod_entry (envs s c) \<noteq> 0 \<longrightarrow>
      (\<exists>s' bs. do_tlb_mod s = Some s' \<and> tf_sepc (kstack_tf s') = env_user_tlb_mod_entry (envs s c) \<and>
         tf_regs (kstack_tf s') = (tf_regs (kstack_tf s))(10 := sp) \<and> tf_sscratch (kstack_tf s') = sp - 4 \<and>
         kloads sp 152 s' = Some (bs, s') \<and> tf_words (tf_of_bytes bs) = tf_words (kstack_tf s) \<and>
         vm_inv (pm s') D L X \<and> ptes (pm s') D = ptes (pm s) D \<and> pp_ref (pm s') = pp_ref (pm s) \<and>
         (\<forall>q. q < page_bound \<and> q \<noteq> p \<longrightarrow> same_frame (mem (pm s)) (mem (pm s')) q)))"
proof -
  let ?tf = "kstack_tf s"
  let ?o = "unat sp mod 4096"
  have u: "unat UXSTACKTOP = 0x7f400000" "unat (UXSTACKTOP - BY2PG + 152) = 0x7f3ff000 + 152" by (simp_all add: layout_defs)
  have "unat ub \<le> 0x7f400000" "0x7f3ff000 + 152 \<le> unat ub"
    using ub by (auto simp: word_less_nat_alt word_le_nat_alt u split: if_splits)
  moreover from this have "unat sp = unat ub - 152" unfolding sp by (subst unat_sub) (simp_all add: word_le_nat_alt)
  ultimately have "0x7f3ff000 \<le> unat sp" "unat sp + 152 \<le> 0x7f400000" by simp_all
  moreover define k where "k = unat sp - 4096 * 0x7f3ff"
  ultimately have "unat sp = k + 4096 * 0x7f3ff" "k + 152 \<le> 4096" by simp_all
  then have o: "?o + 152 \<le> 4096" by (simp only: mod_mult_self2 mod_less)
  define s0 where "s0 = s\<lparr>kstack_tf := ?tf\<lparr>tf_sscratch := sp\<rparr>\<rparr>"
  define m' where "m' = put_bytes (mem (pm s)) (page2pa p + of_nat ?o) (tf_bytes ?tf)"
  define s1 where "s1 = s0\<lparr>pm := (pm s)\<lparr>mem := m'\<rparr>\<rparr>"
  have st: "kstores sp (tf_bytes ?tf) s0 = Some s1" "vm_inv (pm s1) D L X" "ptes (pm s1) D = ptes (pm s) D"
    using kstores_run [of s0 D L X d sp p "tf_bytes ?tf"] inv cur page o by (simp_all add: s0_def s1_def m'_def length_tf_bytes)
  let ?en = "env_user_tlb_mod_entry (envs s c)"
  define s' where "s' = s1\<lparr>kstack_tf := (set_reg 10 sp (kstack_tf s1))\<lparr>tf_sscratch := sp - 4, tf_sepc := ?en\<rparr>\<rparr>"
  have run: "do_tlb_mod s = (if ?en = 0 then None else Some s')"
    using st(1) cur(2) by (simp add: do_tlb_mod_def Let_def sp ub(1) [symmetric] TRAPFRAME_SIZE_def s0_def s1_def s'_def the_curenv_def)
  have pm': "pm s' = (pm s)\<lparr>mem := m'\<rparr>" "pm s' = pm s1" "cur_pgdir s' = page2pa d" using cur(1) by (simp_all add: s'_def s1_def s0_def)
  have "npage (pm s1) = npage (pm s)" by (simp add: s1_def)
  then have mp: "maps (pm s') D = maps (pm s) D" using maps_npage [OF _ st(3)] by (simp only: pm'(2))
  have pb: "p < page_bound" using tables_okD(1,11) [OF vm_inv_cases(1) [OF inv]] page(1) by (meson less_le_trans)
  have ld: "kloads sp 152 s' = Some (map (\<lambda>i. m' (page2pa p + of_nat ?o + of_nat i)) [0..<152], s')"
    using kloads_run [of s' D d sp p 152] vm_inv_cases(1) [OF st(2)] page mp pm' st(3) o by simp
  have "m' (page2pa p + of_nat ?o + of_nat i) = tf_bytes ?tf ! i" if "i < 152" for i
    using that by (simp add: m'_def put_bytes_apply length_tf_bytes unat_of_nat)
  then have bs: "map (\<lambda>i. m' (page2pa p + of_nat ?o + of_nat i)) [0..<152] = tf_bytes ?tf"
    by (intro nth_equalityI) (simp_all add: length_tf_bytes)
  have fr: "same_frame (mem (pm s)) m' q" if "q < page_bound" "q \<noteq> p" for q
    unfolding same_frame_def
  proof (intro allI impI)
    fix k assume k: "k < (4096 :: nat)"
    let ?x = "page2pa q + of_nat k" and ?b = "page2pa p + of_nat ?o"
    have "\<not> unat (?x - ?b) < 152"
    proof
      assume j: "unat (?x - ?b) < 152"
      have "?x = ?b + of_nat (unat (?x - ?b))" by simp
      also have "\<dots> = page2pa p + of_nat (?o + unat (?x - ?b))" by simp
      finally have "?x = page2pa p + of_nat (?o + unat (?x - ?b))" .
      moreover have "?o + unat (?x - ?b) < 4096" using j o by linarith
      ultimately show False using frame_byte_inj(1) [OF that(1) k pb] that(2) by blast
    qed
    then show "m' ?x = mem (pm s) ?x" by (simp add: m'_def put_bytes_apply length_tf_bytes)
  qed
  show ?thesis
    using run ld bs st(2,3) fr tf_roundtrip [of ?tf] pm'
    by (simp add: s'_def s1_def s0_def set_reg_def)
qed

lemma has_bits: "has e PTE_R \<longleftrightarrow> bit e 1" "has e PTE_W \<longleftrightarrow> bit e 2" "has e PTE_U \<longleftrightarrow> bit e 4"
  using bit_iff_and_push_bit_not_eq_0 [of e 1] bit_iff_and_push_bit_not_eq_0 [of e 2] bit_iff_and_push_bit_not_eq_0 [of e 4]
  by (simp_all add: has_def pte_defs)

lemma ADDR_PTE_low: "k < 10 \<Longrightarrow> \<not> bit (ADDR_PTE a) k"
  by (simp add: ADDR_PTE_def bit_push_bit_iff)

lemma has_new_pte: "has (new_pte p f) PTE_W \<longleftrightarrow> has f PTE_W" "has (new_pte p f) PTE_COW \<longleftrightarrow> has f PTE_COW"
proof -
  have c: "has e PTE_COW \<longleftrightarrow> bit e 8" for e :: u32
    using and_exp_eq_0_iff_not_bit [of e 8] by (simp add: has_def PTE_COW_def)
  have b: "\<not> bit PTE_R 2" "\<not> bit PTE_V 2" "\<not> bit PTE_R 8" "\<not> bit PTE_V 8" by (simp_all add: pte_defs)
  show "has (new_pte p f) PTE_W \<longleftrightarrow> has f PTE_W" "has (new_pte p f) PTE_COW \<longleftrightarrow> has f PTE_COW"
    using ADDR_PTE_low [of 2] ADDR_PTE_low [of 8] b by (simp_all add: c has_bits new_pte_def insert_perm_def bit_or_iff)
qed

text \<open>\<open>kdemo\<close> with a handler and a writable page at the top of the exception stack.\<close>

definition kdemo_mod :: "pmap \<Rightarrow> kstate" where
  "kdemo_mod p = (upd_env 0 (\<lambda>en. en\<lparr>env_user_tlb_mod_entry := 0x400100\<rparr>) kdemo)\<lparr>pm := p\<rparr>"

theorem do_tlb_mod_correct_witness:
  "\<exists>p s' bs. do_tlb_mod (kdemo_mod p) = Some s' \<and> tf_sepc (kstack_tf s') = 0x400100 \<and>
     kloads 0x7f3fff68 152 s' = Some (bs, s') \<and> tf_words (tf_of_bytes bs) = tf_words zero_tf"
proof -
  let ?va = "0x7f3fff68 :: u32"
  have va: "UTEMP \<le> ?va" "?va < UTOP" "\<not> (USTACKTOP \<le> ?va \<and> ?va < USTACKTOP + BY2PG)" by (simp_all add: layout_defs)
  have inv: "vm_inv (pm kdemo) {0} {1} kdemo_X" using kdemo_vm by (simp add: kdemo_def)
  obtain q and p' :: pmap where p: "vm_inv p' {0} {1} kdemo_X" "ptes p' {0} = (ptes (pm kdemo) {0})(key 0 ?va := new_pte q alloc_perm)"
    "maps p' {0} (key 0 ?va) = Some q"
  proof (cases rule: passive_alloc_cases [OF inv _ va, of 0 1])
    case (2 r)
    show thesis using 2(2) [of 2] 2(2) [of 5] by (simp add: kdemo_def kdemo_pm_def)
  next
    case (3 q p')
    then show thesis using that [of p' q] by simp
  qed simp
  have f: "has (new_pte q alloc_perm) PTE_R" "has (new_pte q alloc_perm) PTE_W"
    by (simp_all add: has_bits new_pte_def insert_perm_def alloc_perm_def bit_or_iff) (simp_all add: pte_defs bit_numeral_rec)
  let ?s = "kdemo_mod p'"
  have s: "pm ?s = p'" "cur_pgdir ?s = page2pa 0" "curenv ?s = Some 0" "kstack_tf ?s = zero_tf" "env_user_tlb_mod_entry (envs ?s 0) = 0x400100"
    by (simp_all add: kdemo_mod_def) (simp_all add: kdemo_def)
  have "UXSTACKTOP = (if tf_sscratch (kstack_tf ?s) < USTACKTOP \<or> UXSTACKTOP \<le> tf_sscratch (kstack_tf ?s) then UXSTACKTOP
      else tf_sscratch (kstack_tf ?s))" "UXSTACKTOP - BY2PG + 152 \<le> UXSTACKTOP" "?va = UXSTACKTOP - 152"
    unfolding s(4) by (simp_all add: zero_tf_def layout_defs)
  from do_tlb_mod_correct [OF _ s(2,3) this, of "{0}" "{1}" kdemo_X q] p f s show ?thesis by auto
qed

section \<open>The user's view of its page tables\<close>

lemma PDX_unat: "unat (PDX va) = unat va div 4194304 mod 1024"
proof -
  have m: "(0x3FF :: u32) = mask 10" by (simp add: mask_eq_exp_minus_1)
  have "unat (drop_bit 22 va) = unat va div 4194304" by (simp add: unat_drop_bit_eq) (simp add: drop_bit_eq_div)
  then show ?thesis unfolding PDX_def m by (simp add: unat_mod take_bit_eq_mod flip: take_bit_eq_mask)
qed

lemma PTX_unat: "unat (PTX va) = unat va div 4096 mod 1024"
proof -
  have m: "(0x3FF :: u32) = mask 10" by (simp add: mask_eq_exp_minus_1)
  have "unat (drop_bit 12 va) = unat va div 4096" by (simp add: unat_drop_bit_eq) (simp add: drop_bit_eq_div)
  then show ?thesis unfolding PTX_def m by (simp add: unat_mod take_bit_eq_mod flip: take_bit_eq_mask)
qed

text \<open>\<^verbatim>\<open>vpt[VPN(va)]\<close> as an address.\<close>

definition vpt_va :: "u32 \<Rightarrow> u32" where
  "vpt_va va = UVPT + 4 * VPN va"

lemma vpt_parts:
  shows "PDX (vpt_va va) = PDX UVPT" "PTX (vpt_va va) = PDX va" "unat (vpt_va va) mod 4096 = 4 * unat (PTX va)"
    "(ROUNDDOWN (vpt_va va) BY2PG - UVPT) div BY2PG = PDX va" "UVPT \<le> ROUNDDOWN (vpt_va va) BY2PG" "ROUNDDOWN (vpt_va va) BY2PG < ULIM"
proof -
  have v: "unat (VPN va) = unat va div 4096" by (simp add: VPN_def unat_drop_bit_eq) (simp add: drop_bit_eq_div)
  have lt: "unat va div 4096 < 1048576" using unat_less_2_32 [of va] by (simp add: div_less_iff_less_mult)
  have uv: "unat UVPT = 0x7fc00000" by (simp add: layout_defs)
  have v4: "unat (4 * VPN va) = 4 * (unat va div 4096)" using lt by (simp add: unat_word_ariths v)
  have u: "unat (vpt_va va) = 0x7fc00000 + 4 * (unat va div 4096)"
    unfolding vpt_va_def using lt by (subst unat_add_no_overflow) (simp_all add: v4 uv)
  let ?n = "unat va div 4096"
  have d: "?n div 1024 < 1024" using lt by (simp add: div_less_iff_less_mult)
  have dv: "?n div 1024 = unat va div 4194304" by (simp add: div_mult2_eq [symmetric])
  have "(0x7fc00000 + 4 * ?n) div 4194304 = 511" using lt by (simp add: div_less_iff_less_mult)
  then show "PDX (vpt_va va) = PDX UVPT" by (simp add: word_unat_eq_iff PDX_unat u user_slots)
  have q: "(0x7fc00000 + 4 * ?n) div 4096 = 0x7fc00 + ?n div 1024"
  proof -
    have "(0x7fc00000 + 4 * ?n) div 4096 = (4 * (0x1ff00000 + ?n)) div (4 * 1024)" by simp
    also have "\<dots> = (0x1ff00000 + ?n) div 1024" by (rule div_mult_mult1) simp
    finally show ?thesis by simp
  qed
  have m: "(523264 + y) mod 1024 = y" if "y < 1024" for y :: nat
    using mod_add_left_eq [of 523264 1024 y] that by simp
  show "PTX (vpt_va va) = PDX va" using q d m by (simp add: word_unat_eq_iff PTX_unat PDX_unat u dv)
  have "(0x7fc00000 + 4 * ?n) mod 4096 = 4 * ?n mod 4096" using mod_add_left_eq [of "0x7fc00000" 4096 "4 * ?n"] by simp
  then have "(0x7fc00000 + 4 * ?n) mod 4096 = 4 * (?n mod 1024)" by (simp add: mult_mod_right)
  then show "unat (vpt_va va) mod 4096 = 4 * unat (PTX va)" by (simp add: u PTX_unat)
  have r: "unat (ROUNDDOWN (vpt_va va) BY2PG) = 0x7fc00000 + 4096 * (?n div 1024)" by (simp add: ROUNDDOWN_unat u q)
  then show le: "UVPT \<le> ROUNDDOWN (vpt_va va) BY2PG" by (simp add: word_le_nat_alt uv)
  show "ROUNDDOWN (vpt_va va) BY2PG < ULIM" using d by (simp add: word_less_nat_alt r) (simp add: layout_defs)
  have "unat (ROUNDDOWN (vpt_va va) BY2PG - UVPT) = 4096 * (?n div 1024)" using le by (simp add: unat_sub r uv)
  then show "(ROUNDDOWN (vpt_va va) BY2PG - UVPT) div BY2PG = PDX va"
    using d by (simp add: word_unat_eq_iff unat_div PDX_unat dv BY2PG_def)
qed

lemma user_ptes_run:
  assumes "p < page_bound" "distinct is" "\<And>i. i \<in> set is \<Longrightarrow> i < 1024"
  shows "npage (user_ptes is (page2pa p) s) = npage s \<and> pp_ref (user_ptes is (page2pa p) s) = pp_ref s \<and>
     page_free_list (user_ptes is (page2pa p) s) = page_free_list s \<and>
     (\<forall>e l. e < page_bound \<and> l < 1024 \<longrightarrow> ent (mem (user_ptes is (page2pa p) s)) e l =
        (if e = p \<and> unat l \<in> set is \<and> has (ent (mem s) p l) PTE_V then ent (mem s) p l OR (PTE_R OR PTE_U) else ent (mem s) e l))"
  using assms(2,3)
proof (induction "is" arbitrary: s)
  case Nil
  then show ?case by simp
next
  case (Cons i "is")
  let ?i = "of_nat i :: u32"
  have i: "?i < 1024" "unat ?i = i" using Cons.prems(2) [of i] by (simp_all add: word_less_nat_alt unat_of_nat)
  have eq: "(l = ?i) = (unat l = i)" for l using i(2) by (auto simp: word_unat_eq_iff)
  let ?s = "if has (ent (mem s) p ?i) PTE_V then wr s (slot p ?i) (ent (mem s) p ?i OR (PTE_R OR PTE_U)) else s"
  have run: "user_ptes (i # is) (page2pa p) s = user_ptes is (page2pa p) ?s"
    by (simp add: Let_def rd_ent flip: slot_def)
  have "ent (mem ?s) e l = (if e = p \<and> unat l = i \<and> has (ent (mem s) p l) PTE_V then ent (mem s) p l OR (PTE_R OR PTE_U) else ent (mem s) e l)"
    if "e < page_bound" "l < 1024" for e l
    using that ent_st32 [OF assms(1) i(1) that, of "mem s"] eq [of l] by (auto simp: wr_def)
  moreover have "npage ?s = npage s" "pp_ref ?s = pp_ref s" "page_free_list ?s = page_free_list s" by simp_all
  ultimately show ?case
    unfolding run using Cons.IH [of ?s] Cons.prems assms(1) by auto
qed

text \<open>The state that \<open>self_map\<close> leaves: \<open>p\<close> holds a copy of the directory \<open>d\<close> whose valid entries are readable by the user,
  and slot \<open>PDX UVPT\<close> of \<open>d\<close> points to it.\<close>

lemma self_map_mem:
  assumes b: "p < page_bound" "d < page_bound" "p \<noteq> d"
  obtains m q where "memcpy (mem s) (page2pa p) (page2pa d) BY2PG = Some m"
    "q = wr (wr (user_ptes [0..<1024] (page2pa p) (s\<lparr>mem := m\<rparr>)) (page2pa p + 4 * PDX UVPT) v) (page2pa d + 4 * PDX UVPT) w"
    "npage q = npage s" "pp_ref q = pp_ref s" "page_free_list q = page_free_list s"
    "\<And>e l. e < page_bound \<Longrightarrow> l < 1024 \<Longrightarrow> ent (mem q) e l =
       (if e = p then (if l = PDX UVPT then v else if has (ent (mem s) d l) PTE_V then ent (mem s) d l OR (PTE_R OR PTE_U) else ent (mem s) d l)
        else if e = d \<and> l = PDX UVPT then w else ent (mem s) e l)"
proof -
  obtain m where m: "memcpy (mem s) (slot p 0) (slot d 0) (4 * 1024) = Some m"
    "\<forall>e l. e < page_bound \<and> l < 1024 \<longrightarrow> ent m e l = (if e = p then ent (mem s) d l else ent (mem s) e l)"
    using copy_slots [OF b, of 0 1024 "mem s"] by (auto simp: word_less_nat_alt)
  let ?u = "user_ptes [0..<1024] (page2pa p) (s\<lparr>mem := m\<rparr>)"
  have u: "npage ?u = npage s \<and> pp_ref ?u = pp_ref s \<and> page_free_list ?u = page_free_list s \<and>
     (\<forall>e l. e < page_bound \<and> l < 1024 \<longrightarrow> ent (mem ?u) e l =
        (if e = p \<and> has (ent m p l) PTE_V then ent m p l OR (PTE_R OR PTE_U) else ent m e l))"
    using user_ptes_run [OF b(1), of "[0..<1024]" "s\<lparr>mem := m\<rparr>"] by (simp add: word_less_nat_alt)
  have h: "PDX UVPT < 1024" by (simp add: user_slots)
  let ?q = "wr (wr ?u (slot p (PDX UVPT)) v) (slot d (PDX UVPT)) w"
  have e: "ent (mem ?q) e l =
       (if e = p then (if l = PDX UVPT then v else if has (ent (mem s) d l) PTE_V then ent (mem s) d l OR (PTE_R OR PTE_U) else ent (mem s) d l)
        else if e = d \<and> l = PDX UVPT then w else ent (mem s) e l)" if "e < page_bound" "l < 1024" for e l
    using that b h u m(2) by (auto simp: wr_def ent_st32)
  show thesis
    by (rule that [of m ?q]) (use m(1) u e in \<open>simp_all add: slot_def BY2PG_def\<close>)
qed

lemma PTE_ADDR_flags: "PTE_ADDR (e OR (PTE_R OR PTE_U)) = PTE_ADDR e"
proof -
  have "(e OR (PTE_R OR PTE_U)) AND NOT 0x3FF = e AND NOT 0x3FF" by (simp add: bit.conj_disj_distrib2 pte_defs)
  then show ?thesis by (simp add: PTE_ADDR_def)
qed

text \<open>What the self map leaves as it was and what can be read through it: \<open>q2\<close> is the memory afterwards, with the copy of directory \<open>d\<close> in
  frame \<open>p\<close>, and \<open>m\<close> the memory before.\<close>

lemma self_map_view:
  assumes tb: "tables_ok s D" and d: "d \<in> D" and b: "p < page_bound" "p \<notin> D" "\<And>k. ptab s D k \<noteq> Some p" and np: "npage q2 = npage s"
    and v: "v = ADDR_PTE (page2pa p) OR PTE_V"
    and same: "\<And>e l. e < page_bound \<Longrightarrow> l < 1024 \<Longrightarrow> e \<noteq> p \<Longrightarrow> ent (mem q2) e l = (if e = d \<and> l = PDX UVPT then v else ent (mem s) e l)"
    and copy: "\<And>l. l < PDX UTOP \<Longrightarrow> has (ent (mem s) d l) PTE_V \<Longrightarrow> ent (mem q2) p l = ent (mem s) d l OR (PTE_R OR PTE_U)"
  shows "ptab q2 D = ptab s D" "ptes q2 D = ptes s D" "\<And>e l. e \<in> D \<Longrightarrow> l < PDX UTOP \<Longrightarrow> ent (mem q2) e l = ent (mem s) e l"
    "\<And>vb u. ptab s D (d, PDX vb) = Some u \<Longrightarrow> uva_pa q2 (page2pa d) PTE_R (vpt_va vb) = Some (slot u (PTX vb))"
proof -
  have hi: "PDX UVPT < 1024" "\<not> PDX UVPT < PDX UTOP" by (simp_all add: user_slots)
  show dir: "ent (mem q2) e l = ent (mem s) e l" if "e \<in> D" "l < PDX UTOP" for e l
  proof -
    have "e \<noteq> p" "l \<noteq> PDX UVPT" using that b(2) hi(2) by auto
    then show ?thesis using same [OF tables_okD(3) [OF tb that(1)] user_slot_less [OF that(2)]] by simp
  qed
  show tab: "ptab q2 D = ptab s D" by (rule ptab_eqI [OF np dir])
  show "ptes q2 D = ptes s D"
  proof (rule ptes_eqI [OF tab])
    fix k u j assume k: "ptab s D k = Some u" "j < (1024 :: u32)"
    have "u \<noteq> p" "u \<noteq> d" using k(1) b(3) [of k] tables_okD(7) [OF tb k(1)] d by auto
    then show "ent (mem q2) u j = ent (mem s) u j" using same [OF tables_okD(5) [OF tb k(1)] k(2)] by simp
  qed
  fix vb u assume u: "ptab s D (d, PDX vb) = Some u"
  have pv: "PDX vb < PDX UTOP" using ptab_dom [OF u] by simp
  note e = ptab_Some_entry [OF tb u]
  have "page2pa p AND 0xFFF = 0" using b(1) by (rule page2pa_aligned)
  then have w: "PTE_ADDR v = page2pa p" "has v PTE_V" unfolding v by (intro PTE_ADDR_ADDR_PTE) simp_all
  have "ent (mem q2) d (PDX UVPT) = v" using same [OF tables_okD(3) [OF tb d] hi(1)] b(2) d by auto
  moreover have "has (x OR (PTE_R OR PTE_U)) PTE_R" for x by (simp add: has_bits bit_or_iff) (simp add: PTE_R_def bit_numeral_rec)
  ultimately show "uva_pa q2 (page2pa d) PTE_R (vpt_va vb) = Some (slot u (PTX vb))"
    using w e(1,2) copy [OF pv e(1)] unfolding uva_pa_def Let_def slot_def [symmetric] vpt_parts rd_ent
    by (simp add: vpt_parts page_offset PTE_ADDR_flags w(1) rd_ent flip: slot_def)
qed


end
