(* ===== verification/Mos_Boot.thy ===== *)
theory Mos_Boot
  imports Mos_Trap
begin

text \<open>
  The end of the kernel's start: \<^verbatim>\<open>env_init\<close> (\<^verbatim>\<open>kern/env.c\<close>) on the memory that \<^verbatim>\<open>page_init\<close> leaves, and the order of \<^verbatim>\<open>mips_init\<close>
  (\<^verbatim>\<open>init/init.c\<close>).  Shown is that the invariants that every other property starts from hold after it.
\<close>

declare split_paired_All [simp del] split_paired_Ex [simp del]

section \<open>The template page directory\<close>

text \<open>Directory \<open>b\<close> has the page tables \<open>T\<close>, and these the entries \<open>M\<close>; all other slots are 0.  No environment uses a directory yet.\<close>

definition boot_mem :: "pmap \<Rightarrow> bool" where
  "boot_mem p \<longleftrightarrow> vm_inv p {} {} (\<lambda>q. unat (pp_ref p q))"

definition frees :: "pmap \<Rightarrow> nat set" where
  "frees p = {q. q < unat (npage p) \<and> pp_ref p q = 0}"

definition kdir :: "pmap \<Rightarrow> nat \<Rightarrow> (u32 \<Rightarrow> nat option) \<Rightarrow> (u32 \<times> u32 \<Rightarrow> u32 option) \<Rightarrow> bool" where
  "kdir p b T M \<longleftrightarrow>
     b < unat (npage p) \<and> b \<notin> frees p \<and> (\<forall>i t. T i = Some t \<longrightarrow> t < unat (npage p) \<and> t \<notin> frees p \<and> t \<noteq> b)
   \<and> (\<forall>i i' t. T i = Some t \<longrightarrow> T i' = Some t \<longrightarrow> i = i') \<and> (\<forall>i j. T i = None \<longrightarrow> M (i, j) = None)
   \<and> (\<forall>i < 1024. ent (mem p) b i = (case T i of None \<Rightarrow> 0 | Some t \<Rightarrow> ADDR_PTE (page2pa t) OR PTE_V))
   \<and> (\<forall>i t. T i = Some t \<longrightarrow> (\<forall>j < 1024. ent (mem p) t j = (case M (i, j) of None \<Rightarrow> 0 | Some v \<Rightarrow> v)))"

lemma boot_memD:
  assumes "boot_mem p"
  shows "unat (npage p) \<le> page_bound" "\<exists>fl. list_rep (page_free_list p) fl \<and> set fl = frees p"
  using vm_inv_cases [of p "{}" "{}"] tables_okD(1) [of p "{}"] assms by (auto simp: boot_mem_def free_ok_def frees_def)

lemma boot_memI: "unat (npage p) \<le> page_bound \<Longrightarrow> list_rep (page_free_list p) fl \<Longrightarrow> set fl = frees p \<Longrightarrow> boot_mem p"
  unfolding boot_mem_def by (rule vm_inv_boot) (simp_all add: frees_def)

lemma boot_mem_cong:
  assumes "boot_mem p" "npage q = npage p" "page_free_list q = page_free_list p" "frees q = frees p"
  shows "boot_mem q"
  using boot_memD [OF assms(1)] assms(2-4) by (auto intro: boot_memI)

text \<open>Allocating a frame at boot.\<close>

lemma boot_alloc:
  assumes bm: "boot_mem p" and f: "frees p \<noteq> {}"
  obtains t p' where "page_alloc p = Some (Inr t, p')" "t \<in> frees p" "boot_mem (set_ref p' t 1)" "frees (set_ref p' t 1) = frees p - {t}"
    "npage p' = npage p" "pp_ref p' = pp_ref p" "pages_addr p' = pages_addr p" "mem p' = filled (mem p) (page2pa t) (page2pa t + 4096) 0"
proof (cases rule: page_alloc_cases [OF bm [unfolded boot_mem_def]])
  case 1
  then show ?thesis using f by (auto simp: frees_def)
next
  case (2 t p')
  have np: "npage p' = npage p" "pages_addr p' = pages_addr p" using 2(11) by (simp_all add: alloc_frame_def)
  have fr: "frees (set_ref p' t 1) = frees p - {t}" using 2(9) np by (auto simp: frees_def)
  obtain fl where fl: "list_rep (page_free_list p') fl" "set fl = {q. q < unat (npage p') \<and> pp_ref p' q = 0 \<and> q \<notin> {t}}"
    using vm_inv_cases(3) [OF 2(5)] by (auto simp: free_ok_def)
  have "set fl = frees (set_ref p' t 1)" using fl(2) fr 2(9) np by (auto simp: frees_def)
  then have "boot_mem (set_ref p' t 1)" using boot_memD(1) [OF bm] fl(1) np by (intro boot_memI [of _ fl]) simp_all
  then show ?thesis using that 2 np fr by (auto simp: frees_def)
qed

lemma table_entry:
  assumes "t < unat (npage p)" "unat (npage p) \<le> page_bound"
  shows "has (ADDR_PTE (page2pa t) OR PTE_V) PTE_V" "PTE_ADDR (ADDR_PTE (page2pa t) OR PTE_V) = page2pa t"
    "KADDR p (PTE_ADDR (ADDR_PTE (page2pa t) OR PTE_V)) = Some (page2pa t)"
proof -
  have "entry_frame p (ADDR_PTE (page2pa t) OR 0 OR PTE_V) = Some t" by (rule entry_frame_new [OF assms]) (simp add: flag_bits_def)
  from entry_frame_Some [OF this assms(2)]
  show "has (ADDR_PTE (page2pa t) OR PTE_V) PTE_V" "PTE_ADDR (ADDR_PTE (page2pa t) OR PTE_V) = page2pa t" by simp_all
  then show "KADDR p (PTE_ADDR (ADDR_PTE (page2pa t) OR PTE_V)) = Some (page2pa t)" using KADDR_page2pa [OF assms] by simp
qed

lemma kdirD:
  assumes "kdir p b T M"
  shows "b < unat (npage p)" "b \<notin> frees p" "T i = Some t \<Longrightarrow> t < unat (npage p)" "T i = Some t \<Longrightarrow> t \<notin> frees p" "T i = Some t \<Longrightarrow> t \<noteq> b"
    "T i = Some t \<Longrightarrow> T i' = Some t \<Longrightarrow> i = i'" "T i = None \<Longrightarrow> M (i, j) = None"
    "i < 1024 \<Longrightarrow> ent (mem p) b i = (case T i of None \<Rightarrow> 0 | Some t \<Rightarrow> ADDR_PTE (page2pa t) OR PTE_V)"
    "T i = Some t \<Longrightarrow> j < 1024 \<Longrightarrow> ent (mem p) t j = (case M (i, j) of None \<Rightarrow> 0 | Some v \<Rightarrow> v)"
  using assms unfolding kdir_def by blast+

lemma pgdir_walk_kdir:
  assumes bm: "boot_mem p" and k: "kdir p b T M"
  shows "T (PDX va) = None \<Longrightarrow> pgdir_walk (page2pa b) va False p = Some (Inr None, p)"
    "T (PDX va) = Some t \<Longrightarrow> pgdir_walk (page2pa b) va c p = Some (Inr (Some (slot t (PTX va))), p)"
proof -
  have nb: "unat (npage p) \<le> page_bound" by (rule boot_memD [OF bm])
  have r: "rd p (page2pa b + 4 * PDX va) = ent (mem p) b (PDX va)" by (simp add: rd_def ent_def slot_def)
  note e = kdirD(8) [OF k PDX_less, of va]
  show "T (PDX va) = None \<Longrightarrow> pgdir_walk (page2pa b) va False p = Some (Inr None, p)"
    using e by (simp add: pgdir_walk_def Let_def r has_def)
  show "T (PDX va) = Some t \<Longrightarrow> pgdir_walk (page2pa b) va c p = Some (Inr (Some (slot t (PTX va))), p)"
    using e table_entry [OF kdirD(3) [OF k] nb] by (simp add: pgdir_walk_def Let_def r slot_def)
qed

lemma pgdir_walk_kdir_new:
  assumes bm: "boot_mem p" and k: "kdir p b T M" and n: "T (PDX va) = None" and f: "frees p \<noteq> {}"
  obtains t p' where "pgdir_walk (page2pa b) va True p = Some (Inr (Some (slot t (PTX va))), p')" "boot_mem p'" "kdir p' b (T(PDX va \<mapsto> t)) M"
    "t \<in> frees p" "frees p' = frees p - {t}" "npage p' = npage p" "pp_ref p' = (pp_ref p)(t := 1)" "pages_addr p' = pages_addr p"
    "\<And>d j. d < page_bound \<Longrightarrow> d \<noteq> b \<Longrightarrow> d \<noteq> t \<Longrightarrow> j < 1024 \<Longrightarrow> ent (mem p') d j = ent (mem p) d j"
proof -
  let ?i = "PDX va" and ?v = "\<lambda>t. ADDR_PTE (page2pa t) OR PTE_V"
  have nb: "unat (npage p) \<le> page_bound" by (rule boot_memD [OF bm])
  obtain t p1 where a: "page_alloc p = Some (Inr t, p1)" "t \<in> frees p" "boot_mem (set_ref p1 t 1)" "frees (set_ref p1 t 1) = frees p - {t}"
    "npage p1 = npage p" "pp_ref p1 = pp_ref p" "pages_addr p1 = pages_addr p" "mem p1 = filled (mem p) (page2pa t) (page2pa t + 4096) 0"
    using boot_alloc [OF bm f] by blast
  define p' where "p' = wr (set_ref p1 t 1) (slot b ?i) (?v t)"
  have t: "t < unat (npage p)" "t < page_bound" "t \<noteq> b" using a(2) nb kdirD(2) [OF k] by (auto simp: frees_def)
  have tb: "T i \<noteq> Some t" for i using kdirD(4) [OF k] a(2) by blast
  have b: "b < page_bound" using kdirD(1) [OF k] nb by simp
  have fp: "frees p' = frees p - {t}" using a(4) by (simp add: p'_def frees_def)
  have np: "npage p' = npage p" "pp_ref p' = (pp_ref p)(t := 1)" "pages_addr p' = pages_addr p"
    using a(5-7) by (simp_all add: p'_def) (simp add: wr_def set_ref_def)
  have bp: "boot_mem p'" by (rule boot_mem_cong [OF a(3)]) (simp_all add: p'_def frees_def)
  have m: "ent (mem p') d j = (if d = b \<and> j = ?i then ?v t else if d = t then 0 else ent (mem p) d j)" if "d < page_bound" "j < 1024" for d j
    using that b t PDX_less [of va] by (auto simp: p'_def a(8) ent_st32 ent_filled)
  have "kdir p' b (T(?i \<mapsto> t)) M"
    unfolding kdir_def
  proof (intro conjI allI impI)
    show "ent (mem p') b i = (case (T(?i \<mapsto> t)) i of None \<Rightarrow> 0 | Some t \<Rightarrow> ?v t)" if "i < 1024" for i
      using m [OF b that] kdirD(8) [OF k that] t(3) by simp
    show "ent (mem p') u j = (case M (i, j) of None \<Rightarrow> 0 | Some v \<Rightarrow> v)" if "(T(?i \<mapsto> t)) i = Some u" "j < 1024" for i u j
      using that m [of u j] kdirD(3,5,9) [OF k, of i u] kdirD(7) [OF k n] t tb nb n by (auto split: if_splits)
  qed (use kdirD(1-7) [OF k] t tb np fp n in \<open>auto split: if_splits\<close>)
  moreover have "pgdir_walk (page2pa b) va True p = Some (Inr (Some (slot t (PTX va))), p')"
  proof -
    have r: "rd q (page2pa b + 4 * ?i) = ent (mem q) b ?i" for q :: pmap by (simp add: rd_def ent_def slot_def)
    have "\<not> has (rd p (page2pa b + 4 * ?i)) PTE_V" using kdirD(8) [OF k PDX_less, of va] n by (simp add: r has_def)
    moreover have "wr (set_ref p1 t 1) (page2pa b + 4 * ?i) (?v t) = p'" by (simp add: p'_def slot_def)
    moreover have "rd p' (page2pa b + 4 * ?i) = ?v t" using m [OF b PDX_less] by (simp add: r)
    moreover have "KADDR p' (PTE_ADDR (?v t)) = Some (page2pa t)" using table_entry(3) [of t p'] t nb np by simp
    ultimately show ?thesis using a(1) by (simp add: pgdir_walk_def Let_def slot_def)
  qed
  ultimately show ?thesis using that bp a(2) fp np m by simp
qed

text \<open>What an insertion into the template does: a new page table if there is none, the entry, and one more reference.\<close>

definition kframe :: "nat \<Rightarrow> (u32 \<Rightarrow> nat option) \<Rightarrow> pmap \<Rightarrow> pmap \<Rightarrow> bool" where
  "kframe b T p p' \<longleftrightarrow> npage p' = npage p \<and> pages_addr p' = pages_addr p \<and>
     (\<forall>d < page_bound. d \<notin> frees p \<longrightarrow> d \<noteq> b \<longrightarrow> (\<forall>i. T i \<noteq> Some d) \<longrightarrow> (\<forall>j < 1024. ent (mem p') d j = ent (mem p) d j))"

text \<open>The walk of \<^verbatim>\<open>page_insert\<close> to the table of \<open>va\<close>, which is taken from the free pages when there is none yet.\<close>

lemma pgdir_walk_kdir_create:
  assumes bm: "boot_mem p" and k: "kdir p b T M" and f: "T (PDX va) = None \<longrightarrow> frees p \<noteq> {}" and q: "q \<notin> frees p"
  obtains t p1 where "pgdir_walk (page2pa b) va True p = Some (Inr (Some (slot t (PTX va))), p1)" "boot_mem p1" "kdir p1 b (T(PDX va \<mapsto> t)) M"
    "T (PDX va) = None \<and> t \<in> frees p \<or> T (PDX va) = Some t" "frees p1 = frees p - {t}" "npage p1 = npage p" "pages_addr p1 = pages_addr p"
    "\<And>x. unat (pp_ref p1 x) \<le> max 1 (unat (pp_ref p x))" "pp_ref p1 q = pp_ref p q"
    "\<And>d j. d < page_bound \<Longrightarrow> d \<noteq> b \<Longrightarrow> d \<noteq> t \<Longrightarrow> j < 1024 \<Longrightarrow> ent (mem p1) d j = ent (mem p) d j"
proof (cases "T (PDX va)")
  case None
  obtain t p1 where "pgdir_walk (page2pa b) va True p = Some (Inr (Some (slot t (PTX va))), p1)" "boot_mem p1" "kdir p1 b (T(PDX va \<mapsto> t)) M"
    "t \<in> frees p" "frees p1 = frees p - {t}" "npage p1 = npage p" "pp_ref p1 = (pp_ref p)(t := 1)" "pages_addr p1 = pages_addr p"
    "\<And>d j. d < page_bound \<Longrightarrow> d \<noteq> b \<Longrightarrow> d \<noteq> t \<Longrightarrow> j < 1024 \<Longrightarrow> ent (mem p1) d j = ent (mem p) d j"
    using pgdir_walk_kdir_new [OF bm k None f [THEN mp, OF None]] by blast
  then show thesis using q None by (intro that [of t p1]) auto
next
  case (Some t)
  then show thesis using pgdir_walk_kdir(2) [OF bm k Some] k kdirD(4) [OF k Some] bm
    by (intro that [of t p]) (auto simp: fun_upd_idem)
qed

text \<open>The new entry in the directory: \<open>p'\<close> differs from \<open>p1\<close> in it alone, and in the slot of the self map, which is not used here.\<close>

lemma kdir_new_entry:
  assumes k1: "kdir p1 b T M" and t: "T i0 = Some t" and T5: "T 511 = None" and nb: "unat (npage p1) \<le> page_bound"
    and np: "npage p' = npage p1" and fp: "frees p' = frees p1"
    and m': "\<And>d j. d < page_bound \<Longrightarrow> j < 1024 \<Longrightarrow> ent (mem p') d j = (if d = b \<and> j = 511 then 0 else if d = t \<and> j = j0 then v else ent (mem p1) d j)"
  shows "kdir p' b T (M((i0, j0) \<mapsto> v))"
  unfolding kdir_def
proof (intro conjI allI impI)
  have b: "b < page_bound" using kdirD(1) [OF k1] nb by simp
  show "ent (mem p') b i = (case T i of None \<Rightarrow> 0 | Some t \<Rightarrow> ADDR_PTE (page2pa t) OR PTE_V)" if "i < 1024" for i
    using m' [OF b that] kdirD(8) [OF k1 that] T5 kdirD(5) [OF k1 t] by (auto split: if_splits)
  show "ent (mem p') u j = (case (M((i0, j0) \<mapsto> v)) (i, j) of None \<Rightarrow> 0 | Some v \<Rightarrow> v)" if u: "T i = Some u" and j: "j < 1024" for i u j
  proof -
    have "u < page_bound" "u \<noteq> b" "u = t \<longleftrightarrow> i = i0" using kdirD(3,5) [OF k1 u] kdirD(6) [OF k1 u, of i0] u t nb by auto
    then show ?thesis using m' [OF _ j, of u] kdirD(9) [OF k1 u j] by auto
  qed
  show "b < unat (npage p')" "b \<notin> frees p'" using kdirD(1,2) [OF k1] np fp by simp_all
  show "u < unat (npage p')" "u \<notin> frees p'" "u \<noteq> b" if "T i = Some u" for i u using kdirD(3-5) [OF k1 that] np fp by simp_all
  show "i = i'" if "T i = Some u" "T i' = Some u" for i i' u using kdirD(6) [OF k1 that] .
  show "(M((i0, j0) \<mapsto> v)) (i, j) = None" if "T i = None" for i j using kdirD(7) [OF k1 that] that t by auto
qed

lemma page_insert_kdir:
  assumes bm: "boot_mem p" and k: "kdir p b T M" and m: "M (PDX va, PTX va) = None" and f: "T (PDX va) = None \<longrightarrow> frees p \<noteq> {}"
    and q: "q < unat (npage p)" "q \<notin> frees p" "pp_ref p q + 1 \<noteq> 0" and va: "PDX va \<noteq> 511" "T 511 = None"
  obtains t p' where "page_insert (page2pa b) 0 q va perm p = Some (Inr (), p')" "boot_mem p'"
    "kdir p' b (T(PDX va \<mapsto> t)) (M((PDX va, PTX va) \<mapsto> new_pte q perm))" "kframe b T p p'" "frees p' = frees p - {t}"
    "T (PDX va) = None \<and> t \<in> frees p \<or> T (PDX va) = Some t" "\<And>x. unat (pp_ref p' x) \<le> unat (pp_ref p x) + 1"
proof -
  let ?i = "PDX va" and ?j = "PTX va" and ?perm = "insert_perm perm"
  have nb: "unat (npage p) \<le> page_bound" by (rule boot_memD [OF bm])
  have walk: "pgdir_walk (page2pa b) va False p = Some (Inr None, p) \<or>
      (\<exists>t. pgdir_walk (page2pa b) va False p = Some (Inr (Some (slot t ?j)), p) \<and> \<not> has (rd p (slot t ?j)) PTE_V)"
  proof (cases "T ?i")
    case None
    then show ?thesis using pgdir_walk_kdir(1) [OF bm k] by simp
  next
    case (Some t)
    then have "\<not> has (rd p (slot t ?j)) PTE_V" using kdirD(9) [OF k Some PTX_less, of va] m by (simp add: rd_ent has_def)
    then show ?thesis using pgdir_walk_kdir(2) [OF bm k Some] by blast
  qed
  then have new: "page_insert (page2pa b) 0 q va perm p = page_insert_new (page2pa b) 0 q va ?perm p"
    by (auto simp: page_insert_def insert_perm_def)
  obtain t p1 where w: "pgdir_walk (page2pa b) va True p = Some (Inr (Some (slot t ?j)), p1)" "boot_mem p1" "kdir p1 b (T(?i \<mapsto> t)) M"
    "T ?i = None \<and> t \<in> frees p \<or> T ?i = Some t" "frees p1 = frees p - {t}" "npage p1 = npage p" "pages_addr p1 = pages_addr p"
    "\<And>x. unat (pp_ref p1 x) \<le> max 1 (unat (pp_ref p x))" "pp_ref p1 q = pp_ref p q"
    "\<And>d j. d < page_bound \<Longrightarrow> d \<noteq> b \<Longrightarrow> d \<noteq> t \<Longrightarrow> j < 1024 \<Longrightarrow> ent (mem p1) d j = ent (mem p) d j"
    using pgdir_walk_kdir_create [OF bm k f q(2)] by blast
  note k1 = w(3)
  have t: "t < page_bound" "t \<noteq> b" "t < unat (npage p)" using kdirD(3,5) [OF k1, of ?i t] nb w(6) by auto
  have b: "b < page_bound" using kdirD(1) [OF k] nb by simp
  define p' where "p' = tlb_flush 0 0 (wr (set_ref (wr p1 (slot t ?j) (new_pte q perm)) q (pp_ref p1 q + 1)) (slot b 511) 0)"
  have run: "page_insert (page2pa b) 0 q va perm p = Some (Inr (), p')"
    unfolding new using w(1) by (simp add: page_insert_new_def Let_def p'_def new_pte_def user_slots slot_def)
  have fp: "frees p' = frees p - {t}"
    using w(5,6,9) q(2,3) by (auto simp: frees_def p'_def)
  have np: "npage p' = npage p" "pages_addr p' = pages_addr p" using w(6,7) by (simp_all add: p'_def) (simp add: wr_def set_ref_def tlb_flush_def)
  have bp: "boot_mem p'" by (rule boot_mem_cong [OF w(2)]) (simp_all add: fp w(5), simp_all add: p'_def)
  have m': "ent (mem p') d j = (if d = b \<and> j = 511 then 0 else if d = t \<and> j = ?j then new_pte q perm else ent (mem p1) d j)"
    if "d < page_bound" "j < 1024" for d j
    using that b t PTX_less [of va] by (auto simp: p'_def ent_st32)
  have kd: "kdir p' b (T(?i \<mapsto> t)) (M((?i, ?j) \<mapsto> new_pte q perm))"
    by (rule kdir_new_entry [OF k1]) (use va nb w(5,6) np(1) fp m' in simp_all)
  have kf: "kframe b T p p'"
    unfolding kframe_def
  proof (intro conjI np allI impI)
    fix d and j :: u32 assume d: "d < page_bound" "d \<notin> frees p" "d \<noteq> b" "\<forall>i. T i \<noteq> Some d" "j < 1024"
    have "d \<noteq> t" using d(2,4) w(4) by auto
    then show "ent (mem p') d j = ent (mem p) d j" using m' [OF d(1,5)] w(10) [OF d(1,3)] d(3,5) by simp
  qed
  have pr: "unat (pp_ref p' x) \<le> unat (pp_ref p x) + 1" for x
  proof (cases "x = q")
    case True
    have "unat (pp_ref p q + 1) = unat (pp_ref p q) + 1" using q(3) by (simp add: unatSuc add.commute)
    then show ?thesis using w(9) True by (simp add: p'_def)
  next
    case False
    then show ?thesis using w(8) [of x] by (simp add: p'_def)
  qed
  show ?thesis by (rule that [OF run bp kd kf fp w(4) pr])
qed

lemma kframe_trans:
  assumes "kframe b T p p1" "kframe b (T(i \<mapsto> t)) p1 p2" "frees p1 \<subseteq> frees p" "T i = Some t \<or> t \<in> frees p"
  shows "kframe b T p p2"
proof -
  have "d \<notin> frees p1" "d \<noteq> t" "\<forall>i'. (T(i \<mapsto> t)) i' \<noteq> Some d" if "d \<notin> frees p" "\<forall>i. T i \<noteq> Some d" for d
    using that assms(3,4) by auto
  then show ?thesis using assms(1,2) unfolding kframe_def by simp
qed

lemma kframe_refl: "kframe b T p p"
  by (simp add: kframe_def)

section \<open>Mapping a segment\<close>

text \<open>Page \<open>k\<close> of a region of 4 megabytes that starts at directory slot \<open>i\<close>.\<close>

lemma region_page:
  assumes "unat va = unat i * 4194304" "k < 1024" "i < 1024"
  shows "PDX (va + of_nat (4096 * k)) = i" "PTX (va + of_nat (4096 * k)) = of_nat k"
proof -
  have i: "unat i < 1024" using assms(3) by (simp add: word_less_nat_alt)
  have o: "unat (of_nat (4096 * k) :: u32) = 4096 * k" unfolding unat_of_nat using assms(2) by simp
  have u: "unat (va + of_nat (4096 * k)) = unat i * 4194304 + 4096 * k"
    using i assms(1,2) by (subst unat_add_no_overflow) (simp_all only: o, simp_all)
  have "unat (PDX (va + of_nat (4096 * k))) = unat i"
    using i assms(2) unfolding PDX_unat u by (simp add: div_eq_dividend_iff)
  then show "PDX (va + of_nat (4096 * k)) = i" by (simp add: word_unat_eq_iff)
  have "unat i * 4194304 + 4096 * k = 4096 * (unat i * 1024 + k)" by simp
  then have "(unat i * 4194304 + 4096 * k) div 4096 mod 1024 = k" using assms(2) by (simp only: nonzero_mult_div_cancel_left) simp
  then have "unat (PTX (va + of_nat (4096 * k))) = k" unfolding PTX_unat u .
  then show "PTX (va + of_nat (4096 * k)) = of_nat k" using assms(2) by (simp add: word_unat_eq_iff unat_of_nat)
qed

definition seg_map :: "u32 \<Rightarrow> nat \<Rightarrow> u32 \<Rightarrow> nat \<Rightarrow> nat \<Rightarrow> (u32 \<times> u32 \<Rightarrow> u32 option) \<Rightarrow> u32 \<times> u32 \<Rightarrow> u32 option" where
  "seg_map i a perm k n M = (\<lambda>(i', j). if i' = i \<and> k \<le> unat j \<and> unat j < n then Some (new_pte (a + unat j) perm) else M (i', j))"

lemma seg_map_step:
  assumes "k < n" "n \<le> 1024"
  shows "seg_map i a perm (Suc k) n (M((i, of_nat k) \<mapsto> new_pte (a + k) perm)) = seg_map i a perm k n M"
proof
  fix x :: "u32 \<times> u32"
  obtain i' j where x: "x = (i', j)" by (cases x)
  have "unat (of_nat k :: u32) = k" using assms by (simp add: unat_of_nat)
  then have "j = of_nat k \<longleftrightarrow> unat j = k" by (auto simp: word_unat_eq_iff)
  then show "seg_map i a perm (Suc k) n (M((i, of_nat k) \<mapsto> new_pte (a + k) perm)) x = seg_map i a perm k n M x"
    using assms(1) by (auto simp: x seg_map_def)
qed

lemma frame_step:
  assumes "a + k < page_bound"
  shows "page2pa a + of_nat (4096 * k) = page2pa (a + k)"
proof -
  have o: "unat (of_nat (4096 * k) :: u32) = 4096 * k" unfolding unat_of_nat using assms by (simp add: page_bound_def)
  have "unat (page2pa a + of_nat (4096 * k)) = 4096 * (a + k + 0x80200)"
    using assms by (subst unat_add_no_overflow) (simp_all only: o, simp_all add: page2pa_unat page_bound_def)
  then show ?thesis using page2pa_unat [OF assms] by (simp only: word_unat_eq_iff)
qed

lemma map_segment_loop_kdir:
  assumes "boot_mem p" "kdir p b T M" "\<And>j. k \<le> unat j \<Longrightarrow> M (i, j) = None" "T i = None \<Longrightarrow> frees p \<noteq> {}"
    "\<And>l. l < n \<Longrightarrow> a + l < unat (npage p) \<and> a + l \<notin> frees p" "\<And>x. unat (pp_ref p x) + (n - k) < 65536"
    "i \<noteq> 511" "i < 1024" "T 511 = None" "unat va = unat i * 4194304" "k < n" "n \<le> 1024"
  shows "\<exists>p' t. map_segment_loop (page2pa b) 0 (page2pa a) va (of_nat (4096 * n)) perm (of_nat (4096 * k)) p = Some p' \<and> boot_mem p' \<and>
    kdir p' b (T(i \<mapsto> t)) (seg_map i a perm k n M) \<and> kframe b T p p' \<and> frees p' = frees p - {t} \<and> (T i = None \<and> t \<in> frees p \<or> T i = Some t) \<and>
    (\<forall>x. unat (pp_ref p' x) \<le> unat (pp_ref p x) + (n - k))"
  using assms
proof (induction "n - k" arbitrary: k p T M)
  case (Suc d)
  let ?va = "va + of_nat (4096 * k)" and ?L = "map_segment_loop (page2pa b) 0 (page2pa a) va (of_nat (4096 * n)) perm"
  have k: "k < 1024" "k < n" "unat (of_nat (4096 * k) :: u32) = 4096 * k" "unat (of_nat (4096 * n) :: u32) = 4096 * n"
    using Suc.prems(11,12) by (simp_all add: unat_of_nat del: of_nat_mult)
  note ix = region_page [OF Suc.prems(10) k(1) Suc.prems(8)]
  have nb: "unat (npage p) \<le> page_bound" by (rule boot_memD [OF Suc.prems(1)])
  have a: "a + k < unat (npage p)" "a + k \<notin> frees p" using Suc.prems(5) [OF k(2)] by auto
  have pg: "pa2page p (page2pa a + of_nat (4096 * k)) = Some (a + k)"
    using frame_step [of a k] a nb pa2page_page2pa [OF a(1) nb] by simp
  have r: "pp_ref p (a + k) + 1 \<noteq> 0"
  proof
    assume "pp_ref p (a + k) + 1 = 0"
    then have "pp_ref p (a + k) = - 1" by (simp add: eq_neg_iff_add_eq_0)
    moreover have "unat (- 1 :: u16) = 65535" by (simp add: unsigned_minus_1_eq_mask mask_eq_exp_minus_1)
    ultimately show False using Suc.prems(6) [of "a + k"] k(2) by simp
  qed
  have m: "M (PDX ?va, PTX ?va) = None" "PDX ?va \<noteq> 511" "T (PDX ?va) = None \<longrightarrow> frees p \<noteq> {}"
    unfolding ix using Suc.prems(3) [of "of_nat k"] Suc.prems(4,7) k(1) by (simp_all add: unat_of_nat)
  obtain t p1 where s: "page_insert (page2pa b) 0 (a + k) ?va perm p = Some (Inr (), p1)" "boot_mem p1"
    "kdir p1 b (T(i \<mapsto> t)) (M((i, of_nat k) \<mapsto> new_pte (a + k) perm))" "kframe b T p p1" "frees p1 = frees p - {t}"
    "T i = None \<and> t \<in> frees p \<or> T i = Some t" "\<And>x. unat (pp_ref p1 x) \<le> unat (pp_ref p x) + 1"
    by (rule page_insert_kdir [OF Suc.prems(1,2) m(1,3) a r m(2) Suc.prems(9), of perm, unfolded ix]) (rule that; assumption)
  have run: "?L (of_nat (4096 * k)) p = ?L (of_nat (4096 * Suc k)) p1"
  proof -
    have "of_nat (4096 * k) + BY2PG = (of_nat (4096 * Suc k) :: u32)" by (simp add: BY2PG_def)
    then show ?thesis using pg s(1) k by (subst map_segment_loop.simps) (simp add: word_less_nat_alt del: of_nat_mult mult_Suc_right)
  qed
  show ?case
  proof (cases "Suc k = n")
    case True
    have "?L (of_nat (4096 * n)) p1 = Some p1" by (subst map_segment_loop.simps) simp
    moreover have "seg_map i a perm n n M' = M'" for M' by (auto simp: seg_map_def fun_eq_iff)
    then have "M((i, of_nat k) \<mapsto> new_pte (a + k) perm) = seg_map i a perm k n M" using seg_map_step [OF k(2) Suc.prems(12)] True by metis
    ultimately show ?thesis using run s True by (intro exI [of _ p1] exI [of _ t]) auto
  next
    case False
    have j: "(M((i, of_nat k) \<mapsto> new_pte (a + k) perm)) (i, j) = None" if "Suc k \<le> unat j" for j
      using that Suc.prems(3) [of j] k(1) by (auto simp: unat_of_nat)
    have np: "npage p1 = npage p" using s(4) by (simp add: kframe_def)
    have le: "unat (pp_ref p1 x) + (n - Suc k) < 65536" for x using s(7) [of x] Suc.prems(6) [of x] k(2) Suc.prems(12) by auto
    have d: "d = n - Suc k" "Suc k < n" using Suc.hyps(2) False k(2) by auto
    have pre: "(T(i \<mapsto> t)) i = None \<Longrightarrow> frees p1 \<noteq> {}" "(T(i \<mapsto> t)) 511 = None" using Suc.prems(7,9) by simp_all
    have fr: "a + l < unat (npage p1) \<and> a + l \<notin> frees p1" if "l < n" for l using Suc.prems(5) [OF that] np s(5) by auto
    obtain p' t' where q: "?L (of_nat (4096 * Suc k)) p1 = Some p'" "boot_mem p'"
      "kdir p' b (T(i \<mapsto> t, i \<mapsto> t')) (seg_map i a perm (Suc k) n (M((i, of_nat k) \<mapsto> new_pte (a + k) perm)))"
      "kframe b (T(i \<mapsto> t)) p1 p'" "frees p' = frees p1 - {t'}" "(T(i \<mapsto> t)) i = None \<and> t' \<in> frees p1 \<or> (T(i \<mapsto> t)) i = Some t'"
      "\<And>x. unat (pp_ref p' x) \<le> unat (pp_ref p1 x) + (n - Suc k)"
      using Suc.hyps(1) [OF d(1) s(2,3) j pre(1) fr le Suc.prems(7,8) pre(2) Suc.prems(10) d(2) Suc.prems(12)] by blast
    then have t': "t' = t" by simp
    have "kframe b T p p'" by (rule kframe_trans [OF s(4) q(4)]) (use s(5,6) in auto)
    moreover have "unat (pp_ref p' x) \<le> unat (pp_ref p x) + (n - k)" for x using q(7) [of x] s(7) [of x] k(2) by auto
    ultimately show ?thesis using run q(1-5) s(5,6) seg_map_step [OF k(2) Suc.prems(12)] by (intro exI [of _ p'] exI [of _ t]) (simp add: t' del: of_nat_mult, blast?)
  qed
qed simp

section \<open>What the hardware finds in the template\<close>

lemma kdir_translate:
  assumes bm: "boot_mem p" and k: "kdir p b T M" and M: "M (PDX va, PTX va) = Some (new_pte q perm)" and q: "q < unat (npage p)" "flag_bits perm"
  shows "uva_pa p (page2pa b) f va = (if has (new_pte q perm) f then Some (page2pa q + of_nat (unat va mod 4096)) else None)"
proof -
  have nb: "unat (npage p) \<le> page_bound" by (rule boot_memD [OF bm])
  obtain t where t: "T (PDX va) = Some t" using kdirD(7) [OF k, of "PDX va" "PTX va"] M by (cases "T (PDX va)") auto
  have e: "rd p (page2pa b + 4 * PDX va) = ADDR_PTE (page2pa t) OR PTE_V" "rd p (page2pa t + 4 * PTX va) = new_pte q perm"
    using kdirD(8) [OF k PDX_less, of va] kdirD(9) [OF k t PTX_less, of va] t M by (simp_all add: rd_def ent_def slot_def)
  note te = table_entry [OF kdirD(3) [OF k t] nb]
  note f = entry_frame_Some [OF new_pte_frame [OF q(1) nb q(2)] nb]
  show ?thesis using e te f by (simp add: uva_pa_def Let_def page_offset)
qed

lemma template_flags: "flag_bits (PTE_G OR PTE_R OR PTE_U)" "has (new_pte q (PTE_G OR PTE_R OR PTE_U)) PTE_R" "\<not> has (new_pte q (PTE_G OR PTE_R OR PTE_U)) PTE_W"
proof -
  show f: "flag_bits (PTE_G OR PTE_R OR PTE_U)" by (simp add: flag_bits_or)
  show "has (new_pte q (PTE_G OR PTE_R OR PTE_U)) PTE_R" "\<not> has (new_pte q (PTE_G OR PTE_R OR PTE_U)) PTE_W"
    unfolding has_new_pte by (simp_all add: has_bits new_pte_def insert_perm_def bit_or_iff, simp_all add: pte_defs has_def)
qed

section \<open>\<^verbatim>\<open>env_init\<close>\<close>

lemma env_init_loop_run:
  assumes "list_rep (env_free_list s) [n..<NENV]" "n \<le> NENV"
  shows "\<exists>es fl. env_init_loop n s = s\<lparr>envs := es, env_free_list := fl\<rparr> \<and> list_rep fl [0..<NENV] \<and>
    (\<forall>e. env_status (es e) = (if e < n then ENV_FREE else env_status (envs s e)))"
  using assms
proof (induction n arbitrary: s)
  case 0
  then show ?case by (intro exI [of _ "envs s"] exI [of _ "env_free_list s"]) simp
next
  case (Suc n)
  let ?s = "(upd_env n (\<lambda>e. e\<lparr>env_status := ENV_FREE\<rparr>) s)\<lparr>env_free_list := LIST_INSERT_HEAD (env_free_list s) n\<rparr>"
  have "list_rep (env_free_list ?s) [n..<NENV]"
    using list_rep_insert_head [OF Suc.prems(1), of n] Suc.prems(2) by (simp add: upt_conv_Cons)
  then obtain es fl where "env_init_loop n ?s = ?s\<lparr>envs := es, env_free_list := fl\<rparr>" "list_rep fl [0..<NENV]"
    "\<And>e. env_status (es e) = (if e < n then ENV_FREE else env_status (envs ?s e))"
    using Suc.IH [of ?s] Suc.prems(2) by auto
  then show ?case by (intro exI [of _ es] exI [of _ fl]) (auto simp: upd_env_def)
qed

lemma ROUND_page: "x + 4095 < 2 ^ 32 \<Longrightarrow> ROUND (of_nat x) BY2PG = of_nat (4096 * ((x + 4095) div 4096))"
proof -
  assume l: "x + 4095 < 2 ^ 32"
  have u: "unat (of_nat (x + 4095) :: u32) = x + 4095" unfolding unat_of_nat using l by simp
  have "ROUND (of_nat x) BY2PG = ROUNDDOWN (of_nat (x + 4095)) BY2PG" by (simp add: ROUND_def ROUNDDOWN_def BY2PG_def add.commute)
  then have "unat (ROUND (of_nat x) BY2PG) = 4096 * ((x + 4095) div 4096)" using u by (simp only: ROUNDDOWN_unat)
  then show ?thesis by (simp only: word_unat_eq_iff unat_of_nat) (use l in simp)
qed

text \<open>The number of pages of the array \<^verbatim>\<open>pages\<close>; the array \<^verbatim>\<open>envs\<close> takes 56.\<close>

definition npages_pages :: "pmap \<Rightarrow> nat" where
  "npages_pages p = (unat (npage p) * 12 + 4095) div 4096"

lemma map_segment_kdir:
  assumes bm: "boot_mem p" and k: "kdir p b T M" and e: "\<And>j. M (i, j) = None" "T i = None" "frees p \<noteq> {}"
    and a: "\<And>l. l < n \<Longrightarrow> a + l < unat (npage p) \<and> a + l \<notin> frees p" and r: "\<And>x. unat (pp_ref p x) + n < 65536"
    and i: "i \<noteq> 511" "i < 1024" "T 511 = None" "unat va = unat i * 4194304" "0 < n" "n \<le> 1024"
  obtains p' t where "map_segment (page2pa b) 0 (page2pa a) va (of_nat (4096 * n)) perm p = Some p'" "boot_mem p'"
    "kdir p' b (T(i \<mapsto> t)) (seg_map i a perm 0 n M)" "kframe b T p p'" "t \<in> frees p" "frees p' = frees p - {t}"
    "\<And>x. unat (pp_ref p' x) \<le> unat (pp_ref p x) + n"
proof -
  have nb: "unat (npage p) \<le> page_bound" by (rule boot_memD [OF bm])
  have ab: "a < page_bound" using a [OF i(5)] nb by simp
  have al: "page2pa a mod BY2PG = 0" "va mod BY2PG = 0" "of_nat (4096 * n) mod BY2PG = (0 :: u32)"
  proof -
    have "unat (page2pa a) mod 4096 = 0" using ab by (simp add: page2pa_unat)
    moreover have "unat va = 4096 * (unat i * 1024)" unfolding i(4) by simp
    then have "unat va mod 4096 = 0" by (simp only: mod_mult_self1_is_0)
    moreover have "unat (of_nat (4096 * n) :: u32) mod 4096 = 0" unfolding unat_of_nat using i(6) by simp
    ultimately show "page2pa a mod BY2PG = 0" "va mod BY2PG = 0" "of_nat (4096 * n) mod BY2PG = (0 :: u32)"
      by (simp_all only: word_unat_eq_iff unat_mod BY2PG_def) simp_all
  qed
  obtain p' t where "map_segment_loop (page2pa b) 0 (page2pa a) va (of_nat (4096 * n)) perm (of_nat (4096 * 0)) p = Some p'" "boot_mem p'"
    "kdir p' b (T(i \<mapsto> t)) (seg_map i a perm 0 n M)" "kframe b T p p'" "frees p' = frees p - {t}" "T i = None \<and> t \<in> frees p \<or> T i = Some t"
    "\<And>x. unat (pp_ref p' x) \<le> unat (pp_ref p x) + (n - 0)"
    using map_segment_loop_kdir [OF bm k e(1) e(3) a _ i(1-6), of perm] r by (simp del: of_nat_mult) blast
  then show ?thesis using that [of p' t] al e(2) by (simp add: map_segment_def)
qed

text \<open>What \<^verbatim>\<open>env_init\<close> relies on: the arrays \<^verbatim>\<open>pages\<close> and \<^verbatim>\<open>envs\<close> start at the frames \<open>a\<close> and \<open>v\<close> and lie in frames in use, as does the kernel's
  directory \<open>kp\<close>, which maps nothing in the user part; no frame is shared, and three are free.\<close>

definition boot_ready :: "kstate \<Rightarrow> nat \<Rightarrow> nat \<Rightarrow> nat \<Rightarrow> bool" where
  "boot_ready s a v kp \<longleftrightarrow>
     boot_mem (pm s) \<and> (\<forall>x. unat (pp_ref (pm s) x) \<le> 1) \<and> 3 \<le> card (frees (pm s)) \<and> unat (npage (pm s)) \<le> 0x55555
   \<and> pages_addr (pm s) = page2pa a \<and> (\<forall>l < npages_pages (pm s). a + l < unat (npage (pm s)) \<and> a + l \<notin> frees (pm s))
   \<and> envs_addr s = page2pa v \<and> (\<forall>l < 56. v + l < unat (npage (pm s)) \<and> v + l \<notin> frees (pm s))
   \<and> kernel_pgdir s = page2pa kp \<and> kp < unat (npage (pm s)) \<and> kp \<notin> frees (pm s) \<and> (\<forall>i < PDX UTOP. \<not> has (ent (mem (pm s)) kp i) PTE_V)"

lemma env_init_template:
  assumes rdy: "boot_ready s a v kp" and p: "p = pm s"
  obtains b p1 p2 p3 T where "page_alloc p = Some (Inr b, p1)" "b < unat (npage p)" "pp_ref p1 b + 1 = 1" "npage p1 = npage p" "pages_addr p1 = pages_addr p"
    "map_segment (page2pa b) 0 (page2pa a) UPAGES (of_nat (4096 * npages_pages p)) (PTE_G OR PTE_R OR PTE_U) (set_ref p1 b 1) = Some p2"
    "map_segment (page2pa b) 0 (page2pa v) UENVS (of_nat (4096 * 56)) (PTE_G OR PTE_R OR PTE_U) p2 = Some p3" "boot_mem p3" "npage p3 = npage p"
    "kdir p3 b T (seg_map 509 v (PTE_G OR PTE_R OR PTE_U) 0 56 (seg_map 510 a (PTE_G OR PTE_R OR PTE_U) 0 (npages_pages p) (\<lambda>_. None)))"
    "frees p3 \<subseteq> frees p" "\<And>i. i < PDX UTOP \<Longrightarrow> \<not> has (ent (mem p3) kp i) PTE_V"
proof -
  let ?f = "PTE_G OR PTE_R OR PTE_U" and ?n = "npages_pages p"
  have R: "boot_mem p" "\<And>x. unat (pp_ref p x) \<le> 1" "3 \<le> card (frees p)" "unat (npage p) \<le> 0x55555"
    "\<And>l. l < ?n \<Longrightarrow> a + l < unat (npage p) \<and> a + l \<notin> frees p" "\<And>l. l < 56 \<Longrightarrow> v + l < unat (npage p) \<and> v + l \<notin> frees p"
    "kp < unat (npage p)" "kp \<notin> frees p" "\<And>i. i < PDX UTOP \<Longrightarrow> \<not> has (ent (mem p) kp i) PTE_V"
    using rdy unfolding p by (auto simp: boot_ready_def)
  have fin: "finite (frees p)" by (simp add: frees_def)
  have nb: "unat (npage p) \<le> page_bound" by (rule boot_memD [OF R(1)])
  have ne: "frees p \<noteq> {}" using R(3) by auto
  then have n: "0 < ?n" "?n \<le> 1024" using R(4) by (auto simp: npages_pages_def frees_def)
  obtain b p1 where al: "page_alloc p = Some (Inr b, p1)" "b \<in> frees p" "boot_mem (set_ref p1 b 1)" "frees (set_ref p1 b 1) = frees p - {b}"
    "npage p1 = npage p" "pp_ref p1 = pp_ref p" "pages_addr p1 = pages_addr p" "mem p1 = filled (mem p) (page2pa b) (page2pa b + 4096) 0"
    using boot_alloc [OF R(1) ne] by blast
  let ?p1 = "set_ref p1 b 1"
  have b: "b < unat (npage p)" "b < page_bound" "pp_ref p b = 0" using al(2) nb by (auto simp: frees_def)
  have k1: "kdir ?p1 b Map.empty (\<lambda>_. None)"
    unfolding kdir_def using b al(4,5,8) by (simp add: ent_filled)
  have c1: "2 \<le> card (frees ?p1)" using R(3) al(2) fin by (simp add: al(4) card_Diff_singleton)
  then have ne1: "frees ?p1 \<noteq> {}" by auto
  have f1: "a + l < unat (npage ?p1) \<and> a + l \<notin> frees ?p1" if "l < ?n" for l using R(5) [OF that] al(4,5) by auto
  have r1: "unat (pp_ref ?p1 x) \<le> 1" for x using R(2) [of x] al(6) by simp
  have r1': "unat (pp_ref ?p1 x) + ?n < 65536" for x using r1 [of x] n(2) by linarith
  have u: "unat UPAGES = unat (510 :: u32) * 4194304" "unat UENVS = unat (509 :: u32) * 4194304" by (simp_all add: layout_defs)
  have x: "(510 :: u32) \<noteq> 511" "(510 :: u32) < 1024" "(509 :: u32) \<noteq> 511" "(509 :: u32) < 1024" "0 < (56 :: nat)" "56 \<le> (1024 :: nat)" by simp_all
  obtain p2 t2 where s2: "map_segment (page2pa b) 0 (page2pa a) UPAGES (of_nat (4096 * ?n)) ?f ?p1 = Some p2" "boot_mem p2"
    "kdir p2 b (Map.empty(510 \<mapsto> t2)) (seg_map 510 a ?f 0 ?n (\<lambda>_. None))" "kframe b Map.empty ?p1 p2" "t2 \<in> frees ?p1" "frees p2 = frees ?p1 - {t2}"
    "\<And>x. unat (pp_ref p2 x) \<le> unat (pp_ref ?p1 x) + ?n"
    by (rule map_segment_kdir [OF al(3) k1 refl refl ne1 f1 r1' x(1,2) refl u(1) n, of ?f]) (assumption, (rule that; assumption))
  have np2: "npage p2 = npage p" using s2(4) al(5) by (simp add: kframe_def)
  have "1 \<le> card (frees p2)" using c1 s2(5) fin by (simp add: s2(6) al(4) card_Diff_singleton)
  then have ne2: "frees p2 \<noteq> {}" by auto
  have f2: "v + l < unat (npage p2) \<and> v + l \<notin> frees p2" if "l < 56" for l using R(6) [OF that] np2 s2(6) al(4) by auto
  have r2: "unat (pp_ref p2 x) + 56 < 65536" for x using s2(7) [of x] r1 [of x] n(2) by linarith
  have M2: "seg_map 510 a ?f 0 ?n (\<lambda>_. None) (509, j) = None" for j by (simp add: seg_map_def)
  have T2: "(Map.empty(510 \<mapsto> t2)) (509 :: u32) = None" "(Map.empty(510 \<mapsto> t2)) (511 :: u32) = None" by simp_all
  obtain p3 t3 where s3: "map_segment (page2pa b) 0 (page2pa v) UENVS (of_nat (4096 * 56)) ?f p2 = Some p3" "boot_mem p3"
    "kdir p3 b (Map.empty(510 \<mapsto> t2, 509 \<mapsto> t3)) (seg_map 509 v ?f 0 56 (seg_map 510 a ?f 0 ?n (\<lambda>_. None)))" "kframe b (Map.empty(510 \<mapsto> t2)) p2 p3"
    "t3 \<in> frees p2" "frees p3 = frees p2 - {t3}"
    by (rule map_segment_kdir [OF s2(2,3) M2 T2(1) ne2 f2 r2 x(3,4) T2(2) u(2) x(5,6), of ?f]) (assumption, (rule that; assumption))
  have kb: "kp < page_bound" "kp \<noteq> b" "kp \<notin> frees ?p1" using R(7,8) nb al(2,4) by auto
  have kf: "kframe b Map.empty ?p1 p3" by (rule kframe_trans [OF s2(4) s3(4)]) (use s2(5,6) in auto)
  have kpe: "\<not> has (ent (mem p3) kp i) PTE_V" if "i < PDX UTOP" for i
  proof -
    have i: "i < 1024" by (rule user_slot_less [OF that])
    have "ent (mem p3) kp i = ent (mem ?p1) kp i" using kf kb i unfolding kframe_def by simp
    also have "\<dots> = ent (mem p) kp i" using kb b i by (simp add: al(8) ent_filled)
    finally show ?thesis using R(9) [OF that] by simp
  qed
  have np3: "npage p3 = npage p" using s3(4) np2 by (simp add: kframe_def)
  have fr: "frees p3 \<subseteq> frees p" using s3(6) s2(6) al(4) by auto
  show ?thesis by (rule that [OF al(1) b(1) _ al(5,7) s2(1) s3(1,2) np3 s3(3) fr kpe]) (simp add: al(6) b(3))
qed

text \<open>Every page of a segment is found where the segment was mapped, readable and not writable.\<close>

lemma segment_translate:
  assumes bm: "boot_mem p" and k: "kdir p b T M" and M: "\<And>j. unat j < n \<Longrightarrow> M (i, j) = Some (new_pte (a + unat j) (PTE_G OR PTE_R OR PTE_U))"
    and a: "\<And>l. l < n \<Longrightarrow> a + l < unat (npage p)" and va: "unat va = unat i * 4194304" "i < 1024" and x: "x < 4096 * n" "n \<le> 1024"
  shows "uva_pa p (page2pa b) PTE_R (va + of_nat x) = Some (page2pa a + of_nat x)" "uva_pa p (page2pa b) PTE_W (va + of_nat x) = None"
proof -
  define l o' where "l = x div 4096" and "o' = x mod 4096"
  have xl: "x = 4096 * l + o'" "o' < 4096" "l < n" using x(1) by (auto simp: l_def o'_def less_mult_imp_div_less mult.commute)
  have l: "l < 1024" "unat (of_nat l :: u32) = l" using xl(3) x(2) by (simp_all add: unat_of_nat)
  let ?v = "va + of_nat (4096 * l)"
  note r = region_page [OF va(1) l(1) va(2)]
  have i: "unat i < 1024" using va(2) by (simp add: word_less_nat_alt)
  have o: "unat (of_nat (4096 * l) :: u32) = 4096 * l" unfolding unat_of_nat using l(1) by simp
  have u: "unat ?v = 4096 * (unat i * 1024 + l)"
    using i l(1) va(1) by (subst unat_add_no_overflow) (simp_all only: o, simp_all)
  have z: "unat ?v mod 4096 = 0" unfolding u by (simp only: mod_mult_self1_is_0)
  have z': "unat ?v mod 4096 + o' < 4096" using z xl(2) by simp
  have v: "va + of_nat x = ?v + of_nat o'" using xl(1) by simp
  have key: "PDX (va + of_nat x) = i" "PTX (va + of_nat x) = of_nat l" "unat (va + of_nat x) mod 4096 = o'"
    using offset_in_page [OF z'] r z unfolding v by (simp_all add: key_def)
  have e: "M (PDX (va + of_nat x), PTX (va + of_nat x)) = Some (new_pte (a + l) (PTE_G OR PTE_R OR PTE_U))"
    using M [of "of_nat l"] l xl(3) by (simp add: key)
  have nb: "unat (npage p) \<le> page_bound" by (rule boot_memD [OF bm])
  have "page2pa (a + l) + of_nat o' = page2pa a + of_nat x"
    using frame_step [of a l] a [OF xl(3)] nb xl(1) by simp
  then show "uva_pa p (page2pa b) PTE_R (va + of_nat x) = Some (page2pa a + of_nat x)" "uva_pa p (page2pa b) PTE_W (va + of_nat x) = None"
    using kdir_translate [OF bm k e a [OF xl(3)] template_flags(1)] template_flags(2,3) by (simp_all add: key(3))
qed

lemma seg_map_hit: "unat j < n \<Longrightarrow> seg_map i a f 0 n M (i, j) = Some (new_pte (a + unat j) f)" "i \<noteq> i' \<Longrightarrow> seg_map i a f 0 n M (i', j) = M (i', j)"
  by (simp_all add: seg_map_def)

lemma env_init_run:
  assumes rdy: "boot_ready s a v kp"
  obtains s' b where "env_init s = Some s'" "live s' = {}" "space_inv s' dp {} (\<lambda>q. unat (pp_ref (pm s') q))" "table_inv s' [0..<NENV] []" "boot_dirs s' kp b"
    "\<And>x. x < 4096 * npages_pages (pm s) \<Longrightarrow> uva_pa (pm s') (page2pa b) PTE_R (UPAGES + of_nat x) = Some (page2pa a + of_nat x)"
    "\<And>x. x < 4096 * npages_pages (pm s) \<Longrightarrow> uva_pa (pm s') (page2pa b) PTE_W (UPAGES + of_nat x) = None"
    "\<And>x. x < 4096 * 56 \<Longrightarrow> uva_pa (pm s') (page2pa b) PTE_R (UENVS + of_nat x) = Some (page2pa v + of_nat x)"
    "\<And>x. x < 4096 * 56 \<Longrightarrow> uva_pa (pm s') (page2pa b) PTE_W (UENVS + of_nat x) = None"
proof -
  let ?f = "PTE_G OR PTE_R OR PTE_U" and ?n = "npages_pages (pm s)"
  have R: "boot_mem (pm s)" "unat (npage (pm s)) \<le> 0x55555" "pages_addr (pm s) = page2pa a" "envs_addr s = page2pa v" "kernel_pgdir s = page2pa kp"
    "\<And>l. l < ?n \<Longrightarrow> a + l < unat (npage (pm s))" "\<And>l. l < 56 \<Longrightarrow> v + l < unat (npage (pm s))" "kp < unat (npage (pm s))" "kp \<notin> frees (pm s)"
    using rdy by (auto simp: boot_ready_def)
  have nb: "unat (npage (pm s)) \<le> page_bound" by (rule boot_memD [OF R(1)])
  obtain b p1 p2 p3 T where p: "page_alloc (pm s) = Some (Inr b, p1)" "b < unat (npage (pm s))" "pp_ref p1 b + 1 = 1" "npage p1 = npage (pm s)"
    "pages_addr p1 = pages_addr (pm s)"
    "map_segment (page2pa b) 0 (page2pa a) UPAGES (of_nat (4096 * ?n)) ?f (set_ref p1 b 1) = Some p2"
    "map_segment (page2pa b) 0 (page2pa v) UENVS (of_nat (4096 * 56)) ?f p2 = Some p3" "boot_mem p3" "npage p3 = npage (pm s)"
    "kdir p3 b T (seg_map 509 v ?f 0 56 (seg_map 510 a ?f 0 ?n (\<lambda>_. None)))" "frees p3 \<subseteq> frees (pm s)"
    "\<And>i. i < PDX UTOP \<Longrightarrow> \<not> has (ent (mem p3) kp i) PTE_V"
    by (rule env_init_template [OF rdy refl]) (rule that; assumption)
  let ?s1 = "s\<lparr>env_free_list := LIST_INIT (env_free_list s), env_sched_list := TAILQ_INIT (env_sched_list s)\<rparr>"
  obtain es fl where l: "env_init_loop NENV ?s1 = ?s1\<lparr>envs := es, env_free_list := fl\<rparr>" "list_rep fl [0..<NENV]"
    "\<And>e. e < NENV \<Longrightarrow> env_status (es e) = ENV_FREE"
    using env_init_loop_run [of ?s1 NENV] list_rep_init [of "env_free_list s"] by auto
  define s' where "s' = (?s1\<lparr>envs := es, env_free_list := fl\<rparr>)\<lparr>pm := p3, base_pgdir := page2pa b\<rparr>"
  have kv: "page2kva (set_ref p1 b 1) b = Some (page2pa b)" using p(2,4) nb by (intro page2kva_page2pa) simp_all
  have n0: "0 < ?n" "?n \<le> 1024" using p(2) R(2) by (auto simp: npages_pages_def)
  have ul: "PADDR (page2pa q) = Some (page2pa q)" if "q < page_bound" for q
    using page2pa_unat [OF that] by (simp add: PADDR_def word_less_nat_alt layout_defs)
  have ab: "a < page_bound" "v < page_bound" using R(6) [OF n0(1)] R(7) [of 0] nb by simp_all
  have sz: "ROUND (npage p1 * sizeof_Page) BY2PG = of_nat (4096 * ?n)"
    using ROUND_page [of "unat (npage (pm s)) * 12"] R(2) p(4) by (simp add: npages_pages_def sizeof_Page_def)
  have sz': "ROUND (of_nat NENV * sizeof_Env) BY2PG = of_nat (4096 * 56)" by (simp add: NENV_def sizeof_Env_def ROUND_def BY2PG_def)
  have pa: "pages_addr (set_ref p1 b 1) = page2pa a" using p(5) R(3) by (simp add: set_ref_def)
  have run: "env_init s = Some s'"
    unfolding env_init_def Let_def
    using l(1) p(1,3,6,7) kv sz sz' pa R(4) ul ab by (simp add: s'_def del: of_nat_mult)
  have lv: "live s' = {}" using l(3) by (auto simp: live_def s'_def)
  have sp: "space_inv s' dp {} (\<lambda>q. unat (pp_ref (pm s') q))" using p(8) lv by (simp add: space_inv_def s'_def boot_mem_def)
  have tb: "table_inv s' [0..<NENV] []"
    using l(2,3) tailq_rep_init [of "env_sched_list s"] by (auto simp: table_inv_def s'_def status_defs)
  have kk: "kp \<notin> frees p3" "kp < unat (npage p3)" "b \<notin> frees p3" "b < unat (npage p3)" using R(8,9) p(9,11) kdirD(1,2) [OF p(10)] by auto
  have bd: "boot_dirs s' kp b" using R(5) kk p(12) by (auto simp: boot_dirs_def s'_def frees_def)
  have u: "unat UPAGES = unat (510 :: u32) * 4194304" "unat UENVS = unat (509 :: u32) * 4194304" by (simp_all add: layout_defs)
  have M: "seg_map 509 v ?f 0 56 (seg_map 510 a ?f 0 ?n (\<lambda>_. None)) (510, j) = Some (new_pte (a + unat j) ?f)" if "unat j < ?n" for j
    using that by (simp add: seg_map_def)
  have fr: "a + l < unat (npage p3)" if "l < ?n" for l using R(6) [OF that] p(9) by simp
  have fv: "v + l < unat (npage p3)" if "l < 56" for l using R(7) [OF that] p(9) by simp
  have pm': "pm s' = p3" by (simp add: s'_def)
  have i: "(510 :: u32) < 1024" "(509 :: u32) < 1024" "56 \<le> (1024 :: nat)" by simp_all
  note t1 = segment_translate [OF p(8,10) M fr u(1) i(1) _ n0(2)] and t2 = segment_translate [OF p(8,10) seg_map_hit(1) fv u(2) i(2) _ i(3)]
  show ?thesis by (rule that [OF run lv sp tb bd, unfolded pm']) (use t1 t2 in blast)+
qed

section \<open>The order of \<^verbatim>\<open>mips_init\<close>\<close>

text \<open>\<^verbatim>\<open>mips_init\<close> up to its endless loop; \<open>icode\<close> and \<open>serv\<close> are the addresses and sizes of the two embedded programs.  The message, the timer and
  the interrupt enable are not part of the state.\<close>

definition mips_init :: "(u32 \<Rightarrow> u32) \<Rightarrow> u32 \<Rightarrow> u32 \<Rightarrow> u32 \<Rightarrow> u32 \<times> u32 \<Rightarrow> u32 \<times> u32 \<Rightarrow> kstate \<Rightarrow> kstate option" where
  "mips_init R kend ktext kdata icode serv s = do {
     let p = mips_detect_memory (pm s);
     p \<leftarrow> mips_vm_init kend ktext kdata (kernel_pgdir s) p;
     p \<leftarrow> page_init p;
     (d, p) \<leftarrow> virtio_disk_init R kend (disk s) p;
     s \<leftarrow> env_init (s\<lparr>pm := p, disk := d\<rparr>);
     (_, s) \<leftarrow> env_create (fst icode) (snd icode) 1 s;
     (_, s) \<leftarrow> env_create (fst serv) (snd serv) 1 s;
     Some s }"

text \<open>The boot allocator takes memory from \<^verbatim>\<open>freemem\<close> on and leaves everything below alone.\<close>

definition above :: "nat \<Rightarrow> pmap \<Rightarrow> pmap \<Rightarrow> bool" where
  "above f s s' \<longleftrightarrow> npage s' = npage s \<and> pp_ref s' = pp_ref s \<and> page_free_list s' = page_free_list s \<and> pages_addr s' = pages_addr s \<and>
     (\<forall>x. unat x < f \<longrightarrow> mem s' x = mem s x)"

lemma above_trans: "above f s s' \<Longrightarrow> above f s' s'' \<Longrightarrow> above f s s''"
  by (simp add: above_def)

lemma ROUND_bounds:
  assumes "unat x + 2 ^ j < 2 ^ 32" "j < 32"
  shows "unat x \<le> unat (ROUND x (2 ^ j))" "unat (ROUND x (2 ^ j)) < unat x + 2 ^ j"
proof -
  have m: "(2 ^ j - 1 :: u32) = mask j" by (simp add: mask_eq_exp_minus_1)
  have um: "unat (mask j :: u32) = 2 ^ j - 1"
  proof -
    have e: "(mask j :: u32) = of_nat (2 ^ j - 1)" by (simp add: mask_eq_exp_minus_1 of_nat_diff)
    have "(2 :: nat) ^ j - 1 < 2 ^ 32" using power_strict_increasing [OF assms(2), of "2 :: nat"] by simp
    then show ?thesis unfolding e unat_of_nat by simp
  qed
  have s: "unat (x + mask j) = unat x + (2 ^ j - 1)" using assms(1) um by (subst unat_add_no_overflow) simp_all
  have R: "ROUND x (2 ^ j) = (x + mask j) AND NOT (mask j)" unfolding ROUND_def m [symmetric] by (simp add: add_diff_eq)
  let ?y = "(x + mask j) AND NOT (mask j)" and ?z = "(x + mask j) AND mask j"
  have sp: "?y + ?z = x + mask j" by (rule word_split_mask)
  have z: "unat ?z \<le> 2 ^ j - 1" using um word_and_le1 [of "x + mask j" "mask j"] by (simp add: word_le_nat_alt)
  have le: "?z \<le> x + mask j" by (rule word_and_le2)
  have "?y = x + mask j - ?z" using sp by (metis add_diff_cancel_right')
  then have "unat ?y = unat x + (2 ^ j - 1) - unat ?z" using s le by (simp add: unat_sub)
  moreover have "0 < (2 :: nat) ^ j" by simp
  ultimately show "unat x \<le> unat (ROUND x (2 ^ j))" "unat (ROUND x (2 ^ j)) < unat x + 2 ^ j" using z unfolding R by linarith+
qed

lemma alloc_above:
  assumes al: "alloc kend n (2 ^ j) True s = Some (a, s')" and f: "0 < unat (freemem s)" "unat (freemem s) + 2 ^ j + unat n + 8 < 2 ^ 32" "j < 32"
  shows "above (unat (freemem s)) s s'" "unat (freemem s) \<le> unat (freemem s')" "unat (freemem s') \<le> unat (freemem s) + 2 ^ j + unat n"
proof -
  let ?a = "ROUND (freemem s) (2 ^ j)"
  note r = ROUND_bounds [of "freemem s" j]
  have r: "unat (freemem s) \<le> unat ?a" "unat ?a < unat (freemem s) + 2 ^ j" using r f(2,3) by simp_all
  have nz: "freemem s \<noteq> 0" using f(1) by auto
  have u: "unat (?a + n) = unat ?a + unat n" using r(2) f(2) by (intro unat_add_no_overflow) simp
  obtain m where m: "memset (mem s) ?a 0 n = Some m" "s' = s\<lparr>freemem := ?a + n, mem := m\<rparr>"
    using al nz by (auto simp: alloc_def Let_def split: if_splits bind_splits)
  have "m = filled (mem s) ?a (?a + n) 0" using memset_filled [of ?a n "mem s" 0] m(1) r(2) f(2) by simp
  then have "m x = mem s x" if "unat x < unat (freemem s)" for x
    using that r(1) by (simp add: filled_def word_le_nat_alt)
  then show "above (unat (freemem s)) s s'" by (simp add: above_def m(2))
  show "unat (freemem s) \<le> unat (freemem s')" "unat (freemem s') \<le> unat (freemem s) + 2 ^ j + unat n" using u r by (simp_all add: m(2))
qed

lemma virtio_disk_init_above:
  assumes i: "virtio_disk_init R kend v s = Some (v', s')" and f: "0 < unat (freemem s)" "unat (freemem s) + 4096 < 2 ^ 32"
  shows "above (unat (freemem s)) s s'"
proof -
  have pw: "(16 :: u32) = 2 ^ 4" "(2 :: u32) = 2 ^ 1" "(4 :: u32) = 2 ^ 2" by simp_all
  obtain a1 s1 a2 s2 a3 s3 a4 where al: "alloc kend (32 * 16) 16 True s = Some (a1, s1)" "alloc kend (6 + 2 * 32) 2 True s1 = Some (a2, s2)"
    "alloc kend (6 + 8 * 32) 4 True s2 = Some (a3, s3)" "alloc kend (32 * 16) 16 True s3 = Some (a4, s')"
    using i by (auto simp: virtio_disk_init_def Let_def split: if_splits bind_splits)
  have a1: "above (unat (freemem s)) s s1" "unat (freemem s) \<le> unat (freemem s1)" "unat (freemem s1) \<le> unat (freemem s) + 528"
    using alloc_above [of kend "32 * 16" 4 s a1 s1] al(1) f by simp_all
  have a2: "above (unat (freemem s1)) s1 s2" "unat (freemem s1) \<le> unat (freemem s2)" "unat (freemem s2) \<le> unat (freemem s1) + 72"
    using alloc_above [of kend "6 + 2 * 32" 1 s1 a2 s2] al(2) f a1 by simp_all
  have a3: "above (unat (freemem s2)) s2 s3" "unat (freemem s2) \<le> unat (freemem s3)" "unat (freemem s3) \<le> unat (freemem s2) + 266"
    using alloc_above [of kend "6 + 8 * 32" 2 s2 a3 s3] al(3) f a1 a2 by simp_all
  have a4: "above (unat (freemem s3)) s3 s'"
    using alloc_above [of kend "32 * 16" 4 s3 a4 s'] al(4) f a1 a2 a3 by simp_all
  show ?thesis using a1(1,2) a2(1,2) a3(1,2) a4 unfolding above_def by auto
qed

lemma alloc_succeeds:
  assumes f: "0 < unat (freemem s)" "unat (freemem s) + 2 ^ j + unat n + 8 < 2 ^ 32" "j < 32" "unat (freemem s) + 2 ^ j + unat n < unat (ULIM + memsize s)"
  shows "\<exists>a s'. alloc kend n (2 ^ j) True s = Some (a, s') \<and> memsize s' = memsize s"
proof -
  let ?a = "ROUND (freemem s) (2 ^ j)"
  note r = ROUND_bounds [of "freemem s" j]
  have r: "unat ?a < unat (freemem s) + 2 ^ j" using r f(2,3) by simp_all
  have nz: "freemem s \<noteq> 0" using f(1) by auto
  have u: "unat (?a + n) = unat ?a + unat n" using r f(2) by (intro unat_add_no_overflow) simp
  then have "\<not> ?a + n \<ge> ULIM + memsize s" using f(4) r by (simp add: word_le_nat_alt)
  moreover have "memset (mem s) ?a 0 n \<noteq> None" using memset_filled [of ?a n "mem s" 0] r f(2) by simp
  ultimately show ?thesis using nz by (auto simp: alloc_def Let_def)
qed

lemma above_boot_ready:
  assumes bm: "boot_mem p" and pr: "pp_ref p = (\<lambda>j. if j < k then 1 else 0)" and k: "k + 3 \<le> unat (npage p)" "unat (npage p) \<le> 0x55555"
    and ab: "above (4096 * (k + 0x80200)) p q" and a: "pages_addr p = page2pa a" "a + npages_pages p \<le> k" and v: "envs_addr s = page2pa v" "v + 56 \<le> k"
    and kp: "kernel_pgdir s = page2pa kp" "kp < k" "\<And>i. i < PDX UTOP \<Longrightarrow> \<not> has (ent (mem p) kp i) PTE_V"
  shows "boot_ready (s\<lparr>pm := q, disk := d\<rparr>) a v kp"
proof -
  have Q: "npage q = npage p" "pp_ref q = pp_ref p" "page_free_list q = page_free_list p" "pages_addr q = pages_addr p"
    "\<And>x. unat x < 4096 * (k + 0x80200) \<Longrightarrow> mem q x = mem p x" using ab by (auto simp: above_def)
  have fr: "frees q = {k..<unat (npage p)}" "frees q = frees p" by (auto simp: frees_def Q pr)
  have kb: "kp < page_bound" using kp(2) k by (simp add: page_bound_def)
  have "ent (mem q) kp i = ent (mem p) kp i" if "i < 1024" for i
    unfolding ent_def
  proof (rule ld32_eqI)
    fix j assume "j < (4 :: nat)"
    then have "unat (slot kp i + of_nat j) < 4096 * (k + 0x80200)"
      using slot_byte_unat [OF kb that] kp(2) that by (simp add: word_less_nat_alt)
    then show "mem q (slot kp i + of_nat j) = mem p (slot kp i + of_nat j)" by (rule Q(5))
  qed
  then have "\<not> has (ent (mem q) kp i) PTE_V" if "i < PDX UTOP" for i using kp(3) [OF that] user_slot_less [OF that] by simp
  moreover have "boot_mem q" by (rule boot_mem_cong [OF bm]) (simp_all add: Q fr(2))
  moreover have "npages_pages q = npages_pages p" by (simp add: npages_pages_def Q)
  ultimately show ?thesis using a v kp(1,2) k unfolding boot_ready_def by (simp add: Q fr(1) pr)
qed

text \<open>Property C38.  After the initialisation of the kernel, in the order of \<^verbatim>\<open>mips_init\<close>, the invariants hold that all other properties start from: \<^verbatim>\<open>page_init\<close>
  and \<^verbatim>\<open>env_init\<close> return, the reference counts and the free list agree, all environments are on the free list in the order of their indices and the
  run queue is empty, and every address space made from the template shows the arrays \<^verbatim>\<open>pages\<close> and \<^verbatim>\<open>envs\<close> at \<^verbatim>\<open>UPAGES\<close> and \<^verbatim>\<open>UENVS\<close>, byte for byte and
  read-only.  \<open>k\<close> is the first frame after the memory that the boot allocator has handed out.\<close>

theorem boot_correct:
  assumes fm: "unat (ROUND (freemem (pm s)) BY2PG) = 4096 * (k + 0x80200)" and k: "k + 3 \<le> unat (npage (pm s))" "unat (npage (pm s)) \<le> 0x55555"
    and z: "pp_ref (pm s) = (\<lambda>_. 0)" and a: "pages_addr (pm s) = page2pa a" "a + npages_pages (pm s) \<le> k"
    and v: "envs_addr s = page2pa v" "v + 56 \<le> k"
    and kp: "kernel_pgdir s = page2pa kp" "kp < k" "\<And>i. i < PDX UTOP \<Longrightarrow> \<not> has (ent (mem (pm s)) kp i) PTE_V"
  shows "\<exists>p. page_init (pm s) = Some p \<and> (\<forall>d q. virtio_disk_init R kend (disk s) p = Some (d, q) \<longrightarrow>
    (\<exists>s' b. env_init (s\<lparr>pm := q, disk := d\<rparr>) = Some s' \<and> live s' = {} \<and> space_inv s' dp {} (\<lambda>q. unat (pp_ref (pm s') q)) \<and>
      table_inv s' [0..<NENV] [] \<and> boot_dirs s' kp b \<and>
      (\<forall>x < 4096 * npages_pages (pm s). uva_pa (pm s') (page2pa b) PTE_R (UPAGES + of_nat x) = Some (pages_addr (pm s) + of_nat x) \<and>
         uva_pa (pm s') (page2pa b) PTE_W (UPAGES + of_nat x) = None) \<and>
      (\<forall>x < NENV * unat sizeof_Env. uva_pa (pm s') (page2pa b) PTE_R (UENVS + of_nat x) = Some (envs_addr s + of_nat x) \<and>
         uva_pa (pm s') (page2pa b) PTE_W (UENVS + of_nat x) = None)))"
proof -
  have k': "k < unat (npage (pm s))" "unat (npage (pm s)) \<le> page_bound" using k by (simp_all add: page_bound_def)
  obtain p where p: "page_init (pm s) = Some p" "list_rep (page_free_list p) (rev [k..<unat (npage (pm s))])" "pp_ref p = (\<lambda>j. if j < k then 1 else 0)"
    "mem p = mem (pm s)" "npage p = npage (pm s)" "freemem p = ROUND (freemem (pm s)) BY2PG" "pages_addr p = pages_addr (pm s)"
    using page_init_run [OF fm k' z] by blast
  have "set (rev [k..<unat (npage (pm s))]) = frees p" by (auto simp: frees_def p(3,5))
  then have bm: "boot_mem p" using p(5) k'(2) by (intro boot_memI [OF _ p(2)]) simp_all
  have np: "npages_pages p = npages_pages (pm s)" by (simp add: npages_pages_def p(5))
  show ?thesis
  proof (intro exI [of _ p] conjI p(1) allI impI)
    fix d q assume vi: "virtio_disk_init R kend (disk s) p = Some (d, q)"
    have ab: "above (4096 * (k + 0x80200)) p q"
      using virtio_disk_init_above [OF vi] fm k by (simp add: p(6))
    have rdy: "boot_ready (s\<lparr>pm := q, disk := d\<rparr>) a v kp"
      by (rule above_boot_ready [OF bm p(3) _ _ ab _ _ v kp(1,2)]) (use k a kp(3) in \<open>simp_all add: p np\<close>)
    have nq: "npages_pages q = npages_pages (pm s)" using ab by (simp add: above_def npages_pages_def p(5))
    have ne: "NENV * unat sizeof_Env = 4096 * 56" by (simp add: NENV_def sizeof_Env_def)
    show "\<exists>s' b. env_init (s\<lparr>pm := q, disk := d\<rparr>) = Some s' \<and> live s' = {} \<and> space_inv s' dp {} (\<lambda>q. unat (pp_ref (pm s') q)) \<and>
      table_inv s' [0..<NENV] [] \<and> boot_dirs s' kp b \<and>
      (\<forall>x < 4096 * npages_pages (pm s). uva_pa (pm s') (page2pa b) PTE_R (UPAGES + of_nat x) = Some (pages_addr (pm s) + of_nat x) \<and>
         uva_pa (pm s') (page2pa b) PTE_W (UPAGES + of_nat x) = None) \<and>
      (\<forall>x < NENV * unat sizeof_Env. uva_pa (pm s') (page2pa b) PTE_R (UENVS + of_nat x) = Some (envs_addr s + of_nat x) \<and>
         uva_pa (pm s') (page2pa b) PTE_W (UENVS + of_nat x) = None)"
      unfolding ne a(1) v(1) by (rule env_init_run [OF rdy, of dp]) (use nq in \<open>auto intro!: exI\<close>)
  qed
qed

text \<open>The machine as it starts: 15872 frames, the boot allocator at the end of frame 512, and a device with the registers \<open>kboot_regs\<close>.\<close>

definition kboot_regs :: "u32 \<Rightarrow> u32" where
  "kboot_regs r = (if r = 0 then 0x74726976 else if r = 4 \<or> r = 8 then 2 else if r = 0xc then 0x554d4551 else if r = 0x70 then 8 else if r = 0x34 then 32 else 0)"

definition kboot :: kstate where
  "kboot = kdemo\<lparr>pm := mips_detect_memory (demo\<lparr>freemem := 0x80400001, pp_ref := (\<lambda>_. 0), pages_addr := page2pa 300\<rparr>),
     envs_addr := page2pa 200, kernel_pgdir := page2pa 100\<rparr>"

lemma virtio_disk_init_kboot:
  fixes s :: pmap
  assumes f: "unat (freemem s) = 0x80401000" "memsize s = PMEMSIZE"
  shows "\<exists>d q. virtio_disk_init kboot_regs kend v s = Some (d, q)"
proof -
  have lim: "unat (ULIM + PMEMSIZE) = 0x84000000" by (simp add: layout_defs)
  have al: "\<exists>a s'. alloc kend n (2 ^ j) True s = Some (a, s') \<and> memsize s' = PMEMSIZE \<and> unat (freemem s) \<le> unat (freemem s') \<and>
      unat (freemem s') \<le> unat (freemem s) + 1000"
    if "unat n \<le> 512" "j \<in> {1, 2, 4}" "memsize s = PMEMSIZE" "0x80401000 \<le> unat (freemem s)" "unat (freemem s) \<le> 0x80403000" for n j and s :: pmap
  proof -
    note h = that
    have j: "(2 :: nat) ^ j \<le> 16" "j < 32" using h(2) by auto
    have pre: "0 < unat (freemem s)" "unat (freemem s) + 2 ^ j + unat n + 8 < 2 ^ 32" "unat (freemem s) + 2 ^ j + unat n < unat (ULIM + memsize s)"
    proof -
      show "0 < unat (freemem s)" using h(4) by simp
      have "unat (freemem s) + 2 ^ j + unat n \<le> 0x80403000 + 16 + 512" using h(5) j(1) h(1) by (intro add_mono)
      then show "unat (freemem s) + 2 ^ j + unat n + 8 < 2 ^ 32" "unat (freemem s) + 2 ^ j + unat n < unat (ULIM + memsize s)" unfolding h(3) lim by simp_all
    qed
    obtain a s' where s': "alloc kend n (2 ^ j) True s = Some (a, s')" "memsize s' = PMEMSIZE"
      using alloc_succeeds [OF pre(1,2) j(2) pre(3), of kend] h(3) by auto
    have "unat (freemem s) \<le> unat (freemem s')" "unat (freemem s') \<le> unat (freemem s) + 2 ^ j + unat n" by (rule alloc_above [OF s'(1) pre(1,2) j(2)])+
    then have "unat (freemem s) \<le> unat (freemem s')" "unat (freemem s') \<le> unat (freemem s) + 1000" using h(1) j(1) by linarith+
    then show ?thesis using s' by blast
  qed
  obtain a1 s1 where s1: "alloc kend (32 * 16) (2 ^ 4) True s = Some (a1, s1)" "memsize s1 = PMEMSIZE" "0x80401000 \<le> unat (freemem s1)" "unat (freemem s1) \<le> 0x80401000 + 1000"
    using al [of "32 * 16" 4 s] f by auto
  obtain a2 s2 where s2: "alloc kend (6 + 2 * 32) (2 ^ 1) True s1 = Some (a2, s2)" "memsize s2 = PMEMSIZE" "0x80401000 \<le> unat (freemem s2)" "unat (freemem s2) \<le> 0x80401000 + 2000"
    using al [of "6 + 2 * 32" 1 s1] s1 by auto
  obtain a3 s3 where s3: "alloc kend (6 + 8 * 32) (2 ^ 2) True s2 = Some (a3, s3)" "memsize s3 = PMEMSIZE" "0x80401000 \<le> unat (freemem s3)" "unat (freemem s3) \<le> 0x80401000 + 3000"
    using al [of "6 + 8 * 32" 2 s2] s2 by auto
  obtain a4 s4 where s4: "alloc kend (32 * 16) (2 ^ 4) True s3 = Some (a4, s4)"
    using al [of "32 * 16" 4 s3] s3 by auto
  show ?thesis using s1(1) s2(1) s3(1) s4 by (simp add: virtio_disk_init_def kboot_regs_def Let_def VIRTIO_QUEUE_NUM_def)
qed

theorem boot_correct_witness:
  "\<exists>s'. do { p \<leftarrow> page_init (pm kboot); (d, p) \<leftarrow> virtio_disk_init kboot_regs 0x80400001 (disk kboot) p; env_init (kboot\<lparr>pm := p, disk := d\<rparr>) } = Some s' \<and>
     live s' = {} \<and> table_inv s' [0..<NENV] []"
proof -
  have np: "unat (npage (pm kboot)) = 15872" by (simp add: kboot_def mips_detect_memory_def layout_defs Let_def)
  have fm: "unat (ROUND (freemem (pm kboot)) BY2PG) = 4096 * (513 + 0x80200)" by (simp add: kboot_def mips_detect_memory_def ROUND_def BY2PG_def Let_def)
  have F: "pp_ref (pm kboot) = (\<lambda>_. 0)" "pages_addr (pm kboot) = page2pa 300" "envs_addr kboot = page2pa 200" "kernel_pgdir kboot = page2pa 100"
    "memsize (pm kboot) = PMEMSIZE" by (simp_all add: kboot_def mips_detect_memory_def Let_def)
  have "300 + npages_pages (pm kboot) \<le> 513" "513 + 3 \<le> unat (npage (pm kboot))" "unat (npage (pm kboot)) \<le> 0x55555" "200 + 56 \<le> (513 :: nat)" "100 < (513 :: nat)"
    by (simp_all add: npages_pages_def np)
  note b = this
  have e: "\<not> has (ent (mem (pm kboot)) 100 i) PTE_V" for i by (simp add: kboot_def mips_detect_memory_def Let_def demo_def ent_def ld32_def has_def)
  obtain p where p: "page_init (pm kboot) = Some p" "\<And>d q. virtio_disk_init kboot_regs 0x80400001 (disk kboot) p = Some (d, q) \<Longrightarrow>
      \<exists>s'. env_init (kboot\<lparr>pm := q, disk := d\<rparr>) = Some s' \<and> live s' = {} \<and> table_inv s' [0..<NENV] []"
    using boot_correct [OF fm b(2,3) F(1,2) b(1) F(3) b(4) F(4) b(5) e, of kboot_regs "0x80400001" "\<lambda>_. 0"] by blast
  obtain p' where "page_init (pm kboot) = Some p'" "freemem p' = ROUND (freemem (pm kboot)) BY2PG" "memsize p' = memsize (pm kboot)"
  proof -
    have "513 < unat (npage (pm kboot))" "unat (npage (pm kboot)) \<le> page_bound" unfolding np by (simp_all add: page_bound_def)
    from page_init_run [OF fm this F(1)] show ?thesis using that by blast
  qed
  then have "unat (freemem p) = 0x80401000" "memsize p = PMEMSIZE" using p(1) fm F(5) by simp_all
  from virtio_disk_init_kboot [OF this] obtain d q where dq: "virtio_disk_init kboot_regs 0x80400001 (disk kboot) p = Some (d, q)" by blast
  then show ?thesis using p(1) p(2) [OF dq] by simp
qed
end
