(* ===== verification/Mos_Syscall.thy ===== *)
theory Mos_Syscall
  imports Mos_Trap
begin

text \<open>
  System calls: \<^verbatim>\<open>kern/syscall_all.c\<close> and \<^verbatim>\<open>include/syscall.h\<close>.

  A system call returns a value (\<open>KReturn\<close>), returns from a \<^verbatim>\<open>void\<close> function, which leaves whatever is in the register
  (\<open>KVoid\<close>), or never comes back to its caller because another environment runs (\<open>KSwitch\<close>); \<open>None\<close> is a panic.  \<open>R\<close> are the
  device registers that \<^verbatim>\<open>schedule\<close> reads.
\<close>

declare split_paired_All [simp del] split_paired_Ex [simp del]

datatype outcome = KReturn u32 | KVoid | KSwitch

type_synonym sysres = "(outcome \<times> kstate) option"

definition ret :: "u32 \<Rightarrow> kstate \<Rightarrow> sysres" where
  "ret v s = Some (KReturn v, s)"

definition fail :: "err \<Rightarrow> kstate \<Rightarrow> sysres" where
  "fail e s = Some (KReturn (neg_errno e), s)"

text \<open>\<^verbatim>\<open>return page_insert(...)\<close> and the like.\<close>

definition ret_result :: "err + unit \<Rightarrow> kstate \<Rightarrow> sysres" where
  "ret_result r s = (case r of Inl e \<Rightarrow> fail e s | Inr _ \<Rightarrow> ret 0 s)"

text \<open>\<^verbatim>\<open>try(envid2env(envid, &e, checkperm))\<close> followed by the rest of the function.\<close>

definition try_env :: "u32 \<Rightarrow> bool \<Rightarrow> kstate \<Rightarrow> (nat \<Rightarrow> sysres) \<Rightarrow> sysres" where
  "try_env envid checkperm s k = do {
     r \<leftarrow> envid2env envid checkperm s;
     case r of Inl er \<Rightarrow> fail er s | Inr None \<Rightarrow> None | Inr (Some e) \<Rightarrow> k e }"

section \<open>Console\<close>

definition sys_putchar :: "u32 \<Rightarrow> kstate \<Rightarrow> sysres" where
  "sys_putchar c s = Some (KVoid, s\<lparr>console_out := console_out s @ [ucast c]\<rparr>)"

fun print_cons_loop :: "u32 \<Rightarrow> nat \<Rightarrow> kstate \<Rightarrow> kstate option" where
  "print_cons_loop va 0 s = Some s"
| "print_cons_loop va (Suc n) s = do {
     (c, s) \<leftarrow> kload8 va s;
     print_cons_loop (va + 1) n (s\<lparr>console_out := console_out s @ [c]\<rparr>) }"

definition sys_print_cons :: "u32 \<Rightarrow> u32 \<Rightarrow> kstate \<Rightarrow> sysres" where
  "sys_print_cons va num s =
     (if va + num > UTOP \<or> va \<ge> UTOP \<or> va > va + num then fail E_INVAL s
      else do { s \<leftarrow> print_cons_loop va (unat num) s; ret 0 s })"

text \<open>\<open>console_in\<close> lists the results of the next polls; the loop does not end while they are 0.\<close>

fun cgetc_loop :: "u32 list \<Rightarrow> (u32 \<times> u32 list) option" where
  "cgetc_loop [] = None"
| "cgetc_loop (ch # rest) = (if ch = 0 then cgetc_loop rest else Some (ch, rest))"

definition sys_cgetc :: "kstate \<Rightarrow> sysres" where
  "sys_cgetc s = do { (ch, rest) \<leftarrow> cgetc_loop (console_in s); ret ch (s\<lparr>console_in := rest\<rparr>) }"

definition sys_panic :: "u32 \<Rightarrow> kstate \<Rightarrow> sysres" where
  "sys_panic msg s = None"

section \<open>Environments\<close>

definition sys_getenvid :: "kstate \<Rightarrow> sysres" where
  "sys_getenvid s = do { ce \<leftarrow> the_curenv s; ret (env_id ce) s }"

definition sys_yield :: "(u32 \<Rightarrow> u32) \<Rightarrow> kstate \<Rightarrow> sysres" where
  "sys_yield R s = do { s \<leftarrow> schedule R True s; Some (KSwitch, s) }"

definition sys_env_destroy :: "(u32 \<Rightarrow> u32) \<Rightarrow> u32 \<Rightarrow> kstate \<Rightarrow> sysres" where
  "sys_env_destroy R envid s = try_env envid True s (\<lambda>e. do {
     r \<leftarrow> env_destroy R e s;
     case r of Inl s \<Rightarrow> ret 0 s | Inr s \<Rightarrow> Some (KSwitch, s) })"

definition sys_set_tlb_mod_entry :: "u32 \<Rightarrow> u32 \<Rightarrow> kstate \<Rightarrow> sysres" where
  "sys_set_tlb_mod_entry envid func s = try_env envid True s (\<lambda>e.
     ret 0 (upd_env e (\<lambda>en. en\<lparr>env_user_tlb_mod_entry := func\<rparr>) s))"

definition sys_exofork :: "kstate \<Rightarrow> sysres" where
  "sys_exofork s = do {
     c \<leftarrow> curenv s;
     (r, s) \<leftarrow> env_alloc (env_id (envs s c)) s;
     case r of
       Inl er \<Rightarrow> fail er s
     | Inr e \<Rightarrow>
         (let s = upd_env e (\<lambda>en. en\<lparr>env_tf := kstack_tf s\<rparr>) s;
              s = upd_env e (\<lambda>en. en\<lparr>env_tf := set_reg 10 0 (env_tf en)\<rparr>) s;
              s = upd_env e (\<lambda>en. en\<lparr>env_status := ENV_NOT_RUNNABLE\<rparr>) s;
              s = upd_env e (\<lambda>en. en\<lparr>env_pri := env_pri (envs s c)\<rparr>) s
          in ret (env_id (envs s e)) s) }"

definition sys_set_env_status :: "u32 \<Rightarrow> u32 \<Rightarrow> kstate \<Rightarrow> sysres" where
  "sys_set_env_status envid status s =
     (if status \<noteq> ENV_RUNNABLE \<and> status \<noteq> ENV_NOT_RUNNABLE then fail E_INVAL s
      else try_env envid True s (\<lambda>e. do {
        q \<leftarrow> (if env_status (envs s e) \<noteq> status then
                 if status = ENV_RUNNABLE then TAILQ_INSERT_TAIL (env_sched_list s) e
                 else TAILQ_REMOVE (env_sched_list s) e
               else Some (env_sched_list s));
        ret 0 (upd_env e (\<lambda>en. en\<lparr>env_status := status\<rparr>) (s\<lparr>env_sched_list := q\<rparr>)) }))"

section \<open>User addresses\<close>

definition is_illegal_va :: "u32 \<Rightarrow> bool" where
  "is_illegal_va va \<longleftrightarrow> va < UTEMP \<or> va \<ge> UTOP"

definition is_illegal_va_range :: "u32 \<Rightarrow> u32 \<Rightarrow> bool" where
  "is_illegal_va_range va len = (if len = 0 then False else va + len < va \<or> va < UTEMP \<or> va + len > UTOP)"

definition sys_set_trapframe :: "u32 \<Rightarrow> u32 \<Rightarrow> kstate \<Rightarrow> sysres" where
  "sys_set_trapframe envid tf s =
     (if is_illegal_va_range tf TRAPFRAME_SIZE then fail E_INVAL s
      else try_env envid True s (\<lambda>e. do {
        (bs, s) \<leftarrow> kloads tf (unat TRAPFRAME_SIZE) s;
        let f = tf_of_bytes bs;
        if curenv s = Some e then ret (tf_regs f 10) (s\<lparr>kstack_tf := f\<rparr>)
        else ret 0 (upd_env e (\<lambda>en. en\<lparr>env_tf := f\<rparr>) s) }))"

section \<open>Memory\<close>

definition sys_mem_alloc :: "u32 \<Rightarrow> u32 \<Rightarrow> u32 \<Rightarrow> kstate \<Rightarrow> sysres" where
  "sys_mem_alloc envid va perm s =
     (if is_illegal_va va then fail E_INVAL s
      else try_env envid True s (\<lambda>e. do {
        (r, p) \<leftarrow> page_alloc (pm s);
        case r of
          Inl er \<Rightarrow> fail er (s\<lparr>pm := p\<rparr>)
        | Inr pp \<Rightarrow> do {
            (r, p) \<leftarrow> page_insert (env_pgdir (envs s e)) (env_asid (envs s e)) pp va (perm OR PTE_U) p;
            ret_result r (s\<lparr>pm := p\<rparr>) } }))"

definition sys_mem_map :: "u32 \<Rightarrow> u32 \<Rightarrow> u32 \<Rightarrow> u32 \<Rightarrow> u32 \<Rightarrow> kstate \<Rightarrow> sysres" where
  "sys_mem_map srcid srcva dstid dstva perm s =
     (if is_illegal_va srcva then fail E_INVAL s
      else if is_illegal_va dstva then fail E_INVAL s
      else try_env srcid True s (\<lambda>srcenv. try_env dstid True s (\<lambda>dstenv. do {
        (r, p) \<leftarrow> page_lookup (env_pgdir (envs s srcenv)) srcva (pm s);
        case r of
          None \<Rightarrow> fail E_INVAL (s\<lparr>pm := p\<rparr>)
        | Some (pp, _) \<Rightarrow> do {
            (r, p) \<leftarrow> page_insert (env_pgdir (envs s dstenv)) (env_asid (envs s dstenv)) pp dstva (perm OR PTE_U) p;
            ret_result r (s\<lparr>pm := p\<rparr>) } })))"

definition sys_mem_unmap :: "u32 \<Rightarrow> u32 \<Rightarrow> kstate \<Rightarrow> sysres" where
  "sys_mem_unmap envid va s =
     (if is_illegal_va va then fail E_INVAL s
      else try_env envid True s (\<lambda>e. do {
        p \<leftarrow> page_remove (env_pgdir (envs s e)) (env_asid (envs s e)) va (pm s);
        ret 0 (s\<lparr>pm := p\<rparr>) }))"

section \<open>Inter-process communication\<close>

definition sys_ipc_recv :: "(u32 \<Rightarrow> u32) \<Rightarrow> u32 \<Rightarrow> kstate \<Rightarrow> sysres" where
  "sys_ipc_recv R dstva s =
     (if dstva \<noteq> 0 \<and> is_illegal_va dstva then fail E_INVAL s
      else do {
        c \<leftarrow> curenv s;
        let s = upd_env c (\<lambda>en. en\<lparr>env_ipc_recving := 1\<rparr>) s;
        let s = upd_env c (\<lambda>en. en\<lparr>env_ipc_dstva := dstva\<rparr>) s;
        let s = upd_env c (\<lambda>en. en\<lparr>env_status := ENV_NOT_RUNNABLE\<rparr>) s;
        q \<leftarrow> TAILQ_REMOVE (env_sched_list s) c;
        let s = s\<lparr>env_sched_list := q, kstack_tf := set_reg 10 0 (kstack_tf s)\<rparr>;
        s \<leftarrow> schedule R True s;
        Some (KSwitch, s) })"

text \<open>Step 6 of \<^verbatim>\<open>sys_ipc_try_send\<close>: the page of the message.\<close>

definition ipc_send_page :: "nat \<Rightarrow> u32 \<Rightarrow> kstate \<Rightarrow> sysres" where
  "ipc_send_page e srcva s =
     (if srcva \<noteq> 0 then do {
        ce \<leftarrow> the_curenv s;
        (r, p) \<leftarrow> page_lookup (env_pgdir ce) srcva (pm s);
        case r of
          None \<Rightarrow> fail E_INVAL (s\<lparr>pm := p\<rparr>)
        | Some (pp, _) \<Rightarrow> do {
            (r, p) \<leftarrow> page_insert (env_pgdir (envs s e)) (env_asid (envs s e)) pp (env_ipc_dstva (envs s e))
                        (env_ipc_perm (envs s e)) p;
            ret_result r (s\<lparr>pm := p\<rparr>) } }
      else ret 0 s)"

definition sys_ipc_try_send :: "u32 \<Rightarrow> u32 \<Rightarrow> u32 \<Rightarrow> u32 \<Rightarrow> kstate \<Rightarrow> sysres" where
  "sys_ipc_try_send envid val srcva perm s =
     (if srcva \<noteq> 0 \<and> is_illegal_va srcva then fail E_INVAL s
      else try_env envid False s (\<lambda>e.
        if env_ipc_recving (envs s e) = 0 then fail E_IPC_NOT_RECV s
        else do {
          ce \<leftarrow> the_curenv s;
          let perm = (if has perm PTE_W then perm OR PTE_R else perm);
          let s = upd_env e (\<lambda>en. en\<lparr>env_ipc_value := val, env_ipc_from := env_id ce,
                                     env_ipc_perm := PTE_U OR PTE_V OR perm, env_ipc_recving := 0\<rparr>) s;
          let s = upd_env e (\<lambda>en. en\<lparr>env_status := ENV_RUNNABLE\<rparr>) s;
          q \<leftarrow> TAILQ_INSERT_TAIL (env_sched_list s) e;
          ipc_send_page e srcva (s\<lparr>env_sched_list := q\<rparr>) }))"

section \<open>Devices\<close>

text \<open>\<^verbatim>\<open>va2pa\<close> gives \<^verbatim>\<open>~0\<close> for an unmapped address, and the test \<^verbatim>\<open>pa < 0\<close> on the unsigned value never holds: the driver then
  reads the request at the last address of the address space, where the kernel maps nothing, and panics.\<close>

definition sys_dev_req :: "u32 \<Rightarrow> u32 \<Rightarrow> kstate \<Rightarrow> sysres" where
  "sys_dev_req dev req s =
     (if req AND 0xFFF \<noteq> 0 \<or> is_illegal_va req then fail E_INVAL s
      else do {
        pa \<leftarrow> va2pa (pm s) (cur_pgdir s) req;
        if dev = 8 then
          if pa = NOT 0 then None
          else do {
            (r, v, m) \<leftarrow> virtio_disk_req pa (disk s) (mem (pm s));
            ret_result r (s\<lparr>disk := v, pm := (pm s)\<lparr>mem := m\<rparr>\<rparr>) }
        else fail E_INVAL s })"

section \<open>Dispatch\<close>

definition MAX_SYSNO :: nat where "MAX_SYSNO = 17"

definition syscall_table :: "(u32 \<Rightarrow> u32) \<Rightarrow> nat \<Rightarrow> u32 \<Rightarrow> u32 \<Rightarrow> u32 \<Rightarrow> u32 \<Rightarrow> u32 \<Rightarrow> kstate \<Rightarrow> sysres" where
  "syscall_table R sysno a1 a2 a3 a4 a5 s =
     [sys_putchar a1 s, sys_print_cons a1 a2 s, sys_getenvid s, sys_yield R s, sys_env_destroy R a1 s,
      sys_set_tlb_mod_entry a1 a2 s, sys_mem_alloc a1 a2 a3 s, sys_mem_map a1 a2 a3 a4 a5 s, sys_mem_unmap a1 a2 s,
      sys_exofork s, sys_set_env_status a1 a2 s, sys_set_trapframe a1 a2 s, sys_panic a1 s,
      sys_ipc_try_send a1 a2 a3 a4 s, sys_ipc_recv R a1 s, sys_cgetc s, sys_dev_req a1 a2 s] ! sysno"

definition set_a0 :: "u32 \<Rightarrow> kstate \<Rightarrow> kstate" where
  "set_a0 v s = s\<lparr>kstack_tf := set_reg 10 v (kstack_tf s)\<rparr>"

text \<open>\<open>junk\<close> is what a \<^verbatim>\<open>void\<close> system call leaves in the return register.\<close>

definition do_syscall :: "(u32 \<Rightarrow> u32) \<Rightarrow> u32 \<Rightarrow> kstate \<Rightarrow> kstate option" where
  "do_syscall R junk s =
     (let sysno = tf_regs (kstack_tf s) 10
      in if sint sysno < 0 \<or> sint sysno \<ge> int MAX_SYSNO then Some (set_a0 (neg_errno E_NO_SYS) s)
         else
           (let s = s\<lparr>kstack_tf := (kstack_tf s)\<lparr>tf_sepc := tf_sepc (kstack_tf s) + 4\<rparr>\<rparr>;
                a = tf_regs (kstack_tf s)
            in do {
                 (r, s) \<leftarrow> syscall_table R (unat sysno) (a 11) (a 12) (a 13) (a 14) (a 15) s;
                 Some (case r of KReturn v \<Rightarrow> set_a0 v s | KVoid \<Rightarrow> set_a0 junk s | KSwitch \<Rightarrow> s) }))"

section \<open>Exceptions (kern/traps.c)\<close>

text \<open>\<^verbatim>\<open>do_reserved\<close> prints the registers and panics.\<close>

definition do_reserved :: "kstate \<Rightarrow> kstate option" where
  "do_reserved s = None"

definition exception_handlers :: "(u32 \<Rightarrow> u32) \<Rightarrow> u32 \<Rightarrow> nat \<Rightarrow> kstate \<Rightarrow> kstate option" where
  "exception_handlers R junk code =
     (if code = 12 \<or> code = 13 \<or> code = 15 then do_tlb_miss
      else if code = 7 then do_tlb_mod
      else if code = 8 then do_syscall R junk
      else do_reserved)"
end
