(* ===== verification/Mos_Sys_Mem.thy ===== *)
theory Mos_Sys_Mem
  imports Mos_Syscall
begin

text \<open>
  The memory system calls.  \<open>kinv\<close> is the part of the kernel invariant they rely on and keep; the case rules
  \<open>sys_mem_alloc_cases\<close>, \<open>sys_mem_map_cases\<close> and \<open>sys_mem_unmap_cases\<close> have one case per way the call returns.
\<close>

declare split_paired_All [simp del] split_paired_Ex [simp del]

section \<open>The invariant between two traps\<close>

definition kinv :: "kstate \<Rightarrow> (nat \<Rightarrow> nat) \<Rightarrow> nat set \<Rightarrow> (nat \<Rightarrow> nat) \<Rightarrow> nat \<Rightarrow> bool" where
  "kinv s dp L X c \<longleftrightarrow> space_inv s dp L X \<and> curenv s = Some c \<and> c \<in> live s \<and> cur_pgdir s = env_pgdir (envs s c)"

text \<open>Which environments a system call of \<open>c\<close> may manipulate.\<close>

definition controls :: "kstate \<Rightarrow> nat \<Rightarrow> nat \<Rightarrow> bool" where
  "controls s c e \<longleftrightarrow> e = c \<or> env_parent_id (envs s e) = env_id (envs s c)"

lemma ENVX_less: "ENVX i < NENV"
proof -
  have "(of_nat NENV - 1 :: u32) = mask 10" by (simp add: NENV_def mask_eq_exp_minus_1)
  then have "unat (i AND (of_nat NENV - 1)) = unat i mod 1024"
    by (simp add: unat_mod take_bit_eq_mod flip: take_bit_eq_mask)
  then show ?thesis by (simp add: ENVX_def NENV_def)
qed

lemma try_env_cases:
  assumes cur: "curenv s = Some c" "c \<in> live s"
  obtains (bad) "\<And>k. try_env envid chk s k = fail E_BAD_ENV s" "envid2env envid chk s = Some (Inl E_BAD_ENV)"
  | (ok) e where "\<And>k. try_env envid chk s k = k e" "envid2env envid chk s = Some (Inr (Some e))" "e \<in> live s" "chk \<Longrightarrow> controls s c e"
proof (cases "envid = 0")
  case True
  then show thesis using ok [of c] cur by (simp add: try_env_def envid2env_def controls_def)
next
  case False
  let ?e = "ENVX envid"
  consider (a) "env_status (envs s ?e) = ENV_FREE \<or> env_id (envs s ?e) \<noteq> envid"
    | (b) "env_status (envs s ?e) \<noteq> ENV_FREE" "env_id (envs s ?e) = envid" "chk" "?e \<noteq> c" "env_parent_id (envs s ?e) \<noteq> env_id (envs s c)"
    | (c) "env_status (envs s ?e) \<noteq> ENV_FREE" "env_id (envs s ?e) = envid" "chk \<longrightarrow> controls s c ?e"
    by (auto simp: controls_def)
  then show thesis
  proof cases
    case a
    then show thesis using bad False by (simp add: try_env_def envid2env_def)
  next
    case b
    then show thesis using bad False cur(1) by (simp add: try_env_def envid2env_def the_curenv_def)
  next
    case c
    then show thesis using ok [of ?e] False cur(1) ENVX_less [of envid]
      by (auto simp: try_env_def envid2env_def the_curenv_def controls_def live_def Let_def)
  qed
qed

lemma legal_va: "\<not> is_illegal_va va \<Longrightarrow> user_va va"
  by (rule user_va_UTOP) (simp add: is_illegal_va_def not_le)

lemma kinv_env:
  assumes "kinv s dp L X c" "e \<in> live s"
  shows "vm_inv (pm s) (dp ` live s) L X" "env_pgdir (envs s e) = page2pa (dp e)" "dp e \<in> dp ` live s" "inj_on dp (live s)"
    "curenv s = Some c" "c \<in> live s" "cur_pgdir s = page2pa (dp c)"
  using assms by (auto simp: kinv_def space_inv_def)

lemma kinv_pm:
  assumes "kinv s dp L X c" "vm_inv p (dp ` live s) L' X'"
  shows "kinv (s\<lparr>pm := p\<rparr>) dp L' X' c"
proof -
  have "live (s\<lparr>pm := p\<rparr>) = live s" by (simp add: live_def)
  then show ?thesis using assms by (simp add: kinv_def space_inv_def)
qed

lemma perm_or_U: "flag_bits perm \<Longrightarrow> flag_bits (perm OR PTE_U)"
  by (intro flag_bits_or) simp_all

section \<open>The memory calls\<close>

lemma sys_mem_alloc_cases:
  assumes kv: "kinv s dp L X c" and fl: "flag_bits perm"
  obtains (inval) "is_illegal_va va" "sys_mem_alloc envid va perm s = fail E_INVAL s"
  | (bad) "\<not> is_illegal_va va" "envid2env envid True s = Some (Inl E_BAD_ENV)" "sys_mem_alloc envid va perm s = fail E_BAD_ENV s"
  | (no_mem) e p s' where "\<not> is_illegal_va va" "envid2env envid True s = Some (Inr (Some e))" "e \<in> live s" "controls s c e"
      "sys_mem_alloc envid va perm s = fail E_NO_MEM s'" "kinv s' dp L X c \<or> p \<notin> L \<and> kinv s' dp (insert p L) X c"
      "live s' = live s" "ptes (pm s') (dp ` live s) = ptes (pm s) (dp ` live s)"
      "\<And>q. q < unat (npage (pm s)) \<Longrightarrow> pp_ref (pm s) q = 0 \<Longrightarrow> q \<in> insert p L"
  | (ok) e p s' where "\<not> is_illegal_va va" "envid2env envid True s = Some (Inr (Some e))" "e \<in> live s" "controls s c e"
      "sys_mem_alloc envid va perm s = ret 0 s'" "kinv s' dp L X c" "live s' = live s"
      "ptes (pm s') (dp ` live s) = (ptes (pm s) (dp ` live s))(key (dp e) va := new_pte p (perm OR PTE_U))"
      "maps (pm s') (dp ` live s) (key (dp e) va) = Some p" "pp_ref (pm s) p = 0" "p \<notin> L" "zero_frame (mem (pm s')) p"
      "\<And>q. data_frame (pm s) (dp ` live s) L q \<Longrightarrow> same_frame (mem (pm s)) (mem (pm s')) q"
      "covers (hd (fences (pm s'))) va (env_asid (envs s e))" "pp_ref (pm s') p = 1"
proof (cases "is_illegal_va va")
  case True
  then show thesis by (rule inval) (simp add: sys_mem_alloc_def True)
next
  case False
  have cl: "curenv s = Some c" "c \<in> live s" using kv by (simp_all add: kinv_def)
  have lv: "live (s\<lparr>pm := p\<rparr>) = live s" for p by (simp add: live_def)
  show thesis
  proof (cases rule: try_env_cases [OF cl, of envid True])
    case 1
    then show thesis using False by (intro bad) (simp_all add: sys_mem_alloc_def)
  next
    case (2 e)
    note k = kinv_env [OF kv 2(3)]
    have con: "controls s c e" using 2(4) by simp
    show thesis
    proof (cases rule: alloc_insert_cases [OF k(1,3) legal_va [OF False] perm_or_U [OF fl], where asid = "env_asid (envs s e)"])
      case f: 1
      show thesis by (rule no_mem [OF False 2(2,3) con, of "s\<lparr>pm := pm s\<rparr>"]) (use f 2(1) False kv in \<open>simp_all add: sys_mem_alloc_def\<close>)
    next
      case l: (2 p s1)
      show thesis
        by (rule no_mem [OF False 2(2,3) con, of "s\<lparr>pm := s1\<rparr>" p])
           (use l 2(1) False k(2) kinv_pm [OF kv l(3)] lv in \<open>simp_all add: sys_mem_alloc_def ret_result_def\<close>)
    next
      case o: (3 p s1 p')
      show thesis
        by (rule ok [OF False 2(2,3) con, of "s\<lparr>pm := p'\<rparr>" p])
           (use o 2(1) False k(2) kinv_pm [OF kv o(3)] lv in \<open>simp_all add: sys_mem_alloc_def ret_result_def\<close>)
    qed
  qed
qed

lemma sys_mem_unmap_cases:
  assumes kv: "kinv s dp L X c"
  obtains (inval) "is_illegal_va va" "sys_mem_unmap envid va s = fail E_INVAL s"
  | (bad) "\<not> is_illegal_va va" "envid2env envid True s = Some (Inl E_BAD_ENV)" "sys_mem_unmap envid va s = fail E_BAD_ENV s"
  | (ok) e s' where "\<not> is_illegal_va va" "envid2env envid True s = Some (Inr (Some e))" "e \<in> live s" "controls s c e"
      "sys_mem_unmap envid va s = ret 0 s'" "kinv s' dp L X c" "live s' = live s"
      "\<And>ky. ky \<noteq> key (dp e) va \<Longrightarrow> ptes (pm s') (dp ` live s) ky = ptes (pm s) (dp ` live s) ky"
      "maps (pm s') (dp ` live s) (key (dp e) va) = None"
proof (cases "is_illegal_va va")
  case True
  then show thesis by (rule inval) (simp add: sys_mem_unmap_def True)
next
  case False
  have cl: "curenv s = Some c" "c \<in> live s" using kv by (simp_all add: kinv_def)
  have lv: "live (s\<lparr>pm := p\<rparr>) = live s" for p by (simp add: live_def)
  show thesis
  proof (cases rule: try_env_cases [OF cl, of envid True])
    case 1
    then show thesis using False by (intro bad) (simp_all add: sys_mem_unmap_def)
  next
    case (2 e)
    note k = kinv_env [OF kv 2(3)]
    have con: "controls s c e" using 2(4) by simp
    show thesis
    proof (cases "maps (pm s) (dp ` live s) (key (dp e) va)")
      case None
      note r = page_remove_unmapped [OF vm_inv_cases(1) [OF k(1)] k(3) legal_va [OF False] None]
      show thesis by (rule ok [OF False 2(2,3) con, of "s\<lparr>pm := pm s\<rparr>"])
          (use r 2(1) False k(2) kv None in \<open>simp_all add: sys_mem_unmap_def\<close>)
    next
      case (Some p)
      obtain p' where p': "page_remove (page2pa (dp e)) (env_asid (envs s e)) va (pm s) = Some p'" "vm_inv p' (dp ` live s) L X"
        "ptes p' (dp ` live s) = (ptes (pm s) (dp ` live s))(key (dp e) va := 0)"
        using page_remove_mapped [OF k(1) Some, of "env_asid (envs s e)"] by metis
      show thesis by (rule ok [OF False 2(2,3) con, of "s\<lparr>pm := p'\<rparr>"])
          (use p' 2(1) False k(2) kinv_pm [OF kv p'(2)] lv in \<open>simp_all add: sys_mem_unmap_def maps_def\<close>)
    qed
  qed
qed

text \<open>A mapped page may be mapped again, unless its sixteen-bit reference count is full.\<close>

lemma mapped_insertable:
  assumes inv: "vm_inv s D L X" and m: "maps s D ky = Some p" and r: "pp_ref s p + 1 \<noteq> 0"
  shows "insertable s D L p" "p \<notin> L" "data_frame s D L p"
proof -
  note I = vm_inv_cases [OF inv] and t = tables_okD(9,10,11) [OF vm_inv_cases(1) [OF inv] m]
  have ref: "pp_ref s p \<noteq> 0" using referenced [OF I(1,2) t(3)] m by blast
  then show "insertable s D L p" "data_frame s D L p" using t r tables_okD(1) [OF I(1)] by (auto simp: insertable_def data_frame_def ran_def)
  show "p \<notin> L" using ref I(3) by (auto simp: free_ok_def)
qed

text \<open>Mapping the page that \<open>src\<close> has at \<open>va\<close> into another address space: \<^verbatim>\<open>sys_mem_map\<close> and the page of a message.\<close>

lemma share_page_cases:
  assumes kv: "kinv s dp L X c" and e: "e1 \<in> live s" "e2 \<in> live s" "user_va va1" "user_va va2" and fl: "flag_bits perm"
    and r: "\<And>p. maps (pm s) (dp ` live s) (key (dp e1) va1) = Some p \<Longrightarrow> pp_ref (pm s) p + 1 \<noteq> 0"
  obtains (unmapped) "page_lookup (env_pgdir (envs s e1)) va1 (pm s) = Some (None, pm s)" "maps (pm s) (dp ` live s) (key (dp e1) va1) = None"
  | (no_mem) p x where "page_lookup (env_pgdir (envs s e1)) va1 (pm s) = Some (Some (p, x), pm s)"
      "maps (pm s) (dp ` live s) (key (dp e1) va1) = Some p"
      "page_insert (env_pgdir (envs s e2)) asid p va2 perm (pm s) = Some (Inl E_NO_MEM, pm s)"
      "\<And>q. q < unat (npage (pm s)) \<Longrightarrow> pp_ref (pm s) q = 0 \<Longrightarrow> q \<in> L" "ptab (pm s) (dp ` live s) (dp e2, PDX va2) = None"
  | (ok) p x p' where "page_lookup (env_pgdir (envs s e1)) va1 (pm s) = Some (Some (p, x), pm s)"
      "maps (pm s) (dp ` live s) (key (dp e1) va1) = Some p"
      "page_insert (env_pgdir (envs s e2)) asid p va2 perm (pm s) = Some (Inr (), p')"
      "vm_inv p' (dp ` live s) L X"
      "ptes p' (dp ` live s) = (ptes (pm s) (dp ` live s))(key (dp e2) va2 := new_pte p perm)"
      "maps p' (dp ` live s) (key (dp e2) va2) = Some p"
      "\<And>q. data_frame (pm s) (dp ` live s) L q \<Longrightarrow> same_frame (mem (pm s)) (mem p') q"
proof -
  note k1 = kinv_env [OF kv e(1)] and k2 = kinv_env [OF kv e(2)]
  note I = vm_inv_cases [OF k1(1)]
  show thesis
  proof (cases "maps (pm s) (dp ` live s) (key (dp e1) va1)")
    case None
    then show thesis using unmapped page_lookup_unmapped [OF I(1) k1(3) e(3) None] k1(2) by simp
  next
    case (Some p)
    obtain x where x: "page_lookup (page2pa (dp e1)) va1 (pm s) = Some (Some (p, x), pm s)"
      using page_lookup_mapped [OF I(1) Some] by metis
    note m = mapped_insertable [OF k1(1) Some r [OF Some]]
    show thesis
    proof (cases rule: page_insert_cases [OF k1(1) k2(3) e(4) m(1) fl, of asid])
      case f: 1
      show thesis by (rule no_mem [of p x]) (use x k1(2) k2(2) Some f in simp_all)
    next
      case g: (2 p')
      have L: "L - {p} = L" using m(2) by auto
      have nb: "p < unat (npage (pm s))" "unat (npage (pm s)) \<le> page_bound" using tables_okD(1,11) [OF I(1)] Some by auto
      have mp: "maps p' (dp ` live s) (key (dp e2) va2) = Some p"
        using new_pte_frame [of p p' perm] nb g(3,5) fl by (simp add: maps_def)
      have df: "same_frame (mem (pm s)) (mem p') q" if "data_frame (pm s) (dp ` live s) L q" for q
        by (rule page_insert_data [OF k1(1) k2(3) e(4) g(1)]) (use that in \<open>simp_all add: data_frame_def\<close>)
      show thesis by (rule ok [of p x p']) (use x k1(2) k2(2) Some g(1-3) L mp df in simp_all)
    qed
  qed
qed

lemma sys_mem_map_cases:
  assumes kv: "kinv s dp L X c" and fl: "flag_bits perm" and r: "\<And>d p. maps (pm s) (dp ` live s) (key d srcva) = Some p \<Longrightarrow> pp_ref (pm s) p + 1 \<noteq> 0"
  obtains (inval) "is_illegal_va srcva \<or> is_illegal_va dstva" "sys_mem_map srcid srcva dstid dstva perm s = fail E_INVAL s"
  | (bad) "\<not> is_illegal_va srcva" "\<not> is_illegal_va dstva"
      "envid2env srcid True s = Some (Inl E_BAD_ENV) \<or> envid2env dstid True s = Some (Inl E_BAD_ENV)"
      "sys_mem_map srcid srcva dstid dstva perm s = fail E_BAD_ENV s"
  | (unmapped) e1 e2 where "\<not> is_illegal_va srcva" "\<not> is_illegal_va dstva" "envid2env srcid True s = Some (Inr (Some e1))"
      "envid2env dstid True s = Some (Inr (Some e2))" "maps (pm s) (dp ` live s) (key (dp e1) srcva) = None"
      "sys_mem_map srcid srcva dstid dstva perm s = fail E_INVAL s"
  | (no_mem) e1 e2 p where "\<not> is_illegal_va srcva" "\<not> is_illegal_va dstva" "envid2env srcid True s = Some (Inr (Some e1))"
      "envid2env dstid True s = Some (Inr (Some e2))" "maps (pm s) (dp ` live s) (key (dp e1) srcva) = Some p"
      "sys_mem_map srcid srcva dstid dstva perm s = fail E_NO_MEM s"
      "\<And>q. q < unat (npage (pm s)) \<Longrightarrow> pp_ref (pm s) q = 0 \<Longrightarrow> q \<in> L" "ptab (pm s) (dp ` live s) (dp e2, PDX dstva) = None"
  | (ok) e1 e2 p s' where "\<not> is_illegal_va srcva" "\<not> is_illegal_va dstva" "envid2env srcid True s = Some (Inr (Some e1))"
      "envid2env dstid True s = Some (Inr (Some e2))" "e1 \<in> live s" "e2 \<in> live s" "controls s c e1" "controls s c e2"
      "maps (pm s) (dp ` live s) (key (dp e1) srcva) = Some p" "sys_mem_map srcid srcva dstid dstva perm s = ret 0 s'"
      "kinv s' dp L X c" "live s' = live s"
      "ptes (pm s') (dp ` live s) = (ptes (pm s) (dp ` live s))(key (dp e2) dstva := new_pte p (perm OR PTE_U))"
      "maps (pm s') (dp ` live s) (key (dp e2) dstva) = Some p"
      "\<And>q. data_frame (pm s) (dp ` live s) L q \<Longrightarrow> same_frame (mem (pm s)) (mem (pm s')) q"
proof (cases "is_illegal_va srcva \<or> is_illegal_va dstva")
  case True
  then show thesis by (rule inval) (use True in \<open>auto simp: sys_mem_map_def\<close>)
next
  case False
  then have F: "\<not> is_illegal_va srcva" "\<not> is_illegal_va dstva" by simp_all
  have cl: "curenv s = Some c" "c \<in> live s" using kv by (simp_all add: kinv_def)
  have lv: "live (s\<lparr>pm := p\<rparr>) = live s" for p by (simp add: live_def)
  note df = sys_mem_map_def [of srcid srcva dstid dstva perm s]
  show thesis
  proof (cases rule: try_env_cases [OF cl, of srcid True])
    case 1
    show thesis by (rule bad [OF F]) (use 1 F in \<open>simp_all add: df\<close>)
  next
    case a: (2 e1)
    show thesis
    proof (cases rule: try_env_cases [OF cl, of dstid True])
      case 1
      show thesis by (rule bad [OF F]) (use 1 F a(1) in \<open>simp_all add: df\<close>)
    next
      case b: (2 e2)
      note u = legal_va [OF F(1)] legal_va [OF F(2)]
      show thesis
      proof (cases rule: share_page_cases [OF kv a(3) b(3) u perm_or_U [OF fl], where asid = "env_asid (envs s e2)"])
        case (1 p)
        then show ?case by (rule r)
      next
        case n: 2
        show thesis by (rule unmapped [OF F a(2) b(2) n(2)]) (use n a(1) b(1) F in \<open>simp add: df\<close>)
      next
        case n: (3 p x)
        show thesis by (rule no_mem [OF F a(2) b(2) n(2)]) (use n a(1) b(1) F in \<open>simp_all add: df ret_result_def\<close>)
      next
        case n: (4 p x p')
        show thesis
          by (rule ok [OF F a(2) b(2) a(3) b(3) _ _ n(2), of "s\<lparr>pm := p'\<rparr>"])
             (use n a(1,4) b(1,4) F kinv_pm [OF kv n(4)] lv in \<open>simp_all add: df ret_result_def\<close>)
      qed
    qed
  qed
qed

section \<open>A concrete state with two environments\<close>

text \<open>Environment 0 runs; environment 1, not its child, waits for a message.\<close>

definition kdemo2_pm :: pmap where
  "kdemo2_pm = kdemo_pm\<lparr>pp_ref := (\<lambda>_. 0)(0 := 1, 1 := 1, 3 := 1, 4 := 1)\<rparr>"

definition kdemo2 :: kstate where
  "kdemo2 = kdemo\<lparr>pm := kdemo2_pm, mkenvid_i := 2,
     envs := (envs kdemo)(1 := zero_env\<lparr>env_id := 4097, env_asid := 2, env_status := ENV_NOT_RUNNABLE, env_pgdir := page2pa 1, env_pri := 1,
       env_ipc_recving := 1, env_ipc_dstva := 0x500000\<rparr>),
     env_free_list := fold (\<lambda>e q. LIST_INSERT_HEAD q e) (rev [2..<NENV]) (LIST_INIT zero_links)\<rparr>"

lemma kdemo2_vm: "vm_inv kdemo2_pm {0, 1} {} kdemo_X"
proof -
  define D where "D = {0, 1 :: nat}"
  have z: "ent (mem kdemo2_pm) d i = 0" for d i by (simp add: kdemo2_pm_def kdemo_pm_def demo_def ent_def ld32_def)
  have e: "ptab kdemo2_pm D = (\<lambda>_. None)" by (auto simp: ptab_def table_at_def z)
  then have e2: "ptes kdemo2_pm D = (\<lambda>_. 0)" by (auto simp: ptes_def)
  then have e3: "maps kdemo2_pm D = (\<lambda>_. None)" by (auto simp: maps_def)
  have n: "npage kdemo2_pm = 7" by (simp add: kdemo2_pm_def kdemo_pm_def)
  have X: "tables_ok kdemo2_pm D"
    by (rule tables_okI) (simp_all add: e e2 e3 z, auto simp: n page_bound_def D_def)
  have Y: "refs_ok kdemo2_pm D kdemo_X"
    by (auto simp: refs_ok_def refs_def e e3 n) (auto simp: kdemo2_pm_def kdemo_X_def D_def split: if_splits)
  have "list_rep (page_free_list kdemo_pm) [2, 5, 6]"
    using list_rep_insert_head [OF list_rep_insert_head [OF list_rep_insert_head [OF list_rep_init, of "6 :: nat" zero_links], of 5], of 2]
    by (simp add: kdemo_pm_def)
  then have "list_rep (page_free_list kdemo2_pm) [2, 5, 6]" by (simp add: kdemo2_pm_def)
  moreover have "set [2, 5, 6] = {p. p < unat (npage kdemo2_pm) \<and> pp_ref kdemo2_pm p = 0 \<and> p \<notin> {}}"
    unfolding n by (auto simp: kdemo2_pm_def split: if_splits)
  ultimately have "free_ok kdemo2_pm {}" unfolding free_ok_def by blast
  with X Y show ?thesis by (simp add: vm_inv_def D_def)
qed

lemma kdemo2_fields: "pm kdemo2 = kdemo2_pm" "curenv kdemo2 = Some 0" "cur_pgdir kdemo2 = page2pa 0" "env_pgdir (envs kdemo2 0) = page2pa 0"
  "env_pgdir (envs kdemo2 1) = page2pa 1" "env_id (envs kdemo2 0) = 2048" "env_parent_id (envs kdemo2 1) = 0" "env_ipc_recving (envs kdemo2 1) = 1"
  "env_ipc_dstva (envs kdemo2 1) = 0x500000" "env_status (envs kdemo2 1) = ENV_NOT_RUNNABLE" "env_id (envs kdemo2 1) = 4097"
  "env_status (envs kdemo2 0) = ENV_RUNNABLE" "\<And>e. e \<noteq> 0 \<Longrightarrow> e \<noteq> 1 \<Longrightarrow> env_status (envs kdemo2 e) = ENV_FREE"
  by (simp_all add: kdemo2_def kdemo_def zero_env_def)

lemma kdemo2_live: "live kdemo2 = {0, 1}"
proof -
  have "e \<in> live kdemo2 \<longleftrightarrow> e = 0 \<or> e = 1" for e
    using kdemo2_fields(10,12) kdemo2_fields(13) [of e] unfolding live_def by (auto simp: status_defs NENV_def)
  then show ?thesis by blast
qed

lemma kdemo2_kinv: "kinv kdemo2 id {} kdemo_X 0"
  using kdemo2_vm unfolding kinv_def space_inv_def kdemo2_live kdemo2_fields by (simp add: kdemo2_fields del: One_nat_def)

lemma kdemo2_refs: "pp_ref (pm kdemo2) p + 1 \<noteq> 0"
  by (simp add: kdemo2_fields kdemo2_pm_def)

lemma kdemo2_table: "table_inv kdemo2 [2..<NENV] [0]"
proof -
  have N: "1 < NENV" by (simp add: NENV_def)
  have "list_rep (env_free_list kdemo2) [2..<NENV]"
    using lst.rep_insert_heads [OF list_rep_init, of "rev [2..<NENV]" zero_links] by (simp add: kdemo2_def)
  moreover have "tailq_rep (env_sched_list kdemo2) [0]"
    using tailq_rep_insert_head [OF tailq_rep_init, of 0 zero_tailq] by (simp add: kdemo2_def kdemo_def)
  moreover have "set [2..<NENV] = {e. e < NENV \<and> env_status (envs kdemo2 e) = ENV_FREE}"
    by (auto simp: kdemo2_def kdemo_def zero_env_def status_defs)
  moreover have "set [0] = {e. e < NENV \<and> env_status (envs kdemo2 e) = ENV_RUNNABLE}"
    using N by (auto simp: kdemo2_def kdemo_def zero_env_def status_defs)
  ultimately show ?thesis by (simp add: table_inv_def)
qed

section \<open>Properties\<close>



text \<open>Property C16. Isolation: whatever arguments an environment passes to \<^verbatim>\<open>sys_mem_alloc\<close>, \<^verbatim>\<open>sys_mem_map\<close> or
  \<^verbatim>\<open>sys_mem_unmap\<close>, the call returns, and no entry of the address space of an environment that is neither the caller nor a child of
  the caller changes (as long as the permissions are flag bits and no reference count is full).\<close>

theorem sys_mem_isolation:
  assumes kv: "kinv s dp L X c" and fl: "flag_bits perm" and rf: "\<And>d p. maps (pm s) (dp ` live s) (key d va1) = Some p \<Longrightarrow> pp_ref (pm s) p + 1 \<noteq> 0"
    and call: "r \<in> {sys_mem_alloc id1 va1 perm s, sys_mem_map id1 va1 id2 va2 perm s, sys_mem_unmap id1 va1 s}"
    and x: "x \<in> live s" "\<not> controls s c x"
  shows "\<exists>v s'. r = Some (KReturn v, s') \<and> live s' = live s \<and>
     (\<forall>i j. ptes (pm s') (dp ` live s) (dp x, i, j) = ptes (pm s) (dp ` live s) (dp x, i, j))"
proof -
  have ne: "dp x \<noteq> dp e" if "e \<in> live s" "controls s c e" for e
    using kinv_env(4) [OF kv x(1)] x that by (auto simp: inj_on_def)
  have one: ?thesis if "r = Some (KReturn v, s')" "live s' = live s" "e \<in> live s" "controls s c e"
    "\<And>ky. ky \<noteq> key (dp e) va \<Longrightarrow> ptes (pm s') (dp ` live s) ky = ptes (pm s) (dp ` live s) ky" for v s' e va
    using that ne [OF that(3,4)] by (intro exI [of _ v] exI [of _ s']) (simp add: key_def)
  have same: ?thesis if "r = Some (KReturn v, s')" "live s' = live s" "ptes (pm s') (dp ` live s) = ptes (pm s) (dp ` live s)" for v s'
    using that by auto
  consider "r = sys_mem_alloc id1 va1 perm s" | "r = sys_mem_map id1 va1 id2 va2 perm s" | "r = sys_mem_unmap id1 va1 s"
    using call by auto
  then show ?thesis
  proof cases
    case r: 1
    show ?thesis
    proof (cases rule: sys_mem_alloc_cases [OF kv fl, of va1 id1])
      case (4 e p s')
      show ?thesis by (rule one [of _ s' e va1]) (use 4 r in \<open>simp_all add: ret_def\<close>)
    qed (use r same in \<open>simp_all add: fail_def\<close>)
  next
    case r: 2
    show ?thesis
    proof (cases rule: sys_mem_map_cases [OF kv fl, of va1 va2 id1 id2])
      case (1 d p)
      then show ?case by (rule rf)
    next
      case (6 e1 e2 p s')
      show ?thesis by (rule one [of _ s' e2 va2]) (use 6 r in \<open>simp_all add: ret_def\<close>)
    qed (use r same in \<open>simp_all add: fail_def\<close>)
  next
    case r: 3
    show ?thesis
    proof (cases rule: sys_mem_unmap_cases [OF kv, of va1 id1])
      case (3 e s')
      show ?thesis by (rule one [of _ s' e va1]) (use 3 r in \<open>simp_all add: ret_def\<close>)
    qed (use r same in \<open>simp_all add: fail_def\<close>)
  qed
qed

theorem sys_mem_isolation_witness:
  "\<exists>v s'. sys_mem_map 0 0x400000 4097 0x400000 PTE_R kdemo2 = Some (KReturn v, s') \<and> live s' = live kdemo2 \<and>
     (\<forall>i j. ptes (pm s') (id ` live kdemo2) (id 1, i, j) = ptes (pm kdemo2) (id ` live kdemo2) (id 1, i, j))"
proof (rule sys_mem_isolation [OF kdemo2_kinv _ kdemo2_refs])
  show "sys_mem_map 0 0x400000 4097 0x400000 PTE_R kdemo2
      \<in> {sys_mem_alloc 0 0x400000 PTE_R kdemo2, sys_mem_map 0 0x400000 4097 0x400000 PTE_R kdemo2, sys_mem_unmap 0 0x400000 kdemo2}" by blast
  show "\<not> controls kdemo2 0 1" unfolding controls_def kdemo2_fields by simp
qed (simp_all add: kdemo2_live)

text \<open>\<^verbatim>\<open>sys_mem_map\<close> shares: when it succeeds, caller-controlled environments \<open>e1\<close> and \<open>e2\<close> have the same page at
  \<open>srcva\<close> and \<open>dstva\<close>; every other entry, the contents of every page in use and the exactness of the reference
  counts are as before.\<close>

theorem sys_mem_map_shares:
  assumes kv: "kinv s dp L X c" and fl: "flag_bits perm" and rf: "\<And>d p. maps (pm s) (dp ` live s) (key d srcva) = Some p \<Longrightarrow> pp_ref (pm s) p + 1 \<noteq> 0"
    and run: "sys_mem_map srcid srcva dstid dstva perm s = Some (KReturn 0, s')"
  shows "\<exists>e1 e2 p. envid2env srcid True s = Some (Inr (Some e1)) \<and> envid2env dstid True s = Some (Inr (Some e2)) \<and>
     controls s c e1 \<and> controls s c e2 \<and> kinv s' dp L X c \<and> live s' = live s \<and>
     maps (pm s) (dp ` live s) (key (dp e1) srcva) = Some p \<and> maps (pm s') (dp ` live s') (key (dp e2) dstva) = Some p \<and>
     ptes (pm s') (dp ` live s') = (ptes (pm s) (dp ` live s))(key (dp e2) dstva := new_pte p (perm OR PTE_U)) \<and>
     (\<forall>q. data_frame (pm s) (dp ` live s) L q \<longrightarrow> same_frame (mem (pm s)) (mem (pm s')) q)"
proof (cases rule: sys_mem_map_cases [OF kv fl, of srcva dstva srcid dstid])
  case (1 d p)
  then show ?case by (rule rf)
next
  case (6 e1 e2 p s1)
  then have "s1 = s'" using run by (simp add: ret_def)
  with 6 show ?thesis by (intro exI [of _ e1] exI [of _ e2] exI [of _ p]) simp
qed (use run in \<open>auto simp: fail_def neg_errno_neq_0\<close>)

definition D2 :: "nat set" where "D2 = {0, 1}"

lemma kdemo2_D: "id ` live kdemo2 = D2"
  by (simp add: kdemo2_live D2_def)

lemma kdemo2_ptes: "ptes (pm kdemo2) D = (\<lambda>_. 0)"
proof -
  have z: "ent (mem kdemo2_pm) d i = 0" for d i by (simp add: kdemo2_pm_def kdemo_pm_def demo_def ent_def ld32_def)
  then show ?thesis by (auto simp: ptes_def ptab_def table_at_def kdemo2_fields split: prod.splits option.splits)
qed

lemma kdemo2_alloc:
  obtains p s where "kinv s id {} kdemo_X 0" "live s = D2" "maps (pm s) D2 (key 0 0x400000) = Some p" "pp_ref (pm s) p = 1"
    "ptes (pm s) D2 = (\<lambda>_. 0)(key 0 0x400000 := new_pte p (PTE_W OR PTE_U))" "s = kdemo2\<lparr>pm := pm s\<rparr>"
proof (cases rule: sys_mem_alloc_cases [OF kdemo2_kinv, of PTE_W "0x400000" 0])
  case 2
  then show thesis by (simp add: is_illegal_va_def layout_defs)
next
  case 3
  then show thesis by (simp add: envid2env_def)
next
  case (4 e p s')
  show thesis using 4(9) [of 2] 4(9) [of 5] by (simp add: kdemo2_fields kdemo2_pm_def kdemo_pm_def)
next
  case (5 e p s')
  have e: "e = 0" using 5(2) by (simp add: envid2env_def kdemo2_fields)
  have "s' = kdemo2\<lparr>pm := pm s'\<rparr>"
    using 5(1,2,5) by (auto simp: sys_mem_alloc_def try_env_def ret_result_def fail_def ret_def bind_eq_Some_conv split: sum.splits)
  with 5 show thesis using that [of s' p] kdemo2_D by (simp add: e kdemo2_ptes)
qed simp

theorem sys_mem_map_shares_witness:
  "\<exists>s s' p. sys_mem_map 0 0x400000 0 0x600000 PTE_R s = Some (KReturn 0, s') \<and>
     maps (pm s') D2 (key 0 0x600000) = Some p \<and> maps (pm s) D2 (key 0 0x400000) = Some p"
proof -
  have va: "\<not> is_illegal_va 0x400000" "\<not> is_illegal_va 0x600000" "PDX 0x600000 = PDX 0x400000"
    by (simp_all add: is_illegal_va_def layout_defs PDX_def)
  have e: "envid2env 0 True s = Some (Inr (curenv s))" for s by (simp add: envid2env_def)
  obtain p s where s: "kinv s id {} kdemo_X 0" "live s = D2" "maps (pm s) D2 (key 0 0x400000) = Some p" "pp_ref (pm s) p = 1"
    "ptes (pm s) D2 = (\<lambda>_. 0)(key 0 0x400000 := new_pte p (PTE_W OR PTE_U))"
    using kdemo2_alloc by metis
  have c: "curenv s = Some 0" using s(1) by (simp add: kinv_def)
  have D: "id ` live s = D2" using s(2) by simp
  have r: "pp_ref (pm s) q + 1 \<noteq> 0" if "maps (pm s) (id ` live s) (key d 0x400000) = Some q" for d q
    using that s(3,4) unfolding D by (cases "d = 0") (auto simp: maps_def s(5) key_def)
  obtain t where t: "ptab (pm s) D2 (0, PDX 0x400000) = Some t" using maps_key [OF s(3)] by metis
  obtain s' where run: "sys_mem_map 0 0x400000 0 0x600000 PTE_R s = Some (KReturn 0, s')"
    by (cases rule: sys_mem_map_cases [OF s(1), of PTE_R "0x400000" "0x600000" 0 0])
       (use r va e c t s(3) D in \<open>auto simp: ret_def\<close>)
  have "\<exists>e1 e2 p. envid2env 0 True s = Some (Inr (Some e1)) \<and> envid2env 0 True s = Some (Inr (Some e2)) \<and>
     controls s 0 e1 \<and> controls s 0 e2 \<and> kinv s' id {} kdemo_X 0 \<and> live s' = live s \<and>
     maps (pm s) (id ` live s) (key (id e1) 0x400000) = Some p \<and> maps (pm s') (id ` live s') (key (id e2) 0x600000) = Some p \<and>
     ptes (pm s') (id ` live s') = (ptes (pm s) (id ` live s))(key (id e2) 0x600000 := new_pte p (PTE_R OR PTE_U)) \<and>
     (\<forall>q. data_frame (pm s) (id ` live s) {} q \<longrightarrow> same_frame (mem (pm s)) (mem (pm s')) q)"
    by (rule sys_mem_map_shares [OF s(1) _ _ run]) (use r in auto)
  then obtain q where "maps (pm s) D2 (key 0 0x400000) = Some q" "maps (pm s') D2 (key 0 0x600000) = Some q"
    using e c D by auto
  then show ?thesis using run by blast
qed
end
