(* ===== verification/Mos_Ipc.thy ===== *)
theory Mos_Ipc
  imports Mos_Sys_Mem
begin

text \<open>
  Inter-process communication and process creation: \<^verbatim>\<open>sys_ipc_try_send\<close>, \<^verbatim>\<open>sys_ipc_recv\<close>, \<^verbatim>\<open>sys_exofork\<close> and
  \<^verbatim>\<open>sys_set_env_status\<close>, with the run queue that they change, and what \<^verbatim>\<open>do_syscall\<close> does around every call.
\<close>

declare split_paired_All [simp del] split_paired_Ex [simp del]

section \<open>Sending\<close>

text \<open>What a receiver finds after a message from \<open>c\<close>.\<close>

definition ipc_perm :: "u32 \<Rightarrow> u32" where
  "ipc_perm perm = PTE_U OR PTE_V OR (if has perm PTE_W then perm OR PTE_R else perm)"

definition delivered :: "kstate \<Rightarrow> nat \<Rightarrow> nat \<Rightarrow> u32 \<Rightarrow> u32 \<Rightarrow> kstate \<Rightarrow> bool" where
  "delivered s c e val perm s' \<longleftrightarrow> envs s' = (envs s)(e := (envs s e)\<lparr>env_ipc_value := val, env_ipc_from := env_id (envs s c),
     env_ipc_perm := ipc_perm perm, env_ipc_recving := 0, env_status := ENV_RUNNABLE\<rparr>)
     \<and> curenv s' = curenv s \<and> kstack_tf s' = kstack_tf s"

text \<open>The first five steps of \<^verbatim>\<open>sys_ipc_try_send\<close>, up to the page.\<close>

definition woken :: "kstate \<Rightarrow> nat \<Rightarrow> nat \<Rightarrow> u32 \<Rightarrow> u32 \<Rightarrow> nat tailq \<Rightarrow> kstate" where
  "woken s c e val perm q = s\<lparr>envs := (envs s)(e := (envs s e)\<lparr>env_ipc_value := val, env_ipc_from := env_id (envs s c),
     env_ipc_perm := ipc_perm perm, env_ipc_recving := 0, env_status := ENV_RUNNABLE\<rparr>), env_sched_list := q\<rparr>"

lemma woken_run:
  assumes kv: "kinv s dp L X c" and tb: "table_inv s fl sl" and e: "envid2env envid False s = Some (Inr (Some e))" "e \<in> live s"
    and st: "env_ipc_recving (envs s e) \<noteq> 0" "env_status (envs s e) = ENV_NOT_RUNNABLE" and va: "srcva = 0 \<or> \<not> is_illegal_va srcva"
  obtains q where "sys_ipc_try_send envid val srcva perm s = ipc_send_page e srcva (woken s c e val perm q)"
    "table_inv (woken s c e val perm q) fl (sl @ [e])" "kinv (woken s c e val perm q) dp L X c" "live (woken s c e val perm q) = live s"
    "delivered s c e val perm (woken s c e val perm q)"
proof -
  have t: "list_rep (env_free_list s) fl" "set fl = {e. e < NENV \<and> env_status (envs s e) = ENV_FREE}"
    "tailq_rep (env_sched_list s) sl" "set sl = {e. e < NENV \<and> env_status (envs s e) = ENV_RUNNABLE}"
    using tb by (simp_all add: table_inv_def)
  have en: "e < NENV" "e \<notin> set sl" "e \<notin> set fl" using e(2) t(2,4) st(2) by (auto simp: live_def status_defs)
  obtain q where q: "TAILQ_INSERT_TAIL (env_sched_list s) e = Some q" "tailq_rep q (sl @ [e])"
    using tailq_rep_insert_tail [OF t(3) en(2)] by blast
  have c: "curenv s = Some c" using kv by (simp add: kinv_def)
  let ?w = "woken s c e val perm q"
  have w: "(upd_env e (\<lambda>en. en\<lparr>env_status := ENV_RUNNABLE\<rparr>)
     (upd_env e (\<lambda>en. en\<lparr>env_ipc_value := val, env_ipc_from := env_id (envs s c),
        env_ipc_perm := PTE_U OR PTE_V OR (if has perm PTE_W then perm OR PTE_R else perm), env_ipc_recving := 0\<rparr>) s))
       \<lparr>env_sched_list := q\<rparr> = ?w"
    by (simp add: upd_env_def woken_def ipc_perm_def)
  have nv: "\<not> (srcva \<noteq> 0 \<and> is_illegal_va srcva)" using va by blast
  have run: "sys_ipc_try_send envid val srcva perm s = ipc_send_page e srcva ?w"
    unfolding sys_ipc_try_send_def if_not_P [OF nv] try_env_def e(1) the_curenv_def c Let_def
    by (simp add: st(1) q(1) w)
  have lv: "live ?w = live s" using en(1) st(2) by (auto simp: live_def woken_def status_defs)
  have sw: "env_status (envs ?w x) = (if x = e then ENV_RUNNABLE else env_status (envs s x))" for x by (simp add: woken_def)
  have "set fl = {x. x < NENV \<and> env_status (envs ?w x) = ENV_FREE}"
    unfolding sw t(2) using st(2) by (auto simp: status_defs)
  moreover have "set (sl @ [e]) = {x. x < NENV \<and> env_status (envs ?w x) = ENV_RUNNABLE}"
    unfolding sw set_append t(4) using en(1) by auto
  ultimately have "table_inv ?w fl (sl @ [e])"
    using t(1) q(2) unfolding table_inv_def by (simp add: woken_def)
  moreover have "kinv ?w dp L X c" using kv lv by (auto simp: kinv_def space_inv_def) (auto simp: woken_def)
  moreover have "delivered s c e val perm ?w" by (simp add: delivered_def woken_def)
  ultimately show thesis using that run lv by blast
qed

lemma envid2env_live:
  assumes "kinv s dp L X c" "envid2env envid chk s = Some (Inr (Some e))"
  shows "e \<in> live s" "chk \<Longrightarrow> controls s c e"
proof -
  have c: "curenv s = Some c" "c \<in> live s" using assms(1) by (simp_all add: kinv_def)
  show "e \<in> live s" "chk \<Longrightarrow> controls s c e"
    by (cases rule: try_env_cases [OF c, of envid chk]; use assms(2) in simp)+
qed

lemma ipc_perm_flags: "flag_bits perm \<Longrightarrow> flag_bits (ipc_perm perm)"
  by (simp add: ipc_perm_def flag_bits_or)

text \<open>The send to a receiver that waits, without a page and with one.\<close>

lemma sys_ipc_no_page:
  assumes kv: "kinv s dp L X c" and tb: "table_inv s fl sl" and e: "envid2env envid False s = Some (Inr (Some e))"
    and nr: "env_ipc_recving (envs s e) \<noteq> 0 \<longrightarrow> env_status (envs s e) = ENV_NOT_RUNNABLE"
    and a: "srcva = 0 \<and> env_ipc_recving (envs s e) \<noteq> 0"
  shows "\<exists>s'. sys_ipc_try_send envid val srcva perm s = ret 0 s' \<and> delivered s c e val perm s' \<and>
      table_inv s' fl (sl @ [e]) \<and> kinv s' dp L X c \<and> pm s' = pm s"
proof -
  have v: "srcva = 0 \<or> \<not> is_illegal_va srcva" and st: "env_ipc_recving (envs s e) \<noteq> 0" "env_status (envs s e) = ENV_NOT_RUNNABLE"
    using a nr by simp_all
  from woken_run [OF kv tb e envid2env_live(1) [OF kv e] st v, of val perm] obtain q where
    "sys_ipc_try_send envid val srcva perm s = ipc_send_page e srcva (woken s c e val perm q)"
    "table_inv (woken s c e val perm q) fl (sl @ [e])" "kinv (woken s c e val perm q) dp L X c"
    "delivered s c e val perm (woken s c e val perm q)" by blast
  moreover have "pm (woken s c e val perm q) = pm s" by (simp add: woken_def)
  ultimately show ?thesis
    using a by (intro exI [of _ "woken s c e val perm q"]) (simp add: ipc_send_page_def)
qed

lemma sys_ipc_page:
  assumes kv: "kinv s dp L X c" and tb: "table_inv s fl sl" and e: "envid2env envid False s = Some (Inr (Some e))"
    and nr: "env_ipc_recving (envs s e) \<noteq> 0 \<longrightarrow> env_status (envs s e) = ENV_NOT_RUNNABLE"
    and dva: "user_va (env_ipc_dstva (envs s e))" and fl: "flag_bits perm"
    and rf: "\<And>p. maps (pm s) (dp ` live s) (key (dp c) srcva) = Some p \<Longrightarrow> pp_ref (pm s) p + 1 \<noteq> 0"
    and a: "srcva \<noteq> 0 \<and> \<not> is_illegal_va srcva \<and> env_ipc_recving (envs s e) \<noteq> 0 \<and>
      maps (pm s) (dp ` live s) (key (dp c) srcva) = Some p"
  shows "\<exists>s'. delivered s c e val perm s' \<and> table_inv s' fl (sl @ [e]) \<and> kinv s' dp L X c \<and>
          (sys_ipc_try_send envid val srcva perm s = fail E_NO_MEM s' \<and> pm s' = pm s \<and>
             (\<forall>q. q < unat (npage (pm s)) \<and> pp_ref (pm s) q = 0 \<longrightarrow> q \<in> L)
         \<or> sys_ipc_try_send envid val srcva perm s = ret 0 s' \<and>
             maps (pm s') (dp ` live s) (key (dp e) (env_ipc_dstva (envs s e))) = Some p \<and>
             ptes (pm s') (dp ` live s) = (ptes (pm s) (dp ` live s))(key (dp e) (env_ipc_dstva (envs s e)) := new_pte p (ipc_perm perm)) \<and>
             (\<forall>q. data_frame (pm s) (dp ` live s) L q \<longrightarrow> same_frame (mem (pm s)) (mem (pm s')) q))"
proof -
  have v: "srcva = 0 \<or> \<not> is_illegal_va srcva" and st: "env_ipc_recving (envs s e) \<noteq> 0" "env_status (envs s e) = ENV_NOT_RUNNABLE"
    using a nr by simp_all
  note lv = envid2env_live(1) [OF kv e]
  from woken_run [OF kv tb e lv st v, of val perm] obtain q where
    w: "sys_ipc_try_send envid val srcva perm s = ipc_send_page e srcva (woken s c e val perm q)"
    "table_inv (woken s c e val perm q) fl (sl @ [e])" "kinv (woken s c e val perm q) dp L X c"
    "live (woken s c e val perm q) = live s" "delivered s c e val perm (woken s c e val perm q)" by blast
  let ?w = "woken s c e val perm q" and ?dva = "env_ipc_dstva (envs s e)"
  have c: "curenv s = Some c" "c \<in> live s" using kv by (simp_all add: kinv_def)
  have wf: "env_pgdir (envs ?w x) = env_pgdir (envs s x)" "env_asid (envs ?w x) = env_asid (envs s x)" "the_curenv ?w = Some (envs ?w c)"
    "env_ipc_dstva (envs ?w x) = env_ipc_dstva (envs s x)" "env_ipc_perm (envs ?w e) = ipc_perm perm" "pm ?w = pm s" for x
    using c by (simp_all add: woken_def the_curenv_def)
  have tp: "table_inv (?w\<lparr>pm := p'\<rparr>) fl (sl @ [e])" "delivered s c e val perm (?w\<lparr>pm := p'\<rparr>)" for p'
    using w(2,5) by (simp_all add: table_inv_def delivered_def)
  have cw: "c \<in> live ?w" "e \<in> live ?w" using c lv w(4) by simp_all
  have u: "user_va srcva" using a legal_va by blast
  show ?thesis
  proof (cases rule: share_page_cases [OF w(3) cw u dva ipc_perm_flags [OF fl], where asid = "env_asid (envs s e)"])
    case (1 p)
    then show ?case using rf by (simp add: wf w(4))
  next
    case 2
    then show ?thesis using a by (simp add: wf w(4))
  next
    case n: (3 p1 x)
    have "sys_ipc_try_send envid val srcva perm s = fail E_NO_MEM (?w\<lparr>pm := pm s\<rparr>)"
      using n a w(1) by (simp add: ipc_send_page_def wf ret_result_def)
    then show ?thesis
      using n(4) tp [of "pm s"] kinv_pm [OF w(3), of "pm s" L X] kinv_env(1) [OF w(3) cw(1)]
      by (intro exI [of _ "?w\<lparr>pm := pm s\<rparr>"]) (simp add: wf w(4))
  next
    case n: (4 p1 x p')
    have p1: "p1 = p" using n(2) a by (simp add: wf w(4))
    have "sys_ipc_try_send envid val srcva perm s = ret 0 (?w\<lparr>pm := p'\<rparr>)"
      using n a w(1) by (simp add: ipc_send_page_def wf ret_result_def)
    then show ?thesis
      using n(4-7) tp [of p'] kinv_pm [OF w(3) n(4)] p1
      by (intro exI [of _ "?w\<lparr>pm := p'\<rparr>"]) (simp add: wf w(4))
  qed
qed


lemma kdemo2_env1: "envid2env 4097 False kdemo2 = Some (Inr (Some 1))"
proof -
  have "ENVX 4097 = 1" by (simp add: ENVX_def NENV_def)
  then show ?thesis using kdemo2_fields by (simp add: envid2env_def Let_def status_defs)
qed


text \<open>Error branch of \<^verbatim>\<open>sys_ipc_try_send\<close>, against its description: when \<open>srcva\<close> is a legal address with no page, the call
  returns \<open>-E_INVAL\<close>, but only after it has woken the receiver: that one is runnable, no longer receiving, and takes the value as a
  message although the sender was told that sending failed.\<close>

theorem sys_ipc_try_send_unmapped:
  assumes kv: "kinv s dp L X c" and tb: "table_inv s fl sl" and e: "envid2env envid False s = Some (Inr (Some e))"
    and st: "env_ipc_recving (envs s e) \<noteq> 0" "env_status (envs s e) = ENV_NOT_RUNNABLE"
    and va: "srcva \<noteq> 0" "\<not> is_illegal_va srcva" "maps (pm s) (dp ` live s) (key (dp c) srcva) = None"
  shows "\<exists>s'. sys_ipc_try_send envid val srcva perm s = fail E_INVAL s' \<and> delivered s c e val perm s' \<and> table_inv s' fl (sl @ [e])"
proof -
  have v: "srcva = 0 \<or> \<not> is_illegal_va srcva" using va by simp
  from woken_run [OF kv tb e envid2env_live(1) [OF kv e] st v, of val perm] obtain q where
    w: "sys_ipc_try_send envid val srcva perm s = ipc_send_page e srcva (woken s c e val perm q)"
    "table_inv (woken s c e val perm q) fl (sl @ [e])" "delivered s c e val perm (woken s c e val perm q)" by blast
  have c: "curenv s = Some c" "c \<in> live s" using kv by (simp_all add: kinv_def)
  note k = kinv_env [OF kv c(2)]
  let ?w = "woken s c e val perm q"
  have pg: "env_pgdir (envs ?w x) = env_pgdir (envs s x)" for x by (simp add: woken_def)
  have "the_curenv ?w = Some (envs ?w c)" "env_pgdir (envs ?w c) = page2pa (dp c)" "pm ?w = pm s"
    unfolding pg k(2) using c(1) by (simp_all add: woken_def the_curenv_def)
  then have "sys_ipc_try_send envid val srcva perm s = fail E_INVAL (?w\<lparr>pm := pm s\<rparr>)"
    using w(1) va(1) page_lookup_unmapped [OF vm_inv_cases(1) [OF k(1)] k(3) legal_va [OF va(2)] va(3)]
    by (simp add: ipc_send_page_def)
  moreover have "table_inv (?w\<lparr>pm := pm s\<rparr>) fl (sl @ [e])" "delivered s c e val perm (?w\<lparr>pm := pm s\<rparr>)"
    using w(2,3) by (simp_all add: table_inv_def delivered_def)
  ultimately show ?thesis by blast
qed

theorem sys_ipc_try_send_unmapped_witness:
  "\<exists>s'. sys_ipc_try_send 4097 42 0x400000 0 kdemo2 = fail E_INVAL s' \<and> env_ipc_recving (envs s' 1) = 0 \<and>
     env_status (envs s' 1) = ENV_RUNNABLE \<and> env_ipc_value (envs s' 1) = 42"
proof -
  have "maps (pm kdemo2) (id ` live kdemo2) (key (id 0) 0x400000) = None" using kdemo2_ptes [of "id ` live kdemo2"] by (simp add: maps_def)
  moreover have "\<not> is_illegal_va 0x400000" by (simp add: is_illegal_va_def layout_defs)
  moreover have "env_ipc_recving (envs kdemo2 1) \<noteq> 0" by (simp only: kdemo2_fields(8)) simp
  ultimately show ?thesis
    using sys_ipc_try_send_unmapped [OF kdemo2_kinv kdemo2_table kdemo2_env1 _ kdemo2_fields(10), of "0x400000" 42 0]
    by (auto simp: delivered_def)
qed

section \<open>Receiving\<close>

text \<open>The state in which \<^verbatim>\<open>sys_ipc_recv\<close> calls \<^verbatim>\<open>schedule\<close>.\<close>

definition waiting :: "kstate \<Rightarrow> nat \<Rightarrow> u32 \<Rightarrow> nat tailq \<Rightarrow> kstate" where
  "waiting s c dstva q = s\<lparr>envs := (envs s)(c := (envs s c)\<lparr>env_ipc_recving := 1, env_ipc_dstva := dstva, env_status := ENV_NOT_RUNNABLE\<rparr>),
     env_sched_list := q, kstack_tf := set_reg 10 0 (kstack_tf s)\<rparr>"

lemma waiting_run:
  assumes tb: "table_inv s fl sl" and c: "curenv s = Some c" "c < NENV" "env_status (envs s c) = ENV_RUNNABLE"
    and va: "dstva = 0 \<or> \<not> is_illegal_va dstva"
  obtains q where "sys_ipc_recv R dstva s = do { s \<leftarrow> schedule R True (waiting s c dstva q); Some (KSwitch, s) }"
    "table_inv (waiting s c dstva q) fl (remove1 c sl)" "c \<notin> set (remove1 c sl)"
proof -
  have t: "list_rep (env_free_list s) fl" "set fl = {e. e < NENV \<and> env_status (envs s e) = ENV_FREE}"
    "tailq_rep (env_sched_list s) sl" "set sl = {e. e < NENV \<and> env_status (envs s e) = ENV_RUNNABLE}"
    using tb by (simp_all add: table_inv_def)
  have cs: "c \<in> set sl" using t(4) c by simp
  obtain q where q: "TAILQ_REMOVE (env_sched_list s) c = Some q" "tailq_rep q (remove1 c sl)"
    using tailq_rep_remove [OF t(3) cs] by blast
  have nv: "\<not> (dstva \<noteq> 0 \<and> is_illegal_va dstva)" using va by blast
  let ?w = "waiting s c dstva q"
  have w: "(upd_env c (\<lambda>en. en\<lparr>env_status := ENV_NOT_RUNNABLE\<rparr>) (upd_env c (\<lambda>en. en\<lparr>env_ipc_dstva := dstva\<rparr>)
      (upd_env c (\<lambda>en. en\<lparr>env_ipc_recving := 1\<rparr>) s)))\<lparr>env_sched_list := q, kstack_tf := set_reg 10 0 (kstack_tf s)\<rparr> = ?w"
    by (simp add: upd_env_def waiting_def)
  have run: "sys_ipc_recv R dstva s = do { s \<leftarrow> schedule R True ?w; Some (KSwitch, s) }"
    unfolding sys_ipc_recv_def if_not_P [OF nv] c(1) Let_def by (simp add: q(1) w)
  have sw: "env_status (envs ?w x) = (if x = c then ENV_NOT_RUNNABLE else env_status (envs s x))" for x by (simp add: waiting_def)
  have ds: "set (remove1 c sl) = set sl - {c}" using tq.rep_distinct [OF t(3)] by simp
  have "set fl = {x. x < NENV \<and> env_status (envs ?w x) = ENV_FREE}"
    unfolding sw t(2) using c(3) by (auto simp: status_defs)
  moreover have "set (remove1 c sl) = {x. x < NENV \<and> env_status (envs ?w x) = ENV_RUNNABLE}"
    unfolding sw ds t(4) by (auto simp: status_defs)
  ultimately have "table_inv ?w fl (remove1 c sl)"
    using t(1) q(2) unfolding table_inv_def by (simp add: waiting_def)
  with run show thesis using that [of q] ds by simp
qed

lemma recv_blocks:
  assumes tb: "table_inv s fl sl" and dk: "disk_ok s" and c: "curenv s = Some c" "c < NENV" "env_status (envs s c) = ENV_RUNNABLE"
    and va: "dstva = 0 \<or> \<not> is_illegal_va dstva"
  shows "remove1 c sl = [] \<Longrightarrow> sys_ipc_recv R dstva s = None"
    "remove1 c sl \<noteq> [] \<Longrightarrow> \<exists>q s'. sys_ipc_recv R dstva s = Some (KSwitch, s') \<and> switched (waiting s c dstva q) (hd (remove1 c sl)) s' \<and>
       table_inv s' fl (remove1 c sl) \<and> disk_ok s'"
proof -
  from waiting_run [OF tb c va] obtain q where
    q: "sys_ipc_recv R dstva s = do { s \<leftarrow> schedule R True (waiting s c dstva q); Some (KSwitch, s) }"
    "table_inv (waiting s c dstva q) fl (remove1 c sl)" "c \<notin> set (remove1 c sl)" by blast
  let ?w = "waiting s c dstva q"
  have w: "disk_ok ?w" "curenv ?w = Some c" using dk c(1) by (simp_all add: waiting_def disk_ok_def)
  have cur: "\<And>x. curenv ?w = Some x \<Longrightarrow> x < NENV" using w(2) c(2) by simp
  have sw: "must_switch True ?w" by (simp add: must_switch_def)
  have r: "rotate_cur (Some c) (remove1 c sl) = remove1 c sl" using q(3) by (simp add: rotate_cur_def)
  show "sys_ipc_recv R dstva s = None" if "remove1 c sl = []"
    using schedule_no_runnable [OF _ w(1) cur sw] q(1,2) that by simp
  show "\<exists>q s'. sys_ipc_recv R dstva s = Some (KSwitch, s') \<and> switched (waiting s c dstva q) (hd (remove1 c sl)) s' \<and>
       table_inv s' fl (remove1 c sl) \<and> disk_ok s'" if "remove1 c sl \<noteq> []"
    using schedule_switches [OF q(2) w(1) cur sw that, of R] q(1) unfolding w(2) r by auto
qed

lemma switched_kinv:
  assumes "space_inv s dp L X" "switched s e s'" "e \<in> live s"
  shows "kinv s' dp L X e" "live s' = live s"
proof -
  have f: "\<And>x. env_status (envs s' x) = env_status (envs s x)" "\<And>x. env_pgdir (envs s' x) = env_pgdir (envs s x)"
    "pm s' = pm s" "curenv s' = Some e" "cur_pgdir s' = env_pgdir (envs s e)"
    using assms(2) by (simp_all add: switched_def)
  show l: "live s' = live s" by (simp add: live_def f)
  show "kinv s' dp L X e" using assms(1,3) unfolding kinv_def space_inv_def l f by simp
qed

text \<open>Property C18. Rendezvous of \<^verbatim>\<open>sys_ipc_recv\<close> and \<^verbatim>\<open>sys_ipc_try_send\<close>.  The running environment \<open>c\<close> that receives leaves the run
  queue and the next environment \<open>n\<close> of the queue runs; a send of \<open>n\<close> to \<open>c\<close> then succeeds, and \<open>c\<close> goes to the tail of the queue
  with the value and the id of \<open>n\<close>, its own saved registers having 0 as the result of the call.  No step changes memory, and an
  environment that receives when nobody else is runnable makes the kernel panic.\<close>

theorem ipc_rendezvous:
  assumes sp: "space_inv s dp L X" and tb: "table_inv s fl sl" and dk: "disk_ok s"
    and c: "curenv s = Some c" "c < NENV" "env_status (envs s c) = ENV_RUNNABLE" "env_id (envs s c) \<noteq> 0" "ENVX (env_id (envs s c)) = c"
    and va: "dstva = 0 \<or> \<not> is_illegal_va dstva"
  shows "(remove1 c sl = [] \<longrightarrow> sys_ipc_recv R dstva s = None) \<and>
    (\<forall>n rest. remove1 c sl = n # rest \<longrightarrow>
      (\<exists>s1 s2. sys_ipc_recv R dstva s = Some (KSwitch, s1) \<and> curenv s1 = Some n \<and> table_inv s1 fl (n # rest) \<and>
        sys_ipc_try_send (env_id (envs s c)) val 0 perm s1 = ret 0 s2 \<and> table_inv s2 fl (n # rest @ [c]) \<and>
        env_ipc_value (envs s2 c) = val \<and> env_ipc_from (envs s2 c) = env_id (envs s n) \<and> env_ipc_recving (envs s2 c) = 0 \<and>
        env_ipc_dstva (envs s2 c) = dstva \<and> env_tf (envs s2 c) = set_reg 10 0 (kstack_tf s) \<and> pm s2 = pm s))"
proof (intro conjI allI impI)
  show "remove1 c sl = [] \<Longrightarrow> sys_ipc_recv R dstva s = None" by (rule recv_blocks(1) [OF tb dk c(1-3) va])
next
  fix n rest assume n: "remove1 c sl = n # rest"
  obtain q s1 where s1: "sys_ipc_recv R dstva s = Some (KSwitch, s1)" "switched (waiting s c dstva q) n s1" "table_inv s1 fl (n # rest)"
    using recv_blocks(2) [OF tb dk c(1-3) va, of R] n by auto
  let ?w = "waiting s c dstva q"
  have sl: "set sl = {e. e < NENV \<and> env_status (envs s e) = ENV_RUNNABLE}" "distinct sl"
    using tb tq.rep_distinct by (auto simp: table_inv_def)
  have "n \<in> set (remove1 c sl)" using n by simp
  then have nl: "n \<in> live s" "n \<noteq> c" using sl by (auto simp: live_def status_defs)
  have lw: "live ?w = live s" using c(2,3) by (auto simp: live_def waiting_def status_defs)
  have "space_inv ?w dp L X" using sp unfolding space_inv_def lw by (simp add: waiting_def)
  note k1 = switched_kinv [OF this s1(2), unfolded lw, OF nl(1)]
  have w: "envs ?w c = (envs s c)\<lparr>env_ipc_recving := 1, env_ipc_dstva := dstva, env_status := ENV_NOT_RUNNABLE\<rparr>"
    "envs ?w n = envs s n" "curenv ?w = Some c" "kstack_tf ?w = set_reg 10 0 (kstack_tf s)" "pm ?w = pm s"
    using nl(2) c(1) by (simp_all add: waiting_def)
  have e1: "envs s1 x = (envs ?w x)\<lparr>env_tf := env_tf (envs s1 x), env_runs := env_runs (envs s1 x)\<rparr>" for x
    using s1(2) by (simp add: switched_def)
  have "env_id (envs s1 c) = env_id (envs ?w c)" "env_status (envs s1 c) = env_status (envs ?w c)" "env_id (envs s1 n) = env_id (envs ?w n)"
    "env_ipc_recving (envs s1 c) = env_ipc_recving (envs ?w c)" "env_ipc_dstva (envs s1 c) = env_ipc_dstva (envs ?w c)"
    by (subst e1, simp)+
  then have f1: "env_id (envs s1 c) = env_id (envs s c)" "env_status (envs s1 c) = ENV_NOT_RUNNABLE" "env_ipc_recving (envs s1 c) \<noteq> 0"
    "env_ipc_dstva (envs s1 c) = dstva" "env_id (envs s1 n) = env_id (envs s n)" unfolding w by simp_all
  have g1: "env_tf (envs s1 c) = set_reg 10 0 (kstack_tf s)" "pm s1 = pm s" "curenv s1 = Some n"
    using s1(2) w by (simp_all add: switched_def)
  have "envid2env (env_id (envs s c)) False s1 = Some (Inr (Some c))"
    using c(4,5) f1 by (simp add: envid2env_def Let_def status_defs)
  from woken_run [OF k1(1) s1(3) this envid2env_live(1) [OF k1(1) this] f1(3,2) disjI1 [OF refl], of val perm] obtain q2 where
    r: "sys_ipc_try_send (env_id (envs s c)) val 0 perm s1 = ipc_send_page c 0 (woken s1 n c val perm q2)"
    "table_inv (woken s1 n c val perm q2) fl ((n # rest) @ [c])" by blast
  show "\<exists>s1 s2. sys_ipc_recv R dstva s = Some (KSwitch, s1) \<and> curenv s1 = Some n \<and> table_inv s1 fl (n # rest) \<and>
        sys_ipc_try_send (env_id (envs s c)) val 0 perm s1 = ret 0 s2 \<and> table_inv s2 fl (n # rest @ [c]) \<and>
        env_ipc_value (envs s2 c) = val \<and> env_ipc_from (envs s2 c) = env_id (envs s n) \<and> env_ipc_recving (envs s2 c) = 0 \<and>
        env_ipc_dstva (envs s2 c) = dstva \<and> env_tf (envs s2 c) = set_reg 10 0 (kstack_tf s) \<and> pm s2 = pm s"
    using s1(1,3) g1 r f1
    by (intro exI [of _ s1] exI [of _ "woken s1 n c val perm q2"]) (simp add: ipc_send_page_def, simp add: woken_def)
qed

theorem ipc_rendezvous_witness:
  "\<exists>s0 s1 s2. sys_ipc_try_send 4097 42 0 0 kdemo2 = ret 0 s0 \<and> sys_ipc_recv (\<lambda>_. 0) 0 s0 = Some (KSwitch, s1) \<and>
     sys_ipc_try_send 2048 7 0 0 s1 = ret 0 s2 \<and> env_ipc_value (envs s2 0) = 7 \<and> env_ipc_from (envs s2 0) = 4097 \<and>
     table_inv s2 [2..<NENV] [1, 0]"
proof -
  have r1: "env_ipc_recving (envs kdemo2 1) \<noteq> 0" by (simp only: kdemo2_fields(8)) simp
  from woken_run [OF kdemo2_kinv kdemo2_table kdemo2_env1 envid2env_live(1) [OF kdemo2_kinv kdemo2_env1] r1 kdemo2_fields(10) disjI1 [OF refl],
      of 42 0] obtain q where
    q: "sys_ipc_try_send 4097 42 0 0 kdemo2 = ipc_send_page 1 0 (woken kdemo2 0 1 42 0 q)"
    "table_inv (woken kdemo2 0 1 42 0 q) [2..<NENV] ([0] @ [1])" "kinv (woken kdemo2 0 1 42 0 q) id {} kdemo_X 0" by blast
  let ?s = "woken kdemo2 0 1 42 0 q"
  have e: "envs ?s 0 = envs kdemo2 0" "env_id (envs ?s 1) = 4097" "disk ?s = disk kdemo2" "curenv ?s = Some 0"
    using kdemo2_fields(2,11) by (simp_all add: woken_def)
  have dk: "disk_ok ?s" using kdemo_disk unfolding disk_ok_def e by (simp add: kdemo2_def)
  have sp: "space_inv ?s id {} kdemo_X" using q(3) by (simp add: kinv_def)
  have "remove1 0 ([0] @ [1]) = 1 # []" by simp
  with ipc_rendezvous [OF sp q(2) dk e(4), of 0 "\<lambda>_. 0" 7 0] e kdemo2_fields(6,12)
  obtain s1 s2 where "sys_ipc_recv (\<lambda>_. 0) 0 ?s = Some (KSwitch, s1)" "sys_ipc_try_send 2048 7 0 0 s1 = ret 0 s2"
    "table_inv s2 [2..<NENV] (1 # [] @ [0])" "env_ipc_value (envs s2 0) = 7" "env_ipc_from (envs s2 0) = 4097"
    by (fastforce simp: NENV_def ENVX_def)
  then show ?thesis using q(1)
    by (intro exI [of _ ?s] exI [of _ s1] exI [of _ s2]) (simp add: ipc_send_page_def)
qed

section \<open>Dispatch\<close>

text \<open>A user program that executes the same \<^verbatim>\<open>ecall\<close> again and again.\<close>

fun ecalls :: "(u32 \<Rightarrow> u32) \<Rightarrow> u32 \<Rightarrow> nat \<Rightarrow> kstate \<Rightarrow> kstate option" where
  "ecalls R junk 0 s = Some s"
| "ecalls R junk (Suc n) s = do { s \<leftarrow> do_syscall R junk s; ecalls R junk n s }"

lemma sint_E_NO_SYS: "sint (neg_errno E_NO_SYS) < 0"
  by (simp add: neg_errno_def)

text \<open>Error branch of \<^verbatim>\<open>do_syscall\<close>: a number outside the table gives \<open>-E_NO_SYS\<close> in \<open>a0\<close> and changes nothing else.
  In particular \<^verbatim>\<open>sepc\<close> still points at the \<^verbatim>\<open>ecall\<close>, which the environment executes again, with \<open>-E_NO_SYS\<close> as the number:
  however often it does so the state stays the same, and the program never gets the error.\<close>

theorem do_syscall_bad_number_stuck:
  assumes "sint (tf_regs (kstack_tf s) 10) < 0 \<or> sint (tf_regs (kstack_tf s) 10) \<ge> int MAX_SYSNO"
  shows "ecalls R junk (Suc n) s = Some (set_a0 (neg_errno E_NO_SYS) s) \<and>
    tf_sepc (kstack_tf (set_a0 (neg_errno E_NO_SYS) s)) = tf_sepc (kstack_tf s)"
proof -
  let ?s = "set_a0 (neg_errno E_NO_SYS) s"
  have a: "tf_regs (kstack_tf ?s) 10 = neg_errno E_NO_SYS" "set_a0 (neg_errno E_NO_SYS) ?s = ?s"
    by (simp_all add: set_a0_def set_reg_def)
  have "do_syscall R junk ?s = Some ?s" unfolding do_syscall_def Let_def a using sint_E_NO_SYS by simp
  then have "ecalls R junk n ?s = Some ?s" by (induction n) simp_all
  moreover have "do_syscall R junk s = Some ?s" using assms by (simp add: do_syscall_def)
  ultimately show ?thesis by (simp add: set_a0_def set_reg_def)
qed

theorem do_syscall_bad_number_stuck_witness:
  "ecalls (\<lambda>_. 0) 0 5 (set_a0 99 kdemo2) = Some (set_a0 (neg_errno E_NO_SYS) (set_a0 99 kdemo2))"
proof -
  have "tf_regs (kstack_tf (set_a0 99 kdemo2)) 10 = 99" by (simp add: set_a0_def set_reg_def)
  then have "sint (tf_regs (kstack_tf (set_a0 99 kdemo2)) 10) \<ge> int MAX_SYSNO" by (simp add: MAX_SYSNO_def)
  from do_syscall_bad_number_stuck [OF disjI2 [OF this], of "\<lambda>_. 0" 0 4]
  have "ecalls (\<lambda>_. 0) 0 (Suc 4) (set_a0 99 kdemo2) = Some (set_a0 (neg_errno E_NO_SYS) (set_a0 99 kdemo2))" by blast
  moreover have "Suc 4 = 5" by simp
  ultimately show ?thesis by (simp only:)
qed

section \<open>Forking\<close>

lemma exofork_run:
  assumes kv: "kinv s dp L X c" and tb: "table_inv s (e # fl) sl" and bd: "boot_dirs s kp b"
    and fr: "p < unat (npage (pm s))" "pp_ref (pm s) p = 0" "p \<notin> L" and asid: "used_asids s \<noteq> {..<NASID}"
  obtains s' d where "sys_exofork s = ret (env_id (envs s' e)) s'" "env_id (envs s' e) = fst (mkenvid e s)"
    "envs s' = (envs s)(e := envs s' e)" "env_tf (envs s' e) = set_reg 10 0 (kstack_tf s)" "env_status (envs s' e) = ENV_NOT_RUNNABLE"
    "env_pri (envs s' e) = env_pri (envs s c)" "controls s' c e" "kstack_tf s' = kstack_tf s" "curenv s' = Some c" "cur_pgdir s' = cur_pgdir s"
    "space_inv s' (dp(e := d)) L X" "live s' = insert e (live s)" "(dp(e := d)) ` live s' = insert d (dp ` live s)" "e \<notin> live s" "e < NENV"
    "table_inv s' fl sl" "\<And>i j. maps (pm s) (dp ` live s) (d, i, j) = None" "maps (pm s') (insert d (dp ` live s)) = maps (pm s) (dp ` live s)"
    "ptes (pm s') (insert d (dp ` live s)) = ptes (pm s) (dp ` live s)" "npage (pm s') = npage (pm s)" "d \<notin> dp ` live s"
    "\<And>q i. q < page_bound \<Longrightarrow> q \<noteq> d \<Longrightarrow> i < 1024 \<Longrightarrow> ent (mem (pm s')) q i = ent (mem (pm s)) q i" "pp_ref (pm s) d = 0"
proof -
  let ?D = "dp ` live s"
  have sp: "space_inv s dp L X" and c: "curenv s = Some c" "c \<in> live s" using kv by (simp_all add: kinv_def)
  have inv: "vm_inv (pm s) ?D L X" and pg: "\<forall>e \<in> live s. env_pgdir (envs s e) = page2pa (dp e)" and inj: "inj_on dp (live s)"
    using sp by (simp_all add: space_inv_def)
  have t: "list_rep (env_free_list s) (e # fl)" "e < NENV" "env_status (envs s e) = ENV_FREE"
    "set (e # fl) = {x. x < NENV \<and> env_status (envs s x) = ENV_FREE}"
    "tailq_rep (env_sched_list s) sl" "set sl = {x. x < NENV \<and> env_status (envs s x) = ENV_RUNNABLE}"
    using tb unfolding table_inv_def by auto
  have el: "e \<notin> live s" "e \<noteq> c" using t(3) c(2) by (auto simp: live_def)
  from inv bd t(1) show thesis
  proof (cases rule: env_alloc_cases [where parent = "env_id (envs s c)"])
    case empty
    then show thesis by simp
  next
    case no_mem
    then show thesis using fr by blast
  next
    case no_asid
    then show thesis using asid by simp
  next
    case (ok e1 fl1 d k s1)
    then have [simp]: "e1 = e" "fl1 = fl" by simp_all
    define s' where "s' = upd_env e (\<lambda>en. en\<lparr>env_tf := set_reg 10 0 (kstack_tf s), env_status := ENV_NOT_RUNNABLE,
      env_pri := env_pri (envs s c)\<rparr>) s1"
    have run: "sys_exofork s = ret (env_id (envs s' e)) s'"
      using c(1) ok(2,19) el(2) by (simp add: sys_exofork_def s'_def upd_env_def Let_def ok(12))
    have lv: "live s' = insert e (live s)" using t(2) by (auto simp: live_def s'_def ok(12) status_defs)
    have D: "(dp(e := d)) ` live s' = insert d ?D" using el by (auto simp: lv image_iff)
    have "inj_on (dp(e := d)) (live s')" using inj el ok(3) by (auto simp: lv inj_on_def)
    moreover have "vm_inv (pm s') (insert d ?D) L X" using ok(5) by (simp add: s'_def upd_env_def)
    moreover have "\<forall>x \<in> live s'. env_pgdir (envs s' x) = page2pa ((dp(e := d)) x)" using pg unfolding lv by (simp add: s'_def ok(12))
    ultimately have sp': "space_inv s' (dp(e := d)) L X" unfolding space_inv_def D by simp
    have m: "maps (pm s') (insert d ?D) = maps (pm s) ?D"
      using ok(6,7) by (simp add: maps_def entry_frame_def pa2page_def fun_eq_iff s'_def upd_env_def)
    have nm: "maps (pm s) ?D (d, i, j) = None" for i j using ok(3) by (simp add: maps_def ptes_def ptab_def)
    have st: "env_status (envs s' x) = (if x = e then ENV_NOT_RUNNABLE else env_status (envs s x))" for x
      by (simp add: s'_def ok(12))
    have "e \<notin> set fl" using lst.rep_distinct [OF t(1)] by simp
    then have "set fl = {x. x < NENV \<and> env_status (envs s' x) = ENV_FREE}"
      unfolding st using t(4) by (auto simp: status_defs)
    moreover have "set sl = {x. x < NENV \<and> env_status (envs s' x) = ENV_RUNNABLE}"
      unfolding st t(6) using t(3) by (auto simp: status_defs)
    ultimately have tb': "table_inv s' fl sl"
      using ok(8,14) t(5) unfolding table_inv_def by (simp add: s'_def upd_env_def)
    have con: "controls s' c e" using el(2) by (simp add: controls_def s'_def ok(12))
    have ev: "envs s' = (envs s)(e := envs s' e)" by (simp add: s'_def ok(12) upd_env_def)
    show thesis
      by (rule that [OF run _ ev _ _ _ con _ _ _ sp' lv D el(1) t(2) tb' nm m])
         (use ok(3,6,7,15,19,20,22,23) c(1) in \<open>simp_all add: s'_def ok(12) upd_env_def\<close>)
  qed
qed

text \<open>Property C19. \<^verbatim>\<open>sys_exofork\<close> with a free slot, frame and ASID: the caller \<open>c\<close> gets the id of the child \<open>e\<close>, whose registers are
  those of the caller at the trap except that \<open>a0\<close> is 0, so that both return from the same call with different results.  The
  child is a child of \<open>c\<close> (which may therefore manage its memory), has its priority, waits outside the run queue, and has an
  address space of its own in which nothing is mapped; every other environment and mapping is as before.\<close>

theorem sys_exofork_correct:
  assumes kv: "kinv s dp L X c" and tb: "table_inv s (e # fl) sl" and bd: "boot_dirs s kp b"
    and fr: "p < unat (npage (pm s))" "pp_ref (pm s) p = 0" "p \<notin> L" and asid: "used_asids s \<noteq> {..<NASID}"
  shows "\<exists>s' d. sys_exofork s = ret (env_id (envs s' e)) s' \<and> env_tf (envs s' e) = set_reg 10 0 (kstack_tf s) \<and>
     env_status (envs s' e) = ENV_NOT_RUNNABLE \<and> env_pri (envs s' e) = env_pri (envs s c) \<and> controls s' c e \<and>
     (\<forall>x. x \<noteq> e \<longrightarrow> envs s' x = envs s x) \<and> kstack_tf s' = kstack_tf s \<and>
     space_inv s' (dp(e := d)) L X \<and> live s' = insert e (live s) \<and> table_inv s' fl sl \<and>
     (\<forall>i j. maps (pm s') (insert d (dp ` live s)) (d, i, j) = None) \<and>
     maps (pm s') (insert d (dp ` live s)) = maps (pm s) (dp ` live s)"
  using assms
proof (rule exofork_run)
  fix s' d
  assume r: "sys_exofork s = ret (env_id (envs s' e)) s'" "env_tf (envs s' e) = set_reg 10 0 (kstack_tf s)"
    "env_status (envs s' e) = ENV_NOT_RUNNABLE" "env_pri (envs s' e) = env_pri (envs s c)" "controls s' c e" "kstack_tf s' = kstack_tf s"
    "space_inv s' (dp(e := d)) L X" "live s' = insert e (live s)" "table_inv s' fl sl"
    "\<And>i j. maps (pm s) (dp ` live s) (d, i, j) = None" "maps (pm s') (insert d (dp ` live s)) = maps (pm s) (dp ` live s)"
    and ev: "envs s' = (envs s)(e := envs s' e)"
  have "\<forall>x. x \<noteq> e \<longrightarrow> envs s' x = envs s x" using ev by (metis fun_upd_other)
  with r show ?thesis by (intro exI [of _ s'] exI [of _ d]) simp
qed

lemma kdemo_kinv: "kinv kdemo (\<lambda>_. 0) {1} kdemo_X 0"
proof -
  have "curenv kdemo = Some 0" "cur_pgdir kdemo = env_pgdir (envs kdemo 0)" "env_status (envs kdemo 0) = ENV_RUNNABLE" "0 < NENV"
    by (simp_all add: kdemo_def NENV_def)
  then show ?thesis using kdemo_space unfolding kinv_def live_def by (auto simp: status_defs)
qed

theorem sys_exofork_correct_witness:
  "\<exists>s'. sys_exofork kdemo = ret (env_id (envs s' 1)) s' \<and> env_status (envs s' 1) = ENV_NOT_RUNNABLE \<and> controls s' 0 1 \<and>
     table_inv s' [2..<NENV] [0]"
proof -
  have "table_inv kdemo (1 # [2..<NENV]) [0]" using kdemo_table upt_conv_Cons [of 1 NENV] by (simp add: NENV_def numeral_2_eq_2 del: upt_rec_numeral)
  moreover have "pm kdemo = kdemo_pm" by (simp add: kdemo_def)
  moreover have "2 < unat (npage kdemo_pm)" "pp_ref kdemo_pm 2 = 0" by (simp_all add: kdemo_pm_def)
  moreover have "(0 :: nat) \<in> {..<NASID}" "0 \<notin> used_asids kdemo" by (simp_all add: kdemo_asids NASID_def)
  then have "used_asids kdemo \<noteq> {..<NASID}" by blast
  ultimately show ?thesis using sys_exofork_correct [OF kdemo_kinv _ kdemo_boot, of 1 "[2..<NENV]" "[0]" 2] by auto
qed
end
