(* ===== verification/Mos_Print.thy ===== *)
theory Mos_Print
  imports Mos_Env
begin

text \<open>
  Formatted output: \<^verbatim>\<open>lib/print.c\<close>, \<^verbatim>\<open>kern/printk.c\<close> and \<^verbatim>\<open>user/lib/debugf.c\<close>.

  \<^verbatim>\<open>vprintfmt\<close> sends its output to a callback; \<open>out bs d\<close> is the call with the bytes \<open>bs\<close> and the context \<open>d\<close>.  The locale
  \<open>sink\<close> is the contract between \<^verbatim>\<open>vprintfmt\<close> and its callbacks: a callback appends the bytes to an abstract stream.  It is
  interpreted on \<^verbatim>\<open>outputk\<close>, which prints at once, and on \<^verbatim>\<open>debug_output\<close>, which collects them in a buffer of 1024 bytes.

  Lengths and widths are naturals: they are C \<^verbatim>\<open>int\<close>s whose overflow is undefined.  Bytes are written as \<open>ch CHR ''x''\<close>.
\<close>

section \<open>Output helpers\<close>

type_synonym 'd sink = "u8 list \<Rightarrow> 'd \<Rightarrow> 'd option"

definition ch :: "char \<Rightarrow> u8" where
  "ch c = of_char c"

text \<open>The loops \<^verbatim>\<open>for (...) out(data, " ", 1)\<close>.\<close>

fun out_times :: "'d sink \<Rightarrow> u8 list \<Rightarrow> nat \<Rightarrow> 'd \<Rightarrow> 'd option" where
  "out_times out bs 0 d = Some d"
| "out_times out bs (Suc n) d = do { d \<leftarrow> out bs d; out_times out bs n d }"

definition print_char :: "'d sink \<Rightarrow> u8 \<Rightarrow> nat \<Rightarrow> bool \<Rightarrow> 'd \<Rightarrow> 'd option" where
  "print_char out c leng ladjust d =
     (let leng = (if leng < 1 then 1 else leng)
      in if ladjust then do { d \<leftarrow> out [c] d; out_times out [ch CHR '' ''] (leng - 1) d }
         else do { d \<leftarrow> out_times out [ch CHR '' ''] (leng - 1) d; out [c] d })"

definition loads :: "mem \<Rightarrow> u32 \<Rightarrow> nat \<Rightarrow> u8 list" where
  "loads m a n = map (\<lambda>i. m (a + of_nat i)) [0..<n]"

definition print_str :: "'d sink \<Rightarrow> mem \<Rightarrow> u32 \<Rightarrow> nat \<Rightarrow> bool \<Rightarrow> 'd \<Rightarrow> 'd option" where
  "print_str out m s leng ladjust d = do {
     l \<leftarrow> strlen_loop m s 0;
     let len = unat l;
     let leng = (if leng < len then len else leng);
     if ladjust then do { d \<leftarrow> out (loads m s len) d; out_times out [ch CHR '' ''] (leng - len) d }
     else do { d \<leftarrow> out_times out [ch CHR '' ''] (leng - len) d; out (loads m s len) d } }"

section \<open>Numbers\<close>

text \<open>A write to the local array \<^verbatim>\<open>char buf[sz]\<close>; \<open>None\<close> is a write outside it.\<close>

definition bput :: "nat \<Rightarrow> nat \<Rightarrow> u8 \<Rightarrow> (nat \<Rightarrow> u8) \<Rightarrow> (nat \<Rightarrow> u8) option" where
  "bput sz i v buf = (if i < sz then Some (buf(i := v)) else None)"

definition digit_char :: "bool \<Rightarrow> u32 \<Rightarrow> u8" where
  "digit_char upcase tmp =
     (if tmp \<le> 9 then ch CHR ''0'' + ucast tmp
      else if upcase then ch CHR ''A'' + ucast tmp - 10 else ch CHR ''a'' + ucast tmp - 10)"

text \<open>The \<^verbatim>\<open>do ... while (u != 0)\<close> loop, which does not end for a base below 2.\<close>

function digit_loop :: "nat \<Rightarrow> u32 \<Rightarrow> bool \<Rightarrow> u32 \<Rightarrow> nat \<Rightarrow> (nat \<Rightarrow> u8) \<Rightarrow> ((nat \<Rightarrow> u8) \<times> nat) option" where
  "digit_loop sz base upcase u p buf =
     (if base < 2 then None
      else do {
        buf \<leftarrow> bput sz p (digit_char upcase (u mod base)) buf;
        if u div base \<noteq> 0 then digit_loop sz base upcase (u div base) (p + 1) buf else Some (buf, p + 1) })"
  by pat_completeness auto
termination
proof (relation "measure (\<lambda>(sz, base, upcase, u, p, buf). unat u)", goal_cases)
  case (2 sz base upcase u p buf x)
  then have "1 < unat base" "unat u \<noteq> 0" by (auto simp: word_less_nat_alt unat_eq_zero)
  then show ?case by (simp add: unat_div)
qed simp

declare digit_loop.simps [simp del]

function fill_loop :: "nat \<Rightarrow> u8 \<Rightarrow> nat \<Rightarrow> nat \<Rightarrow> (nat \<Rightarrow> u8) \<Rightarrow> (nat \<Rightarrow> u8) option" where
  "fill_loop sz padc i n buf = (if i < n then do { buf \<leftarrow> bput sz i padc buf; fill_loop sz padc (i + 1) n buf } else Some buf)"
  by pat_completeness auto
termination by (relation "measure (\<lambda>(sz, padc, i, n, buf). n - i)") auto

declare fill_loop.simps [simp del]

function reverse_loop :: "nat \<Rightarrow> nat \<Rightarrow> nat \<Rightarrow> (nat \<Rightarrow> u8) \<Rightarrow> (nat \<Rightarrow> u8) option" where
  "reverse_loop sz bgn fin buf =
     (if fin > bgn then do {
        let tmp = buf bgn;
        buf \<leftarrow> bput sz bgn (buf fin) buf;
        buf \<leftarrow> bput sz fin tmp buf;
        reverse_loop sz (bgn + 1) (fin - 1) buf }
      else Some buf)"
  by pat_completeness auto
termination by (relation "measure (\<lambda>(sz, bgn, fin, buf). fin - bgn)") auto

declare reverse_loop.simps [simp del]

text \<open>\<open>buf\<close> is the uninitialised contents of the local array.\<close>

definition print_num :: "'d sink \<Rightarrow> (nat \<Rightarrow> u8) \<Rightarrow> u32 \<Rightarrow> u32 \<Rightarrow> bool \<Rightarrow> nat \<Rightarrow> bool \<Rightarrow> u8 \<Rightarrow> bool \<Rightarrow> 'd \<Rightarrow> 'd option" where
  "print_num out buf u base neg_flag leng ladjust padc upcase d =
     (let sz = leng + 70
      in do {
        (buf, p) \<leftarrow> digit_loop sz base upcase u 0 buf;
        (buf, p) \<leftarrow> (if neg_flag then do { buf \<leftarrow> bput sz p (ch CHR ''-'') buf; Some (buf, p + 1) } else Some (buf, p));
        let actualLength = p;
        let leng = (if leng < actualLength then actualLength else leng);
        let padc = (if ladjust then ch CHR '' '' else padc);
        buf \<leftarrow> (if neg_flag \<and> \<not> ladjust \<and> padc = ch CHR ''0'' then do {
                   buf \<leftarrow> fill_loop sz padc (actualLength - 1) (leng - 1) buf;
                   bput sz (leng - 1) (ch CHR ''-'') buf }
                 else fill_loop sz padc actualLength leng buf);
        let fin = (if ladjust then actualLength - 1 else leng - 1);
        buf \<leftarrow> reverse_loop sz 0 fin buf;
        out (map buf [0..<leng]) d })"

section \<open>Formatting\<close>

definition va_arg :: "u32 list \<Rightarrow> (u32 \<times> u32 list) option" where
  "va_arg ap = (case ap of [] \<Rightarrow> None | a # ap \<Rightarrow> Some (a, ap))"

text \<open>\<^verbatim>\<open>*fmt\<close> and \<^verbatim>\<open>if (*fmt == c) ..., fmt++\<close>.\<close>

fun deref :: "u8 list \<Rightarrow> u8" where
  "deref [] = 0"
| "deref (c # _) = c"

definition flag :: "char \<Rightarrow> u8 list \<Rightarrow> bool \<times> u8 list" where
  "flag c fmt = (if deref fmt = ch c then (True, tl fmt) else (False, fmt))"

fun scan_text :: "u8 list \<Rightarrow> u8 list \<times> u8 list" where
  "scan_text [] = ([], [])"
| "scan_text (c # fmt) = (if c \<noteq> ch CHR ''%'' then (let (s, r) = scan_text fmt in (c # s, r)) else ([], c # fmt))"

fun scan_width :: "nat \<Rightarrow> u8 list \<Rightarrow> nat \<times> u8 list" where
  "scan_width width [] = (width, [])"
| "scan_width width (c # fmt) =
     (if c \<ge> ch CHR ''0'' \<and> c \<le> ch CHR ''9'' then scan_width (width * 2 + width * 8 + unat (c AND 15)) fmt
      else (width, c # fmt))"

text \<open>The \<^verbatim>\<open>switch\<close>.  \<^verbatim>\<open>int\<close> and \<^verbatim>\<open>long\<close> have the same sz here, so that \<^verbatim>\<open>long_flag\<close> makes no difference to the argument.\<close>

definition convert :: "'d sink \<Rightarrow> mem \<Rightarrow> (nat \<Rightarrow> u8) \<Rightarrow> u8 \<Rightarrow> nat \<Rightarrow> bool \<Rightarrow> u8 \<Rightarrow> u32 list \<Rightarrow> 'd \<Rightarrow> ('d \<times> u32 list) option" where
  "convert out m buf c width ladjust padc ap d =
     (let number = (\<lambda>base upcase. do {
            (num, ap) \<leftarrow> va_arg ap;
            d \<leftarrow> print_num out buf num base False width ladjust padc upcase d;
            Some (d, ap) })
      in if c = ch CHR ''b'' then number 2 False
      else if c = ch CHR ''d'' \<or> c = ch CHR ''D'' then do {
        (num, ap) \<leftarrow> va_arg ap;
        let (num, neg_flag) = (if sint num < 0 then (- num, True) else (num, False));
        d \<leftarrow> print_num out buf num 10 neg_flag width ladjust padc False d;
        Some (d, ap) }
      else if c = ch CHR ''o'' \<or> c = ch CHR ''O'' then number 8 False
      else if c = ch CHR ''u'' \<or> c = ch CHR ''U'' then number 10 False
      else if c = ch CHR ''x'' then number 16 False
      else if c = ch CHR ''X'' then number 16 True
      else if c = ch CHR ''c'' then do {
        (a, ap) \<leftarrow> va_arg ap;
        d \<leftarrow> print_char out (ucast a) width ladjust d;
        Some (d, ap) }
      else if c = ch CHR ''s'' then do {
        (s, ap) \<leftarrow> va_arg ap;
        d \<leftarrow> print_str out m s width ladjust d;
        Some (d, ap) }
      else do { d \<leftarrow> out [c] d; Some (d, ap) })"

lemma length_scan_text: "(t, r) = scan_text fmt \<Longrightarrow> length r \<le> length fmt"
  by (induction fmt arbitrary: t r rule: scan_text.induct) (auto split: prod.splits if_splits intro: le_SucI)

lemma length_scan_width: "(w', r) = scan_width w fmt \<Longrightarrow> length r \<le> length fmt"
  by (induction w fmt rule: scan_width.induct) (auto split: if_splits)

lemma length_flag: "(b, r) = flag c fmt \<Longrightarrow> length r \<le> length fmt"
  by (auto simp: flag_def split: if_splits)

lemmas length_scans = length_scan_text length_scan_width length_flag

text \<open>\<open>fmt\<close> is the format string without its NUL, so that \<^verbatim>\<open>*fmt\<close> is 0 exactly at its end; a directive that the end cuts off
  (\<^verbatim>\<open>case '\0'\<close>) puts \<open>fmt\<close> back on the NUL.\<close>

function vprintfmt :: "'d sink \<Rightarrow> mem \<Rightarrow> (nat \<Rightarrow> u8) \<Rightarrow> u8 list \<Rightarrow> u32 list \<Rightarrow> 'd \<Rightarrow> 'd option" where
  "vprintfmt out m buf fmt ap d =
     (let (s, fmt) = scan_text fmt
      in do {
        d \<leftarrow> out s d;
        case fmt of
          [] \<Rightarrow> Some d
        | _ # fmt \<Rightarrow>
            if deref fmt = ch CHR ''%'' then do { d \<leftarrow> out [ch CHR ''%''] d; vprintfmt out m buf (tl fmt) ap d }
            else
              (let (ladjust, fmt) = flag CHR ''-'' fmt;
                   (zero, fmt) = flag CHR ''0'' fmt;
                   padc = (if zero then ch CHR ''0'' else ch CHR '' '');
                   (width, fmt) = scan_width 0 fmt;
                   (long_flag, fmt) = flag CHR ''l'' fmt
               in case fmt of
                    [] \<Rightarrow> vprintfmt out m buf [] ap d
                  | c # fmt \<Rightarrow> do {
                      (d, ap) \<leftarrow> convert out m buf c width ladjust padc ap d;
                      vprintfmt out m buf fmt ap d }) })"
  by pat_completeness auto
termination
  by (relation "measure (\<lambda>(out, m, buf, fmt, ap, d). length fmt)") (auto dest!: length_scans)

declare vprintfmt.simps [simp del]

section \<open>What a number should look like\<close>

text \<open>The digits of \<open>n\<close>, most significant first, and the value they stand for.\<close>

fun digits :: "nat \<Rightarrow> bool \<Rightarrow> nat \<Rightarrow> u8 list" where
  "digits base upcase n =
     (if base < 2 \<or> n < base then [digit_char upcase (of_nat n)]
      else digits base upcase (n div base) @ [digit_char upcase (of_nat (n mod base))])"

declare digits.simps [simp del]

definition digit_val :: "u8 \<Rightarrow> nat" where
  "digit_val c = (if c \<le> ch CHR ''9'' then unat c - 48 else if c \<le> ch CHR ''Z'' then unat c - 55 else unat c - 87)"

definition value_of :: "nat \<Rightarrow> u8 list \<Rightarrow> nat" where
  "value_of base ds = foldl (\<lambda>a c. a * base + digit_val c) 0 ds"

text \<open>A field of at least \<open>w\<close> characters: the sign goes before zeros but after blanks.\<close>

definition num_field :: "nat \<Rightarrow> nat \<Rightarrow> bool \<Rightarrow> nat \<Rightarrow> bool \<Rightarrow> u8 \<Rightarrow> bool \<Rightarrow> u8 list" where
  "num_field n base neg w ladjust padc upcase =
     (let ds = digits base upcase n; s = (if neg then ch CHR ''-'' # ds else ds); gap = w - length s
      in if ladjust then s @ replicate gap (ch CHR '' '')
         else if neg \<and> padc = ch CHR ''0'' then ch CHR ''-'' # replicate gap padc @ ds
         else replicate gap padc @ s)"

lemma ch_eq: "ch CHR ''0'' = 48" "ch CHR ''9'' = 57" "ch CHR ''A'' = 65" "ch CHR ''a'' = 97" "ch CHR ''Z'' = 90" "ch CHR ''-'' = 45"
  "ch CHR '' '' = 32" "ch CHR ''%'' = 37" "ch CHR ''l'' = 108"
  by (simp_all add: ch_def)

lemma digit_val_char: assumes "n < 16" shows "digit_val (digit_char up (of_nat n)) = n"
proof -
  have "n = 0 \<or> n = 1 \<or> n = 2 \<or> n = 3 \<or> n = 4 \<or> n = 5 \<or> n = 6 \<or> n = 7 \<or> n = 8 \<or> n = 9 \<or> n = 10 \<or> n = 11 \<or> n = 12 \<or> n = 13 \<or> n = 14 \<or> n = 15"
    using assms by presburger
  then show ?thesis by (elim disjE; simp add: digit_val_def digit_char_def ch_eq)
qed

lemma value_digits:
  assumes "2 \<le> base" "base \<le> 16"
  shows "value_of base (digits base up n) = n"
  using assms
proof (induction base up n rule: digits.induct)
  case (1 base up n)
  show ?case
  proof (cases "n < base")
    case True
    then show ?thesis using 1 by (simp add: digits.simps [of base up n] value_of_def digit_val_char)
  next
    case False
    have "n mod base < 16" using 1 by (meson mod_less_divisor less_le_trans zero_less_numeral)
    then show ?thesis using 1 False
      by (simp add: digits.simps [of base up n] value_of_def digit_val_char not_less)
  qed
qed

section \<open>\<^verbatim>\<open>print_num\<close> prints it\<close>

lemma digit_loop_ok:
  assumes "2 \<le> unat base" "p + length (digits (unat base) up (unat u)) \<le> sz"
  shows "\<exists>buf'. digit_loop sz base up u p buf = Some (buf', p + length (digits (unat base) up (unat u))) \<and>
    map buf' [0..<p] = map buf [0..<p] \<and> map buf' [p..<p + length (digits (unat base) up (unat u))] = rev (digits (unat base) up (unat u))"
  using assms
proof (induction sz base up u p buf rule: digit_loop.induct)
  case (1 sz base up u p buf)
  let ?N = "digits (unat base) up"
  have b: "\<not> base < 2" using 1(2) by (simp add: word_less_nat_alt)
  have m: "(of_nat (unat u mod unat base) :: u32) = u mod base" by (simp flip: unat_mod_distrib)
  show ?case
  proof (cases "u div base = 0")
    case True
    then have l: "unat u < unat base" using 1(2) by (metis div_eq_0_iff not_numeral_le_zero unat_0 unat_div_distrib)
    then have "u mod base = u" using m by simp
    then have "?N (unat u) = [digit_char up u]" using l by (simp add: digits.simps)
    then show ?thesis using 1(3) b True \<open>u mod base = u\<close> by (auto simp: digit_loop.simps [of sz base] bput_def)
  next
    case False
    then have l: "\<not> unat u < unat base" by (metis div_less unat_div_distrib unat_eq_zero)
    then have N: "?N (unat u) = ?N (unat (u div base)) @ [digit_char up (u mod base)]"
      using 1(2) m by (simp add: digits.simps [of _ _ "unat u"] unat_div_distrib)
    let ?buf = "buf(p := digit_char up (u mod base))" and ?n = "length (?N (unat (u div base)))"
    have "p < sz" using 1(3) N by simp
    then have put: "bput sz p (digit_char up (u mod base)) buf = Some ?buf" by (simp add: bput_def)
    have "p + 1 + ?n \<le> sz" using 1(3) N by simp
    from 1(1) [OF b put False 1(2) this] obtain buf' where
      i: "digit_loop sz base up (u div base) (p + 1) ?buf = Some (buf', p + 1 + ?n)" "map buf' [0..<p + 1] = map ?buf [0..<p + 1]"
        "map buf' [p + 1..<p + 1 + ?n] = rev (?N (unat (u div base)))" by blast
    have "digit_loop sz base up u p buf = Some (buf', p + length (?N (unat u)))"
      using b put False i(1) N by (simp add: digit_loop.simps [of sz base up u])
    moreover have "buf' p = digit_char up (u mod base)" "map buf' [0..<p] = map buf [0..<p]" using i(2) by auto
    moreover have "[p..<p + length (?N (unat u))] = p # [p + 1..<p + 1 + ?n]" using N upt_conv_Cons [of p "p + 1 + ?n"] by (simp del: upt_Suc)
    ultimately show ?thesis using i(3) N by (intro exI [of _ buf']) (simp del: upt_Suc)
  qed
qed

lemma fill_loop_ok:
  "n \<le> sz \<Longrightarrow> fill_loop sz c i n buf = Some (\<lambda>k. if i \<le> k \<and> k < n then c else buf k)"
proof (induction sz c i n buf rule: fill_loop.induct)
  case (1 sz c i n buf)
  show ?case
  proof (cases "i < n")
    case True
    have p: "bput sz i c buf = Some (buf(i := c))" using 1(2) True by (simp add: bput_def)
    have "fill_loop sz c (i + 1) n (buf(i := c)) = Some (\<lambda>k. if i + 1 \<le> k \<and> k < n then c else (buf(i := c)) k)"
      by (rule 1(1) [OF True p 1(2)])
    also have "\<dots> = Some (\<lambda>k. if i \<le> k \<and> k < n then c else buf k)" using True by (auto simp: fun_eq_iff)
    finally show ?thesis using True p by (simp add: fill_loop.simps [of sz c i n buf])
  next
    case False
    then show ?thesis by (auto simp: fill_loop.simps [of sz c i n buf] fun_eq_iff)
  qed
qed

lemma reverse_loop_ok:
  "fin < sz \<Longrightarrow> reverse_loop sz bgn fin buf = Some (\<lambda>k. if bgn \<le> k \<and> k \<le> fin then buf (bgn + fin - k) else buf k)"
proof (induction sz bgn fin buf rule: reverse_loop.induct)
  case (1 sz bgn fin buf)
  show ?case
  proof (cases "fin > bgn")
    case True
    let ?buf = "(buf(bgn := buf fin))(fin := buf bgn)"
    have p: "bput sz bgn (buf fin) buf = Some (buf(bgn := buf fin))" "bput sz fin (buf bgn) (buf(bgn := buf fin)) = Some ?buf"
      using 1(2) True by (simp_all add: bput_def)
    have "reverse_loop sz bgn fin buf = reverse_loop sz (bgn + 1) (fin - 1) ?buf"
      using True p by (simp add: reverse_loop.simps [of sz bgn fin] Let_def)
    also have "\<dots> = Some (\<lambda>k. if bgn + 1 \<le> k \<and> k \<le> fin - 1 then ?buf (bgn + 1 + (fin - 1) - k) else ?buf k)"
      by (rule 1(1) [OF True refl p]) (use 1(2) in simp)
    also have "\<dots> = Some (\<lambda>k. if bgn \<le> k \<and> k \<le> fin then buf (bgn + fin - k) else buf k)"
      using True by (auto simp: fun_eq_iff)
    finally show ?thesis .
  next
    case False
    then have "bgn + fin - k = k" if "bgn \<le> k" "k \<le> fin" for k using that by simp
    with False show ?thesis by (simp add: reverse_loop.simps [of sz bgn fin] fun_eq_iff)
  qed
qed

lemma map_rev_upt: "map (\<lambda>k. f (n - 1 - k)) [0..<n] = rev (map f [0..<n])"
  by (rule nth_equalityI) (simp_all add: rev_nth)

lemma digits_ne: "digits base up n \<noteq> []"
  by (subst digits.simps) simp

lemma length_digits: "2 \<le> base \<Longrightarrow> n < 2 ^ k \<Longrightarrow> 0 < k \<Longrightarrow> length (digits base up n) \<le> k"
proof (induction k arbitrary: n)
  case (Suc k)
  show ?case
  proof (cases "n < base")
    case False
    have "n div base \<le> n div 2" using Suc.prems(1) by (rule div_le_mono2 [rotated]) simp
    then have "n div base < 2 ^ k" using Suc.prems(2) by simp
    moreover have "0 < k" using False Suc.prems by (cases k) auto
    ultimately have "length (digits base up (n div base)) \<le> k" using Suc.IH Suc.prems(1) by blast
    then show ?thesis using False by (subst digits.simps) simp
  qed (subst digits.simps, simp)
qed simp

lemma map_fill: "a \<le> b \<Longrightarrow> map (\<lambda>k. if a \<le> k \<and> k < b then c else f k) [0..<b] = map f [0..<a] @ replicate (b - a) c"
  by (rule nth_equalityI) (auto simp: nth_append)

lemma reversed_upto:
  assumes "0 < n" "n \<le> b"
  shows "map (\<lambda>k. if 0 \<le> k \<and> k \<le> n - 1 then f (0 + (n - 1) - k) else f k) [0..<b] = rev (map f [0..<n]) @ map f [n..<b]"
  by (rule nth_equalityI) (use assms in \<open>auto simp: nth_append rev_nth\<close>)

lemma map_upd_above: "n \<le> k \<Longrightarrow> map (f(k := v)) [0..<n] = map f [0..<n]"
  by simp

text \<open>From the characters of the number in reverse order to the padded field.\<close>

lemma pad_reverse:
  assumes s: "map buf [0..<length s] = rev s" "s \<noteq> []" and sz: "max w (length s) \<le> sz"
  shows "\<exists>b1 b2. fill_loop sz c (length s) (max w (length s)) buf = Some b1 \<and>
      reverse_loop sz 0 (length s - 1) b1 = Some b2 \<and> map b2 [0..<max w (length s)] = s @ replicate (w - length s) c"
    and "\<exists>b1 b2. fill_loop sz c (length s) (max w (length s)) buf = Some b1 \<and>
      reverse_loop sz 0 (max w (length s) - 1) b1 = Some b2 \<and> map b2 [0..<max w (length s)] = replicate (w - length s) c @ s"
proof -
  let ?n = "length s" and ?w = "max w (length s)"
  define b1 where "b1 = (\<lambda>k. if ?n \<le> k \<and> k < ?w then c else buf k)"
  have f: "fill_loop sz c ?n ?w buf = Some b1" using sz by (simp add: fill_loop_ok b1_def)
  have n: "0 < ?n" "0 < ?w" "?n - 1 < sz" "?w - 1 < sz" "?n \<le> ?w"
  proof -
    show a: "0 < ?n" using s(2) by simp
    then show "0 < ?w" "?n - 1 < sz" "?w - 1 < sz" "?n \<le> ?w" using sz by linarith+
  qed
  have m: "map b1 [0..<?w] = rev s @ replicate (w - ?n) c"
    unfolding b1_def map_fill [OF n(5)] s(1) by (simp add: max_def)
  have "map b1 [0..<?w] = map b1 [0..<?n] @ map b1 [?n..<?w]" using n(5) by (metis le_add_diff_inverse map_append upt_add_eq_append zero_le)
  moreover have "length (map b1 [0..<?n]) = length (rev s)" by simp
  ultimately have m2: "map b1 [0..<?n] = rev s" "map b1 [?n..<?w] = replicate (w - ?n) c" using m append_eq_append_conv by metis+
  show "\<exists>b1 b2. fill_loop sz c ?n ?w buf = Some b1 \<and> reverse_loop sz 0 (?n - 1) b1 = Some b2 \<and> map b2 [0..<?w] = s @ replicate (w - ?n) c"
    using f reverse_loop_ok [OF n(3), of 0 b1] reversed_upto [OF n(1,5), of b1] m2 by auto
  show "\<exists>b1 b2. fill_loop sz c ?n ?w buf = Some b1 \<and> reverse_loop sz 0 (?w - 1) b1 = Some b2 \<and> map b2 [0..<?w] = replicate (w - ?n) c @ s"
    using f reverse_loop_ok [OF n(4), of 0 b1] reversed_upto [OF n(2) order_refl, of b1] m by auto
qed

text \<open>The branch that puts zeros between the sign and the number: the sign written after the digits is overwritten.\<close>

lemma pad_reverse_sign:
  assumes ds: "map buf [0..<length ds] = rev ds" "ds \<noteq> []" and sz: "max w (length ds + 1) \<le> sz"
  shows "\<exists>b1 b2 b3. fill_loop sz c (length ds) (max w (length ds + 1) - 1) buf = Some b1 \<and>
      bput sz (max w (length ds + 1) - 1) m b1 = Some b2 \<and> reverse_loop sz 0 (max w (length ds + 1) - 1) b2 = Some b3 \<and>
      map b3 [0..<max w (length ds + 1)] = m # replicate (w - (length ds + 1)) c @ ds"
proof -
  define v where "v = max w (length ds + 1) - 1"
  let ?n = "length ds" and ?v = v
  define b1 where "b1 = (\<lambda>k. if ?n \<le> k \<and> k < ?v then c else buf k)"
  have n: "?n \<le> ?v" "?v < sz" "?v \<le> sz" "max w (length ds + 1) = ?v + 1" using sz unfolding v_def by linarith+
  have f: "fill_loop sz c ?n ?v buf = Some b1" using n(3) by (simp add: fill_loop_ok b1_def)
  have p: "bput sz ?v m b1 = Some (b1(?v := m))" using n(2) by (simp add: bput_def)
  have "map b1 [0..<?v] = rev ds @ replicate (?v - ?n) c" unfolding b1_def map_fill [OF n(1)] ds(1) ..
  then have "map (b1(?v := m)) [0..<?v + 1] = rev ds @ replicate (?v - ?n) c @ [m]" by simp
  then have "rev (map (b1(?v := m)) [0..<?v + 1]) = m # replicate (?v - ?n) c @ ds" by simp
  moreover have "?v - ?n = w - (?n + 1)" unfolding v_def by linarith
  moreover note reversed_upto [of "?v + 1" "?v + 1" "b1(?v := m)", OF _ order_refl, unfolded add_diff_cancel_right']
  ultimately have "map (\<lambda>k. if 0 \<le> k \<and> k \<le> v then (b1(v := m)) (0 + v - k) else (b1(v := m)) k) [0..<v + 1]
      = m # replicate (w - (?n + 1)) c @ ds" by (simp del: upt_Suc)
  with f p reverse_loop_ok [OF n(2), of 0 "b1(?v := m)"] show ?thesis unfolding n(4) add_diff_cancel_right' by (intro exI conjI)
qed

lemma print_num_field:
  assumes base: "2 \<le> unat base"
  shows "print_num out buf u base neg w ladjust padc up d = out (num_field (unat u) (unat base) neg w ladjust padc up) d"
proof -
  let ?ds = "digits (unat base) up (unat u)" and ?sz = "w + 70"
  have len: "length ?ds \<le> 32" by (rule length_digits [OF base unat_less_2_32]) simp
  then have "0 + length ?ds \<le> ?sz" by simp
  from digit_loop_ok [OF base this, of buf] obtain b0 where
    b0: "digit_loop ?sz base up u 0 buf = Some (b0, length ?ds)" "map b0 [0..<length ?ds] = rev ?ds" by auto
  have ne: "?ds \<noteq> []" by (rule digits_ne)
  have mx: "(if w < k then k else w) = max w k" for k by (simp add: max_def)
  show ?thesis
  proof (cases neg)
    case False
    have sz: "max w (length ?ds) \<le> ?sz" using len by simp
    obtain b1 b2 where l: "fill_loop ?sz (ch CHR '' '') (length ?ds) (max w (length ?ds)) b0 = Some b1"
      "reverse_loop ?sz 0 (length ?ds - 1) b1 = Some b2" "map b2 [0..<max w (length ?ds)] = ?ds @ replicate (w - length ?ds) (ch CHR '' '')"
      using pad_reverse(1) [OF b0(2) ne sz] by blast
    obtain b3 b4 where r: "fill_loop ?sz padc (length ?ds) (max w (length ?ds)) b0 = Some b3"
      "reverse_loop ?sz 0 (max w (length ?ds) - 1) b3 = Some b4" "map b4 [0..<max w (length ?ds)] = replicate (w - length ?ds) padc @ ?ds"
      using pad_reverse(2) [OF b0(2) ne sz] by blast
    show ?thesis using False b0(1) l r by (cases ladjust) (simp_all add: print_num_def Let_def mx num_field_def)
  next
    case True
    let ?b = "b0(length ?ds := ch CHR ''-'')" and ?s = "ch CHR ''-'' # ?ds"
    have sz: "max w (length ?s) \<le> ?sz" "max w (length ?ds + 1) \<le> ?sz" using len by simp_all
    have put: "bput ?sz (length ?ds) (ch CHR ''-'') b0 = Some ?b" using len by (simp add: bput_def)
    have b: "map ?b [0..<length ?s] = rev ?s" "map ?b [0..<length ?ds] = rev ?ds" using b0(2) by simp_all
    have Suc: "length ?s = length ?ds + 1" by simp
    obtain b1 b2 where l: "fill_loop ?sz (ch CHR '' '') (length ?ds + 1) (max w (length ?ds + 1)) ?b = Some b1"
      "reverse_loop ?sz 0 (length ?ds) b1 = Some b2" "map b2 [0..<max w (length ?ds + 1)] = ?s @ replicate (w - (length ?ds + 1)) (ch CHR '' '')"
      using pad_reverse(1) [OF b(1) list.distinct(2) sz(1), unfolded Suc add_diff_cancel_right'] by blast
    obtain b3 b4 where r: "fill_loop ?sz padc (length ?ds + 1) (max w (length ?ds + 1)) ?b = Some b3"
      "reverse_loop ?sz 0 (max w (length ?ds + 1) - 1) b3 = Some b4"
      "map b4 [0..<max w (length ?ds + 1)] = replicate (w - (length ?ds + 1)) padc @ ?s"
      using pad_reverse(2) [OF b(1) list.distinct(2) sz(1), unfolded Suc] by blast
    obtain b5 b6 b7 where z: "fill_loop ?sz padc (length ?ds) (max w (length ?ds + 1) - 1) ?b = Some b5"
      "bput ?sz (max w (length ?ds + 1) - 1) (ch CHR ''-'') b5 = Some b6" "reverse_loop ?sz 0 (max w (length ?ds + 1) - 1) b6 = Some b7"
      "map b7 [0..<max w (length ?ds + 1)] = ch CHR ''-'' # replicate (w - (length ?ds + 1)) padc @ ?ds"
      using pad_reverse_sign [OF b(2) ne sz(2), of padc "ch CHR ''-''"] by (elim exE conjE) (rule that)
    note e = print_num_def Let_def mx num_field_def
    consider "ladjust" | "\<not> ladjust" "padc = ch CHR ''0''" | "\<not> ladjust" "padc \<noteq> ch CHR ''0''" by blast
    then show ?thesis
    proof cases
      case 1
      then show ?thesis using True b0(1) put l by (simp add: e)
    next
      case 2
      then show ?thesis using True b0(1) put z by (simp add: e)
    next
      case 3
      then show ?thesis using True b0(1) put r by (simp add: e)
    qed
  qed
qed

section \<open>The language of format strings\<close>

datatype token = Text "u8 list" | Percent | Field bool bool nat bool u8

definition conversions :: "u8 set" where
  "conversions = ch ` {CHR ''b'', CHR ''d'', CHR ''D'', CHR ''o'', CHR ''O'', CHR ''u'', CHR ''U'', CHR ''x'', CHR ''X'', CHR ''c'', CHR ''s''}"

fun wf_token :: "token \<Rightarrow> bool" where
  "wf_token (Text t) \<longleftrightarrow> ch CHR ''%'' \<notin> set t"
| "wf_token Percent \<longleftrightarrow> True"
| "wf_token (Field ladjust zero w long c) \<longleftrightarrow> c \<in> conversions"

fun unparse :: "token \<Rightarrow> u8 list" where
  "unparse (Text t) = t"
| "unparse Percent = [ch CHR ''%'', ch CHR ''%'']"
| "unparse (Field ladjust zero w long c) = ch CHR ''%'' # (if ladjust then [ch CHR ''-''] else []) @ (if zero then [ch CHR ''0''] else [])
     @ (if w = 0 then [] else digits 10 False w) @ (if long then [ch CHR ''l''] else []) @ [c]"

definition pad :: "bool \<Rightarrow> nat \<Rightarrow> u8 list \<Rightarrow> u8 list" where
  "pad ladjust w s = (let gap = replicate (w - length s) (ch CHR '' '') in if ladjust then s @ gap else gap @ s)"

definition field :: "mem \<Rightarrow> bool \<Rightarrow> bool \<Rightarrow> nat \<Rightarrow> u8 \<Rightarrow> u32 \<Rightarrow> u8 list option" where
  "field m ladjust zero w c a =
     (let padc = (if zero then ch CHR ''0'' else ch CHR '' '')
      in if c = ch CHR ''c'' then Some (pad ladjust w [ucast a])
      else if c = ch CHR ''s'' then do { n \<leftarrow> strlen m a; Some (pad ladjust w (loads m a (unat n))) }
      else if c = ch CHR ''d'' \<or> c = ch CHR ''D'' then Some (num_field (nat \<bar>sint a\<bar>) 10 (sint a < 0) w ladjust padc False)
      else if c = ch CHR ''b'' then Some (num_field (unat a) 2 False w ladjust padc False)
      else if c = ch CHR ''o'' \<or> c = ch CHR ''O'' then Some (num_field (unat a) 8 False w ladjust padc False)
      else if c = ch CHR ''u'' \<or> c = ch CHR ''U'' then Some (num_field (unat a) 10 False w ladjust padc False)
      else Some (num_field (unat a) 16 False w ladjust padc (c = ch CHR ''X'')))"

fun render :: "mem \<Rightarrow> token list \<Rightarrow> u32 list \<Rightarrow> u8 list option" where
  "render m [] ap = Some []"
| "render m (Text t # ts) ap = do { bs \<leftarrow> render m ts ap; Some (t @ bs) }"
| "render m (Percent # ts) ap = do { bs \<leftarrow> render m ts ap; Some (ch CHR ''%'' # bs) }"
| "render m (Field ladjust zero w long c # ts) ap = do {
     (a, ap) \<leftarrow> va_arg ap;
     f \<leftarrow> field m ladjust zero w c a;
     bs \<leftarrow> render m ts ap;
     Some (f @ bs) }"

lemma digit_is_digit: "n < 10 \<Longrightarrow> ch CHR ''0'' \<le> digit_char up (of_nat n) \<and> digit_char up (of_nat n) \<le> ch CHR ''9'' \<and> unat (digit_char up (of_nat n) AND 15) = n"
proof -
  assume "n < 10"
  then have "n = 0 \<or> n = 1 \<or> n = 2 \<or> n = 3 \<or> n = 4 \<or> n = 5 \<or> n = 6 \<or> n = 7 \<or> n = 8 \<or> n = 9" by presburger
  then show ?thesis by (elim disjE; simp add: digit_char_def ch_eq)
qed

lemma scan_width_digits: "scan_width 0 (digits 10 up n @ r) = scan_width n r"
proof (induction "10 :: nat" up n arbitrary: r rule: digits.induct)
  case (1 up n)
  show ?case
  proof (cases "n < 10")
    case True
    then show ?thesis using digit_is_digit [OF True, of up] by (subst digits.simps) simp
  next
    case False
    have d: "n mod 10 < 10" by simp
    have "digits 10 up n = digits 10 up (n div 10) @ [digit_char up (of_nat (n mod 10))]" using False by (subst digits.simps) simp
    then show ?thesis using 1 False digit_is_digit [OF d, of up] by (simp add: ac_simps)
  qed
qed

lemma hd_digits: "0 < n \<Longrightarrow> \<exists>x r. digits 10 up n = x # r \<and> ch CHR ''0'' < x \<and> x \<le> ch CHR ''9''"
proof (induction "10 :: nat" up n rule: digits.induct)
  case (1 up n)
  show ?case
  proof (cases "n < 10")
    case True
    then have "n = 1 \<or> n = 2 \<or> n = 3 \<or> n = 4 \<or> n = 5 \<or> n = 6 \<or> n = 7 \<or> n = 8 \<or> n = 9" using 1(2) by presburger
    then have "ch CHR ''0'' < digit_char up (of_nat n) \<and> digit_char up (of_nat n) \<le> ch CHR ''9''"
      by (elim disjE; simp add: digit_char_def ch_eq)
    then show ?thesis using True by (subst digits.simps) simp
  next
    case False
    then obtain x r where "digits 10 up (n div 10) = x # r" "ch CHR ''0'' < x" "x \<le> ch CHR ''9''"
      using 1(1) False div_greater_zero_iff [of n 10] by fastforce
    then show ?thesis using False by (subst digits.simps) simp
  qed
qed

lemma scan_text_percent: "ch CHR ''%'' \<notin> set t \<Longrightarrow> scan_text (t @ ch CHR ''%'' # r) = (t, ch CHR ''%'' # r)"
  by (induction t) auto

lemma scan_text_all: "ch CHR ''%'' \<notin> set t \<Longrightarrow> scan_text t = (t, [])"
  by (induction t) auto

lemma conv_not_special:
  assumes "c \<in> conversions"
  shows "c \<noteq> ch CHR ''%''" "c \<noteq> ch CHR ''-''" "c \<noteq> ch CHR ''0''" "c \<noteq> ch CHR ''l''" "\<not> c \<le> ch CHR ''9''"
  using assms by (auto simp: conversions_def ch_def)

lemma uint_of_sint: "uint (word_of_int k :: u32) = k" if "0 \<le> k" "k < 2 ^ 32"
proof -
  have "uint (word_of_int k :: u32) = k mod 2 ^ 32" by (simp only: uint_word_of_int) simp
  with that show ?thesis by simp
qed

lemma unat_abs: "unat (if sint a < 0 then - a else (a :: u32)) = nat \<bar>sint a\<bar>"
proof -
  have r: "- (2 ^ 31) \<le> sint a" "sint a < 2 ^ 31" using sint_ge [of a] sint_lt [of a] by simp_all
  have "- a = word_of_int (- sint a)" "a = word_of_int (sint a)" by simp_all
  then have "uint (if sint a < 0 then - a else a) = uint (word_of_int \<bar>sint a\<bar> :: u32)" by (auto simp: abs_if)
  also have "\<dots> = \<bar>sint a\<bar>" using r by (intro uint_of_sint) auto
  finally show ?thesis by (simp add: unat_eq_nat_uint)
qed

section \<open>The contract of a callback\<close>

locale sink =
  fixes out :: "u8 list \<Rightarrow> 'd \<Rightarrow> 'd option" and inv :: "'d \<Rightarrow> bool" and sent :: "'d \<Rightarrow> u8 list" and fits :: "u8 list \<Rightarrow> bool"
  assumes out_ok: "inv d \<Longrightarrow> fits (sent d @ bs) \<Longrightarrow> \<exists>d'. out bs d = Some d' \<and> inv d' \<and> sent d' = sent d @ bs"
    and fits_prefix: "fits (xs @ ys) \<Longrightarrow> fits xs"
begin

text \<open>\<open>fits\<close> limits the text that a callback can take; \<open>sends r d bs\<close>: the call with result \<open>r\<close> appends \<open>bs\<close> to what \<open>d\<close> has sent, if it fits.\<close>

definition sends :: "'d option \<Rightarrow> 'd \<Rightarrow> u8 list \<Rightarrow> bool" where
  "sends r d bs \<longleftrightarrow> (fits (sent d @ bs) \<longrightarrow> (\<exists>d'. r = Some d' \<and> inv d' \<and> sent d' = sent d @ bs))"

lemma sends_out: "inv d \<Longrightarrow> sends (out bs d) d bs"
  using out_ok by (simp add: sends_def)

lemma sends_bind: "sends r d bs \<Longrightarrow> (\<And>d'. r = Some d' \<Longrightarrow> inv d' \<Longrightarrow> sends (f d') d' cs) \<Longrightarrow> sends (r \<bind> f) d (bs @ cs)"
  using fits_prefix [of "sent d @ bs" cs] by (auto simp: sends_def)

lemma sends_times: "inv d \<Longrightarrow> sends (out_times out [c] n d) d (replicate n c)"
proof (induction n arbitrary: d)
  case (Suc n)
  then have "sends (out [c] d \<bind> out_times out [c] n) d ([c] @ replicate n c)" by (intro sends_bind sends_out)
  then show ?case by simp
qed (simp add: sends_def)

lemma sends_print_char: assumes "inv d" shows "sends (print_char out c w ladjust d) d (pad ladjust w [c])"
proof -
  have "(if w < 1 then 1 else w) - 1 = w - 1" by simp
  then show ?thesis using assms sends_bind [OF sends_out [of d "[c]"] sends_times] sends_bind [OF sends_times [of d] sends_out]
    by (simp only: print_char_def pad_def Let_def) simp
qed

lemma sends_print_str:
  assumes "inv d" "strlen m s = Some n"
  shows "sends (print_str out m s w ladjust d) d (pad ladjust w (loads m s (unat n)))"
proof -
  have "(if w < unat n then unat n else w) - unat n = w - unat n" "length (loads m s (unat n)) = unat n" by (simp_all add: loads_def)
  then show ?thesis using assms sends_bind [OF sends_out [of d "loads m s (unat n)"] sends_times] sends_bind [OF sends_times [of d] sends_out]
    by (simp add: print_str_def strlen_def pad_def Let_def)
qed

lemma sends_convert:
  assumes c: "c \<in> conversions" and d: "inv d" and a: "va_arg ap = Some (a, ap')" and f: "field m ladjust zero w c a = Some f"
    and ft: "fits (sent d @ f)"
  shows "\<exists>d'. convert out m buf c w ladjust (if zero then ch CHR ''0'' else ch CHR '' '') ap d = Some (d', ap') \<and> inv d' \<and> sent d' = sent d @ f"
proof -
  let ?p = "if zero then ch CHR ''0'' else ch CHR '' ''"
  have num: "print_num out buf u base neg w ladjust ?p up d = out (num_field (unat u) (unat base) neg w ladjust ?p up) d"
    if "2 \<le> unat base" for u base neg up by (rule print_num_field [OF that])
  have b: "2 \<le> unat (2 :: u32)" "2 \<le> unat (8 :: u32)" "2 \<le> unat (10 :: u32)" "2 \<le> unat (16 :: u32)" by simp_all
  note n = num [OF b(1)] num [OF b(2)] num [OF b(3)] num [OF b(4)]
  have o: "\<exists>d'. out bs d = Some d' \<and> inv d' \<and> sent d' = sent d @ bs" if "bs = f" for bs using out_ok [OF d] ft that by simp
  consider "c = ch CHR ''c''" | "c = ch CHR ''s''" | "c = ch CHR ''d'' \<or> c = ch CHR ''D''" | "c = ch CHR ''b''"
    | "c = ch CHR ''o'' \<or> c = ch CHR ''O''" | "c = ch CHR ''u'' \<or> c = ch CHR ''U''" | "c = ch CHR ''x''" | "c = ch CHR ''X''"
    using c unfolding conversions_def by blast
  then show ?thesis
  proof cases
    case 1
    then show ?thesis using sends_print_char [OF d, of "ucast a" w ladjust] a f ft
      by (auto simp: convert_def field_def ch_def sends_def)
  next
    case 2
    then obtain n where "strlen m a = Some n" using f by (auto simp: field_def ch_def split: bind_splits)
    then show ?thesis using 2 sends_print_str [OF d, of m a n w ladjust] a f ft
      by (auto simp: convert_def field_def ch_def sends_def)
  next
    case 3
    have "(if sint a < 0 then (- a, True) else (a, False)) = (if sint a < 0 then - a else a, sint a < 0)" by simp
    then show ?thesis using 3 a f o [of f] unat_abs [of a] by (auto simp: convert_def field_def ch_def n)
  next
    case 4
    then show ?thesis using a f o [of f] by (auto simp: convert_def field_def ch_def n)
  next
    case 5
    then show ?thesis using a f o [of f] by (auto simp: convert_def field_def ch_def n)
  next
    case 6
    then show ?thesis using a f o [of f] by (auto simp: convert_def field_def ch_def n)
  next
    case 7
    then show ?thesis using a f o [of f] by (auto simp: convert_def field_def ch_def n)
  next
    case 8
    then show ?thesis using a f o [of f] by (auto simp: convert_def field_def ch_def n)
  qed
qed
end

lemma flag_False: "deref fmt \<noteq> ch c \<Longrightarrow> flag c fmt = (False, fmt)"
  by (simp add: flag_def)

lemma flag_opt: "deref fmt \<noteq> ch c \<Longrightarrow> flag c ((if b then [ch c] else []) @ fmt) = (b, fmt)"
  by (simp add: flag_def)

lemma deref_opt: "deref ((if b then [x] else []) @ fmt) = (if b then x else deref fmt)"
  by simp

text \<open>Scanning a directive gives back its parts.\<close>

lemma scan_field:
  fixes long ladjust zero :: bool and w :: nat and r :: "u8 list"
  assumes c: "c \<in> conversions"
  defines "f4 \<equiv> (if long then [ch CHR ''l''] else []) @ c # r"
  defines "f3 \<equiv> (if w = 0 then [] else digits 10 False w) @ f4"
  defines "f2 \<equiv> (if zero then [ch CHR ''0''] else []) @ f3"
  shows "deref ((if ladjust then [ch CHR ''-''] else []) @ f2) \<noteq> ch CHR ''%''"
    "flag CHR ''-'' ((if ladjust then [ch CHR ''-''] else []) @ f2) = (ladjust, f2)"
    "flag CHR ''0'' f2 = (zero, f3)" "scan_width 0 f3 = (w, f4)" "flag CHR ''l'' f4 = (long, c # r)"
proof -
  note n = conv_not_special [OF c]
  have d4: "\<not> deref f4 \<le> ch CHR ''9''" "deref f4 \<noteq> ch CHR ''%''" "deref f4 \<noteq> ch CHR ''-''" "deref f4 \<noteq> ch CHR ''0''"
    using n by (auto simp: f4_def ch_eq)
  have d3: "deref f3 \<noteq> ch CHR ''%'' \<and> deref f3 \<noteq> ch CHR ''-'' \<and> deref f3 \<noteq> ch CHR ''0''"
  proof (cases "w = 0")
    case False
    then obtain x q where "digits 10 False w = x # q" "ch CHR ''0'' < x" "x \<le> ch CHR ''9''" using hd_digits [of w False] by blast
    then show ?thesis using False by (auto simp: f3_def ch_eq)
  qed (use d4 in \<open>simp add: f3_def\<close>)
  have d2: "deref f2 \<noteq> ch CHR ''%''" "deref f2 \<noteq> ch CHR ''-''" using d3 by (auto simp: f2_def ch_eq)
  show "deref ((if ladjust then [ch CHR ''-''] else []) @ f2) \<noteq> ch CHR ''%''" using d2 by (simp add: ch_eq)
  show "flag CHR ''-'' ((if ladjust then [ch CHR ''-''] else []) @ f2) = (ladjust, f2)" by (rule flag_opt [OF d2(2)])
  show "flag CHR ''0'' f2 = (zero, f3)" unfolding f2_def by (rule flag_opt) (use d3 in blast)
  show "flag CHR ''l'' f4 = (long, c # r)" unfolding f4_def by (rule flag_opt) (use n in simp)
  have "scan_width w f4 = (w, f4)" using d4(1) by (cases f4) auto
  then show "scan_width 0 f3 = (w, f4)" by (cases "w = 0") (simp_all add: f3_def scan_width_digits)
qed

context sink
begin

lemma sends_tokens:
  assumes "list_all wf_token ts" "render m ts ap = Some bs" "inv d" "ch CHR ''%'' \<notin> set t"
  shows "sends (vprintfmt out m buf (t @ concat (map unparse ts)) ap d) d (t @ bs)"
  using assms
proof (induction ts arbitrary: t ap bs d)
  case Nil
  then show ?case using sends_out [of d t] by (auto simp: vprintfmt.simps scan_text_all sends_def)
next
  case (Cons k ts)
  show ?case
  proof (cases k)
    case (Text t2)
    then obtain bs2 where b: "bs = t2 @ bs2" "render m ts ap = Some bs2" using Cons.prems(2) by (auto split: bind_splits)
    then show ?thesis using Cons.IH [of ap bs2 d "t @ t2"] Cons.prems Text by simp
  next
    case Percent
    then obtain bs2 where b: "bs = ch CHR ''%'' # bs2" "render m ts ap = Some bs2" using Cons.prems(2) by (auto split: bind_splits)
    have w: "list_all wf_token ts" using Cons.prems(1) by simp
    let ?r = "concat (map unparse ts)"
    have "vprintfmt out m buf (t @ ch CHR ''%'' # ch CHR ''%'' # ?r) ap d
        = out t d \<bind> (\<lambda>d. out [ch CHR ''%''] d \<bind> vprintfmt out m buf ([] @ ?r) ap)"
      using Cons.prems(4) by (subst vprintfmt.simps) (simp add: scan_text_percent)
    moreover have "sends \<dots> d (t @ [ch CHR ''%''] @ [] @ bs2)"
      by (intro sends_bind sends_out Cons.IH w b(2) Cons.prems(3)) simp_all
    ultimately show ?thesis using Percent b(1) by simp
  next
    case (Field ladjust zero w long c)
    then obtain a ap' f bs2 where b: "va_arg ap = Some (a, ap')" "field m ladjust zero w c a = Some f"
      "render m ts ap' = Some bs2" "bs = f @ bs2"
      using Cons.prems(2) by (auto split: bind_splits)
    have c: "c \<in> conversions" and w: "list_all wf_token ts" using Cons.prems(1) Field by simp_all
    let ?r = "concat (map unparse ts)" and ?p = "if zero then ch CHR ''0'' else ch CHR '' ''"
    note s = scan_field [OF c]
    have "vprintfmt out m buf (t @ unparse k @ ?r) ap d
        = out t d \<bind> (\<lambda>d. convert out m buf c w ladjust ?p ap d \<bind> (\<lambda>(d, ap). vprintfmt out m buf ([] @ ?r) ap d))"
      using Cons.prems(4) s Field by (subst vprintfmt.simps) (simp add: scan_text_percent)
    moreover have "sends \<dots> d (t @ f @ [] @ bs2)"
    proof (rule sends_bind [OF sends_out [OF Cons.prems(3)]])
      fix d1 assume "inv d1"
      then have d2: "\<exists>d2. convert out m buf c w ladjust ?p ap d1 = Some (d2, ap') \<and> inv d2 \<and> sent d2 = sent d1 @ f" if "fits (sent d1 @ f)"
        using sends_convert [OF c _ b(1,2) that, of buf] by blast
      have "sends (vprintfmt out m buf ([] @ ?r) ap' d2) d2 ([] @ bs2)" if "inv d2" for d2 by (rule Cons.IH [OF w b(3) that]) simp
      then show "sends (convert out m buf c w ladjust ?p ap d1 \<bind> (\<lambda>(d, ap). vprintfmt out m buf ([] @ ?r) ap d)) d1 (f @ [] @ bs2)"
        using d2 fits_prefix [of "sent d1 @ f" bs2] by (fastforce simp: sends_def)
    qed
    ultimately show ?thesis using b(4) Field by simp
  qed
qed

theorem vprintfmt_tokens:
  assumes "list_all wf_token ts" "render m ts ap = Some bs" "inv d" "fits (sent d @ bs)"
  shows "\<exists>d'. vprintfmt out m buf (concat (map unparse ts)) ap d = Some d' \<and> inv d' \<and> sent d' = sent d @ bs"
  using sends_tokens [OF assms(1-3), of "[]"] assms(4) by (simp add: sends_def)
end

section \<open>\<^verbatim>\<open>printk\<close>\<close>

fun outputk :: "u8 list \<Rightarrow> kstate \<Rightarrow> kstate option" where
  "outputk [] s = Some s"
| "outputk (b # bs) s = outputk bs (s\<lparr>console_out := console_out s @ [b]\<rparr>)"

definition printk :: "mem \<Rightarrow> (nat \<Rightarrow> u8) \<Rightarrow> u8 list \<Rightarrow> u32 list \<Rightarrow> kstate \<Rightarrow> kstate option" where
  "printk m buf fmt ap s = vprintfmt outputk m buf fmt ap s"

lemma outputk_appends: "outputk bs s = Some (s\<lparr>console_out := console_out s @ bs\<rparr>)"
  by (induction bs arbitrary: s) simp_all

interpretation kout: sink outputk "\<lambda>s. s0 = s\<lparr>console_out := console_out s0\<rparr>" console_out "\<lambda>_. True" for s0
  by unfold_locales (simp add: outputk_appends)

section \<open>\<^verbatim>\<open>debugf\<close>\<close>

definition BUF_LEN :: nat where "BUF_LEN = 1024"

text \<open>\<^verbatim>\<open>struct debug_ctx\<close>, with the console that \<^verbatim>\<open>syscall_print_cons\<close> prints on.  That call reads the buffer from the stack of the
  user program, which is a legal address, and then returns 0.\<close>

record debug_ctx =
  dbuf :: "u8 list"
  dpos :: nat
  dcons :: "u8 list"

definition syscall_print_cons :: "u8 list \<Rightarrow> u8 list \<Rightarrow> u32 \<times> u8 list" where
  "syscall_print_cons bs con = (0, con @ bs)"

definition debug_flush :: "debug_ctx \<Rightarrow> debug_ctx option" where
  "debug_flush ctx =
     (if dpos ctx = 0 then Some ctx
      else
        (let (r, con) = syscall_print_cons (take (dpos ctx) (dbuf ctx)) (dcons ctx)
         in if r \<noteq> 0 then None else Some (ctx\<lparr>dcons := con, dpos := 0\<rparr>)))"

text \<open>\<^verbatim>\<open>memcpy(ctx->buf + pos, s, n)\<close>; \<open>None\<close> is a copy past the end of the buffer.\<close>

definition buf_copy :: "nat \<Rightarrow> u8 list \<Rightarrow> debug_ctx \<Rightarrow> debug_ctx option" where
  "buf_copy pos bs ctx =
     (if pos + length bs \<le> BUF_LEN then Some (ctx\<lparr>dbuf := take pos (dbuf ctx) @ bs @ drop (pos + length bs) (dbuf ctx)\<rparr>) else None)"

text \<open>The \<^verbatim>\<open>while\<close> loop fills the buffer and flushes it; after the first round it makes progress because the buffer is empty
  then.  Should \<open>debug_flush\<close> leave a full buffer, the loop would not end: that is \<open>None\<close>.\<close>

function debug_output :: "u8 list \<Rightarrow> debug_ctx \<Rightarrow> debug_ctx option" where
  "debug_output s ctx =
     (if dpos ctx + length s > BUF_LEN then do {
        let n = BUF_LEN - dpos ctx;
        ctx1 \<leftarrow> buf_copy (dpos ctx) (take n s) ctx;
        ctx2 \<leftarrow> debug_flush (ctx1\<lparr>dpos := BUF_LEN\<rparr>);
        if dpos ctx2 \<noteq> 0 then None
        else debug_output (drop n s) ctx2 }
      else do {
        ctx1 \<leftarrow> buf_copy (dpos ctx) s ctx;
        Some (ctx1\<lparr>dpos := dpos ctx + length s\<rparr>) })"
  by pat_completeness auto
termination
proof (relation "measure (\<lambda>(s, ctx). 2 * length s + (if dpos ctx = 0 then 0 else 1))", goal_cases)
  case (2 s ctx n ctx1 ctx2)
  then show ?case by (cases "dpos ctx = 0") (auto simp: BUF_LEN_def)
qed simp

declare debug_output.simps [simp del]

definition vdebugf :: "mem \<Rightarrow> (nat \<Rightarrow> u8) \<Rightarrow> u8 list \<Rightarrow> u32 list \<Rightarrow> debug_ctx \<Rightarrow> debug_ctx option" where
  "vdebugf m buf fmt ap ctx = do { ctx \<leftarrow> vprintfmt debug_output m buf fmt ap (ctx\<lparr>dpos := 0\<rparr>); debug_flush ctx }"

definition dbg_inv :: "debug_ctx \<Rightarrow> bool" where
  "dbg_inv ctx \<longleftrightarrow> length (dbuf ctx) = BUF_LEN \<and> dpos ctx \<le> BUF_LEN"

definition dbg_sent :: "debug_ctx \<Rightarrow> u8 list" where
  "dbg_sent ctx = dcons ctx @ take (dpos ctx) (dbuf ctx)"

lemma debug_flush_ok: "debug_flush ctx = Some (ctx\<lparr>dcons := dbg_sent ctx, dpos := 0\<rparr>)"
  by (simp add: debug_flush_def syscall_print_cons_def dbg_sent_def)

lemma debug_output_ok: "dbg_inv ctx \<Longrightarrow> \<exists>ctx'. debug_output s ctx = Some ctx' \<and> dbg_inv ctx' \<and> dbg_sent ctx' = dbg_sent ctx @ s"
proof (induction s ctx rule: debug_output.induct)
  case (1 s ctx)
  show ?case
  proof (cases "dpos ctx + length s > BUF_LEN")
    case True
    let ?n = "BUF_LEN - dpos ctx"
    let ?ctx1 = "ctx\<lparr>dbuf := take (dpos ctx) (dbuf ctx) @ take ?n s @ drop (dpos ctx + length (take ?n s)) (dbuf ctx)\<rparr>"
    let ?ctx2 = "?ctx1\<lparr>dpos := 0, dcons := dbg_sent (?ctx1\<lparr>dpos := BUF_LEN\<rparr>)\<rparr>"
    have c: "buf_copy (dpos ctx) (take ?n s) ctx = Some ?ctx1" using 1(2) True by (simp add: buf_copy_def dbg_inv_def)
    have f: "debug_flush (?ctx1\<lparr>dpos := BUF_LEN\<rparr>) = Some ?ctx2" by (simp add: debug_flush_ok)
    have i: "dbg_inv ?ctx2" "dbg_sent ?ctx2 = dbg_sent ctx @ take ?n s"
      using 1(2) True by (simp_all add: dbg_inv_def dbg_sent_def)
    have "\<exists>ctx'. debug_output (drop ?n s) ?ctx2 = Some ctx' \<and> dbg_inv ctx' \<and> dbg_sent ctx' = dbg_sent ?ctx2 @ drop ?n s"
      by (rule 1(1) [OF True refl c f _ i(1)]) simp
    then show ?thesis using True c f i(2) by (subst debug_output.simps) (simp add: Let_def)
  next
    case False
    let ?ctx1 = "ctx\<lparr>dbuf := take (dpos ctx) (dbuf ctx) @ s @ drop (dpos ctx + length s) (dbuf ctx)\<rparr>"
    have "buf_copy (dpos ctx) s ctx = Some ?ctx1" using False by (simp add: buf_copy_def)
    then show ?thesis using False 1(2) by (subst debug_output.simps) (simp add: dbg_inv_def dbg_sent_def)
  qed
qed

interpretation dout: sink debug_output dbg_inv dbg_sent "\<lambda>_. True"
  by unfold_locales (simp_all add: debug_output_ok)

section \<open>Properties\<close>

text \<open>\<^verbatim>\<open>print_num\<close> with its reversed buffer is equivalent to the obvious definition of a number field: for each base
  that \<^verbatim>\<open>vprintfmt\<close> uses it ends, never writes outside its local array, and makes exactly one call of the callback, with the sign,
  the padding and the digits of the number; the digits stand for the number, and the field has at least the requested width.\<close>

theorem print_num_correct:
  assumes "base = 2 \<or> base = 8 \<or> base = 10 \<or> base = 16"
  shows "print_num out buf u base neg w ladjust padc up d = out (num_field (unat u) (unat base) neg w ladjust padc up) d \<and>
    value_of (unat base) (digits (unat base) up (unat u)) = unat u \<and>
    w \<le> length (num_field (unat u) (unat base) neg w ladjust padc up)"
proof -
  have b: "2 \<le> unat base" "unat base \<le> 16" using assms by auto
  have "w \<le> length (num_field (unat u) (unat base) neg w ladjust padc up)" unfolding num_field_def Let_def by auto
  then show ?thesis by (intro conjI print_num_field [OF b(1)] value_digits [OF b])
qed

theorem print_num_correct_witness:
  "print_num (\<lambda>bs d. Some (d @ bs)) (\<lambda>_. 0) 255 16 True 6 False (ch CHR ''0'') False [] = Some (map ch ''-000ff'')"
proof -
  have "digits 16 False 255 = [102, 102]" by (simp add: digits.simps digit_char_def ch_eq)
  moreover have "replicate 3 (48 :: u8) = [48, 48, 48]" by (simp add: numeral_3_eq_3)
  moreover have "map ch ''-000ff'' = [45, 48, 48, 48, 102, 102]" by (simp add: ch_def)
  ultimately show ?thesis
    using print_num_correct [of 16 "\<lambda>bs d. Some (d @ bs)" "\<lambda>_. 0" 255 True 6 False "ch CHR ''0''" False "[]"]
    by (simp add: num_field_def ch_eq)
qed

lemma printk_tokens:
  assumes "list_all wf_token ts" "render m ts ap = Some bs"
  shows "printk m buf (concat (map unparse ts)) ap s = Some (s\<lparr>console_out := console_out s @ bs\<rparr>)"
proof -
  have "\<exists>d'. vprintfmt outputk m buf (concat (map unparse ts)) ap s = Some d' \<and> s = d'\<lparr>console_out := console_out s\<rparr> \<and>
      console_out d' = console_out s @ bs"
    by (rule kout.vprintfmt_tokens [OF assms]) simp_all
  then obtain d' where d: "printk m buf (concat (map unparse ts)) ap s = Some d'" "s = d'\<lparr>console_out := console_out s\<rparr>"
    "console_out d' = console_out s @ bs" unfolding printk_def by blast
  have "s\<lparr>console_out := console_out s @ bs\<rparr> = d'\<lparr>console_out := console_out d'\<rparr>" by (subst d(2)) (simp add: d(3))
  with d(1) show ?thesis by simp
qed



definition dec_value :: "u8 list \<Rightarrow> int" where
  "dec_value s = (case s of c # r \<Rightarrow> if c = ch CHR ''-'' then - int (value_of 10 r) else int (value_of 10 s) | [] \<Rightarrow> 0)"

lemma digit_not_sign: "n < 10 \<Longrightarrow> digit_char up (of_nat n) \<noteq> ch CHR ''-''"
  using digit_is_digit [of n up] by (auto simp: ch_eq)

lemma dec_value_digits: "dec_value (digits 10 up n) = int n"
proof -
  have "\<exists>x r. digits 10 up n = x # r \<and> x \<noteq> ch CHR ''-''"
  proof (cases "n = 0")
    case True
    then show ?thesis using digit_not_sign [of 0 up] by (simp add: digits.simps)
  next
    case False
    then show ?thesis using hd_digits [of n up] by (auto simp: ch_eq)
  qed
  then show ?thesis using value_digits [of 10 up n] by (auto simp: dec_value_def)
qed

text \<open>Round trip of numbers through \<^verbatim>\<open>printk("%d")\<close>: what is printed, read as a decimal number with an optional sign,
  is the signed value of the argument, for all \<open>2 ^ 32\<close> words (also the least \<^verbatim>\<open>int\<close>, whose negation wraps around).\<close>

theorem printk_decimal_roundtrip:
  "\<exists>bs. printk m buf [ch CHR ''%'', ch CHR ''d''] [a] s = Some (s\<lparr>console_out := console_out s @ bs\<rparr>) \<and> dec_value bs = sint a"
proof -
  let ?ts = "[Field False False 0 False (ch CHR ''d'')]"
  define bs where "bs = num_field (nat \<bar>sint a\<bar>) 10 (sint a < 0) 0 False (ch CHR '' '') False"
  define ds where "ds = digits 10 False (nat \<bar>sint a\<bar>)"
  have "dec_value ds = \<bar>sint a\<bar>" "value_of 10 ds = nat \<bar>sint a\<bar>"
    unfolding ds_def by (simp_all add: dec_value_digits value_digits)
  moreover have "bs = (if sint a < 0 then ch CHR ''-'' # ds else ds)" by (simp add: bs_def num_field_def Let_def ds_def)
  ultimately have "dec_value bs = sint a" by (simp add: dec_value_def)
  moreover have "list_all wf_token ?ts" "render m ?ts [a] = Some bs"
    by (simp_all add: conversions_def va_arg_def field_def bs_def) (simp add: ch_def)
  from printk_tokens [OF this, of buf s]
  have "printk m buf [ch CHR ''%'', ch CHR ''d''] [a] s = Some (s\<lparr>console_out := console_out s @ bs\<rparr>)" by simp
  ultimately show ?thesis by blast
qed


end
