(* ===== verification/Mos_Fs.thy ===== *)
theory Mos_Fs
  imports Mos_Syscall
begin

text \<open>
  The file-system server: \<^verbatim>\<open>fs/fs.c\<close> and \<^verbatim>\<open>fs/ide.c\<close>, with the layout of \<^verbatim>\<open>user/include/fs.h\<close> and \<^verbatim>\<open>fs/serv.h\<close>.

  The server is a user process.  \<open>fmem\<close> is its memory and \<open>vpt\<close> its view of its own page table (an entry per page number, 0
  where nothing is mapped; \<^verbatim>\<open>vpd\<close> is folded into it).  \<open>avail\<close> says how many more pages the kernel can give.  \<open>sectors\<close> is the
  contents of the disk; \<open>dev_results\<close> are the results of the next calls of \<^verbatim>\<open>syscall_dev_req\<close> and \<open>dev_status\<close> the next values
  that the polling of \<^verbatim>\<open>req->status\<close> reads, so that a busy ring and a slow device are part of every statement.

  \<open>None\<close> is \<^verbatim>\<open>user_panic\<close>, a failed \<^verbatim>\<open>user_assert\<close>, a loop that never ends, or an access of the block cache at a page that is not
  mapped (the kernel would put an empty page there and the code would go on with zeros: no property relies on it).
\<close>

declare split_paired_All [simp del] split_paired_Ex [simp del]

section \<open>Layout\<close>

lemma unat_next_less: "i < n \<Longrightarrow> unat (n - (i + 1 :: u32)) < unat (n - i)"
proof -
  assume "i < n"
  then have "n - i \<noteq> 0" by auto
  moreover have "n - (i + 1) = n - i - 1" by simp
  ultimately show ?thesis by (metis diff_less less_one unat_gt_0 unat_minus_one)
qed

definition BY2BLK :: u32 where "BY2BLK = 4096"
definition BIT2BLK :: u32 where "BIT2BLK = BY2BLK * 8"
definition BY2SECT :: u32 where "BY2SECT = 512"
definition SECT2BLK :: u32 where "SECT2BLK = BY2BLK div BY2SECT"
definition DISKNO :: u32 where "DISKNO = 8"
definition DISKMAP :: u32 where "DISKMAP = 0x10000000"
definition DISKMAX :: u32 where "DISKMAX = 0x40000000"
definition MAXNAMELEN :: nat where "MAXNAMELEN = 128"
definition NDIRECT :: u32 where "NDIRECT = 10"
definition NINDIRECT :: u32 where "NINDIRECT = BY2BLK div 4"
definition BY2FILE :: u32 where "BY2FILE = 256"
definition FILE2BLK :: u32 where "FILE2BLK = BY2BLK div BY2FILE"
definition FTYPE_DIR :: u32 where "FTYPE_DIR = 1"
definition FS_MAGIC :: u32 where "FS_MAGIC = 0x68286097"
definition PTE_DIRTY :: u32 where "PTE_DIRTY = PTE_D"
definition IDE_REQVA :: u32 where "IDE_REQVA = 0x0eeff000"

lemmas fs_defs = BY2BLK_def BIT2BLK_def BY2SECT_def SECT2BLK_def DISKNO_def DISKMAP_def DISKMAX_def MAXNAMELEN_def NDIRECT_def
  NINDIRECT_def BY2FILE_def FILE2BLK_def FTYPE_DIR_def FS_MAGIC_def PTE_DIRTY_def IDE_REQVA_def

text \<open>The members of \<^verbatim>\<open>struct File\<close> and of \<^verbatim>\<open>struct Super\<close>; \<^verbatim>\<open>f_name\<close> is at the address of the file itself.\<close>

definition f_size :: "u32 \<Rightarrow> u32" where "f_size f = f + 128"
definition f_type :: "u32 \<Rightarrow> u32" where "f_type f = f + 132"
definition f_direct :: "u32 \<Rightarrow> u32 \<Rightarrow> u32" where "f_direct f i = f + 136 + 4 * i"
definition f_indirect :: "u32 \<Rightarrow> u32" where "f_indirect f = f + 176"
definition f_dir :: "u32 \<Rightarrow> u32" where "f_dir f = f + 180"
definition s_nblocks :: "u32 \<Rightarrow> u32" where "s_nblocks sp = sp + 4"
definition s_root :: "u32 \<Rightarrow> u32" where "s_root sp = sp + 8"

record fsstate =
  fmem :: mem
  vpt :: "u32 \<Rightarrow> u32"
  avail :: nat
  super :: u32
  bitmap :: u32
  sectors :: "u32 \<Rightarrow> nat \<Rightarrow> u8"
  dev_results :: "u32 list"
  dev_status :: "u8 list"

type_synonym 'a fsres = "((err + 'a) \<times> fsstate) option"

text \<open>\<^verbatim>\<open>if ((r = f()) < 0) return r;\<close>\<close>

definition try_fs :: "'a fsres \<Rightarrow> ('a \<Rightarrow> fsstate \<Rightarrow> 'b fsres) \<Rightarrow> 'b fsres" where
  "try_fs r k = do { (r, s) \<leftarrow> r; case r of Inl e \<Rightarrow> Some (Inl e, s) | Inr a \<Rightarrow> k a s }"

definition va_is_mapped :: "fsstate \<Rightarrow> u32 \<Rightarrow> bool" where
  "va_is_mapped s va \<longleftrightarrow> has (vpt s (VPN va)) PTE_V"

definition rd32 :: "fsstate \<Rightarrow> u32 \<Rightarrow> u32 option" where
  "rd32 s a = (if va_is_mapped s a then Some (ld32 (fmem s) a) else None)"

definition wr32 :: "u32 \<Rightarrow> u32 \<Rightarrow> fsstate \<Rightarrow> fsstate option" where
  "wr32 a v s = (if va_is_mapped s a then Some (s\<lparr>fmem := st32 (fmem s) a v\<rparr>) else None)"

section \<open>System calls of the server on itself\<close>

definition syscall_mem_alloc :: "u32 \<Rightarrow> u32 \<Rightarrow> fsstate \<Rightarrow> (err + unit) \<times> fsstate" where
  "syscall_mem_alloc va perm s =
     (if is_illegal_va va then (Inl E_INVAL, s)
      else if avail s = 0 then (Inl E_NO_MEM, s)
      else (Inr (), s\<lparr>fmem := (\<lambda>a. if VPN a = VPN va then 0 else fmem s a),
                      vpt := (vpt s)(VPN va := perm OR PTE_U OR PTE_V), avail := avail s - 1\<rparr>))"

text \<open>\<^verbatim>\<open>syscall_mem_map(0, va, 0, va, perm)\<close>: the page stays, its permissions change.\<close>

definition syscall_mem_remap :: "u32 \<Rightarrow> u32 \<Rightarrow> fsstate \<Rightarrow> (err + unit) \<times> fsstate" where
  "syscall_mem_remap va perm s =
     (if is_illegal_va va \<or> \<not> va_is_mapped s va then (Inl E_INVAL, s)
      else (Inr (), s\<lparr>vpt := (vpt s)(VPN va := perm OR PTE_U OR PTE_V)\<rparr>))"

definition syscall_mem_unmap :: "u32 \<Rightarrow> fsstate \<Rightarrow> (err + unit) \<times> fsstate" where
  "syscall_mem_unmap va s =
     (if is_illegal_va va then (Inl E_INVAL, s) else (Inr (), s\<lparr>vpt := (vpt s)(VPN va := 0)\<rparr>))"

section \<open>The disk (fs/ide.c)\<close>

text \<open>\<^verbatim>\<open>while ((r = syscall_dev_req(diskno, req)) == -E_NO_RING_DESC) syscall_yield();\<close> and
  \<^verbatim>\<open>while (req->status == 0xff) syscall_yield();\<close>\<close>

fun dev_accept :: "u32 list \<Rightarrow> (u32 \<times> u32 list) option" where
  "dev_accept [] = None"
| "dev_accept (r # rs) = (if r = neg_errno E_NO_RING_DESC then dev_accept rs else Some (r, rs))"

fun dev_wait :: "u8 list \<Rightarrow> (u8 \<times> u8 list) option" where
  "dev_wait [] = None"
| "dev_wait (st # rest) = (if st = DISK_STATUS_NO_RESP then dev_wait rest else Some (st, rest))"

text \<open>A request for sector \<open>n\<close> and the device's answer.  \<^verbatim>\<open>struct virtio_blk_req\<close> has \<^verbatim>\<open>sector\<close> at 0, \<^verbatim>\<open>write\<close> at 4, \<^verbatim>\<open>status\<close> at 5 and
  \<^verbatim>\<open>buf\<close> at 6.  The device transfers the sector when it completes the request with status 0; the code never looks at another status.\<close>

definition IDE_BUF :: u32 where "IDE_BUF = IDE_REQVA + 6"

definition ide_request :: "u32 \<Rightarrow> u32 \<Rightarrow> bool \<Rightarrow> fsstate \<Rightarrow> fsstate option" where
  "ide_request diskno n write s = do {
     let m = (st32 (fmem s) IDE_REQVA n)(IDE_REQVA + 4 := if write then 1 else 0);
     (r, rs) \<leftarrow> (if diskno = 8 then dev_accept (dev_results s) else None);
     if sint r < 0 then None
     else do {
       (st, rest) \<leftarrow> dev_wait (dev_status s);
       let m = m(IDE_REQVA + 5 := st);
       let s = s\<lparr>dev_results := rs, dev_status := rest\<rparr>;
       Some (if st \<noteq> 0 then s\<lparr>fmem := m\<rparr>
             else if write then s\<lparr>fmem := m, sectors := (sectors s)(n := (\<lambda>i. m (IDE_BUF + of_nat i)))\<rparr>
             else s\<lparr>fmem := (\<lambda>a. if unat (a - IDE_BUF) < 512 then sectors s n (unat (a - IDE_BUF)) else m a)\<rparr>) } }"

partial_function (option) ide_read_loop :: "u32 \<Rightarrow> u32 \<Rightarrow> u32 \<Rightarrow> u32 \<Rightarrow> u32 \<Rightarrow> u32 \<Rightarrow> fsstate \<Rightarrow> fsstate option" where
  "ide_read_loop diskno secno dst bgn fin off s =
     (if bgn + off < fin then do {
        s \<leftarrow> ide_request diskno (secno + off div BY2SECT) False s;
        m \<leftarrow> (if va_is_mapped s (dst + off) then memcpy (fmem s) (dst + off) IDE_BUF BY2SECT else None);
        ide_read_loop diskno secno dst bgn fin (off + BY2SECT) (s\<lparr>fmem := m\<rparr>) }
      else Some s)"

definition ide_read :: "u32 \<Rightarrow> u32 \<Rightarrow> u32 \<Rightarrow> u32 \<Rightarrow> fsstate \<Rightarrow> fsstate option" where
  "ide_read diskno secno dst nsecs s =
     (let bgn = secno * BY2SECT; fin = bgn + nsecs * BY2SECT in ide_read_loop diskno secno dst bgn fin 0 s)"

partial_function (option) ide_write_loop :: "u32 \<Rightarrow> u32 \<Rightarrow> u32 \<Rightarrow> u32 \<Rightarrow> u32 \<Rightarrow> u32 \<Rightarrow> fsstate \<Rightarrow> fsstate option" where
  "ide_write_loop diskno secno src bgn fin off s =
     (if bgn + off < fin then do {
        m \<leftarrow> (if va_is_mapped s (src + off) then memcpy (fmem s) IDE_BUF (src + off) BY2SECT else None);
        s \<leftarrow> ide_request diskno (secno + off div BY2SECT) True (s\<lparr>fmem := m\<rparr>);
        ide_write_loop diskno secno src bgn fin (off + BY2SECT) s }
      else Some s)"

definition ide_write :: "u32 \<Rightarrow> u32 \<Rightarrow> u32 \<Rightarrow> u32 \<Rightarrow> fsstate \<Rightarrow> fsstate option" where
  "ide_write diskno secno src nsecs s =
     (let bgn = secno * BY2SECT; fin = bgn + nsecs * BY2SECT in ide_write_loop diskno secno src bgn fin 0 s)"

section \<open>Blocks\<close>

definition diskaddr :: "u32 \<Rightarrow> u32" where
  "diskaddr blockno = DISKMAP + blockno * BY2BLK"

definition block_is_mapped :: "fsstate \<Rightarrow> u32 \<Rightarrow> bool" where
  "block_is_mapped s blockno = va_is_mapped s (diskaddr blockno)"

definition va_is_dirty :: "fsstate \<Rightarrow> u32 \<Rightarrow> bool" where
  "va_is_dirty s va = has (vpt s (VPN va)) PTE_DIRTY"

definition block_is_dirty :: "fsstate \<Rightarrow> u32 \<Rightarrow> bool" where
  "block_is_dirty s blockno \<longleftrightarrow> va_is_mapped s (diskaddr blockno) \<and> va_is_dirty s (diskaddr blockno)"

definition dirty_block :: "u32 \<Rightarrow> fsstate \<Rightarrow> (err + unit) \<times> fsstate" where
  "dirty_block blockno s =
     (let va = diskaddr blockno
      in if \<not> va_is_mapped s va then (Inl E_NOT_FOUND, s)
         else if va_is_dirty s va then (Inr (), s)
         else syscall_mem_remap va (PTE_W OR PTE_DIRTY) s)"

definition write_block :: "u32 \<Rightarrow> fsstate \<Rightarrow> fsstate option" where
  "write_block blockno s =
     (if \<not> block_is_mapped s blockno then None
      else ide_write DISKNO (blockno * SECT2BLK) (diskaddr blockno) SECT2BLK s)"

definition block_is_free :: "fsstate \<Rightarrow> u32 \<Rightarrow> bool option" where
  "block_is_free s blockno =
     (if super s = 0 then Some False
      else do {
        n \<leftarrow> rd32 s (s_nblocks (super s));
        if blockno \<ge> n then Some False
        else do {
          w \<leftarrow> rd32 s (bitmap s + 4 * (blockno div 32));
          Some (w AND push_bit (unat (blockno mod 32)) 1 \<noteq> 0) } })"

text \<open>The result is \<^verbatim>\<open>*blk\<close> and \<^verbatim>\<open>*isnew\<close>.  The result of \<^verbatim>\<open>syscall_mem_alloc\<close> is not looked at.\<close>

definition read_block :: "u32 \<Rightarrow> fsstate \<Rightarrow> (u32 \<times> bool) fsres" where
  "read_block blockno s = do {
     n \<leftarrow> (if super s = 0 then Some None else do { n \<leftarrow> rd32 s (s_nblocks (super s)); Some (Some n) });
     if (case n of None \<Rightarrow> False | Some n \<Rightarrow> blockno \<ge> n) then None
     else do {
       fr \<leftarrow> (if bitmap s = 0 then Some False else block_is_free s blockno);
       if fr then None
       else
         (let va = diskaddr blockno
          in if block_is_mapped s blockno then Some (Inr (va, False), s)
             else do {
               let s = snd (syscall_mem_alloc va PTE_W s);
               s \<leftarrow> ide_read DISKNO (blockno * SECT2BLK) va SECT2BLK s;
               Some (Inr (va, True), s) }) } }"

definition map_block :: "u32 \<Rightarrow> fsstate \<Rightarrow> (err + unit) \<times> fsstate" where
  "map_block blockno s =
     (if block_is_mapped s blockno then (Inr (), s) else syscall_mem_alloc (diskaddr blockno) PTE_W s)"

definition unmap_block :: "u32 \<Rightarrow> fsstate \<Rightarrow> fsstate option" where
  "unmap_block blockno s =
     (if \<not> block_is_mapped s blockno then None
      else do {
        fr \<leftarrow> block_is_free s blockno;
        s \<leftarrow> (if \<not> fr \<and> block_is_dirty s blockno then write_block blockno s else Some s);
        let s = snd (syscall_mem_unmap (diskaddr blockno) s);
        if block_is_mapped s blockno then None else Some s })"

definition free_block :: "u32 \<Rightarrow> fsstate \<Rightarrow> fsstate option" where
  "free_block blockno s = do {
     n \<leftarrow> (if blockno = 0 then Some 0 else rd32 s (s_nblocks (super s)));
     if blockno = 0 \<or> blockno \<ge> n then Some s
     else do {
       let a = bitmap s + 4 * (blockno div 32);
       w \<leftarrow> rd32 s a;
       wr32 a (w OR push_bit (unat (blockno mod 32)) 1) s } }"

function alloc_block_num_loop :: "u32 \<Rightarrow> u32 \<Rightarrow> fsstate \<Rightarrow> u32 fsres" where
  "alloc_block_num_loop n blockno s =
     (if blockno < n then do {
        let a = bitmap s + 4 * (blockno div 32);
        w \<leftarrow> rd32 s a;
        if w AND push_bit (unat (blockno mod 32)) 1 \<noteq> 0 then do {
          s \<leftarrow> wr32 a (w AND NOT (push_bit (unat (blockno mod 32)) 1)) s;
          s \<leftarrow> write_block (blockno div BIT2BLK + 2) s;
          Some (Inr blockno, s) }
        else alloc_block_num_loop n (blockno + 1) s }
      else Some (Inl E_NO_DISK, s))"
  by pat_completeness auto
termination by (relation "measure (\<lambda>(n, blockno, s). unat (n - blockno))") (auto intro: unat_next_less)

declare alloc_block_num_loop.simps [simp del]

definition alloc_block_num :: "fsstate \<Rightarrow> u32 fsres" where
  "alloc_block_num s = do { n \<leftarrow> rd32 s (s_nblocks (super s)); alloc_block_num_loop n 3 s }"

definition alloc_block :: "fsstate \<Rightarrow> u32 fsres" where
  "alloc_block s = try_fs (alloc_block_num s) (\<lambda>bno s.
     case map_block bno s of
       (Inl e, s) \<Rightarrow> do { s \<leftarrow> free_block bno s; Some (Inl e, s) }
     | (Inr _, s) \<Rightarrow> Some (Inr bno, s))"

section \<open>Start\<close>

text \<open>\<^verbatim>\<open>for (i = a; i < n; i++)\<close> with an unsigned counter.\<close>

function for_loop :: "(u32 \<Rightarrow> 's \<Rightarrow> 's option) \<Rightarrow> u32 \<Rightarrow> u32 \<Rightarrow> 's \<Rightarrow> 's option" where
  "for_loop body n i s = (if i < n then do { s \<leftarrow> body i s; for_loop body n (i + 1) s } else Some s)"
  by pat_completeness auto
termination by (relation "measure (\<lambda>(body, n, i, s). unat (n - i))") (auto intro: unat_next_less)

declare for_loop.simps [simp del]

definition read_super :: "fsstate \<Rightarrow> fsstate option" where
  "read_super s = do {
     (r, s) \<leftarrow> read_block 1 s;
     case r of
       Inl _ \<Rightarrow> None
     | Inr (blk, _) \<Rightarrow> do {
         let s = s\<lparr>super := blk\<rparr>;
         magic \<leftarrow> rd32 s (super s);
         n \<leftarrow> rd32 s (s_nblocks (super s));
         if magic \<noteq> FS_MAGIC then None
         else if n > DISKMAX div BY2BLK then None
         else Some s } }"

definition user_assert_used :: "u32 \<Rightarrow> fsstate \<Rightarrow> fsstate option" where
  "user_assert_used blockno s = do { fr \<leftarrow> block_is_free s blockno; if fr then None else Some s }"

definition read_bitmap :: "fsstate \<Rightarrow> fsstate option" where
  "read_bitmap s = do {
     n \<leftarrow> rd32 s (s_nblocks (super s));
     let nbitmap = n div BIT2BLK + 1;
     s \<leftarrow> for_loop (\<lambda>i s. do { (_, s) \<leftarrow> read_block (i + 2) s; Some s }) nbitmap 0 s;
     let s = s\<lparr>bitmap := diskaddr 2\<rparr>;
     s \<leftarrow> user_assert_used 0 s;
     s \<leftarrow> user_assert_used 1 s;
     for_loop (\<lambda>i s. user_assert_used (i + 2) s) nbitmap 0 s }"

text \<open>The bytes of the literal "OOPS!" with its newline.\<close>

definition oops_text :: "u8 list" where
  "oops_text = [79, 79, 80, 83, 33, 10]"

fun store_bytes :: "u32 \<Rightarrow> u8 list \<Rightarrow> mem \<Rightarrow> mem" where
  "store_bytes a [] m = m"
| "store_bytes a (b # bs) m = store_bytes (a + 1) bs (m(a := b))"

definition block_memcpy :: "u32 \<Rightarrow> u32 \<Rightarrow> fsstate \<Rightarrow> fsstate option" where
  "block_memcpy dst src s =
     (if va_is_mapped s dst \<and> va_is_mapped s src then do { m \<leftarrow> memcpy (fmem s) dst src BY2PG; Some (s\<lparr>fmem := m\<rparr>) } else None)"

definition check_write_block :: "fsstate \<Rightarrow> fsstate option" where
  "check_write_block s = do {
     let s = s\<lparr>super := 0\<rparr>;
     (_, s) \<leftarrow> read_block 0 s;
     s \<leftarrow> block_memcpy (diskaddr 0) (diskaddr 1) s;
     let s = s\<lparr>fmem := store_bytes (diskaddr 1) (oops_text @ [0]) (fmem s)\<rparr>;
     s \<leftarrow> write_block 1 s;
     s \<leftarrow> (if block_is_mapped s 1 then Some s else None);
     let s = snd (syscall_mem_unmap (diskaddr 1) s);
     s \<leftarrow> (if block_is_mapped s 1 then None else Some s);
     (_, s) \<leftarrow> read_block 1 s;
     s \<leftarrow> (if cstr (fmem s) (diskaddr 1) oops_text then Some s else None);
     s \<leftarrow> block_memcpy (diskaddr 1) (diskaddr 0) s;
     s \<leftarrow> write_block 1 s;
     Some (s\<lparr>super := diskaddr 1\<rparr>) }"

definition fs_init :: "fsstate \<Rightarrow> fsstate option" where
  "fs_init s = do { s \<leftarrow> read_super s; s \<leftarrow> check_write_block s; read_bitmap s }"

section \<open>The blocks of a file\<close>

definition file_block_walk :: "u32 \<Rightarrow> u32 \<Rightarrow> bool \<Rightarrow> fsstate \<Rightarrow> u32 fsres" where
  "file_block_walk f filebno create s =
     (if filebno < NDIRECT then Some (Inr (f_direct f filebno), s)
      else if filebno < NINDIRECT then do {
        ind \<leftarrow> rd32 s (f_indirect f);
        try_fs (if ind = 0 then
                  if \<not> create then Some (Inl E_NOT_FOUND, s)
                  else try_fs (alloc_block s) (\<lambda>r s. do { s \<leftarrow> wr32 (f_indirect f) r s; Some (Inr r, s) })
                else Some (Inr ind, s))
          (\<lambda>ind s. try_fs (read_block ind s) (\<lambda>(blk, _) s. Some (Inr (blk + 4 * filebno), s))) }
      else Some (Inl E_INVAL, s))"

definition file_map_block :: "u32 \<Rightarrow> u32 \<Rightarrow> bool \<Rightarrow> fsstate \<Rightarrow> u32 fsres" where
  "file_map_block f filebno create s =
     try_fs (file_block_walk f filebno create s) (\<lambda>ptr s. do {
       v \<leftarrow> rd32 s ptr;
       if v = 0 then
         if \<not> create then Some (Inl E_NOT_FOUND, s)
         else try_fs (alloc_block s) (\<lambda>r s. do { s \<leftarrow> wr32 ptr r s; Some (Inr r, s) })
       else Some (Inr v, s) })"

definition file_clear_block :: "u32 \<Rightarrow> u32 \<Rightarrow> fsstate \<Rightarrow> unit fsres" where
  "file_clear_block f filebno s =
     try_fs (file_block_walk f filebno False s) (\<lambda>ptr s. do {
       v \<leftarrow> rd32 s ptr;
       if v \<noteq> 0 then do { s \<leftarrow> free_block v s; s \<leftarrow> wr32 ptr 0 s; Some (Inr (), s) }
       else Some (Inr (), s) })"

definition file_get_block :: "u32 \<Rightarrow> u32 \<Rightarrow> fsstate \<Rightarrow> u32 fsres" where
  "file_get_block f filebno s =
     try_fs (file_map_block f filebno True s) (\<lambda>diskbno s. try_fs (read_block diskbno s) (\<lambda>(blk, _) s. Some (Inr blk, s)))"

definition file_dirty :: "u32 \<Rightarrow> u32 \<Rightarrow> fsstate \<Rightarrow> unit fsres" where
  "file_dirty f offset s = try_fs (file_map_block f (offset div BY2BLK) False s) (\<lambda>diskbno s. Some (dirty_block diskbno s))"

section \<open>Directories\<close>

text \<open>The inner loops of \<^verbatim>\<open>dir_lookup\<close> and \<^verbatim>\<open>dir_alloc_file\<close> over the files of a block.  \<open>name\<close> is the local array up to its NUL, and
  \<^verbatim>\<open>strcmp(name, f->f_name) == 0\<close> says that the same string is in memory at \<open>f\<close>.\<close>

fun scan_files :: "(mem \<Rightarrow> u32 \<Rightarrow> bool) \<Rightarrow> fsstate \<Rightarrow> u32 \<Rightarrow> nat \<Rightarrow> u32 option option" where
  "scan_files test s f 0 = Some None"
| "scan_files test s f (Suc n) =
     (if \<not> va_is_mapped s f then None
      else if test (fmem s) f then Some (Some f) else scan_files test s (f + BY2FILE) n)"

text \<open>The outer loop, common to both: the blocks \<open>i, ..., nblock - 1\<close>; \<open>Inr None\<close> is falling out of the loop.\<close>

function scan_dir :: "(mem \<Rightarrow> u32 \<Rightarrow> bool) \<Rightarrow> u32 \<Rightarrow> u32 \<Rightarrow> u32 \<Rightarrow> fsstate \<Rightarrow> u32 option fsres" where
  "scan_dir test dir nblock i s =
     (if i < nblock then
        try_fs (file_get_block dir i s) (\<lambda>blk s. do {
          f \<leftarrow> scan_files test s blk (unat FILE2BLK);
          case f of Some f \<Rightarrow> Some (Inr (Some f), s) | None \<Rightarrow> scan_dir test dir nblock (i + 1) s })
      else Some (Inr None, s))"
  by pat_completeness auto
termination by (relation "measure (\<lambda>(test, dir, nblock, i, s). unat (nblock - i))") (auto intro: unat_next_less)

declare scan_dir.simps [simp del]

definition dir_lookup :: "u32 \<Rightarrow> u8 list \<Rightarrow> fsstate \<Rightarrow> u32 fsres" where
  "dir_lookup dir name s = do {
     size \<leftarrow> rd32 s (f_size dir);
     try_fs (scan_dir (\<lambda>m f. cstr m f name) dir (size div BY2BLK) 0 s) (\<lambda>r s.
       case r of
         Some f \<Rightarrow> do { s \<leftarrow> wr32 (f_dir f) dir s; Some (Inr f, s) }
       | None \<Rightarrow> Some (Inl E_NOT_FOUND, s)) }"

definition dir_alloc_file :: "u32 \<Rightarrow> fsstate \<Rightarrow> u32 fsres" where
  "dir_alloc_file dir s = do {
     size \<leftarrow> rd32 s (f_size dir);
     let nblock = size div BY2BLK;
     try_fs (scan_dir (\<lambda>m f. m f = 0) dir nblock 0 s) (\<lambda>r s.
       case r of
         Some f \<Rightarrow> Some (Inr f, s)
       | None \<Rightarrow> do {
           size \<leftarrow> rd32 s (f_size dir);
           s \<leftarrow> wr32 (f_size dir) (size + BY2BLK) s;
           file_get_block dir nblock s }) }"

fun skip_slash :: "u8 list \<Rightarrow> u8 list" where
  "skip_slash [] = []"
| "skip_slash (c # p) = (if c = 47 then skip_slash p else c # p)"

text \<open>The inner loop of \<^verbatim>\<open>walk_path\<close>: up to the next slash.\<close>

fun path_elem :: "u8 list \<Rightarrow> u8 list \<times> u8 list" where
  "path_elem [] = ([], [])"
| "path_elem (c # p) = (if c \<noteq> 47 then (let (e, r) = path_elem p in (c # e, r)) else ([], c # p))"

lemma length_skip_slash: "length (skip_slash p) \<le> length p"
  by (induction p rule: skip_slash.induct) auto

lemma path_elem_append: "path_elem p = (e, r) \<Longrightarrow> p = e @ r"
  by (induction p arbitrary: e rule: path_elem.induct) (auto split: if_splits prod.splits)

lemma length_path_elem:
  assumes "path \<noteq> []" "(e, r) = path_elem path"
  shows "length (skip_slash r) < length path"
proof (cases e)
  case Nil
  with assms path_elem_append [of path e r] have "path = r" "path_elem path = ([], path)" by simp_all
  then obtain q where "r = 47 # q" using assms(1) by (cases path) (auto split: if_splits prod.splits)
  then show ?thesis using \<open>path = r\<close> length_skip_slash [of q] by simp
next
  case (Cons c q)
  then show ?thesis using assms path_elem_append [of path e r] length_skip_slash [of r] by simp
qed

text \<open>The result of \<^verbatim>\<open>walk_path\<close>: its return value, \<^verbatim>\<open>*pdir\<close>, \<^verbatim>\<open>*pfile\<close> and \<^verbatim>\<open>lastelem\<close> (\<open>[]\<close> where the code does not set it).\<close>

type_synonym walkres = "((err + unit) \<times> u32 \<times> u32 \<times> u8 list \<times> fsstate) option"

function walk_loop :: "u8 list \<Rightarrow> u32 \<Rightarrow> u32 \<Rightarrow> fsstate \<Rightarrow> walkres" where
  "walk_loop path dir file s =
     (if path = [] then Some (Inr (), dir, file, [], s)
      else
        (let dir = file; (name, path') = path_elem path
         in if length name \<ge> MAXNAMELEN then Some (Inl E_BAD_PATH, 0, 0, [], s)
            else
              (let path' = skip_slash path'
               in do {
                    ty \<leftarrow> rd32 s (f_type dir);
                    if ty \<noteq> FTYPE_DIR then Some (Inl E_NOT_FOUND, 0, 0, [], s)
                    else do {
                      (r, s) \<leftarrow> dir_lookup dir name s;
                      case r of
                        Inl e \<Rightarrow> if e = E_NOT_FOUND \<and> path' = [] then Some (Inl e, dir, 0, name, s) else Some (Inl e, 0, 0, [], s)
                      | Inr file \<Rightarrow> walk_loop path' dir file s } })))"
  by pat_completeness auto
termination
  by (relation "measure (\<lambda>(path, dir, file, s). length path)") (auto intro: length_path_elem)

declare walk_loop.simps [simp del]

definition walk_path :: "u8 list \<Rightarrow> fsstate \<Rightarrow> walkres" where
  "walk_path path s = walk_loop (skip_slash path) 0 (s_root (super s)) s"

definition file_open :: "u8 list \<Rightarrow> fsstate \<Rightarrow> u32 fsres" where
  "file_open path s = do { (r, _, f, _, s) \<leftarrow> walk_path path s; Some (case r of Inl e \<Rightarrow> Inl e | Inr _ \<Rightarrow> Inr f, s) }"

definition file_create :: "u8 list \<Rightarrow> fsstate \<Rightarrow> u32 fsres" where
  "file_create path s = do {
     (r, dir, _, name, s) \<leftarrow> walk_path path s;
     case r of
       Inr _ \<Rightarrow> Some (Inl E_FILE_EXISTS, s)
     | Inl e \<Rightarrow>
         if e \<noteq> E_NOT_FOUND \<or> dir = 0 then Some (Inl e, s)
         else do {
           (r2, s) \<leftarrow> dir_alloc_file dir s;
           case r2 of
             Inl _ \<Rightarrow> Some (Inl e, s)
           | Inr f \<Rightarrow>
               if \<not> va_is_mapped s f then None
               else Some (Inr f, s\<lparr>fmem := store_bytes f (name @ [0]) (fmem s)\<rparr>) } }"

section \<open>Files\<close>

definition file_truncate :: "u32 \<Rightarrow> u32 \<Rightarrow> fsstate \<Rightarrow> fsstate option" where
  "file_truncate f newsize s = do {
     size \<leftarrow> rd32 s (f_size f);
     let old_nblocks = size div BY2BLK + 1;
     let new_nblocks = (if newsize = 0 then 0 else newsize div BY2BLK + 1);
     s \<leftarrow> for_loop (\<lambda>bno s. do { (_, s) \<leftarrow> file_clear_block f bno s; Some s }) old_nblocks new_nblocks s;
     s \<leftarrow> (if new_nblocks \<le> NDIRECT then do {
              ind \<leftarrow> rd32 s (f_indirect f);
              if ind \<noteq> 0 then do { s \<leftarrow> free_block ind s; wr32 (f_indirect f) 0 s } else Some s }
            else Some s);
     wr32 (f_size f) newsize s }"

definition file_flush :: "u32 \<Rightarrow> fsstate \<Rightarrow> fsstate option" where
  "file_flush f s = do {
     size \<leftarrow> rd32 s (f_size f);
     for_loop (\<lambda>bno s. do {
         (r, s) \<leftarrow> file_map_block f bno False s;
         case r of Inl _ \<Rightarrow> Some s | Inr diskno \<Rightarrow> if block_is_dirty s diskno then write_block diskno s else Some s })
       (size div BY2BLK + 1) 0 s }"

definition flush_dir :: "u32 \<Rightarrow> fsstate \<Rightarrow> fsstate option" where
  "flush_dir f s = do { d \<leftarrow> rd32 s (f_dir f); if d \<noteq> 0 then file_flush d s else Some s }"

definition file_set_size :: "u32 \<Rightarrow> u32 \<Rightarrow> fsstate \<Rightarrow> fsstate option" where
  "file_set_size f newsize s = do {
     size \<leftarrow> rd32 s (f_size f);
     s \<leftarrow> (if size > newsize then file_truncate f newsize s else Some s);
     s \<leftarrow> wr32 (f_size f) newsize s;
     flush_dir f s }"

definition fs_sync :: "fsstate \<Rightarrow> fsstate option" where
  "fs_sync s = do {
     n \<leftarrow> rd32 s (s_nblocks (super s));
     for_loop (\<lambda>i s. if block_is_dirty s i then write_block i s else Some s) n 0 s }"

definition file_close :: "u32 \<Rightarrow> fsstate \<Rightarrow> fsstate option" where
  "file_close f s = do { s \<leftarrow> file_flush f s; flush_dir f s }"

definition file_remove :: "u8 list \<Rightarrow> fsstate \<Rightarrow> unit fsres" where
  "file_remove path s = try_fs (file_open path s) (\<lambda>f s. do {
     s \<leftarrow> file_truncate f 0 s;
     s \<leftarrow> (if va_is_mapped s f then Some (s\<lparr>fmem := (fmem s)(f := 0)\<rparr>) else None);
     s \<leftarrow> file_flush f s;
     s \<leftarrow> flush_dir f s;
     Some (Inr (), s) })"
end
