(* ===== verification/Mos_Fs_Block.thy ===== *)
theory Mos_Fs_Block
  imports Mos_Fs
begin

text \<open>
  The block layer of the file-system server: what \<^verbatim>\<open>ide_read\<close>, \<^verbatim>\<open>ide_write\<close>, \<^verbatim>\<open>read_block\<close> and \<^verbatim>\<open>write_block\<close> do to the disk and to the
  block cache, and the bitmap of free blocks.  Blocks have numbers below \<open>0x40000\<close> (\<^verbatim>\<open>DISKMAX / BY2BLK\<close>, checked by \<^verbatim>\<open>read_super\<close>), so
  that the cache stays between \<open>0x10000000\<close> and \<open>0x50000000\<close>.
\<close>

declare split_paired_All [simp del] split_paired_Ex [simp del]

section \<open>Copying\<close>

lemma unat_plus_of_nat: "unat (a :: u32) + i < 2 ^ 32 \<Longrightarrow> unat (a + of_nat i) = unat a + i"
  by (simp add: unat_word_ariths unat_of_nat)

lemma u32_offset: "unat (a :: u32) \<le> unat b \<Longrightarrow> b = a + of_nat (unat b - unat a)"
  by (simp add: of_nat_diff)

text \<open>\<^verbatim>\<open>memcpy\<close> between two regions that do not meet.\<close>

lemma memcpy_bytes:
  assumes "unat dst + n + 4 < 2 ^ 32" "unat src + n < 2 ^ 32" "unat dst + n \<le> unat src \<or> unat src + n \<le> unat dst"
  shows "\<exists>m'. memcpy m dst src (of_nat n) = Some m' \<and> (\<forall>i < n. m' (dst + of_nat i) = m (src + of_nat i)) \<and>
    (\<forall>a. \<not> (unat dst \<le> unat a \<and> unat a < unat dst + n) \<longrightarrow> m' a = m a)"
proof -
  have n: "unat (of_nat n :: u32) = n" using assms(1) by (simp add: unat_of_nat)
  have hi: "unat (dst + of_nat n) = unat dst + n" using assms(1) by (simp add: unat_plus_of_nat)
  have "no_overlap dst src (dst + of_nat n)"
    unfolding no_overlap_def
  proof (intro allI impI)
    fix a b assume ab: "dst \<le> a \<and> a < dst + of_nat n \<and> dst \<le> b \<and> b < dst + of_nat n"
    then have r: "unat dst \<le> unat a" "unat a < unat dst + n" "unat dst \<le> unat b" "unat b < unat dst + n"
      by (simp_all add: word_le_nat_alt word_less_nat_alt hi)
    have e: "src + (a - dst) = src + of_nat (unat a - unat dst)" using u32_offset [OF r(1)] by (metis add_diff_cancel_left')
    have "unat (src + (a - dst)) = unat src + (unat a - unat dst)" unfolding e by (rule unat_plus_of_nat) (use r assms(2) in simp)
    then show "src + (a - dst) \<noteq> b" using r assms(3) by auto
  qed
  with assms(1) have "memcpy m dst src (of_nat n) = Some (copied m dst src (dst + of_nat n))" by (intro memcpy_copied) (simp_all add: n)
  moreover have "copied m dst src (dst + of_nat n) (dst + of_nat i) = m (src + of_nat i)" if "i < n" for i
  proof -
    have "unat (dst + of_nat i) = unat dst + i" using assms(1) that by (simp add: unat_plus_of_nat)
    then show ?thesis using that by (simp add: copied_def word_le_nat_alt word_less_nat_alt hi)
  qed
  moreover have "copied m dst src (dst + of_nat n) a = m a" if "\<not> (unat dst \<le> unat a \<and> unat a < unat dst + n)" for a
    using that by (auto simp: copied_def word_le_nat_alt word_less_nat_alt hi)
  ultimately show ?thesis by blast
qed

section \<open>Pages of the block cache\<close>

abbreviation blk_ok :: "u32 \<Rightarrow> bool" where
  "blk_ok b \<equiv> unat b < 0x40000"

text \<open>Byte \<open>i\<close> of block \<open>b\<close> in the cache.\<close>

definition blk_addr :: "u32 \<Rightarrow> nat \<Rightarrow> u32" where
  "blk_addr b i = diskaddr b + of_nat i"

lemma unat_diskaddr: "blk_ok b \<Longrightarrow> unat (diskaddr b) = 0x10000000 + 4096 * unat b"
  by (simp add: diskaddr_def fs_defs unat_word_ariths)

lemma unat_blk_addr: "blk_ok b \<Longrightarrow> i < 4096 \<Longrightarrow> unat (blk_addr b i) = 0x10000000 + 4096 * unat b + i"
  unfolding blk_addr_def by (subst unat_plus_of_nat) (simp_all add: unat_diskaddr)

lemma unat_VPN: "unat (VPN a) = unat a div 4096"
  by (simp add: VPN_def drop_bit_eq_div unat_div_distrib)

lemma VPN_blk_addr: "blk_ok b \<Longrightarrow> i < 4096 \<Longrightarrow> unat (VPN (blk_addr b i)) = 0x10000 + unat b"
  by (simp add: unat_VPN unat_blk_addr)

lemma VPN_diskaddr: "blk_ok b \<Longrightarrow> unat (VPN (diskaddr b)) = 0x10000 + unat b"
  using VPN_blk_addr [of b 0] by (simp add: blk_addr_def)

lemma VPN_same_block: "blk_ok b \<Longrightarrow> i < 4096 \<Longrightarrow> VPN (blk_addr b i) = VPN (diskaddr b)"
  by (rule word_unat_eq_iff [THEN iffD2]) (simp add: VPN_blk_addr VPN_diskaddr)

lemma VPN_req: "unat (VPN IDE_REQVA) = 0xeeff"
  by (simp add: unat_VPN fs_defs)

lemma VPN_blk_req: "blk_ok b \<Longrightarrow> i < 4096 \<Longrightarrow> VPN (blk_addr b i) \<noteq> VPN IDE_REQVA"
  using VPN_blk_addr [of b i] VPN_req by auto

lemma diskaddr_inj: "blk_ok b \<Longrightarrow> blk_ok c \<Longrightarrow> VPN (diskaddr b) = VPN (diskaddr c) \<longleftrightarrow> b = c"
  using VPN_diskaddr [of b] VPN_diskaddr [of c] by (auto simp: word_unat_eq_iff)

lemma legal_diskaddr: "blk_ok b \<Longrightarrow> \<not> is_illegal_va (diskaddr b)"
  using unat_diskaddr [of b] by (simp add: is_illegal_va_def word_less_nat_alt word_le_nat_alt layout_defs)

lemma va_is_mapped_block: "blk_ok b \<Longrightarrow> i < 4096 \<Longrightarrow> va_is_mapped s (blk_addr b i) = block_is_mapped s b"
  by (simp add: va_is_mapped_def block_is_mapped_def VPN_same_block)

section \<open>The device\<close>

text \<open>The next \<open>n\<close> requests are accepted, after any number of retries, and complete with status 0, after any number of polls.\<close>

fun dev_ok :: "nat \<Rightarrow> u32 list \<Rightarrow> u8 list \<Rightarrow> bool" where
  "dev_ok 0 rs st \<longleftrightarrow> True"
| "dev_ok (Suc n) rs st \<longleftrightarrow>
     (case (dev_accept rs, dev_wait st) of
        (Some (r, rs'), Some (x, st')) \<Rightarrow> 0 \<le> sint r \<and> x = 0 \<and> dev_ok n rs' st'
      | _ \<Rightarrow> False)"

text \<open>States that differ only in the request page, and in what the device still has to answer.\<close>

definition dev_step :: "fsstate \<Rightarrow> fsstate \<Rightarrow> bool" where
  "dev_step s s' \<longleftrightarrow> vpt s' = vpt s \<and> avail s' = avail s \<and> super s' = super s \<and> bitmap s' = bitmap s"

definition same_cache :: "fsstate \<Rightarrow> fsstate \<Rightarrow> bool" where
  "same_cache s s' \<longleftrightarrow> (\<forall>a. VPN a \<noteq> VPN IDE_REQVA \<longrightarrow> fmem s' a = fmem s a)"

lemma VPN_in_req: "k < 4096 \<Longrightarrow> VPN (IDE_REQVA + of_nat k) = VPN IDE_REQVA"
proof -
  assume k: "k < 4096"
  have "unat (IDE_REQVA + of_nat k) = unat IDE_REQVA + k" by (rule unat_plus_of_nat) (use k in \<open>simp add: fs_defs\<close>)
  then show ?thesis using k by (simp add: unat_VPN word_unat_eq_iff fs_defs)
qed

lemma req_addrs:
  assumes "VPN a \<noteq> VPN IDE_REQVA"
  shows "k < 4096 \<Longrightarrow> a \<noteq> IDE_REQVA + of_nat k" "\<not> unat (a - IDE_BUF) < 512"
proof -
  show k: "k < 4096 \<Longrightarrow> a \<noteq> IDE_REQVA + of_nat k" for k using assms VPN_in_req by blast
  show "\<not> unat (a - IDE_BUF) < 512"
  proof
    assume "unat (a - IDE_BUF) < 512"
    moreover have "a = IDE_REQVA + of_nat (6 + unat (a - IDE_BUF))" by (simp add: IDE_BUF_def)
    ultimately show False using k [of "6 + unat (a - IDE_BUF)"] by simp
  qed
qed

lemma st32_outside: "VPN a \<noteq> VPN IDE_REQVA \<Longrightarrow> st32 m IDE_REQVA v a = m a"
  using req_addrs(1) [of a 0] req_addrs(1) [of a 1] req_addrs(1) [of a 2] req_addrs(1) [of a 3] by (simp add: st32_def)

lemma unat_buf: "i < 512 \<Longrightarrow> unat (IDE_BUF + of_nat i) = 0x0eeff006 + i"
  by (subst unat_plus_of_nat) (simp_all add: IDE_BUF_def fs_defs)

lemma buf_addr:
  assumes "i < 512"
  shows "st32 m IDE_REQVA v (IDE_BUF + of_nat i) = m (IDE_BUF + of_nat i)"
    "IDE_BUF + of_nat i \<noteq> IDE_REQVA + 4" "IDE_BUF + of_nat i \<noteq> IDE_REQVA + 5" "unat (IDE_BUF + of_nat i - IDE_BUF) = i"
proof -
  have "unat (IDE_REQVA + of_nat k) = 0x0eeff000 + k" if "k < 6" for k
    by (subst unat_plus_of_nat) (use that in \<open>simp_all add: fs_defs\<close>)
  then have u: "unat (IDE_BUF + of_nat i) \<noteq> unat (IDE_REQVA + of_nat k)" if "k < 6" for k using that unat_buf [OF assms] by simp
  then have n: "IDE_BUF + of_nat i \<noteq> IDE_REQVA + of_nat k" if "k < 6" for k using that by metis
  show "st32 m IDE_REQVA v (IDE_BUF + of_nat i) = m (IDE_BUF + of_nat i)"
    using n [of 0] n [of 1] n [of 2] n [of 3] by (simp add: st32_def)
  show "IDE_BUF + of_nat i \<noteq> IDE_REQVA + 4" "IDE_BUF + of_nat i \<noteq> IDE_REQVA + 5" using n [of 4] n [of 5] by simp_all
  show "unat (IDE_BUF + of_nat i - IDE_BUF) = i" using assms by (simp add: unat_of_nat)
qed

lemma ide_request_ok:
  assumes "dev_ok (Suc n) (dev_results s) (dev_status s)"
  shows "\<exists>s'. ide_request DISKNO sec wrt s = Some s' \<and> dev_step s s' \<and> same_cache s s' \<and> dev_ok n (dev_results s') (dev_status s') \<and>
    (\<forall>x. wrt \<and> x = sec \<or> sectors s' x = sectors s x) \<and>
    (wrt \<longrightarrow> (\<forall>i < 512. sectors s' sec i = fmem s (IDE_BUF + of_nat i))) \<and>
    (\<not> wrt \<longrightarrow> (\<forall>i < 512. fmem s' (IDE_BUF + of_nat i) = sectors s sec i))"
proof -
  obtain r rs st where d: "dev_accept (dev_results s) = Some (r, rs)" "dev_wait (dev_status s) = Some (0, st)" "\<not> sint r < 0" "dev_ok n rs st"
    using assms by (auto split: option.splits)
  define s' where e: "s' = (let m = (st32 (fmem s) IDE_REQVA sec)(IDE_REQVA + 4 := if wrt then 1 else 0, IDE_REQVA + 5 := 0);
      s1 = s\<lparr>dev_results := rs, dev_status := st\<rparr>
    in if wrt then s1\<lparr>fmem := m, sectors := (sectors s)(sec := (\<lambda>i. m (IDE_BUF + of_nat i)))\<rparr>
       else s1\<lparr>fmem := (\<lambda>a. if unat (a - IDE_BUF) < 512 then sectors s sec (unat (a - IDE_BUF)) else m a)\<rparr>)"
  have s': "ide_request DISKNO sec wrt s = Some s'" using d by (cases wrt) (simp_all add: ide_request_def DISKNO_def Let_def e cong: if_cong)
  have "same_cache s s'" unfolding same_cache_def
  proof (intro allI impI)
    fix a assume a: "VPN a \<noteq> VPN IDE_REQVA"
    show "fmem s' a = fmem s a" using req_addrs(1) [OF a, of 4] req_addrs(1) [OF a, of 5] req_addrs(2) [OF a] st32_outside [OF a]
      by (simp add: e Let_def)
  qed
  moreover have "dev_step s s'" "dev_ok n (dev_results s') (dev_status s')" "\<forall>x. wrt \<and> x = sec \<or> sectors s' x = sectors s x"
    using d(4) by (simp_all add: e Let_def dev_step_def)
  moreover have "wrt \<longrightarrow> (\<forall>i < 512. sectors s' sec i = fmem s (IDE_BUF + of_nat i))"
    by (simp add: e Let_def buf_addr)
  moreover have "\<not> wrt \<longrightarrow> (\<forall>i < 512. fmem s' (IDE_BUF + of_nat i) = sectors s sec i)"
    using buf_addr(4) by (simp add: e Let_def)
  ultimately show ?thesis using s' by blast
qed

section \<open>Whole blocks\<close>

definition sector :: "u32 \<Rightarrow> nat \<Rightarrow> u32" where
  "sector b k = b * SECT2BLK + of_nat k"

lemma unat_sector: "blk_ok b \<Longrightarrow> k < 8 \<Longrightarrow> unat (sector b k) = 8 * unat b + k"
proof -
  assume a: "blk_ok b" "k < 8"
  have "unat (b * SECT2BLK) = 8 * unat b" using a by (simp add: fs_defs unat_word_ariths)
  then show ?thesis unfolding sector_def using a by (subst unat_plus_of_nat) simp_all
qed

lemma sector_inj: "blk_ok b \<Longrightarrow> blk_ok c \<Longrightarrow> j < 8 \<Longrightarrow> k < 8 \<Longrightarrow> sector b j = sector c k \<longleftrightarrow> b = c \<and> j = k"
proof -
  assume a: "blk_ok b" "blk_ok c" "j < 8" "k < 8"
  have "unat (sector b j) = unat (sector c k) \<longleftrightarrow> unat b = unat c \<and> j = k" unfolding unat_sector [OF a(1,3)] unat_sector [OF a(2,4)] using a(3,4) by presburger
  then show ?thesis by (simp add: word_unat_eq_iff)
qed

lemma loop_index:
  assumes "blk_ok b" "k \<le> 8"
  shows "(b * SECT2BLK * BY2SECT + of_nat (512 * k) < b * SECT2BLK * BY2SECT + SECT2BLK * BY2SECT) = (k < 8)"
    "b * SECT2BLK + of_nat (512 * k) div BY2SECT = sector b k" "of_nat (512 * k) + BY2SECT = (of_nat (512 * Suc k) :: u32)"
    "diskaddr b + of_nat (512 * k) = blk_addr b (512 * k)"
proof -
  have b: "unat (b * SECT2BLK * BY2SECT) = 4096 * unat b" using assms by (simp add: fs_defs unat_word_ariths)
  have "unat (b * SECT2BLK * BY2SECT + of_nat (512 * k)) = 4096 * unat b + 512 * k"
    using assms b by (subst unat_plus_of_nat) simp_all
  moreover have "unat (b * SECT2BLK * BY2SECT + SECT2BLK * BY2SECT) = 4096 * unat b + 4096"
    using assms b unat_plus_of_nat [of "b * SECT2BLK * BY2SECT" 4096] by (simp add: fs_defs)
  ultimately show "(b * SECT2BLK * BY2SECT + of_nat (512 * k) < b * SECT2BLK * BY2SECT + SECT2BLK * BY2SECT) = (k < 8)"
    by (simp add: word_less_nat_alt)
  have "unat (of_nat (512 * k) :: u32) = 512 * k" "unat (of_nat k :: u32) = k" using assms by (simp_all only: unat_of_nat) simp_all
  then have "(of_nat (512 * k) :: u32) div BY2SECT = of_nat k"
    by (intro word_unat_eq_iff [THEN iffD2]) (simp add: unat_div_distrib fs_defs del: of_nat_mult)
  then show "b * SECT2BLK + of_nat (512 * k) div BY2SECT = sector b k" by (simp add: sector_def)
  show "of_nat (512 * k) + BY2SECT = (of_nat (512 * Suc k) :: u32)" by (simp add: fs_defs)
  show "diskaddr b + of_nat (512 * k) = blk_addr b (512 * k)" by (simp add: blk_addr_def)
qed

lemma blk_addr_plus: "blk_addr b i + of_nat j = blk_addr b (i + j)"
  by (simp add: blk_addr_def)

lemma BY2SECT_nat: "BY2SECT = of_nat 512"
  by (simp add: BY2SECT_def)

lemma blk_bounds:
  assumes "blk_ok b" "k < 8"
  shows "unat (blk_addr b (512 * k)) + 512 + 4 < 2 ^ 32" "unat (blk_addr b (512 * k)) + 512 < 2 ^ 32"
    "unat IDE_BUF + 512 \<le> unat (blk_addr b (512 * k))"
proof -
  have "unat (blk_addr b (512 * k)) = 0x10000000 + 4096 * unat b + 512 * k" using assms by (simp add: unat_blk_addr)
  moreover have "unat IDE_BUF = 0x0eeff006" by (simp add: IDE_BUF_def fs_defs)
  ultimately show "unat (blk_addr b (512 * k)) + 512 + 4 < 2 ^ 32" "unat (blk_addr b (512 * k)) + 512 < 2 ^ 32"
    "unat IDE_BUF + 512 \<le> unat (blk_addr b (512 * k))" using assms by simp_all
qed

lemma req_bounds: "(unat IDE_BUF + 512 + 4 < 2 ^ 32) = True" "(unat IDE_BUF + 512 < 2 ^ 32) = True"
  by (simp_all add: IDE_BUF_def fs_defs)

lemma ide_write_loop_ok:
  assumes b: "blk_ok b" and n: "n \<le> 8"
  shows "block_is_mapped s b \<Longrightarrow> dev_ok (n + m) (dev_results s) (dev_status s) \<Longrightarrow>
    \<exists>s'. ide_write_loop DISKNO (b * SECT2BLK) (diskaddr b) (b * SECT2BLK * BY2SECT) (b * SECT2BLK * BY2SECT + SECT2BLK * BY2SECT)
        (of_nat (512 * (8 - n))) s = Some s' \<and> dev_step s s' \<and> same_cache s s' \<and> dev_ok m (dev_results s') (dev_status s') \<and>
      (\<forall>k i. 8 - n \<le> k \<and> k < 8 \<and> i < 512 \<longrightarrow> sectors s' (sector b k) i = fmem s (blk_addr b (512 * k + i))) \<and>
      (\<forall>x. (\<forall>k. 8 - n \<le> k \<and> k < 8 \<longrightarrow> x \<noteq> sector b k) \<longrightarrow> sectors s' x = sectors s x)"
  using n
proof (induction n arbitrary: s)
  case 0
  then show ?case using loop_index(1) [OF b, of 8] by (subst ide_write_loop.simps) (auto simp: dev_step_def same_cache_def)
next
  case (Suc n)
  define K where "K = 8 - Suc n"
  let ?sec = "b * SECT2BLK"
  have k: "K < 8" "K \<le> 8" "Suc K = 8 - n" "n \<le> 8" using Suc.prems(3) by (auto simp: K_def)
  note ix = loop_index [OF b k(2)]
  have i4: "512 * K + i < 4096" if "i < 512" for i using that k(1) by simp
  have src: "unat (blk_addr b (512 * K)) = 0x10000000 + 4096 * unat b + 512 * K" using i4 [of 0] by (intro unat_blk_addr [OF b]) simp
  have "\<exists>m'. memcpy (fmem s) IDE_BUF (blk_addr b (512 * K)) (of_nat 512) = Some m' \<and>
      (\<forall>i < 512. m' (IDE_BUF + of_nat i) = fmem s (blk_addr b (512 * K) + of_nat i)) \<and>
      (\<forall>a. \<not> (unat IDE_BUF \<le> unat a \<and> unat a < unat IDE_BUF + 512) \<longrightarrow> m' a = fmem s a)"
    by (rule memcpy_bytes) (use blk_bounds [OF b k(1)] in \<open>simp_all only: req_bounds simp_thms\<close>)
  then obtain m' where m': "memcpy (fmem s) IDE_BUF (blk_addr b (512 * K)) BY2SECT = Some m'"
    "\<And>i. i < 512 \<Longrightarrow> m' (IDE_BUF + of_nat i) = fmem s (blk_addr b (512 * K + i))"
    "\<And>a. \<not> (unat IDE_BUF \<le> unat a \<and> unat a < unat IDE_BUF + 512) \<Longrightarrow> m' a = fmem s a"
    unfolding BY2SECT_nat blk_addr_plus by blast
  have sc: "same_cache s (s\<lparr>fmem := m'\<rparr>)" unfolding same_cache_def
  proof (intro allI impI)
    fix a assume "VPN a \<noteq> VPN IDE_REQVA"
    then have "\<not> (unat IDE_BUF \<le> unat a \<and> unat a < unat IDE_BUF + 512)"
      using VPN_req by (auto simp: unat_VPN IDE_BUF_def fs_defs word_unat_eq_iff)
    then show "fmem (s\<lparr>fmem := m'\<rparr>) a = fmem s a" using m'(3) by simp
  qed
  have "dev_ok (Suc (n + m)) (dev_results (s\<lparr>fmem := m'\<rparr>)) (dev_status (s\<lparr>fmem := m'\<rparr>))" using Suc.prems(2) by simp
  from ide_request_ok [OF this, of "sector b K" True] obtain s1 where s1: "ide_request DISKNO (sector b K) True (s\<lparr>fmem := m'\<rparr>) = Some s1"
    "dev_step (s\<lparr>fmem := m'\<rparr>) s1" "same_cache (s\<lparr>fmem := m'\<rparr>) s1" "dev_ok (n + m) (dev_results s1) (dev_status s1)"
    "\<And>x. x \<noteq> sector b K \<Longrightarrow> sectors s1 x = sectors s x" "\<And>i. i < 512 \<Longrightarrow> sectors s1 (sector b K) i = m' (IDE_BUF + of_nat i)"
    by auto
  have mp: "block_is_mapped s1 b" using Suc.prems(1) s1(2) by (simp add: block_is_mapped_def va_is_mapped_def dev_step_def)
  have c1: "fmem s1 (blk_addr b i) = fmem s (blk_addr b i)" if "i < 4096" for i
    using s1(3) sc VPN_blk_req [OF b that] by (simp add: same_cache_def)
  from Suc.IH [OF mp s1(4) k(4)] obtain s' where s': "ide_write_loop DISKNO ?sec (diskaddr b) (?sec * BY2SECT) (?sec * BY2SECT + SECT2BLK * BY2SECT)
        (of_nat (512 * (8 - n))) s1 = Some s'" "dev_step s1 s'" "same_cache s1 s'" "dev_ok m (dev_results s') (dev_status s')"
      "\<And>k i. 8 - n \<le> k \<Longrightarrow> k < 8 \<Longrightarrow> i < 512 \<Longrightarrow> sectors s' (sector b k) i = fmem s1 (blk_addr b (512 * k + i))"
      "\<And>x. (\<And>k. 8 - n \<le> k \<Longrightarrow> k < 8 \<Longrightarrow> x \<noteq> sector b k) \<Longrightarrow> sectors s' x = sectors s1 x" by blast
  have run: "ide_write_loop DISKNO ?sec (diskaddr b) (?sec * BY2SECT) (?sec * BY2SECT + SECT2BLK * BY2SECT) (of_nat (512 * K)) s = Some s'"
    using va_is_mapped_block [OF b, of "512 * K" s] i4 [of 0] Suc.prems(1)
    by (subst ide_write_loop.simps) (simp add: ix k(1,3) m'(1) s1(1) s'(1) del: of_nat_mult of_nat_Suc)
  have "sectors s' (sector b j) i = fmem s (blk_addr b (512 * j + i))" if "K \<le> j" "j < 8" "i < 512" for j i
  proof (cases "j = K")
    case True
    have "sectors s' (sector b K) = sectors s1 (sector b K)" by (rule s'(6)) (use sector_inj [OF b b k(1)] k in auto)
    then show ?thesis using True s1(6) [OF that(3)] m'(2) [OF that(3)] by simp
  next
    case False
    then have "8 - n \<le> j" using that(1) k(3) by linarith
    moreover have "512 * j + i < 4096" using that by simp
    ultimately show ?thesis using s'(5) that c1 by simp
  qed
  moreover have "sectors s' x = sectors s x" if "\<forall>j. K \<le> j \<and> j < 8 \<longrightarrow> x \<noteq> sector b j" for x
    using that s'(6) [of x] s1(5) [of x] k by auto
  moreover have "dev_step s s'" "same_cache s s'" using s1(2,3) s'(2,3) sc by (simp_all add: dev_step_def same_cache_def)
  ultimately show ?case unfolding K_def [symmetric] using run s'(4) by blast
qed

lemma ide_read_loop_ok:
  assumes b: "blk_ok b" and n: "n \<le> 8"
  shows "block_is_mapped s b \<Longrightarrow> dev_ok (n + m) (dev_results s) (dev_status s) \<Longrightarrow>
    \<exists>s'. ide_read_loop DISKNO (b * SECT2BLK) (diskaddr b) (b * SECT2BLK * BY2SECT) (b * SECT2BLK * BY2SECT + SECT2BLK * BY2SECT)
        (of_nat (512 * (8 - n))) s = Some s' \<and> dev_step s s' \<and> dev_ok m (dev_results s') (dev_status s') \<and> sectors s' = sectors s \<and>
      (\<forall>k i. 8 - n \<le> k \<and> k < 8 \<and> i < 512 \<longrightarrow> fmem s' (blk_addr b (512 * k + i)) = sectors s (sector b k) i) \<and>
      (\<forall>a. VPN a \<noteq> VPN IDE_REQVA \<longrightarrow> \<not> (unat (blk_addr b 0) + 512 * (8 - n) \<le> unat a \<and> unat a < unat (blk_addr b 0) + 4096) \<longrightarrow> fmem s' a = fmem s a)"
  using n
proof (induction n arbitrary: s)
  case 0
  then show ?case using loop_index(1) [OF b, of 8] by (subst ide_read_loop.simps) (auto simp: dev_step_def)
next
  case (Suc n)
  define K where "K = 8 - Suc n"
  let ?sec = "b * SECT2BLK"
  have k: "K < 8" "K \<le> 8" "Suc K = 8 - n" "n \<le> 8" using Suc.prems(3) by (auto simp: K_def)
  note ix = loop_index [OF b k(2)]
  have i4: "512 * K + i < 4096" if "i < 512" for i using that k(1) by simp
  have b0: "unat (blk_addr b 0) = 0x10000000 + 4096 * unat b" by (simp add: unat_blk_addr [OF b])
  have dst: "unat (blk_addr b (512 * K)) = 0x10000000 + 4096 * unat b + 512 * K" using i4 [of 0] by (intro unat_blk_addr [OF b]) simp
  have "dev_ok (Suc (n + m)) (dev_results s) (dev_status s)" using Suc.prems(2) by simp
  from ide_request_ok [OF this, of "sector b K" False] obtain s1 where s1: "ide_request DISKNO (sector b K) False s = Some s1"
    "dev_step s s1" "same_cache s s1" "dev_ok (n + m) (dev_results s1) (dev_status s1)" "sectors s1 = sectors s"
    "\<And>i. i < 512 \<Longrightarrow> fmem s1 (IDE_BUF + of_nat i) = sectors s (sector b K) i" by auto
  have "\<exists>m'. memcpy (fmem s1) (blk_addr b (512 * K)) IDE_BUF (of_nat 512) = Some m' \<and>
      (\<forall>i < 512. m' (blk_addr b (512 * K) + of_nat i) = fmem s1 (IDE_BUF + of_nat i)) \<and>
      (\<forall>a. \<not> (unat (blk_addr b (512 * K)) \<le> unat a \<and> unat a < unat (blk_addr b (512 * K)) + 512) \<longrightarrow> m' a = fmem s1 a)"
    by (rule memcpy_bytes) (use blk_bounds [OF b k(1)] in \<open>simp_all only: req_bounds simp_thms\<close>)
  then obtain m' where m': "memcpy (fmem s1) (blk_addr b (512 * K)) IDE_BUF BY2SECT = Some m'"
    "\<And>i. i < 512 \<Longrightarrow> m' (blk_addr b (512 * K + i)) = fmem s1 (IDE_BUF + of_nat i)"
    "\<And>a. \<not> (unat (blk_addr b (512 * K)) \<le> unat a \<and> unat a < unat (blk_addr b (512 * K)) + 512) \<Longrightarrow> m' a = fmem s1 a"
    unfolding BY2SECT_nat blk_addr_plus by blast
  let ?s2 = "s1\<lparr>fmem := m'\<rparr>"
  have mp: "block_is_mapped s1 b" "block_is_mapped ?s2 b" "dev_ok (n + m) (dev_results ?s2) (dev_status ?s2)"
    using Suc.prems(1) s1(2,4) by (simp_all add: block_is_mapped_def va_is_mapped_def dev_step_def)
  from Suc.IH [OF mp(2,3) k(4)] obtain s' where s': "ide_read_loop DISKNO ?sec (diskaddr b) (?sec * BY2SECT) (?sec * BY2SECT + SECT2BLK * BY2SECT)
        (of_nat (512 * (8 - n))) ?s2 = Some s'" "dev_step ?s2 s'" "dev_ok m (dev_results s') (dev_status s')" "sectors s' = sectors ?s2"
      "\<And>k i. 8 - n \<le> k \<Longrightarrow> k < 8 \<Longrightarrow> i < 512 \<Longrightarrow> fmem s' (blk_addr b (512 * k + i)) = sectors ?s2 (sector b k) i"
      "\<And>a. VPN a \<noteq> VPN IDE_REQVA \<Longrightarrow> \<not> (unat (blk_addr b 0) + 512 * (8 - n) \<le> unat a \<and> unat a < unat (blk_addr b 0) + 4096) \<Longrightarrow> fmem s' a = fmem ?s2 a"
    by blast
  have run: "ide_read_loop DISKNO ?sec (diskaddr b) (?sec * BY2SECT) (?sec * BY2SECT + SECT2BLK * BY2SECT) (of_nat (512 * K)) s = Some s'"
    using va_is_mapped_block [OF b, of "512 * K" s1] i4 [of 0] mp(1)
    by (subst ide_read_loop.simps) (simp add: ix k(1,3) m'(1) s1(1) s'(1) del: of_nat_mult of_nat_Suc)
  have "fmem s' (blk_addr b (512 * j + i)) = sectors s (sector b j) i" if "K \<le> j" "j < 8" "i < 512" for j i
  proof (cases "j = K")
    case True
    have u: "unat (blk_addr b (512 * K + i)) = 0x10000000 + 4096 * unat b + (512 * K + i)" by (rule unat_blk_addr [OF b i4 [OF that(3)]])
    have "512 * K + i < 512 * (8 - n)" using that(3) k(3) by linarith
    then have "fmem s' (blk_addr b (512 * K + i)) = fmem ?s2 (blk_addr b (512 * K + i))"
      using s'(6) [OF VPN_blk_req [OF b i4 [OF that(3)]]] by (simp only: u b0) simp
    then show ?thesis using True m'(2) [OF that(3)] s1(6) [OF that(3)] by simp
  next
    case False
    then have "8 - n \<le> j" using that(1) k(3) by linarith
    then show ?thesis using s'(5) that s1(5) by simp
  qed
  moreover have "fmem s' a = fmem s a"
    if "VPN a \<noteq> VPN IDE_REQVA" "\<not> (unat (blk_addr b 0) + 512 * K \<le> unat a \<and> unat a < unat (blk_addr b 0) + 4096)" for a
  proof -
    have "\<not> (unat (blk_addr b 0) + 512 * (8 - n) \<le> unat a \<and> unat a < unat (blk_addr b 0) + 4096)" using that(2) k(3) by linarith
    moreover have "\<not> (unat (blk_addr b (512 * K)) \<le> unat a \<and> unat a < unat (blk_addr b (512 * K)) + 512)"
      using that(2) k(1) unfolding dst b0 by linarith
    ultimately show ?thesis using s'(6) [OF that(1)] m'(3) s1(3) that(1) by (simp add: same_cache_def)
  qed
  moreover have "dev_step s s'" "sectors s' = sectors s" using s1(2,5) s'(2,4) by (simp_all add: dev_step_def)
  ultimately show ?case unfolding K_def [symmetric] using run s'(3) by blast
qed

text \<open>Byte \<open>i\<close> of block \<open>b\<close>, in the cache and on the disk.\<close>

definition cached :: "fsstate \<Rightarrow> u32 \<Rightarrow> nat \<Rightarrow> u8" where
  "cached s b i = fmem s (blk_addr b i)"

definition on_disk :: "fsstate \<Rightarrow> u32 \<Rightarrow> nat \<Rightarrow> u8" where
  "on_disk s b i = sectors s (sector b (i div 512)) (i mod 512)"

lemma write_block_ok:
  assumes "blk_ok b" "block_is_mapped s b" "dev_ok (8 + m) (dev_results s) (dev_status s)"
  shows "\<exists>s'. write_block b s = Some s' \<and> dev_step s s' \<and> same_cache s s' \<and> dev_ok m (dev_results s') (dev_status s') \<and>
    (\<forall>i < 4096. on_disk s' b i = cached s b i) \<and> (\<forall>c. blk_ok c \<and> c \<noteq> b \<longrightarrow> (\<forall>i < 4096. on_disk s' c i = on_disk s c i))"
proof -
  have r: "write_block b s = ide_write_loop DISKNO (b * SECT2BLK) (diskaddr b) (b * SECT2BLK * BY2SECT) (b * SECT2BLK * BY2SECT + SECT2BLK * BY2SECT) (of_nat (512 * (8 - 8))) s"
    using assms(2) by (simp add: write_block_def ide_write_def Let_def)
  have n: "(8 :: nat) \<le> 8" by simp
  from ide_write_loop_ok [OF assms(1) n assms(2,3)] obtain s' where
    s': "write_block b s = Some s'" "dev_step s s'" "same_cache s s'" "dev_ok m (dev_results s') (dev_status s')"
      "\<And>k i. k < 8 \<Longrightarrow> i < 512 \<Longrightarrow> sectors s' (sector b k) i = fmem s (blk_addr b (512 * k + i))"
      "\<And>x. (\<And>k. k < 8 \<Longrightarrow> x \<noteq> sector b k) \<Longrightarrow> sectors s' x = sectors s x" unfolding r by auto
  have "on_disk s' b i = cached s b i" if "i < 4096" for i
  proof -
    have "i div 512 < 8" "i mod 512 < 512" "512 * (i div 512) + i mod 512 = i" using that by (simp_all add: div_less_iff_less_mult)
    then show ?thesis using s'(5) [of "i div 512" "i mod 512"] by (simp add: on_disk_def cached_def)
  qed
  moreover have "on_disk s' c i = on_disk s c i" if "blk_ok c" "c \<noteq> b" "i < 4096" for c i
  proof -
    have "i div 512 < 8" using that(3) by (simp add: div_less_iff_less_mult)
    then show ?thesis using s'(6) [of "sector c (i div 512)"] sector_inj [OF that(1) assms(1)] that(2) by (simp add: on_disk_def)
  qed
  ultimately show ?thesis using s'(1-4) by blast
qed

lemma same_cache_block: "same_cache s s' \<Longrightarrow> blk_ok b \<Longrightarrow> i < 4096 \<Longrightarrow> cached s' b i = cached s b i"
  using VPN_blk_req by (simp add: same_cache_def cached_def)

text \<open>Reading a block that is not in the cache.\<close>

definition readable :: "fsstate \<Rightarrow> u32 \<Rightarrow> bool" where
  "readable s b \<longleftrightarrow> (super s = 0 \<or> (\<exists>n. rd32 s (s_nblocks (super s)) = Some n \<and> b < n)) \<and> (bitmap s = 0 \<or> block_is_free s b = Some False)"

lemma ide_read_block:
  assumes "blk_ok b" "block_is_mapped s b" "dev_ok (8 + m) (dev_results s) (dev_status s)"
  shows "\<exists>s'. ide_read DISKNO (b * SECT2BLK) (diskaddr b) SECT2BLK s = Some s' \<and> dev_step s s' \<and> dev_ok m (dev_results s') (dev_status s') \<and>
    sectors s' = sectors s \<and> (\<forall>i < 4096. cached s' b i = on_disk s b i) \<and>
    (\<forall>a. VPN a \<noteq> VPN IDE_REQVA \<and> VPN a \<noteq> VPN (diskaddr b) \<longrightarrow> fmem s' a = fmem s a)"
proof -
  have r: "ide_read DISKNO (b * SECT2BLK) (diskaddr b) SECT2BLK s = ide_read_loop DISKNO (b * SECT2BLK) (diskaddr b) (b * SECT2BLK * BY2SECT) (b * SECT2BLK * BY2SECT + SECT2BLK * BY2SECT) (of_nat (512 * (8 - 8))) s"
    by (simp add: ide_read_def Let_def)
  have n: "(8 :: nat) \<le> 8" by simp
  from ide_read_loop_ok [OF assms(1) n assms(2,3)] obtain s' where
    s': "ide_read DISKNO (b * SECT2BLK) (diskaddr b) SECT2BLK s = Some s'" "dev_step s s'" "dev_ok m (dev_results s') (dev_status s')"
      "sectors s' = sectors s"
      "\<And>k i. k < 8 \<Longrightarrow> i < 512 \<Longrightarrow> fmem s' (blk_addr b (512 * k + i)) = sectors s (sector b k) i"
      "\<And>a. VPN a \<noteq> VPN IDE_REQVA \<Longrightarrow> \<not> (unat (blk_addr b 0) \<le> unat a \<and> unat a < unat (blk_addr b 0) + 4096) \<Longrightarrow> fmem s' a = fmem s a"
    unfolding r by auto
  have "cached s' b i = on_disk s b i" if "i < 4096" for i
  proof -
    have "i div 512 < 8" "i mod 512 < 512" "512 * (i div 512) + i mod 512 = i" using that by (simp_all add: div_less_iff_less_mult)
    then show ?thesis using s'(5) [of "i div 512" "i mod 512"] by (simp add: on_disk_def cached_def)
  qed
  moreover have "fmem s' a = fmem s a" if "VPN a \<noteq> VPN IDE_REQVA" "VPN a \<noteq> VPN (diskaddr b)" for a
  proof (rule s'(6) [OF that(1)])
    have "unat (VPN a) \<noteq> unat (VPN (diskaddr b))" using that(2) by (simp add: word_unat_eq_iff)
    then have "unat a div 4096 \<noteq> 0x10000 + unat b" using VPN_diskaddr [OF assms(1)] by (simp add: unat_VPN)
    moreover have "unat (blk_addr b 0) = 0x10000000 + 4096 * unat b" by (simp add: unat_blk_addr [OF assms(1)])
    moreover have "x div 4096 = 0x10000 + k" if "0x10000000 + 4096 * k \<le> x" "x < 0x10000000 + 4096 * k + 4096" for x k :: nat
      by (rule div_nat_eqI) (use that in simp_all)
    ultimately show "\<not> (unat (blk_addr b 0) \<le> unat a \<and> unat a < unat (blk_addr b 0) + 4096)" by auto
  qed
  ultimately show ?thesis using s'(1-4) by blast
qed

lemma read_block_ok:
  assumes b: "blk_ok b" and nm: "\<not> block_is_mapped s b" and rd: "readable s b" and av: "0 < avail s"
    and dv: "dev_ok (8 + m) (dev_results s) (dev_status s)"
  shows "\<exists>s'. read_block b s = Some (Inr (diskaddr b, True), s') \<and> block_is_mapped s' b \<and> avail s' = avail s - 1 \<and>
    super s' = super s \<and> bitmap s' = bitmap s \<and> dev_ok m (dev_results s') (dev_status s') \<and> sectors s' = sectors s \<and>
    (\<forall>i < 4096. cached s' b i = on_disk s b i) \<and>
    (\<forall>a. VPN a \<noteq> VPN IDE_REQVA \<and> VPN a \<noteq> VPN (diskaddr b) \<longrightarrow> fmem s' a = fmem s a) \<and>
    vpt s' = (vpt s)(VPN (diskaddr b) := PTE_W OR PTE_U OR PTE_V)"
proof -
  define s1 where "s1 = s\<lparr>fmem := (\<lambda>a. if VPN a = VPN (diskaddr b) then 0 else fmem s a),
    vpt := (vpt s)(VPN (diskaddr b) := PTE_W OR PTE_U OR PTE_V), avail := avail s - 1\<rparr>"
  have al: "syscall_mem_alloc (diskaddr b) PTE_W s = (Inr (), s1)"
    using legal_diskaddr [OF b] av by (simp add: syscall_mem_alloc_def s1_def)
  have mp: "block_is_mapped s1 b" "dev_ok (8 + m) (dev_results s1) (dev_status s1)"
    using dv by (simp_all add: block_is_mapped_def va_is_mapped_def s1_def has_def PTE_W_def PTE_U_def PTE_V_def)
  from ide_read_block [OF b mp] obtain s' where
    s': "ide_read DISKNO (b * SECT2BLK) (diskaddr b) SECT2BLK s1 = Some s'" "dev_step s1 s'" "dev_ok m (dev_results s') (dev_status s')"
      "sectors s' = sectors s1" "\<forall>i < 4096. cached s' b i = on_disk s1 b i"
      "\<forall>a. VPN a \<noteq> VPN IDE_REQVA \<and> VPN a \<noteq> VPN (diskaddr b) \<longrightarrow> fmem s' a = fmem s1 a" by blast
  have "read_block b s = Some (Inr (diskaddr b, True), s')"
    using rd nm al s'(1) by (auto simp: read_block_def readable_def Let_def)
  moreover have "block_is_mapped s' b" using mp(1) s'(2) by (simp add: block_is_mapped_def va_is_mapped_def dev_step_def)
  moreover have "\<forall>i < 4096. cached s' b i = on_disk s b i" using s'(5) by (simp add: on_disk_def s1_def)
  moreover have "avail s' = avail s - 1" "super s' = super s" "bitmap s' = bitmap s" "sectors s' = sectors s"
    "vpt s' = (vpt s)(VPN (diskaddr b) := PTE_W OR PTE_U OR PTE_V)"
    using s'(2,4) by (simp_all add: dev_step_def s1_def)
  ultimately show ?thesis using s'(3,6) by (auto simp: s1_def)
qed

section \<open>The file system in its steady state\<close>

text \<open>After \<^verbatim>\<open>fs_init\<close>: the super block with \<open>n\<close> blocks and the bitmap blocks are in the cache.\<close>

definition fs_ok :: "fsstate \<Rightarrow> nat \<Rightarrow> bool" where
  "fs_ok s n \<longleftrightarrow> super s = diskaddr 1 \<and> bitmap s = diskaddr 2 \<and> n \<le> 0x40000 \<and> ld32 (fmem s) (s_nblocks (diskaddr 1)) = of_nat n \<and>
     (\<forall>b. 1 \<le> b \<and> b \<le> 2 + n div 32768 \<longrightarrow> block_is_mapped s (of_nat b))"

definition free_bit :: "fsstate \<Rightarrow> u32 \<Rightarrow> bool" where
  "free_bit s b \<longleftrightarrow> bit (ld32 (fmem s) (bitmap s + 4 * (b div 32))) (unat b mod 32)"

text \<open>The bitmap block and the offset of the word with the bit of block \<open>b\<close>.\<close>

definition map_blk :: "u32 \<Rightarrow> u32" where "map_blk b = of_nat (2 + unat b div 32768)"
definition map_off :: "u32 \<Rightarrow> nat" where "map_off b = 4 * (unat b div 32 mod 1024)"

lemma unat_of_nat_small: "k < 2 ^ 32 \<Longrightarrow> unat (of_nat k :: u32) = k"
  by (simp add: unat_of_nat)

lemma unat_map_blk: "blk_ok b \<Longrightarrow> unat (map_blk b) = 2 + unat b div 32768"
  unfolding map_blk_def by (rule unat_of_nat_small) (simp add: div_less_iff_less_mult add.commute less_diff_conv [symmetric])

lemma map_blk_ok: "blk_ok b \<Longrightarrow> blk_ok (map_blk b)"
proof -
  assume b: "blk_ok b"
  then have "unat b div 32768 < 8" by (simp add: div_less_iff_less_mult)
  then show ?thesis using unat_map_blk [OF b] by simp
qed

lemma map_off_less: "map_off b + 4 \<le> 4096"
proof -
  have "unat b div 32 mod 1024 < 1024" by simp
  then show ?thesis unfolding map_off_def by linarith
qed

lemma map_addr: "blk_ok b \<Longrightarrow> diskaddr 2 + 4 * (b div 32) = blk_addr (map_blk b) (map_off b)"
proof (rule word_unat_eq_iff [THEN iffD2])
  assume b: "blk_ok b"
  have "unat (b div 32) = unat b div 32" by (simp add: unat_div_distrib)
  then have "unat (4 * (b div 32)) = 4 * (unat b div 32)" using b by (simp add: unat_word_ariths)
  moreover have "4 * (unat b div 32) < 0x10000" using b by linarith
  ultimately have l: "unat (diskaddr 2 + 4 * (b div 32)) = 0x10002000 + 4 * (unat b div 32)"
    by (simp add: diskaddr_def fs_defs unat_word_ariths)
  have "map_off b < 4096" using map_off_less [of b] by simp
  then have r: "unat (blk_addr (map_blk b) (map_off b)) = 0x10000000 + 4096 * (2 + unat b div 32768) + 4 * (unat b div 32 mod 1024)"
    using unat_blk_addr [OF map_blk_ok [OF b]] by (simp add: unat_map_blk [OF b] map_off_def)
  have "unat b div 32768 = unat b div 32 div 1024" by (simp add: div_mult2_eq [symmetric])
  moreover have "1024 * (unat b div 32 div 1024) + unat b div 32 mod 1024 = unat b div 32" by simp
  ultimately have "4096 * (unat b div 32768) + 4 * (unat b div 32 mod 1024) = 4 * (unat b div 32)" by linarith
  then show "unat (diskaddr 2 + 4 * (b div 32)) = unat (blk_addr (map_blk b) (map_off b))" unfolding l r by simp
qed

lemma nblocks_addr: "s_nblocks (diskaddr 1) = blk_addr 1 4"
  by (simp add: s_nblocks_def blk_addr_def)

lemma one_ok: "blk_ok 1" by simp

lemma blk_addr_aligned: "blk_ok b \<Longrightarrow> i < 4096 \<Longrightarrow> 4 dvd i \<Longrightarrow> aligned4 (blk_addr b i)"
  by (simp add: aligned4_def unat_blk_addr)

lemma blk_addr_inj: "blk_ok b \<Longrightarrow> blk_ok c \<Longrightarrow> i < 4096 \<Longrightarrow> j < 4096 \<Longrightarrow> blk_addr b i = blk_addr c j \<longleftrightarrow> b = c \<and> i = j"
proof -
  assume a: "blk_ok b" "blk_ok c" "i < 4096" "j < 4096"
  have "4096 * x + i = 4096 * y + j \<longleftrightarrow> x = y \<and> i = j" for x y :: nat
  proof
    assume e: "4096 * x + i = 4096 * y + j"
    then have "(4096 * x + i) div 4096 = (4096 * y + j) div 4096" by (rule arg_cong)
    then have "x = y" using a(3,4) by simp
    with e show "x = y \<and> i = j" by simp
  qed simp
  then show ?thesis using unat_blk_addr [OF a(1,3)] unat_blk_addr [OF a(2,4)] by (simp add: word_unat_eq_iff add.assoc)
qed

lemma ld32_same_cache:
  assumes "same_cache s s'" "blk_ok b" "i + 4 \<le> 4096"
  shows "ld32 (fmem s') (blk_addr b i) = ld32 (fmem s) (blk_addr b i)"
proof -
  have "fmem s' (blk_addr b (i + k)) = fmem s (blk_addr b (i + k))" if "k < 4" for k
    using assms(1) VPN_blk_req [OF assms(2), of "i + k"] assms(3) that by (simp add: same_cache_def)
  from this [of 0] this [of 1] this [of 2] this [of 3] show ?thesis by (simp add: ld32_def blk_addr_def ac_simps)
qed

lemma fs_ok_nblocks: "fs_ok s n \<Longrightarrow> rd32 s (s_nblocks (super s)) = Some (of_nat n)"
proof -
  assume f: "fs_ok s n"
  then have "block_is_mapped s (of_nat 1)" unfolding fs_ok_def by (metis add_leD1 le_add1 one_add_one order_refl)
  then have "va_is_mapped s (blk_addr 1 4)" using va_is_mapped_block [OF one_ok, of 4 s] by simp
  then show ?thesis using f by (simp add: fs_ok_def rd32_def nblocks_addr)
qed

lemma fs_ok_small: "fs_ok s n \<Longrightarrow> unat b < n \<Longrightarrow> blk_ok b"
  by (simp add: fs_ok_def)

lemma fs_ok_map:
  assumes "fs_ok s n" "unat b < n"
  shows "block_is_mapped s (map_blk b)" "va_is_mapped s (bitmap s + 4 * (b div 32))"
proof -
  note b = fs_ok_small [OF assms]
  have "1 \<le> 2 + unat b div 32768 \<and> 2 + unat b div 32768 \<le> 2 + n div 32768" using assms(2) by (simp add: div_le_mono)
  then show m: "block_is_mapped s (map_blk b)" using assms(1) unfolding fs_ok_def map_blk_def by blast
  have "map_off b < 4096" using map_off_less [of b] by simp
  then show "va_is_mapped s (bitmap s + 4 * (b div 32))"
    using assms(1) m va_is_mapped_block [OF map_blk_ok [OF b]] by (simp add: fs_ok_def map_addr [OF b])
qed

lemma map_word:
  assumes "fs_ok s n" "unat b < n"
  shows "rd32 s (bitmap s + 4 * (b div 32)) = Some (ld32 (fmem s) (bitmap s + 4 * (b div 32)))"
    "wr32 (bitmap s + 4 * (b div 32)) w s = Some (s\<lparr>fmem := st32 (fmem s) (bitmap s + 4 * (b div 32)) w\<rparr>)"
  using fs_ok_map(2) [OF assms] by (simp_all add: rd32_def wr32_def)

lemma free_test: "(w AND push_bit (unat (b mod 32)) 1 \<noteq> 0) = bit (w :: u32) (unat (b :: u32) mod 32)"
  by (simp add: bit_iff_and_push_bit_not_eq_0 unat_mod_distrib)

lemma block_is_free_bit: "fs_ok s n \<Longrightarrow> unat b < n \<Longrightarrow> block_is_free s b = Some (free_bit s b)"
proof -
  assume a: "fs_ok s n" "unat b < n"
  have "super s \<noteq> 0" using a(1) by (simp add: fs_ok_def diskaddr_def fs_defs)
  moreover have "\<not> of_nat n \<le> b" using a by (simp add: word_le_nat_alt unat_of_nat fs_ok_def)
  ultimately show ?thesis unfolding block_is_free_def free_test free_bit_def using fs_ok_nblocks [OF a(1)] map_word(1) [OF a] by simp
qed

lemma map_addr_inj:
  assumes "blk_ok b" "blk_ok c" shows "diskaddr 2 + 4 * (b div 32) = diskaddr 2 + 4 * (c div 32) \<longleftrightarrow> b div 32 = c div 32"
proof -
  have "unat (4 * (x div 32)) = 4 * (unat x div 32)" if "blk_ok x" for x :: u32
  proof -
    have "4 * (unat x div 32) < 0x10000" using that by linarith
    then show ?thesis by (simp add: unat_word_ariths unat_div_distrib)
  qed
  then have "4 * (b div 32) = 4 * (c div 32) \<longleftrightarrow> unat b div 32 = unat c div 32" using assms by (simp add: word_unat_eq_iff)
  moreover have "b div 32 = c div 32 \<longleftrightarrow> unat b div 32 = unat c div 32" by (simp add: word_unat_eq_iff unat_div_distrib)
  ultimately show ?thesis by simp
qed

text \<open>A store into the word of the bitmap with the bit of \<open>b\<close>.\<close>

lemma map_store:
  fixes w :: u32
  assumes f: "fs_ok s n" and b: "unat b < n"
  defines "s1 \<equiv> s\<lparr>fmem := st32 (fmem s) (bitmap s + 4 * (b div 32)) w\<rparr>"
  shows "fs_ok s1 n" "\<And>c. unat c < n \<Longrightarrow> free_bit s1 c = (if c div 32 = b div 32 then bit w (unat c mod 32) else free_bit s c)"
    "\<And>c i. blk_ok c \<Longrightarrow> c \<noteq> map_blk b \<Longrightarrow> i < 4096 \<Longrightarrow> cached s1 c i = cached s c i" "\<And>c. block_is_mapped s1 c = block_is_mapped s c"
proof -
  note bo = fs_ok_small [OF f b]
  have bm: "bitmap s = diskaddr 2" using f by (simp add: fs_ok_def)
  have al: "aligned4 (diskaddr 2 + 4 * (c div 32))" if "blk_ok c" for c
    unfolding map_addr [OF that] by (rule blk_addr_aligned [OF map_blk_ok [OF that]]) (use map_off_less [of c] in \<open>simp_all add: map_off_def\<close>)
  have m1: "map_blk b \<noteq> 1" using unat_map_blk [OF bo] by auto
  have off: "map_off b + k < 4096" if "k < 4" for k using map_off_less [of b] that by simp
  have "aligned4 (blk_addr 1 4)" by (rule blk_addr_aligned) simp_all
  moreover have "diskaddr 2 + 4 * (b div 32) \<noteq> blk_addr 1 4"
    unfolding map_addr [OF bo] using blk_addr_inj [OF map_blk_ok [OF bo] one_ok] off [of 0] m1 by simp
  ultimately have "ld32 (fmem s1) (blk_addr 1 4) = ld32 (fmem s) (blk_addr 1 4)" unfolding s1_def using ld32_st32_other [OF al [OF bo]] bm by simp
  then show "fs_ok s1 n" using f by (simp add: fs_ok_def nblocks_addr) (simp add: s1_def block_is_mapped_def va_is_mapped_def)
  show "free_bit s1 c = (if c div 32 = b div 32 then bit w (unat c mod 32) else free_bit s c)" if "unat c < n" for c
  proof -
    note co = fs_ok_small [OF f that]
    show ?thesis
    proof (cases "c div 32 = b div 32")
      case True
      then show ?thesis by (simp add: free_bit_def s1_def ld32_st32_same)
    next
      case False
      then have "diskaddr 2 + 4 * (b div 32) \<noteq> diskaddr 2 + 4 * (c div 32)" using map_addr_inj [OF bo co] by auto
      from ld32_st32_other [OF al [OF bo] al [OF co] this] show ?thesis using False by (simp add: free_bit_def s1_def bm)
    qed
  qed
  show "cached s1 c i = cached s c i" if "blk_ok c" "c \<noteq> map_blk b" "i < 4096" for c i
  proof -
    have "blk_addr c i \<noteq> blk_addr (map_blk b) (map_off b + k)" if "k < 4" for k
      using blk_addr_inj [OF \<open>blk_ok c\<close> map_blk_ok [OF bo] \<open>i < 4096\<close> off [OF that]] \<open>c \<noteq> map_blk b\<close> by simp
    from this [of 0] this [of 1] this [of 2] this [of 3]
    have "blk_addr c i \<noteq> diskaddr 2 + 4 * (b div 32) + k" if "k = 0 \<or> k = 1 \<or> k = 2 \<or> k = 3" for k
      unfolding map_addr [OF bo] using that by (auto simp: blk_addr_def add.assoc)
    from this [of 0] this [of 1] this [of 2] this [of 3] show ?thesis by (simp add: cached_def s1_def st32_def bm)
  qed
  show "block_is_mapped s1 c = block_is_mapped s c" for c by (simp add: s1_def block_is_mapped_def va_is_mapped_def)
qed

lemma word_bit_eq: "c div 32 = b div 32 \<Longrightarrow> unat c mod 32 = unat b mod 32 \<Longrightarrow> (c :: u32) = b"
proof -
  assume a: "c div 32 = b div 32" "unat c mod 32 = unat b mod 32"
  have "unat c div 32 = unat b div 32" using arg_cong [OF a(1), of unat] by (simp add: unat_div_distrib)
  with a(2) have "unat c = unat b" by (metis div_mult_mod_eq)
  then show ?thesis by (simp add: word_unat_eq_iff)
qed

lemma dev_step_fs:
  assumes "fs_ok s n" "dev_step s s'" "same_cache s s'"
  shows "fs_ok s' n" "unat b < n \<Longrightarrow> free_bit s' b = free_bit s b"
proof -
  have "ld32 (fmem s') (blk_addr 1 4) = ld32 (fmem s) (blk_addr 1 4)" by (rule ld32_same_cache [OF assms(3) one_ok]) simp
  then show "fs_ok s' n" using assms(1,2) by (simp add: fs_ok_def dev_step_def nblocks_addr block_is_mapped_def va_is_mapped_def)
  assume b: "unat b < n"
  note bo = fs_ok_small [OF assms(1) b]
  have "ld32 (fmem s') (blk_addr (map_blk b) (map_off b)) = ld32 (fmem s) (blk_addr (map_blk b) (map_off b))"
    by (rule ld32_same_cache [OF assms(3) map_blk_ok [OF bo] map_off_less])
  then show "free_bit s' b = free_bit s b"
    using assms(1,2) by (simp add: free_bit_def fs_ok_def dev_step_def map_addr [OF bo])
qed

text \<open>What \<^verbatim>\<open>alloc_block_num\<close> does when it has found block \<open>b\<close>.\<close>

definition taken :: "fsstate \<Rightarrow> u32 \<Rightarrow> fsstate" where
  "taken s b = s\<lparr>fmem := st32 (fmem s) (bitmap s + 4 * (b div 32))
     (ld32 (fmem s) (bitmap s + 4 * (b div 32)) AND NOT (push_bit (unat (b mod 32)) 1))\<rparr>"

lemma bitmap_block: "blk_ok b \<Longrightarrow> b div BIT2BLK + 2 = map_blk b"
proof (rule word_unat_eq_iff [THEN iffD2])
  assume b: "blk_ok b"
  have "unat (b div BIT2BLK) = unat b div 32768" by (simp add: unat_div_distrib fs_defs)
  moreover have "unat b div 32768 < 8" using b by (simp add: div_less_iff_less_mult)
  ultimately show "unat (b div BIT2BLK + 2) = unat (map_blk b)" using unat_map_blk [OF b] by (simp add: unat_word_ariths)
qed

lemma alloc_loop_step:
  assumes f: "fs_ok s n"
  shows "unat i < n \<Longrightarrow> alloc_block_num_loop (of_nat n) i s =
      (if free_bit s i then do { s \<leftarrow> write_block (map_blk i) (taken s i); Some (Inr i, s) }
       else alloc_block_num_loop (of_nat n) (i + 1) s)"
    "n \<le> unat i \<Longrightarrow> alloc_block_num_loop (of_nat n) i s = Some (Inl E_NO_DISK, s)"
proof -
  have n: "unat (of_nat n :: u32) = n" using f by (simp add: fs_ok_def unat_of_nat)
  show "alloc_block_num_loop (of_nat n) i s =
      (if free_bit s i then do { s \<leftarrow> write_block (map_blk i) (taken s i); Some (Inr i, s) }
       else alloc_block_num_loop (of_nat n) (i + 1) s)" if "unat i < n"
  proof -
    have l: "i < of_nat n" using that n by (simp add: word_less_nat_alt)
    show ?thesis
      by (subst alloc_block_num_loop.simps) (simp only: l if_True Let_def map_word [OF f that] free_test free_bit_def bitmap_block [OF fs_ok_small [OF f that]] taken_def bind.bind_lunit)
  qed
  show "alloc_block_num_loop (of_nat n) i s = Some (Inl E_NO_DISK, s)" if "n \<le> unat i"
    using that n by (subst alloc_block_num_loop.simps) (simp add: word_less_nat_alt)
qed

lemma alloc_loop_cases:
  assumes f: "fs_ok s n"
  shows "(\<forall>b. unat i \<le> unat b \<and> unat b < n \<longrightarrow> \<not> free_bit s b) \<and> alloc_block_num_loop (of_nat n) i s = Some (Inl E_NO_DISK, s) \<or>
    (\<exists>b. unat i \<le> unat b \<and> unat b < n \<and> free_bit s b \<and> (\<forall>c. unat i \<le> unat c \<and> unat c < unat b \<longrightarrow> \<not> free_bit s c) \<and>
       alloc_block_num_loop (of_nat n) i s = do { s \<leftarrow> write_block (map_blk b) (taken s b); Some (Inr b, s) })"
proof (induction "n - unat i" arbitrary: i)
  case 0
  then show ?case using alloc_loop_step(2) [OF f, of i] by auto
next
  case (Suc k)
  then have i: "unat i < n" by simp
  then have i1: "unat (i + 1) = unat i + 1" using f by (simp add: fs_ok_def unat_word_ariths)
  show ?case
  proof (cases "free_bit s i")
    case True
    then show ?thesis using alloc_loop_step(1) [OF f i] i by auto
  next
    case False
    have e: "unat i \<le> unat c \<longleftrightarrow> c = i \<or> unat (i + 1) \<le> unat c" for c using i1 by (auto simp: word_unat_eq_iff)
    have "k = n - unat (i + 1)" using Suc(2) i1 by simp
    from Suc(1) [OF this] show ?thesis unfolding alloc_loop_step(1) [OF f i] e using False by auto
  qed
qed

lemma taken_ok:
  assumes f: "fs_ok s n" and b: "unat b < n"
  shows "fs_ok (taken s b) n" "\<And>c. unat c < n \<Longrightarrow> free_bit (taken s b) c = (free_bit s c \<and> c \<noteq> b)"
    "\<And>c i. blk_ok c \<Longrightarrow> c \<noteq> map_blk b \<Longrightarrow> i < 4096 \<Longrightarrow> cached (taken s b) c i = cached s c i"
    "\<And>c. block_is_mapped (taken s b) c = block_is_mapped s c" "sectors (taken s b) = sectors s"
    "dev_results (taken s b) = dev_results s" "dev_status (taken s b) = dev_status s" "avail (taken s b) = avail s" "vpt (taken s b) = vpt s"
proof -
  note m = map_store [OF f b, where w = "ld32 (fmem s) (bitmap s + 4 * (b div 32)) AND NOT (push_bit (unat (b mod 32)) 1)", folded taken_def]
  show "fs_ok (taken s b) n" "\<And>c. block_is_mapped (taken s b) c = block_is_mapped s c" by (rule m(1), rule m(4))
  show "cached (taken s b) c i = cached s c i" if "blk_ok c" "c \<noteq> map_blk b" "i < 4096" for c i by (rule m(3) [OF that])
  show "sectors (taken s b) = sectors s" "dev_results (taken s b) = dev_results s" "dev_status (taken s b) = dev_status s"
    "avail (taken s b) = avail s" "vpt (taken s b) = vpt s" by (simp_all add: taken_def)
  show "free_bit (taken s b) c = (free_bit s c \<and> c \<noteq> b)" if "unat c < n" for c
  proof (cases "c div 32 = b div 32")
    case True
    have k: "unat (b mod 32) = unat b mod 32" by (simp add: unat_mod_distrib)
    have "unat c mod 32 = unat b mod 32 \<longleftrightarrow> c = b" using word_bit_eq [OF True] by auto
    moreover have "unat c mod 32 < 32" "unat b mod 32 < 32" by simp_all
    ultimately have "bit (w AND NOT (push_bit (unat b mod 32) 1)) (unat c mod 32) = (bit (w :: u32) (unat c mod 32) \<and> c \<noteq> b)" for w
      by (auto simp: bit_simps)
    then show ?thesis using m(2) [OF that] True by (simp add: k free_bit_def)
  next
    case False
    then show ?thesis using m(2) [OF that] by auto
  qed
qed

lemma alloc_block_num_cases:
  assumes f: "fs_ok s n" and dv: "dev_ok (8 + m) (dev_results s) (dev_status s)"
  shows "(\<forall>b. 3 \<le> unat b \<and> unat b < n \<longrightarrow> \<not> free_bit s b) \<and> alloc_block_num s = Some (Inl E_NO_DISK, s) \<or>
    (\<exists>b s'. alloc_block_num s = Some (Inr b, s') \<and> 3 \<le> unat b \<and> unat b < n \<and> free_bit s b \<and>
       (\<forall>c. 3 \<le> unat c \<and> unat c < unat b \<longrightarrow> \<not> free_bit s c) \<and>
       fs_ok s' n \<and> (\<forall>c. unat c < n \<longrightarrow> free_bit s' c = (free_bit s c \<and> c \<noteq> b)) \<and>
       (\<forall>i < 4096. on_disk s' (map_blk b) i = cached s' (map_blk b) i) \<and>
       (\<forall>c i. blk_ok c \<and> c \<noteq> map_blk b \<and> i < 4096 \<longrightarrow> cached s' c i = cached s c i \<and> on_disk s' c i = on_disk s c i) \<and>
       dev_ok m (dev_results s') (dev_status s') \<and> vpt s' = vpt s \<and> avail s' = avail s)"
proof -
  have r: "alloc_block_num s = alloc_block_num_loop (of_nat n) 3 s" using fs_ok_nblocks [OF f] by (simp add: alloc_block_num_def)
  have 3: "unat (3 :: u32) = 3" by simp
  from alloc_loop_cases [OF f, of 3, unfolded 3] show ?thesis
  proof
    assume "\<exists>b. 3 \<le> unat b \<and> unat b < n \<and> free_bit s b \<and> (\<forall>c. 3 \<le> unat c \<and> unat c < unat b \<longrightarrow> \<not> free_bit s c) \<and>
       alloc_block_num_loop (of_nat n) 3 s = do { s \<leftarrow> write_block (map_blk b) (taken s b); Some (Inr b, s) }"
    then obtain b where b: "3 \<le> unat b" "unat b < n" "free_bit s b" "\<forall>c. 3 \<le> unat c \<and> unat c < unat b \<longrightarrow> \<not> free_bit s c"
      "alloc_block_num s = do { s \<leftarrow> write_block (map_blk b) (taken s b); Some (Inr b, s) }" unfolding r by blast
    note t = taken_ok [OF f b(2)] and bo = map_blk_ok [OF fs_ok_small [OF f b(2)]]
    have "block_is_mapped (taken s b) (map_blk b)" "dev_ok (8 + m) (dev_results (taken s b)) (dev_status (taken s b))"
      using t(4,6,7) fs_ok_map(1) [OF f b(2)] dv by simp_all
    from write_block_ok [OF bo this] obtain s' where w: "write_block (map_blk b) (taken s b) = Some s'" "dev_step (taken s b) s'"
      "same_cache (taken s b) s'" "dev_ok m (dev_results s') (dev_status s')" "\<forall>i < 4096. on_disk s' (map_blk b) i = cached (taken s b) (map_blk b) i"
      "\<forall>c. blk_ok c \<and> c \<noteq> map_blk b \<longrightarrow> (\<forall>i < 4096. on_disk s' c i = on_disk (taken s b) c i)" by blast
    note d = dev_step_fs [OF t(1) w(2,3)] and sc = same_cache_block [OF w(3)]
    have "\<forall>c. unat c < n \<longrightarrow> free_bit s' c = (free_bit s c \<and> c \<noteq> b)" using d(2) t(2) by simp
    moreover have "\<forall>i < 4096. on_disk s' (map_blk b) i = cached s' (map_blk b) i" using w(5) sc [OF bo] by simp
    moreover have "\<forall>c i. blk_ok c \<and> c \<noteq> map_blk b \<and> i < 4096 \<longrightarrow> cached s' c i = cached s c i \<and> on_disk s' c i = on_disk s c i"
      using w(6) sc t(3,5) by (simp add: on_disk_def)
    moreover have "alloc_block_num s = Some (Inr b, s')" using b(5) w(1) by simp
    moreover have "vpt s' = vpt s" "avail s' = avail s" using w(2) t(8,9) by (simp_all add: dev_step_def)
    ultimately show ?thesis using b(1-4) d(1) w(4) by blast
  qed (use r in auto)
qed

text \<open>Property C23. \<^verbatim>\<open>alloc_block_num\<close> returns the free block with the least number from 3 on and takes exactly that block out of the bitmap;
  the change is on the disk when it returns, and every other block keeps its contents in the cache and on the disk.  When no
  block is free it returns \<open>-E_NO_DISK\<close> with nothing changed.\<close>

theorem alloc_block_num_correct:
  assumes f: "fs_ok s n" and dv: "dev_ok (8 + m) (dev_results s) (dev_status s)"
  shows "(\<forall>b. 3 \<le> unat b \<and> unat b < n \<longrightarrow> \<not> free_bit s b) \<and> alloc_block_num s = Some (Inl E_NO_DISK, s) \<or>
    (\<exists>b s'. alloc_block_num s = Some (Inr b, s') \<and> 3 \<le> unat b \<and> unat b < n \<and> free_bit s b \<and>
       (\<forall>c. 3 \<le> unat c \<and> unat c < unat b \<longrightarrow> \<not> free_bit s c) \<and>
       fs_ok s' n \<and> (\<forall>c. unat c < n \<longrightarrow> free_bit s' c = (free_bit s c \<and> c \<noteq> b)) \<and>
       (\<forall>i < 4096. on_disk s' (map_blk b) i = cached s' (map_blk b) i) \<and>
       (\<forall>c i. blk_ok c \<and> c \<noteq> map_blk b \<and> i < 4096 \<longrightarrow> cached s' c i = cached s c i \<and> on_disk s' c i = on_disk s c i) \<and>
       dev_ok m (dev_results s') (dev_status s') \<and> vpt s' = vpt s \<and> avail s' = avail s)"
  by (rule alloc_block_num_cases [OF assms])

section \<open>An example\<close>

text \<open>A disk of 100 blocks of which block 5 is free; everything is in the cache.\<close>

definition fs_demo :: fsstate where
  "fs_demo = \<lparr>fmem = (\<lambda>_. 0)(blk_addr 1 4 := 100, blk_addr 2 0 := 32), vpt = \<lambda>_. PTE_W OR PTE_U OR PTE_V, avail = 4,
     super = diskaddr 1, bitmap = diskaddr 2, sectors = \<lambda>_ _. 0, dev_results = neg_errno E_NO_RING_DESC # replicate 16 0,
     dev_status = 255 # replicate 16 0\<rparr>"

lemma fs_demo_addrs: "blk_addr 1 4 = 0x10001004" "blk_addr 2 0 = 0x10002000" "diskaddr 1 = 0x10001000" "diskaddr 2 = 0x10002000"
  by (simp_all add: blk_addr_def diskaddr_def fs_defs)

lemma fs_demo_ok: "fs_ok fs_demo 100"
proof -
  have "ld32 (fmem fs_demo) (s_nblocks (diskaddr 1)) = of_nat 100"
    unfolding nblocks_addr by (simp add: fs_demo_def ld32_def fs_demo_addrs)
  moreover have "block_is_mapped fs_demo b" for b
    by (simp add: block_is_mapped_def va_is_mapped_def fs_demo_def has_def PTE_V_def PTE_W_def PTE_U_def)
  ultimately show ?thesis by (simp add: fs_ok_def) (simp add: fs_demo_def)
qed

lemma dev_ok_ready: "dev_ok n (replicate n 0) (replicate n 0)"
  using neg_errno_neq_0 [of E_NO_RING_DESC] by (induction n) (auto simp: DISK_STATUS_NO_RESP_def split: option.splits)

lemma dev_ok_busy: "dev_ok (Suc n) (neg_errno E_NO_RING_DESC # rs) (DISK_STATUS_NO_RESP # st) = dev_ok (Suc n) rs st"
  by simp

lemma fs_demo_dev: "dev_ok (8 + 8) (dev_results fs_demo) (dev_status fs_demo)"
proof -
  have e: "8 + 8 = Suc 15" "(255 :: u8) = DISK_STATUS_NO_RESP" "(16 :: nat) = Suc 15" by (simp_all add: DISK_STATUS_NO_RESP_def)
  show ?thesis unfolding fs_demo_def fsstate.simps e dev_ok_busy by (rule dev_ok_ready)
qed

lemma fs_demo_bit: "free_bit fs_demo 5"
  by (simp add: free_bit_def fs_demo_def fs_demo_addrs ld32_def)

theorem alloc_block_num_correct_witness:
  "\<exists>b s'. alloc_block_num fs_demo = Some (Inr b, s') \<and> unat b \<le> 5 \<and> fs_ok s' 100 \<and> \<not> free_bit s' b"
proof -
  have u: "unat (5 :: u32) = 5" by simp
  have nf: "\<not> (\<forall>b. 3 \<le> unat b \<and> unat b < 100 \<longrightarrow> \<not> free_bit fs_demo b)"
    using fs_demo_bit u by (intro notI) (drule spec [of _ 5], simp)
  from alloc_block_num_correct [OF fs_demo_ok fs_demo_dev] nf
  obtain b s' where b: "alloc_block_num fs_demo = Some (Inr b, s')" "3 \<le> unat b" "unat b < 100" "fs_ok s' 100"
    "\<forall>c. 3 \<le> unat c \<and> unat c < unat b \<longrightarrow> \<not> free_bit fs_demo c" "\<forall>c. unat c < 100 \<longrightarrow> free_bit s' c = (free_bit fs_demo c \<and> c \<noteq> b)"
    by blast
  have "unat b \<le> 5" using spec [OF b(5), of 5] fs_demo_bit u by simp
  with b show ?thesis by blast
qed

section \<open>Write back and read again\<close>

text \<open>Property C24. Round trip of a block through the disk: \<^verbatim>\<open>unmap_block\<close> writes a dirty block in use back and drops it from the cache,
  and when \<^verbatim>\<open>read_block\<close> brings it in again it has the same 4096 bytes, however often the ring was busy and however long the device
  took.  (Blocks of the bitmap and the super block stay in the cache.)\<close>

theorem block_roundtrip:
  assumes f: "fs_ok s n" and b: "2 + n div 32768 < unat b" "unat b < n" and use: "\<not> free_bit s b" "block_is_dirty s b"
    and av: "0 < avail s" and dv: "dev_ok (8 + (8 + m)) (dev_results s) (dev_status s)"
  shows "\<exists>s1 s2. unmap_block b s = Some s1 \<and> \<not> block_is_mapped s1 b \<and> (\<forall>i < 4096. on_disk s1 b i = cached s b i) \<and>
     read_block b s1 = Some (Inr (diskaddr b, True), s2) \<and> (\<forall>i < 4096. cached s2 b i = cached s b i)"
proof -
  note bo = fs_ok_small [OF f b(2)]
  have mp: "block_is_mapped s b" using use(2) by (simp add: block_is_dirty_def block_is_mapped_def)
  from write_block_ok [OF bo mp dv] obtain s0 where
    w: "write_block b s = Some s0" "dev_step s s0" "same_cache s s0" "dev_ok (8 + m) (dev_results s0) (dev_status s0)"
    "\<forall>i < 4096. on_disk s0 b i = cached s b i" by blast
  note d = dev_step_fs [OF f w(2,3)]
  define s1 where "s1 = s0\<lparr>vpt := (vpt s0)(VPN (diskaddr b) := 0)\<rparr>"
  have un: "syscall_mem_unmap (diskaddr b) s0 = (Inr (), s1)" using legal_diskaddr [OF bo] by (simp add: syscall_mem_unmap_def s1_def)
  have nm: "\<not> block_is_mapped s1 b" by (simp add: s1_def block_is_mapped_def va_is_mapped_def has_def PTE_V_def)
  have run: "unmap_block b s = Some s1"
    using mp use block_is_free_bit [OF f b(2)] w(1) un nm by (simp add: unmap_block_def Let_def)
  have "block_is_mapped s1 (of_nat c)" if "1 \<le> c" "c \<le> 2 + n div 32768" for c
  proof -
    have "c < 0x40000" using that b bo by linarith
    then have u: "unat (of_nat c :: u32) = c" by (simp add: unat_of_nat)
    then have "(of_nat c :: u32) \<noteq> b" "blk_ok (of_nat c)" using that b(1) bo by auto
    then have "VPN (diskaddr (of_nat c)) \<noteq> VPN (diskaddr b)" using diskaddr_inj [OF _ bo] by blast
    moreover have "block_is_mapped s0 (of_nat c)" using d(1) that by (simp add: fs_ok_def)
    ultimately show ?thesis by (simp add: s1_def block_is_mapped_def va_is_mapped_def)
  qed
  then have f1: "fs_ok s1 n" using d(1) by (simp add: fs_ok_def) (simp add: s1_def)
  have "free_bit s1 b = free_bit s0 b" by (simp add: free_bit_def s1_def)
  then have "block_is_free s1 b = Some False" using block_is_free_bit [OF f1 b(2)] d(2) [OF b(2)] use(1) by simp
  moreover have "b < of_nat n" using b(2) f by (simp add: word_less_nat_alt unat_of_nat fs_ok_def)
  ultimately have rd: "readable s1 b" using fs_ok_nblocks [OF f1] by (simp add: readable_def)
  have "0 < avail s1" "dev_ok (8 + m) (dev_results s1) (dev_status s1)" using av w(2,4) by (simp_all add: s1_def dev_step_def)
  from read_block_ok [OF bo nm rd this] obtain s2 where
    r: "read_block b s1 = Some (Inr (diskaddr b, True), s2)" "\<forall>i < 4096. cached s2 b i = on_disk s1 b i" by blast
  moreover have o: "\<forall>i < 4096. on_disk s1 b i = cached s b i" using w(5) by (simp add: on_disk_def s1_def)
  ultimately show ?thesis using run nm by auto
qed

theorem block_roundtrip_witness:
  "\<exists>s1 s2. unmap_block 7 (fs_demo\<lparr>vpt := (\<lambda>_. PTE_W OR PTE_DIRTY OR PTE_U OR PTE_V)\<rparr>) = Some s1 \<and> \<not> block_is_mapped s1 7 \<and>
     read_block 7 s1 = Some (Inr (diskaddr 7, True), s2)"
proof -
  let ?s = "fs_demo\<lparr>vpt := (\<lambda>_. PTE_W OR PTE_DIRTY OR PTE_U OR PTE_V)\<rparr>"
  have fl: "PTE_W OR PTE_DIRTY OR PTE_U OR PTE_V = 0x95" by (simp add: PTE_W_def PTE_DIRTY_def PTE_D_def PTE_U_def PTE_V_def)
  have mp: "block_is_mapped ?s b" "block_is_dirty ?s b" for b
    by (simp_all add: block_is_mapped_def block_is_dirty_def va_is_mapped_def va_is_dirty_def fl) (simp_all add: has_def PTE_V_def PTE_DIRTY_def PTE_D_def)
  have "fs_ok ?s 100" using fs_demo_ok mp(1) by (simp add: fs_ok_def)
  moreover have "\<not> free_bit ?s 7" by (simp add: free_bit_def fs_demo_def fs_demo_addrs ld32_def)
  moreover have "0 < avail ?s" by (simp add: fs_demo_def)
  moreover have "dev_ok (8 + (8 + 0)) (dev_results ?s) (dev_status ?s)" using fs_demo_dev by simp
  ultimately show ?thesis using block_roundtrip [of ?s 100 7 0] mp(2) by auto
qed

section \<open>Fresh blocks\<close>

text \<open>\<^verbatim>\<open>alloc_block\<close> gives the first free block and has it in the cache.  A block that was not in the cache is all zero, but
  a block that a removed file left in the cache keeps its old contents: \<^verbatim>\<open>map_block\<close> does nothing for it, and no caller clears
  it.  A file that gets such a block as its indirect block (\<^verbatim>\<open>file_block_walk\<close>) takes the old bytes for block numbers.\<close>

theorem alloc_block_contents:
  assumes f: "fs_ok s n" and dv: "dev_ok (8 + m) (dev_results s) (dev_status s)" and av: "0 < avail s"
    and meta: "\<And>c. unat c \<le> 2 + n div 32768 \<Longrightarrow> \<not> free_bit s c" and ex: "3 \<le> unat b0" "unat b0 < n" "free_bit s b0"
  shows "\<exists>b s'. alloc_block s = Some (Inr b, s') \<and> free_bit s b \<and> \<not> free_bit s' b \<and> unat b < n \<and> fs_ok s' n \<and> block_is_mapped s' b \<and>
     (\<forall>i < 4096. cached s' b i = (if block_is_mapped s b then cached s b i else 0))"
proof -
  from alloc_block_num_cases [OF f dv] ex obtain b s1 where
    b: "alloc_block_num s = Some (Inr b, s1)" "unat b < n" "free_bit s b" "fs_ok s1 n"
      "\<And>c. unat c < n \<Longrightarrow> free_bit s1 c = (free_bit s c \<and> c \<noteq> b)"
      "\<And>c i. blk_ok c \<Longrightarrow> c \<noteq> map_blk b \<Longrightarrow> i < 4096 \<Longrightarrow> cached s1 c i = cached s c i" "vpt s1 = vpt s" "avail s1 = avail s" by blast
  note bo = fs_ok_small [OF f b(2)]
  have mb: "b \<noteq> map_blk c" if "unat c < n" for c
  proof -
    have "unat (map_blk c) \<le> 2 + n div 32768" using unat_map_blk [OF fs_ok_small [OF f that]] that by (simp add: div_le_mono)
    then show ?thesis using meta b(3) by metis
  qed
  have b1: "b \<noteq> 1" using meta [of 1] b(3) by auto
  have c1: "cached s1 b i = cached s b i" if "i < 4096" for i by (rule b(6) [OF bo mb [OF b(2)] that])
  have nf: "\<not> free_bit s1 b" using b(2,5) by simp
  show ?thesis
  proof (cases "block_is_mapped s b")
    case True
    then have "block_is_mapped s1 b" using b(7) by (simp add: block_is_mapped_def va_is_mapped_def)
    then show ?thesis using True b c1 nf by (auto simp: alloc_block_def try_fs_def map_block_def)
  next
    case False
    define s2 where "s2 = s1\<lparr>fmem := (\<lambda>a. if VPN a = VPN (diskaddr b) then 0 else fmem s1 a),
      vpt := (vpt s1)(VPN (diskaddr b) := PTE_W OR PTE_U OR PTE_V), avail := avail s1 - 1\<rparr>"
    have al: "syscall_mem_alloc (diskaddr b) PTE_W s1 = (Inr (), s2)"
      using legal_diskaddr [OF bo] av b(8) by (simp add: syscall_mem_alloc_def s2_def)
    have "\<not> block_is_mapped s1 b" using False b(7) by (simp add: block_is_mapped_def va_is_mapped_def)
    then have run: "alloc_block s = Some (Inr b, s2)" using b(1) al by (simp add: alloc_block_def try_fs_def map_block_def)
    have same: "fmem s2 (blk_addr c i) = fmem s1 (blk_addr c i)" if "blk_ok c" "c \<noteq> b" "i < 4096" for c i
      using diskaddr_inj [OF that(1) bo] that(2) VPN_same_block [OF that(1,3)] by (simp add: s2_def)
    have ld: "ld32 (fmem s2) (blk_addr c i) = ld32 (fmem s1) (blk_addr c i)" if "blk_ok c" "c \<noteq> b" "i + 4 \<le> 4096" for c i
    proof -
      have "fmem s2 (blk_addr c (i + k)) = fmem s1 (blk_addr c (i + k))" if "k < 4" for k
        using same [OF \<open>blk_ok c\<close> \<open>c \<noteq> b\<close>] \<open>i + 4 \<le> 4096\<close> that by simp
      from this [of 0] this [of 1] this [of 2] this [of 3] show ?thesis by (simp add: ld32_def blk_addr_def ac_simps)
    qed
    have mp: "block_is_mapped s1 c \<Longrightarrow> block_is_mapped s2 c" "block_is_mapped s2 b" for c
      by (simp_all add: s2_def block_is_mapped_def va_is_mapped_def has_def PTE_W_def PTE_U_def PTE_V_def)
    have "ld32 (fmem s2) (blk_addr 1 4) = ld32 (fmem s1) (blk_addr 1 4)" by (rule ld [OF one_ok]) (use b1 in simp_all)
    then have "fs_ok s2 n" using b(4) mp(1) by (simp add: fs_ok_def nblocks_addr) (simp add: s2_def)
    moreover have "bitmap s1 = diskaddr 2" "bitmap s2 = diskaddr 2" using b(4) by (simp_all add: fs_ok_def s2_def)
    then have "free_bit s2 b = free_bit s1 b"
      using ld [OF map_blk_ok [OF bo] _ map_off_less] mb [OF b(2)] by (simp add: free_bit_def map_addr [OF bo])
    moreover have "cached s2 b i = 0" if "i < 4096" for i using VPN_same_block [OF bo that] by (simp add: cached_def s2_def)
    ultimately show ?thesis using run mp(2) b(2,3) nf False by (intro exI [of _ b] exI [of _ s2]) simp
  qed
qed

theorem alloc_block_contents_witness:
  "\<exists>b s'. alloc_block fs_demo = Some (Inr b, s') \<and> \<not> free_bit s' b \<and> (\<forall>i < 4096. cached s' b i = cached fs_demo b i)"
proof -
  have "unat c = 0 \<or> unat c = 1 \<or> unat c = 2" if "unat c \<le> 2 + 100 div 32768" for c :: u32 using that by auto
  then have c: "c = 0 \<or> c = 1 \<or> c = 2" if "unat c \<le> 2 + 100 div 32768" for c :: u32 using that by (auto simp: word_unat_eq_iff)
  have z: "\<not> free_bit fs_demo 0" "\<not> free_bit fs_demo 1" "\<not> free_bit fs_demo 2"
    by (simp_all add: free_bit_def fs_demo_def fs_demo_addrs ld32_def)
  have "\<not> free_bit fs_demo c" if "unat c \<le> 2 + 100 div 32768" for c using c [OF that] z by (elim disjE) simp_all
  moreover have "0 < avail fs_demo" by (simp add: fs_demo_def)
  moreover have "block_is_mapped fs_demo b" for b
    by (simp add: block_is_mapped_def va_is_mapped_def fs_demo_def has_def PTE_V_def PTE_W_def PTE_U_def)
  ultimately show ?thesis using alloc_block_contents [OF fs_demo_ok fs_demo_dev, of 5] fs_demo_bit by auto
qed
end
