(* ===== verification/Mos_Serv.thy ===== *)
theory Mos_Serv
  imports Mos_Fs_Block
begin

text \<open>
  The requests of the file-system server: \<^verbatim>\<open>fs/serv.c\<close>, with \<^verbatim>\<open>user/lib/pageref.c\<close>, \<^verbatim>\<open>user/include/fsreq.h\<close> and the layout of
  \<^verbatim>\<open>struct Filefd\<close> in \<^verbatim>\<open>user/include/fd.h\<close>.  The argument page of a request is decoded into the datatype \<open>fsreq\<close>.
\<close>

declare split_paired_All [simp del] split_paired_Ex [simp del]

section \<open>The open-file table\<close>

definition MAXOPEN :: nat where "MAXOPEN = 1024"
definition FILEVA :: u32 where "FILEVA = 0x60000000"
definition SERV_REQVA :: u32 where "SERV_REQVA = 0x0ffff000"
definition DEVFILE_ID :: u32 where "DEVFILE_ID = 102"

record open_file =
  o_file :: u32
  o_fileid :: u32
  o_mode :: u32
  o_ff :: u32

text \<open>\<open>refs\<close> counts the mappings of the pages of the server; the mappings that clients make and drop change it between requests.
  \<open>replies\<close> are the messages sent with \<^verbatim>\<open>ipc_send\<close> (to whom, value, page, permissions), which keeps trying until the receiver waits.\<close>

record servstate =
  sfs :: fsstate
  opentab :: "nat \<Rightarrow> open_file"
  refs :: "u32 \<Rightarrow> u16"
  replies :: "(u32 \<times> u32 \<times> u32 \<times> u32) list"

definition pageref :: "servstate \<Rightarrow> u32 \<Rightarrow> u16" where
  "pageref s v = (if va_is_mapped (sfs s) v then refs s v else 0)"

definition ipc_send :: "u32 \<Rightarrow> u32 \<Rightarrow> u32 \<Rightarrow> u32 \<Rightarrow> servstate \<Rightarrow> servstate" where
  "ipc_send whom v srcva perm s = s\<lparr>replies := replies s @ [(whom, v, srcva, perm)]\<rparr>"

fun serve_init_loop :: "nat \<Rightarrow> nat \<Rightarrow> u32 \<Rightarrow> servstate \<Rightarrow> servstate" where
  "serve_init_loop 0 i va s = s"
| "serve_init_loop (Suc n) i va s =
     serve_init_loop n (i + 1) (va + BY2PG)
       (s\<lparr>opentab := (opentab s)(i := (opentab s i)\<lparr>o_fileid := of_nat i, o_ff := va\<rparr>)\<rparr>)"

definition serve_init :: "servstate \<Rightarrow> servstate" where
  "serve_init s = serve_init_loop MAXOPEN 0 FILEVA s"

type_synonym 'a servres = "((err + 'a) \<times> servstate) option"

text \<open>\<^verbatim>\<open>case 1\<close> of \<^verbatim>\<open>open_alloc\<close>, which \<^verbatim>\<open>case 0\<close> falls into: entry \<open>i\<close> gets a new file id and an empty page.\<close>

definition open_take :: "nat \<Rightarrow> servstate \<Rightarrow> nat servres" where
  "open_take i s = do {
     let po = opentab s i;
     m \<leftarrow> memset (fmem (sfs s)) (o_ff po) 0 BY2PG;
     Some (Inr i, s\<lparr>opentab := (opentab s)(i := po\<lparr>o_fileid := o_fileid po + of_nat MAXOPEN\<rparr>), sfs := (sfs s)\<lparr>fmem := m\<rparr>\<rparr>) }"

fun open_alloc_loop :: "nat \<Rightarrow> nat \<Rightarrow> servstate \<Rightarrow> nat servres" where
  "open_alloc_loop 0 i s = Some (Inl E_MAX_OPEN, s)"
| "open_alloc_loop (Suc n) i s =
     (let va = o_ff (opentab s i)
      in if pageref s va = 0 then
           (case syscall_mem_alloc va (PTE_W OR PTE_LIBRARY) (sfs s) of
              (Inl e, f) \<Rightarrow> Some (Inl e, s\<lparr>sfs := f\<rparr>)
            | (Inr _, f) \<Rightarrow> open_take i (s\<lparr>sfs := f, refs := (refs s)(va := 1)\<rparr>))
         else if pageref s va = 1 then open_take i s
         else open_alloc_loop n (i + 1) s)"

definition open_alloc :: "servstate \<Rightarrow> nat servres" where
  "open_alloc s = open_alloc_loop MAXOPEN 0 s"

definition open_lookup :: "u32 \<Rightarrow> u32 \<Rightarrow> servstate \<Rightarrow> err + nat" where
  "open_lookup envid fileid s =
     (let i = unat fileid mod MAXOPEN; po = opentab s i
      in if pageref s (o_ff po) = 1 \<or> o_fileid po \<noteq> fileid then Inl E_INVAL else Inr i)"

section \<open>Requests\<close>

text \<open>\<^verbatim>\<open>ff->f_file = *f\<close> and the other fields of \<^verbatim>\<open>struct Filefd\<close>: \<^verbatim>\<open>fd_dev_id\<close> at 0, \<^verbatim>\<open>fd_omode\<close> at 8, \<^verbatim>\<open>f_fileid\<close> at 12, \<^verbatim>\<open>f_file\<close> at 16.\<close>

definition fill_filefd :: "u32 \<Rightarrow> u32 \<Rightarrow> u32 \<Rightarrow> u32 \<Rightarrow> fsstate \<Rightarrow> fsstate option" where
  "fill_filefd ff f fileid omode s = do {
     m \<leftarrow> (if va_is_mapped s ff \<and> va_is_mapped s f then memcpy (fmem s) (ff + 16) f BY2FILE else None);
     s \<leftarrow> wr32 (ff + 12) fileid (s\<lparr>fmem := m\<rparr>);
     s \<leftarrow> wr32 (ff + 8) omode s;
     wr32 ff DEVFILE_ID s }"

text \<open>There is no \<^verbatim>\<open>return\<close> after the reply to a failed \<^verbatim>\<open>open_alloc\<close>: the function goes on with an uninitialised \<^verbatim>\<open>o\<close>, and stores
  through it when the file is there.\<close>

definition serve_open :: "u32 \<Rightarrow> u8 list \<Rightarrow> u32 \<Rightarrow> servstate \<Rightarrow> servstate option" where
  "serve_open envid path omode s = do {
     (r, s) \<leftarrow> open_alloc s;
     let s = (case r of Inl e \<Rightarrow> ipc_send envid (neg_errno e) 0 0 s | Inr _ \<Rightarrow> s);
     (rf, fs) \<leftarrow> file_open path (sfs s);
     let s = s\<lparr>sfs := fs\<rparr>;
     case rf of
       Inl e \<Rightarrow> Some (ipc_send envid (neg_errno e) 0 0 s)
     | Inr f \<Rightarrow>
         (case r of
            Inl _ \<Rightarrow> None
          | Inr i \<Rightarrow> do {
              let po = opentab s i;
              fs \<leftarrow> fill_filefd (o_ff po) f (o_fileid po) omode (sfs s);
              let s = s\<lparr>opentab := (opentab s)(i := po\<lparr>o_file := f, o_mode := omode\<rparr>), sfs := fs\<rparr>;
              Some (ipc_send envid 0 (o_ff po) (PTE_W OR PTE_LIBRARY) s) }) }"

text \<open>The common shape of the other handlers: look the file up, do the work on it, reply.\<close>

definition with_open :: "u32 \<Rightarrow> u32 \<Rightarrow> servstate \<Rightarrow> (u32 \<Rightarrow> servstate \<Rightarrow> servstate option) \<Rightarrow> servstate option" where
  "with_open envid fileid s k =
     (case open_lookup envid fileid s of
        Inl e \<Rightarrow> Some (ipc_send envid (neg_errno e) 0 0 s)
      | Inr i \<Rightarrow> k (o_file (opentab s i)) s)"

definition serve_map :: "u32 \<Rightarrow> u32 \<Rightarrow> u32 \<Rightarrow> servstate \<Rightarrow> servstate option" where
  "serve_map envid fileid offset s = with_open envid fileid s (\<lambda>f s. do {
     (r, fs) \<leftarrow> file_get_block f (offset div BY2BLK) (sfs s);
     let s = s\<lparr>sfs := fs\<rparr>;
     Some (case r of
             Inl e \<Rightarrow> ipc_send envid (neg_errno e) 0 0 s
           | Inr blk \<Rightarrow> ipc_send envid 0 blk (PTE_W OR PTE_LIBRARY) s) })"

definition serve_set_size :: "u32 \<Rightarrow> u32 \<Rightarrow> u32 \<Rightarrow> servstate \<Rightarrow> servstate option" where
  "serve_set_size envid fileid newsize s = with_open envid fileid s (\<lambda>f s. do {
     fs \<leftarrow> file_set_size f newsize (sfs s);
     Some (ipc_send envid 0 0 0 (s\<lparr>sfs := fs\<rparr>)) })"

definition serve_close :: "u32 \<Rightarrow> u32 \<Rightarrow> servstate \<Rightarrow> servstate option" where
  "serve_close envid fileid s = with_open envid fileid s (\<lambda>f s. do {
     fs \<leftarrow> file_close f (sfs s);
     Some (ipc_send envid 0 0 0 (s\<lparr>sfs := fs\<rparr>)) })"

definition serve_remove :: "u32 \<Rightarrow> u8 list \<Rightarrow> servstate \<Rightarrow> servstate option" where
  "serve_remove envid path s = do {
     (r, fs) \<leftarrow> file_remove path (sfs s);
     Some (ipc_send envid (case r of Inl e \<Rightarrow> neg_errno e | Inr _ \<Rightarrow> 0) 0 0 (s\<lparr>sfs := fs\<rparr>)) }"

definition serve_dirty :: "u32 \<Rightarrow> u32 \<Rightarrow> u32 \<Rightarrow> servstate \<Rightarrow> servstate option" where
  "serve_dirty envid fileid offset s = with_open envid fileid s (\<lambda>f s. do {
     (r, fs) \<leftarrow> file_dirty f offset (sfs s);
     Some (ipc_send envid (case r of Inl e \<Rightarrow> neg_errno e | Inr _ \<Rightarrow> 0) 0 0 (s\<lparr>sfs := fs\<rparr>)) })"

definition serve_sync :: "u32 \<Rightarrow> servstate \<Rightarrow> servstate option" where
  "serve_sync envid s = do { fs \<leftarrow> fs_sync (sfs s); Some (ipc_send envid 0 0 0 (s\<lparr>sfs := fs\<rparr>)) }"

section \<open>The main loop\<close>

text \<open>A request as the server reads it from its argument page.\<close>

datatype fsreq =
    FSREQ_OPEN "u8 list" u32
  | FSREQ_MAP u32 u32
  | FSREQ_SET_SIZE u32 u32
  | FSREQ_CLOSE u32
  | FSREQ_DIRTY u32 u32
  | FSREQ_REMOVE "u8 list"
  | FSREQ_SYNC
  | FSREQ_INVALID

fun dispatch :: "u32 \<Rightarrow> fsreq \<Rightarrow> servstate \<Rightarrow> servstate option" where
  "dispatch whom (FSREQ_OPEN path omode) s = serve_open whom path omode s"
| "dispatch whom (FSREQ_MAP fileid offset) s = serve_map whom fileid offset s"
| "dispatch whom (FSREQ_SET_SIZE fileid newsize) s = serve_set_size whom fileid newsize s"
| "dispatch whom (FSREQ_CLOSE fileid) s = serve_close whom fileid s"
| "dispatch whom (FSREQ_DIRTY fileid offset) s = serve_dirty whom fileid offset s"
| "dispatch whom (FSREQ_REMOVE path) s = serve_remove whom path s"
| "dispatch whom FSREQ_SYNC s = serve_sync whom s"
| "dispatch whom FSREQ_INVALID s = Some s"

text \<open>The loop of \<^verbatim>\<open>serve\<close> over the requests that arrive (sender, permissions of the page, request).\<close>

fun serve :: "(u32 \<times> u32 \<times> fsreq) list \<Rightarrow> servstate \<Rightarrow> servstate option" where
  "serve [] s = Some s"
| "serve ((whom, perm, req) # ms) s =
     (if \<not> has perm PTE_V then serve ms s
      else do {
        s \<leftarrow> dispatch whom req s;
        serve ms (s\<lparr>sfs := snd (syscall_mem_unmap SERV_REQVA (sfs s))\<rparr>) })"

section \<open>One reply for each request\<close>

definition replied :: "servstate \<Rightarrow> u32 \<Rightarrow> servstate \<Rightarrow> bool" where
  "replied s whom s' \<longleftrightarrow> (\<exists>v va perm. replies s' = replies s @ [(whom, v, va, perm)])"

lemma replied_send: "replies s1 = replies s \<Longrightarrow> replied s whom (ipc_send whom v va perm s1)"
  by (simp add: replied_def ipc_send_def)

lemma open_alloc_loop_replies: "open_alloc_loop n i s = Some (r, s') \<Longrightarrow> replies s' = replies s"
  by (induction n arbitrary: i)
     (auto simp: Let_def open_take_def split: if_splits sum.splits prod.splits bind_splits)

lemma with_open_replied:
  assumes "with_open whom fileid s k = Some s'" "\<And>f s'. k f s = Some s' \<Longrightarrow> replied s whom s'"
  shows "replied s whom s'"
  using assms by (auto simp: with_open_def intro: replied_send split: sum.splits)

lemma dispatch_replied:
  assumes "dispatch whom req s = Some s'" "req \<noteq> FSREQ_INVALID"
    and "\<And>path omode. req = FSREQ_OPEN path omode \<Longrightarrow> \<exists>i s1. open_alloc s = Some (Inr i, s1)"
  shows "replied s whom s'"
  using assms
proof (induction whom req s rule: dispatch.induct)
  case (1 whom path omode s)
  then obtain i s1 where o: "open_alloc s = Some (Inr i, s1)" by blast
  then have r: "replies s1 = replies s" using open_alloc_loop_replies by (simp add: open_alloc_def)
  then show ?case using 1(1) o
    by (auto simp: serve_open_def Let_def r intro!: replied_send split: bind_splits sum.splits)
qed (auto simp: serve_map_def serve_set_size_def serve_close_def serve_dirty_def serve_remove_def serve_sync_def Let_def
  elim!: with_open_replied intro!: replied_send split: bind_splits sum.splits)

text \<open>Along the run, every \<^verbatim>\<open>FSREQ_OPEN\<close> finds a free entry of the table.\<close>

fun opens_ok :: "(u32 \<times> u32 \<times> fsreq) list \<Rightarrow> servstate \<Rightarrow> bool" where
  "opens_ok [] s \<longleftrightarrow> True"
| "opens_ok ((whom, perm, req) # ms) s \<longleftrightarrow>
     (if \<not> has perm PTE_V then opens_ok ms s
      else (case req of FSREQ_OPEN _ _ \<Rightarrow> (case open_alloc s of Some (Inr _, _) \<Rightarrow> True | _ \<Rightarrow> False) | _ \<Rightarrow> True) \<and>
        (case dispatch whom req s of None \<Rightarrow> True | Some s1 \<Rightarrow> opens_ok ms (s1\<lparr>sfs := snd (syscall_mem_unmap SERV_REQVA (sfs s1))\<rparr>)))"

fun answered :: "u32 \<times> u32 \<times> fsreq \<Rightarrow> bool" where
  "answered (whom, perm, req) \<longleftrightarrow> has perm PTE_V \<and> req \<noteq> FSREQ_INVALID"


definition serv_demo :: servstate where
  "serv_demo = \<lparr>sfs = \<lparr>fmem = \<lambda>_. 0, vpt = \<lambda>_. PTE_V, avail = 0, super = diskaddr 1, bitmap = diskaddr 2, sectors = \<lambda>_ _. 0,
     dev_results = [], dev_status = []\<rparr>,
     opentab = \<lambda>_. \<lparr>o_file = 0, o_fileid = 0, o_mode = 0, o_ff = FILEVA\<rparr>, refs = \<lambda>_. 2, replies = []\<rparr>"


text \<open>Error branch of \<^verbatim>\<open>serve_open\<close>: when the open-file table is full the client is told so, but the function goes on, and
  if the file cannot be opened either the client gets a second reply to the same request, which it will take for the answer to
  its next one.\<close>

theorem serve_open_two_replies:
  assumes "open_alloc s = Some (Inl e, s1)" "file_open path (sfs s1) = Some (Inl e2, fs)"
  shows "\<exists>s'. serve_open whom path omode s = Some s' \<and>
    replies s' = replies s1 @ [(whom, neg_errno e, 0, 0), (whom, neg_errno e2, 0, 0)]"
  using assms by (simp add: serve_open_def ipc_send_def)

theorem serve_open_two_replies_witness:
  "\<exists>s'. serve_open 7 (replicate 128 97) 0 serv_demo = Some s' \<and>
     replies s' = [(7, neg_errno E_MAX_OPEN, 0, 0), (7, neg_errno E_BAD_PATH, 0, 0)]"
proof -
  have "pageref serv_demo (o_ff (opentab serv_demo i)) = 2" for i by (simp add: pageref_def serv_demo_def va_is_mapped_def has_def PTE_V_def)
  then have "open_alloc_loop n i serv_demo = Some (Inl E_MAX_OPEN, serv_demo)" for n i by (induction n arbitrary: i) simp_all
  then have o: "open_alloc serv_demo = Some (Inl E_MAX_OPEN, serv_demo)" by (simp add: open_alloc_def)
  have e: "path_elem (replicate n 97) = (replicate n 97, [])" "skip_slash (replicate n 97) = replicate n 97" for n
  proof -
    show "path_elem (replicate n 97) = (replicate n 97, [])" by (induction n) simp_all
    show "skip_slash (replicate n 97) = replicate n 97" by (cases n) simp_all
  qed
  have "file_open (replicate 128 97) (sfs serv_demo) = Some (Inl E_BAD_PATH, sfs serv_demo)"
    by (simp add: file_open_def walk_path_def e walk_loop.simps [of "replicate 128 97"] MAXNAMELEN_def)
  from serve_open_two_replies [OF o this] show ?thesis by (simp add: serv_demo_def)
qed
end
