(* ===== verification/Mos_Fs_Path.thy ===== *)
theory Mos_Fs_Path
  imports Mos_Fs_Block
begin

text \<open>
  Directories and paths of the file system: \<^verbatim>\<open>dir_lookup\<close> finds the first entry with a name, and \<^verbatim>\<open>walk_path\<close> resolves the elements of a
  path one after the other.
\<close>

declare split_paired_All [simp del] split_paired_Ex [simp del]

section \<open>Paths\<close>

text \<open>The elements of a path: the pieces between slashes, without the empty ones.\<close>

fun split_slash :: "u8 list \<Rightarrow> u8 list list" where
  "split_slash [] = [[]]"
| "split_slash (c # p) = (if c = 47 then [] # split_slash p else (case split_slash p of e # es \<Rightarrow> (c # e) # es | [] \<Rightarrow> [[c]]))"

definition elems :: "u8 list \<Rightarrow> u8 list list" where
  "elems p = filter (\<lambda>e. e \<noteq> []) (split_slash p)"

text \<open>Resolving names one after the other, with the results of \<^verbatim>\<open>walk_path\<close>.\<close>

fun resolve :: "u8 list list \<Rightarrow> u32 \<Rightarrow> u32 \<Rightarrow> fsstate \<Rightarrow> walkres" where
  "resolve [] dir fl s = Some (Inr (), dir, fl, [], s)"
| "resolve (name # names) dir fl s =
     (if length name \<ge> MAXNAMELEN then Some (Inl E_BAD_PATH, 0, 0, [], s)
      else do {
        ty \<leftarrow> rd32 s (f_type fl);
        if ty \<noteq> FTYPE_DIR then Some (Inl E_NOT_FOUND, 0, 0, [], s)
        else do {
          (r, s) \<leftarrow> dir_lookup fl name s;
          case r of
            Inl e \<Rightarrow> if e = E_NOT_FOUND \<and> names = [] then Some (Inl e, fl, 0, name, s) else Some (Inl e, 0, 0, [], s)
          | Inr f \<Rightarrow> resolve names fl f s } })"

lemma split_slash_ne: "split_slash p \<noteq> []"
  by (induction p rule: split_slash.induct) (auto split: list.splits)

lemma path_elem_rest: "path_elem p = (e, r) \<Longrightarrow> r = [] \<or> (\<exists>q. r = 47 # q)"
  by (induction p arbitrary: e r) (auto split: if_splits prod.splits)

lemma split_path_elem: "path_elem p = (e, r) \<Longrightarrow> split_slash p = e # (case r of [] \<Rightarrow> [] | _ # q \<Rightarrow> split_slash q)"
  by (induction p arbitrary: e r) (auto split: if_splits prod.splits list.splits)

lemma elems_skip: "elems (skip_slash p) = elems p"
  by (induction p rule: skip_slash.induct) (auto simp: elems_def)

lemma elems_path_elem:
  assumes "path_elem p = (e, r)" "e \<noteq> []"
  shows "elems p = e # elems (skip_slash r)"
  using split_path_elem [OF assms(1)] path_elem_rest [OF assms(1)] assms(2)
  by (auto simp: elems_skip) (auto simp: elems_def)

lemma skip_slash_no_slash: "skip_slash p = [] \<or> (\<exists>c q. skip_slash p = c # q \<and> c \<noteq> 47)"
  by (induction p rule: skip_slash.induct) auto

lemma elems_Nil: "elems (skip_slash p) = [] \<longleftrightarrow> skip_slash p = []"
proof -
  have "elems (c # q) \<noteq> []" if "c \<noteq> 47" for c q
    using that split_slash_ne [of q] by (auto simp: elems_def split: list.splits)
  moreover have "elems [] = []" by (simp add: elems_def)
  ultimately show ?thesis using skip_slash_no_slash [of p] by auto
qed

lemma walk_loop_resolve: "walk_loop (skip_slash p) dir fl s = resolve (elems (skip_slash p)) dir fl s"
proof (induction "length p" arbitrary: p dir fl s rule: less_induct)
  case less
  show ?case
  proof (cases "skip_slash p = []")
    case True
    then show ?thesis by (simp add: walk_loop.simps elems_def)
  next
    case False
    obtain e r where er: "path_elem (skip_slash p) = (e, r)" by fastforce
    have e: "e \<noteq> []" using er False skip_slash_no_slash [of p] by (auto split: prod.splits)
    have "length r < length p" using path_elem_append [OF er] e length_skip_slash [of p]
      by (metis add_less_cancel_right append_Nil length_0_conv length_append less_le_trans not_gr_zero plus_nat.add_0)
    from less [OF this] have IH: "walk_loop (skip_slash r) d f t = resolve (elems (skip_slash r)) d f t" for d f t .
    show ?thesis unfolding elems_path_elem [OF er e] resolve.simps elems_Nil IH [symmetric]
      by (subst walk_loop.simps) (simp add: False er Let_def)
  qed
qed

text \<open>Property C25. \<^verbatim>\<open>walk_path\<close> is equivalent to resolving the non-empty pieces between the slashes one after the other from the root:
  repeated, leading and trailing slashes make no difference, every element before the last has to be a directory, a too long
  element gives \<open>-E_BAD_PATH\<close>, and the directory and the last element come back exactly when only the last element is missing.\<close>

theorem walk_path_correct: "walk_path path s = resolve (elems path) 0 (s_root (super s)) s"
  unfolding walk_path_def walk_loop_resolve elems_skip ..

section \<open>Directories\<close>

text \<open>A directory of \<open>k\<close> blocks, all direct and in the cache.\<close>

definition dir_block :: "fsstate \<Rightarrow> u32 \<Rightarrow> nat \<Rightarrow> u32" where
  "dir_block s dir i = ld32 (fmem s) (f_direct dir (of_nat i))"

definition dir_cached :: "fsstate \<Rightarrow> nat \<Rightarrow> u32 \<Rightarrow> nat \<Rightarrow> bool" where
  "dir_cached s n dir k \<longleftrightarrow> va_is_mapped s (f_size dir) \<and> unat (ld32 (fmem s) (f_size dir)) div 4096 = k \<and> k \<le> 10 \<and>
     (\<forall>i < k. va_is_mapped s (f_direct dir (of_nat i)) \<and> dir_block s dir i \<noteq> 0 \<and> unat (dir_block s dir i) < n \<and>
        \<not> free_bit s (dir_block s dir i) \<and> block_is_mapped s (dir_block s dir i))"

text \<open>Its entries, in order.\<close>

definition block_files :: "u32 \<Rightarrow> u32 list" where
  "block_files b = map (\<lambda>j. blk_addr b (256 * j)) [0..<16]"

definition dir_files :: "fsstate \<Rightarrow> u32 \<Rightarrow> nat \<Rightarrow> nat \<Rightarrow> u32 list" where
  "dir_files s dir i k = concat (map (\<lambda>i. block_files (dir_block s dir i)) [i..<k])"

lemma get_block_cached:
  assumes f: "fs_ok s n" and d: "dir_cached s n dir k" and i: "i < k"
  shows "file_get_block dir (of_nat i) s = Some (Inr (diskaddr (dir_block s dir i)), s)"
proof -
  let ?v = "dir_block s dir i"
  have v: "va_is_mapped s (f_direct dir (of_nat i))" "?v \<noteq> 0" "unat ?v < n" "\<not> free_bit s ?v" "block_is_mapped s ?v" "i < 10"
    using d i by (simp_all add: dir_cached_def)
  have "of_nat i < NDIRECT" using v(6) by (simp add: word_less_nat_alt unat_of_nat NDIRECT_def)
  then have m: "file_map_block dir (of_nat i) True s = Some (Inr ?v, s)"
    using v(1,2) by (simp add: file_map_block_def file_block_walk_def try_fs_def rd32_def dir_block_def)
  have "\<not> of_nat n \<le> ?v" using v(3) f by (simp add: word_le_nat_alt unat_of_nat fs_ok_def)
  then have "read_block ?v s = Some (Inr (diskaddr ?v, False), s)"
    using fs_ok_nblocks [OF f] block_is_free_bit [OF f v(3)] v(4,5) by (auto simp: read_block_def)
  with m show ?thesis by (simp add: file_get_block_def try_fs_def)
qed

lemma scan_files_find:
  assumes "blk_ok b" "block_is_mapped s b" "j + n = 16"
  shows "scan_files test s (blk_addr b (256 * j)) n = Some (find (test (fmem s)) (map (\<lambda>j. blk_addr b (256 * j)) [j..<16]))"
  using assms(3)
proof (induction n arbitrary: j)
  case (Suc n)
  have m: "va_is_mapped s (blk_addr b (256 * j))" using va_is_mapped_block [OF assms(1)] assms(2) Suc.prems by simp
  have nx: "blk_addr b (256 * j) + BY2FILE = blk_addr b (256 * Suc j)" by (simp add: blk_addr_def BY2FILE_def)
  have "[j..<16] = j # [Suc j..<16]" using Suc.prems by (simp add: upt_conv_Cons)
  then show ?case using Suc.IH [of "Suc j"] Suc.prems m nx by (simp del: upt_Suc)
qed simp

lemma find_append: "find P (xs @ ys) = (case find P xs of None \<Rightarrow> find P ys | Some x \<Rightarrow> Some x)"
  by (induction xs) auto

lemma find_in_set: "find P xs = Some x \<Longrightarrow> x \<in> set xs"
  by (induction xs) (auto split: if_splits)

lemma scan_dir_find:
  assumes f: "fs_ok s n" and d: "dir_cached s n dir k"
  shows "i \<le> k \<Longrightarrow> scan_dir test dir (of_nat k) (of_nat i) s = Some (Inr (find (test (fmem s)) (dir_files s dir i k)), s)"
proof (induction "k - i" arbitrary: i)
  case 0
  then show ?case by (subst scan_dir.simps) (simp add: dir_files_def)
next
  case (Suc m)
  then have i: "i < k" by simp
  let ?v = "dir_block s dir i"
  have v: "blk_ok ?v" "block_is_mapped s ?v" "k \<le> 10" using d i fs_ok_small [OF f] by (simp_all add: dir_cached_def)
  have l: "(of_nat i :: u32) < of_nat k" using i v(3) by (simp add: word_less_nat_alt unat_of_nat)
  have F: "unat FILE2BLK = 16" by (simp add: fs_defs)
  have s0: "scan_files test s (diskaddr ?v) (unat FILE2BLK) = Some (find (test (fmem s)) (block_files ?v))"
    using scan_files_find [OF v(1,2), of 0 16] unfolding F by (simp add: block_files_def blk_addr_def)
  have dl: "dir_files s dir i k = block_files ?v @ dir_files s dir (Suc i) k" using i by (simp add: dir_files_def upt_conv_Cons)
  have "m = k - Suc i" "Suc i \<le> k" using Suc(2) i by simp_all
  from Suc(1) [OF this] have IH: "scan_dir test dir (of_nat k) (of_nat i + 1) s = Some (Inr (find (test (fmem s)) (dir_files s dir (Suc i) k)), s)"
    by (simp add: add.commute)
  show ?case
    by (subst scan_dir.simps) (simp add: l get_block_cached [OF f d i] try_fs_def s0 IH dl find_append split: option.splits)
qed


text \<open>The directory of \<open>dir_demo\<close> is in block 7; its only block is 8, whose second entry has the name "a".\<close>

definition dir_demo :: fsstate where
  "dir_demo = fs_demo\<lparr>fmem := (fmem fs_demo)(blk_addr 7 129 := 16, blk_addr 7 136 := 8, blk_addr 8 256 := 97)\<rparr>"

end
