(* ===== verification/Mos_Pipe.thy ===== *)
theory Mos_Pipe
  imports Mos_Prelude "HOL-Library.Sublist"
begin

text \<open>
  Pipes between processes: \<^verbatim>\<open>user/lib/pipe.c\<close>.

  A reader and a writer share the page with \<^verbatim>\<open>struct Pipe\<close> and may lose the processor between any two accesses of it.  Each is a
  state machine whose step is one access: \<open>reader_step\<close> and \<open>writer_step\<close> follow the loops of \<^verbatim>\<open>pipe_read\<close> and \<^verbatim>\<open>pipe_write\<close>; the
  relation \<open>pipe_step\<close> interleaves them with new calls and with \<^verbatim>\<open>pipe_close\<close> of the two ends.

  In \<^verbatim>\<open>p->p_buf[p->p_wpos++ % BY2PIPE] = c\<close> the language leaves the order of the increment and the access to the buffer to the compiler
  (and likewise when reading).  The parameter \<open>early\<close> says that the increment comes first.
\<close>

definition BY2PIPE :: u32 where "BY2PIPE = 32"

record pipe =
  p_rpos :: u32
  p_wpos :: u32
  p_buf :: "nat \<Rightarrow> u8"

text \<open>Where a process is: before the test of the loop, after it found the buffer empty (or full), after it found room, between the
  increment and the access, or out of the call.\<close>

datatype rpc = RHead | REmpty | RBody | RInc u32 | RLoad u32 | RRet
datatype wpc = WHead | WFull | WBody | WInc u32 | WStore u32 | WRet

text \<open>\<open>r_i\<close>, \<open>r_n\<close>: the counter and the limit of the read; \<open>r_buf\<close>: all bytes read so far; \<open>w_left\<close>: what is left of the buffer to
  write; \<open>wrote\<close>: all bytes whose write has begun to take effect.  \<open>rfd_ref\<close> and \<open>wfd_ref\<close> are the reference counts of the two
  \<^verbatim>\<open>Fd\<close> pages (one process has each open); \<open>r_map\<close> and \<open>w_map\<close> say whether the page of the pipe is mapped next to them.\<close>

record pipe_cfg =
  pp :: pipe
  r_pc :: rpc
  r_i :: nat
  r_n :: nat
  r_buf :: "u8 list"
  w_pc :: wpc
  w_left :: "u8 list"
  wrote :: "u8 list"
  rfd_ref :: nat
  wfd_ref :: nat
  r_map :: bool
  w_map :: bool

text \<open>The reference count of the pipe's page.  \<^verbatim>\<open>_pipe_is_closed\<close> repeats its two reads until it was not interrupted between them,
  so that they are one step.\<close>

definition pipe_ref :: "pipe_cfg \<Rightarrow> nat" where
  "pipe_ref c = (if r_map c then 1 else 0) + (if w_map c then 1 else 0)"

definition pipe_is_closed :: "nat \<Rightarrow> pipe_cfg \<Rightarrow> bool" where
  "pipe_is_closed fd_ref c \<longleftrightarrow> fd_ref = pipe_ref c"

definition pslot :: "u32 \<Rightarrow> nat" where
  "pslot pos = unat (pos mod BY2PIPE)"

definition reader_step :: "bool \<Rightarrow> pipe_cfg \<Rightarrow> pipe_cfg" where
  "reader_step early c =
     (let p = pp c
      in case r_pc c of
           RHead \<Rightarrow>
             if \<not> r_i c < r_n c then c\<lparr>r_pc := RRet\<rparr>
             else if p_rpos p \<ge> p_wpos p then c\<lparr>r_pc := REmpty\<rparr>
             else c\<lparr>r_pc := RBody\<rparr>
         | REmpty \<Rightarrow>
             if r_i c \<noteq> 0 \<or> pipe_is_closed (rfd_ref c) c then c\<lparr>r_pc := RRet\<rparr>
             else c\<lparr>r_pc := RHead\<rparr>
         | RBody \<Rightarrow>
             if early then c\<lparr>pp := p\<lparr>p_rpos := p_rpos p + 1\<rparr>, r_pc := RLoad (p_rpos p)\<rparr>
             else c\<lparr>r_buf := r_buf c @ [p_buf p (pslot (p_rpos p))], r_pc := RInc (p_rpos p)\<rparr>
         | RInc pos \<Rightarrow> c\<lparr>pp := p\<lparr>p_rpos := pos + 1\<rparr>, r_i := r_i c + 1, r_pc := RHead\<rparr>
         | RLoad pos \<Rightarrow> c\<lparr>r_buf := r_buf c @ [p_buf p (pslot pos)], r_i := r_i c + 1, r_pc := RHead\<rparr>
         | RRet \<Rightarrow> c)"

definition writer_step :: "bool \<Rightarrow> pipe_cfg \<Rightarrow> pipe_cfg" where
  "writer_step early c =
     (let p = pp c
      in case w_pc c of
           WHead \<Rightarrow>
             if w_left c = [] then c\<lparr>w_pc := WRet\<rparr>
             else if p_wpos p \<ge> p_rpos p + BY2PIPE then c\<lparr>w_pc := WFull\<rparr>
             else c\<lparr>w_pc := WBody\<rparr>
         | WFull \<Rightarrow>
             if pipe_is_closed (wfd_ref c) c then c\<lparr>w_pc := WRet\<rparr>
             else c\<lparr>w_pc := WHead\<rparr>
         | WBody \<Rightarrow>
             if early then c\<lparr>pp := p\<lparr>p_wpos := p_wpos p + 1\<rparr>, wrote := wrote c @ [hd (w_left c)], w_pc := WStore (p_wpos p)\<rparr>
             else c\<lparr>pp := p\<lparr>p_buf := (p_buf p)(pslot (p_wpos p) := hd (w_left c))\<rparr>, wrote := wrote c @ [hd (w_left c)],
                     w_pc := WInc (p_wpos p)\<rparr>
         | WInc pos \<Rightarrow> c\<lparr>pp := p\<lparr>p_wpos := pos + 1\<rparr>, w_left := tl (w_left c), w_pc := WHead\<rparr>
         | WStore pos \<Rightarrow> c\<lparr>pp := p\<lparr>p_buf := (p_buf p)(pslot pos := hd (w_left c))\<rparr>, w_left := tl (w_left c), w_pc := WHead\<rparr>
         | WRet \<Rightarrow> c)"

text \<open>A new pipe, and its steps: the two processes, new calls, and the two system calls of \<^verbatim>\<open>pipe_close\<close> on either end.\<close>

definition pipe_new :: "(nat \<Rightarrow> u8) \<Rightarrow> pipe_cfg" where
  "pipe_new buf = \<lparr>pp = \<lparr>p_rpos = 0, p_wpos = 0, p_buf = buf\<rparr>, r_pc = RRet, r_i = 0, r_n = 0, r_buf = [], w_pc = WRet, w_left = [],
     wrote = [], rfd_ref = 1, wfd_ref = 1, r_map = True, w_map = True\<rparr>"

inductive pipe_step :: "bool \<Rightarrow> pipe_cfg \<Rightarrow> pipe_cfg \<Rightarrow> bool" for early where
  reader: "rfd_ref c = 1 \<Longrightarrow> pipe_step early c (reader_step early c)"
| writer: "wfd_ref c = 1 \<Longrightarrow> pipe_step early c (writer_step early c)"
| call_read: "r_pc c = RRet \<Longrightarrow> rfd_ref c = 1 \<Longrightarrow> pipe_step early c (c\<lparr>r_pc := RHead, r_i := 0, r_n := n\<rparr>)"
| call_write: "w_pc c = WRet \<Longrightarrow> wfd_ref c = 1 \<Longrightarrow> pipe_step early c (c\<lparr>w_pc := WHead, w_left := bs\<rparr>)"
| close_rfd: "r_pc c = RRet \<Longrightarrow> rfd_ref c = 1 \<Longrightarrow> pipe_step early c (c\<lparr>rfd_ref := 0\<rparr>)"
| close_rpage: "rfd_ref c = 0 \<Longrightarrow> pipe_step early c (c\<lparr>r_map := False\<rparr>)"
| close_wfd: "w_pc c = WRet \<Longrightarrow> wfd_ref c = 1 \<Longrightarrow> pipe_step early c (c\<lparr>wfd_ref := 0\<rparr>)"
| close_wpage: "wfd_ref c = 0 \<Longrightarrow> pipe_step early c (c\<lparr>w_map := False\<rparr>)"

inductive_cases pipe_stepE: "pipe_step early c c'"

inductive pipe_reach :: "bool \<Rightarrow> pipe_cfg \<Rightarrow> bool" for early where
  new: "pipe_reach early (pipe_new buf)"
| step: "pipe_reach early c \<Longrightarrow> pipe_step early c c' \<Longrightarrow> pipe_reach early c'"

section \<open>The invariant\<close>

text \<open>\<open>rd\<close> and \<open>wr\<close> are the positions, which count the bytes that are completely read and written.\<close>

definition rd :: "pipe_cfg \<Rightarrow> nat" where "rd c = unat (p_rpos (pp c))"
definition wr :: "pipe_cfg \<Rightarrow> nat" where "wr c = unat (p_wpos (pp c))"

definition r_ok :: "pipe_cfg \<Rightarrow> bool" where
  "r_ok c \<longleftrightarrow> (case r_pc c of
     RInc pos \<Rightarrow> pos = p_rpos (pp c) \<and> length (r_buf c) = rd c + 1 \<and> rd c < wr c
   | RLoad _ \<Rightarrow> False
   | RBody \<Rightarrow> length (r_buf c) = rd c \<and> rd c < wr c
   | _ \<Rightarrow> length (r_buf c) = rd c)"

definition w_ok :: "pipe_cfg \<Rightarrow> bool" where
  "w_ok c \<longleftrightarrow> (case w_pc c of
     WInc pos \<Rightarrow> pos = p_wpos (pp c) \<and> length (wrote c) = wr c + 1 \<and> wr c < rd c + 32
   | WStore _ \<Rightarrow> False
   | WBody \<Rightarrow> length (wrote c) = wr c \<and> wr c < rd c + 32
   | _ \<Rightarrow> length (wrote c) = wr c)"

definition refs_ok :: "pipe_cfg \<Rightarrow> bool" where
  "refs_ok c \<longleftrightarrow> (rfd_ref c = 1 \<and> r_map c \<or> rfd_ref c = 0 \<and> r_pc c = RRet) \<and> (wfd_ref c = 1 \<and> w_map c \<or> wfd_ref c = 0 \<and> w_pc c = WRet)"

definition eof_ok :: "pipe_cfg \<Rightarrow> bool" where
  "eof_ok c \<longleftrightarrow> (r_pc c = RRet \<and> r_i c = 0 \<and> 0 < r_n c \<longrightarrow> \<not> w_map c)"

definition data_ok :: "pipe_cfg \<Rightarrow> bool" where
  "data_ok c \<longleftrightarrow> rd c \<le> wr c \<and> wr c \<le> rd c + 32 \<and> prefix (r_buf c) (wrote c) \<and>
     (\<forall>k. rd c \<le> k \<and> k < length (wrote c) \<longrightarrow> p_buf (pp c) (k mod 32) = wrote c ! k)"

definition pipe_inv :: "pipe_cfg \<Rightarrow> bool" where
  "pipe_inv c \<longleftrightarrow> r_ok c \<and> w_ok c \<and> refs_ok c \<and> eof_ok c \<and> data_ok c"

lemmas pipe_inv_defs = pipe_inv_def r_ok_def w_ok_def refs_ok_def eof_ok_def data_ok_def rd_def wr_def

text \<open>The positions do not wrap around as long as fewer than \<open>2 ^ 32 - 32\<close> bytes have gone through the pipe.\<close>

definition pipe_small :: "pipe_cfg \<Rightarrow> bool" where
  "pipe_small c \<longleftrightarrow> length (wrote c) < 2 ^ 32 - 32"

lemma pslot_unat: "pslot pos = unat pos mod 32"
  by (simp add: pslot_def BY2PIPE_def unat_mod_distrib)

lemma unat_inc: "unat (w :: u32) < 2 ^ 32 - 1 \<Longrightarrow> unat (w + 1) = unat w + 1"
  by (simp add: unat_plus_simple word_le_nat_alt unat_add_lem[THEN iffD1])

lemma unat_full: "unat (w :: u32) < 2 ^ 32 - 32 \<Longrightarrow> unat (w + BY2PIPE) = unat w + 32"
  by (subst unat_add_lem[THEN iffD1]) (simp_all add: BY2PIPE_def)

lemma prefix_snoc_nth: "prefix xs ys \<Longrightarrow> length xs < length ys \<Longrightarrow> prefix (xs @ [ys ! length xs]) ys"
  by (auto simp: prefix_def nth_append neq_Nil_conv)

lemma inv_new: "pipe_inv (pipe_new buf)"
  by (simp add: pipe_inv_defs pipe_new_def)

lemma wrote_mono:
  assumes "pipe_step early c c'" shows "length (wrote c) \<le> length (wrote c')"
  using assms by cases (auto simp: reader_step_def writer_step_def Let_def split: rpc.splits wpc.splits)

text \<open>Arithmetic on the positions under the invariant.\<close>

lemma inv_pos:
  assumes "pipe_inv c" "pipe_small c"
  shows "unat (p_rpos (pp c) + 1) = unat (p_rpos (pp c)) + 1" "unat (p_wpos (pp c) + 1) = unat (p_wpos (pp c)) + 1"
    "unat (p_rpos (pp c) + BY2PIPE) = unat (p_rpos (pp c)) + 32"
proof -
  have "unat (p_rpos (pp c)) < 2 ^ 32 - 32" "unat (p_wpos (pp c)) < 2 ^ 32 - 32"
    using assms by (auto simp: pipe_inv_defs pipe_small_def split: wpc.splits)
  then show "unat (p_rpos (pp c) + 1) = unat (p_rpos (pp c)) + 1" "unat (p_wpos (pp c) + 1) = unat (p_wpos (pp c)) + 1"
    "unat (p_rpos (pp c) + BY2PIPE) = unat (p_rpos (pp c)) + 32"
    by (simp_all add: unat_inc unat_full)
qed

lemma reader_inv:
  assumes "pipe_inv c" "rfd_ref c = 1" "pipe_small c" shows "pipe_inv (reader_step False c)"
proof (cases "r_pc c")
  case RBody
  have l: "length (r_buf c) < length (wrote c)" "length (r_buf c) = rd c"
    using assms RBody by (auto simp: pipe_inv_defs split: wpc.splits)
  then have "p_buf (pp c) (pslot (p_rpos (pp c))) = wrote c ! length (r_buf c)"
    using assms(1) by (auto simp: pipe_inv_def data_ok_def pslot_unat rd_def)
  then show ?thesis
    using assms RBody l prefix_snoc_nth[of "r_buf c" "wrote c"]
    by (auto simp: pipe_inv_defs reader_step_def Let_def split: wpc.splits)
next
  case (RInc pos)
  then show ?thesis
    using assms inv_pos[OF assms(1,3)] by (auto simp: pipe_inv_defs reader_step_def Let_def split: wpc.splits)
qed (use assms in \<open>auto simp: pipe_inv_defs reader_step_def Let_def pipe_is_closed_def pipe_ref_def word_less_nat_alt not_le split: wpc.splits\<close>)

text \<open>A byte that is stored does not overwrite one that has not been read: the slots of 32 consecutive positions are different.\<close>

lemma pslot_apart:
  fixes k n :: nat
  assumes "k < n" "n < k + 32" shows "k mod 32 \<noteq> n mod 32"
proof
  assume "k mod 32 = n mod 32"
  then have "32 dvd n - k" using assms by (metis mod_eq_dvd_iff_nat less_imp_le)
  then show False using assms by (auto dest: dvd_imp_le)
qed

lemma writer_inv:
  assumes "pipe_inv c" "wfd_ref c = 1" "pipe_small c" shows "pipe_inv (writer_step False c)"
proof (cases "w_pc c")
  case WBody
  then have l: "length (wrote c) = wr c" "wr c < rd c + 32"
    using assms by (auto simp: pipe_inv_def w_ok_def)
  have "data_ok (writer_step False c)"
    using assms(1) WBody l
    by (auto simp: pipe_inv_def data_ok_def writer_step_def Let_def rd_def wr_def pslot_unat nth_append prefix_def less_Suc_eq pslot_apart)
  then show ?thesis
    using assms WBody l by (auto simp: pipe_inv_def r_ok_def w_ok_def refs_ok_def eof_ok_def rd_def wr_def writer_step_def Let_def split: rpc.splits)
next
  case (WInc pos)
  then show ?thesis
    using assms inv_pos[OF assms(1,3)] by (auto simp: pipe_inv_defs writer_step_def Let_def split: rpc.splits)
next
  case WHead
  then show ?thesis
    using assms inv_pos[OF assms(1,3)]
    by (auto simp: pipe_inv_defs writer_step_def Let_def word_less_nat_alt not_le split: rpc.splits)
qed (use assms in \<open>auto simp: pipe_inv_defs writer_step_def Let_def split: rpc.splits\<close>)

lemma step_inv:
  assumes "pipe_step False c c'" "pipe_inv c" "pipe_small c" shows "pipe_inv c'"
  using assms
proof cases
  case reader then show ?thesis using assms reader_inv by simp
next
  case writer then show ?thesis using assms writer_inv by simp
qed (use assms(2) in \<open>auto simp: pipe_inv_defs split: rpc.splits wpc.splits\<close>)

lemma reach_inv: "pipe_reach False c \<Longrightarrow> pipe_small c \<Longrightarrow> pipe_inv c"
proof (induction rule: pipe_reach.induct)
  case (step c c')
  moreover have "pipe_small c" using wrote_mono[OF step.hyps(2)] step.prems by (simp add: pipe_small_def)
  ultimately show ?case using step_inv by blast
qed (rule inv_new)

section \<open>What a pipe promises\<close>

text \<open>Property C27.  A pipe is a bounded queue of bytes.  Under every interleaving of the accesses of \<^verbatim>\<open>pipe_read\<close>, \<^verbatim>\<open>pipe_write\<close> and
  \<^verbatim>\<open>pipe_close\<close> in which the buffer is accessed before the position is advanced, and as long as the positions do not wrap around: the
  bytes delivered are the first ones written, in order; at most \<^verbatim>\<open>BY2PIPE\<close> bytes that were written have not been read; and a read of
  at least one byte that has returned 0 did so because the writer has closed its end.\<close>

theorem pipe_fifo:
  assumes "pipe_reach False c" "length (wrote c) < 2 ^ 32 - 32"
  shows "prefix (r_buf c) (wrote c) \<and> length (wrote c) - length (r_buf c) \<le> unat BY2PIPE \<and>
    (r_pc c = RRet \<longrightarrow> r_i c = 0 \<longrightarrow> 0 < r_n c \<longrightarrow> wfd_ref c = 0 \<and> \<not> w_map c)"
proof (intro conjI impI)
  have inv: "pipe_inv c" using assms reach_inv by (simp add: pipe_small_def)
  then show "prefix (r_buf c) (wrote c)" by (simp add: pipe_inv_def data_ok_def)
  show "length (wrote c) - length (r_buf c) \<le> unat BY2PIPE"
    using inv by (auto simp: pipe_inv_defs BY2PIPE_def split: rpc.splits wpc.splits)
  assume "r_pc c = RRet" "r_i c = 0" "0 < r_n c"
  then show "wfd_ref c = 0" "\<not> w_map c" using inv by (auto simp: pipe_inv_def eof_ok_def refs_ok_def)
qed

text \<open>Runs: what the scheduler picks, one move at a time.\<close>

datatype move = MReader | MWriter | MRead nat | MWrite "u8 list" | MCloseFd | MClosePage

fun pipe_move :: "bool \<Rightarrow> move \<Rightarrow> pipe_cfg \<Rightarrow> pipe_cfg option" where
  "pipe_move early MReader c = (if rfd_ref c = 1 then Some (reader_step early c) else None)"
| "pipe_move early MWriter c = (if wfd_ref c = 1 then Some (writer_step early c) else None)"
| "pipe_move early (MRead n) c = (if r_pc c = RRet \<and> rfd_ref c = 1 then Some (c\<lparr>r_pc := RHead, r_i := 0, r_n := n\<rparr>) else None)"
| "pipe_move early (MWrite bs) c = (if w_pc c = WRet \<and> wfd_ref c = 1 then Some (c\<lparr>w_pc := WHead, w_left := bs\<rparr>) else None)"
| "pipe_move early MCloseFd c = (if w_pc c = WRet \<and> wfd_ref c = 1 then Some (c\<lparr>wfd_ref := 0\<rparr>) else None)"
| "pipe_move early MClosePage c = (if wfd_ref c = 0 then Some (c\<lparr>w_map := False\<rparr>) else None)"

fun pipe_run :: "bool \<Rightarrow> move list \<Rightarrow> pipe_cfg \<Rightarrow> pipe_cfg option" where
  "pipe_run early [] c = Some c"
| "pipe_run early (m # ms) c = (case pipe_move early m c of None \<Rightarrow> None | Some c' \<Rightarrow> pipe_run early ms c')"

lemma pipe_move_step: "pipe_move early m c = Some c' \<Longrightarrow> pipe_step early c c'"
  by (cases "(early, m, c)" rule: pipe_move.cases) (auto split: if_splits intro: pipe_step.intros)

lemma pipe_run_reach: "pipe_reach early c \<Longrightarrow> pipe_run early ms c = Some c' \<Longrightarrow> pipe_reach early c'"
  by (induction ms arbitrary: c) (auto split: option.splits dest: pipe_move_step pipe_reach.step)

lemmas run_simps = pipe_new_def reader_step_def writer_step_def Let_def BY2PIPE_def pipe_is_closed_def pipe_ref_def pslot_def

text \<open>A write of two bytes, a read of both, and the end of the file.\<close>

definition pipe_demo :: "move list" where
  "pipe_demo = [MWrite [65, 66], MWriter, MWriter, MWriter, MWriter, MWriter, MWriter, MWriter, MCloseFd, MClosePage,
     MRead 2, MReader, MReader, MReader, MReader, MReader, MReader, MReader, MRead 5, MReader, MReader]"

definition pipe_demo_end :: pipe_cfg where
  "pipe_demo_end = the (pipe_run False pipe_demo (pipe_new (\<lambda>_. 0)))"

lemma pipe_demo_run:
  "\<exists>c. pipe_run False pipe_demo (pipe_new (\<lambda>_. 0)) = Some c \<and> r_buf c = [65, 66] \<and> wrote c = [65, 66] \<and> r_pc c = RRet \<and> r_i c = 0 \<and> r_n c = 5"
  by (simp add: pipe_demo_def run_simps word_le_nat_alt)

lemma pipe_demo_end:
  "pipe_reach False pipe_demo_end" "r_buf pipe_demo_end = [65, 66]" "wrote pipe_demo_end = [65, 66]"
  "r_pc pipe_demo_end = RRet" "r_i pipe_demo_end = 0" "r_n pipe_demo_end = 5"
  using pipe_demo_run by (auto simp: pipe_demo_end_def intro: pipe_run_reach[OF pipe_reach.new])

theorem pipe_fifo_witness:
  "prefix (r_buf pipe_demo_end) (wrote pipe_demo_end) \<and> length (wrote pipe_demo_end) - length (r_buf pipe_demo_end) \<le> unat BY2PIPE \<and>
   wfd_ref pipe_demo_end = 0 \<and> \<not> w_map pipe_demo_end"
  using pipe_fifo[of pipe_demo_end] by (simp add: pipe_demo_end)

end
