(* ===== verification/Mos_Fork.thy ===== *)
theory Mos_Fork
  imports Mos_Ipc
begin

text \<open>
  Copy-on-write \<^verbatim>\<open>fork\<close>: \<^verbatim>\<open>user/lib/fork.c\<close>, on the model of the kernel.

  The code runs as the current environment and reaches the kernel through the system calls of theory \<open>Mos_Syscall\<close>.  It reads the
  page tables through \<^verbatim>\<open>vpd\<close> and \<^verbatim>\<open>vpt\<close>; \<open>vpd_at\<close> and \<open>vpt_at\<close> are the words that the self map shows there (theorem
  \<open>do_tlb_miss_self_map\<close>), \<open>None\<close> where the kernel panics because the table does not exist.  \<open>None\<close> is also \<^verbatim>\<open>user_panic\<close>.
\<close>

declare split_paired_All [simp del] split_paired_Ex [simp del]

definition vpd_at :: "kstate \<Rightarrow> u32 \<Rightarrow> u32" where
  "vpd_at s va = rd (pm s) (cur_pgdir s + 4 * PDX va)"

definition vpt_at :: "kstate \<Rightarrow> u32 \<Rightarrow> u32 option" where
  "vpt_at s va = (if has (vpd_at s va) PTE_V then Some (rd (pm s) (PTE_ADDR (vpd_at s va) + 4 * PTX va)) else None)"

text \<open>The macros \<^verbatim>\<open>panic_on\<close> and \<^verbatim>\<open>try\<close> around a system call.\<close>

definition panic_on :: "sysres \<Rightarrow> kstate option" where
  "panic_on r = (case r of Some (KReturn v, s) \<Rightarrow> if v \<noteq> 0 then None else Some s | _ \<Rightarrow> None)"

definition try_call :: "sysres \<Rightarrow> (kstate \<Rightarrow> sysres) \<Rightarrow> sysres" where
  "try_call r k = (case r of Some (KReturn v, s) \<Rightarrow> if v \<noteq> 0 then Some (KReturn v, s) else k s | _ \<Rightarrow> None)"

section \<open>Copying the address space\<close>

definition duppage :: "u32 \<Rightarrow> u32 \<Rightarrow> kstate \<Rightarrow> kstate option" where
  "duppage envid vpn s = do {
     let addr = vpn * BY2PG;
     pte \<leftarrow> vpt_at s addr;
     let perm = pte AND 0x3FF;
     if has perm PTE_W \<and> \<not> has perm PTE_COW \<and> \<not> has perm PTE_LIBRARY
     then do {
       let perm = (perm XOR PTE_W) OR PTE_COW;
       s \<leftarrow> panic_on (sys_mem_map 0 addr envid addr perm s);
       panic_on (sys_mem_map 0 addr 0 addr perm s) }
     else panic_on (sys_mem_map 0 addr envid addr perm s) }"

text \<open>Step 3 of \<^verbatim>\<open>fork\<close>: the pages below \<^verbatim>\<open>USTACKTOP\<close>.\<close>

fun dup_loop :: "u32 \<Rightarrow> nat list \<Rightarrow> kstate \<Rightarrow> kstate option" where
  "dup_loop child [] s = Some s"
| "dup_loop child (i # is) s =
     (let vpn = of_nat i
      in if has (vpd_at s (vpn * BY2PG)) PTE_V then do {
           pte \<leftarrow> vpt_at s (vpn * BY2PG);
           if has pte PTE_V then do { s \<leftarrow> duppage child vpn s; dup_loop child is s } else dup_loop child is s }
         else dup_loop child is s)"

definition user_pages :: nat where
  "user_pages = unat (drop_bit 12 USTACKTOP)"

text \<open>\<^verbatim>\<open>fork\<close> in the parent, where \<^verbatim>\<open>syscall_exofork\<close> does not return 0; \<open>cow\<close> is the address of \<^verbatim>\<open>cow_entry\<close>.\<close>

definition fork_parent :: "u32 \<Rightarrow> u32 \<Rightarrow> kstate \<Rightarrow> sysres" where
  "fork_parent cow child s = do {
     s \<leftarrow> dup_loop child [0..<user_pages] s;
     try_call (sys_set_tlb_mod_entry child cow s) (\<lambda>s.
       try_call (sys_set_env_status child ENV_RUNNABLE s) (\<lambda>s. ret child s)) }"

definition fork_create :: "u32 \<Rightarrow> kstate \<Rightarrow> sysres" where
  "fork_create cow s = do {
     (r, s) \<leftarrow> sys_exofork s;
     case r of KReturn child \<Rightarrow> if child = 0 then None else fork_parent cow child s | _ \<Rightarrow> None }"

definition fork :: "u32 \<Rightarrow> kstate \<Rightarrow> sysres" where
  "fork cow s = do {
     ce \<leftarrow> the_curenv s;
     if env_user_tlb_mod_entry ce \<noteq> cow
     then try_call (sys_set_tlb_mod_entry 0 cow s) (fork_create cow)
     else fork_create cow s }"

section \<open>Reading the page tables\<close>

lemma vpd_at_ptab:
  assumes kv: "kinv s dp L X c" and va: "user_va va"
  shows "has (vpd_at s va) PTE_V \<longleftrightarrow> ptab (pm s) (dp ` live s) (dp c, PDX va) \<noteq> None"
proof -
  note k = kinv_env [OF kv, of c]
  have c: "c \<in> live s" using kv by (simp add: kinv_def)
  have e: "vpd_at s va = ent (mem (pm s)) (dp c) (PDX va)"
    using k(7) c by (simp add: vpd_at_def rd_ent flip: slot_def)
  show ?thesis
    using ptab_None_invalid [OF vm_inv_cases(1) [OF k(1)] k(3) va] ptab_Some_entry(1) [OF vm_inv_cases(1) [OF k(1)]] c
    unfolding e by blast
qed

lemma vpt_at_ptes:
  assumes kv: "kinv s dp L X c" and t: "ptab (pm s) (dp ` live s) (dp c, PDX va) = Some t"
  shows "vpt_at s va = Some (ptes (pm s) (dp ` live s) (key (dp c) va))"
proof -
  have c: "c \<in> live s" using kv by (simp add: kinv_def)
  note k = kinv_env [OF kv c]
  note e = ptab_Some_entry [OF vm_inv_cases(1) [OF k(1)] t]
  have d: "vpd_at s va = ent (mem (pm s)) (dp c) (PDX va)"
    using k(7) by (simp add: vpd_at_def rd_ent flip: slot_def)
  show ?thesis using e(1,2) t PTX_less [of va] unfolding vpt_at_def d by (simp add: rd_ent ptes_def key_def flip: slot_def)
qed

lemma vpt_at_maps:
  assumes kv: "kinv s dp L X c" and va: "user_va va"
  shows "(has (vpd_at s va) PTE_V \<and> (\<exists>e. vpt_at s va = Some e \<and> has e PTE_V)) \<longleftrightarrow> maps (pm s) (dp ` live s) (key (dp c) va) \<noteq> None"
proof (cases "ptab (pm s) (dp ` live s) (dp c, PDX va)")
  case None
  then show ?thesis using vpd_at_ptab [OF kv va] by (auto simp: maps_def ptes_def key_def)
next
  case (Some t)
  have "c \<in> live s" using kv by (simp add: kinv_def)
  note ok = vm_inv_cases(1) [OF kinv_env(1) [OF kv this]]
  have "has (ptes (pm s) (dp ` live s) (key (dp c) va)) PTE_V \<longleftrightarrow> maps (pm s) (dp ` live s) (key (dp c) va) \<noteq> None"
    using tables_okD(13) [OF ok] by (auto simp: maps_def entry_frame_def)
  then show ?thesis using vpd_at_ptab [OF kv va] vpt_at_ptes [OF kv Some] Some by simp
qed

section \<open>One page\<close>

text \<open>No frame is left, apart from those set aside in \<open>L\<close>.\<close>

definition no_free :: "kstate \<Rightarrow> nat set \<Rightarrow> bool" where
  "no_free s L \<longleftrightarrow> (\<forall>q. q < unat (npage (pm s)) \<and> pp_ref (pm s) q = 0 \<longrightarrow> q \<in> L)"

lemma sys_mem_map_self:
  assumes kv: "kinv s dp L X c" and fl: "flag_bits perm" and va: "\<not> is_illegal_va va1" "\<not> is_illegal_va va2"
    and e: "envid2env envid True s = Some (Inr (Some e))" "e \<in> live s"
    and m: "maps (pm s) (dp ` live s) (key (dp c) va1) = Some p" and r: "unat (pp_ref (pm s) p) < 65535"
  obtains (no_mem) "panic_on (sys_mem_map 0 va1 envid va2 perm s) = None" "no_free s L"
      "ptab (pm s) (dp ` live s) (dp e, PDX va2) = None" "sys_mem_map 0 va1 envid va2 perm s = fail E_NO_MEM s"
  | (ok) q where "panic_on (sys_mem_map 0 va1 envid va2 perm s) = Some (s\<lparr>pm := q\<rparr>)" "kinv (s\<lparr>pm := q\<rparr>) dp L X c"
      "sys_mem_map 0 va1 envid va2 perm s = ret 0 (s\<lparr>pm := q\<rparr>)"
      "ptes q (dp ` live s) = (ptes (pm s) (dp ` live s))(key (dp e) va2 := new_pte p (perm OR PTE_U))" "npage q = npage (pm s)"
      "\<And>x. data_frame (pm s) (dp ` live s) L x \<Longrightarrow> same_frame (mem (pm s)) (mem q) x"
proof -
  have c: "curenv s = Some c" "c \<in> live s" using kv by (simp_all add: kinv_def)
  have r': "pp_ref (pm s) x + 1 \<noteq> 0" if "maps (pm s) (dp ` live s) (key (dp c) va1) = Some x" for x
  proof -
    have "unat (pp_ref (pm s) x) < 2 ^ 16 - 1" using that m r by simp
    then have "unat (pp_ref (pm s) x + 1) = unat (pp_ref (pm s) x) + 1" by (simp add: unat_word_ariths)
    then show ?thesis by auto
  qed
  note I = vm_inv_cases [OF kinv_env(1) [OF kv c(2)]]
  have run: "sys_mem_map 0 va1 envid va2 perm s = do {
        (r, q) \<leftarrow> page_lookup (env_pgdir (envs s c)) va1 (pm s);
        case r of
          None \<Rightarrow> fail E_INVAL (s\<lparr>pm := q\<rparr>)
        | Some (pp, _) \<Rightarrow> do {
            (r, q) \<leftarrow> page_insert (env_pgdir (envs s e)) (env_asid (envs s e)) pp va2 (perm OR PTE_U) q;
            ret_result r (s\<lparr>pm := q\<rparr>) } }"
    using va e c by (simp add: sys_mem_map_def try_env_def envid2env_def)
  show thesis
  proof (cases rule: share_page_cases [OF kv c(2) e(2) legal_va [OF va(1)] legal_va [OF va(2)] perm_or_U [OF fl],
        where asid = "env_asid (envs s e)"])
    case (1 x)
    then show ?case by (rule r')
  next
    case 2
    then show thesis using m by simp
  next
    case (3 x y)
    show thesis by (rule no_mem) (use 3 in \<open>simp_all add: run ret_result_def panic_on_def fail_def neg_errno_neq_0 no_free_def\<close>)
  next
    case (4 x y q)
    have "x = p" using 4(2) m by simp
    moreover have "npage q = npage (pm s)"
      using page_insert_cases [OF kinv_env(1) [OF kv c(2)] kinv_env(3) [OF kv e(2)] legal_va [OF va(2)]
          mapped_insertable(1) [OF kinv_env(1) [OF kv c(2)] 4(2) r' [OF 4(2)]] perm_or_U [OF fl], where asid = "env_asid (envs s e)"]
        4(3) kinv_env(2) [OF kv e(2)]
      by (metis Pair_inject option.inject sum.distinct(1) sum.sel(1))
    ultimately show thesis
      by (intro ok [of q]) (use 4 kinv_pm [OF kv 4(4)] in \<open>simp_all add: run ret_result_def panic_on_def ret_def\<close>)
  qed
qed

text \<open>A page that is writable, not shared and not yet copy-on-write becomes copy-on-write in both environments; any other
  page is mapped in the child with the permissions it has.\<close>

definition cow_page :: "u32 \<Rightarrow> bool" where
  "cow_page e \<longleftrightarrow> has e PTE_W \<and> \<not> has e PTE_COW \<and> \<not> has e PTE_LIBRARY"

definition dup_perm :: "u32 \<Rightarrow> u32" where
  "dup_perm e = (if cow_page e then ((e AND 0x3FF) XOR PTE_W) OR PTE_COW else e AND 0x3FF)"

definition dup_pte :: "nat \<Rightarrow> u32 \<Rightarrow> u32" where
  "dup_pte p e = new_pte p (dup_perm e OR PTE_U)"

text \<open>The entries after the pages with indices in \<open>K\<close> have been handled; \<open>e\<close> and \<open>m\<close> are the entries and the mapped frames before,
  \<open>d\<close> and \<open>d'\<close> the directories of the parent and the child.\<close>

definition dupped :: "(nat \<times> u32 \<times> u32 \<Rightarrow> u32) \<Rightarrow> (nat \<times> u32 \<times> u32 \<Rightarrow> nat option) \<Rightarrow> nat \<Rightarrow> nat \<Rightarrow> (u32 \<times> u32) set \<Rightarrow> nat \<times> u32 \<times> u32 \<Rightarrow> u32" where
  "dupped e m d d' K = (\<lambda>(x, ij).
     case m (d, ij) of
       None \<Rightarrow> e (x, ij)
     | Some p \<Rightarrow>
         if ij \<in> K \<and> (x = d' \<or> x = d \<and> cow_page (e (d, ij))) then dup_pte p (e (d, ij)) else e (x, ij))"

lemma dupped_one:
  assumes "m (d, ij) = Some p"
  shows "dupped e m d d' {ij} = (e((d', ij) := dup_pte p (e (d, ij))))((d, ij) := if cow_page (e (d, ij)) \<or> d = d' then dup_pte p (e (d, ij)) else e (d, ij))"
proof
  fix k
  show "dupped e m d d' {ij} k = ((e((d', ij) := dup_pte p (e (d, ij))))
      ((d, ij) := if cow_page (e (d, ij)) \<or> d = d' then dup_pte p (e (d, ij)) else e (d, ij))) k"
    by (cases k; cases "snd k = ij") (use assms in \<open>auto simp: dupped_def split: option.splits\<close>)
qed

lemma has_low: "has (e AND 0x3FF) PTE_W = has e PTE_W" "has (e AND 0x3FF) PTE_COW = has e PTE_COW"
  "has (e AND 0x3FF) PTE_LIBRARY = has e PTE_LIBRARY"
  by (simp_all add: has_def pte_defs and.assoc)

lemma flag_bits_low: "flag_bits (e AND 0x3FF)"
  by (simp add: flag_bits_def and.assoc)

lemma flag_bits_xor: "flag_bits f \<Longrightarrow> flag_bits g \<Longrightarrow> flag_bits (f XOR g)"
  unfolding flag_bits_def by (simp add: bit.conj_xor_distrib2)

lemma dup_perm_flags: "flag_bits (dup_perm e)"
  by (simp add: dup_perm_def flag_bits_or flag_bits_xor flag_bits_low)

text \<open>Frames that are mapped: their contents are data, and their reference count is the number of mappings (and of other uses \<open>X\<close>).\<close>

lemma mapped_ref:
  assumes inv: "vm_inv s D L X" and m: "maps s D x = Some p"
  shows "unat (pp_ref s p) = card {k. maps s D k = Some p} + X p"
proof -
  note I = vm_inv_cases [OF inv] and t = tables_okD(9,10,11) [OF vm_inv_cases(1) [OF inv] m]
  have "{k. ptab s D k = Some p} = {}" using t(2) by auto
  then show ?thesis using I(2) t(1,3) by (simp add: refs_ok_def refs_def)
qed

lemma mapped_data:
  assumes inv: "vm_inv s D L X" and m: "maps s D x = Some p"
  shows "data_frame s D L p"
proof -
  note I = vm_inv_cases [OF inv] and t = tables_okD(9,10,11) [OF vm_inv_cases(1) [OF inv] m]
  have "pp_ref s p \<noteq> 0" using referenced [OF I(1,2) t(3)] m by blast
  then show ?thesis using t tables_okD(1) [OF I(1)] by (auto simp: data_frame_def ran_def)
qed

lemma duppage_run:
  assumes kv: "kinv s dp L X c" and va: "va = vpn * BY2PG" "\<not> is_illegal_va va"
    and e: "envid2env envid True s = Some (Inr (Some e))" "e \<in> live s" "e \<noteq> c"
    and m: "maps (pm s) (dp ` live s) (key (dp c) va) = Some p" and r: "unat (pp_ref (pm s) p) < 65534"
    and child: "maps (pm s) (dp ` live s) (key (dp e) va) = None"
  obtains (no_mem) "duppage envid vpn s = None" "no_free s L"
  | (ok) q where "duppage envid vpn s = Some (s\<lparr>pm := q\<rparr>)" "kinv (s\<lparr>pm := q\<rparr>) dp L X c" "npage q = npage (pm s)"
      "ptes q (dp ` live s) = dupped (ptes (pm s) (dp ` live s)) (maps (pm s) (dp ` live s)) (dp c) (dp e) {(PDX va, PTX va)}"
      "\<And>x y. maps (pm s) (dp ` live s) x = Some y \<Longrightarrow> same_frame (mem (pm s)) (mem q) y"
proof -
  let ?D = "dp ` live s" and ?u = "ptes (pm s) (dp ` live s) (key (dp c) va)"
  have c: "c \<in> live s" using kv by (simp add: kinv_def)
  note k = kinv_env [OF kv c]
  have ne: "dp e \<noteq> dp c" using k(4) e(2,3) c by (auto simp: inj_on_def)
  obtain t where t: "ptab (pm s) ?D (dp c, PDX va) = Some t" using maps_key [OF m] by blast
  have def: "duppage envid vpn s =
      (if cow_page ?u then do { s \<leftarrow> panic_on (sys_mem_map 0 va envid va (dup_perm ?u) s); panic_on (sys_mem_map 0 va 0 va (dup_perm ?u) s) }
       else panic_on (sys_mem_map 0 va envid va (dup_perm ?u) s))"
    unfolding duppage_def va(1) [symmetric] by (simp add: vpt_at_ptes [OF kv t] has_low cow_page_def dup_perm_def Let_def)
  have r1: "unat (pp_ref (pm s) p) < 65535" using r by simp
  show thesis
  proof (cases rule: sys_mem_map_self [OF kv dup_perm_flags [of ?u] va(2,2) e(1,2) m r1])
    case 1
    show thesis by (rule no_mem) (use 1 in \<open>simp_all add: def\<close>)
  next
    case (2 q)
    have p1: "ptes q ?D = (ptes (pm s) ?D)(key (dp e) va := dup_pte p ?u)" using 2(4) by (simp add: dup_pte_def)
    have same: "same_frame (mem (pm s)) (mem q) y" if "maps (pm s) ?D x = Some y" for x y using 2(6) mapped_data [OF k(1) that] .
    show thesis
    proof (cases "cow_page ?u")
      case False
      have "ptes q ?D = dupped (ptes (pm s) ?D) (maps (pm s) ?D) (dp c) (dp e) {(PDX va, PTX va)}"
        using False ne m dupped_one [of "maps (pm s) ?D" "dp c" "(PDX va, PTX va)" p "ptes (pm s) ?D" "dp e"] unfolding p1
        by (simp add: key_def fun_upd_twist)
      then show thesis using ok [of q] False 2(1,2,5) same by (simp add: def)
    next
      case True
      let ?s = "s\<lparr>pm := q\<rparr>"
      have lv: "live ?s = live s" by (simp add: live_def)
      have mq: "maps (pm ?s) (dp ` live ?s) ky = (if ky = key (dp e) va then Some p else maps (pm s) ?D ky)" for ky
      proof -
        have nb: "p < unat (npage q)" "unat (npage q) \<le> page_bound"
          using tables_okD(11,1) [OF vm_inv_cases(1) [OF k(1)]] m 2(5) by auto
        show ?thesis using new_pte_frame [OF nb perm_or_U [OF dup_perm_flags]] p1 entry_frame_cong [OF 2(5)]
          by (simp add: lv maps_def dup_pte_def)
      qed
      have mp: "maps (pm ?s) (dp ` live ?s) (key (dp c) va) = Some p" using mq m by simp
      have c0: "envid2env 0 True ?s = Some (Inr (Some c))" using k(5) by (simp add: envid2env_def)
      have cl: "c \<in> live ?s" using c lv by simp
      have inv2: "vm_inv q ?D L X" using 2(2) lv by (simp add: kinv_def space_inv_def)
      have rp: "unat (pp_ref (pm ?s) p) < 65535"
      proof -
        have m2: "maps q ?D = (maps (pm s) ?D)(key (dp e) va := Some p)" using mq lv by (simp add: fun_eq_iff)
        have "card {k. maps q ?D k = Some p} \<le> card {k. maps (pm s) ?D k = Some p} + 1"
          using card_map_upd [OF finite_views(2) [OF vm_inv_cases(1) [OF k(1)], where p = p], of "key (dp e) va" "Some p"] unfolding m2 by simp
        then show ?thesis using mapped_ref [OF k(1) m] mapped_ref [OF inv2, of _ p] mp lv r by fastforce
      qed
      have mdf2: "data_frame q ?D L y" if "maps (pm s) ?D x = Some y" for x y
        using mapped_data [OF inv2, of x y] mapped_data [OF inv2, of _ y] mq [of x] that lv child
        by (cases "x = key (dp e) va") auto
      show thesis
      proof (cases rule: sys_mem_map_self [OF 2(2) dup_perm_flags [of ?u] va(2,2) c0 cl mp rp])
        case 1
        then have "maps (pm ?s) (dp ` live ?s) (key (dp c) va) = None" by (simp add: maps_def ptes_def key_def)
        then show thesis using mp by simp
      next
        case q: (2 q2)
        have "ptes q2 ?D = (ptes (pm s) ?D)(key (dp e) va := dup_pte p ?u, key (dp c) va := dup_pte p ?u)"
          using q(4) p1 lv by (simp add: dup_pte_def)
        then have pt: "ptes q2 ?D = dupped (ptes (pm s) ?D) (maps (pm s) ?D) (dp c) (dp e) {(PDX va, PTX va)}"
          using True m dupped_one [of "maps (pm s) ?D" "dp c" "(PDX va, PTX va)" p "ptes (pm s) ?D" "dp e"] by (simp add: key_def)
        have "same_frame (mem (pm s)) (mem q2) y" if "maps (pm s) ?D x = Some y" for x y
          using same_frame_trans [OF same [OF that]] q(6) mdf2 [OF that] lv by simp
        then show thesis using ok [of q2] pt q(1,2,5) 2(1,5) lv True by (simp add: def)
      qed
    qed
  qed
qed

section \<open>All pages\<close>

definition page_va :: "nat \<Rightarrow> u32" where
  "page_va i = of_nat i * BY2PG"

definition page_ij :: "nat \<Rightarrow> u32 \<times> u32" where
  "page_ij i = (PDX (page_va i), PTX (page_va i))"

lemma user_pages_eq: "user_pages = 0x7f3fe"
  by (simp add: user_pages_def layout_defs)

lemma page_va_unat: "i < user_pages \<Longrightarrow> unat (page_va i) = 4096 * i"
  by (simp add: page_va_def BY2PG_def user_pages_eq unat_word_ariths unat_of_nat)

lemma page_va_user: "i < user_pages \<Longrightarrow> user_va (page_va i) \<and> page_va i < UTOP"
  using page_va_unat [of i] user_va_UTOP [of "page_va i"] by (simp add: word_less_nat_alt user_pages_eq layout_defs)

lemma page_ij_inj: "i < user_pages \<Longrightarrow> j < user_pages \<Longrightarrow> page_ij i = page_ij j \<Longrightarrow> i = j"
proof -
  assume a: "i < user_pages" "j < user_pages" "page_ij i = page_ij j"
  have d: "unat (PDX (page_va k)) = k div 1024 mod 1024" "unat (PTX (page_va k)) = k mod 1024" if "k < user_pages" for k
    using that by (simp_all add: PDX_unat PTX_unat page_va_unat)
  have "i div 1024 mod 1024 = j div 1024 mod 1024" "i mod 1024 = j mod 1024"
    using d [OF a(1)] d [OF a(2)] a(3) unfolding page_ij_def by (metis prod.inject)+
  moreover have "i div 1024 < 1024" "j div 1024 < 1024" using a(1,2) by (simp_all add: user_pages_eq)
  ultimately show "i = j" by (metis div_mod_decomp mod_less)
qed

lemma dupped_empty: "dupped e m d d' {} = e"
  by (auto simp: dupped_def fun_eq_iff split: option.splits)

text \<open>Handling one more page.\<close>

lemma dupped_step:
  assumes "ij \<notin> K" "d \<noteq> d'" "m' = (\<lambda>k. if fst k = d' \<and> snd k \<in> K \<and> m (d, snd k) \<noteq> None then m (d, snd k) else m k)"
  shows "dupped (dupped e m d d' K) m' d d' {ij} = dupped e m d d' (insert ij K)"
  using assms by (auto simp: dupped_def fun_eq_iff split: option.splits)

lemma dupped_None: "m (d, ij) = None \<Longrightarrow> dupped e m d d' (insert ij K) = dupped e m d d' K"
  by (auto simp: dupped_def fun_eq_iff split: option.splits)

lemma maps_dupped:
  assumes ok: "tables_ok s D" and np: "npage q = npage s" and e: "ptes q D = dupped (ptes s D) (maps s D) d d' K"
  shows "maps q D = (\<lambda>k. if fst k = d' \<and> snd k \<in> K \<and> maps s D (d, snd k) \<noteq> None then maps s D (d, snd k) else maps s D k)"
proof
  fix k :: "nat \<times> u32 \<times> u32"
  obtain x ij where k: "k = (x, ij)" by (cases k)
  have "entry_frame s (dup_pte p (ptes s D (d, ij))) = Some p" if "maps s D (d, ij) = Some p" for p
    unfolding dup_pte_def using new_pte_frame tables_okD(1,11) [OF ok] that perm_or_U [OF dup_perm_flags] by blast
  then show "maps q D k = (if fst k = d' \<and> snd k \<in> K \<and> maps s D (d, snd k) \<noteq> None then maps s D (d, snd k) else maps s D k)"
    unfolding k maps_def [of q] e entry_frame_cong [OF np]
    by (auto simp: dupped_def maps_def [symmetric] split: option.splits)
qed

text \<open>The reference counts have room for one more mapping of every page of the environment \<open>c\<close>.\<close>

definition refs_room :: "kstate \<Rightarrow> (nat \<Rightarrow> nat) \<Rightarrow> (nat \<Rightarrow> nat) \<Rightarrow> nat \<Rightarrow> bool" where
  "refs_room s dp X c \<longleftrightarrow> (\<forall>p. card {k. maps (pm s) (dp ` live s) k = Some p} + card {ij. maps (pm s) (dp ` live s) (dp c, ij) = Some p} + X p < 65534)"

lemma dupped_refs:
  assumes inv: "vm_inv s D L X" "vm_inv q D L X" and np: "npage q = npage s" and e: "ptes q D = dupped (ptes s D) (maps s D) d d' K"
    and m: "maps q D x = Some p"
  shows "unat (pp_ref q p) \<le> card {k. maps s D k = Some p} + card {ij. maps s D (d, ij) = Some p} + X p"
proof -
  note I = vm_inv_cases [OF inv(1)]
  have fin: "finite {k. maps s D k = Some p}" using finite_views [OF I(1)] by blast
  moreover have "inj_on (Pair d) {ij. maps s D (d, ij) = Some p}" "Pair d ` {ij. maps s D (d, ij) = Some p} \<subseteq> {k. maps s D k = Some p}"
    by (auto simp: inj_on_def)
  ultimately have f2: "finite {ij. maps s D (d, ij) = Some p}" by (meson finite_imageD finite_subset)
  have "{k. maps q D k = Some p} \<subseteq> {k. maps s D k = Some p} \<union> Pair d' ` {ij. maps s D (d, ij) = Some p}"
    unfolding maps_dupped [OF I(1) np e] by (auto split: if_splits)
  then have "card {k. maps q D k = Some p} \<le> card ({k. maps s D k = Some p} \<union> Pair d' ` {ij. maps s D (d, ij) = Some p})"
    by (rule card_mono [rotated]) (simp add: fin f2)
  also have "\<dots> \<le> card {k. maps s D k = Some p} + card (Pair d' ` {ij. maps s D (d, ij) = Some p})" by (rule card_Un_le)
  also have "\<dots> \<le> card {k. maps s D k = Some p} + card {ij. maps s D (d, ij) = Some p}" using card_image_le [OF f2] by simp
  finally show ?thesis using mapped_ref [OF inv(2) m] by simp
qed

lemma envid2env_pm [simp]: "envid2env i chk (s\<lparr>pm := q\<rparr>) = envid2env i chk s"
  by (simp add: envid2env_def the_curenv_def Let_def)

lemma dup_loop_append: "dup_loop child (xs @ ys) s = do { s \<leftarrow> dup_loop child xs s; dup_loop child ys s }"
proof (induction xs arbitrary: s)
  case (Cons x xs)
  then show ?case by (cases "vpt_at s (of_nat x * BY2PG)"; cases "duppage child (of_nat x) s") (simp_all add: Let_def)
qed simp

lemma dup_loop_unmapped:
  assumes kv: "kinv s dp L X c" and i: "i < user_pages" and m: "maps (pm s) (dp ` live s) (key (dp c) (page_va i)) = None"
  shows "dup_loop child [i] s = Some s"
proof -
  have u: "user_va (page_va i)" using page_va_user [OF i] by simp
  show ?thesis
  proof (cases "ptab (pm s) (dp ` live s) (dp c, PDX (page_va i))")
    case None
    then show ?thesis using vpd_at_ptab [OF kv u] by (simp add: Let_def flip: page_va_def)
  next
    case (Some t)
    then show ?thesis using vpt_at_maps [OF kv u] vpt_at_ptes [OF kv Some] m by (simp add: Let_def flip: page_va_def)
  qed
qed

lemma dup_loop_mapped:
  assumes kv: "kinv s dp L X c" and i: "i < user_pages" and m: "maps (pm s) (dp ` live s) (key (dp c) (page_va i)) \<noteq> None"
  shows "dup_loop child [i] s = duppage child (of_nat i) s"
proof -
  have u: "user_va (page_va i)" using page_va_user [OF i] by simp
  show ?thesis using vpt_at_maps [OF kv u] m by (cases "duppage child (of_nat i) s") (auto simp: Let_def page_va_def)
qed

definition dup_ok :: "kstate \<Rightarrow> (nat \<Rightarrow> nat) \<Rightarrow> nat set \<Rightarrow> (nat \<Rightarrow> nat) \<Rightarrow> nat \<Rightarrow> nat \<Rightarrow> nat \<Rightarrow> pmap \<Rightarrow> bool" where
  "dup_ok s dp L X c e n q \<longleftrightarrow> kinv (s\<lparr>pm := q\<rparr>) dp L X c \<and> npage q = npage (pm s) \<and>
     ptes q (dp ` live s) = dupped (ptes (pm s) (dp ` live s)) (maps (pm s) (dp ` live s)) (dp c) (dp e) (page_ij ` {..<n}) \<and>
     (\<forall>x y. maps (pm s) (dp ` live s) x = Some y \<longrightarrow> same_frame (mem (pm s)) (mem q) y)"

lemma dup_loop_step:
  assumes kv: "kinv s dp L X c" and e: "envid2env child True s = Some (Inr (Some e))" "e \<in> live s" "e \<noteq> c" and room: "refs_room s dp X c"
    and empty: "\<And>ij. maps (pm s) (dp ` live s) (dp e, ij) = None" and n: "n < user_pages" and q: "dup_ok s dp L X c e n q"
    and low: "maps (pm s) (dp ` live s) (key (dp c) (page_va n)) \<noteq> None \<Longrightarrow> \<not> is_illegal_va (page_va n)"
  shows "no_free (s\<lparr>pm := q\<rparr>) L \<and> dup_loop child [n] (s\<lparr>pm := q\<rparr>) = None \<or>
     (\<exists>q'. dup_loop child [n] (s\<lparr>pm := q\<rparr>) = Some (s\<lparr>pm := q'\<rparr>) \<and> dup_ok s dp L X c e (Suc n) q')"
proof -
  let ?D = "dp ` live s" and ?s = "s\<lparr>pm := q\<rparr>" and ?K = "page_ij ` {..<n}"
  let ?m = "maps (pm s) ?D" and ?d = "dp c" and ?d' = "dp e"
  have c: "c \<in> live s" using kv by (simp add: kinv_def)
  note k = kinv_env [OF kv c]
  have lv: "live ?s = live s" by (simp add: live_def)
  have ne: "?d \<noteq> ?d'" using k(4) e(2,3) c by (auto simp: inj_on_def)
  have Q: "kinv ?s dp L X c" "npage q = npage (pm s)" "ptes q ?D = dupped (ptes (pm s) ?D) ?m ?d ?d' ?K"
    "\<And>x y. ?m x = Some y \<Longrightarrow> same_frame (mem (pm s)) (mem q) y" using q by (simp_all add: dup_ok_def)
  note mq = maps_dupped [OF vm_inv_cases(1) [OF k(1)] Q(2,3)]
  have nK: "page_ij n \<notin> ?K"
  proof
    assume "page_ij n \<in> ?K"
    then obtain i where "i < n" "page_ij n = page_ij i" by (elim imageE) simp
    then show False using page_ij_inj [OF n, of i] n by simp
  qed
  have ins: "page_ij ` {..<Suc n} = insert (page_ij n) ?K" by (simp add: lessThan_Suc)
  have key: "key x (page_va n) = (x, page_ij n)" for x by (simp add: key_def page_ij_def)
  have md: "maps (pm ?s) (dp ` live ?s) (?d, page_ij n) = ?m (?d, page_ij n)" using mq ne lv by simp
  show ?thesis
  proof (cases "?m (?d, page_ij n)")
    case None
    have "dup_loop child [n] ?s = Some ?s" by (rule dup_loop_unmapped [OF Q(1) n]) (use md None in \<open>simp add: key\<close>)
    moreover have "dup_ok s dp L X c e (Suc n) q" using Q dupped_None [of ?m ?d "page_ij n"] None by (simp add: dup_ok_def ins)
    ultimately show ?thesis by blast
  next
    case (Some p)
    have mp: "maps (pm ?s) (dp ` live ?s) (key ?d (page_va n)) = Some p" using md Some by (simp add: key)
    have "vm_inv (pm ?s) ?D L X" using Q(1) lv by (simp add: kinv_def space_inv_def)
    then have r: "unat (pp_ref (pm ?s) p) < 65534"
      using dupped_refs [OF k(1), of q ?d ?d' ?K _ p] Q(2,3) mp lv room [unfolded refs_room_def, rule_format, of p] by fastforce
    have ch: "maps (pm ?s) (dp ` live ?s) (key ?d' (page_va n)) = None" using mq nK empty lv by (simp add: key)
    have e1: "envid2env child True ?s = Some (Inr (Some e))" using e(1) by simp
    have e2: "e \<in> live ?s" using e(2) lv by simp
    have legal: "\<not> is_illegal_va (page_va n)" by (rule low) (simp add: key Some)
    show ?thesis
    proof (cases rule: duppage_run [OF Q(1) page_va_def [of n] legal e1 e2 e(3) mp r ch])
      case 1
      then show ?thesis using dup_loop_mapped [OF Q(1) n] mp by simp
    next
      case (2 q')
      have "ptes q' ?D = dupped (dupped (ptes (pm s) ?D) ?m ?d ?d' ?K) (maps q ?D) ?d ?d' {page_ij n}"
        using 2(4) Q(3) lv by (simp add: page_ij_def)
      also have "\<dots> = dupped (ptes (pm s) ?D) ?m ?d ?d' (insert (page_ij n) ?K)" using nK ne mq by (rule dupped_step)
      finally have pt: "ptes q' ?D = dupped (ptes (pm s) ?D) ?m ?d ?d' (page_ij ` {..<Suc n})" unfolding ins .
      have "same_frame (mem (pm s)) (mem q') y" if "?m x = Some y" for x y
      proof -
        have "maps q ?D x = Some y" if "fst x \<noteq> ?d'" using that \<open>?m x = Some y\<close> mq by simp
        moreover have "fst x \<noteq> ?d'" using empty [of "snd x"] that by (cases x) auto
        ultimately show ?thesis using same_frame_trans [OF Q(4) [OF that]] 2(5) [of x y] lv by simp
      qed
      then have "dup_ok s dp L X c e (Suc n) q'" using 2(2,3) Q(2) pt by (simp add: dup_ok_def)
      moreover have "dup_loop child [n] ?s = Some (s\<lparr>pm := q'\<rparr>)" using dup_loop_mapped [OF Q(1) n] mp 2(1) by simp
      ultimately show ?thesis by blast
    qed
  qed
qed

lemma dup_loop_run:
  assumes kv: "kinv s dp L X c" and e: "envid2env child True s = Some (Inr (Some e))" "e \<in> live s" "e \<noteq> c" and room: "refs_room s dp X c"
    and empty: "\<And>ij. maps (pm s) (dp ` live s) (dp e, ij) = None"
    and low: "\<And>i. i < user_pages \<Longrightarrow> maps (pm s) (dp ` live s) (key (dp c) (page_va i)) \<noteq> None \<Longrightarrow> \<not> is_illegal_va (page_va i)"
    and n: "n \<le> user_pages"
  shows "(\<exists>k q. k < n \<and> dup_loop child [0..<k] s = Some (s\<lparr>pm := q\<rparr>) \<and> no_free (s\<lparr>pm := q\<rparr>) L) \<and> dup_loop child [0..<n] s = None \<or>
     (\<exists>q. dup_loop child [0..<n] s = Some (s\<lparr>pm := q\<rparr>) \<and> dup_ok s dp L X c e n q)"
  using n
proof (induction n)
  case 0
  have "dup_ok s dp L X c e 0 (pm s)" using kv by (simp add: dup_ok_def dupped_empty)
  then show ?case by (intro disjI2 exI [of _ "pm s"]) simp
next
  case (Suc n)
  then have n: "n < user_pages" by simp
  have ap: "dup_loop child [0..<Suc n] s = do { s \<leftarrow> dup_loop child [0..<n] s; dup_loop child [n] s }"
    using dup_loop_append [of child "[0..<n]" "[n]" s] by simp
  from Suc consider (a) k q where "k < n" "dup_loop child [0..<k] s = Some (s\<lparr>pm := q\<rparr>)" "no_free (s\<lparr>pm := q\<rparr>) L" "dup_loop child [0..<n] s = None"
    | (b) q where "dup_loop child [0..<n] s = Some (s\<lparr>pm := q\<rparr>)" "dup_ok s dp L X c e n q" by auto
  then show ?case
  proof cases
    case a
    then show ?thesis unfolding ap by (metis bind.bind_lzero less_Suc_eq)
  next
    case (b q)
    have "no_free (s\<lparr>pm := q\<rparr>) L \<and> dup_loop child [n] (s\<lparr>pm := q\<rparr>) = None \<or>
       (\<exists>q'. dup_loop child [n] (s\<lparr>pm := q\<rparr>) = Some (s\<lparr>pm := q'\<rparr>) \<and> dup_ok s dp L X c e (Suc n) q')"
      by (rule dup_loop_step [OF kv e room empty n b(2)]) (rule low [OF n])
    then show ?thesis unfolding ap b(1) using b(1) by auto
  qed
qed

section \<open>What fork does\<close>

text \<open>A copy-on-write entry is not writable.\<close>

lemma dup_pte_cow: "cow_page e \<Longrightarrow> \<not> has (dup_pte p e) PTE_W \<and> has (dup_pte p e) PTE_COW"
proof -
  assume e: "cow_page e"
  have "\<not> has (((e AND 0x3FF) XOR PTE_W) OR PTE_COW OR PTE_U) PTE_W"
    using e by (simp add: cow_page_def has_bits bit_or_iff bit_xor_iff bit_and_iff) (simp add: pte_defs)
  moreover have "has (((e AND 0x3FF) XOR PTE_W) OR PTE_COW OR PTE_U) PTE_COW"
    by (simp add: has_def pte_defs bit.conj_disj_distrib2)
  ultimately show ?thesis using e by (simp add: dup_pte_def has_new_pte dup_perm_def or.assoc)
qed

text \<open>The last two system calls of \<^verbatim>\<open>fork\<close>.\<close>

definition started :: "kstate \<Rightarrow> nat \<Rightarrow> u32 \<Rightarrow> nat tailq \<Rightarrow> kstate" where
  "started s e cow q = upd_env e (\<lambda>en. en\<lparr>env_user_tlb_mod_entry := cow, env_status := ENV_RUNNABLE\<rparr>) (s\<lparr>env_sched_list := q\<rparr>)"

lemma envid2env_upd:
  assumes "env_id (f (envs s x)) = env_id (envs s x)" "env_parent_id (f (envs s x)) = env_parent_id (envs s x)"
    "env_status (f (envs s x)) = ENV_FREE \<longleftrightarrow> env_status (envs s x) = ENV_FREE"
  shows "envid2env i chk (upd_env x f s) = envid2env i chk s"
  using assms by (auto simp: envid2env_def the_curenv_def upd_env_def Let_def map_option_case split: option.splits)

lemma fork_finish:
  assumes e: "envid2env child True s = Some (Inr (Some e))" "env_status (envs s e) = ENV_NOT_RUNNABLE" "e < NENV" and tb: "table_inv s fl sl"
  obtains q where "try_call (sys_set_tlb_mod_entry child cow s) (\<lambda>s. try_call (sys_set_env_status child ENV_RUNNABLE s) (\<lambda>s. ret child s))
      = ret child (started s e cow q)" "table_inv (started s e cow q) fl (sl @ [e])"
proof -
  let ?s1 = "upd_env e (\<lambda>en. en\<lparr>env_user_tlb_mod_entry := cow\<rparr>) s"
  have t: "list_rep (env_free_list s) fl" "set fl = {x. x < NENV \<and> env_status (envs s x) = ENV_FREE}"
    "tailq_rep (env_sched_list s) sl" "set sl = {x. x < NENV \<and> env_status (envs s x) = ENV_RUNNABLE}" using tb by (simp_all add: table_inv_def)
  have ns: "e \<notin> set sl" using t(4) e(2) by (simp add: status_defs)
  obtain q where q: "TAILQ_INSERT_TAIL (env_sched_list s) e = Some q" "tailq_rep q (sl @ [e])"
    using tailq_rep_insert_tail [OF t(3) ns] by blast
  have e1: "envid2env child True ?s1 = Some (Inr (Some e))" using envid2env_upd [of "\<lambda>en. en\<lparr>env_user_tlb_mod_entry := cow\<rparr>" s e] e(1) by simp
  have "sys_set_tlb_mod_entry child cow s = ret 0 ?s1" using e(1) by (simp add: sys_set_tlb_mod_entry_def try_env_def)
  moreover have "sys_set_env_status child ENV_RUNNABLE ?s1 = ret 0 (started s e cow q)"
    using e1 e(2) q(1) by (simp add: sys_set_env_status_def try_env_def started_def upd_env_def status_defs)
  moreover have "table_inv (started s e cow q) fl (sl @ [e])"
  proof -
    have st: "env_status (envs (started s e cow q) x) = (if x = e then ENV_RUNNABLE else env_status (envs s x))" for x by (simp add: started_def)
    have "set fl = {x. x < NENV \<and> env_status (envs (started s e cow q) x) = ENV_FREE}" unfolding st t(2) using e(2) by (auto simp: status_defs)
    moreover have "set (sl @ [e]) = {x. x < NENV \<and> env_status (envs (started s e cow q) x) = ENV_RUNNABLE}"
      unfolding st set_append t(4) using e(3) by auto
    ultimately show ?thesis using t(1) q(2) unfolding table_inv_def by (simp add: started_def)
  qed
  ultimately show thesis using that [of q] by (simp add: try_call_def ret_def)
qed

definition with_entry :: "kstate \<Rightarrow> nat \<Rightarrow> u32 \<Rightarrow> kstate" where
  "with_entry s c cow = upd_env c (\<lambda>en. en\<lparr>env_user_tlb_mod_entry := cow\<rparr>) s"

lemma fork_entry:
  assumes "curenv s = Some c"
  shows "fork cow s = fork_create cow (with_entry s c cow)"
proof (cases "env_user_tlb_mod_entry (envs s c) = cow")
  case True
  then have "with_entry s c cow = s" by (auto simp: with_entry_def upd_env_def)
  then show ?thesis using True assms by (simp add: fork_def the_curenv_def)
next
  case False
  have "sys_set_tlb_mod_entry 0 cow s = ret 0 (with_entry s c cow)"
    using assms by (simp add: sys_set_tlb_mod_entry_def try_env_def envid2env_def with_entry_def)
  then show ?thesis using False assms by (simp add: fork_def the_curenv_def try_call_def ret_def)
qed

lemma with_entry_keeps:
  "live (with_entry s c cow) = live s" "pm (with_entry s c cow) = pm s" "kstack_tf (with_entry s c cow) = kstack_tf s"
  "curenv (with_entry s c cow) = curenv s" "mkenvid_i (with_entry s c cow) = mkenvid_i s" "used_asids (with_entry s c cow) = used_asids s"
  "kinv s dp L X c \<Longrightarrow> kinv (with_entry s c cow) dp L X c" "table_inv s fl sl \<Longrightarrow> table_inv (with_entry s c cow) fl sl"
  "boot_dirs s kp b \<Longrightarrow> boot_dirs (with_entry s c cow) kp b" "refs_room s dp X c \<Longrightarrow> refs_room (with_entry s c cow) dp X c"
proof -
  have st: "env_status (envs (with_entry s c cow) x) = env_status (envs s x)" "env_pgdir (envs (with_entry s c cow) x) = env_pgdir (envs s x)" for x
    by (simp_all add: with_entry_def)
  show lv: "live (with_entry s c cow) = live s" by (simp add: live_def st)
  show "pm (with_entry s c cow) = pm s" "kstack_tf (with_entry s c cow) = kstack_tf s" "curenv (with_entry s c cow) = curenv s"
    "mkenvid_i (with_entry s c cow) = mkenvid_i s" "used_asids (with_entry s c cow) = used_asids s"
    by (simp_all add: with_entry_def used_asids_def)
  show "kinv s dp L X c \<Longrightarrow> kinv (with_entry s c cow) dp L X c"
    unfolding kinv_def space_inv_def lv st by (simp add: with_entry_def)
  show "table_inv s fl sl \<Longrightarrow> table_inv (with_entry s c cow) fl sl"
    unfolding table_inv_def st by (simp add: with_entry_def)
  show "boot_dirs s kp b \<Longrightarrow> boot_dirs (with_entry s c cow) kp b" by (simp add: boot_dirs_def with_entry_def)
  show "refs_room s dp X c \<Longrightarrow> refs_room (with_entry s c cow) dp X c" unfolding refs_room_def lv by (simp add: with_entry_def)
qed

text \<open>The new environment is found under its id, and the parent may manage it.\<close>

lemma child_found:
  assumes "controls s c e" "e < NENV" "env_status (envs s e) = ENV_NOT_RUNNABLE" "curenv s = Some c" "env_id (envs s e) = fst (mkenvid e s0)" "fst (mkenvid e s0) \<noteq> 0"
  shows "envid2env (env_id (envs s e)) True s = Some (Inr (Some e))"
  using assms ENVX_mkenvid [OF assms(2), of s0] by (auto simp: envid2env_def Let_def the_curenv_def controls_def status_defs)

lemma fork_parent_run:
  assumes kv: "kinv s dp L X c" and tb: "table_inv s fl sl" and e: "envid2env child True s = Some (Inr (Some e))" "e \<in> live s" "e \<noteq> c"
    "env_status (envs s e) = ENV_NOT_RUNNABLE" and room: "refs_room s dp X c" and empty: "\<And>ij. maps (pm s) (dp ` live s) (dp e, ij) = None"
    and low: "\<And>i. i < user_pages \<Longrightarrow> maps (pm s) (dp ` live s) (key (dp c) (page_va i)) \<noteq> None \<Longrightarrow> \<not> is_illegal_va (page_va i)"
  obtains (no_mem) k q where "fork_parent cow child s = None" "dup_loop child [0..<k] s = Some (s\<lparr>pm := q\<rparr>)" "no_free (s\<lparr>pm := q\<rparr>) L"
  | (ok) q r where "fork_parent cow child s = ret child (started (s\<lparr>pm := q\<rparr>) e cow r)" "dup_ok s dp L X c e user_pages q"
      "table_inv (started (s\<lparr>pm := q\<rparr>) e cow r) fl (sl @ [e])"
proof -
  from dup_loop_run [OF kv e(1-3) room empty low, of user_pages]
  consider k q where "dup_loop child [0..<k] s = Some (s\<lparr>pm := q\<rparr>)" "no_free (s\<lparr>pm := q\<rparr>) L" "dup_loop child [0..<user_pages] s = None"
    | q where "dup_loop child [0..<user_pages] s = Some (s\<lparr>pm := q\<rparr>)" "dup_ok s dp L X c e user_pages q" by auto
  then show thesis
  proof cases
    case (1 k q)
    then show thesis by (intro no_mem) (simp_all add: fork_parent_def)
  next
    case (2 q)
    have e1: "envid2env child True (s\<lparr>pm := q\<rparr>) = Some (Inr (Some e))" using e(1) by simp
    have en: "e < NENV" using e(2) by (simp add: live_def)
    have tb': "table_inv (s\<lparr>pm := q\<rparr>) fl sl" using tb by (simp add: table_inv_def)
    have st: "env_status (envs (s\<lparr>pm := q\<rparr>) e) = ENV_NOT_RUNNABLE" using e(4) by simp
    show thesis
    proof (rule fork_finish [OF e1 st en tb', of cow])
      fix r
      assume "try_call (sys_set_tlb_mod_entry child cow (s\<lparr>pm := q\<rparr>)) (\<lambda>s. try_call (sys_set_env_status child ENV_RUNNABLE s) (\<lambda>s. ret child s))
          = ret child (started (s\<lparr>pm := q\<rparr>) e cow r)" "table_inv (started (s\<lparr>pm := q\<rparr>) e cow r) fl (sl @ [e])"
      then show thesis using 2 by (intro ok) (simp_all add: fork_parent_def)
    qed
  qed
qed

text \<open>What the forking of a page at \<open>va\<close> means for the entries \<open>e0\<close> before and \<open>e1\<close> after it.\<close>

definition page_forked :: "(nat \<times> u32 \<times> u32 \<Rightarrow> u32) \<Rightarrow> (nat \<times> u32 \<times> u32 \<Rightarrow> nat option) \<Rightarrow> (nat \<times> u32 \<times> u32 \<Rightarrow> u32) \<Rightarrow> nat \<Rightarrow> nat \<Rightarrow> u32 \<Rightarrow> bool" where
  "page_forked e0 m0 e1 d d' va \<longleftrightarrow> (case m0 (key d va) of
      None \<Rightarrow> e1 (key d' va) = 0 \<and> e1 (key d va) = e0 (key d va)
    | Some p \<Rightarrow> e1 (key d' va) = dup_pte p (e0 (key d va)) \<and>
        e1 (key d va) = (if cow_page (e0 (key d va)) then dup_pte p (e0 (key d va)) else e0 (key d va)) \<and>
        (cow_page (e0 (key d va)) \<longrightarrow> \<not> has (e1 (key d' va)) PTE_W \<and> \<not> has (e1 (key d va)) PTE_W))"

lemma dupped_forked:
  assumes "\<And>ij. u (d', ij) = 0" "d \<noteq> d'" "i < user_pages"
  shows "page_forked u m0 (dupped u m0 d d' (page_ij ` {..<user_pages})) d d' (page_va i)"
proof -
  have k: "key x (page_va i) = (x, page_ij i)" for x by (simp add: key_def page_ij_def)
  have "page_ij i \<in> page_ij ` {..<user_pages}" using assms(3) by blast
  then show ?thesis using assms(1,2) dup_pte_cow [of "u (d, page_ij i)"] unfolding page_forked_def k
    by (auto simp: dupped_def split: option.splits)
qed

text \<open>The state after \<^verbatim>\<open>syscall_exofork\<close>, in which the loop starts.\<close>

lemma fork_ready:
  assumes kv: "kinv s dp L X c" and tb: "table_inv s (e # fl) sl" and bd: "boot_dirs s kp b"
    and fr: "p < unat (npage (pm s))" "pp_ref (pm s) p = 0" "p \<notin> L" and asid: "used_asids s \<noteq> {..<NASID}"
    and ids: "take_bit 21 (mkenvid_i s + 1) \<noteq> 0" and room: "refs_room s dp X c"
  obtains s1 d where "sys_exofork s = ret (env_id (envs s1 e)) s1" "env_id (envs s1 e) \<noteq> 0" "kinv s1 (dp(e := d)) L X c" "table_inv s1 fl sl"
    "envid2env (env_id (envs s1 e)) True s1 = Some (Inr (Some e))" "live s1 = insert e (live s)" "e \<notin> live s" "e \<noteq> c"
    "env_status (envs s1 e) = ENV_NOT_RUNNABLE" "env_tf (envs s1 e) = set_reg 10 0 (kstack_tf s)" "\<And>x. x \<noteq> e \<Longrightarrow> envs s1 x = envs s x"
    "(dp(e := d)) ` live s1 = insert d (dp ` live s)" "maps (pm s1) (insert d (dp ` live s)) = maps (pm s) (dp ` live s)"
    "ptes (pm s1) (insert d (dp ` live s)) = ptes (pm s) (dp ` live s)" "\<And>ij. ptes (pm s) (dp ` live s) (d, ij) = 0"
    "d \<notin> dp ` live s" "refs_room s1 (dp(e := d)) X c" "\<And>k q. maps (pm s) (dp ` live s) k = Some q \<Longrightarrow> same_frame (mem (pm s)) (mem (pm s1)) q"
proof (rule exofork_run [OF kv tb bd fr asid])
  let ?D = "dp ` live s"
  have c: "curenv s = Some c" "c \<in> live s" "cur_pgdir s = env_pgdir (envs s c)" using kv by (simp_all add: kinv_def)
  note ok = vm_inv_cases [OF kinv_env(1) [OF kv c(2)]]
  fix s1 d
  assume x: "sys_exofork s = ret (env_id (envs s1 e)) s1" "env_id (envs s1 e) = fst (mkenvid e s)" "envs s1 = (envs s)(e := envs s1 e)"
    "env_tf (envs s1 e) = set_reg 10 0 (kstack_tf s)" "env_status (envs s1 e) = ENV_NOT_RUNNABLE" "controls s1 c e" "curenv s1 = Some c"
    "cur_pgdir s1 = cur_pgdir s" "space_inv s1 (dp(e := d)) L X" "live s1 = insert e (live s)" "(dp(e := d)) ` live s1 = insert d ?D" "e \<notin> live s" "e < NENV"
    "table_inv s1 fl sl" "maps (pm s1) (insert d ?D) = maps (pm s) ?D" "ptes (pm s1) (insert d ?D) = ptes (pm s) ?D"
    "d \<notin> ?D" "\<And>q i. q < page_bound \<Longrightarrow> q \<noteq> d \<Longrightarrow> i < 1024 \<Longrightarrow> ent (mem (pm s1)) q i = ent (mem (pm s)) q i" "pp_ref (pm s) d = 0"
  have ec: "e \<noteq> c" using c(2) x(12) by blast
  have n0: "env_id (envs s1 e) \<noteq> 0" using mkenvid_nonzero [OF ids] x(2) by simp
  have ev: "envs s1 y = envs s y" if "y \<noteq> e" for y using that x(3) by (metis fun_upd_other)
  have kv1: "kinv s1 (dp(e := d)) L X c" using x(7,8,9,10) c ec by (auto simp: kinv_def ev)
  have found: "envid2env (env_id (envs s1 e)) True s1 = Some (Inr (Some e))" using child_found [OF x(6,13,5,7,2)] n0 x(2) by simp
  have z: "ptes (pm s) ?D (d, ij) = 0" for ij using x(17) by (cases ij) (simp add: ptes_def ptab_def)
  have rm: "refs_room s1 (dp(e := d)) X c" using room ec unfolding refs_room_def x(11,15) by simp
  have sm: "same_frame (mem (pm s)) (mem (pm s1)) q" if m: "maps (pm s) ?D k = Some q" for k q
  proof (rule same_frame_words)
    have "pp_ref (pm s) q \<noteq> 0" using referenced [OF ok(1,2) tables_okD(11) [OF ok(1) m]] m by blast
    then have "q \<noteq> d" using x(19) by auto
    moreover have "q < page_bound" using tables_okD(1,11) [OF ok(1)] m by fastforce
    ultimately show "ent (mem (pm s1)) q i = ent (mem (pm s)) q i" if "i < 1024" for i using x(18) that by blast
  qed
  show thesis by (rule that [OF x(1) n0 kv1 x(14) found x(10,12) ec x(5,4) ev x(11,15,16) z x(17) rm sm])
qed

text \<open>Property C29.  \<^verbatim>\<open>fork\<close>, from the user's library through the system calls to the page tables, with a free slot, frame and ASID:
  unless a page table of the child cannot be allocated, the parent gets the id of a new runnable environment \<open>e\<close> at the end of the
  run queue, which resumes with the parent's registers and result 0 and has the same write fault handler.  Below \<^verbatim>\<open>USTACKTOP\<close> the child
  maps the frames that the parent maps and no others; a page that was writable and not shared is write protected and copy-on-write
  on both sides, any other has its permissions.  No mapped frame changes its contents, no other environment is touched, and
  the invariant with its exact reference counts holds again.\<close>

theorem fork_correct:
  assumes kv: "kinv s dp L X c" and tb: "table_inv s (e # fl) sl" and bd: "boot_dirs s kp b"
    and fr: "p < unat (npage (pm s))" "pp_ref (pm s) p = 0" "p \<notin> L" and asid: "used_asids s \<noteq> {..<NASID}"
    and ids: "take_bit 21 (mkenvid_i s + 1) \<noteq> 0" and room: "refs_room s dp X c"
    and low: "\<And>i. i < user_pages \<Longrightarrow> maps (pm s) (dp ` live s) (key (dp c) (page_va i)) \<noteq> None \<Longrightarrow> UTEMP \<le> page_va i"
  shows "fork cow s = None \<and> (\<exists>child s1 k s2. sys_exofork (with_entry s c cow) = ret child s1 \<and> dup_loop child [0..<k] s1 = Some s2 \<and> no_free s2 L)
   \<or> (\<exists>s' d. fork cow s = ret (env_id (envs s' e)) s' \<and> live s' = insert e (live s) \<and> e \<notin> live s \<and> table_inv s' fl (sl @ [e]) \<and>
       env_tf (envs s' e) = set_reg 10 0 (kstack_tf s) \<and> env_user_tlb_mod_entry (envs s' e) = cow \<and>
       env_user_tlb_mod_entry (envs s' c) = cow \<and> space_inv s' (dp(e := d)) L X \<and>
       (\<forall>i < user_pages. page_forked (ptes (pm s) (dp ` live s)) (maps (pm s) (dp ` live s)) (ptes (pm s') (insert d (dp ` live s))) (dp c) d (page_va i)) \<and>
       (\<forall>x ij. x \<in> live s \<and> x \<noteq> c \<longrightarrow> ptes (pm s') (insert d (dp ` live s)) (dp x, ij) = ptes (pm s) (dp ` live s) (dp x, ij)) \<and>
       (\<forall>k q. maps (pm s) (dp ` live s) k = Some q \<longrightarrow> same_frame (mem (pm s)) (mem (pm s')) q))"
proof -
  let ?s = "with_entry s c cow" and ?D = "dp ` live s"
  note K = with_entry_keeps [where s = s and c = c and cow = cow]
  have c: "curenv s = Some c" "c \<in> live s" using kv by (simp_all add: kinv_def)
  obtain s1 d where x: "sys_exofork ?s = ret (env_id (envs s1 e)) s1" "env_id (envs s1 e) \<noteq> 0" "kinv s1 (dp(e := d)) L X c" "table_inv s1 fl sl"
    "envid2env (env_id (envs s1 e)) True s1 = Some (Inr (Some e))" "live s1 = insert e (live s)" "e \<notin> live s" "e \<noteq> c"
    "env_status (envs s1 e) = ENV_NOT_RUNNABLE" "env_tf (envs s1 e) = set_reg 10 0 (kstack_tf s)" "\<And>x. x \<noteq> e \<Longrightarrow> envs s1 x = envs ?s x"
    "(dp(e := d)) ` live s1 = insert d ?D" "maps (pm s1) (insert d ?D) = maps (pm s) ?D" "ptes (pm s1) (insert d ?D) = ptes (pm s) ?D"
    "\<And>ij. ptes (pm s) ?D (d, ij) = 0" "d \<notin> ?D" "refs_room s1 (dp(e := d)) X c" "\<And>k q. maps (pm s) ?D k = Some q \<Longrightarrow> same_frame (mem (pm s)) (mem (pm s1)) q"
    by (rule fork_ready [OF K(7) [OF kv] K(8) [OF tb] K(9) [OF bd], of p, unfolded K(1-6)]) (use fr asid ids K(10) [OF room] K(2) in blast)+
  have fk: "fork cow s = fork_parent cow (env_id (envs s1 e)) s1"
    using fork_entry [OF c(1)] x(1,2) by (simp add: fork_create_def ret_def)
  have dc: "(dp(e := d)) c = dp c" using x(8) by simp
  have em: "maps (pm s1) ((dp(e := d)) ` live s1) ((dp(e := d)) e, ij) = None" for ij unfolding x(12,13) using x(15) by (simp add: maps_def)
  have lo: "\<not> is_illegal_va (page_va i)" if "i < user_pages" "maps (pm s1) ((dp(e := d)) ` live s1) (key ((dp(e := d)) c) (page_va i)) \<noteq> None" for i
    using low [OF that(1)] that page_va_user [OF that(1)] unfolding x(12,13) dc by (auto simp: is_illegal_va_def not_le)
  have el: "e \<in> live s1" using x(6) by simp
  show ?thesis
  proof (cases rule: fork_parent_run [OF x(3,4,5) el x(8,9,17), where cow = cow])
    case 1
    show ?case by (rule em)
  next
    case 2
    then show ?case by (rule lo)
  next
    case (3 k q)
    show ?thesis by (intro disjI1 conjI exI) (use 3 x(1) fk in simp_all)
  next
    case (4 q r)
    let ?s' = "started (s1\<lparr>pm := q\<rparr>) e cow r"
    note dk = 4(2) [unfolded dup_ok_def x(12,13,14) dc fun_upd_same]
    have ne: "dp c \<noteq> d" using x(16) c(2) by blast
    have "\<forall>i < user_pages. page_forked (ptes (pm s) ?D) (maps (pm s) ?D) (ptes q (insert d ?D)) (dp c) d (page_va i)"
      using dk dupped_forked [where u = "ptes (pm s) ?D" and d' = d, OF x(15) ne] by simp
    moreover have "\<forall>x ij. x \<in> live s \<and> x \<noteq> c \<longrightarrow> ptes q (insert d ?D) (dp x, ij) = ptes (pm s) ?D (dp x, ij)"
    proof (intro allI impI)
      fix x ij assume a: "x \<in> live s \<and> x \<noteq> c"
      then have "dp x \<noteq> dp c" "dp x \<noteq> d" using kinv_env(4) [OF kv c(2)] c(2) x(16) by (auto simp: inj_on_def)
      then show "ptes q (insert d ?D) (dp x, ij) = ptes (pm s) ?D (dp x, ij)" using dk by (simp add: dupped_def split: option.splits)
    qed
    moreover have "\<forall>k q'. maps (pm s) ?D k = Some q' \<longrightarrow> same_frame (mem (pm s)) (mem q) q'"
      using dk x(18) same_frame_trans by blast
    moreover have lv: "live ?s' = live s1" using el by (auto simp: live_def started_def status_defs)
    moreover have "space_inv ?s' (dp(e := d)) L X"
      using dk lv by (auto simp: kinv_def space_inv_def live_def) (auto simp: started_def)
    ultimately show ?thesis
      by (intro disjI2 exI [of _ ?s'] exI [of _ d]) (use 4(1,3) x(6,7,8,10,11) fk in \<open>simp add: started_def with_entry_def\<close>)
  qed
qed

text \<open>A parent with no pages: the loop does nothing, so that \<^verbatim>\<open>fork\<close> cannot run out of memory.\<close>

lemma dup_loop_nothing:
  assumes "kinv s dp L X c" "\<And>va. maps (pm s) (dp ` live s) (key (dp c) va) = None" "n \<le> user_pages"
  shows "dup_loop child [0..<n] s = Some s"
  using assms(3)
proof (induction n)
  case (Suc n)
  then show ?case using dup_loop_append [of child "[0..<n]" "[n]" s] dup_loop_unmapped [OF assms(1), of n child] assms(2) by simp
qed simp

lemma kdemo_fork:
  "kinv kdemo (\<lambda>_. 0) {1} kdemo_X 0" "table_inv kdemo (1 # [2..<NENV]) [0]" "boot_dirs kdemo 3 4" "2 < unat (npage (pm kdemo))"
  "pp_ref (pm kdemo) 2 = 0" "2 \<notin> {1 :: nat}" "used_asids kdemo \<noteq> {..<NASID}" "take_bit 21 (mkenvid_i kdemo + 1) \<noteq> 0"
  "maps (pm kdemo) ((\<lambda>_. 0) ` live kdemo) = (\<lambda>_. None)" "refs_room kdemo (\<lambda>_. 0) kdemo_X 0"
proof -
  show "kinv kdemo (\<lambda>_. 0) {1} kdemo_X 0" by (rule kdemo_kinv)
  show "table_inv kdemo (1 # [2..<NENV]) [0]" using kdemo_table upt_conv_Cons [of 1 NENV] by (simp add: NENV_def numeral_2_eq_2 del: upt_rec_numeral)
  show "boot_dirs kdemo 3 4" by (rule kdemo_boot)
  show "2 < unat (npage (pm kdemo))" "pp_ref (pm kdemo) 2 = 0" "2 \<notin> {1 :: nat}" by (simp_all add: kdemo_def kdemo_pm_def)
  have "(0 :: nat) \<in> {..<NASID}" "0 \<notin> used_asids kdemo" by (simp_all add: kdemo_asids NASID_def)
  then show "used_asids kdemo \<noteq> {..<NASID}" by blast
  show "take_bit 21 (mkenvid_i kdemo + 1) \<noteq> 0" by (simp add: kdemo_def)
  have pm: "pm kdemo = kdemo_pm" by (simp add: kdemo_def)
  have z: "ent (mem kdemo_pm) d i = 0" for d i by (simp add: kdemo_pm_def demo_def ent_def ld32_def)
  then show m: "maps (pm kdemo) ((\<lambda>_. 0) ` live kdemo) = (\<lambda>_. None)"
    unfolding pm by (auto simp: maps_def ptes_def ptab_def table_at_def fun_eq_iff split: option.splits)
  have "kdemo_X p < 65534" for p by (simp add: kdemo_X_def)
  then show "refs_room kdemo (\<lambda>_. 0) kdemo_X 0" unfolding refs_room_def m by simp
qed

lemma kdemo_fork_returns: "fork cow kdemo \<noteq> None"
proof -
  note K = with_entry_keeps [where s = kdemo and c = 0 and cow = cow] and F = kdemo_fork
  have cu: "curenv kdemo = Some 0" using F(1) by (simp add: kinv_def)
  obtain s1 d where x: "sys_exofork (with_entry kdemo 0 cow) = ret (env_id (envs s1 1)) s1" "env_id (envs s1 1) \<noteq> 0" "kinv s1 ((\<lambda>_. 0)(1 := d)) {1} kdemo_X 0"
    "table_inv s1 [2..<NENV] [0]" "envid2env (env_id (envs s1 1)) True s1 = Some (Inr (Some 1))" "live s1 = insert 1 (live kdemo)"
    "env_status (envs s1 1) = ENV_NOT_RUNNABLE" "((\<lambda>_. 0)(1 := d)) ` live s1 = insert d ((\<lambda>_. 0) ` live kdemo)"
    "maps (pm s1) (insert d ((\<lambda>_. 0) ` live kdemo)) = maps (pm kdemo) ((\<lambda>_. 0) ` live kdemo)"
    by (rule fork_ready [OF K(7) [OF F(1)] K(8) [OF F(2)] K(9) [OF F(3)], of 2, unfolded K(1-6)]) (use F K(10) in blast)+
  have "dup_loop (env_id (envs s1 1)) [0..<user_pages] s1 = Some s1"
    by (rule dup_loop_nothing [OF x(3)]) (simp_all only: x(8,9) F(9) order_refl)
  moreover have "1 < NENV" by (simp add: NENV_def)
  from fork_finish [OF x(5,7) this x(4), of cow]
  obtain q where "try_call (sys_set_tlb_mod_entry (env_id (envs s1 1)) cow s1) (\<lambda>s. try_call (sys_set_env_status (env_id (envs s1 1)) ENV_RUNNABLE s)
      (\<lambda>s. ret (env_id (envs s1 1)) s)) = ret (env_id (envs s1 1)) (started s1 1 cow q)" by blast
  ultimately show ?thesis using fork_entry [OF cu] x(1,2) by (simp add: fork_create_def fork_parent_def ret_def)
qed

theorem fork_correct_witness:
  "\<exists>s'. fork 0x400100 kdemo = ret (env_id (envs s' 1)) s' \<and> table_inv s' [2..<NENV] ([0] @ [1]) \<and> env_user_tlb_mod_entry (envs s' 1) = 0x400100"
  using fork_correct [OF kdemo_fork(1-8,10), of "0x400100"] kdemo_fork_returns [of "0x400100"] kdemo_fork(9) by auto
end
