(* ===== verification/Mos_Cow.thy ===== *)
theory Mos_Cow
  imports Mos_Fork
begin

text \<open>
  The user's handler for write faults on copy-on-write pages: \<^verbatim>\<open>cow_entry\<close> of \<^verbatim>\<open>user/lib/fork.c\<close>.  The kernel enters it with the address of
  a trap frame (\<^verbatim>\<open>do_tlb_mod\<close> in theory \<open>Mos_Trap\<close>).  The loads and stores of the handler go through the page table of the current
  environment as the hardware walks it (\<open>uva_pa\<close>); both ends of its copy are whole pages.
\<close>

section \<open>The write fault handler\<close>

text \<open>User loads of a word and of a whole page.\<close>

definition uload :: "kstate \<Rightarrow> u32 \<Rightarrow> u32 option" where
  "uload s va = do { pa \<leftarrow> uva_pa (pm s) (cur_pgdir s) PTE_R va; Some (ld32 (mem (pm s)) pa) }"

definition ucopy_page :: "u32 \<Rightarrow> u32 \<Rightarrow> kstate \<Rightarrow> kstate option" where
  "ucopy_page dst src s = do {
     d \<leftarrow> uva_pa (pm s) (cur_pgdir s) PTE_W dst;
     a \<leftarrow> uva_pa (pm s) (cur_pgdir s) PTE_R src;
     m \<leftarrow> memcpy (mem (pm s)) d a BY2PG;
     Some (s\<lparr>pm := (pm s)\<lparr>mem := m\<rparr>\<rparr>) }"

definition cow_copy :: "u32 \<Rightarrow> kstate \<Rightarrow> kstate option" where
  "cow_copy va s = do {
     pte \<leftarrow> vpt_at s va;
     let perm = pte AND 0x3FF;
     if \<not> has perm PTE_COW then None
     else do {
       let perm = (perm XOR PTE_COW) OR PTE_W;
       s \<leftarrow> panic_on (sys_mem_alloc 0 UCOW perm s);
       s \<leftarrow> ucopy_page UCOW (ROUNDDOWN va BY2PG) s;
       (_, s) \<leftarrow> sys_mem_map 0 UCOW 0 va perm s;
       (_, s) \<leftarrow> sys_mem_unmap 0 UCOW s;
       Some s } }"

text \<open>\<^verbatim>\<open>stval\<close> is word 36 of the trap frame at \<open>tf\<close>.  \<^verbatim>\<open>syscall_set_trapframe\<close> comes back only when it fails.\<close>

definition cow_entry :: "u32 \<Rightarrow> kstate \<Rightarrow> kstate option" where
  "cow_entry tf s = do {
     va \<leftarrow> uload s (tf + 144);
     s \<leftarrow> cow_copy va s;
     (r, s') \<leftarrow> sys_set_trapframe 0 tf s;
     if is_illegal_va_range tf TRAPFRAME_SIZE then None else Some s' }"

section \<open>Handling a write fault\<close>

text \<open>A store into a frame that is mapped as data changes no page table.\<close>

lemma data_frame_write:
  assumes inv: "vm_inv s D L X" and p: "maps s D ky = Some p"
    and m': "\<And>q i. q < page_bound \<Longrightarrow> q \<noteq> p \<Longrightarrow> i < 1024 \<Longrightarrow> ent m' q i = ent (mem s) q i"
  shows "vm_inv (s\<lparr>mem := m'\<rparr>) D L X" "ptes (s\<lparr>mem := m'\<rparr>) D = ptes s D" "maps (s\<lparr>mem := m'\<rparr>) D = maps s D"
proof -
  let ?s = "s\<lparr>mem := m'\<rparr>"
  note i = vm_inv_cases [OF inv]
  have pD: "p \<notin> D" "p \<notin> ran (ptab s D)" using tables_okD(9,10) [OF i(1) p] by (auto simp: ran_def)
  have np: "npage ?s = npage s" by simp
  have dir: "ent (mem ?s) q l = ent (mem s) q l" if "q \<in> D" "l < PDX UTOP" for q l
    using m' [of q l] that tables_okD(3) [OF i(1)] pD(1) user_slot_less by auto
  have tab: "ptab ?s D = ptab s D" by (rule ptab_eqI) (simp_all only: np dir)
  have "ent (mem ?s) t j = ent (mem s) t j" if "ptab s D k = Some t" "j < 1024" for k t j
    using m' [of t j] tables_okD(5) [OF i(1) that(1)] that pD(2) ranI [of "ptab s D" k t] by auto
  then show pte: "ptes ?s D = ptes s D" by (rule ptes_eqI [OF tab])
  show "maps ?s D = maps s D" by (rule maps_npage [OF np pte])
  have "tables_ok ?s D" "refs ?s D = refs s D" using tables_ok_same [OF i(1) np tab pte dir] by simp_all
  then show "vm_inv ?s D L X" using i by (simp add: vm_inv_def refs_ok_def free_ok_def)
qed

text \<open>The frame \<open>p'\<close> has the contents that \<open>p\<close> had.\<close>

definition frame_copied :: "mem \<Rightarrow> nat \<Rightarrow> mem \<Rightarrow> nat \<Rightarrow> bool" where
  "frame_copied m p m' p' \<longleftrightarrow> (\<forall>k < 4096. m' (page2pa p' + of_nat k) = m (page2pa p + of_nat k))"

lemma frame_copied_words:
  assumes "\<And>i. i < 1024 \<Longrightarrow> ent m' p' i = ent m p i"
  shows "frame_copied m p m' p'"
  unfolding frame_copied_def
proof (intro allI impI)
  fix k assume k: "k < (4096 :: nat)"
  define l where "l = (of_nat (k div 4) :: u32)"
  have "unat l = k div 4" using k by (simp add: l_def unat_of_nat)
  then have "ld32 m' (slot p' l) = ld32 m (slot p l)" using assms [of l] k by (simp add: ent_def word_less_nat_alt)
  then have b: "m' (slot p' l + of_nat j) = m (slot p l + of_nat j)" if "j < 4" for j
    using bytes_of_ld32 [of m "slot p l"] bytes_of_ld32 [of m' "slot p' l"] that by (auto simp: less_Suc_eq numeral_eq_Suc)
  have "slot q l + of_nat (k mod 4) = page2pa q + of_nat (4 * (k div 4) + k mod 4)" for q unfolding slot_def l_def of_nat_add of_nat_mult by simp
  then have "slot q l + of_nat (k mod 4) = page2pa q + of_nat k" for q by simp
  then show "m' (page2pa p' + of_nat k) = m (page2pa p + of_nat k)" using b [of "k mod 4"] by simp
qed

lemma ucopy_page_run:
  assumes kv: "kinv s dp L X c" and m: "maps (pm s) (dp ` live s) (key (dp c) dst) = Some p'" "maps (pm s) (dp ` live s) (key (dp c) src) = Some p"
    and f: "has (ptes (pm s) (dp ` live s) (key (dp c) dst)) PTE_W" "has (ptes (pm s) (dp ` live s) (key (dp c) src)) PTE_R"
    and al: "unat dst mod 4096 = 0" "unat src mod 4096 = 0" and ne: "p' \<noteq> p"
  obtains q where "ucopy_page dst src s = Some (s\<lparr>pm := q\<rparr>)" "kinv (s\<lparr>pm := q\<rparr>) dp L X c" "ptes q (dp ` live s) = ptes (pm s) (dp ` live s)"
    "maps q (dp ` live s) = maps (pm s) (dp ` live s)" "frame_copied (mem (pm s)) p (mem q) p'"
    "\<And>x. x < page_bound \<Longrightarrow> x \<noteq> p' \<Longrightarrow> same_frame (mem (pm s)) (mem q) x" "pp_ref q = pp_ref (pm s)" "npage q = npage (pm s)"
proof -
  let ?D = "dp ` live s"
  have c: "c \<in> live s" using kv by (simp add: kinv_def)
  note k = kinv_env [OF kv c]
  note ok = vm_inv_cases(1) [OF k(1)]
  have b: "p < page_bound" "p' < page_bound" using tables_okD(1,11) [OF ok] m by fastforce+
  have pa: "uva_pa (pm s) (cur_pgdir s) PTE_W dst = Some (slot p' 0)" "uva_pa (pm s) (cur_pgdir s) PTE_R src = Some (slot p 0)"
    using uva_pa_mapped [OF ok m(1) f(1)] uva_pa_mapped [OF ok m(2) f(2)] al k(7) by (simp_all add: slot_def)
  from copy_slots [OF b(2,1) ne, of 0 1024 "mem (pm s)"] obtain m' where m': "memcpy (mem (pm s)) (slot p' 0) (slot p 0) (4 * 1024) = Some m'"
    "\<And>e l. e < page_bound \<Longrightarrow> l < 1024 \<Longrightarrow> ent m' e l = (if e = p' then ent (mem (pm s)) p l else ent (mem (pm s)) e l)"
    by (auto simp: word_less_nat_alt)
  let ?q = "(pm s)\<lparr>mem := m'\<rparr>"
  have run: "ucopy_page dst src s = Some (s\<lparr>pm := ?q\<rparr>)" using pa m'(1) by (simp add: ucopy_page_def BY2PG_def)
  note w = data_frame_write [OF k(1) m(1), of m']
  have fc: "frame_copied (mem (pm s)) p m' p'" by (rule frame_copied_words) (use m'(2) b in simp)
  have sf: "same_frame (mem (pm s)) m' x" if "x < page_bound" "x \<noteq> p'" for x by (rule same_frame_words) (use m'(2) that in simp)
  show thesis by (rule that [OF run kinv_pm [OF kv w(1)]]) (use m'(2) w(2,3) fc sf in simp_all)
qed

lemma sys_mem_unmap_self:
  assumes kv: "kinv s dp L X c" and va: "\<not> is_illegal_va va" and m: "maps (pm s) (dp ` live s) (key (dp c) va) = Some p"
  obtains q where "sys_mem_unmap 0 va s = ret 0 (s\<lparr>pm := q\<rparr>)" "kinv (s\<lparr>pm := q\<rparr>) dp L X c" "npage q = npage (pm s)"
    "ptes q (dp ` live s) = (ptes (pm s) (dp ` live s))(key (dp c) va := 0)"
    "\<And>x. data_frame (pm s) (dp ` live s) L x \<Longrightarrow> same_frame (mem (pm s)) (mem q) x"
proof -
  have c: "c \<in> live s" using kv by (simp add: kinv_def)
  note k = kinv_env [OF kv c]
  obtain q where q: "page_remove (page2pa (dp c)) (env_asid (envs s c)) va (pm s) = Some q" "vm_inv q (dp ` live s) L X"
    "ptes q (dp ` live s) = (ptes (pm s) (dp ` live s))(key (dp c) va := 0)" "npage q = npage (pm s)"
    using page_remove_mapped [OF k(1) m] by metis
  have "same_frame (mem (pm s)) (mem q) x" if "data_frame (pm s) (dp ` live s) L x" for x
    by (rule page_remove_data [OF k(1,3) legal_va [OF va] q(1)]) (use that in \<open>simp_all add: data_frame_def\<close>)
  then show thesis
    by (intro that [of q]) (use q kinv_pm [OF kv q(2)] va k(2,5) in \<open>simp_all add: sys_mem_unmap_def try_env_def envid2env_def\<close>)
qed

text \<open>The permissions with which the private copy is mapped.\<close>

definition cow_perm :: "u32 \<Rightarrow> u32" where
  "cow_perm e = ((e AND 0x3FF) XOR PTE_COW) OR PTE_W"

lemma cow_perm_flags: "flag_bits (cow_perm e)"
  by (simp add: cow_perm_def flag_bits_or flag_bits_xor flag_bits_low)

lemma cow_perm_W: "has (new_pte p (cow_perm e OR PTE_U)) PTE_W"
proof -
  have "has (cow_perm e OR PTE_U) PTE_W" by (simp add: cow_perm_def has_bits bit_or_iff) (simp add: pte_defs)
  then show ?thesis by (simp add: has_new_pte)
qed

lemma UCOW_legal: "\<not> is_illegal_va UCOW" "unat UCOW mod 4096 = 0"
  by (simp_all add: is_illegal_va_def layout_defs)

text \<open>No frame is free, or one is and a page table for \<open>va\<close> is missing.\<close>

definition few_frames :: "kstate \<Rightarrow> (nat \<Rightarrow> nat) \<Rightarrow> nat set \<Rightarrow> nat \<Rightarrow> u32 \<Rightarrow> bool" where
  "few_frames s dp L c va \<longleftrightarrow> no_free s L \<or> ptab (pm s) (dp ` live s) (dp c, PDX va) = None \<and> (\<exists>f. no_free s (insert f L))"

lemma sys_mem_alloc_self:
  assumes kv: "kinv s dp L X c" and fl: "flag_bits perm" and va: "\<not> is_illegal_va va"
  obtains (no_mem) q L' where "panic_on (sys_mem_alloc 0 va perm s) = None" "few_frames s dp L c va"
      "sys_mem_alloc 0 va perm s = fail E_NO_MEM (s\<lparr>pm := q\<rparr>)" "kinv (s\<lparr>pm := q\<rparr>) dp L' X c" "ptes q (dp ` live s) = ptes (pm s) (dp ` live s)"
      "npage q = npage (pm s)"
  | (ok) p q where "panic_on (sys_mem_alloc 0 va perm s) = Some (s\<lparr>pm := q\<rparr>)" "kinv (s\<lparr>pm := q\<rparr>) dp L X c"
      "ptes q (dp ` live s) = (ptes (pm s) (dp ` live s))(key (dp c) va := new_pte p (perm OR PTE_U))"
      "maps q (dp ` live s) (key (dp c) va) = Some p" "pp_ref (pm s) p = 0" "p \<notin> L" "pp_ref q p = 1" "npage q = npage (pm s)"
      "\<And>x. data_frame (pm s) (dp ` live s) L x \<Longrightarrow> same_frame (mem (pm s)) (mem q) x"
      "sys_mem_alloc 0 va perm s = ret 0 (s\<lparr>pm := q\<rparr>)" "zero_frame (mem q) p"
proof -
  have c: "c \<in> live s" using kv by (simp add: kinv_def)
  note k = kinv_env [OF kv c]
  have run: "sys_mem_alloc 0 va perm s = do {
        (r, q) \<leftarrow> page_alloc (pm s);
        case r of
          Inl er \<Rightarrow> fail er (s\<lparr>pm := q\<rparr>)
        | Inr pp \<Rightarrow> do {
            (r, q) \<leftarrow> page_insert (page2pa (dp c)) (env_asid (envs s c)) pp va (perm OR PTE_U) q;
            ret_result r (s\<lparr>pm := q\<rparr>) } }"
    unfolding k(2) [symmetric] using va k(5) by (simp add: sys_mem_alloc_def try_env_def envid2env_def)
  note fe = panic_on_def fail_def neg_errno_neq_0 ret_result_def ret_def
  show thesis
  proof (cases rule: alloc_insert_cases [OF k(1,3) legal_va [OF va] perm_or_U [OF fl], where asid = "env_asid (envs s c)"])
    case 1
    show thesis by (rule no_mem [of "pm s" L]) (use 1 kv in \<open>simp_all add: run fe few_frames_def no_free_def\<close>)
  next
    case (2 p s1)
    have "few_frames s dp L c va" unfolding few_frames_def no_free_def using 2(7,8) by blast
    then show thesis by (intro no_mem [of s1 "insert p L"]) (use 2 kinv_pm [OF kv 2(3)] in \<open>simp_all add: run fe\<close>)
  next
    case (3 p s1 q)
    show thesis by (rule ok [of q p]) (use 3 kinv_pm [OF kv 3(3)] in \<open>simp_all add: run fe\<close>)
  qed
qed

lemma maps_upd:
  assumes "npage q = npage s" "ptes q D = (ptes s D)(k := v)"
  shows "maps q D = (maps s D)(k := entry_frame s v)"
  using assms(2) entry_frame_cong [OF assms(1)] by (simp add: maps_def fun_eq_iff)

text \<open>Steps 4 to 6 of \<^verbatim>\<open>cow_entry\<close>, with the fresh frame \<open>p'\<close> in the window.\<close>

lemma cow_steps:
  assumes kv: "kinv s dp L X c" and va: "\<not> is_illegal_va va" "key (dp c) va \<noteq> key (dp c) UCOW" and ne: "p' \<noteq> p"
    and m: "maps (pm s) (dp ` live s) (key (dp c) va) = Some p" "maps (pm s) (dp ` live s) (key (dp c) UCOW) = Some p'"
    and f: "has (ptes (pm s) (dp ` live s) (key (dp c) UCOW)) PTE_W" "has (ptes (pm s) (dp ` live s) (key (dp c) va)) PTE_R"
    and r: "unat (pp_ref (pm s) p') < 65535" and fl: "flag_bits perm"
  obtains q where "do { s \<leftarrow> ucopy_page UCOW (ROUNDDOWN va BY2PG) s; (_, s) \<leftarrow> sys_mem_map 0 UCOW 0 va perm s;
      (_, s) \<leftarrow> sys_mem_unmap 0 UCOW s; Some s } = Some (s\<lparr>pm := q\<rparr>)" "kinv (s\<lparr>pm := q\<rparr>) dp L X c"
    "ptes q (dp ` live s) = (ptes (pm s) (dp ` live s))(key (dp c) va := new_pte p' (perm OR PTE_U), key (dp c) UCOW := 0)"
    "npage q = npage (pm s)" "frame_copied (mem (pm s)) p (mem q) p'"
    "\<And>k x. maps (pm s) (dp ` live s) k = Some x \<Longrightarrow> k \<noteq> key (dp c) va \<Longrightarrow> x \<noteq> p' \<Longrightarrow> same_frame (mem (pm s)) (mem q) x"
proof -
  let ?D = "dp ` live s" and ?src = "ROUNDDOWN va BY2PG"
  have c: "curenv s = Some c" "c \<in> live s" using kv by (simp_all add: kinv_def)
  note inv = kinv_env(1) [OF kv c(2)]
  have src: "key (dp c) ?src = key (dp c) va" "unat ?src mod 4096 = 0" by (simp_all add: key_def ROUNDDOWN_key ROUNDDOWN_unat)
  have lv: "live (s\<lparr>pm := q\<rparr>) = live s" for q by (simp add: live_def)
  obtain q1 where q1: "ucopy_page UCOW ?src s = Some (s\<lparr>pm := q1\<rparr>)" "kinv (s\<lparr>pm := q1\<rparr>) dp L X c" "ptes q1 ?D = ptes (pm s) ?D"
    "maps q1 ?D = maps (pm s) ?D" "frame_copied (mem (pm s)) p (mem q1) p'"
    "\<And>x. x < page_bound \<Longrightarrow> x \<noteq> p' \<Longrightarrow> same_frame (mem (pm s)) (mem q1) x" "pp_ref q1 = pp_ref (pm s)" "npage q1 = npage (pm s)"
    by (rule ucopy_page_run [OF kv m(2) _ f(1) _ UCOW_legal(2) src(2) ne]) (use m(1) f(2) src(1) in auto)
  have c1: "envid2env 0 True (s\<lparr>pm := q1\<rparr>) = Some (Inr (Some c))" "c \<in> live (s\<lparr>pm := q1\<rparr>)" using c lv by (simp_all add: envid2env_def)
  have m1: "maps (pm (s\<lparr>pm := q1\<rparr>)) (dp ` live (s\<lparr>pm := q1\<rparr>)) (key (dp c) UCOW) = Some p'" using q1(4) m(2) lv by simp
  have r1: "unat (pp_ref (pm (s\<lparr>pm := q1\<rparr>)) p') < 65535" using r q1(7) by simp
  have "ptab q1 ?D (dp c, PDX va) \<noteq> None" using q1(4) m(1) maps_key [of q1 ?D "dp c" va p] by fastforce
  then obtain q2 where q2: "sys_mem_map 0 UCOW 0 va perm (s\<lparr>pm := q1\<rparr>) = ret 0 (s\<lparr>pm := q2\<rparr>)" "kinv (s\<lparr>pm := q2\<rparr>) dp L X c"
    "ptes q2 ?D = (ptes q1 ?D)(key (dp c) va := new_pte p' (perm OR PTE_U))" "npage q2 = npage q1"
    "\<And>x. data_frame q1 ?D L x \<Longrightarrow> same_frame (mem q1) (mem q2) x"
    by (cases rule: sys_mem_map_self [OF q1(2) fl UCOW_legal(1) va(1) c1 m1 r1]) (auto simp: lv)
  have p'n: "p' < unat (npage (pm s))" "unat (npage (pm s)) \<le> page_bound" using tables_okD(1,11) [OF vm_inv_cases(1) [OF inv]] m(2) by auto
  have m2: "maps q2 ?D = (maps (pm s) ?D)(key (dp c) va := Some p')"
    using maps_upd [OF q2(4,3)] q1(4) new_pte_frame [OF p'n perm_or_U [OF fl]] entry_frame_cong [OF q1(8)] by simp
  have m2': "maps (pm (s\<lparr>pm := q2\<rparr>)) (dp ` live (s\<lparr>pm := q2\<rparr>)) (key (dp c) UCOW) = Some p'" using m2 m(2) va(2) lv by simp
  obtain q3 where q3: "sys_mem_unmap 0 UCOW (s\<lparr>pm := q2\<rparr>) = ret 0 (s\<lparr>pm := q3\<rparr>)" "kinv (s\<lparr>pm := q3\<rparr>) dp L X c" "npage q3 = npage q2"
    "ptes q3 ?D = (ptes q2 ?D)(key (dp c) UCOW := 0)" "\<And>x. data_frame q2 ?D L x \<Longrightarrow> same_frame (mem q2) (mem q3) x"
    by (rule sys_mem_unmap_self [OF q2(2) UCOW_legal(1) m2']) (simp add: lv)
  have i1: "vm_inv q1 ?D L X" "vm_inv q2 ?D L X" using q1(2) q2(2) lv by (simp_all add: kinv_def space_inv_def)
  have later: "same_frame (mem q1) (mem q3) x" if "maps (pm s) ?D k = Some x" "k \<noteq> key (dp c) va" for k x
  proof -
    have "data_frame q1 ?D L x" using mapped_data [OF i1(1), of k x] q1(4) that(1) by simp
    moreover have "data_frame q2 ?D L x" using mapped_data [OF i1(2), of k x] m2 that by simp
    ultimately show ?thesis using q2(5) q3(5) same_frame_trans by blast
  qed
  have "frame_copied (mem (pm s)) p (mem q3) p'"
    using q1(5) later [OF m(2)] va(2) by (simp add: frame_copied_def same_frame_def)
  moreover have "same_frame (mem (pm s)) (mem q3) x" if "maps (pm s) ?D k = Some x" "k \<noteq> key (dp c) va" "x \<noteq> p'" for k x
  proof -
    have "x < page_bound" using tables_okD(11) [OF vm_inv_cases(1) [OF inv] that(1)] p'n(2) by simp
    then show ?thesis using same_frame_trans [OF q1(6) later] that by blast
  qed
  ultimately show thesis
    by (intro that [of q3]) (use q1(1,3,8) q2(1,3,4) q3(1-4) in \<open>simp_all add: ret_def\<close>)
qed

lemma cow_copy_run:
  assumes kv: "kinv s dp L X c" and va: "\<not> is_illegal_va va" "key (dp c) va \<noteq> key (dp c) UCOW"
    and m: "maps (pm s) (dp ` live s) (key (dp c) va) = Some p" and win: "maps (pm s) (dp ` live s) (key (dp c) UCOW) = None"
    and e: "e = ptes (pm s) (dp ` live s) (key (dp c) va)" "has e PTE_COW" "has e PTE_R"
  obtains (no_mem) "cow_copy va s = None" "few_frames s dp L c UCOW"
  | (ok) q p' where "cow_copy va s = Some (s\<lparr>pm := q\<rparr>)" "kinv (s\<lparr>pm := q\<rparr>) dp L X c" "pp_ref (pm s) p' = 0"
      "ptes q (dp ` live s) = (ptes (pm s) (dp ` live s))(key (dp c) va := new_pte p' (cow_perm e OR PTE_U), key (dp c) UCOW := 0)"
      "maps q (dp ` live s) = (maps (pm s) (dp ` live s))(key (dp c) va := Some p')" "has (ptes q (dp ` live s) (key (dp c) va)) PTE_W"
      "frame_copied (mem (pm s)) p (mem q) p'"
      "\<And>k x. maps (pm s) (dp ` live s) k = Some x \<Longrightarrow> k \<noteq> key (dp c) va \<Longrightarrow> same_frame (mem (pm s)) (mem q) x"
proof -
  let ?D = "dp ` live s" and ?d = "dp c"
  have c: "c \<in> live s" using kv by (simp add: kinv_def)
  note k = kinv_env [OF kv c]
  note tok = vm_inv_cases(1,2) [OF k(1)]
  obtain t where t: "ptab (pm s) ?D (?d, PDX va) = Some t" using maps_key [OF m] by blast
  have def: "cow_copy va s = do {
       s \<leftarrow> panic_on (sys_mem_alloc 0 UCOW (cow_perm e) s);
       s \<leftarrow> ucopy_page UCOW (ROUNDDOWN va BY2PG) s;
       (_, s) \<leftarrow> sys_mem_map 0 UCOW 0 va (cow_perm e) s;
       (_, s) \<leftarrow> sys_mem_unmap 0 UCOW s;
       Some s }"
    using e(2) by (simp add: cow_copy_def vpt_at_ptes [OF kv t] has_low cow_perm_def Let_def flip: e(1))
  show thesis
  proof (cases rule: sys_mem_alloc_self [OF kv cow_perm_flags [of e] UCOW_legal(1)])
    case 1
    then show thesis by (intro no_mem) (simp_all add: def)
  next
    case a: (2 p' q1)
    let ?s = "s\<lparr>pm := q1\<rparr>"
    have lv: "live ?s = live s" by (simp add: live_def)
    have nz: "pp_ref (pm s) x \<noteq> 0" if "maps (pm s) ?D k = Some x" for k x
      using referenced [OF tok tables_okD(11) [OF tok(1) that]] that by blast
    have ne: "p' \<noteq> p" using nz [OF m] a(5) by auto
    have pn: "p' < unat (npage q1)" "unat (npage q1) \<le> page_bound"
      using tables_okD(1,11) [OF vm_inv_cases(1) [of q1 ?D L X]] a(2,4) lv by (auto simp: kinv_def space_inv_def)
    have m1: "maps q1 ?D = (maps (pm s) ?D)(key ?d UCOW := Some p')"
      using maps_upd [OF a(8,3)] new_pte_frame [OF pn perm_or_U [OF cow_perm_flags]] entry_frame_cong [OF a(8)] by simp
    have mv: "maps (pm ?s) (dp ` live ?s) (key ?d va) = Some p" "maps (pm ?s) (dp ` live ?s) (key ?d UCOW) = Some p'"
      "has (ptes (pm ?s) (dp ` live ?s) (key ?d UCOW)) PTE_W" "has (ptes (pm ?s) (dp ` live ?s) (key ?d va)) PTE_R"
      using m1 m va(2) a(3) cow_perm_W e(1,3) lv by simp_all
    have "unat (pp_ref (pm ?s) p') < 65535" using a(7) by simp
    then obtain q where q: "cow_copy va s = Some (s\<lparr>pm := q\<rparr>)" "kinv (s\<lparr>pm := q\<rparr>) dp L X c"
      "ptes q ?D = (ptes q1 ?D)(key ?d va := new_pte p' (cow_perm e OR PTE_U), key ?d UCOW := 0)" "npage q = npage q1"
      "frame_copied (mem q1) p (mem q) p'" "\<And>k x. maps q1 ?D k = Some x \<Longrightarrow> k \<noteq> key ?d va \<Longrightarrow> x \<noteq> p' \<Longrightarrow> same_frame (mem q1) (mem q) x"
      by (rule cow_steps [OF a(2) va ne mv _ cow_perm_flags [of e]]) (use lv a(1) def in simp)
    have pt: "ptes q ?D = (ptes (pm s) ?D)(key ?d va := new_pte p' (cow_perm e OR PTE_U), key ?d UCOW := 0)"
      using q(3) a(3) va(2) by (simp add: fun_upd_twist)
    have mq: "maps q ?D = (maps (pm s) ?D)(key ?d va := Some p')"
    proof -
      have "entry_frame q = entry_frame (pm s)" using entry_frame_cong q(4) a(8) by metis
      moreover have "maps (pm s) ?D (key ?d UCOW) = None" using win .
      ultimately show ?thesis using pt va(2) new_pte_frame [of p' q "cow_perm e OR PTE_U"] pn q(4) perm_or_U [OF cow_perm_flags]
        by (auto simp: maps_def fun_eq_iff)
    qed
    have hw: "has (ptes q ?D (key ?d va)) PTE_W" using pt va(2) cow_perm_W by simp
    have s1: "same_frame (mem (pm s)) (mem q1) x" if "maps (pm s) ?D k = Some x" for k x using a(9) mapped_data [OF k(1) that] .
    have fc: "frame_copied (mem (pm s)) p (mem q) p'" using q(5) s1 [OF m] by (simp add: frame_copied_def same_frame_def)
    have sf: "same_frame (mem (pm s)) (mem q) x" if "maps (pm s) ?D k = Some x" "k \<noteq> key ?d va" for k x
      using same_frame_trans [OF s1 [OF that(1)] q(6) [of k x]] that m1 win nz [OF that(1)] a(5) by (cases "x = p'"; cases "k = key ?d UCOW") auto
    show thesis by (rule ok [OF q(1,2) a(5) pt mq hw fc sf])
  qed
qed

text \<open>Property C30.  The write fault handler \<^verbatim>\<open>cow_entry\<close>, called with a trap frame on the exception stack that reports a store to a
  readable copy-on-write page.  Unless the frames for a copy are missing, the environment gets a frame of its own at \<open>va\<close>, one that
  nothing referred to, writable, no longer copy-on-write and with the same contents, and resumes the interrupted context with all its
  registers; the window at \<^verbatim>\<open>UCOW\<close> is closed again.  No other entry of any environment changes and no frame that is
  mapped elsewhere changes its contents: in particular the other owners of the old frame keep it as it was.\<close>

theorem cow_entry_correct:
  assumes kv: "kinv s dp L X c" and va: "\<not> is_illegal_va va" "key (dp c) va \<noteq> key (dp c) UCOW"
    and m: "maps (pm s) (dp ` live s) (key (dp c) va) = Some p" and win: "maps (pm s) (dp ` live s) (key (dp c) UCOW) = None"
    and e: "e = ptes (pm s) (dp ` live s) (key (dp c) va)" "has e PTE_COW" "has e PTE_R"
    and tf: "uload s (tf + 144) = Some va" "kloads tf 152 s = Some (bs, s)" "\<not> is_illegal_va_range tf TRAPFRAME_SIZE" "unat tf mod 4096 + 152 \<le> 4096"
      "maps (pm s) (dp ` live s) (key (dp c) tf) = Some pt" "has (ptes (pm s) (dp ` live s) (key (dp c) tf)) PTE_R" "key (dp c) tf \<noteq> key (dp c) va"
  shows "cow_entry tf s = None \<and> few_frames s dp L c UCOW \<or>
    (\<exists>q p'. cow_entry tf s = Some (s\<lparr>pm := q, kstack_tf := tf_of_bytes bs\<rparr>) \<and> vm_inv q (dp ` live s) L X \<and> pp_ref (pm s) p' = 0 \<and>
       ptes q (dp ` live s) = (ptes (pm s) (dp ` live s))(key (dp c) va := new_pte p' (cow_perm e OR PTE_U), key (dp c) UCOW := 0) \<and>
       maps q (dp ` live s) = (maps (pm s) (dp ` live s))(key (dp c) va := Some p') \<and> has (ptes q (dp ` live s) (key (dp c) va)) PTE_W \<and>
       frame_copied (mem (pm s)) p (mem q) p' \<and>
       (\<forall>k x. maps (pm s) (dp ` live s) k = Some x \<and> k \<noteq> key (dp c) va \<longrightarrow> same_frame (mem (pm s)) (mem q) x))"
proof (cases rule: cow_copy_run [OF kv va m win e])
  case 1
  then show ?thesis using tf(1) by (simp add: cow_entry_def)
next
  case (2 q p')
  let ?D = "dp ` live s" and ?s = "s\<lparr>pm := q\<rparr>"
  have c: "c \<in> live s" using kv by (simp add: kinv_def)
  note k = kinv_env [OF kv c]
  have lv: "live ?s = live s" by (simp add: live_def)
  have inv: "vm_inv q ?D L X" using 2(2) lv by (simp add: kinv_def space_inv_def)
  have nu: "key (dp c) tf \<noteq> key (dp c) UCOW" using tf(5) win by auto
  let ?b = "page2pa pt + of_nat (unat tf mod 4096)"
  have old: "bs = map (\<lambda>i. mem (pm s) (?b + of_nat i)) [0..<152]"
    using kloads_run [OF vm_inv_cases(1) [OF k(1)] k(7) tf(5,6,4)] tf(2) by simp
  have "kloads tf 152 ?s = Some (map (\<lambda>i. mem q (?b + of_nat i)) [0..<152], ?s)"
    using kloads_run [of ?s ?D "dp c" tf pt 152] vm_inv_cases(1) [OF inv] k(7) 2(4,5) tf(4-7) nu by simp
  moreover have "mem q (?b + of_nat i) = mem (pm s) (?b + of_nat i)" if "i < 152" for i
  proof -
    have "?b + of_nat i = page2pa pt + of_nat (unat tf mod 4096 + i)" by simp
    moreover have "unat tf mod 4096 + i < 4096" using tf(4) that by simp
    ultimately show ?thesis using 2(8) [OF tf(5,7)] unfolding same_frame_def by metis
  qed
  then have "map (\<lambda>i. mem q (?b + of_nat i)) [0..<152] = bs" unfolding old by (intro map_cong) simp_all
  ultimately have "sys_set_trapframe 0 tf ?s = ret (tf_regs (tf_of_bytes bs) 10) (?s\<lparr>kstack_tf := tf_of_bytes bs\<rparr>)"
    using tf(3) k(5) by (simp add: sys_set_trapframe_def try_env_def envid2env_def TRAPFRAME_SIZE_def Let_def)
  then have "cow_entry tf s = Some (s\<lparr>pm := q, kstack_tf := tf_of_bytes bs\<rparr>)" using tf(1,3) 2(1) by (simp add: cow_entry_def ret_def)
  moreover have "\<forall>k x. maps (pm s) ?D k = Some x \<and> k \<noteq> key (dp c) va \<longrightarrow> same_frame (mem (pm s)) (mem q) x" using 2(8) by blast
  ultimately show ?thesis using 2(3-7) inv by (intro disjI2 exI [of _ q] exI [of _ p']) simp
qed

section \<open>A concrete fault\<close>

text \<open>Environment 0 has a copy-on-write page at \<open>0x400000\<close> (frame 2) and a trap frame at \<open>0x401000\<close> (frame 5) that reports a store to
  \<open>0x400000\<close>; frame 1 is the page table and frames 6 and 7 are free.\<close>

definition kcow_pm :: pmap where
  "kcow_pm = kdemo_pm\<lparr>mem := st32 (st32 (st32 (st32 (\<lambda>_. 0) (slot 0 1) (ADDR_PTE (page2pa 1) OR 0 OR PTE_V))
       (slot 1 0) (new_pte 2 (PTE_R OR PTE_COW OR PTE_U))) (slot 1 1) (new_pte 5 (PTE_R OR PTE_W OR PTE_U))) (slot 5 36) 0x400000,
     npage := 8, pp_ref := (\<lambda>_. 0)(0 := 1, 1 := 1, 2 := 1, 3 := 1, 4 := 1, 5 := 1),
     page_free_list := LIST_INSERT_HEAD (LIST_INSERT_HEAD (LIST_INIT zero_links) 7) 6\<rparr>"

definition kcow :: kstate where
  "kcow = kdemo\<lparr>pm := kcow_pm\<rparr>"

lemma kcow_ent:
  assumes "d < page_bound" "i < 1024"
  shows "ent (mem kcow_pm) d i = (if d = 0 \<and> i = 1 then ADDR_PTE (page2pa 1) OR 0 OR PTE_V
     else if d = 1 \<and> i = 0 then new_pte 2 (PTE_R OR PTE_COW OR PTE_U)
     else if d = 1 \<and> i = 1 then new_pte 5 (PTE_R OR PTE_W OR PTE_U)
     else if d = 5 \<and> i = 36 then 0x400000 else 0)"
proof -
  have z: "ent (\<lambda>_. 0) d i = 0" by (simp add: ent_def ld32_def)
  show ?thesis using assms by (simp add: kcow_pm_def ent_st32 z page_bound_def)
qed

lemma kcow_fields: "npage kcow_pm = 8" "unat (npage kcow_pm) \<le> page_bound"
  by (simp_all add: kcow_pm_def page_bound_def)

lemma kcow_frames: "entry_frame kcow_pm (ADDR_PTE (page2pa 1) OR 0 OR PTE_V) = Some 1"
  "entry_frame kcow_pm (new_pte 2 (PTE_R OR PTE_COW OR PTE_U)) = Some 2" "entry_frame kcow_pm (new_pte 5 (PTE_R OR PTE_W OR PTE_U)) = Some 5"
  using kcow_fields entry_frame_new [of 1 kcow_pm 0] new_pte_frame [of 2 kcow_pm "PTE_R OR PTE_COW OR PTE_U"]
    new_pte_frame [of 5 kcow_pm "PTE_R OR PTE_W OR PTE_U"]
  by (simp_all add: flag_bits_or) (simp add: flag_bits_def)

lemma kcow_ptab: "ptab kcow_pm {0} = [(0, 1) \<mapsto> 1]"
proof
  fix k :: "nat \<times> u32"
  obtain d i where k: "k = (d, i)" by (cases k)
  show "ptab kcow_pm {0} k = [(0, 1) \<mapsto> 1] k"
    using kcow_ent [of 0 i] user_slot_less [of i] kcow_frames(1)
    by (auto simp: k ptab_def table_at_def page_bound_def user_slots split: if_splits)
qed

lemma kcow_ptes: "ptes kcow_pm {0} = (\<lambda>_. 0)((0, 1, 0) := new_pte 2 (PTE_R OR PTE_COW OR PTE_U), (0, 1, 1) := new_pte 5 (PTE_R OR PTE_W OR PTE_U))"
proof
  fix k :: "nat \<times> u32 \<times> u32"
  obtain d i j where k: "k = (d, i, j)" by (cases k)
  show "ptes kcow_pm {0} k = ((\<lambda>_. 0)((0, 1, 0) := new_pte 2 (PTE_R OR PTE_COW OR PTE_U), (0, 1, 1) := new_pte 5 (PTE_R OR PTE_W OR PTE_U))) k"
    using kcow_ent [of 1 j] by (auto simp: k ptes_def kcow_ptab page_bound_def)
qed

lemma kcow_maps: "maps kcow_pm {0} = [(0, 1, 0) \<mapsto> 2, (0, 1, 1) \<mapsto> 5]"
  unfolding maps_def kcow_ptes using kcow_frames(2,3) by (auto simp: fun_eq_iff)

lemma kcow_vm: "vm_inv kcow_pm {0} {} kdemo_X"
proof -
  have "tables_ok kcow_pm {0}"
  proof (rule tables_okI)
    fix d i assume "d \<in> {0 :: nat}" "i < PDX UTOP" "has (ent (mem kcow_pm) d i) PTE_V"
    then show "ptab kcow_pm {0} (d, i) \<noteq> None" using kcow_ent [of 0 i] user_slot_less [of i] by (auto simp: kcow_ptab page_bound_def split: if_splits)
  next
    fix k assume "has (ptes kcow_pm {0} k) PTE_V"
    then show "maps kcow_pm {0} k \<noteq> None" by (auto simp: kcow_ptes kcow_maps split: if_splits)
  qed (use kcow_fields in \<open>auto simp: kcow_ptab kcow_maps split: if_splits\<close>)
  moreover have "refs_ok kcow_pm {0} kdemo_X"
    unfolding refs_ok_def
  proof (intro allI impI)
    fix p assume "p < unat (npage kcow_pm)"
    have m: "{k. maps kcow_pm {0} k = Some p} = (if p = 2 then {(0, 1, 0)} else if p = 5 then {(0, 1, 1)} else {})"
      "{k. ptab kcow_pm {0} k = Some p} = (if p = 1 then {(0, 1)} else {})"
      by (auto simp: kcow_maps kcow_ptab split: if_splits)
    show "unat (pp_ref kcow_pm p) = refs kcow_pm {0} p + kdemo_X p"
      unfolding refs_def m by (simp add: kcow_pm_def kdemo_X_def)
  qed
  moreover have "free_ok kcow_pm {}"
  proof -
    have "list_rep (page_free_list kcow_pm) [6, 7]"
      using list_rep_insert_head [OF list_rep_insert_head [OF list_rep_init, of "7 :: nat" zero_links], of 6] by (simp add: kcow_pm_def)
    moreover have "set [6, 7] = {p. p < unat (npage kcow_pm) \<and> pp_ref kcow_pm p = 0 \<and> p \<notin> {}}"
      by (auto simp: kcow_pm_def split: if_splits)
    ultimately show ?thesis unfolding free_ok_def by blast
  qed
  ultimately show ?thesis by (simp add: vm_inv_def)
qed

lemma kcow_kinv: "kinv kcow (\<lambda>_. 0) {} kdemo_X 0" "(\<lambda>_. 0) ` live kcow = {0}" "pm kcow = kcow_pm" "cur_pgdir kcow = page2pa 0"
proof -
  have lv: "live kcow = live kdemo" by (simp add: kcow_def live_def)
  show pm: "pm kcow = kcow_pm" "cur_pgdir kcow = page2pa 0" by (simp_all add: kcow_def kdemo_def)
  show im: "(\<lambda>_. 0) ` live kcow = {0}" using lv kdemo_live by simp
  have "curenv kcow = Some 0" "cur_pgdir kcow = env_pgdir (envs kcow 0)" "env_pgdir (envs kcow 0) = page2pa 0" by (simp_all add: kcow_def kdemo_def)
  then show "kinv kcow (\<lambda>_. 0) {} kdemo_X 0"
    using kcow_vm kdemo_live unfolding kinv_def space_inv_def im pm lv by simp
qed

theorem cow_entry_correct_witness:
  "\<exists>q p' bs. cow_entry 0x401000 kcow = Some (kcow\<lparr>pm := q, kstack_tf := tf_of_bytes bs\<rparr>) \<and> p' \<noteq> 2 \<and> maps q {0} (0, 1, 0) = Some p' \<and>
     frame_copied (mem kcow_pm) 2 (mem q) p'"
proof -
  note M = kcow_maps and P = kcow_ptes
  have k: "key 0 0x400000 = (0, 1, 0)" "key 0 0x401000 = (0, 1, 1)" "key 0 UCOW = (0, 0, 1023)" "key 0 4198544 = (0, 1, 1)"
    by (simp_all add: key_def PDX_def PTX_def layout_defs)
  have e: "has (new_pte 2 (PTE_R OR PTE_COW OR PTE_U)) PTE_COW" "has (new_pte 2 (PTE_R OR PTE_COW OR PTE_U)) PTE_R" "has (new_pte 5 (PTE_R OR PTE_W OR PTE_U)) PTE_R"
    unfolding has_new_pte by (simp add: has_def pte_defs) (simp_all add: has_bits new_pte_def insert_perm_def bit_or_iff, simp_all add: pte_defs)
  note ok = vm_inv_cases(1) [OF kcow_vm]
  have "uva_pa kcow_pm (page2pa 0) PTE_R (0x401000 + 144) = Some (page2pa 5 + 144)"
    using uva_pa_mapped [OF ok, of 0 "0x401000 + 144" 5 PTE_R] by (simp add: k M P e)
  moreover have "ld32 (mem kcow_pm) (page2pa 5 + 144) = 0x400000" using kcow_ent [of 5 36] by (simp add: ent_def slot_def page_bound_def)
  ultimately have u: "uload kcow (0x401000 + 144) = Some 0x400000" by (simp add: uload_def kcow_kinv)
  obtain bs where b: "kloads 0x401000 152 kcow = Some (bs, kcow)"
    using kloads_run [of kcow "{0}" 0 "0x401000" 5 152] ok by (auto simp: kcow_kinv k M P e)
  have l: "\<not> is_illegal_va 0x400000" "\<not> is_illegal_va_range 0x401000 TRAPFRAME_SIZE"
    by (simp_all add: is_illegal_va_def is_illegal_va_range_def TRAPFRAME_SIZE_def layout_defs)
  have nf: "\<not> few_frames kcow (\<lambda>_. 0) {} 0 UCOW"
  proof -
    have "6 < unat (npage kcow_pm) \<and> pp_ref kcow_pm 6 = 0" "7 < unat (npage kcow_pm) \<and> pp_ref kcow_pm 7 = 0" by (simp_all add: kcow_pm_def)
    then have "6 \<in> A" "7 \<in> A" if "no_free kcow A" for A using that unfolding no_free_def kcow_kinv by blast+
    from this [of "{}"] this [of "insert _ {}"] have "\<not> no_free kcow {}" "\<not> no_free kcow {f}" for f by force+
    then show ?thesis by (simp add: few_frames_def)
  qed
  from cow_entry_correct [OF kcow_kinv(1) l(1), unfolded kcow_kinv k M P, of 2 "new_pte 2 (PTE_R OR PTE_COW OR PTE_U)" "0x401000" bs 5]
  show ?thesis using u b l(2) e nf by (auto simp: k kcow_pm_def split: if_splits)
qed
end
