(* ===== verification/Mos_Fd.thy ===== *)
theory Mos_Fd
  imports Mos_Cow Mos_Serv
begin

text \<open>
  File descriptors and devices of a user program: \<^verbatim>\<open>user/lib/fd.c\<close>, \<^verbatim>\<open>file.c\<close>, \<^verbatim>\<open>fsipc.c\<close>, \<^verbatim>\<open>console.c\<close> and the set-up of \<^verbatim>\<open>pipe.c\<close>, on the model
  of the kernel.

  The code runs as the current environment.  Its loads and stores go through the page table and fault pages in on demand (\<open>kload8\<close>,
  \<open>kstore8\<close>), it reads the page tables through \<^verbatim>\<open>vpd\<close> and \<^verbatim>\<open>vpt\<close> (\<open>vpd_at\<close>, \<open>vpt_at\<close>) and makes system calls on itself.  The result of a
  function is the register value and the new state.  What happens while the program waits for another environment is a parameter: \<open>io_fs\<close> is
  a rendezvous with the file server (the request, the address for the reply page; the value and the permissions received), \<open>io_pipe_read\<close>
  and \<open>io_pipe_write\<close> are the loops of theory \<open>Mos_Pipe\<close>.  Messages of \<^verbatim>\<open>debugf\<close> are left out.
\<close>

declare split_paired_All [simp del] split_paired_Ex [simp del]

section \<open>Access to memory and to the kernel\<close>

type_synonym ures = "(u32 \<times> kstate) option"

definition uget :: "u32 \<Rightarrow> kstate \<Rightarrow> (u32 \<times> kstate) option" where
  "uget va s = do { (bs, s) \<leftarrow> kloads va 4 s; Some (word_at bs 0, s) }"

definition uput :: "u32 \<Rightarrow> u32 \<Rightarrow> kstate \<Rightarrow> kstate option" where
  "uput va v s = kstores va (bytes32 v) s"

text \<open>\<^verbatim>\<open>memcpy\<close> between places that do not overlap, byte by byte.\<close>

fun ucopy :: "u32 \<Rightarrow> u32 \<Rightarrow> nat \<Rightarrow> kstate \<Rightarrow> kstate option" where
  "ucopy dst src 0 s = Some s"
| "ucopy dst src (Suc n) s = do { (b, s) \<leftarrow> kload8 src s; s \<leftarrow> kstore8 dst b s; ucopy (dst + 1) (src + 1) n s }"

definition sysval :: "sysres \<Rightarrow> ures" where
  "sysval r = (case r of Some (KReturn v, s) \<Rightarrow> Some (v, s) | _ \<Rightarrow> None)"

abbreviation negative :: "u32 \<Rightarrow> bool" where
  "negative r \<equiv> sint r < 0"

record uio =
  io_fs :: "fsreq \<Rightarrow> u32 \<Rightarrow> kstate \<Rightarrow> (u32 \<times> u32 \<times> kstate) option"
  io_pipe_read :: "u32 \<Rightarrow> u32 \<Rightarrow> u32 \<Rightarrow> kstate \<Rightarrow> ures"
  io_pipe_write :: "u32 \<Rightarrow> u32 \<Rightarrow> u32 \<Rightarrow> kstate \<Rightarrow> ures"

section \<open>Descriptors (fd.c)\<close>

definition MAXFD :: nat where "MAXFD = 32"
definition FILEBASE :: u32 where "FILEBASE = 0x60000000"
definition FDTABLE :: u32 where "FDTABLE = FILEBASE - PDMAP"
definition INDEX2FD :: "u32 \<Rightarrow> u32" where "INDEX2FD i = FDTABLE + i * BY2PG"
definition INDEX2DATA :: "u32 \<Rightarrow> u32" where "INDEX2DATA i = FILEBASE + i * PDMAP"
definition O_RDONLY :: u32 where "O_RDONLY = 0"
definition O_WRONLY :: u32 where "O_WRONLY = 1"
definition O_RDWR :: u32 where "O_RDWR = 2"
definition O_ACCMODE :: u32 where "O_ACCMODE = 3"
definition MAXPATHLEN :: nat where "MAXPATHLEN = 1024"
definition MAXFILESIZE :: u32 where "MAXFILESIZE = NINDIRECT * BY2BLK"

definition fd2num :: "u32 \<Rightarrow> u32" where "fd2num fd = (fd - FDTABLE) div BY2PG"
definition fd2data :: "u32 \<Rightarrow> u32" where "fd2data fd = INDEX2DATA (fd2num fd)"
definition num2fd :: "u32 \<Rightarrow> u32" where "num2fd fd = fd * BY2PG + FDTABLE"

text \<open>The members of \<^verbatim>\<open>struct Fd\<close> and \<^verbatim>\<open>struct Filefd\<close>; \<^verbatim>\<open>fd_dev_id\<close> is at the address itself.\<close>

definition fd_offset :: "u32 \<Rightarrow> u32" where "fd_offset fd = fd + 4"
definition fd_omode :: "u32 \<Rightarrow> u32" where "fd_omode fd = fd + 8"
definition f_fileid :: "u32 \<Rightarrow> u32" where "f_fileid fd = fd + 12"
definition f_file :: "u32 \<Rightarrow> u32" where "f_file fd = fd + 16"

datatype dev = DevFile | DevCons | DevPipe

definition dev_lookup :: "u32 \<Rightarrow> err + dev" where
  "dev_lookup dev_id =
     (if dev_id = 102 then Inr DevFile else if dev_id = 99 then Inr DevCons else if dev_id = 112 then Inr DevPipe else Inl E_INVAL)"

definition page_used :: "kstate \<Rightarrow> u32 \<Rightarrow> bool" where
  "page_used s va \<longleftrightarrow> has (vpd_at s va) PTE_V \<and> (case vpt_at s va of Some e \<Rightarrow> has e PTE_V | None \<Rightarrow> False)"

fun fd_alloc_loop :: "kstate \<Rightarrow> nat list \<Rightarrow> err + u32" where
  "fd_alloc_loop s [] = Inl E_MAX_OPEN"
| "fd_alloc_loop s (fdno # is) =
     (let va = INDEX2FD (of_nat fdno) in if \<not> page_used s va then Inr va else fd_alloc_loop s is)"

definition fd_alloc :: "kstate \<Rightarrow> err + u32" where
  "fd_alloc s = fd_alloc_loop s [0..<MAXFD - 1]"

definition fd_close :: "u32 \<Rightarrow> kstate \<Rightarrow> kstate option" where
  "fd_close fd s = do { (_, s) \<leftarrow> sysval (sys_mem_unmap 0 fd s); Some s }"

text \<open>The bound is tested for a signed number.\<close>

definition fd_lookup :: "u32 \<Rightarrow> kstate \<Rightarrow> err + u32" where
  "fd_lookup fdnum s =
     (if sint fdnum \<ge> int MAXFD then Inl E_INVAL
      else let va = INDEX2FD fdnum in if page_used s va then Inr va else Inl E_INVAL)"

text \<open>\<^verbatim>\<open>fd_lookup\<close> and \<^verbatim>\<open>dev_lookup\<close>, one after the other.\<close>

definition fd_dev :: "u32 \<Rightarrow> kstate \<Rightarrow> ((err + u32 \<times> dev) \<times> kstate) option" where
  "fd_dev fdnum s =
     (case fd_lookup fdnum s of
        Inl e \<Rightarrow> Some (Inl e, s)
      | Inr fd \<Rightarrow> do {
          (dev_id, s) \<leftarrow> uget fd s;
          Some (case dev_lookup dev_id of Inl e \<Rightarrow> Inl e | Inr d \<Rightarrow> Inr (fd, d), s) })"

section \<open>Requests to the file server (fsipc.c)\<close>

definition fsipc :: "uio \<Rightarrow> fsreq \<Rightarrow> u32 \<Rightarrow> kstate \<Rightarrow> ures" where
  "fsipc io req dstva s = do { (r, _, s) \<leftarrow> io_fs io req dstva s; Some (r, s) }"

definition fsipc_open :: "uio \<Rightarrow> u8 list \<Rightarrow> u32 \<Rightarrow> u32 \<Rightarrow> kstate \<Rightarrow> ures" where
  "fsipc_open io path omode fd s =
     (if length path \<ge> MAXPATHLEN then Some (neg_errno E_BAD_PATH, s) else fsipc io (FSREQ_OPEN path omode) fd s)"

definition fsipc_map :: "uio \<Rightarrow> u32 \<Rightarrow> u32 \<Rightarrow> u32 \<Rightarrow> kstate \<Rightarrow> ures" where
  "fsipc_map io fileid offset dstva s = do {
     (r, perm, s) \<leftarrow> io_fs io (FSREQ_MAP fileid offset) dstva s;
     if negative r then Some (r, s)
     else if perm AND NOT (PTE_R OR PTE_W OR PTE_LIBRARY) \<noteq> (PTE_V OR PTE_U) then None
     else Some (0, s) }"

definition fsipc_set_size :: "uio \<Rightarrow> u32 \<Rightarrow> u32 \<Rightarrow> kstate \<Rightarrow> ures" where
  "fsipc_set_size io fileid sz s = fsipc io (FSREQ_SET_SIZE fileid sz) 0 s"

definition fsipc_close :: "uio \<Rightarrow> u32 \<Rightarrow> kstate \<Rightarrow> ures" where
  "fsipc_close io fileid s = fsipc io (FSREQ_CLOSE fileid) 0 s"

definition fsipc_dirty :: "uio \<Rightarrow> u32 \<Rightarrow> u32 \<Rightarrow> kstate \<Rightarrow> ures" where
  "fsipc_dirty io fileid offset s = fsipc io (FSREQ_DIRTY fileid offset) 0 s"

definition fsipc_remove :: "uio \<Rightarrow> u8 list \<Rightarrow> kstate \<Rightarrow> ures" where
  "fsipc_remove io path s =
     (if path = [] \<or> length path \<ge> MAXPATHLEN then Some (neg_errno E_BAD_PATH, s) else fsipc io (FSREQ_REMOVE path) 0 s)"

definition fsipc_sync :: "uio \<Rightarrow> kstate \<Rightarrow> ures" where
  "fsipc_sync io s = fsipc io FSREQ_SYNC 0 s"

section \<open>Files (file.c)\<close>

text \<open>The loops over the pages of a file count in \<^verbatim>\<open>u_int\<close> and need not end for sizes near \<open>2\<^sup>3\<^sup>2\<close>.\<close>

partial_function (option) dirty_loop :: "uio \<Rightarrow> u32 \<Rightarrow> u32 \<Rightarrow> u32 \<Rightarrow> kstate \<Rightarrow> kstate option" where
  "dirty_loop io fileid sz i s =
     (if i < sz then do { (_, s) \<leftarrow> fsipc_dirty io fileid i s; dirty_loop io fileid sz (i + BY2PG) s } else Some s)"

partial_function (option) unmap_loop :: "u32 \<Rightarrow> u32 \<Rightarrow> u32 \<Rightarrow> kstate \<Rightarrow> ures" where
  "unmap_loop va sz i s =
     (if i < sz then do {
        (r, s) \<leftarrow> sysval (sys_mem_unmap 0 (va + i) s);
        if negative r then Some (r, s) else unmap_loop va sz (i + BY2PG) s }
      else Some (0, s))"

definition devfile_close :: "uio \<Rightarrow> u32 \<Rightarrow> kstate \<Rightarrow> ures" where
  "devfile_close io fd s = do {
     (fileid, s) \<leftarrow> uget (f_fileid fd) s;
     (sz, s) \<leftarrow> uget (f_size (f_file fd)) s;
     let va = fd2data fd;
     s \<leftarrow> dirty_loop io fileid sz 0 s;
     (r, s) \<leftarrow> fsipc_close io fileid s;
     if negative r then Some (r, s) else unmap_loop va sz 0 s }"

definition devfile_read :: "u32 \<Rightarrow> u32 \<Rightarrow> u32 \<Rightarrow> u32 \<Rightarrow> kstate \<Rightarrow> ures" where
  "devfile_read fd buf n offset s = do {
     (sz, s) \<leftarrow> uget (f_size (f_file fd)) s;
     if offset > sz then Some (0, s)
     else do {
       let n = (if offset + n > sz then sz - offset else n);
       s \<leftarrow> ucopy buf (fd2data fd + offset) (unat n) s;
       Some (n, s) } }"

definition read_map :: "u32 \<Rightarrow> u32 \<Rightarrow> kstate \<Rightarrow> ((err + u32) \<times> kstate) option" where
  "read_map fdnum offset s =
     (case fd_lookup fdnum s of
        Inl e \<Rightarrow> Some (Inl e, s)
      | Inr fd \<Rightarrow> do {
          (dev_id, s) \<leftarrow> uget fd s;
          if dev_id \<noteq> 102 then Some (Inl E_INVAL, s)
          else let va = fd2data fd + offset
               in if offset \<ge> MAXFILESIZE \<or> \<not> page_used s va then Some (Inl E_NO_DISK, s) else Some (Inr va, s) })"

partial_function (option) map_loop :: "uio \<Rightarrow> u32 \<Rightarrow> u32 \<Rightarrow> u32 \<Rightarrow> u32 \<Rightarrow> u32 \<Rightarrow> kstate \<Rightarrow> ures" where
  "map_loop io fileid oldsize va i fin s =
     (if i < fin then do {
        (r, s) \<leftarrow> fsipc_map io fileid i (va + i) s;
        if negative r then do { (_, s) \<leftarrow> fsipc_set_size io fileid oldsize s; Some (r, s) }
        else map_loop io fileid oldsize va (i + BY2PG) fin s }
      else Some (0, s))"

text \<open>A failing \<^verbatim>\<open>syscall_mem_unmap\<close> panics here.\<close>

definition ftruncate :: "uio \<Rightarrow> u32 \<Rightarrow> u32 \<Rightarrow> kstate \<Rightarrow> ures" where
  "ftruncate io fdnum sz s =
     (if sz > MAXFILESIZE then Some (neg_errno E_NO_DISK, s)
      else
        (case fd_lookup fdnum s of
           Inl e \<Rightarrow> Some (neg_errno e, s)
         | Inr fd \<Rightarrow> do {
             (dev_id, s) \<leftarrow> uget fd s;
             if dev_id \<noteq> 102 then Some (neg_errno E_INVAL, s)
             else do {
               (fileid, s) \<leftarrow> uget (f_fileid fd) s;
               (oldsize, s) \<leftarrow> uget (f_size (f_file fd)) s;
               s \<leftarrow> uput (f_size (f_file fd)) sz s;
               (r, s) \<leftarrow> fsipc_set_size io fileid sz s;
               if negative r then Some (r, s)
               else do {
                 let va = fd2data fd;
                 (r, s) \<leftarrow> map_loop io fileid oldsize va (ROUND oldsize BY2PG) (ROUND sz BY2PG) s;
                 if negative r then Some (r, s)
                 else do {
                   (r, s) \<leftarrow> unmap_loop va (ROUND oldsize BY2PG) (ROUND sz BY2PG) s;
                   if negative r then None else Some (0, s) } } } }))"

definition devfile_write :: "uio \<Rightarrow> u32 \<Rightarrow> u32 \<Rightarrow> u32 \<Rightarrow> u32 \<Rightarrow> kstate \<Rightarrow> ures" where
  "devfile_write io fd buf n offset s = do {
     let tot = offset + n;
     if tot > MAXFILESIZE then Some (neg_errno E_NO_DISK, s)
     else do {
       (sz, s) \<leftarrow> uget (f_size (f_file fd)) s;
       (r, s) \<leftarrow> (if tot > sz then ftruncate io (fd2num fd) tot s else Some (0, s));
       if negative r then Some (r, s)
       else do { s \<leftarrow> ucopy (fd2data fd + offset) buf (unat n) s; Some (n, s) } } }"

partial_function (option) open_loop :: "uio \<Rightarrow> u32 \<Rightarrow> u32 \<Rightarrow> u32 \<Rightarrow> u32 \<Rightarrow> kstate \<Rightarrow> ures" where
  "open_loop io fileid va i sz s =
     (if i < sz then do {
        (r, s) \<leftarrow> sysval (sys_mem_alloc 0 (va + i) PTE_W s);
        if r \<noteq> 0 then Some (r, s)
        else do {
          (r, s) \<leftarrow> fsipc_map io fileid i (va + i) s;
          if r \<noteq> 0 then Some (r, s) else open_loop io fileid va (i + BY2PG) sz s } }
      else Some (0, s))"

definition uopen :: "uio \<Rightarrow> u8 list \<Rightarrow> u32 \<Rightarrow> kstate \<Rightarrow> ures" where
  "uopen io path mode s =
     (case fd_alloc s of
        Inl e \<Rightarrow> Some (neg_errno e, s)
      | Inr fd \<Rightarrow> do {
          (r, s) \<leftarrow> fsipc_open io path mode fd s;
          if r \<noteq> 0 then Some (r, s)
          else do {
            (sz, s) \<leftarrow> uget (f_size (f_file fd)) s;
            (fileid, s) \<leftarrow> uget (f_fileid fd) s;
            (r, s) \<leftarrow> open_loop io fileid (fd2data fd) 0 sz s;
            if r \<noteq> 0 then Some (r, s) else Some (fd2num fd, s) } })"

definition uremove :: "uio \<Rightarrow> u8 list \<Rightarrow> kstate \<Rightarrow> ures" where
  "uremove io path s = fsipc_remove io path s"

definition usync :: "uio \<Rightarrow> kstate \<Rightarrow> ures" where
  "usync io s = fsipc_sync io s"

section \<open>The console (console.c)\<close>

definition iscons :: "u32 \<Rightarrow> kstate \<Rightarrow> ures" where
  "iscons fdnum s =
     (case fd_lookup fdnum s of
        Inl e \<Rightarrow> Some (neg_errno e, s)
      | Inr fd \<Rightarrow> do { (dev_id, s) \<leftarrow> uget fd s; Some (if dev_id = 99 then 1 else 0, s) })"

definition opencons :: "kstate \<Rightarrow> ures" where
  "opencons s =
     (case fd_alloc s of
        Inl e \<Rightarrow> Some (neg_errno e, s)
      | Inr fd \<Rightarrow> do {
          (r, s) \<leftarrow> sysval (sys_mem_alloc 0 fd (PTE_W OR PTE_LIBRARY) s);
          if negative r then Some (r, s)
          else do {
            s \<leftarrow> uput fd 99 s;
            s \<leftarrow> uput (fd_omode fd) O_RDWR s;
            Some (fd2num fd, s) } })"

text \<open>\<^verbatim>\<open>syscall_cgetc\<close> does not return 0, so that the loop around it is left at once.  The echo goes to the console.\<close>

definition cons_read :: "u32 \<Rightarrow> u32 \<Rightarrow> kstate \<Rightarrow> ures" where
  "cons_read vbuf n s =
     (if n = 0 then Some (0, s)
      else do {
        (c, s) \<leftarrow> sysval (sys_cgetc s);
        let s = s\<lparr>console_out := console_out s @ [if c \<noteq> 13 then ucast c else 10]\<rparr>;
        if negative c then Some (c, s)
        else if c = 4 then Some (0, s)
        else do { s \<leftarrow> kstore8 vbuf (ucast c) s; Some (1, s) } })"

definition cons_write :: "u32 \<Rightarrow> u32 \<Rightarrow> kstate \<Rightarrow> ures" where
  "cons_write buf n s = do {
     (r, s) \<leftarrow> sysval (sys_print_cons buf n s);
     Some (if negative r then r else n, s) }"

section \<open>Pipes (pipe.c)\<close>

definition pipe_dev_close :: "u32 \<Rightarrow> kstate \<Rightarrow> ures" where
  "pipe_dev_close fd s = do {
     (_, s) \<leftarrow> sysval (sys_mem_unmap 0 fd s);
     (_, s) \<leftarrow> sysval (sys_mem_unmap 0 (fd2data fd) s);
     Some (0, s) }"

text \<open>\<^verbatim>\<open>pipe\<close>: the two descriptors and the shared page, with the unmapping on the way out of an error.\<close>

definition unmap_all :: "u32 list \<Rightarrow> u32 \<Rightarrow> kstate \<Rightarrow> ((u32 + u32 \<times> u32) \<times> kstate) option" where
  "unmap_all vas r s = do {
     s \<leftarrow> foldl (\<lambda>so va. do { s \<leftarrow> so; (_, s) \<leftarrow> sysval (sys_mem_unmap 0 va s); Some s }) (Some s) vas;
     Some (Inl r, s) }"

definition alloc_fd_page :: "kstate \<Rightarrow> ((u32 + u32) \<times> kstate) option" where
  "alloc_fd_page s =
     (case fd_alloc s of
        Inl e \<Rightarrow> Some (Inl (neg_errno e), s)
      | Inr fd \<Rightarrow> do {
          (r, s) \<leftarrow> sysval (sys_mem_alloc 0 fd (PTE_W OR PTE_LIBRARY) s);
          Some (if negative r then Inl r else Inr fd, s) })"

definition upipe :: "kstate \<Rightarrow> ((u32 + u32 \<times> u32) \<times> kstate) option" where
  "upipe s = do {
     (r0, s) \<leftarrow> alloc_fd_page s;
     case r0 of
       Inl r \<Rightarrow> Some (Inl r, s)
     | Inr fd0 \<Rightarrow> do {
         (r1, s) \<leftarrow> alloc_fd_page s;
         case r1 of
           Inl r \<Rightarrow> unmap_all [fd0] r s
         | Inr fd1 \<Rightarrow> do {
             let va = fd2data fd0;
             (r, s) \<leftarrow> sysval (sys_mem_alloc 0 va (PTE_W OR PTE_LIBRARY) s);
             if negative r then unmap_all [fd1, fd0] r s
             else do {
               (r, s) \<leftarrow> sysval (sys_mem_map 0 va 0 (fd2data fd1) (PTE_W OR PTE_LIBRARY) s);
               if negative r then unmap_all [va, fd1, fd0] r s
               else do {
                 s \<leftarrow> uput fd0 112 s;
                 s \<leftarrow> uput (fd_omode fd0) O_RDONLY s;
                 s \<leftarrow> uput fd1 112 s;
                 s \<leftarrow> uput (fd_omode fd1) O_WRONLY s;
                 Some (Inr (fd2num fd0, fd2num fd1), s) } } } } }"

text \<open>\<^verbatim>\<open>pageref\<close> and \<^verbatim>\<open>pipe_is_closed\<close>; nothing runs between the two reads once the loop of \<^verbatim>\<open>_pipe_is_closed\<close> is left.\<close>

definition upageref :: "u32 \<Rightarrow> kstate \<Rightarrow> u32" where
  "upageref va s =
     (if \<not> has (vpd_at s va) PTE_V then 0
      else case vpt_at s va of
             None \<Rightarrow> 0
           | Some pte \<Rightarrow> if \<not> has pte PTE_V then 0 else ucast (pp_ref (pm s) (unat (PA2IDX (PTE_ADDR pte)))))"

definition upipe_is_closed :: "u32 \<Rightarrow> kstate \<Rightarrow> u32" where
  "upipe_is_closed fdnum s =
     (case fd_lookup fdnum s of
        Inl e \<Rightarrow> neg_errno e
      | Inr fd \<Rightarrow> if upageref fd s = upageref (fd2data fd) s then 1 else 0)"

section \<open>Operations on descriptors (fd.c)\<close>

definition dev_close :: "uio \<Rightarrow> dev \<Rightarrow> u32 \<Rightarrow> kstate \<Rightarrow> ures" where
  "dev_close io d fd s =
     (case d of DevFile \<Rightarrow> devfile_close io fd s | DevCons \<Rightarrow> Some (0, s) | DevPipe \<Rightarrow> pipe_dev_close fd s)"

definition dev_read :: "uio \<Rightarrow> dev \<Rightarrow> u32 \<Rightarrow> u32 \<Rightarrow> u32 \<Rightarrow> u32 \<Rightarrow> kstate \<Rightarrow> ures" where
  "dev_read io d fd buf n offset s =
     (case d of DevFile \<Rightarrow> devfile_read fd buf n offset s | DevCons \<Rightarrow> cons_read buf n s | DevPipe \<Rightarrow> io_pipe_read io fd buf n s)"

definition dev_write :: "uio \<Rightarrow> dev \<Rightarrow> u32 \<Rightarrow> u32 \<Rightarrow> u32 \<Rightarrow> u32 \<Rightarrow> kstate \<Rightarrow> ures" where
  "dev_write io d fd buf n offset s =
     (case d of DevFile \<Rightarrow> devfile_write io fd buf n offset s | DevCons \<Rightarrow> cons_write buf n s | DevPipe \<Rightarrow> io_pipe_write io fd buf n s)"

definition uclose :: "uio \<Rightarrow> u32 \<Rightarrow> kstate \<Rightarrow> ures" where
  "uclose io fdnum s = do {
     (r, s) \<leftarrow> fd_dev fdnum s;
     case r of
       Inl e \<Rightarrow> Some (neg_errno e, s)
     | Inr (fd, d) \<Rightarrow> do { (r, s) \<leftarrow> dev_close io d fd s; s \<leftarrow> fd_close fd s; Some (r, s) } }"

fun close_loop :: "uio \<Rightarrow> nat list \<Rightarrow> kstate \<Rightarrow> kstate option" where
  "close_loop io [] s = Some s"
| "close_loop io (i # is) s = do { (_, s) \<leftarrow> uclose io (of_nat i) s; close_loop io is s }"

definition close_all :: "uio \<Rightarrow> kstate \<Rightarrow> kstate option" where
  "close_all io s = close_loop io [0..<MAXFD] s"

text \<open>The loop of \<^verbatim>\<open>dup\<close> over the data pages, by the number of the page; a page without an entry in an existing table is skipped.\<close>

fun dup_pages :: "u32 \<Rightarrow> u32 \<Rightarrow> nat list \<Rightarrow> kstate \<Rightarrow> ures" where
  "dup_pages ova nva [] s = Some (0, s)"
| "dup_pages ova nva (i # is) s = do {
     let off = of_nat i * BY2PG;
     pte \<leftarrow> vpt_at s (ova + off);
     if has pte PTE_V then do {
       (r, s) \<leftarrow> sysval (sys_mem_map 0 (ova + off) 0 (nva + off) (pte AND (PTE_W OR PTE_LIBRARY)) s);
       if negative r then Some (r, s) else dup_pages ova nva is s }
     else dup_pages ova nva is s }"

fun dup_undo :: "u32 \<Rightarrow> nat list \<Rightarrow> kstate \<Rightarrow> kstate option" where
  "dup_undo nva [] s = Some s"
| "dup_undo nva (i # is) s = do { (_, s) \<leftarrow> sysval (sys_mem_unmap 0 (nva + of_nat i * BY2PG) s); dup_undo nva is s }"

definition dup_fail :: "u32 \<Rightarrow> u32 \<Rightarrow> u32 \<Rightarrow> kstate \<Rightarrow> ures" where
  "dup_fail newfd nva r s = do {
     (_, s) \<leftarrow> sysval (sys_mem_unmap 0 newfd s);
     s \<leftarrow> dup_undo nva [0..<1024] s;
     Some (r, s) }"

definition udup :: "uio \<Rightarrow> u32 \<Rightarrow> u32 \<Rightarrow> kstate \<Rightarrow> ures" where
  "udup io oldfdnum newfdnum s =
     (case fd_lookup oldfdnum s of
        Inl e \<Rightarrow> Some (neg_errno e, s)
      | Inr oldfd \<Rightarrow> do {
          (_, s) \<leftarrow> uclose io newfdnum s;
          let newfd = INDEX2FD newfdnum;
          let ova = fd2data oldfd;
          let nva = fd2data newfd;
          pte \<leftarrow> vpt_at s oldfd;
          (r, s) \<leftarrow> sysval (sys_mem_map 0 oldfd 0 newfd (pte AND (PTE_W OR PTE_LIBRARY)) s);
          if negative r then dup_fail newfd nva r s
          else do {
            (r, s) \<leftarrow> (if vpd_at s ova \<noteq> 0 then dup_pages ova nva [0..<1024] s else Some (0, s));
            if negative r then dup_fail newfd nva r s else Some (newfdnum, s) } })"

definition uread :: "uio \<Rightarrow> u32 \<Rightarrow> u32 \<Rightarrow> u32 \<Rightarrow> kstate \<Rightarrow> ures" where
  "uread io fdnum buf n s = do {
     (r, s) \<leftarrow> fd_dev fdnum s;
     case r of
       Inl e \<Rightarrow> Some (neg_errno e, s)
     | Inr (fd, d) \<Rightarrow> do {
         (mode, s) \<leftarrow> uget (fd_omode fd) s;
         if mode AND O_ACCMODE = O_WRONLY then Some (neg_errno E_INVAL, s)
         else do {
           (offset, s) \<leftarrow> uget (fd_offset fd) s;
           (r, s) \<leftarrow> dev_read io d fd buf n offset s;
           if sint r > 0 then do {
             (offset, s) \<leftarrow> uget (fd_offset fd) s;
             s \<leftarrow> uput (fd_offset fd) (offset + r) s;
             Some (r, s) }
           else Some (r, s) } } }"

text \<open>\<^verbatim>\<open>tot < n\<close> compares as unsigned numbers.\<close>

partial_function (option) readn_loop :: "uio \<Rightarrow> u32 \<Rightarrow> u32 \<Rightarrow> u32 \<Rightarrow> u32 \<Rightarrow> kstate \<Rightarrow> ures" where
  "readn_loop io fdnum buf n tot s =
     (if tot < n then do {
        (m, s) \<leftarrow> uread io fdnum (buf + tot) (n - tot) s;
        if negative m then Some (m, s)
        else if m = 0 then Some (tot, s)
        else readn_loop io fdnum buf n (tot + m) s }
      else Some (tot, s))"

definition readn :: "uio \<Rightarrow> u32 \<Rightarrow> u32 \<Rightarrow> u32 \<Rightarrow> kstate \<Rightarrow> ures" where
  "readn io fdnum buf n s = readn_loop io fdnum buf n 0 s"

definition uwrite :: "uio \<Rightarrow> u32 \<Rightarrow> u32 \<Rightarrow> u32 \<Rightarrow> kstate \<Rightarrow> ures" where
  "uwrite io fdnum buf n s = do {
     (r, s) \<leftarrow> fd_dev fdnum s;
     case r of
       Inl e \<Rightarrow> Some (neg_errno e, s)
     | Inr (fd, d) \<Rightarrow> do {
         (mode, s) \<leftarrow> uget (fd_omode fd) s;
         if mode AND O_ACCMODE = O_RDONLY then Some (neg_errno E_INVAL, s)
         else do {
           (offset, s) \<leftarrow> uget (fd_offset fd) s;
           (r, s) \<leftarrow> dev_write io d fd buf n offset s;
           if sint r > 0 then do {
             (offset, s) \<leftarrow> uget (fd_offset fd) s;
             s \<leftarrow> uput (fd_offset fd) (offset + r) s;
             Some (r, s) }
           else Some (r, s) } } }"

definition useek :: "u32 \<Rightarrow> u32 \<Rightarrow> kstate \<Rightarrow> ures" where
  "useek fdnum offset s =
     (case fd_lookup fdnum s of
        Inl e \<Rightarrow> Some (neg_errno e, s)
      | Inr fd \<Rightarrow> do { s \<leftarrow> uput (fd_offset fd) offset s; Some (0, s) })"

text \<open>\<^verbatim>\<open>struct Stat\<close>: \<^verbatim>\<open>st_name\<close> at 0, \<^verbatim>\<open>st_size\<close> at 128, \<^verbatim>\<open>st_isdir\<close> at 132, \<^verbatim>\<open>st_dev\<close> at 136; \<open>dev_addr\<close> are the addresses of the device structures.\<close>

partial_function (option) ustrcpy :: "u32 \<Rightarrow> u32 \<Rightarrow> kstate \<Rightarrow> kstate option" where
  "ustrcpy dst src s = do {
     (b, s) \<leftarrow> kload8 src s;
     s \<leftarrow> kstore8 dst b s;
     if b = 0 then Some s else ustrcpy (dst + 1) (src + 1) s }"

definition dev_stat :: "dev \<Rightarrow> u32 \<Rightarrow> u32 \<Rightarrow> kstate \<Rightarrow> ures" where
  "dev_stat d fd st s =
     (case d of
        DevFile \<Rightarrow> do {
          s \<leftarrow> ustrcpy st (f_file fd) s;
          (sz, s) \<leftarrow> uget (f_size (f_file fd)) s;
          s \<leftarrow> uput (st + 128) sz s;
          (ty, s) \<leftarrow> uget (f_type (f_file fd)) s;
          s \<leftarrow> uput (st + 132) (if ty = FTYPE_DIR then 1 else 0) s;
          Some (0, s) }
      | DevCons \<Rightarrow> do { s \<leftarrow> kstores st [60, 99, 111, 110, 115, 62, 0] s; Some (0, s) }
      | DevPipe \<Rightarrow> Some (0, s))"

definition fstat :: "(dev \<Rightarrow> u32) \<Rightarrow> u32 \<Rightarrow> u32 \<Rightarrow> kstate \<Rightarrow> ures" where
  "fstat dev_addr fdnum st s = do {
     (r, s) \<leftarrow> fd_dev fdnum s;
     case r of
       Inl e \<Rightarrow> Some (neg_errno e, s)
     | Inr (fd, d) \<Rightarrow> do {
         s \<leftarrow> kstore8 st 0 s;
         s \<leftarrow> uput (st + 128) 0 s;
         s \<leftarrow> uput (st + 132) 0 s;
         s \<leftarrow> uput (st + 136) (dev_addr d) s;
         dev_stat d fd st s } }"

definition ustat :: "uio \<Rightarrow> (dev \<Rightarrow> u32) \<Rightarrow> u8 list \<Rightarrow> u32 \<Rightarrow> kstate \<Rightarrow> ures" where
  "ustat io dev_addr path st s = do {
     (fd, s) \<leftarrow> uopen io path O_RDONLY s;
     if negative fd then Some (fd, s)
     else do {
       (r, s) \<leftarrow> fstat dev_addr fd st s;
       (_, s) \<leftarrow> uclose io fd s;
       Some (r, s) } }"

end
