(* ===== verification/Mos_Sh.thy ===== *)
theory Mos_Sh
  imports Mos_Fd
begin

text \<open>
  The command parser of the shell, \<^verbatim>\<open>user/sh.c\<close>: the tokenizer with its destructive buffer and one token of lookahead in static variables, the
  parser with redirections and pipes, \<^verbatim>\<open>runcmd\<close>, and the line editor \<^verbatim>\<open>readline\<close>.  Memory is the byte memory of the process.  The
  library calls that the shell makes on descriptors and processes act on a world of any type; they are collected in the record \<open>sh_ops\<close>.
\<close>

section \<open>Tokens\<close>

text \<open>\<^verbatim>\<open>WHITESPACE\<close> and \<^verbatim>\<open>SYMBOLS\<close>; \<^verbatim>\<open>strchr\<close> on these literals is membership (theorem \<open>strchr_cstr\<close>), and never finds the NUL.\<close>

definition WHITESPACE :: "u8 list" where
  "WHITESPACE = [32, 9, 13, 10]"

definition SYMBOLS :: "u8 list" where
  "SYMBOLS = [60, 124, 62, 38, 59, 40, 41]"

definition is_plain :: "u8 \<Rightarrow> bool" where
  "is_plain c \<longleftrightarrow> c \<noteq> 0 \<and> c \<notin> set (WHITESPACE @ SYMBOLS)"

partial_function (option) skip_white :: "mem \<Rightarrow> u32 \<Rightarrow> (mem \<times> u32) option" where
  "skip_white m s = (if m s \<in> set WHITESPACE then skip_white (m(s := 0)) (s + 1) else Some (m, s))"

partial_function (option) word_end :: "mem \<Rightarrow> u32 \<Rightarrow> u32 option" where
  "word_end m s = (if is_plain (m s) then word_end m (s + 1) else Some s)"

text \<open>\<^verbatim>\<open>_gettoken\<close>: the code of the token, \<^verbatim>\<open>*p1\<close>, \<^verbatim>\<open>*p2\<close> and the memory.\<close>

definition raw_gettoken :: "mem \<Rightarrow> u32 \<Rightarrow> (u32 \<times> u32 \<times> u32 \<times> mem) option" where
  "raw_gettoken m s =
     (if s = 0 then Some (0, 0, 0, m)
      else do {
        (m, s) \<leftarrow> skip_white m s;
        if m s = 0 then Some (0, 0, 0, m)
        else if m s \<in> set SYMBOLS then Some (ucast (m s), s, s + 1, m(s := 0))
        else do { e \<leftarrow> word_end m s; Some (119, s, e, m) } })"

text \<open>The static variables of \<^verbatim>\<open>gettoken\<close> other than \<^verbatim>\<open>c\<close>, whose value never survives a call.\<close>

record tokstate =
  nc :: u32
  np1 :: u32
  np2 :: u32

text \<open>The two uses of \<^verbatim>\<open>gettoken\<close>: with a string it starts the scan, with NULL it returns the token scanned before and scans ahead.\<close>

definition gettoken_start :: "mem \<Rightarrow> u32 \<Rightarrow> (tokstate \<times> mem) option" where
  "gettoken_start m s = do {
     (c, p1, p2, m) \<leftarrow> raw_gettoken m s;
     Some (\<lparr>nc = c, np1 = p1, np2 = p2\<rparr>, m) }"

definition gettoken :: "mem \<Rightarrow> tokstate \<Rightarrow> (u32 \<times> u32 \<times> tokstate \<times> mem) option" where
  "gettoken m st = do {
     (c, p1, p2, m) \<leftarrow> raw_gettoken m (np2 st);
     Some (nc st, np1 st, \<lparr>nc = c, np1 = p1, np2 = p2\<rparr>, m) }"

text \<open>What the tokenizer is to compute: the words and symbols of a string.\<close>

datatype sh_token = Sym u8 | Word "u8 list"

function lex :: "u8 list \<Rightarrow> sh_token list" where
  "lex [] = []"
| "lex (c # cs) =
     (if c \<in> set WHITESPACE then lex cs
      else if is_plain c then Word (takeWhile is_plain (c # cs)) # lex (dropWhile is_plain cs)
      else Sym c # lex cs)"
  by pat_completeness auto
termination
  by (relation "measure length") (auto simp: less_Suc_eq_le length_dropWhile_le)

text \<open>The scan has just found the first of the tokens \<open>ts\<close>, and the rest of the line begins at \<open>np2\<close>.  A word is not yet terminated:
  in memory it runs into the rest of the line.\<close>

definition ahead :: "mem \<Rightarrow> u32 \<Rightarrow> u8 list \<Rightarrow> bool" where
  "ahead m s xs \<longleftrightarrow> s \<noteq> 0 \<and> cstr m s xs \<and> unat s + length xs < 2 ^ 32"

definition looking :: "mem \<Rightarrow> tokstate \<Rightarrow> sh_token list \<Rightarrow> bool" where
  "looking m st ts \<longleftrightarrow>
     (case ts of
        [] \<Rightarrow> nc st = 0 \<and> np2 st = 0
      | Sym c # ts \<Rightarrow> c \<in> set SYMBOLS \<and> nc st = ucast c \<and> (\<exists>rest. ahead m (np2 st) rest \<and> ts = lex rest)
      | Word w # ts \<Rightarrow> nc st = 119 \<and> w \<noteq> [] \<and> np2 st = np1 st + of_nat (length w) \<and>
          (\<exists>rest. ahead m (np1 st) (w @ rest) \<and> ts = lex rest \<and> (rest \<noteq> [] \<longrightarrow> \<not> is_plain (hd rest))))"

lemma cstr_append:
  "cstr m s (xs @ ys) \<Longrightarrow> cstr m (s + of_nat (length xs)) ys"
proof (induction xs arbitrary: s)
  case (Cons x xs)
  then have "cstr m (s + 1 + of_nat (length xs)) ys" by simp
  then show ?case by (simp add: add.assoc)
qed simp

lemma cstr_take:
  assumes "cstr m s (xs @ ys)" "\<And>i. i < length xs \<Longrightarrow> m' (s + of_nat i) = m (s + of_nat i)" "m' (s + of_nat (length xs)) = 0"
  shows "cstr m' s xs"
  using assms
proof (induction xs arbitrary: s)
  case (Cons x xs)
  have "cstr m' (s + 1) xs"
  proof (rule Cons.IH)
    show "m' (s + 1 + of_nat i) = m (s + 1 + of_nat i)" if "i < length xs" for i
      using Cons.prems(2) [of "Suc i"] that by (simp add: add.assoc)
  qed (use Cons.prems in \<open>simp_all add: add.assoc\<close>)
  then show ?case using Cons.prems(1) Cons.prems(2) [of 0] by simp
qed simp

lemma unat_plus_small: "unat (s :: u32) + n < 2 ^ 32 \<Longrightarrow> unat (s + of_nat n) = unat s + n"
  by (metis add_lessD1 add.commute unat_add_no_overflow unat_of_nat_u32)

lemma ahead_append:
  assumes "ahead m s (xs @ ys)" shows "ahead m (s + of_nat (length xs)) ys"
proof -
  have "unat (s + of_nat (length xs)) = unat s + length xs" using assms unat_plus_small [of s "length xs"] by (simp add: ahead_def)
  moreover have "s \<noteq> 0" using assms by (simp add: ahead_def)
  then have "unat s \<noteq> 0" by (simp add: unat_eq_0)
  ultimately show ?thesis using assms cstr_append [of m s xs ys] by (auto simp: ahead_def)
qed

lemma word_end_ok:
  assumes "cstr m s (w @ rest)" "\<forall>c \<in> set w. is_plain c" "rest \<noteq> [] \<longrightarrow> \<not> is_plain (hd rest)"
  shows "word_end m s = Some (s + of_nat (length w))"
  using assms
proof (induction w arbitrary: s)
  case Nil
  then show ?case by (cases rest) (auto simp: word_end.simps [of m s] is_plain_def)
next
  case (Cons c w)
  then show ?case by (auto simp: word_end.simps [of m s] algebra_simps)
qed


lemma not_white_0: "0 \<notin> set WHITESPACE"
  by (simp add: WHITESPACE_def)

lemma next_above: "unat s + Suc n < 2 ^ 32 \<Longrightarrow> unat (s + 1 :: u32) = Suc (unat s)"
  using unat_plus_small [of s 1] by simp

lemma next_apart:
  assumes "unat s + Suc n < 2 ^ 32" "i \<le> n" shows "(s :: u32) \<noteq> s + 1 + of_nat i"
proof
  assume "s = s + 1 + of_nat i"
  then have "unat s = unat (s + 1 + of_nat i)" by (rule arg_cong)
  also have "\<dots> = Suc (unat s) + i" using assms next_above [of s n] unat_plus_small [of "s + 1" i] by simp
  finally show False by simp
qed

lemma cstr_upd_below:
  assumes "cstr m (s + 1) xs" "unat s + Suc (length xs) < 2 ^ 32" shows "cstr (m(s := v)) (s + 1) xs"
proof (rule cstr_frame [OF assms(1)])
  fix i assume "i \<le> length xs"
  with next_apart [OF assms(2)] show "(m(s := v)) (s + 1 + of_nat i) = m (s + 1 + of_nat i)" by (metis fun_upd_other)
qed

lemma skip_white_ok:
  assumes "cstr m s xs" "unat s + length xs < 2 ^ 32"
  shows "\<exists>m'. skip_white m s = Some (m', s + of_nat (length (takeWhile (\<lambda>c. c \<in> set WHITESPACE) xs))) \<and>
    cstr m' (s + of_nat (length (takeWhile (\<lambda>c. c \<in> set WHITESPACE) xs))) (dropWhile (\<lambda>c. c \<in> set WHITESPACE) xs) \<and>
    (\<forall>a. unat a < unat s \<longrightarrow> m' a = m a) \<and> (xs \<noteq> [] \<longrightarrow> hd xs \<in> set WHITESPACE \<longrightarrow> m' s = 0)"
  using assms
proof (induction xs arbitrary: m s)
  case Nil
  then show ?case by (auto simp: skip_white.simps [of m s] not_white_0)
next
  case (Cons x xs)
  have up: "unat (s + 1) = Suc (unat s)" using Cons.prems(2) next_above [of s "length xs"] by simp
  show ?case
  proof (cases "x \<in> set WHITESPACE")
    case True
    have "cstr (m(s := 0)) (s + 1) xs" using Cons.prems by (intro cstr_upd_below) simp_all
    from Cons.IH [OF this] obtain m' where
      m': "skip_white (m(s := 0)) (s + 1) = Some (m', s + 1 + of_nat (length (takeWhile (\<lambda>c. c \<in> set WHITESPACE) xs)))"
        "cstr m' (s + 1 + of_nat (length (takeWhile (\<lambda>c. c \<in> set WHITESPACE) xs))) (dropWhile (\<lambda>c. c \<in> set WHITESPACE) xs)"
      and low: "\<And>a. unat a < unat (s + 1) \<Longrightarrow> m' a = (m(s := 0)) a"
      using up Cons.prems(2) by (metis add_Suc_shift length_Cons)
    have "m' s = 0" using low [of s] up by simp
    moreover have "m' a = m a" if "unat a < unat s" for a using low [of a] up that by auto
    moreover have "skip_white m s = skip_white (m(s := 0)) (s + 1)" using True Cons.prems(1) by (simp add: skip_white.simps [of m s])
    ultimately show ?thesis using m' True by (simp add: add.assoc)
  next
    case False
    with Cons.prems show ?thesis by (auto simp: skip_white.simps [of m s])
  qed
qed

lemma lex_skip: "lex (dropWhile (\<lambda>c. c \<in> set WHITESPACE) xs) = lex xs"
  by (induction xs) auto

lemma plain_cases: "c \<noteq> 0 \<Longrightarrow> c \<notin> set WHITESPACE \<Longrightarrow> is_plain c \<longleftrightarrow> c \<notin> set SYMBOLS"
  by (simp add: is_plain_def)

text \<open>One scan: it finds the first token of the string, writes nothing before the string, and terminates a word that ends where it starts.\<close>

lemma raw_gettoken_lex:
  assumes "ahead m s xs"
  shows "\<exists>c p1 p2 m'. raw_gettoken m s = Some (c, p1, p2, m') \<and> looking m' \<lparr>nc = c, np1 = p1, np2 = p2\<rparr> (lex xs) \<and>
    (\<forall>a. unat a < unat s \<longrightarrow> m' a = m a) \<and> (p2 = 0 \<or> unat s < unat p2) \<and>
    ((xs = [] \<or> \<not> is_plain (hd xs)) \<longrightarrow> m' s = 0)"
proof -
  let ?P = "\<lambda>c. c \<in> set WHITESPACE"
  define n where "n = length (takeWhile ?P xs)"
  define s' where "s' = s + of_nat n"
  define ys where "ys = dropWhile ?P xs"
  have a: "s \<noteq> 0" "cstr m s xs" "unat s + length xs < 2 ^ 32" using assms by (auto simp: ahead_def)
  from skip_white_ok [OF a(2,3)] obtain m1 where
    m1: "skip_white m s = Some (m1, s')" "cstr m1 s' ys" "\<forall>a. unat a < unat s \<longrightarrow> m1 a = m a"
      "xs \<noteq> [] \<longrightarrow> hd xs \<in> set WHITESPACE \<longrightarrow> m1 s = 0"
    unfolding n_def s'_def ys_def by blast
  have len: "n + length ys = length xs"
    unfolding n_def ys_def length_append [symmetric] takeWhile_dropWhile_id ..
  have u: "unat s' = unat s + n" unfolding s'_def using len a(3) by (intro unat_plus_small) simp
  have nz: "s' \<noteq> 0" using u a(1) by (metis add_is_0 unat_eq_0)
  have ah: "ahead m1 s' ys" using nz m1(2) u len a(3) by (simp add: ahead_def)
  have lx: "lex xs = lex ys" by (simp add: ys_def lex_skip)
  have first: "m1 s = 0" if "n \<noteq> 0" using that m1(4) by (cases xs) (auto simp: n_def split: if_splits)
  show ?thesis
  proof (cases ys)
    case Nil
    have "m1 s = 0"
    proof (cases "xs = []")
      case True
      then show ?thesis using m1(2) by (simp add: s'_def n_def ys_def)
    next
      case False
      then show ?thesis using first len Nil by simp
    qed
    moreover have "m1 s' = 0" using m1(2) Nil by simp
    ultimately show ?thesis using a(1) m1 nz Nil lx by (simp add: raw_gettoken_def looking_def)
  next
    case (Cons c cs)
    have c: "m1 s' = c" "c \<noteq> 0" "cstr m1 (s' + 1) cs" using m1(2) Cons by simp_all
    have nw: "c \<notin> set WHITESPACE" using hd_dropWhile [of ?P xs] Cons unfolding ys_def by (simp del: dropWhile_eq_Nil_conv)
    have up: "unat (s' + 1) = Suc (unat s')" using u len Cons a(3) by (intro next_above [of _ 0]) simp
    show ?thesis
    proof (cases "c \<in> set SYMBOLS")
      case True
      have "cstr (m1(s' := 0)) (s' + 1) cs" using c(3) u len Cons a(3) by (intro cstr_upd_below) simp_all
      moreover have "s' + 1 \<noteq> 0" using up by auto
      ultimately have "ahead (m1(s' := 0)) (s' + 1) cs" using up u len Cons a(3) by (simp add: ahead_def)
      moreover have "\<not> is_plain c" using True by (simp add: is_plain_def)
      moreover have "(m1(s' := 0)) s = 0" using first u len a(1) by (cases "n = 0") (auto simp: s'_def n_def)
      ultimately show ?thesis using True a(1) m1 c nw up u Cons lx
        by (auto simp: raw_gettoken_def looking_def)
    next
      case False
      then have pl: "is_plain c" using nw c(2) plain_cases by simp
      let ?w = "takeWhile is_plain ys" and ?r = "dropWhile is_plain ys"
      have w: "?w \<noteq> []" using pl Cons by simp
      have split: "ys = ?w @ ?r" by simp
      have nh: "?r \<noteq> [] \<longrightarrow> \<not> is_plain (hd ?r)" by (intro impI) (erule hd_dropWhile)
      have we: "word_end m1 s' = Some (s' + of_nat (length ?w))"
        by (rule word_end_ok [OF _ _ nh]) (use m1(2) in \<open>auto dest: set_takeWhileD\<close>)
      have ue: "unat (s' + of_nat (length ?w)) = unat s' + length ?w"
        using u len a(3) length_takeWhile_le [of is_plain ys] by (intro unat_plus_small) linarith
      have "lex ys = Word ?w # lex ?r" using Cons pl nw by simp
      moreover have "ahead m1 s' (?w @ ?r)" using ah by simp
      ultimately have "looking m1 \<lparr>nc = 119, np1 = s', np2 = s' + of_nat (length ?w)\<rparr> (lex ys)"
        using w nh unfolding looking_def by (auto simp del: dropWhile_eq_Nil_conv takeWhile_dropWhile_id takeWhile_eq_Nil_iff intro!: exI [of _ ?r])
      moreover have "m1 s = 0" if "xs = [] \<or> \<not> is_plain (hd xs)"
      proof (cases "n = 0")
        case True
        then have "xs = ys" by (metis append_Nil length_0_conv n_def takeWhile_dropWhile_id ys_def)
        then show ?thesis using that pl Cons by simp
      qed (use first in simp)
      moreover have "unat s < unat (s' + of_nat (length ?w))" using ue u w by (cases ?w) auto
      ultimately show ?thesis using a(1) m1 c we False lx by (auto simp: raw_gettoken_def)
    qed
  qed
qed


text \<open>A string that the scan has left behind: it lies below the place where the next scan starts.\<close>

definition stored :: "mem \<Rightarrow> tokstate \<Rightarrow> u32 \<Rightarrow> u8 list \<Rightarrow> bool" where
  "stored m st t w \<longleftrightarrow> t \<noteq> 0 \<and> cstr m t w \<and> unat t + length w < 2 ^ 32 \<and> (np2 st = 0 \<or> unat t + length w < unat (np2 st))"

lemma stored_keep:
  assumes "stored m st t w" "np2 st \<noteq> 0" "\<forall>a. unat a < unat (np2 st) \<longrightarrow> m' a = m a"
    and "np2 st' = 0 \<or> unat (np2 st) < unat (np2 st')"
  shows "stored m' st' t w"
proof -
  have s: "cstr m t w" "unat t + length w < unat (np2 st)" using assms(1,2) by (auto simp: stored_def)
  have "m' (t + of_nat i) = m (t + of_nat i)" if "i \<le> length w" for i
    using assms(3) s(2) that unat_plus_small [of t i] unat_less_2_32 [of "np2 st"] by simp
  from cstr_frame [OF s(1) this] show ?thesis using assms(1,4) s(2) by (auto simp: stored_def)
qed

text \<open>One call of \<open>gettoken\<close>: it returns the code of the token found before and scans ahead, strings returned earlier stay as they are, and
  a word is a terminated string from now on.\<close>

lemma gettoken_ok:
  assumes "looking m st ts"
  shows "\<exists>st' m'. gettoken m st = Some (nc st, np1 st, st', m') \<and> looking m' st' (tl ts) \<and>
    (\<forall>t w. stored m st t w \<longrightarrow> stored m' st' t w) \<and> (\<forall>w. ts \<noteq> [] \<longrightarrow> hd ts = Word w \<longrightarrow> stored m' st' (np1 st) w)"
proof (cases ts)
  case Nil
  then have "np2 st = 0" using assms by (simp add: looking_def)
  then show ?thesis using Nil by (simp add: gettoken_def raw_gettoken_def looking_def stored_def)
next
  case (Cons tok rest)
  obtain r where r: "ahead m (np2 st) r" "rest = lex r"
    and w: "\<And>w. tok = Word w \<Longrightarrow> w \<noteq> [] \<and> np2 st = np1 st + of_nat (length w) \<and> ahead m (np1 st) (w @ r) \<and> (r \<noteq> [] \<longrightarrow> \<not> is_plain (hd r))"
  proof (cases tok)
    case (Sym c)
    then show ?thesis using that assms Cons by (auto simp: looking_def)
  next
    case (Word w)
    then obtain r where "ahead m (np1 st) (w @ r)" "w \<noteq> []" "np2 st = np1 st + of_nat (length w)" "rest = lex r" "r \<noteq> [] \<longrightarrow> \<not> is_plain (hd r)"
      using assms Cons by (auto simp: looking_def)
    then show ?thesis using that [of r] ahead_append [of m "np1 st" w r] Word by simp
  qed
  from raw_gettoken_lex [OF r(1)] obtain c p1 p2 m' where
    g: "raw_gettoken m (np2 st) = Some (c, p1, p2, m')" "looking m' \<lparr>nc = c, np1 = p1, np2 = p2\<rparr> (lex r)"
      "\<forall>a. unat a < unat (np2 st) \<longrightarrow> m' a = m a" "p2 = 0 \<or> unat (np2 st) < unat p2"
      "(r = [] \<or> \<not> is_plain (hd r)) \<longrightarrow> m' (np2 st) = 0" by blast
  have nz: "np2 st \<noteq> 0" using r(1) by (simp add: ahead_def)
  let ?st = "\<lparr>nc = c, np1 = p1, np2 = p2\<rparr>"
  have keep: "stored m' ?st t w" if "stored m st t w" for t w
    by (rule stored_keep [OF that nz g(3)]) (use g(4) in simp)
  have "stored m' ?st (np1 st) w" if "tok = Word w" for w
  proof -
    note w = w [OF that]
    have len: "unat (np1 st) + length w + length r < 2 ^ 32" using w by (simp add: ahead_def)
    have up: "unat (np1 st + of_nat i) = unat (np1 st) + i" if "i \<le> length w" for i
      using that len by (intro unat_plus_small) simp
    have "cstr m' (np1 st) w"
    proof (rule cstr_take)
      show "cstr m (np1 st) (w @ r)" using w by (simp add: ahead_def)
      show "m' (np1 st + of_nat i) = m (np1 st + of_nat i)" if "i < length w" for i
        using g(3) up [of i] up [of "length w"] w that by simp
      show "m' (np1 st + of_nat (length w)) = 0" using g(5) w by auto
    qed
    moreover have "p2 = 0 \<or> unat (np1 st) + length w < unat p2" using g(4) up [of "length w"] w by auto
    ultimately show ?thesis using len w by (simp add: stored_def ahead_def)
  qed
  then show ?thesis using Cons g r keep by (simp add: gettoken_def)
qed

section \<open>The parser and the execution of a command\<close>

text \<open>The calls of the user library that the shell makes, on a world of type \<open>'w\<close> (the messages of \<^verbatim>\<open>debugf\<close> without their final newline).  Results are the register values; \<open>op_fork\<close> returns on the
  side of the process that is followed, and \<open>op_exit\<close> is what the world looks like when the process has ended.\<close>

record 'w sh_ops =
  op_open :: "u8 list \<Rightarrow> u32 \<Rightarrow> 'w \<Rightarrow> u32 \<times> 'w"
  op_dup :: "u32 \<Rightarrow> u32 \<Rightarrow> 'w \<Rightarrow> 'w"
  op_close :: "u32 \<Rightarrow> 'w \<Rightarrow> 'w"
  op_pipe :: "'w \<Rightarrow> u32 \<times> u32 \<times> u32 \<times> 'w"
  op_fork :: "'w \<Rightarrow> u32 \<times> 'w"
  op_spawn :: "u8 list \<Rightarrow> u8 list list \<Rightarrow> 'w \<Rightarrow> u32 \<times> 'w"
  op_close_all :: "'w \<Rightarrow> 'w"
  op_wait :: "u32 \<Rightarrow> 'w \<Rightarrow> 'w"
  op_debugf :: "string \<Rightarrow> u8 list \<Rightarrow> u32 list \<Rightarrow> 'w \<Rightarrow> 'w"
  op_exit :: "'w \<Rightarrow> 'w"

datatype ('a, 'w) run = Return 'a 'w | Exited 'w

definition MAXARGS :: nat where "MAXARGS = 128"

text \<open>The string at an address, as a callee that is given the pointer reads it.\<close>

partial_function (option) cstring :: "mem \<Rightarrow> u32 \<Rightarrow> u8 list option" where
  "cstring m s = (if m s = 0 then Some [] else do { xs \<leftarrow> cstring m (s + 1); Some (m s # xs) })"

definition die :: "'w sh_ops \<Rightarrow> string \<Rightarrow> 'w \<Rightarrow> 'w" where
  "die ops msg w = op_exit ops (op_debugf ops msg [] [] w)"

definition redirect :: "'w sh_ops \<Rightarrow> u8 list \<Rightarrow> u32 \<Rightarrow> u32 \<Rightarrow> 'w \<Rightarrow> 'w" where
  "redirect ops path mode to w = (let (fd, w) = op_open ops path mode w in op_close ops fd (op_dup ops fd to w))"

text \<open>\<^verbatim>\<open>parsecmd\<close>.  The result is the array, \<open>argc\<close> and the memory; \<^verbatim>\<open>rightpipe\<close> is passed on but never stored to.\<close>

partial_function (option) parsecmd ::
  "'w sh_ops \<Rightarrow> u32 list \<Rightarrow> nat \<Rightarrow> mem \<Rightarrow> tokstate \<Rightarrow> 'w \<Rightarrow> (u32 list \<times> nat \<times> mem, 'w) run option" where
  "parsecmd ops argv argc m st w = do {
     (c, t, st, m) \<leftarrow> gettoken m st;
     if c = 0 then Some (Return (argv, argc, m) w)
     else if c = 119 then
       (if argc \<ge> MAXARGS then Some (Exited (die ops ''too many arguments'' w))
        else parsecmd ops (argv[argc := t]) (argc + 1) m st w)
     else if c = 60 then do {
       (c, t, st, m) \<leftarrow> gettoken m st;
       if c \<noteq> 119 then Some (Exited (die ops ''syntax error: < not followed by word'' w))
       else do { path \<leftarrow> cstring m t; parsecmd ops argv argc m st (redirect ops path O_RDONLY 0 w) } }
     else if c = 62 then do {
       (c, t, st, m) \<leftarrow> gettoken m st;
       if c \<noteq> 119 then Some (Exited (die ops ''syntax error: > not followed by word'' w))
       else do { path \<leftarrow> cstring m t; parsecmd ops argv argc m st (redirect ops path O_WRONLY 1 w) } }
     else if c = 124 then
       (let (r, p0, p1, w) = op_pipe ops w
        in if sint r < 0 then Some (Return (argv, 0, m) (op_debugf ops ''Create pipe failed with %d'' [] [r] w))
           else
             (let (r, w) = op_fork ops w
              in if sint r < 0 then Some (Return (argv, 0, m) (op_debugf ops ''Fork failed with %d'' [] [r] w))
                 else if r = 0 then parsecmd ops argv 0 m st (op_close ops p1 (op_close ops p0 (op_dup ops p0 0 w)))
                 else Some (Return (argv, argc, m) (op_close ops p0 (op_close ops p1 (op_dup ops p1 1 w))))))
     else parsecmd ops argv argc m st w }"

text \<open>The strings that \<^verbatim>\<open>spawn\<close> finds in the array it is given; \<open>None\<close> when no NULL ends it.\<close>

fun arg_strings :: "mem \<Rightarrow> u32 list \<Rightarrow> u8 list list option" where
  "arg_strings m [] = None"
| "arg_strings m (p # ps) =
     (if p = 0 then Some [] else do { x \<leftarrow> cstring m p; xs \<leftarrow> arg_strings m ps; Some (x # xs) })"

text \<open>\<^verbatim>\<open>runcmd\<close> on the line at \<open>s\<close>, with the uninitialised contents of its array \<open>argv0\<close>.  Storing the terminating NULL past the end of the
  array is undefined behaviour: \<open>None\<close>.\<close>

definition runcmd :: "'w sh_ops \<Rightarrow> u32 list \<Rightarrow> mem \<Rightarrow> u32 \<Rightarrow> 'w \<Rightarrow> (unit, 'w) run option" where
  "runcmd ops argv0 m s w = do {
     (st, m) \<leftarrow> gettoken_start m s;
     r \<leftarrow> parsecmd ops argv0 0 m st w;
     case r of
       Exited w \<Rightarrow> Some (Exited w)
     | Return (argv, argc, m) w \<Rightarrow>
         (if argc = 0 then Some (Return () w)
          else if argc \<ge> length argv then None
          else do {
            let argv = argv[argc := 0];
            prog \<leftarrow> cstring m (argv ! 0);
            args \<leftarrow> arg_strings m argv;
            let (child, w) = op_spawn ops prog args w;
            let w = op_close_all ops w;
            let w = (if sint child \<ge> 0 then op_wait ops child w else op_debugf ops ''spawn %s: %d'' prog [child] w);
            Some (Exited (op_exit ops w)) }) }"

section \<open>What a command line means\<close>

text \<open>The meaning of a command as a list of tokens: words are collected, redirections are done on the spot, a pipe leaves the words so far to
  the parent and starts again in the child; the symbols \<open>&\<close>, \<open>;\<close>, \<open>(\<close> and \<open>)\<close> mean nothing.\<close>

fun cmd_spec :: "'w sh_ops \<Rightarrow> sh_token list \<Rightarrow> u8 list list \<Rightarrow> 'w \<Rightarrow> (u8 list list, 'w) run" where
  "cmd_spec ops [] ws w = Return ws w"
| "cmd_spec ops (Word x # ts) ws w =
     (if length ws \<ge> MAXARGS then Exited (die ops ''too many arguments'' w) else cmd_spec ops ts (ws @ [x]) w)"
| "cmd_spec ops (Sym c # ts) ws w =
     (if c = 60 then
        (case ts of
           Word x # ts \<Rightarrow> cmd_spec ops ts ws (redirect ops x O_RDONLY 0 w)
         | _ \<Rightarrow> Exited (die ops ''syntax error: < not followed by word'' w))
      else if c = 62 then
        (case ts of
           Word x # ts \<Rightarrow> cmd_spec ops ts ws (redirect ops x O_WRONLY 1 w)
         | _ \<Rightarrow> Exited (die ops ''syntax error: > not followed by word'' w))
      else if c = 124 then
        (let (r, p0, p1, w) = op_pipe ops w
         in if sint r < 0 then Return [] (op_debugf ops ''Create pipe failed with %d'' [] [r] w)
            else
              (let (r, w) = op_fork ops w
               in if sint r < 0 then Return [] (op_debugf ops ''Fork failed with %d'' [] [r] w)
                  else if r = 0 then cmd_spec ops ts [] (op_close ops p1 (op_close ops p0 (op_dup ops p0 0 w)))
                  else Return ws (op_close ops p0 (op_close ops p1 (op_dup ops p1 1 w)))))
      else cmd_spec ops ts ws w)"

definition runcmd_spec :: "'w sh_ops \<Rightarrow> sh_token list \<Rightarrow> 'w \<Rightarrow> (unit, 'w) run option" where
  "runcmd_spec ops ts w =
     (case cmd_spec ops ts [] w of
        Exited w \<Rightarrow> Some (Exited w)
      | Return ws w \<Rightarrow>
          (if ws = [] then Some (Return () w)
           else if length ws \<ge> MAXARGS then None
           else
             (let (child, w) = op_spawn ops (hd ws) ws w;
                  w = op_close_all ops w
              in Some (Exited (op_exit ops
                   (if sint child \<ge> 0 then op_wait ops child w else op_debugf ops ''spawn %s: %d'' (hd ws) [child] w))))))"

lemma cstring_cstr: "cstr m s xs \<Longrightarrow> cstring m s = Some xs"
  by (induction m s xs rule: cstr.induct) (auto simp: cstring.simps)

text \<open>The first \<open>length ws\<close> entries of the array point to the words \<open>ws\<close>, which later scans leave alone.\<close>

definition args_ok :: "mem \<Rightarrow> tokstate \<Rightarrow> u32 list \<Rightarrow> u8 list list \<Rightarrow> bool" where
  "args_ok m st argv ws \<longleftrightarrow> length argv = MAXARGS \<and> length ws \<le> MAXARGS \<and> (\<forall>i < length ws. stored m st (argv ! i) (ws ! i))"

definition args_at :: "mem \<Rightarrow> u32 list \<Rightarrow> u8 list list \<Rightarrow> bool" where
  "args_at m argv ws \<longleftrightarrow> length argv = MAXARGS \<and> length ws \<le> MAXARGS \<and> (\<forall>i < length ws. argv ! i \<noteq> 0 \<and> cstr m (argv ! i) (ws ! i))"

lemma args_ok_at: "args_ok m st argv ws \<Longrightarrow> args_at m argv ws"
  by (simp add: args_ok_def args_at_def stored_def)

definition parsed :: "(u32 list \<times> nat \<times> mem, 'w) run option \<Rightarrow> (u8 list list, 'w) run \<Rightarrow> bool" where
  "parsed r spec \<longleftrightarrow>
     (case spec of
        Exited w \<Rightarrow> r = Some (Exited w)
      | Return ws w \<Rightarrow> (\<exists>argv m. r = Some (Return (argv, length ws, m) w) \<and> args_at m argv ws))"


lemma args_ok_mono:
  "args_ok m st argv ws \<Longrightarrow> (\<And>t w. stored m st t w \<Longrightarrow> stored m' st' t w) \<Longrightarrow> args_ok m' st' argv ws"
  by (simp add: args_ok_def)

lemma args_ok_snoc:
  assumes "args_ok m st argv ws" "length ws < MAXARGS" "stored m st t x"
  shows "args_ok m st (argv[length ws := t]) (ws @ [x])"
  using assms by (auto simp: args_ok_def nth_append nth_list_update less_Suc_eq)

lemma args_ok_Nil: "args_ok m st argv ws \<Longrightarrow> args_ok m st argv []"
  by (simp add: args_ok_def)

lemma sym_not_word: "c \<in> set SYMBOLS \<Longrightarrow> (ucast c :: u32) \<noteq> 119 \<and> (ucast c :: u32) \<noteq> 0"
  by (auto simp: SYMBOLS_def)

lemma sym_code: "c \<in> set SYMBOLS \<Longrightarrow> ((ucast c :: u32) = 60 \<longleftrightarrow> c = 60) \<and> ((ucast c :: u32) = 62 \<longleftrightarrow> c = 62) \<and> ((ucast c :: u32) = 124 \<longleftrightarrow> c = 124)"
  by (auto simp: SYMBOLS_def)

lemma looking_code:
  "looking m st [] \<Longrightarrow> nc st = 0"
  "looking m st (Word x # ts) \<Longrightarrow> nc st = 119"
  "looking m st (Sym c # ts) \<Longrightarrow> c \<in> set SYMBOLS \<and> nc st = ucast c"
  by (simp_all add: looking_def)

text \<open>The second call of \<open>gettoken\<close> in a redirection.\<close>

lemma redirect_token:
  assumes "looking m st ts"
  shows "(case ts of
      Word x # ts' \<Rightarrow> \<exists>t st' m'. gettoken m st = Some (119, t, st', m') \<and> looking m' st' ts' \<and> cstring m' t = Some x \<and>
        (\<forall>t w. stored m st t w \<longrightarrow> stored m' st' t w)
    | _ \<Rightarrow> \<exists>c t st' m'. gettoken m st = Some (c, t, st', m') \<and> c \<noteq> 119)"
proof -
  from gettoken_ok [OF assms] obtain st' m' where g: "gettoken m st = Some (nc st, np1 st, st', m')" "looking m' st' (tl ts)"
    "\<forall>t w. stored m st t w \<longrightarrow> stored m' st' t w" "\<forall>w. ts \<noteq> [] \<longrightarrow> hd ts = Word w \<longrightarrow> stored m' st' (np1 st) w" by blast
  show ?thesis
  proof (cases ts)
    case Nil
    then show ?thesis using g looking_code(1) [of m st] assms by simp
  next
    case (Cons a ts')
    then show ?thesis using g looking_code(2,3) [of m st] assms sym_not_word
      by (cases a) (auto simp: stored_def cstring_cstr)
  qed
qed

lemma redirect_parsed:
  assumes "looking m st ts" "args_ok m st argv ws"
    and "\<And>tok ts' x argv m st. ts = tok # ts' \<Longrightarrow> tok = Word x \<Longrightarrow> looking m st ts' \<Longrightarrow> args_ok m st argv ws \<Longrightarrow> parsed (k argv m st x) (spec x ts')"
  shows "parsed (do { (c, t, st, m) \<leftarrow> gettoken m st; if c \<noteq> 119 then Some (Exited e) else do { path \<leftarrow> cstring m t; k argv m st path } })
    (case ts of Word x # ts' \<Rightarrow> spec x ts' | _ \<Rightarrow> Exited e)"
proof (cases "\<exists>x ts'. ts = Word x # ts'")
  case True
  then obtain x ts' where ts: "ts = Word x # ts'" by blast
  from redirect_token [OF assms(1)] ts obtain t st2 m2 where
    t: "gettoken m st = Some (119, t, st2, m2)" "looking m2 st2 ts'" "cstring m2 t = Some x"
      "\<forall>t w. stored m st t w \<longrightarrow> stored m2 st2 t w" by auto
  have a2: "args_ok m2 st2 argv ws" by (rule args_ok_mono [OF assms(2)]) (use t(4) in blast)
  from assms(3) [OF ts refl t(2) a2] show ?thesis using ts t by simp
next
  case False
  then obtain c' t st2 m2 where "gettoken m st = Some (c', t, st2, m2)" "c' \<noteq> 119"
    using redirect_token [OF assms(1)] by (auto split: list.splits sh_token.splits)
  then show ?thesis using False by (auto simp: parsed_def split: list.splits sh_token.splits)
qed

text \<open>Reading the finished array back.\<close>

lemma arg_strings_prefix:
  assumes "\<forall>i < length ws. ps ! i \<noteq> 0 \<and> cstr m (ps ! i) (ws ! i)" "length ws < length ps" "ps ! length ws = 0"
  shows "arg_strings m ps = Some ws"
  using assms
proof (induction ws arbitrary: ps)
  case Nil
  then show ?case by (cases ps) auto
next
  case (Cons x ws)
  then obtain p ps' where ps: "ps = p # ps'" by (cases ps) auto
  have "arg_strings m ps' = Some ws" using Cons.prems ps by (intro Cons.IH) auto
  moreover have "p \<noteq> 0" "cstring m p = Some x" using Cons.prems(1) [rule_format, of 0] ps by (auto intro: cstring_cstr)
  ultimately show ?case using ps by simp
qed

lemma args_at_read:
  assumes "args_at m argv ws" "ws \<noteq> []" "length ws < MAXARGS"
  shows "cstring m (argv[length ws := 0] ! 0) = Some (hd ws)" "arg_strings m (argv[length ws := 0]) = Some ws"
proof -
  have a: "\<forall>i < length ws. argv ! i \<noteq> 0 \<and> cstr m (argv ! i) (ws ! i)" "length argv = MAXARGS" using assms(1) by (auto simp: args_at_def)
  show "cstring m (argv[length ws := 0] ! 0) = Some (hd ws)" using a(1) [rule_format, of 0] assms(2) by (simp add: cstring_cstr hd_conv_nth)
  show "arg_strings m (argv[length ws := 0]) = Some ws" using a assms(3) by (intro arg_strings_prefix) auto
qed

lemma parsecmd_ok:
  "looking m st ts \<Longrightarrow> args_ok m st argv ws \<Longrightarrow> parsed (parsecmd ops argv (length ws) m st w) (cmd_spec ops ts ws w)"
proof (induction ops ts ws w arbitrary: argv m st rule: cmd_spec.induct)
  case (1 ops ws w)
  from gettoken_ok [OF 1(1)] looking_code(1) [OF 1(1)] obtain st' m' where
    g: "gettoken m st = Some (0, np1 st, st', m')" "\<forall>t w. stored m st t w \<longrightarrow> stored m' st' t w" by auto
  have "args_ok m' st' argv ws" by (rule args_ok_mono [OF 1(2)]) (use g(2) in blast)
  then show ?case using g by (auto simp: parsed_def parsecmd.simps [of ops argv] dest: args_ok_at)
next
  case (2 ops x ts ws w)
  from gettoken_ok [OF 2(2)] looking_code(2) [OF 2(2)] obtain st' m' where
    g: "gettoken m st = Some (119, np1 st, st', m')" "looking m' st' ts" "\<forall>t w. stored m st t w \<longrightarrow> stored m' st' t w"
      "stored m' st' (np1 st) x" by auto
  have a: "args_ok m' st' argv ws" by (rule args_ok_mono [OF 2(3)]) (use g(3) in blast)
  show ?case
  proof (cases "length ws < MAXARGS")
    case True
    from 2(1) [OF _ g(2) args_ok_snoc [OF a True g(4)]] True show ?thesis
      by (simp add: parsecmd.simps [of ops argv] g(1))
  next
    case False
    then show ?thesis by (simp add: parsecmd.simps [of ops argv] g(1) parsed_def)
  qed
next
  case (3 ops c ts ws w)
  from gettoken_ok [OF "3.prems"(1)] looking_code(3) [OF "3.prems"(1)] obtain st' m' where
    g: "gettoken m st = Some (ucast c, np1 st, st', m')" "looking m' st' ts" "\<forall>t w. stored m st t w \<longrightarrow> stored m' st' t w"
    and c: "c \<in> set SYMBOLS" by auto
  have a: "args_ok m' st' argv ws" by (rule args_ok_mono [OF "3.prems"(2)]) (use g(3) in blast)
  note codes = sym_not_word [OF c] sym_code [OF c]
  note unfold = parsecmd.simps [of ops argv _ m st] g(1)
  consider (less) "c = 60" | (greater) "c = 62" | (bar) "c = 124" | (other) "c \<noteq> 60" "c \<noteq> 62" "c \<noteq> 124" by blast
  then show ?case
  proof cases
    case less
    show ?thesis by (simp add: unfold less) (rule redirect_parsed [OF g(2) a], rule "3.IH"(1) [OF less], assumption+)
  next
    case greater
    then have n: "c \<noteq> 60" by simp
    show ?thesis by (simp add: unfold greater) (rule redirect_parsed [OF g(2) a], rule "3.IH"(2) [OF n greater], assumption+)
  next
    case bar
    then have n: "c \<noteq> 60" "c \<noteq> 62" by simp_all
    obtain r p0 p1 w1 where p: "op_pipe ops w = (r, p0, p1, w1)" by (metis prod_cases4)
    obtain q w2 where f: "op_fork ops w1 = (q, w2)" by fastforce
    have at: "args_at m' argv ws" "args_at m' argv []" using args_ok_at a args_ok_Nil by blast+
    show ?thesis
    proof (cases "sint r < 0 \<or> q \<noteq> 0")
      case True
      then show ?thesis using bar p f at by (auto simp: unfold parsed_def)
    next
      case False
      with "3.IH"(3) [OF n bar p [symmetric] refl refl refl _ f [symmetric] refl _ _ g(2) args_ok_Nil [OF a]] show ?thesis
        using bar p f by (simp add: unfold)
    qed
  next
    case other
    from "3.IH"(4) [OF other g(2) a] show ?thesis using other codes by (simp add: unfold)
  qed
qed



text \<open>A run of \<^verbatim>\<open>ls<i|w\<close> in the parent, with library calls that record what they are asked to do.\<close>

datatype sh_event = Open "u8 list" u32 | Dup u32 u32 | Close u32 | Spawn "u8 list" "u8 list list" | CloseAll | Wait u32 | Exit

definition sh_demo_ops :: "sh_event list sh_ops" where
  "sh_demo_ops = \<lparr>op_open = \<lambda>p mode w. (3, w @ [Open p mode]), op_dup = \<lambda>a b w. w @ [Dup a b], op_close = \<lambda>a w. w @ [Close a],
     op_pipe = \<lambda>w. (0, 4, 5, w), op_fork = \<lambda>w. (9, w), op_spawn = \<lambda>p args w. (11, w @ [Spawn p args]),
     op_close_all = \<lambda>w. w @ [CloseAll], op_wait = \<lambda>a w. w @ [Wait a], op_debugf = \<lambda>_ _ _ w. w, op_exit = \<lambda>w. w @ [Exit]\<rparr>"

definition sh_demo_mem :: mem where
  "sh_demo_mem = (\<lambda>_. 0)(0x1000 := 108, 0x1001 := 115, 0x1002 := 60, 0x1003 := 105, 0x1004 := 124, 0x1005 := 119)"


section \<open>Reading a line\<close>

text \<open>The buffer of \<^verbatim>\<open>readline\<close> by index, with index \<open>-1\<close> the byte before the buffer, which the code looks at.  The input is what the successive
  calls of \<open>read(0, _, 1)\<close> return and store, and 0 after that; the output collects what is printed for a backspace.\<close>

datatype line_result = Line "int \<Rightarrow> u8" "(u32 \<times> u8) list" "u8 list" | EndOfInput "u8 list"

fun drain :: "(int \<Rightarrow> u8) \<Rightarrow> (u32 \<times> u8) list \<Rightarrow> (int \<Rightarrow> u8) \<times> (u32 \<times> u8) list" where
  "drain b [] = (b, [])"
| "drain b ((r, c) # inp) =
     (if r \<noteq> 1 then (b, inp)
      else let b = b(0 := c) in if b 0 \<noteq> 13 \<and> b 0 \<noteq> 10 then drain b inp else (b, inp))"

definition step_back :: "int \<Rightarrow> int" where
  "step_back i = (if i > 0 then i - 2 else -1)"

fun readline_loop :: "nat \<Rightarrow> int \<Rightarrow> (int \<Rightarrow> u8) \<Rightarrow> (u32 \<times> u8) list \<Rightarrow> u8 list \<Rightarrow> line_result" where
  "readline_loop n i b inp out =
     (if i \<ge> int n then (let (b, inp) = drain b inp in Line (b(0 := 0)) inp out)
      else
        (case inp of
           [] \<Rightarrow> EndOfInput out
         | (r, c) # inp \<Rightarrow>
             (if r \<noteq> 1 then EndOfInput out
              else
                (let b = b(i := c);
                     bs = (b i = 8 \<or> b i = 0x7f);
                     i = (if bs then step_back i else i);
                     out = (if bs \<and> b i \<noteq> 8 then out @ [8] else out)
                 in if b i = 13 \<or> b i = 10 then Line (b(i := 0)) inp out
                    else readline_loop n (i + 1) b inp out))))"

declare readline_loop.simps [simp del]

definition readline :: "nat \<Rightarrow> (int \<Rightarrow> u8) \<Rightarrow> (u32 \<times> u8) list \<Rightarrow> u8 list \<Rightarrow> line_result" where
  "readline n b inp out = readline_loop n 0 b inp out"

text \<open>The line editor it implements: a backspace takes back the last character, a line end finishes the line, and a line that does not fit
  is thrown away up to its end.\<close>

fun rest_of_line :: "(u32 \<times> u8) list \<Rightarrow> (u32 \<times> u8) list" where
  "rest_of_line [] = []"
| "rest_of_line ((r, c) # inp) = (if r \<noteq> 1 \<or> c = 13 \<or> c = 10 then inp else rest_of_line inp)"

fun edit_line :: "nat \<Rightarrow> u8 list \<Rightarrow> (u32 \<times> u8) list \<Rightarrow> (u8 list \<times> (u32 \<times> u8) list) option" where
  "edit_line n acc inp =
     (if length acc \<ge> n then Some ([], rest_of_line inp)
      else
        (case inp of
           [] \<Rightarrow> None
         | (r, c) # inp \<Rightarrow>
             (if r \<noteq> 1 then None
              else if c = 8 \<or> c = 0x7f then edit_line n (butlast acc) inp
              else if c = 13 \<or> c = 10 then Some (acc, inp)
              else edit_line n (acc @ [c]) inp)))"

declare edit_line.simps [simp del]

definition in_buf :: "(int \<Rightarrow> u8) \<Rightarrow> u8 list \<Rightarrow> bool" where
  "in_buf b xs \<longleftrightarrow> (\<forall>i < length xs. b (int i) = xs ! i)"

lemma drain_rest: "snd (drain b inp) = rest_of_line inp"
  by (induction inp arbitrary: b) (auto simp: Let_def)

lemma in_buf_snoc: "in_buf b xs \<Longrightarrow> in_buf (b(int (length xs) := c)) (xs @ [c])"
  by (auto simp: in_buf_def nth_append less_Suc_eq)

lemma in_buf_butlast: "in_buf b xs \<Longrightarrow> in_buf (b(int (length xs) := c)) (butlast xs)"
  by (auto simp: in_buf_def nth_butlast)

lemma in_buf_keep: "in_buf b xs \<Longrightarrow> in_buf (b(int (length xs) := c)) xs"
  by (auto simp: in_buf_def)

lemma readline_loop_edit:
  assumes "in_buf b acc" "b (-1) \<notin> {10, 13}" "set acc \<inter> {8, 10, 13} = {}" "0 < n"
  shows "case edit_line n acc inp of
      None \<Rightarrow> \<exists>out'. readline_loop n (int (length acc)) b inp out = EndOfInput out'
    | Some (line, rest) \<Rightarrow> \<exists>b' out'. readline_loop n (int (length acc)) b inp out = Line b' rest out' \<and>
        in_buf b' line \<and> b' (int (length line)) = 0"
  using assms
proof (induction inp arbitrary: acc b out)
  case Nil
  then show ?case
    by (auto simp: edit_line.simps [of n acc] readline_loop.simps [of n _ b] in_buf_def)
next
  case (Cons rc inp)
  obtain r c where rc: "rc = (r, c)" by fastforce
  show ?case
  proof (cases "length acc \<ge> n \<or> r \<noteq> 1")
    case True
    then show ?thesis using Cons.prems drain_rest [of b "rc # inp"] rc
      by (cases "drain b (rc # inp)") (auto simp: edit_line.simps [of n acc] readline_loop.simps [of n _ b] in_buf_def)
  next
    case False
    let ?b = "b(int (length acc) := c)"
    consider (erase) "c = 8 \<or> c = 0x7f" | (fin) "c = 13 \<or> c = 10" | (char) "c \<noteq> 8" "c \<noteq> 0x7f" "c \<noteq> 13" "c \<noteq> 10" by blast
    then show ?thesis
    proof cases
      case erase
      define i where "i = step_back (int (length acc))"
      have i: "i + 1 = int (length (butlast acc))" by (cases acc) (auto simp: i_def step_back_def)
      have bi: "?b i \<noteq> 13 \<and> ?b i \<noteq> 10"
      proof (cases "length acc \<ge> 2")
        case True
        then have il: "i = int (length acc - 2)" "length acc - 2 < length acc" by (auto simp: i_def step_back_def of_nat_diff)
        then have "?b i = acc ! (length acc - 2)" using Cons.prems(1) unfolding in_buf_def il by auto
        moreover have "acc ! (length acc - 2) \<in> set acc" using True by simp
        ultimately show ?thesis using Cons.prems(3) by auto
      next
        case False
        then have "i = -1" by (cases acc) (auto simp: i_def step_back_def not_less_eq_eq)
        then show ?thesis using Cons.prems(2) by simp
      qed
      have "set (butlast acc) \<inter> {8, 10, 13} = {}" using Cons.prems(3) by (auto dest: in_set_butlastD)
      moreover have "?b (-1) \<notin> {10, 13}" using Cons.prems(2) by simp
      moreover have "edit_line n acc (rc # inp) = edit_line n (butlast acc) inp"
        using False rc erase by (simp add: edit_line.simps [of n acc])
      moreover have "readline_loop n (int (length acc)) b (rc # inp) out =
          readline_loop n (int (length (butlast acc))) ?b inp (if ?b i \<noteq> 8 then out @ [8] else out)"
        unfolding i [symmetric] using False rc erase bi
        by (auto simp: readline_loop.simps [of n _ b] Let_def simp flip: i_def split: if_splits)
      ultimately show ?thesis using Cons.IH [OF in_buf_butlast [OF Cons.prems(1), of c] _ _ Cons.prems(4)] by presburger
    next
      case fin
      then show ?thesis using Cons.prems False rc in_buf_keep
        by (auto simp: edit_line.simps [of n acc] readline_loop.simps [of n _ b])
    next
      case char
      have "set (acc @ [c]) \<inter> {8, 10, 13} = {}" "?b (-1) \<notin> {10, 13}" using Cons.prems(2,3) char by auto
      moreover have "edit_line n acc (rc # inp) = edit_line n (acc @ [c]) inp"
        using False rc char by (simp add: edit_line.simps [of n acc])
      moreover have "readline_loop n (int (length acc)) b (rc # inp) out = readline_loop n (int (length (acc @ [c]))) ?b inp out"
        using False rc char by (simp add: readline_loop.simps [of n _ b] Let_def add.commute)
      ultimately show ?thesis using Cons.IH [OF in_buf_snoc [OF Cons.prems(1), of c] _ _ Cons.prems(4)] by presburger
    qed
  qed
qed

text \<open>Property C32. \<^verbatim>\<open>readline\<close> is a line editor: with a buffer of \<open>n > 0\<close> bytes and when the byte in memory before the buffer is no line end, it
  leaves in the buffer the NUL-terminated line that \<open>edit_line\<close> computes from the input, including any number of backspaces, also at the
  beginning of the line, and the empty line for one that is too long; it consumes exactly the input of that line, and ends the shell only
  when the input ends or fails first.\<close>

theorem readline_correct:
  assumes "0 < n" "b (-1) \<noteq> 10" "b (-1) \<noteq> 13"
  shows "case edit_line n [] inp of
      None \<Rightarrow> \<exists>out'. readline n b inp out = EndOfInput out'
    | Some (line, rest) \<Rightarrow> \<exists>b' out'. readline n b inp out = Line b' rest out' \<and> in_buf b' line \<and> b' (int (length line)) = 0"
  using readline_loop_edit [of b "[]" n inp out, unfolded list.size int_ops(1)] assms unfolding readline_def
  by (simp add: in_buf_def)


theorem readline_correct_witness:
  "\<exists>b' out'. readline 8 (\<lambda>_. 0) [(1, 8), (1, 97), (1, 98), (1, 0x7f), (1, 99), (1, 13), (1, 100)] [] = Line b' [(1, 100)] out' \<and>
     in_buf b' [97, 99] \<and> b' 2 = 0"
  using readline_correct [of 8 "\<lambda>_. 0" "[(1, 8), (1, 97), (1, 98), (1, 0x7f), (1, 99), (1, 13), (1, 100)]" "[]"]
  by (simp add: edit_line.simps)
end
