(* ===== verification/Mos_View.thy ===== *)
theory Mos_View
  imports Mos_Fd
begin


text \<open>
  The memory as the running program sees it.  As long as the program only loads and stores, its page table stays the same, and the state
  differs from the initial one in the contents of memory alone; \<open>memupd s m\<close> is the state \<open>s\<close> with memory \<open>m\<close>.
\<close>

section \<open>Loads and stores\<close>

definition memupd :: "kstate \<Rightarrow> mem \<Rightarrow> kstate" where
  "memupd s m = s\<lparr>pm := (pm s)\<lparr>mem := m\<rparr>\<rparr>"

definition upa :: "kstate \<Rightarrow> (nat \<Rightarrow> nat) \<Rightarrow> nat \<Rightarrow> u32 \<Rightarrow> u32" where
  "upa s dp c va = page2pa (the (maps (pm s) (dp ` live s) (key (dp c) va))) + of_nat (unat va mod 4096)"

definition ucan :: "kstate \<Rightarrow> (nat \<Rightarrow> nat) \<Rightarrow> nat \<Rightarrow> u32 \<Rightarrow> u32 \<Rightarrow> bool" where
  "ucan s dp c f va \<longleftrightarrow> maps (pm s) (dp ` live s) (key (dp c) va) \<noteq> None \<and> has (ptes (pm s) (dp ` live s) (key (dp c) va)) f"

definition uview :: "kstate \<Rightarrow> (nat \<Rightarrow> nat) \<Rightarrow> nat set \<Rightarrow> (nat \<Rightarrow> nat) \<Rightarrow> nat \<Rightarrow> mem \<Rightarrow> bool" where
  "uview s dp L X c m \<longleftrightarrow> kinv (memupd s m) dp L X c \<and> ptes (pm (memupd s m)) (dp ` live s) = ptes (pm s) (dp ` live s)"

lemma memupd_simps [simp]: "pm (memupd s m) = (pm s)\<lparr>mem := m\<rparr>" "live (memupd s m) = live s" "memupd (memupd s m) m' = memupd s m'"
  "memupd s (mem (pm s)) = s" "cur_pgdir (memupd s m) = cur_pgdir s" "curenv (memupd s m) = curenv s"
  by (simp_all add: memupd_def live_def)

lemma uview_init: "kinv s dp L X c \<Longrightarrow> uview s dp L X c (mem (pm s))"
  by (simp add: uview_def)

lemma uview_maps: "uview s dp L X c m \<Longrightarrow> maps ((pm s)\<lparr>mem := m\<rparr>) (dp ` live s) = maps (pm s) (dp ` live s)"
  by (rule maps_npage) (simp_all add: uview_def)

lemma uview_inv:
  assumes "uview s dp L X c m"
  shows "vm_inv ((pm s)\<lparr>mem := m\<rparr>) (dp ` live s) L X" "cur_pgdir s = page2pa (dp c)"
    "ptes ((pm s)\<lparr>mem := m\<rparr>) (dp ` live s) = ptes (pm s) (dp ` live s)"
proof -
  have kv: "kinv (memupd s m) dp L X c" using assms by (simp add: uview_def)
  have "c \<in> live (memupd s m)" using kv by (simp add: kinv_def)
  from kinv_env(1,7) [OF kv this] show "vm_inv ((pm s)\<lparr>mem := m\<rparr>) (dp ` live s) L X" "cur_pgdir s = page2pa (dp c)" by simp_all
  show "ptes ((pm s)\<lparr>mem := m\<rparr>) (dp ` live s) = ptes (pm s) (dp ` live s)" using assms by (simp add: uview_def)
qed

lemma uview_pa:
  assumes v: "uview s dp L X c m" and f: "ucan s dp c f va"
  shows "uva_pa ((pm s)\<lparr>mem := m\<rparr>) (cur_pgdir s) f va = Some (upa s dp c va)"
proof -
  note i = uview_inv [OF v]
  obtain p where "maps (pm s) (dp ` live s) (key (dp c) va) = Some p" using f by (auto simp: ucan_def)
  then show ?thesis using uva_pa_mapped [OF vm_inv_cases(1) [OF i(1)], of "dp c" va p f] uview_maps [OF v] i(2,3) f
    by (simp add: ucan_def upa_def)
qed

lemma kload8_view:
  assumes "uview s dp L X c m" "ucan s dp c PTE_R va"
  shows "kload8 va (memupd s m) = Some (m (upa s dp c va), memupd s m)"
  using uview_pa [OF assms] by (simp add: kload8_def)

lemma kstore8_view:
  assumes v: "uview s dp L X c m" and f: "ucan s dp c PTE_W va"
  shows "kstore8 va b (memupd s m) = Some (memupd s (m(upa s dp c va := b)))" "uview s dp L X c (m(upa s dp c va := b))"
proof -
  show "kstore8 va b (memupd s m) = Some (memupd s (m(upa s dp c va := b)))"
    using uview_pa [OF assms] by (simp add: kstore8_def) (simp add: memupd_def)
  obtain p where p: "maps ((pm s)\<lparr>mem := m\<rparr>) (dp ` live s) (key (dp c) va) = Some p" using f uview_maps [OF v] by (auto simp: ucan_def)
  have pa: "upa s dp c va = page2pa p + of_nat (unat va mod 4096)" using p uview_maps [OF v] by (simp add: upa_def)
  have o: "unat va mod 4096 < 4096" by simp
  note w = data_write_inv [OF uview_inv(1) [OF v] p o, of b]
  have "kinv (memupd s m) dp L X c" using v by (simp add: uview_def)
  from kinv_pm [OF this, of "(pm s)\<lparr>mem := m(upa s dp c va := b)\<rparr>"] w(1)
  have "kinv (memupd s (m(upa s dp c va := b))) dp L X c" by (simp add: pa) (simp add: memupd_def)
  then show "uview s dp L X c (m(upa s dp c va := b))"
    using w(2) uview_inv(3) [OF v] by (simp add: uview_def pa)
qed

section \<open>Words and blocks of bytes\<close>

lemma in_page_offset:
  assumes "unat va mod 4096 + i < 4096"
  shows "key d (va + of_nat i) = key d va" "upa s dp c (va + of_nat i) = upa s dp c va + of_nat i" "ucan s dp c f (va + of_nat i) = ucan s dp c f va"
    "unat (va + of_nat i) mod 4096 = unat va mod 4096 + i"
proof -
  note d = offset_in_page [OF assms]
  show k: "key d (va + of_nat i) = key d va" for d by (rule d(1))
  then show "upa s dp c (va + of_nat i) = upa s dp c va + of_nat i" "ucan s dp c f (va + of_nat i) = ucan s dp c f va"
    by (simp_all add: upa_def ucan_def d(2))
  show "unat (va + of_nat i) mod 4096 = unat va mod 4096 + i" by (rule d(2))
qed

lemma uget_view:
  assumes v: "uview s dp L X c m" and f: "ucan s dp c PTE_R va" and p: "unat va mod 4096 + 4 \<le> 4096"
  shows "uget va (memupd s m) = Some (ld32 m (upa s dp c va), memupd s m)"
proof -
  obtain x where x: "maps (pm s) (dp ` live s) (key (dp c) va) = Some x" using f by (auto simp: ucan_def)
  have "kloads va 4 (memupd s m) = Some (map (\<lambda>i. m (upa s dp c va + of_nat i)) [0..<4], memupd s m)"
    using kloads_run [of "memupd s m" "dp ` live s" "dp c" va x 4] vm_inv_cases(1) [OF uview_inv(1) [OF v]] uview_inv(2,3) [OF v] uview_maps [OF v] x f p
    by (simp add: ucan_def upa_def)
  then show ?thesis by (simp add: uget_def word_at_def ld32_def upt_rec)
qed

lemma st32_bytes: "put_bytes m a (bytes32 v) = st32 m a v"
  by (simp add: bytes32_def st32_def add.commute)

lemma uput_view:
  assumes v: "uview s dp L X c m" and f: "ucan s dp c PTE_W va" and p: "unat va mod 4096 + 4 \<le> 4096"
  shows "uput va w (memupd s m) = Some (memupd s (st32 m (upa s dp c va) w))" "uview s dp L X c (st32 m (upa s dp c va) w)"
proof -
  obtain x where x: "maps (pm s) (dp ` live s) (key (dp c) va) = Some x" using f by (auto simp: ucan_def)
  have l: "length (bytes32 w) = 4" by (simp add: bytes32_def)
  note k = kstores_run [of "memupd s m" "dp ` live s" L X "dp c" va x "bytes32 w"]
  have k: "kstores va (bytes32 w) (memupd s m) = Some ((memupd s m)\<lparr>pm := (pm s)\<lparr>mem := st32 m (upa s dp c va) w\<rparr>\<rparr>)"
    "vm_inv ((pm s)\<lparr>mem := st32 m (upa s dp c va) w\<rparr>) (dp ` live s) L X"
    "ptes ((pm s)\<lparr>mem := st32 m (upa s dp c va) w\<rparr>) (dp ` live s) = ptes (pm s) (dp ` live s)"
    using k uview_inv [OF v] uview_maps [OF v] x f p l by (simp_all add: ucan_def upa_def st32_bytes)
  then show "uput va w (memupd s m) = Some (memupd s (st32 m (upa s dp c va) w))" by (simp add: uput_def memupd_def)
  have "kinv (memupd s m) dp L X c" using v by (simp add: uview_def)
  from kinv_pm [OF this, of "(pm s)\<lparr>mem := st32 m (upa s dp c va) w\<rparr>"] k(2)
  have "kinv (memupd s (st32 m (upa s dp c va) w)) dp L X c" by simp (simp add: memupd_def)
  then show "uview s dp L X c (st32 m (upa s dp c va) w)" using k(3) by (simp add: uview_def)
qed

text \<open>\<^verbatim>\<open>memcpy\<close>: the target bytes are distinct in memory and none of them is a source byte.\<close>

lemma ucopy_view:
  assumes "uview s dp L X c m" "\<And>i. i < n \<Longrightarrow> ucan s dp c PTE_R (src + of_nat i)" "\<And>i. i < n \<Longrightarrow> ucan s dp c PTE_W (dst + of_nat i)"
    "inj_on (\<lambda>i. upa s dp c (dst + of_nat i)) {..<n}"
    "\<And>i j. i < n \<Longrightarrow> j < n \<Longrightarrow> upa s dp c (src + of_nat i) \<noteq> upa s dp c (dst + of_nat j)"
  shows "\<exists>m'. ucopy dst src n (memupd s m) = Some (memupd s m') \<and> uview s dp L X c m' \<and>
    (\<forall>i < n. m' (upa s dp c (dst + of_nat i)) = m (upa s dp c (src + of_nat i))) \<and>
    (\<forall>x. x \<notin> (\<lambda>i. upa s dp c (dst + of_nat i)) ` {..<n} \<longrightarrow> m' x = m x)"
  using assms
proof (induction n arbitrary: dst src m)
  case 0
  then show ?case by (intro exI [of _ m]) simp
next
  case (Suc n)
  let ?d = "\<lambda>i. upa s dp c (dst + of_nat i)" and ?s = "\<lambda>i. upa s dp c (src + of_nat i)"
  have sh: "dst + 1 + of_nat i = dst + of_nat (Suc i)" "src + 1 + of_nat i = src + of_nat (Suc i)" for i by simp_all
  have r: "ucan s dp c PTE_R src" "ucan s dp c PTE_W dst" using Suc.prems(2) [of 0] Suc.prems(3) [of 0] by simp_all
  define m1 where "m1 = m(?d 0 := m (?s 0))"
  have st: "kstore8 dst (m (?s 0)) (memupd s m) = Some (memupd s m1)" "uview s dp L X c m1"
    using kstore8_view [OF Suc.prems(1) r(2)] by (simp_all add: m1_def)
  have inj: "inj_on (\<lambda>i. ?d (Suc i)) {..<n}"
  proof (rule inj_onI)
    fix i j assume "i \<in> {..<n}" "j \<in> {..<n}" "?d (Suc i) = ?d (Suc j)"
    then show "i = j" using inj_onD [OF Suc.prems(4), of "Suc i" "Suc j"] by simp
  qed
  obtain m' where m': "ucopy (dst + 1) (src + 1) n (memupd s m1) = Some (memupd s m')" "uview s dp L X c m'"
    "\<And>i. i < n \<Longrightarrow> m' (?d (Suc i)) = m1 (?s (Suc i))" "\<And>x. x \<notin> (\<lambda>i. ?d (Suc i)) ` {..<n} \<Longrightarrow> m' x = m1 x"
    using Suc.IH [OF st(2), of "src + 1" "dst + 1"] Suc.prems(2) [of "Suc _"] Suc.prems(3) [of "Suc _"] inj Suc.prems(5) [of "Suc _" "Suc _"]
    unfolding sh by auto
  have n0: "?d 0 \<notin> (\<lambda>i. ?d (Suc i)) ` {..<n}"
  proof
    assume "?d 0 \<in> (\<lambda>i. ?d (Suc i)) ` {..<n}"
    then obtain i where "i < n" "?d 0 = ?d (Suc i)" by auto
    then show False using inj_onD [OF Suc.prems(4), of 0 "Suc i"] by simp
  qed
  have c: "m' (?d i) = m (?s i)" if "i < Suc n" for i
  proof (cases i)
    case 0
    then show ?thesis using m'(4) [OF n0] by (simp add: m1_def)
  next
    case (Suc j)
    then show ?thesis using m'(3) [of j] that Suc.prems(5) [of i 0] by (auto simp: m1_def)
  qed
  have o: "m' x = m x" if "x \<notin> ?d ` {..<Suc n}" for x
  proof -
    have "x \<noteq> ?d 0" "x \<notin> (\<lambda>i. ?d (Suc i)) ` {..<n}" using that by force+
    then show ?thesis using m'(4) by (simp add: m1_def)
  qed
  have "ucopy dst src (Suc n) (memupd s m) = Some (memupd s m')"
    using kload8_view [OF Suc.prems(1) r(1)] st(1) m'(1) by simp
  then show ?case using m'(2) c o by blast
qed

section \<open>Descriptors\<close>

lemma page_used_maps:
  assumes "kinv s dp L X c" "user_va va"
  shows "page_used s va \<longleftrightarrow> maps (pm s) (dp ` live s) (key (dp c) va) \<noteq> None"
  unfolding page_used_def vpt_at_maps [OF assms, symmetric] by (auto split: option.splits)

lemma page_used_view:
  assumes "uview s dp L X c m" "user_va va"
  shows "page_used (memupd s m) va \<longleftrightarrow> maps (pm s) (dp ` live s) (key (dp c) va) \<noteq> None"
  using page_used_maps [of "memupd s m" dp L X c va] assms uview_maps [OF assms(1)] by (simp add: uview_def)

end
