(* ===== verification/Mos_Fd_Io.thy ===== *)
theory Mos_Fd_Io
  imports Mos_View
begin

text \<open>
  Reading and writing through descriptors: the operations of theory \<open>Mos_Fd\<close> as a program sees them.  An open file is its mode, its
  position and the bytes of its contents (\<open>file_at\<close>); \<^verbatim>\<open>read\<close>, \<^verbatim>\<open>readn\<close>, \<^verbatim>\<open>write\<close> and \<^verbatim>\<open>seek\<close> are shown to act on these.
\<close>

section \<open>The table of descriptors\<close>

lemma fd_consts: "FDTABLE = 0x5fc00000" "FILEBASE = 0x60000000" "BY2PG = 4096" "PDMAP = 0x400000" "MAXFILESIZE = 0x400000"
  by (simp_all add: FDTABLE_def FILEBASE_def layout_defs MAXFILESIZE_def NINDIRECT_def BY2BLK_def)

lemma sint_unat:
  fixes w :: u32
  assumes "unat w < 0x80000000"
  shows "sint w = int (unat w)"
proof -
  have "uint w < 2 ^ 31" using assms unfolding uint_nat by (simp del: of_nat_unat)
  then have "signed_take_bit 31 (uint w) = uint w" by (intro signed_take_bit_int_eq_self) (simp_all add: order_trans [OF _ uint_ge_0])
  then show ?thesis by (simp add: sint_uint)
qed

lemma INDEX2FD_unat:
  assumes "fdnum < 32"
  shows "unat (INDEX2FD fdnum) = 0x5fc00000 + unat fdnum * 4096"
proof -
  have "unat fdnum < 32" using assms by (simp add: word_less_nat_alt)
  then show ?thesis by (simp add: INDEX2FD_def fd_consts unat_word_ariths)
qed

lemma INDEX2FD_facts:
  assumes "fdnum < 32"
  shows "user_va (INDEX2FD fdnum)" "\<not> is_illegal_va (INDEX2FD fdnum)" "unat (INDEX2FD fdnum) mod 4096 = 0" "fd2num (INDEX2FD fdnum) = fdnum"
    "fd2data (INDEX2FD fdnum) = INDEX2DATA fdnum"
proof -
  have l: "unat fdnum < 32" using assms by (simp add: word_less_nat_alt)
  note u = INDEX2FD_unat [OF assms]
  show il: "\<not> is_illegal_va (INDEX2FD fdnum)" using l by (simp add: is_illegal_va_def word_le_nat_alt word_less_nat_alt u layout_defs)
  then show "user_va (INDEX2FD fdnum)" by (rule legal_va)
  show "unat (INDEX2FD fdnum) mod 4096 = 0" unfolding u by (simp add: mod_add_eq [symmetric])
  have "unat (fd2num (INDEX2FD fdnum)) = unat fdnum"
    using l by (simp add: fd2num_def INDEX2FD_def fd_consts unat_div unat_word_ariths)
  then show n: "fd2num (INDEX2FD fdnum) = fdnum" by (simp add: word_unat_eq_iff)
  show "fd2data (INDEX2FD fdnum) = INDEX2DATA fdnum" by (simp add: fd2data_def n)
qed

lemma fd_lookup_view:
  assumes "uview s dp L X c m" "fdnum < 32"
  shows "fd_lookup fdnum (memupd s m) =
    (if maps (pm s) (dp ` live s) (key (dp c) (INDEX2FD fdnum)) \<noteq> None then Inr (INDEX2FD fdnum) else Inl E_INVAL)"
proof -
  have "unat fdnum < 32" using assms(2) by (simp add: word_less_nat_alt)
  then have "sint fdnum < 32" using sint_unat [of fdnum] by linarith
  then show ?thesis using page_used_view [OF assms(1) INDEX2FD_facts(1) [OF assms(2)]] by (simp add: fd_lookup_def MAXFD_def Let_def)
qed

section \<open>Open files\<close>

definition fd_span :: "kstate \<Rightarrow> (nat \<Rightarrow> nat) \<Rightarrow> nat \<Rightarrow> u32 \<Rightarrow> u32 set" where
  "fd_span s dp c fdnum = (\<lambda>k. upa s dp c (INDEX2FD fdnum) + of_nat k) ` {..<272}"

definition span :: "kstate \<Rightarrow> (nat \<Rightarrow> nat) \<Rightarrow> nat \<Rightarrow> u32 \<Rightarrow> nat \<Rightarrow> u32 set" where
  "span s dp c va n = (\<lambda>i. upa s dp c (va + of_nat i)) ` {..<n}"

text \<open>Descriptor \<open>fdnum\<close> stands for a file opened in mode \<open>omode\<close>, at position \<open>off\<close>, with contents \<open>cont\<close>.\<close>

definition file_at :: "kstate \<Rightarrow> (nat \<Rightarrow> nat) \<Rightarrow> nat \<Rightarrow> mem \<Rightarrow> u32 \<Rightarrow> u32 \<Rightarrow> nat \<Rightarrow> u8 list \<Rightarrow> bool" where
  "file_at s dp c m fdnum omode off cont \<longleftrightarrow>
     (let fd = INDEX2FD fdnum; A = upa s dp c fd in
      fdnum < 32 \<and> ucan s dp c PTE_R fd \<and> ucan s dp c PTE_W fd \<and> ld32 m A = 102 \<and> ld32 m (A + 4) = of_nat off \<and> ld32 m (A + 8) = omode \<and>
      ld32 m (A + 144) = of_nat (length cont) \<and> off < 2 ^ 32 \<and> length cont \<le> 0x400000 \<and>
      (\<forall>i < length cont. ucan s dp c PTE_R (INDEX2DATA fdnum + of_nat i) \<and> m (upa s dp c (INDEX2DATA fdnum + of_nat i)) = cont ! i) \<and>
      fd_span s dp c fdnum \<inter> span s dp c (INDEX2DATA fdnum) (length cont) = {})"

lemma file_atD:
  assumes "file_at s dp c m fdnum omode off cont"
  shows "fdnum < 32" "ucan s dp c PTE_R (INDEX2FD fdnum)" "ucan s dp c PTE_W (INDEX2FD fdnum)" "ld32 m (upa s dp c (INDEX2FD fdnum)) = 102"
    "ld32 m (upa s dp c (INDEX2FD fdnum) + 4) = of_nat off" "ld32 m (upa s dp c (INDEX2FD fdnum) + 8) = omode"
    "ld32 m (upa s dp c (INDEX2FD fdnum) + 144) = of_nat (length cont)" "off < 2 ^ 32" "length cont \<le> 0x400000"
    "\<And>i. i < length cont \<Longrightarrow> ucan s dp c PTE_R (INDEX2DATA fdnum + of_nat i)"
    "\<And>i. i < length cont \<Longrightarrow> m (upa s dp c (INDEX2DATA fdnum + of_nat i)) = cont ! i"
    "fd_span s dp c fdnum \<inter> span s dp c (INDEX2DATA fdnum) (length cont) = {}"
  using assms by (simp_all add: file_at_def Let_def)

lemma uget_fd:
  assumes v: "uview s dp L X c m" and fd: "fdnum < 32" "ucan s dp c PTE_R (INDEX2FD fdnum)" and k: "k < 268"
  shows "uget (INDEX2FD fdnum + of_nat k) (memupd s m) = Some (ld32 m (upa s dp c (INDEX2FD fdnum) + of_nat k), memupd s m)"
proof -
  note z = INDEX2FD_facts(3) [OF fd(1)]
  have k': "unat (INDEX2FD fdnum) mod 4096 + k < 4096" using z k by simp
  show ?thesis using uget_view [OF v, of "INDEX2FD fdnum + of_nat k"] in_page_offset [OF k'] z fd k by simp
qed

lemma uput_fd:
  assumes v: "uview s dp L X c m" and fd: "fdnum < 32" "ucan s dp c PTE_W (INDEX2FD fdnum)" and k: "k < 268"
  shows "uput (INDEX2FD fdnum + of_nat k) w (memupd s m) = Some (memupd s (st32 m (upa s dp c (INDEX2FD fdnum) + of_nat k) w))"
    "uview s dp L X c (st32 m (upa s dp c (INDEX2FD fdnum) + of_nat k) w)"
proof -
  note z = INDEX2FD_facts(3) [OF fd(1)]
  have k': "unat (INDEX2FD fdnum) mod 4096 + k < 4096" using z k by simp
  show "uput (INDEX2FD fdnum + of_nat k) w (memupd s m) = Some (memupd s (st32 m (upa s dp c (INDEX2FD fdnum) + of_nat k) w))"
    "uview s dp L X c (st32 m (upa s dp c (INDEX2FD fdnum) + of_nat k) w)"
    using uput_view [OF v, of "INDEX2FD fdnum + of_nat k"] in_page_offset [OF k'] z fd k by simp_all
qed

lemmas fd_word = uget_fd [where k = 0, simplified] uget_fd [where k = 4, simplified] uget_fd [where k = 8, simplified]
  uget_fd [where k = 144, simplified]

lemma file_at_data:
  assumes f: "file_at s dp c m fdnum omode off cont" and l: "length cont' = length cont"
    and e: "\<And>x. x \<in> fd_span s dp c fdnum \<Longrightarrow> m' x = m x"
    and d: "\<And>i. i < length cont \<Longrightarrow> m' (upa s dp c (INDEX2DATA fdnum + of_nat i)) = cont' ! i"
  shows "file_at s dp c m' fdnum omode off cont'"
proof -
  let ?A = "upa s dp c (INDEX2FD fdnum)"
  have w: "ld32 m' (?A + of_nat k) = ld32 m (?A + of_nat k)" if "k < 268" for k
  proof (rule ld32_eqI)
    fix j assume j: "j < (4 :: nat)"
    have "?A + of_nat (k + j) \<in> fd_span s dp c fdnum" unfolding fd_span_def by (rule imageI) (use that j in simp)
    then show "m' (?A + of_nat k + of_nat j) = m (?A + of_nat k + of_nat j)" using e by (simp add: add.assoc)
  qed
  show ?thesis using f w [of 0] w [of 4] w [of 8] w [of 144] d l by (simp add: file_at_def Let_def)
qed

lemma file_at_cong:
  assumes "file_at s dp c m fdnum omode off cont"
    and "\<And>x. x \<in> fd_span s dp c fdnum \<union> span s dp c (INDEX2DATA fdnum) (length cont) \<Longrightarrow> m' x = m x"
  shows "file_at s dp c m' fdnum omode off cont"
  by (rule file_at_data [OF assms(1)]) (use assms(2) file_atD(11) [OF assms(1)] in \<open>auto simp: span_def\<close>)

definition off_span :: "kstate \<Rightarrow> (nat \<Rightarrow> nat) \<Rightarrow> nat \<Rightarrow> u32 \<Rightarrow> u32 set" where
  "off_span s dp c fdnum = (\<lambda>j. upa s dp c (INDEX2FD fdnum) + 4 + of_nat j) ` {..<4}"

lemma off_span_fd: "off_span s dp c fdnum \<subseteq> fd_span s dp c fdnum"
proof
  fix x assume "x \<in> off_span s dp c fdnum"
  then obtain j where "j < 4" "x = upa s dp c (INDEX2FD fdnum) + of_nat (4 + j)" by (auto simp: off_span_def add.assoc)
  then show "x \<in> fd_span s dp c fdnum" unfolding fd_span_def by (intro image_eqI [of _ _ "4 + j"]) simp_all
qed

lemma st32_other:
  assumes "x \<notin> (\<lambda>j. a + of_nat j) ` {..<4 :: nat}"
  shows "st32 m a v x = m x"
proof -
  have "x \<noteq> a + of_nat j" if "j < 4" for j using assms that by blast
  from this [of 0] this [of 1] this [of 2] this [of 3] show ?thesis by (simp add: st32_def)
qed

lemma file_at_seek:
  assumes f: "file_at s dp c m fdnum omode off cont" and o: "off' < 2 ^ 32"
  shows "file_at s dp c (st32 m (upa s dp c (INDEX2FD fdnum) + 4) (of_nat off')) fdnum omode off' cont"
proof -
  let ?A = "upa s dp c (INDEX2FD fdnum)"
  let ?m = "st32 m (?A + 4) (of_nat off')"
  note D = file_atD [OF f]
  have w: "ld32 ?m ?A = ld32 m ?A" "ld32 ?m (?A + 8) = ld32 m (?A + 8)" "ld32 ?m (?A + 144) = ld32 m (?A + 144)"
    by (simp_all add: ld32_def st32_def add.assoc)
  have "?m (upa s dp c (INDEX2DATA fdnum + of_nat i)) = m (upa s dp c (INDEX2DATA fdnum + of_nat i))" if "i < length cont" for i
  proof (rule st32_other)
    have "upa s dp c (INDEX2DATA fdnum + of_nat i) \<in> span s dp c (INDEX2DATA fdnum) (length cont)" using that by (auto simp: span_def)
    then show "upa s dp c (INDEX2DATA fdnum + of_nat i) \<notin> (\<lambda>j. ?A + 4 + of_nat j) ` {..<4}"
      using D(12) off_span_fd [of s dp c fdnum] unfolding off_span_def by blast
  qed
  then show ?thesis using D o w ld32_st32_same [of m "?A + 4" "of_nat off'"] by (simp add: file_at_def Let_def)
qed

text \<open>A buffer of the program: writable, and no byte of memory appears in it twice.\<close>

definition ubuf :: "kstate \<Rightarrow> (nat \<Rightarrow> nat) \<Rightarrow> nat \<Rightarrow> u32 \<Rightarrow> nat \<Rightarrow> bool" where
  "ubuf s dp c buf n \<longleftrightarrow> (\<forall>i < n. ucan s dp c PTE_W (buf + of_nat i)) \<and> inj_on (\<lambda>i. upa s dp c (buf + of_nat i)) {..<n}"

lemma devfile_read_view:
  assumes v: "uview s dp L X c m" and f: "file_at s dp c m fdnum omode off cont" and b: "ubuf s dp c buf n"
    and dj: "span s dp c buf n \<inter> span s dp c (INDEX2DATA fdnum) (length cont) = {}" and o: "off + n < 2 ^ 32"
    and k: "k = min n (length cont - off)"
  shows "\<exists>m'. devfile_read (INDEX2FD fdnum) buf (of_nat n) (of_nat off) (memupd s m) = Some (of_nat k, memupd s m') \<and> uview s dp L X c m' \<and>
    (\<forall>i < k. m' (upa s dp c (buf + of_nat i)) = cont ! (off + i)) \<and> (\<forall>x. x \<notin> span s dp c buf k \<longrightarrow> m' x = m x)"
proof -
  note D = file_atD [OF f]
  have sz: "uget (f_size (f_file (INDEX2FD fdnum))) (memupd s m) = Some (of_nat (length cont), memupd s m)"
    using fd_word(4) [OF v D(1,2)] D(7) by (simp add: f_size_def f_file_def add.assoc)
  have u: "unat (of_nat off :: u32) = off" "unat (of_nat n :: u32) = n" "unat (of_nat (length cont) :: u32) = length cont" "unat (of_nat off + of_nat n :: u32) = off + n"
    using o D(9) by (simp_all add: unat_of_nat flip: of_nat_add)
  show ?thesis
  proof (cases "off > length cont")
    case True
    then have "(of_nat off :: u32) > of_nat (length cont)" by (simp add: word_less_nat_alt u)
    then show ?thesis using sz True k v by (intro exI [of _ m]) (simp add: devfile_read_def)
  next
    case False
    have le: "\<not> (of_nat off :: u32) > of_nat (length cont)" using False by (simp add: word_less_nat_alt u)
    have n: "(if (of_nat off :: u32) + of_nat n > of_nat (length cont) then of_nat (length cont) - of_nat off else of_nat n) = (of_nat k :: u32)"
    proof (cases "off + n > length cont")
      case True
      then have "k = length cont - off" using k by simp
      then show ?thesis using True False by (simp add: word_less_nat_alt u of_nat_diff)
    next
      case False
      then have "k = n" using k by simp
      then show ?thesis using False by (simp add: word_less_nat_alt u)
    qed
    have uk: "unat (of_nat k :: u32) = k" using o k by (simp add: unat_of_nat)
    let ?d = "INDEX2DATA fdnum"
    have src: "?d + of_nat off + of_nat i = ?d + of_nat (off + i)" for i by simp
    have in_sp: "upa s dp c (?d + of_nat (off + i)) \<in> span s dp c ?d (length cont)" if "i < k" for i
      unfolding span_def by (rule imageI) (use that k in auto)
    have "\<exists>m'. ucopy buf (?d + of_nat off) k (memupd s m) = Some (memupd s m') \<and> uview s dp L X c m' \<and>
        (\<forall>i < k. m' (upa s dp c (buf + of_nat i)) = m (upa s dp c (?d + of_nat off + of_nat i))) \<and>
        (\<forall>x. x \<notin> (\<lambda>i. upa s dp c (buf + of_nat i)) ` {..<k} \<longrightarrow> m' x = m x)"
    proof (rule ucopy_view [OF v])
      show "ucan s dp c PTE_R (?d + of_nat off + of_nat i)" if "i < k" for i unfolding src by (rule D(10)) (use that k in auto)
      show "ucan s dp c PTE_W (buf + of_nat i)" if "i < k" for i using b that k by (simp add: ubuf_def)
      show "inj_on (\<lambda>i. upa s dp c (buf + of_nat i)) {..<k}" using b k by (auto simp: ubuf_def intro: inj_on_subset)
      show "upa s dp c (?d + of_nat off + of_nat i) \<noteq> upa s dp c (buf + of_nat j)" if "i < k" "j < k" for i j
      proof -
        have "upa s dp c (buf + of_nat j) \<in> span s dp c buf n" unfolding span_def by (rule imageI) (use that k in auto)
        then show ?thesis using in_sp [OF that(1)] dj unfolding src by (metis disjoint_iff)
      qed
    qed
    then obtain m' where m': "ucopy buf (?d + of_nat off) k (memupd s m) = Some (memupd s m')" "uview s dp L X c m'"
      "\<And>i. i < k \<Longrightarrow> m' (upa s dp c (buf + of_nat i)) = m (upa s dp c (?d + of_nat (off + i)))"
      "\<And>x. x \<notin> span s dp c buf k \<Longrightarrow> m' x = m x" unfolding src span_def by blast
    have "m' (upa s dp c (buf + of_nat i)) = cont ! (off + i)" if "i < k" for i
      using m'(3) [OF that] D(11) [of "off + i"] that k by auto
    then show ?thesis
      using m'(1,2,4) sz le INDEX2FD_facts(5) [OF D(1)] by (intro exI [of _ m']) (simp add: devfile_read_def n [simplified] uk del: of_nat_add)
  qed
qed

lemma fd_dev_file:
  assumes v: "uview s dp L X c m" and f: "file_at s dp c m fdnum omode off cont"
  shows "fd_dev fdnum (memupd s m) = Some (Inr (INDEX2FD fdnum, DevFile), memupd s m)"
  using fd_lookup_view [OF v file_atD(1) [OF f]] fd_word(1) [OF v file_atD(1,2) [OF f]] file_atD(2,4) [OF f]
  by (simp add: fd_dev_def ucan_def dev_lookup_def)

text \<open>One call of \<^verbatim>\<open>read\<close>.\<close>

lemma uread_file:
  assumes v: "uview s dp L X c m" and f: "file_at s dp c m fdnum omode off cont" and om: "omode AND O_ACCMODE \<noteq> O_WRONLY"
    and b: "ubuf s dp c buf n" and dj: "span s dp c buf n \<inter> (fd_span s dp c fdnum \<union> span s dp c (INDEX2DATA fdnum) (length cont)) = {}"
    and o: "off + n < 2 ^ 32" and k: "k = min n (length cont - off)"
  shows "\<exists>m'. uread io fdnum buf (of_nat n) (memupd s m) = Some (of_nat k, memupd s m') \<and> uview s dp L X c m' \<and>
    file_at s dp c m' fdnum omode (off + k) cont \<and> (\<forall>i < k. m' (upa s dp c (buf + of_nat i)) = cont ! (off + i)) \<and>
    (\<forall>x. x \<notin> span s dp c buf k \<union> off_span s dp c fdnum \<longrightarrow> m' x = m x)"
proof -
  note D = file_atD [OF f]
  let ?A = "upa s dp c (INDEX2FD fdnum)"
  obtain m1 where m1: "devfile_read (INDEX2FD fdnum) buf (of_nat n) (of_nat off) (memupd s m) = Some (of_nat k, memupd s m1)" "uview s dp L X c m1"
    "\<And>i. i < k \<Longrightarrow> m1 (upa s dp c (buf + of_nat i)) = cont ! (off + i)" "\<And>x. x \<notin> span s dp c buf k \<Longrightarrow> m1 x = m x"
    using devfile_read_view [OF v f b _ o k] dj by (metis Int_Un_distrib Un_empty)
  have sub: "span s dp c buf k \<subseteq> span s dp c buf n" using k by (auto simp: span_def)
  have f1: "file_at s dp c m1 fdnum omode off cont"
    by (rule file_at_cong [OF f]) (use m1(4) sub dj in blast)
  note g = fd_word [OF v D(1,2)] fd_word [OF m1(2) D(1,2)]
  have kb: "k \<le> 0x400000" using k D(9) by simp
  then have uk: "unat (of_nat k :: u32) = k" by (simp add: unat_of_nat)
  then have sk: "sint (of_nat k :: u32) = int k" using kb sint_unat [of "of_nat k"] by simp
  have run: "uread io fdnum buf (of_nat n) (memupd s m) =
      (if k > 0 then do { s \<leftarrow> uput (INDEX2FD fdnum + 4) (of_nat off + of_nat k) (memupd s m1); Some (of_nat k, s) } else Some (of_nat k, memupd s m1))"
    using fd_dev_file [OF v f] g D(5,6) file_atD(5) [OF f1] m1(1) om sk
    by (simp add: uread_def fd_omode_def fd_offset_def dev_read_def)
  show ?thesis
  proof (cases "k > 0")
    case False
    then show ?thesis using run m1 f1 by (intro exI [of _ m1]) simp
  next
    case True
    define m' where "m' = st32 m1 (?A + 4) (of_nat (off + k))"
    have p: "uput (INDEX2FD fdnum + 4) (of_nat off + of_nat k) (memupd s m1) = Some (memupd s m')" "uview s dp L X c m'"
      using uput_fd [OF m1(2) D(1,3), of 4 "of_nat (off + k)"] by (simp_all add: m'_def)
    have fin: "file_at s dp c m' fdnum omode (off + k) cont"
      unfolding m'_def by (rule file_at_seek [OF f1]) (use o k in simp)
    have other: "m' x = m1 x" if "x \<notin> off_span s dp c fdnum" for x
      unfolding m'_def by (rule st32_other) (use that in \<open>simp add: off_span_def\<close>)
    have "m' (upa s dp c (buf + of_nat i)) = cont ! (off + i)" if "i < k" for i
    proof -
      have "upa s dp c (buf + of_nat i) \<in> span s dp c buf k" using that by (auto simp: span_def)
      then have "m' (upa s dp c (buf + of_nat i)) = m1 (upa s dp c (buf + of_nat i))" using other sub dj off_span_fd by blast
      then show ?thesis using m1(3) that by simp
    qed
    then show ?thesis using run True p fin other m1(4) by (intro exI [of _ m']) auto
  qed
qed

lemma ubuf_tail:
  assumes "ubuf s dp c buf n" "k \<le> n"
  shows "ubuf s dp c (buf + of_nat k) (n - k)" "span s dp c (buf + of_nat k) (n - k) \<subseteq> span s dp c buf n"
proof -
  have sh: "buf + of_nat k + of_nat i = buf + of_nat (k + i)" for i by simp
  have "inj_on (\<lambda>i. upa s dp c (buf + of_nat (k + i))) {..<n - k}"
  proof (rule inj_onI)
    fix i j assume "i \<in> {..<n - k}" "j \<in> {..<n - k}" "upa s dp c (buf + of_nat (k + i)) = upa s dp c (buf + of_nat (k + j))"
    moreover have "inj_on (\<lambda>i. upa s dp c (buf + of_nat i)) {..<n}" using assms(1) by (simp add: ubuf_def)
    from inj_onD [OF this, of "k + i" "k + j"] calculation show "i = j" by simp
  qed
  moreover have "ucan s dp c PTE_W (buf + of_nat (k + i))" if "i < n - k" for i
    using assms(1) that unfolding ubuf_def by (metis less_diff_conv add.commute)
  ultimately show "ubuf s dp c (buf + of_nat k) (n - k)" unfolding ubuf_def sh by blast
  show "span s dp c (buf + of_nat k) (n - k) \<subseteq> span s dp c buf n"
    unfolding span_def sh by (auto simp del: of_nat_add)
qed

lemma readn_file:
  assumes v: "uview s dp L X c m" and f: "file_at s dp c m fdnum omode off cont" and om: "omode AND O_ACCMODE \<noteq> O_WRONLY"
    and b: "ubuf s dp c buf n" and dj: "span s dp c buf n \<inter> (fd_span s dp c fdnum \<union> span s dp c (INDEX2DATA fdnum) (length cont)) = {}"
    and o: "off + n < 2 ^ 32" and k: "k = min n (length cont - off)"
  shows "\<exists>m'. readn io fdnum buf (of_nat n) (memupd s m) = Some (of_nat k, memupd s m') \<and> uview s dp L X c m' \<and>
    file_at s dp c m' fdnum omode (off + k) cont \<and> (\<forall>i < k. m' (upa s dp c (buf + of_nat i)) = cont ! (off + i)) \<and>
    (\<forall>x. x \<notin> span s dp c buf k \<union> off_span s dp c fdnum \<longrightarrow> m' x = m x)"
proof -
  note L = readn_loop.simps [of io fdnum buf "of_nat n"]
  have kb: "k \<le> 0x400000" using k file_atD(9) [OF f] by simp
  have un: "unat (of_nat n :: u32) = n" "unat (of_nat k :: u32) = k" using o kb by (simp_all add: unat_of_nat)
  have sk: "sint (of_nat k :: u32) = int k" using kb sint_unat [of "of_nat k"] un by simp
  have z: "(of_nat k :: u32) = 0 \<longleftrightarrow> k = 0" using un(2) by (auto simp: word_unat_eq_iff)
  obtain m1 where m1: "uread io fdnum buf (of_nat n) (memupd s m) = Some (of_nat k, memupd s m1)" "uview s dp L X c m1"
    "file_at s dp c m1 fdnum omode (off + k) cont" "\<And>i. i < k \<Longrightarrow> m1 (upa s dp c (buf + of_nat i)) = cont ! (off + i)"
    "\<And>x. x \<notin> span s dp c buf k \<union> off_span s dp c fdnum \<Longrightarrow> m1 x = m x"
    using uread_file [OF v f om b dj o k] by blast
  have first: "readn io fdnum buf (of_nat n) (memupd s m) =
      (if n = 0 then Some (0, memupd s m) else if k = 0 then Some (0, memupd s m1) else readn_loop io fdnum buf (of_nat n) (of_nat k) (memupd s m1))"
    using m1(1) un sk z L [of 0 "memupd s m"] by (simp add: readn_def word_less_nat_alt)
  consider "n = 0" | "n > 0" "k = 0" | "0 < k" "k = n" | "0 < k" "k < n" using k by linarith
  then show ?thesis
  proof cases
    case 1
    then show ?thesis using first v f k by (intro exI [of _ m]) simp
  next
    case 2
    then show ?thesis using first m1 by (intro exI [of _ m1]) simp
  next
    case 3
    have "readn_loop io fdnum buf (of_nat n) (of_nat k) (memupd s m1) = Some (of_nat k, memupd s m1)"
      using 3 L [of "of_nat k" "memupd s m1"] by simp
    then show ?thesis using 3 first m1 by (intro exI [of _ m1]) auto
  next
    case 4
    have e: "0 = min (n - k) (length cont - (off + k))" "off + k + (n - k) < 2 ^ 32" using 4 k o by auto
    have "k \<le> n" using 4 by simp
    note t = ubuf_tail [OF b this]
    have dj': "span s dp c (buf + of_nat k) (n - k) \<inter> (fd_span s dp c fdnum \<union> span s dp c (INDEX2DATA fdnum) (length cont)) = {}"
      using t(2) dj by blast
    obtain m2 where m2: "uread io fdnum (buf + of_nat k) (of_nat (n - k)) (memupd s m1) = Some (of_nat 0, memupd s m2)" "uview s dp L X c m2"
      "file_at s dp c m2 fdnum omode (off + k + 0) cont"
      "\<And>x. x \<notin> span s dp c (buf + of_nat k) 0 \<union> off_span s dp c fdnum \<Longrightarrow> m2 x = m1 x"
      using uread_file [OF m1(2,3) om t(1) dj' e(2,1), of io] by blast
    have ws: "(of_nat n :: u32) - of_nat k = of_nat (n - k)" using 4 by (simp add: of_nat_diff)
    have "readn_loop io fdnum buf (of_nat n) (of_nat k) (memupd s m1) = Some (of_nat k, memupd s m2)"
      using 4 L [of "of_nat k" "memupd s m1"] m2(1) un unfolding ws by (simp add: word_less_nat_alt)
    moreover have "m2 (upa s dp c (buf + of_nat i)) = cont ! (off + i)" if "i < k" for i
    proof -
      have "upa s dp c (buf + of_nat i) \<in> span s dp c buf n" using that 4 by (auto simp: span_def)
      then have "upa s dp c (buf + of_nat i) \<notin> off_span s dp c fdnum" using dj off_span_fd by blast
      then show ?thesis using m2(4) m1(4) that by (simp add: span_def)
    qed
    moreover have "m2 x = m x" if "x \<notin> span s dp c buf k \<union> off_span s dp c fdnum" for x
      using m2(4) [of x] m1(5) [OF that] that by (simp add: span_def)
    ultimately show ?thesis using first 4 m2(2,3) by (intro exI [of _ m2]) auto
  qed
qed

section \<open>Writing\<close>

definition overwrite :: "u8 list \<Rightarrow> nat \<Rightarrow> u8 list \<Rightarrow> u8 list" where
  "overwrite cont off bs = take off cont @ bs @ drop (off + length bs) cont"

lemma overwrite_nth:
  assumes "off + length bs \<le> length cont"
  shows "length (overwrite cont off bs) = length cont"
    "i < length cont \<Longrightarrow> overwrite cont off bs ! i = (if off \<le> i \<and> i < off + length bs then bs ! (i - off) else cont ! i)"
  using assms by (auto simp: overwrite_def nth_append)

lemma devfile_write_view:
  assumes v: "uview s dp L X c m" and f: "file_at s dp c m fdnum omode off cont"
    and b: "\<And>i. i < length bs \<Longrightarrow> ucan s dp c PTE_R (buf + of_nat i) \<and> m (upa s dp c (buf + of_nat i)) = bs ! i"
    and w: "ubuf s dp c (INDEX2DATA fdnum) (length cont)"
    and dj: "span s dp c buf (length bs) \<inter> span s dp c (INDEX2DATA fdnum) (length cont) = {}" and o: "off + length bs \<le> length cont"
  shows "\<exists>m'. devfile_write io (INDEX2FD fdnum) buf (of_nat (length bs)) (of_nat off) (memupd s m) = Some (of_nat (length bs), memupd s m') \<and>
    uview s dp L X c m' \<and> file_at s dp c m' fdnum omode off (overwrite cont off bs) \<and>
    (\<forall>x. x \<notin> span s dp c (INDEX2DATA fdnum + of_nat off) (length bs) \<longrightarrow> m' x = m x)"
proof -
  note D = file_atD [OF f]
  let ?n = "length bs" and ?d = "INDEX2DATA fdnum"
  have sz: "uget (f_size (f_file (INDEX2FD fdnum))) (memupd s m) = Some (of_nat (length cont), memupd s m)"
    using fd_word(4) [OF v D(1,2)] D(7) by (simp add: f_size_def f_file_def add.assoc)
  have tot: "(of_nat off + of_nat ?n :: u32) = of_nat (off + ?n)" by simp
  have u: "unat (of_nat (off + ?n) :: u32) = off + ?n" "unat (of_nat ?n :: u32) = ?n" "unat (of_nat (length cont) :: u32) = length cont"
    using o D(9) by (simp_all add: unat_of_nat del: of_nat_add)
  have g: "\<not> MAXFILESIZE < (of_nat (off + ?n) :: u32)" "\<not> of_nat (length cont) < (of_nat (off + ?n) :: u32)"
    using o D(9) by (simp_all add: word_less_nat_alt u fd_consts del: of_nat_add)
  have sh: "?d + of_nat off + of_nat i = ?d + of_nat (off + i)" for i by simp
  have bd: "?n \<le> length cont - off" "off \<le> length cont" using o by simp_all
  note t = ubuf_tail [OF w bd(2)]
  have "\<exists>m'. ucopy (?d + of_nat off) buf ?n (memupd s m) = Some (memupd s m') \<and> uview s dp L X c m' \<and>
      (\<forall>i < ?n. m' (upa s dp c (?d + of_nat off + of_nat i)) = m (upa s dp c (buf + of_nat i))) \<and>
      (\<forall>x. x \<notin> (\<lambda>i. upa s dp c (?d + of_nat off + of_nat i)) ` {..<?n} \<longrightarrow> m' x = m x)"
  proof (rule ucopy_view [OF v])
    show "ucan s dp c PTE_R (buf + of_nat i)" if "i < ?n" for i using b [OF that] by simp
    show "ucan s dp c PTE_W (?d + of_nat off + of_nat i)" if "i < ?n" for i using t(1) bd that by (simp add: ubuf_def)
    show "inj_on (\<lambda>i. upa s dp c (?d + of_nat off + of_nat i)) {..<?n}"
      using t(1) bd unfolding ubuf_def by (auto intro: inj_on_subset)
    show "upa s dp c (buf + of_nat i) \<noteq> upa s dp c (?d + of_nat off + of_nat j)" if "i < ?n" "j < ?n" for i j
    proof -
      have "upa s dp c (buf + of_nat i) \<in> span s dp c buf ?n" "upa s dp c (?d + of_nat off + of_nat j) \<in> span s dp c ?d (length cont)"
        using that t(2) bd unfolding span_def by auto
      then show ?thesis using dj by (metis disjoint_iff)
    qed
  qed
  then obtain m' where m': "ucopy (?d + of_nat off) buf ?n (memupd s m) = Some (memupd s m')" "uview s dp L X c m'"
    "\<And>i. i < ?n \<Longrightarrow> m' (upa s dp c (?d + of_nat (off + i))) = m (upa s dp c (buf + of_nat i))"
    "\<And>x. x \<notin> span s dp c (?d + of_nat off) ?n \<Longrightarrow> m' x = m x" unfolding sh span_def by blast
  have sub: "span s dp c (?d + of_nat off) ?n \<subseteq> span s dp c ?d (length cont)"
    using t(2) bd unfolding span_def by (auto simp: image_subset_iff)
  have "file_at s dp c m' fdnum omode off (overwrite cont off bs)"
  proof (rule file_at_data [OF f overwrite_nth(1) [OF o]])
    show "m' x = m x" if "x \<in> fd_span s dp c fdnum" for x using m'(4) sub D(12) that by blast
    show "m' (upa s dp c (?d + of_nat i)) = overwrite cont off bs ! i" if i: "i < length cont" for i
    proof (cases "off \<le> i \<and> i < off + ?n")
      case True
      then have "i - off < ?n" by auto
      then show ?thesis using True m'(3) [of "i - off"] b [of "i - off"] overwrite_nth(2) [OF o i] by (simp del: of_nat_add)
    next
      case False
      have "upa s dp c (?d + of_nat i) \<notin> span s dp c (?d + of_nat off) ?n"
      proof
        assume "upa s dp c (?d + of_nat i) \<in> span s dp c (?d + of_nat off) ?n"
        then obtain j where j: "j < ?n" "upa s dp c (?d + of_nat i) = upa s dp c (?d + of_nat (off + j))" unfolding span_def sh by blast
        have "inj_on (\<lambda>i. upa s dp c (?d + of_nat i)) {..<length cont}" using w by (simp add: ubuf_def)
        from inj_onD [OF this j(2)] have "i = off + j" using i j(1) o by simp
        then show False using False j(1) by simp
      qed
      then show ?thesis using m'(4) D(11) [OF i] overwrite_nth(2) [OF o i] False by simp
    qed
  qed
  then show ?thesis
    using m'(1,2,4) sz g INDEX2FD_facts(5) [OF D(1)] by (intro exI [of _ m']) (simp add: devfile_write_def tot u Let_def del: of_nat_add)
qed


text \<open>The position after a transfer: step 4 of \<^verbatim>\<open>read\<close> and the end of \<^verbatim>\<open>write\<close>.\<close>

lemma advance_view:
  assumes v: "uview s dp L X c m" and f: "file_at s dp c m fdnum omode off cont" and o: "off + k < 2 ^ 32"
  obtains m' where "uget (fd_offset (INDEX2FD fdnum)) (memupd s m) = Some (of_nat off, memupd s m)"
    "uput (fd_offset (INDEX2FD fdnum)) (of_nat off + of_nat k) (memupd s m) = Some (memupd s m')" "uview s dp L X c m'"
    "file_at s dp c m' fdnum omode (off + k) cont" "\<And>x. x \<notin> off_span s dp c fdnum \<Longrightarrow> m' x = m x"
proof -
  note D = file_atD [OF f]
  let ?m = "st32 m (upa s dp c (INDEX2FD fdnum) + 4) (of_nat (off + k))"
  show thesis
  proof (rule that [of ?m])
    show "uget (fd_offset (INDEX2FD fdnum)) (memupd s m) = Some (of_nat off, memupd s m)"
      using fd_word(2) [OF v D(1,2)] D(5) by (simp add: fd_offset_def)
    show "uput (fd_offset (INDEX2FD fdnum)) (of_nat off + of_nat k) (memupd s m) = Some (memupd s ?m)" "uview s dp L X c ?m"
      using uput_fd [OF v D(1,3), of 4 "of_nat (off + k)"] by (simp_all add: fd_offset_def)
    show "file_at s dp c ?m fdnum omode (off + k) cont" by (rule file_at_seek [OF f o])
    show "?m x = m x" if "x \<notin> off_span s dp c fdnum" for x by (rule st32_other) (use that in \<open>simp add: off_span_def\<close>)
  qed
qed

lemma uwrite_file:
  assumes v: "uview s dp L X c m" and f: "file_at s dp c m fdnum omode off cont" and om: "omode AND O_ACCMODE \<noteq> O_RDONLY"
    and b: "\<And>i. i < length bs \<Longrightarrow> ucan s dp c PTE_R (buf + of_nat i) \<and> m (upa s dp c (buf + of_nat i)) = bs ! i"
    and w: "ubuf s dp c (INDEX2DATA fdnum) (length cont)"
    and dj: "span s dp c buf (length bs) \<inter> span s dp c (INDEX2DATA fdnum) (length cont) = {}" and o: "off + length bs \<le> length cont"
  obtains m' where "uwrite io fdnum buf (of_nat (length bs)) (memupd s m) = Some (of_nat (length bs), memupd s m')"
    "uview s dp L X c m'" "file_at s dp c m' fdnum omode (off + length bs) (overwrite cont off bs)"
    "\<And>x. x \<notin> span s dp c (INDEX2DATA fdnum + of_nat off) (length bs) \<union> off_span s dp c fdnum \<Longrightarrow> m' x = m x"
proof -
  note D = file_atD [OF f]
  let ?n = "length bs"
  obtain m1 where m1: "devfile_write io (INDEX2FD fdnum) buf (of_nat ?n) (of_nat off) (memupd s m) = Some (of_nat ?n, memupd s m1)"
    "uview s dp L X c m1" "file_at s dp c m1 fdnum omode off (overwrite cont off bs)"
    "\<And>x. x \<notin> span s dp c (INDEX2DATA fdnum + of_nat off) ?n \<Longrightarrow> m1 x = m x"
    using devfile_write_view [OF v f b w dj o, of io] by blast
  have "?n \<le> 0x400000" "off + ?n < 2 ^ 32" using o D(9) by simp_all
  then have sk: "sint (of_nat ?n :: u32) = int ?n" using sint_unat [of "of_nat ?n"] by (simp add: unat_of_nat)
  obtain m' where m': "uget (fd_offset (INDEX2FD fdnum)) (memupd s m1) = Some (of_nat off, memupd s m1)"
    "uput (fd_offset (INDEX2FD fdnum)) (of_nat off + of_nat ?n) (memupd s m1) = Some (memupd s m')" "uview s dp L X c m'"
    "file_at s dp c m' fdnum omode (off + ?n) (overwrite cont off bs)" "\<And>x. x \<notin> off_span s dp c fdnum \<Longrightarrow> m' x = m1 x"
    using advance_view [OF m1(2,3) \<open>off + ?n < 2 ^ 32\<close>] by blast
  have run: "uwrite io fdnum buf (of_nat ?n) (memupd s m) =
      (if ?n > 0 then do { s \<leftarrow> uput (fd_offset (INDEX2FD fdnum)) (of_nat off + of_nat ?n) (memupd s m1); Some (of_nat ?n, s) }
       else Some (of_nat ?n, memupd s m1))"
    using fd_dev_file [OF v f] fd_word [OF v D(1,2)] D(5,6) m1(1) m'(1) om sk
    by (simp add: uwrite_def fd_omode_def fd_offset_def dev_write_def)
  show thesis
  proof (cases "?n > 0")
    case True
    show thesis by (rule that [of m']) (use run True m' m1(4) in simp_all)
  next
    case False
    show thesis by (rule that [of m1]) (use run False m1 in simp_all)
  qed
qed

lemma useek_file:
  assumes v: "uview s dp L X c m" and f: "file_at s dp c m fdnum omode off cont" and o: "off' < 2 ^ 32"
  obtains m' where "useek fdnum (of_nat off') (memupd s m) = Some (0, memupd s m')" "uview s dp L X c m'"
    "file_at s dp c m' fdnum omode off' cont" "\<And>x. x \<notin> off_span s dp c fdnum \<Longrightarrow> m' x = m x"
proof -
  note D = file_atD [OF f]
  let ?m = "st32 m (upa s dp c (INDEX2FD fdnum) + 4) (of_nat off')"
  show thesis
  proof (rule that [of ?m])
    show "useek fdnum (of_nat off') (memupd s m) = Some (0, memupd s ?m)" "uview s dp L X c ?m"
      using uput_fd [OF v D(1,3), of 4 "of_nat off'"] fd_lookup_view [OF v D(1)] D(2)
      by (simp_all add: useek_def fd_offset_def ucan_def)
    show "file_at s dp c ?m fdnum omode off' cont" by (rule file_at_seek [OF f o])
    show "?m x = m x" if "x \<notin> off_span s dp c fdnum" for x by (rule st32_other) (use that in \<open>simp add: off_span_def\<close>)
  qed
qed

section \<open>A program with an open file\<close>

text \<open>Environment 0 has descriptor 0 (frame 2) open for reading and writing on the file with the bytes \<open>97, 98, 99\<close> (frame 6); frames 1
  and 5 are the page tables of the two regions and frames 7 to 15 are free.\<close>

abbreviation rw_bits :: u32 where
  "rw_bits \<equiv> PTE_R OR PTE_W OR PTE_U"

definition kfd_mem :: mem where
  "kfd_mem = fold (\<lambda>(a, v) m. st32 m a v)
     [(slot 0 383, ADDR_PTE (page2pa 1) OR 0 OR PTE_V), (slot 0 384, ADDR_PTE (page2pa 5) OR 0 OR PTE_V), (slot 1 0, new_pte 2 rw_bits),
      (slot 5 0, new_pte 6 rw_bits), (slot 2 0, 102), (slot 2 2, 2), (slot 2 36, 3), (slot 6 0, 0x636261), (slot 6 25, 0x7978)] (\<lambda>_. 0)"

definition kfd_pm :: pmap where
  "kfd_pm = kdemo_pm\<lparr>mem := kfd_mem, npage := 16,
     pp_ref := (\<lambda>_. 0)(0 := 1, 1 := 1, 2 := 1, 3 := 1, 4 := 1, 5 := 1, 6 := 1),
     page_free_list := fold (\<lambda>p q. LIST_INSERT_HEAD q p) (rev [7..<16]) (LIST_INIT zero_links)\<rparr>"

definition kfd :: kstate where
  "kfd = kdemo\<lparr>pm := kfd_pm\<rparr>"

lemma kfd_ent:
  assumes "d < page_bound" "i < 1024"
  shows "ent (mem kfd_pm) d i = (if d = 0 \<and> i = 383 then ADDR_PTE (page2pa 1) OR 0 OR PTE_V
     else if d = 0 \<and> i = 384 then ADDR_PTE (page2pa 5) OR 0 OR PTE_V
     else if d = 1 \<and> i = 0 then new_pte 2 rw_bits
     else if d = 5 \<and> i = 0 then new_pte 6 rw_bits
     else if d = 2 \<and> i = 0 then 102 else if d = 2 \<and> i = 2 then 2 else if d = 2 \<and> i = 36 then 3
     else if d = 6 \<and> i = 0 then 0x636261 else if d = 6 \<and> i = 25 then 0x7978 else 0)"
proof -
  have z: "ent (\<lambda>_. 0) d i = 0" by (simp add: ent_def ld32_def)
  show ?thesis using assms by (simp add: kfd_pm_def kfd_mem_def ent_st32 z page_bound_def)
qed

lemma kfd_fields: "npage kfd_pm = 16" "unat (npage kfd_pm) \<le> page_bound"
  by (simp_all add: kfd_pm_def page_bound_def)

lemma kfd_frames: "entry_frame kfd_pm (ADDR_PTE (page2pa 1) OR 0 OR PTE_V) = Some 1" "entry_frame kfd_pm (ADDR_PTE (page2pa 5) OR 0 OR PTE_V) = Some 5"
  "entry_frame kfd_pm (new_pte 2 rw_bits) = Some 2" "entry_frame kfd_pm (new_pte 6 rw_bits) = Some 6"
  using kfd_fields entry_frame_new [of 1 kfd_pm 0] entry_frame_new [of 5 kfd_pm 0] new_pte_frame [of 2 kfd_pm rw_bits] new_pte_frame [of 6 kfd_pm rw_bits]
  by (simp_all add: flag_bits_or) (simp_all add: flag_bits_def)

lemma kfd_ptab: "ptab kfd_pm {0} = [(0, 383) \<mapsto> 1, (0, 384) \<mapsto> 5]"
proof
  fix k :: "nat \<times> u32"
  obtain d i where k: "k = (d, i)" by (cases k)
  show "ptab kfd_pm {0} k = [(0, 383) \<mapsto> 1, (0, 384) \<mapsto> 5] k"
    using kfd_ent [of 0 i] user_slot_less [of i] kfd_frames(1,2)
    by (auto simp: k ptab_def table_at_def page_bound_def user_slots split: if_splits)
qed

lemma kfd_ptes: "ptes kfd_pm {0} = (\<lambda>_. 0)((0, 383, 0) := new_pte 2 rw_bits, (0, 384, 0) := new_pte 6 rw_bits)"
proof
  fix k :: "nat \<times> u32 \<times> u32"
  obtain d i j where k: "k = (d, i, j)" by (cases k)
  show "ptes kfd_pm {0} k = ((\<lambda>_. 0)((0, 383, 0) := new_pte 2 rw_bits, (0, 384, 0) := new_pte 6 rw_bits)) k"
    using kfd_ent [of 1 j] kfd_ent [of 5 j] by (auto simp: k ptes_def kfd_ptab page_bound_def)
qed

lemma kfd_maps: "maps kfd_pm {0} = [(0, 383, 0) \<mapsto> 2, (0, 384, 0) \<mapsto> 6]"
  unfolding maps_def kfd_ptes using kfd_frames(3,4) by (auto simp: fun_eq_iff)

lemma list_rep_fold:
  "distinct (rev xs @ ys) \<Longrightarrow> list_rep q ys \<Longrightarrow> list_rep (fold (\<lambda>p q. LIST_INSERT_HEAD q p) xs q) (rev xs @ ys)"
proof (induction xs arbitrary: q ys)
  case (Cons x xs)
  then show ?case using Cons.IH [of "x # ys" "LIST_INSERT_HEAD q x"] list_rep_insert_head [of q ys x] by auto
qed simp

lemma kfd_vm: "vm_inv kfd_pm {0} {} kdemo_X"
proof -
  have "tables_ok kfd_pm {0}"
  proof (rule tables_okI)
    fix d i assume "d \<in> {0 :: nat}" "i < PDX UTOP" "has (ent (mem kfd_pm) d i) PTE_V"
    then show "ptab kfd_pm {0} (d, i) \<noteq> None" using kfd_ent [of 0 i] user_slot_less [of i] by (auto simp: kfd_ptab page_bound_def split: if_splits)
  next
    fix k assume "has (ptes kfd_pm {0} k) PTE_V"
    then show "maps kfd_pm {0} k \<noteq> None" by (auto simp: kfd_ptes kfd_maps split: if_splits)
  qed (use kfd_fields in \<open>auto simp: kfd_ptab kfd_maps split: if_splits\<close>)
  moreover have "refs_ok kfd_pm {0} kdemo_X"
    unfolding refs_ok_def
  proof (intro allI impI)
    fix p assume "p < unat (npage kfd_pm)"
    have m: "{k. maps kfd_pm {0} k = Some p} = (if p = 2 then {(0, 383, 0)} else if p = 6 then {(0, 384, 0)} else {})"
      "{k. ptab kfd_pm {0} k = Some p} = (if p = 1 then {(0, 383)} else if p = 5 then {(0, 384)} else {})"
      by (auto simp: kfd_maps kfd_ptab split: if_splits)
    show "unat (pp_ref kfd_pm p) = Mos_Vm.refs kfd_pm {0} p + kdemo_X p"
      unfolding Mos_Vm.refs_def m by (simp add: kfd_pm_def kdemo_X_def)
  qed
  moreover have "free_ok kfd_pm {}"
  proof -
    have "list_rep (page_free_list kfd_pm) [7..<16]"
      using list_rep_fold [of "rev [7..<16]" "[]" "LIST_INIT zero_links", OF _ list_rep_init] by (simp add: kfd_pm_def)
    moreover have "set [7..<16] = {p. p < unat (npage kfd_pm) \<and> pp_ref kfd_pm p = 0 \<and> p \<notin> {}}"
    proof (rule set_eqI)
      fix p :: nat
      have "7 \<le> p \<and> p < 16 \<longleftrightarrow> p < unat (npage kfd_pm) \<and> pp_ref kfd_pm p = 0" by (auto simp: kfd_pm_def split: if_splits)
      then show "p \<in> set [7..<16] \<longleftrightarrow> p \<in> {p. p < unat (npage kfd_pm) \<and> pp_ref kfd_pm p = 0 \<and> p \<notin> {}}" unfolding set_upt by simp
    qed
    ultimately show ?thesis unfolding free_ok_def by blast
  qed
  ultimately show ?thesis by (simp add: vm_inv_def)
qed

lemma kfd_kinv: "kinv kfd (\<lambda>_. 0) {} kdemo_X 0" "(\<lambda>_. 0) ` live kfd = {0}" "pm kfd = kfd_pm" "cur_pgdir kfd = page2pa 0"
proof -
  have lv: "live kfd = live kdemo" by (simp add: kfd_def live_def)
  show pm: "pm kfd = kfd_pm" "cur_pgdir kfd = page2pa 0" by (simp_all add: kfd_def kdemo_def)
  show im: "(\<lambda>_. 0) ` live kfd = {0}" using lv kdemo_live by simp
  have "curenv kfd = Some 0" "cur_pgdir kfd = env_pgdir (envs kfd 0)" "env_pgdir (envs kfd 0) = page2pa 0" by (simp_all add: kfd_def kdemo_def)
  then show "kinv kfd (\<lambda>_. 0) {} kdemo_X 0"
    using kfd_vm kdemo_live unfolding kinv_def space_inv_def im pm lv by simp
qed

lemma kfd_key: "n < 4096 \<Longrightarrow> key 0 (0x60000000 + of_nat n) = (0, 384, 0)" "n < 4096 \<Longrightarrow> unat (0x60000000 + of_nat n :: u32) mod 4096 = n"
proof -
  assume n: "n < 4096"
  then have u: "unat (0x60000000 + of_nat n :: u32) = 0x60000000 + n" by (simp add: unat_word_ariths unat_of_nat)
  have g: "(4096 * q + n) div 4096 = q" for q using n by simp
  have "key 0 (0x60000000 + of_nat n) = key 0 0x60000000" by (rule key_page) (use g [of 393216] in \<open>simp add: u\<close>)
  then show "key 0 (0x60000000 + of_nat n) = (0, 384, 0)" by (simp add: key_def PDX_def PTX_def)
  show "unat (0x60000000 + of_nat n :: u32) mod 4096 = n" unfolding u using n by (simp add: mod_add_eq [symmetric])
qed

lemma kfd_view:
  shows "n < 4096 \<Longrightarrow> ucan kfd (\<lambda>_. 0) 0 PTE_R (0x60000000 + of_nat n)" "n < 4096 \<Longrightarrow> ucan kfd (\<lambda>_. 0) 0 PTE_W (0x60000000 + of_nat n)"
    "n < 4096 \<Longrightarrow> upa kfd (\<lambda>_. 0) 0 (0x60000000 + of_nat n) = page2pa 6 + of_nat n"
    "ucan kfd (\<lambda>_. 0) 0 PTE_R 0x5fc00000" "ucan kfd (\<lambda>_. 0) 0 PTE_W 0x5fc00000" "upa kfd (\<lambda>_. 0) 0 0x5fc00000 = page2pa 2"
proof -
  have e: "has (new_pte p rw_bits) PTE_R" "has (new_pte p rw_bits) PTE_W" for p
    unfolding has_new_pte by (simp_all add: has_bits new_pte_def insert_perm_def bit_or_iff, simp_all add: pte_defs)
  have k: "key 0 0x5fc00000 = (0, 383, 0)" by (simp add: key_def PDX_def PTX_def)
  show "n < 4096 \<Longrightarrow> ucan kfd (\<lambda>_. 0) 0 PTE_R (0x60000000 + of_nat n)" "n < 4096 \<Longrightarrow> ucan kfd (\<lambda>_. 0) 0 PTE_W (0x60000000 + of_nat n)"
    by (simp_all add: ucan_def kfd_kinv kfd_key kfd_maps kfd_ptes e)
  show "n < 4096 \<Longrightarrow> upa kfd (\<lambda>_. 0) 0 (0x60000000 + of_nat n) = page2pa 6 + of_nat n"
    by (simp add: upa_def kfd_kinv kfd_key kfd_maps)
  show "ucan kfd (\<lambda>_. 0) 0 PTE_R 0x5fc00000" "ucan kfd (\<lambda>_. 0) 0 PTE_W 0x5fc00000" "upa kfd (\<lambda>_. 0) 0 0x5fc00000 = page2pa 2"
    by (simp_all add: ucan_def upa_def kfd_kinv k kfd_maps kfd_ptes e)
qed

lemma kfd_span: "a + n \<le> 4096 \<Longrightarrow> span kfd (\<lambda>_. 0) 0 (0x60000000 + of_nat a) n = (\<lambda>i. page2pa 6 + of_nat (a + i)) ` {..<n}"
  unfolding span_def
proof (rule image_cong [OF refl])
  fix i assume "a + n \<le> 4096" "i \<in> {..<n}"
  then show "upa kfd (\<lambda>_. 0) 0 (0x60000000 + of_nat a + of_nat i) = page2pa 6 + of_nat (a + i)"
    using kfd_view(3) [of "a + i"] by (simp add: add.assoc)
qed

lemma kfd_buf: "a + n \<le> 4096 \<Longrightarrow> ubuf kfd (\<lambda>_. 0) 0 (0x60000000 + of_nat a) n"
proof -
  assume l: "a + n \<le> 4096"
  have w: "ucan kfd (\<lambda>_. 0) 0 PTE_W (0x60000000 + of_nat a + of_nat i)" "upa kfd (\<lambda>_. 0) 0 (0x60000000 + of_nat a + of_nat i) = page2pa 6 + of_nat (a + i)"
    if "i < n" for i using kfd_view(2,3) [of "a + i"] that l by (simp_all add: add.assoc)
  have "inj_on (\<lambda>i. upa kfd (\<lambda>_. 0) 0 (0x60000000 + of_nat a + of_nat i)) {..<n}"
  proof (rule inj_onI)
    fix i j assume "i \<in> {..<n}" "j \<in> {..<n}" "upa kfd (\<lambda>_. 0) 0 (0x60000000 + of_nat a + of_nat i) = upa kfd (\<lambda>_. 0) 0 (0x60000000 + of_nat a + of_nat j)"
    then show "i = j" using w frame_byte_inj(2) [of 6 "a + i" 6 "a + j"] l by (simp add: page_bound_def)
  qed
  then show ?thesis using w by (simp add: ubuf_def)
qed

lemma kfd_apart: "a + n \<le> 4096 \<Longrightarrow> 3 \<le> a \<Longrightarrow>
  span kfd (\<lambda>_. 0) 0 (0x60000000 + of_nat a) n \<inter> (fd_span kfd (\<lambda>_. 0) 0 0 \<union> span kfd (\<lambda>_. 0) 0 0x60000000 3) = {}"
proof -
  assume l: "a + n \<le> 4096" "3 \<le> a"
  have s: "fd_span kfd (\<lambda>_. 0) 0 0 = (\<lambda>k. page2pa 2 + of_nat k) ` {..<272}" "span kfd (\<lambda>_. 0) 0 0x60000000 3 = (\<lambda>i. page2pa 6 + of_nat i) ` {..<3}"
    using kfd_span [of 0 3] kfd_view(6) by (simp_all add: fd_span_def INDEX2FD_def fd_consts)
  have "page2pa 6 + of_nat (a + i) \<noteq> page2pa 2 + of_nat k" if "i < n" "k < 272" for i k
    using frame_byte_inj(1) [of 6 "a + i" 2 k] that l by (auto simp: page_bound_def simp del: of_nat_add)
  moreover have "page2pa 6 + of_nat (a + i) \<noteq> page2pa 6 + of_nat k" if "i < n" "k < 3" for i k
    using frame_byte_inj(2) [of 6 "a + i" 6 k] that l by (auto simp: page_bound_def simp del: of_nat_add)
  ultimately show ?thesis unfolding kfd_span [OF l(1)] s by (auto simp del: of_nat_add)
qed

lemma kfd_file: "file_at kfd (\<lambda>_. 0) 0 (mem kfd_pm) 0 O_RDWR 0 [97, 98, 99]"
proof -
  have w: "ld32 (mem kfd_pm) (page2pa 2) = 102" "ld32 (mem kfd_pm) (page2pa 2 + 4) = 0" "ld32 (mem kfd_pm) (page2pa 2 + 8) = 2"
    "ld32 (mem kfd_pm) (page2pa 2 + 144) = 3" "ld32 (mem kfd_pm) (page2pa 6) = 0x636261"
    using kfd_ent [of 2 0] kfd_ent [of 2 1] kfd_ent [of 2 2] kfd_ent [of 2 36] kfd_ent [of 6 0] by (simp_all add: ent_def slot_def page_bound_def)
  have b: "mem kfd_pm (page2pa 6) = 97" "mem kfd_pm (page2pa 6 + 1) = 98" "mem kfd_pm (page2pa 6 + 2) = 99"
    using bytes_of_ld32 [of "mem kfd_pm" "page2pa 6"] unfolding w by simp_all
  have d: "ucan kfd (\<lambda>_. 0) 0 PTE_R (0x60000000 + of_nat i) \<and> mem kfd_pm (upa kfd (\<lambda>_. 0) 0 (0x60000000 + of_nat i)) = [97, 98, 99] ! i" if "i < 3" for i
  proof -
    have "i = 0 \<or> i = 1 \<or> i = 2" using that by auto
    moreover have "mem kfd_pm (page2pa 6 + of_nat i) = [97, 98, 99] ! i" using calculation b by auto
    ultimately show ?thesis using kfd_view(1,3) [of i] by auto
  qed
  have "fd_span kfd (\<lambda>_. 0) 0 0 \<inter> span kfd (\<lambda>_. 0) 0 0x60000000 3 = {}"
  proof -
    have "page2pa 2 + of_nat k \<noteq> page2pa 6 + of_nat i" if "i < 3" "k < 272" for i k
      using frame_byte_inj(1) [of 2 k 6 i] that by (auto simp: page_bound_def)
    then show ?thesis using kfd_span [of 0 3] kfd_view(6) by (auto simp: fd_span_def INDEX2FD_def fd_consts)
  qed
  moreover have "length [97, 98, 99 :: u8] = 3" by simp
  ultimately show ?thesis using w d kfd_view(4,5,6) unfolding file_at_def Let_def by (simp del: list.size add: INDEX2FD_def INDEX2DATA_def fd_consts O_RDWR_def)
qed

section \<open>The properties\<close>

text \<open>Property C34.  On an open file \<^verbatim>\<open>readn\<close> ends and delivers what a reader of the contents expects: the bytes from the current position
  on, \<open>n\<close> of them or as many as the file has left; the position moves on by the number returned, and no byte of memory changes outside the
  buffer and the position.  On a file opened for writing only it fails with \<^verbatim>\<open>-E_INVAL\<close> and changes nothing.\<close>

theorem readn_correct:
  assumes kv: "kinv s dp L X c" and f: "file_at s dp c (mem (pm s)) fdnum omode off cont" and b: "ubuf s dp c buf n"
    and dj: "span s dp c buf n \<inter> (fd_span s dp c fdnum \<union> span s dp c (INDEX2DATA fdnum) (length cont)) = {}"
    and o: "off + n < 2 ^ 32" and k: "k = min n (length cont - off)"
  shows "(omode AND O_ACCMODE = O_WRONLY \<and> 0 < n \<longrightarrow> readn io fdnum buf (of_nat n) s = Some (neg_errno E_INVAL, s)) \<and>
    (omode AND O_ACCMODE \<noteq> O_WRONLY \<longrightarrow> (\<exists>m'. readn io fdnum buf (of_nat n) s = Some (of_nat k, memupd s m') \<and> uview s dp L X c m' \<and>
      file_at s dp c m' fdnum omode (off + k) cont \<and> map (\<lambda>i. m' (upa s dp c (buf + of_nat i))) [0..<k] = take n (drop off cont) \<and>
      (\<forall>x. x \<notin> span s dp c buf k \<union> off_span s dp c fdnum \<longrightarrow> m' x = mem (pm s) x)))"
proof (cases "omode AND O_ACCMODE = O_WRONLY")
  case True
  note v = uview_init [OF kv] and D = file_atD [OF f]
  have "uread io fdnum buf (of_nat n) s = Some (neg_errno E_INVAL, s)"
    using fd_dev_file [OF v f] fd_word(3) [OF v D(1,2)] D(6) True by (simp add: uread_def fd_omode_def)
  moreover have "(0 :: u32) < of_nat n" if "0 < n" using that o by (simp add: word_less_nat_alt unat_of_nat)
  moreover have "negative (neg_errno E_INVAL)" by (simp add: neg_errno_def)
  ultimately have "0 < n \<Longrightarrow> readn io fdnum buf (of_nat n) s = Some (neg_errno E_INVAL, s)"
    using readn_loop.simps [of io fdnum buf "of_nat n" 0 s] by (simp add: readn_def)
  then show ?thesis using True by simp
next
  case False
  obtain m' where m': "readn io fdnum buf (of_nat n) s = Some (of_nat k, memupd s m')" "uview s dp L X c m'"
    "file_at s dp c m' fdnum omode (off + k) cont" "\<And>i. i < k \<Longrightarrow> m' (upa s dp c (buf + of_nat i)) = cont ! (off + i)"
    "\<And>x. x \<notin> span s dp c buf k \<union> off_span s dp c fdnum \<Longrightarrow> m' x = mem (pm s) x"
    using readn_file [OF uview_init [OF kv] f False b dj o k, of io] by auto
  have "map (\<lambda>i. m' (upa s dp c (buf + of_nat i))) [0..<k] = take n (drop off cont)"
    by (rule nth_equalityI) (use m'(4) k in auto)
  then show ?thesis using m' False by auto
qed


theorem readn_correct_witness:
  "\<forall>io. \<exists>m'. readn io 0 0x60000068 10 kfd = Some (3, memupd kfd m') \<and> map (\<lambda>i. m' (upa kfd (\<lambda>_. 0) 0 (0x60000068 + of_nat i))) [0..<3] = [97, 98, 99]"
proof
  fix io
  have "span kfd (\<lambda>_. 0) 0 0x60000068 10 \<inter> (fd_span kfd (\<lambda>_. 0) 0 0 \<union> span kfd (\<lambda>_. 0) 0 (INDEX2DATA 0) (length [97, 98, 99 :: u8])) = {}"
    using kfd_apart [of 104 10] by (simp add: INDEX2DATA_def fd_consts eval_nat_numeral)
  from readn_correct [OF kfd_kinv(1) _ _ this, unfolded kfd_kinv, OF kfd_file _ _ refl, of io] kfd_buf [of 104 10]
  obtain m' where "readn io 0 0x60000068 10 kfd = Some (3, memupd kfd m')"
    "map (\<lambda>i. m' (upa kfd (\<lambda>_. 0) 0 (0x60000068 + of_nat i))) [0..<min 10 (length [97, 98, 99 :: u8] - 0)] = take 10 (drop 0 [97, 98, 99])"
    by (auto simp: O_RDWR_def O_ACCMODE_def O_WRONLY_def)
  moreover have "min 10 (length [97, 98, 99 :: u8] - 0) = 3" by simp
  ultimately show "\<exists>m'. readn io 0 0x60000068 10 kfd = Some (3, memupd kfd m') \<and>
      map (\<lambda>i. m' (upa kfd (\<lambda>_. 0) 0 (0x60000068 + of_nat i))) [0..<3] = [97, 98, 99]"
    by (intro exI [of _ m'] conjI) (simp_all only:, simp)
qed


end
