(* ===== verification/Mos_Fd_Pipe.thy ===== *)
theory Mos_Fd_Pipe
  imports Mos_Pipe Mos_Fd_Io
begin

text \<open>
  Descriptors and the address space of a program: how the library uses the memory calls of the kernel on the program itself, the search for a
  free descriptor, and the set-up of a pipe.  A pipe that \<^verbatim>\<open>pipe\<close> has made is an initial state of theory \<open>Mos_Pipe\<close>.
\<close>

declare split_paired_All [simp del] split_paired_Ex [simp del]

section \<open>The program changes its own address space\<close>

abbreviation umaps :: "kstate \<Rightarrow> (nat \<Rightarrow> nat) \<Rightarrow> nat \<times> u32 \<times> u32 \<Rightarrow> nat option" where
  "umaps s dp \<equiv> maps (pm s) (dp ` live s)"

lemma live_pm [simp]: "live (s\<lparr>pm := q\<rparr>) = live s"
  by (simp add: live_def)

lemma negative_err: "negative (neg_errno E_NO_MEM)" "negative (neg_errno E_INVAL)" "negative (neg_errno E_MAX_OPEN)"
  by (simp_all add: neg_errno_def)

lemma kinv_vm: "kinv s dp L X c \<Longrightarrow> vm_inv (pm s) (dp ` live s) L X"
  by (rule kinv_env(1)) (auto simp: kinv_def)

lemma umapped_data:
  assumes "kinv s dp L X c" "umaps s dp ky = Some p"
  shows "data_frame (pm s) (dp ` live s) L p" "pp_ref (pm s) p \<noteq> 0" "p < unat (npage (pm s))"
proof -
  note I = vm_inv_cases [OF kinv_vm [OF assms(1)]] and t = tables_okD(9,10,11) [OF vm_inv_cases(1) [OF kinv_vm [OF assms(1)]] assms(2)]
  show "p < unat (npage (pm s))" by (rule t(3))
  show "pp_ref (pm s) p \<noteq> 0" using referenced [OF I(1,2) t(3)] assms(2) by blast
  then show "data_frame (pm s) (dp ` live s) L p" using t tables_okD(1) [OF I(1)] by (auto simp: data_frame_def ran_def)
qed

definition keeps :: "kstate \<Rightarrow> (nat \<Rightarrow> nat) \<Rightarrow> mem \<Rightarrow> bool" where
  "keeps s dp m \<longleftrightarrow> (\<forall>ky p. umaps s dp ky = Some p \<longrightarrow> same_frame (mem (pm s)) m p)"

lemma keepsD: "keeps s dp m \<Longrightarrow> umaps s dp ky = Some p \<Longrightarrow> same_frame (mem (pm s)) m p"
  by (simp add: keeps_def)

lemma alloc_step:
  assumes kv: "kinv s dp L X c" and va: "\<not> is_illegal_va va" and fl: "flag_bits perm"
  obtains (no_mem) q L' where "sysval (sys_mem_alloc 0 va perm s) = Some (neg_errno E_NO_MEM, s\<lparr>pm := q\<rparr>)" "kinv (s\<lparr>pm := q\<rparr>) dp L' X c"
      "maps q (dp ` live s) = umaps s dp"
  | (ok) p q where "sysval (sys_mem_alloc 0 va perm s) = Some (0, s\<lparr>pm := q\<rparr>)" "kinv (s\<lparr>pm := q\<rparr>) dp L X c"
      "maps q (dp ` live s) = (umaps s dp)(key (dp c) va \<mapsto> p)" "\<And>ky. umaps s dp ky \<noteq> Some p" "X p = 0" "zero_frame (mem q) p" "keeps s dp (mem q)"
      "ptes q (dp ` live s) = (ptes (pm s) (dp ` live s))(key (dp c) va := new_pte p (perm OR PTE_U))"
proof (cases rule: sys_mem_alloc_self [OF kv fl va])
  case (1 q L')
  show thesis by (rule no_mem [of q L']) (use 1 maps_npage [OF 1(6,5)] in \<open>simp_all add: fail_def sysval_def\<close>)
next
  case (2 p q)
  have nb: "unat (npage (pm s)) \<le> page_bound" using tables_okD(1) [OF vm_inv_cases(1) [OF kinv_vm [OF kv]]] .
  have kq: "maps (pm (s\<lparr>pm := q\<rparr>)) (dp ` live (s\<lparr>pm := q\<rparr>)) (key (dp c) va) = Some p" using 2(4) by simp
  have pn: "p < unat (npage (pm s))" using umapped_data(3) [OF 2(2) kq] 2(8) by simp
  have m: "maps q (dp ` live s) = (umaps s dp)(key (dp c) va \<mapsto> p)"
    using maps_upd [OF 2(8,3)] new_pte_frame [OF pn nb perm_or_U [OF fl]] by simp
  have fr: "umaps s dp ky \<noteq> Some p" for ky using umapped_data(2) [OF kv] 2(5) by blast
  have "X p = 0" using vm_inv_cases(2) [OF kinv_vm [OF kv]] pn 2(5) unfolding Mos_Vm.refs_ok_def by (metis add_is_0 unat_0)
  moreover have "keeps s dp (mem q)" unfolding keeps_def using 2(9) umapped_data(1) [OF kv] by blast
  ultimately show thesis by (intro ok [of q p]) (use 2 m fr in \<open>simp_all add: ret_def sysval_def\<close>)
qed

lemma map_to_step:
  assumes kv: "kinv s dp L X c" and va: "\<not> is_illegal_va va1" "\<not> is_illegal_va va2" and fl: "flag_bits perm"
    and e: "envid2env envid True s = Some (Inr (Some e))" "e \<in> live s"
    and m: "umaps s dp (key (dp c) va1) = Some p" and r: "unat (pp_ref (pm s) p) < 65535"
  obtains (no_mem) "sysval (sys_mem_map 0 va1 envid va2 perm s) = Some (neg_errno E_NO_MEM, s)"
  | (ok) q where "sysval (sys_mem_map 0 va1 envid va2 perm s) = Some (0, s\<lparr>pm := q\<rparr>)" "kinv (s\<lparr>pm := q\<rparr>) dp L X c"
      "maps q (dp ` live s) = (umaps s dp)(key (dp e) va2 \<mapsto> p)" "keeps s dp (mem q)"
      "ptes q (dp ` live s) = (ptes (pm s) (dp ` live s))(key (dp e) va2 := new_pte p (perm OR PTE_U))"
proof -
  have nb: "unat (npage (pm s)) \<le> page_bound" using tables_okD(1) [OF vm_inv_cases(1) [OF kinv_vm [OF kv]]] .
  show thesis
  proof (cases rule: sys_mem_map_self [OF kv fl va e m r])
    case 1
    then show thesis by (intro no_mem) (simp add: fail_def sysval_def)
  next
    case (2 q)
    have "maps q (dp ` live s) = (umaps s dp)(key (dp e) va2 \<mapsto> p)"
      using maps_upd [OF 2(5,4)] new_pte_frame [OF umapped_data(3) [OF kv m] nb perm_or_U [OF fl]] by simp
    moreover have "keeps s dp (mem q)" unfolding keeps_def using 2(6) umapped_data(1) [OF kv] by blast
    ultimately show thesis by (intro ok [of q]) (use 2 in \<open>simp_all add: ret_def sysval_def\<close>)
  qed
qed

lemma map_step:
  assumes kv: "kinv s dp L X c" and va: "\<not> is_illegal_va va1" "\<not> is_illegal_va va2" and fl: "flag_bits perm"
    and m: "umaps s dp (key (dp c) va1) = Some p" and r: "unat (pp_ref (pm s) p) < 65535"
  obtains (no_mem) "sysval (sys_mem_map 0 va1 0 va2 perm s) = Some (neg_errno E_NO_MEM, s)"
  | (ok) q where "sysval (sys_mem_map 0 va1 0 va2 perm s) = Some (0, s\<lparr>pm := q\<rparr>)" "kinv (s\<lparr>pm := q\<rparr>) dp L X c"
      "maps q (dp ` live s) = (umaps s dp)(key (dp c) va2 \<mapsto> p)" "keeps s dp (mem q)"
      "ptes q (dp ` live s) = (ptes (pm s) (dp ` live s))(key (dp c) va2 := new_pte p (perm OR PTE_U))"
proof -
  have c: "curenv s = Some c" "c \<in> live s" using kv by (simp_all add: kinv_def)
  then have e: "envid2env 0 True s = Some (Inr (Some c))" by (simp add: envid2env_def)
  show thesis by (rule map_to_step [OF kv va fl e c(2) m r no_mem ok])
qed

lemma unmap_step:
  assumes kv: "kinv s dp L X c" and va: "\<not> is_illegal_va va" and m: "umaps s dp (key (dp c) va) = Some p"
  obtains q where "sysval (sys_mem_unmap 0 va s) = Some (0, s\<lparr>pm := q\<rparr>)" "kinv (s\<lparr>pm := q\<rparr>) dp L X c"
    "maps q (dp ` live s) = (umaps s dp)(key (dp c) va := None)" "keeps s dp (mem q)"
proof -
  obtain q where q: "sys_mem_unmap 0 va s = ret 0 (s\<lparr>pm := q\<rparr>)" "kinv (s\<lparr>pm := q\<rparr>) dp L X c" "npage q = npage (pm s)"
    "ptes q (dp ` live s) = (ptes (pm s) (dp ` live s))(key (dp c) va := 0)"
    "\<And>x. data_frame (pm s) (dp ` live s) L x \<Longrightarrow> same_frame (mem (pm s)) (mem q) x"
    by (rule sys_mem_unmap_self [OF kv va m]) blast
  have "maps q (dp ` live s) = (umaps s dp)(key (dp c) va := None)" using maps_upd [OF q(3,4)] by simp
  moreover have "keeps s dp (mem q)" unfolding keeps_def using q(5) umapped_data(1) [OF kv] by blast
  ultimately show thesis by (intro that [of q]) (use q in \<open>simp_all add: ret_def sysval_def\<close>)
qed

section \<open>Descriptors\<close>

lemma fd_alloc_loop_cases:
  assumes kv: "kinv s dp L X c" and ns: "\<forall>i \<in> set ns. i < 32"
  shows "case fd_alloc_loop s ns of
      Inl e \<Rightarrow> e = E_MAX_OPEN \<and> (\<forall>i \<in> set ns. umaps s dp (key (dp c) (INDEX2FD (of_nat i))) \<noteq> None)
    | Inr fd \<Rightarrow> \<exists>xs i ys. ns = xs @ i # ys \<and> fd = INDEX2FD (of_nat i) \<and> umaps s dp (key (dp c) fd) = None \<and>
        (\<forall>j \<in> set xs. umaps s dp (key (dp c) (INDEX2FD (of_nat j))) \<noteq> None)"
  using ns
proof (induction ns)
  case (Cons i ns)
  have "(of_nat i :: u32) < 32" using Cons.prems by (simp add: word_less_nat_alt unat_of_nat)
  note pu = page_used_maps [OF kv INDEX2FD_facts(1) [OF this]]
  show ?case
  proof (cases "page_used s (INDEX2FD (of_nat i))")
    case False
    then show ?thesis using pu by (auto simp: Let_def intro!: exI [of _ "[]"])
  next
    case True
    then show ?thesis using pu Cons
      by (auto simp: Let_def split: sum.splits) (metis append_Cons set_ConsD)
  qed
qed simp

definition fd_va :: "nat \<Rightarrow> u32" where "fd_va i = INDEX2FD (of_nat i)"
definition data_va :: "nat \<Rightarrow> u32" where "data_va i = INDEX2DATA (of_nat i)"

lemma key_inj: "key d va = key d' va' \<Longrightarrow> unat va div 4096 = unat va' div 4096"
proof -
  assume "key d va = key d' va'"
  then have "unat (PDX va) = unat (PDX va')" "unat (PTX va) = unat (PTX va')" by (simp_all add: key_def)
  moreover have "unat va div 4096 = 1024 * unat (PDX va) + unat (PTX va)" for va
  proof -
    have "unat va div 4096 = 1024 * (unat va div 4096 div 1024) + unat va div 4096 mod 1024" by simp
    moreover have "unat va div 4194304 < 1024" using unat_less_2_32 [of va] by simp
    ultimately show ?thesis by (simp add: PDX_unat PTX_unat div_mult2_eq [symmetric])
  qed
  ultimately show ?thesis by simp
qed

lemma fd_va_facts:
  assumes "i < 32"
  shows "unat (fd_va i) = 0x5fc00000 + i * 4096" "unat (data_va i) = 0x60000000 + i * 4194304" "\<not> is_illegal_va (fd_va i)" "\<not> is_illegal_va (data_va i)"
    "fd2num (fd_va i) = of_nat i" "fd2data (fd_va i) = data_va i"
proof -
  have l: "(of_nat i :: u32) < 32" and u: "unat (of_nat i :: u32) = i" using assms by (simp_all add: word_less_nat_alt unat_of_nat)
  show "unat (fd_va i) = 0x5fc00000 + i * 4096" using INDEX2FD_unat [OF l] u by (simp add: fd_va_def)
  show d: "unat (data_va i) = 0x60000000 + i * 4194304" using assms u by (simp add: data_va_def INDEX2DATA_def fd_consts unat_word_ariths)
  show "\<not> is_illegal_va (fd_va i)" "fd2num (fd_va i) = of_nat i" "fd2data (fd_va i) = data_va i"
    using INDEX2FD_facts [OF l] by (simp_all add: fd_va_def data_va_def)
  show "\<not> is_illegal_va (data_va i)" using assms by (simp add: is_illegal_va_def word_le_nat_alt word_less_nat_alt d layout_defs)
qed

lemma fd_va_keys:
  assumes "i < 32" "j < 32"
  shows "key d (fd_va i) = key d (fd_va j) \<longleftrightarrow> i = j" "key d (data_va i) = key d (data_va j) \<longleftrightarrow> i = j" "key d (fd_va i) \<noteq> key d (data_va j)"
    "key d (data_va j) \<noteq> key d (fd_va i)"
proof -
  have "(0x5fc00000 + i * 4096) div 4096 = 0x5fc00 + i" "(0x60000000 + i * 4194304) div 4096 = 0x60000 + i * 1024" for i :: nat
    using div_mult_self4 [of 4096 "0x5fc00 + i" 0] div_mult_self4 [of 4096 "0x60000 + i * 1024" 0] by (simp_all add: algebra_simps)
  then have k: "unat (fd_va i) div 4096 = 0x5fc00 + i" "unat (data_va i) div 4096 = 0x60000 + i * 1024" if "i < 32" for i
    using fd_va_facts(1,2) [OF that] by simp_all
  show "key d (fd_va i) = key d (fd_va j) \<longleftrightarrow> i = j" "key d (data_va i) = key d (data_va j) \<longleftrightarrow> i = j"
    using key_inj [of d "fd_va i" d "fd_va j"] key_inj [of d "data_va i" d "data_va j"] k assms by auto
  show "key d (fd_va i) \<noteq> key d (data_va j)" using key_inj [of d "fd_va i" d "data_va j"] k assms by auto
  then show "key d (data_va j) \<noteq> key d (fd_va i)" by metis
qed

lemma fd_alloc_cases:
  assumes kv: "kinv s dp L X c"
  obtains (full) "fd_alloc s = Inl E_MAX_OPEN" "\<And>i. i < 31 \<Longrightarrow> umaps s dp (key (dp c) (fd_va i)) \<noteq> None"
  | (ok) i where "fd_alloc s = Inr (fd_va i)" "i < 31" "umaps s dp (key (dp c) (fd_va i)) = None"
      "\<And>j. j < i \<Longrightarrow> umaps s dp (key (dp c) (fd_va j)) \<noteq> None"
proof -
  have "\<forall>i \<in> set [0..<31]. i < 32" by simp
  note c = fd_alloc_loop_cases [OF kv this]
  have e: "fd_alloc s = fd_alloc_loop s [0..<31]" unfolding fd_alloc_def MAXFD_def by simp
  show thesis
  proof (cases "fd_alloc_loop s [0..<31]")
    case (Inl er)
    then show thesis using c e by (intro full) (auto simp: fd_va_def)
  next
    case (Inr fd)
    then obtain xs i ys where i: "[0..<31] = xs @ i # ys" "fd = INDEX2FD (of_nat i)" "umaps s dp (key (dp c) fd) = None"
      "\<And>j. j \<in> set xs \<Longrightarrow> umaps s dp (key (dp c) (INDEX2FD (of_nat j))) \<noteq> None"
      using c by (simp only: sum.case) blast
    have l: "length xs < 31" using arg_cong [OF i(1), of length] by simp
    have "[0..<31] ! length xs = i" unfolding i(1) by simp
    then have li: "i = length xs" using l by simp
    have "take (length xs) [0..<31] = xs" unfolding i(1) by simp
    then have "xs = [0..<i]" using l li by simp
    then have "j \<in> set xs" if "j < i" for j using that by simp
    then show thesis using i(2,3,4) Inr e l li by (intro ok [of i]) (simp_all add: fd_va_def)
  qed
qed

lemma alloc_fd_page_cases:
  assumes kv: "kinv s dp L X c"
  obtains (full) "alloc_fd_page s = Some (Inl (neg_errno E_MAX_OPEN), s)" "\<And>i. i < 31 \<Longrightarrow> umaps s dp (key (dp c) (fd_va i)) \<noteq> None"
  | (no_mem) q L' where "alloc_fd_page s = Some (Inl (neg_errno E_NO_MEM), s\<lparr>pm := q\<rparr>)" "kinv (s\<lparr>pm := q\<rparr>) dp L' X c"
      "maps q (dp ` live s) = umaps s dp"
  | (ok) i p q where "alloc_fd_page s = Some (Inr (fd_va i), s\<lparr>pm := q\<rparr>)" "kinv (s\<lparr>pm := q\<rparr>) dp L X c"
      "maps q (dp ` live s) = (umaps s dp)(key (dp c) (fd_va i) \<mapsto> p)" "\<And>ky. umaps s dp ky \<noteq> Some p" "X p = 0" "zero_frame (mem q) p" "keeps s dp (mem q)"
      "ptes q (dp ` live s) = (ptes (pm s) (dp ` live s))(key (dp c) (fd_va i) := new_pte p (PTE_W OR PTE_LIBRARY OR PTE_U))"
      "i < 31" "umaps s dp (key (dp c) (fd_va i)) = None" "\<And>j. j < i \<Longrightarrow> umaps s dp (key (dp c) (fd_va j)) \<noteq> None"
proof (cases rule: fd_alloc_cases [OF kv])
  case 1
  then show thesis by (intro full) (simp_all add: alloc_fd_page_def)
next
  case (2 i)
  have fl: "flag_bits (PTE_W OR PTE_LIBRARY)" by (intro flag_bits_or) (simp_all add: flag_bits_def pte_defs)
  have "\<not> is_illegal_va (fd_va i)" using fd_va_facts(3) 2(2) by simp
  then show thesis
  proof (cases rule: alloc_step [OF kv _ fl, where va = "fd_va i"])
    case n: (2 q L')
    show thesis by (rule no_mem [OF _ n(2,3)]) (simp add: alloc_fd_page_def 2(1) n(1) negative_err)
  next
    case a: (3 p q)
    show thesis by (rule ok [of i q p]) (use a 2 in \<open>simp_all add: alloc_fd_page_def or.assoc\<close>)
  qed
qed

lemma unmap_all_run:
  assumes "kinv s dp L X c" "\<forall>va \<in> set vas. \<not> is_illegal_va va \<and> umaps s dp (key (dp c) va) \<noteq> None" "distinct (map (key (dp c)) vas)"
  shows "\<exists>q. unmap_all vas r s = Some (Inl r, s\<lparr>pm := q\<rparr>) \<and> kinv (s\<lparr>pm := q\<rparr>) dp L X c \<and>
    maps q (dp ` live s) = foldl (\<lambda>m va. m(key (dp c) va := None)) (umaps s dp) vas"
  using assms
proof (induction vas arbitrary: s)
  case Nil
  then show ?case by (intro exI [of _ "pm s"]) (simp add: unmap_all_def)
next
  case (Cons va vas)
  obtain p where p: "umaps s dp (key (dp c) va) = Some p" "\<not> is_illegal_va va" using Cons.prems(2) by auto
  obtain q where q: "sysval (sys_mem_unmap 0 va s) = Some (0, s\<lparr>pm := q\<rparr>)" "kinv (s\<lparr>pm := q\<rparr>) dp L X c"
    "maps q (dp ` live s) = (umaps s dp)(key (dp c) va := None)"
    by (rule unmap_step [OF Cons.prems(1) p(2,1)])
  have rest: "\<forall>va \<in> set vas. \<not> is_illegal_va va \<and> umaps (s\<lparr>pm := q\<rparr>) dp (key (dp c) va) \<noteq> None"
    using Cons.prems(2,3) q(3) by (auto simp: image_iff)
  have run: "unmap_all (va # vas) r s = unmap_all vas r (s\<lparr>pm := q\<rparr>)" using q(1) by (simp add: unmap_all_def)
  show ?case using Cons.IH [OF q(2) rest] Cons.prems(3) q(3) unfolding run by simp
qed

section \<open>A new pipe\<close>

definition pipe_at :: "mem \<Rightarrow> nat \<Rightarrow> pipe" where
  "pipe_at m p = \<lparr>p_rpos = ld32 m (page2pa p), p_wpos = ld32 m (page2pa p + 4),
     p_buf = (\<lambda>i. if i < unat BY2PIPE then m (page2pa p + 8 + of_nat i) else 0)\<rparr>"

lemma pipe_at_zero: "zero_frame m p \<Longrightarrow> pipe_at m p = pp (pipe_new (\<lambda>_. 0))"
proof -
  assume z: "zero_frame m p"
  have k: "m (page2pa p + of_nat k) = 0" if "k < 4096" for k using z that by (simp add: zero_frame_def)
  have "m (page2pa p + 8 + of_nat i) = 0" if "i < 32" for i using k [of "8 + i"] that by (simp add: add.assoc)
  moreover have "ld32 m (page2pa p) = 0" "ld32 m (page2pa p + 4) = 0"
    using k [of 0] k [of 1] k [of 2] k [of 3] k [of 4] k [of 5] k [of 6] k [of 7] by (simp_all add: ld32_def add.assoc)
  ultimately show ?thesis by (simp add: pipe_at_def pipe_new_def BY2PIPE_def fun_eq_iff)
qed

lemma ref_count:
  assumes kv: "kinv s dp L X c" and m: "umaps s dp ky = Some p" and x: "X p = 0"
  shows "unat (pp_ref (pm s) p) = card {ky. umaps s dp ky = Some p}"
proof -
  note I = vm_inv_cases [OF kinv_vm [OF kv]]
  note t = tables_okD(9,10) [OF I(1) m]
  have "{k. ptab (pm s) (dp ` live s) k = Some p} = {}" using t by (auto simp: ran_def)
  then have "Mos_Vm.refs (pm s) (dp ` live s) p = card {ky. umaps s dp ky = Some p}" using t(1) by (simp add: Mos_Vm.refs_def)
  then show ?thesis using I(2) umapped_data(3) [OF kv m] x by (simp add: Mos_Vm.refs_ok_def)
qed

text \<open>Step 3 of \<^verbatim>\<open>pipe\<close>, for one descriptor.\<close>

lemma fd_init:
  assumes v: "uview s dp L X c m" and i: "i < 32" and p: "umaps s dp (key (dp c) (fd_va i)) = Some p"
    and w: "has (ptes (pm s) (dp ` live s) (key (dp c) (fd_va i))) PTE_W"
  shows "uput (fd_va i) a (memupd s m) = Some (memupd s (st32 m (slot p 0) a))" "uview s dp L X c (st32 m (slot p 0) a)"
    "uput (fd_omode (fd_va i)) a (memupd s m) = Some (memupd s (st32 m (slot p 2) a))" "uview s dp L X c (st32 m (slot p 2) a)"
proof -
  have l: "(of_nat i :: u32) < 32" using i by (simp add: word_less_nat_alt unat_of_nat)
  have c: "ucan s dp c PTE_W (INDEX2FD (of_nat i))" using p w by (simp add: ucan_def fd_va_def)
  have "upa s dp c (INDEX2FD (of_nat i)) = page2pa p" using p INDEX2FD_facts(3) [OF l] by (simp add: upa_def fd_va_def)
  then show "uput (fd_va i) a (memupd s m) = Some (memupd s (st32 m (slot p 0) a))" "uview s dp L X c (st32 m (slot p 0) a)"
    "uput (fd_omode (fd_va i)) a (memupd s m) = Some (memupd s (st32 m (slot p 2) a))" "uview s dp L X c (st32 m (slot p 2) a)"
    using uput_fd [OF v l c, of 0 a] uput_fd [OF v l c, of 8 a] by (simp_all add: fd_va_def fd_omode_def slot_def)
qed

definition pipe_made :: "kstate \<Rightarrow> (nat \<Rightarrow> nat) \<Rightarrow> nat \<Rightarrow> nat \<Rightarrow> nat \<Rightarrow> pmap \<Rightarrow> bool" where
  "pipe_made s dp c i j q \<longleftrightarrow> (\<exists>p0 p1 p.
     maps q (dp ` live s) = (umaps s dp)(key (dp c) (fd_va i) \<mapsto> p0, key (dp c) (fd_va j) \<mapsto> p1, key (dp c) (data_va i) \<mapsto> p, key (dp c) (data_va j) \<mapsto> p) \<and>
     distinct [p0, p1, p] \<and> ent (mem q) p0 0 = 112 \<and> ent (mem q) p0 2 = O_RDONLY \<and> ent (mem q) p1 0 = 112 \<and> ent (mem q) p1 2 = O_WRONLY \<and>
     pipe_at (mem q) p = pp (pipe_new (\<lambda>_. 0)) \<and> unat (pp_ref q p0) = rfd_ref (pipe_new (\<lambda>_. 0)) \<and>
     unat (pp_ref q p1) = wfd_ref (pipe_new (\<lambda>_. 0)) \<and> unat (pp_ref q p) = pipe_ref (pipe_new (\<lambda>_. 0)))"

lemma pipe_madeI:
  assumes kv: "kinv (s\<lparr>pm := q\<rparr>) dp L X c" and ij: "i < 32" "j < 32" "i \<noteq> j"
    and m: "maps q (dp ` live s) = (umaps s dp)(key (dp c) (fd_va i) \<mapsto> p0, key (dp c) (fd_va j) \<mapsto> p1, key (dp c) (data_va i) \<mapsto> p, key (dp c) (data_va j) \<mapsto> p)"
    and fr: "\<And>ky. umaps s dp ky \<noteq> Some p0" "\<And>ky. umaps s dp ky \<noteq> Some p1" "\<And>ky. umaps s dp ky \<noteq> Some p" "X p0 = 0" "X p1 = 0" "X p = 0"
    and ne: "p0 \<noteq> p1" "p \<noteq> p0" "p \<noteq> p1"
    and e: "ent (mem q) p0 0 = 112" "ent (mem q) p0 2 = O_RDONLY" "ent (mem q) p1 0 = 112" "ent (mem q) p1 2 = O_WRONLY" "zero_frame (mem q) p"
  shows "pipe_made s dp c i j q"
proof -
  let ?k = "key (dp c)"
  note K = fd_va_keys [OF ij(1,2), of "dp c"] fd_va_keys [OF ij(1,1), of "dp c"] fd_va_keys [OF ij(2,2), of "dp c"] fd_va_keys [OF ij(2,1), of "dp c"]
  have sets: "{ky. maps q (dp ` live s) ky = Some p0} = {?k (fd_va i)}" "{ky. maps q (dp ` live s) ky = Some p1} = {?k (fd_va j)}"
    "{ky. maps q (dp ` live s) ky = Some p} = {?k (data_va i), ?k (data_va j)}"
    unfolding m using K ij(3) fr(1-3) ne by (auto split: if_splits)
  then have "maps q (dp ` live s) (?k (fd_va i)) = Some p0" "maps q (dp ` live s) (?k (fd_va j)) = Some p1" "maps q (dp ` live s) (?k (data_va i)) = Some p"
    by auto
  note rc = ref_count [OF kv, simplified, OF this(1) fr(4)] ref_count [OF kv, simplified, OF this(2) fr(5)] ref_count [OF kv, simplified, OF this(3) fr(6)]
  have "unat (pp_ref q p0) = 1" "unat (pp_ref q p1) = 1" "unat (pp_ref q p) = 2" using rc K ij(3) unfolding sets by simp_all
  then show ?thesis unfolding pipe_made_def using m ne e(1-4) pipe_at_zero [OF e(5)]
    by (intro exI [of _ p0] exI [of _ p1] exI [of _ p]) (simp add: pipe_new_def pipe_ref_def)
qed

lemma keeps_trans:
  assumes "keeps s dp (mem q1)" "keeps (s\<lparr>pm := q1\<rparr>) dp m" "\<And>ky p. umaps s dp ky = Some p \<Longrightarrow> maps q1 (dp ` live s) ky = Some p"
  shows "keeps s dp m"
  unfolding keeps_def
proof (intro allI impI)
  fix ky p assume u: "umaps s dp ky = Some p"
  show "same_frame (mem (pm s)) m p"
    using same_frame_trans [OF keepsD [OF assms(1) u], of m] keepsD [OF assms(2), of ky p] assms(3) [OF u] by simp
qed

lemma pipe_stores:
  assumes kv: "kinv s dp L X c" and ij: "i < 32" "j < 32"
    and m: "umaps s dp (key (dp c) (fd_va i)) = Some p0" "umaps s dp (key (dp c) (fd_va j)) = Some p1" and ne: "p0 \<noteq> p1"
    and w: "has (ptes (pm s) (dp ` live s) (key (dp c) (fd_va i))) PTE_W" "has (ptes (pm s) (dp ` live s) (key (dp c) (fd_va j))) PTE_W"
  obtains m' where "do { s \<leftarrow> uput (fd_va i) 112 s; s \<leftarrow> uput (fd_omode (fd_va i)) O_RDONLY s; s \<leftarrow> uput (fd_va j) 112 s;
      s \<leftarrow> uput (fd_omode (fd_va j)) O_WRONLY s; Some (f s) } = Some (f (memupd s m'))" "uview s dp L X c m'"
    "ent m' p0 0 = 112" "ent m' p0 2 = O_RDONLY" "ent m' p1 0 = 112" "ent m' p1 2 = O_WRONLY"
    "\<And>x. x < page_bound \<Longrightarrow> x \<noteq> p0 \<Longrightarrow> x \<noteq> p1 \<Longrightarrow> same_frame (mem (pm s)) m' x"
proof -
  define m1 where "m1 = st32 (mem (pm s)) (slot p0 0) 112"
  define m2 where "m2 = st32 m1 (slot p0 2) O_RDONLY"
  define m3 where "m3 = st32 m2 (slot p1 0) 112"
  define m4 where "m4 = st32 m3 (slot p1 2) O_WRONLY"
  note d = m1_def m2_def m3_def m4_def
  note a = fd_init [OF _ ij(1) m(1) w(1)] and b = fd_init [OF _ ij(2) m(2) w(2)]
  have v1: "uview s dp L X c m1" unfolding d by (rule a(2) [OF uview_init [OF kv]])
  have v2: "uview s dp L X c m2" unfolding m2_def by (rule a(4) [OF v1])
  have v3: "uview s dp L X c m3" unfolding m3_def by (rule b(2) [OF v2])
  have v4: "uview s dp L X c m4" unfolding m4_def by (rule b(4) [OF v3])
  have nb: "unat (npage (pm s)) \<le> page_bound" using tables_okD(1) [OF vm_inv_cases(1) [OF kinv_vm [OF kv]]] .
  have pb: "p0 < page_bound" "p1 < page_bound" using umapped_data(3) [OF kv] m nb by fastforce+
  show thesis
  proof (rule that [of m4])
    show "do { s \<leftarrow> uput (fd_va i) 112 s; s \<leftarrow> uput (fd_omode (fd_va i)) O_RDONLY s; s \<leftarrow> uput (fd_va j) 112 s;
        s \<leftarrow> uput (fd_omode (fd_va j)) O_WRONLY s; Some (f s) } = Some (f (memupd s m4))"
      using a(1) [OF uview_init [OF kv]] a(3) [OF v1] b(1) [OF v2] b(3) [OF v3] by (simp add: d)
    show "ent m4 p0 0 = 112" "ent m4 p0 2 = O_RDONLY" "ent m4 p1 0 = 112" "ent m4 p1 2 = O_WRONLY"
      unfolding d using ne pb by (simp_all add: ent_st32)
    show "same_frame (mem (pm s)) m4 x" if "x < page_bound" "x \<noteq> p0" "x \<noteq> p1" for x
    proof -
      have st: "same_frame m (st32 m (slot p l) a) x" if "p < page_bound" "x \<noteq> p" "l < 1024" for m p l a
        by (rule same_frame_st32) (use that \<open>x < page_bound\<close> in simp_all)
      have "same_frame (mem (pm s)) m1 x" "same_frame m1 m2 x" "same_frame m2 m3 x" "same_frame m3 m4 x" unfolding d using that pb by (auto intro!: st)
      then show ?thesis by (blast intro: same_frame_trans)
    qed
  qed (rule v4)
qed

text \<open>Step 2 and step 3 of \<^verbatim>\<open>pipe\<close>, once both descriptors have their pages.\<close>

definition pipe_tail :: "nat \<Rightarrow> nat \<Rightarrow> kstate \<Rightarrow> ((u32 + u32 \<times> u32) \<times> kstate) option" where
  "pipe_tail i j s = do {
     (r, s) \<leftarrow> sysval (sys_mem_alloc 0 (data_va i) (PTE_W OR PTE_LIBRARY) s);
     if negative r then unmap_all [fd_va j, fd_va i] r s
     else do {
       (r, s) \<leftarrow> sysval (sys_mem_map 0 (data_va i) 0 (data_va j) (PTE_W OR PTE_LIBRARY) s);
       if negative r then unmap_all [data_va i, fd_va j, fd_va i] r s
       else do {
         s \<leftarrow> uput (fd_va i) 112 s;
         s \<leftarrow> uput (fd_omode (fd_va i)) O_RDONLY s;
         s \<leftarrow> uput (fd_va j) 112 s;
         s \<leftarrow> uput (fd_omode (fd_va j)) O_WRONLY s;
         Some (Inr (of_nat i, of_nat j), s) } } }"

definition undone :: "kstate \<Rightarrow> (nat \<Rightarrow> nat) \<Rightarrow> (nat \<Rightarrow> nat) \<Rightarrow> nat \<Rightarrow> ((u32 + u32 \<times> u32) \<times> kstate) option \<Rightarrow> (nat \<times> u32 \<times> u32 \<Rightarrow> nat option) \<Rightarrow> bool" where
  "undone s dp X c res M \<longleftrightarrow> (\<exists>q L' r. res = Some (Inl r, s\<lparr>pm := q\<rparr>) \<and> (r = neg_errno E_MAX_OPEN \<or> r = neg_errno E_NO_MEM) \<and>
     kinv (s\<lparr>pm := q\<rparr>) dp L' X c \<and> maps q (dp ` live s) = M)"

lemma lib_flags: "flag_bits (PTE_W OR PTE_LIBRARY)"
  by (intro flag_bits_or) (simp_all add: flag_bits_def pte_defs)

lemma lib_W: "has (new_pte p (PTE_W OR PTE_LIBRARY OR PTE_U)) PTE_W"
  unfolding has_new_pte by (simp add: has_bits bit_or_iff) (simp add: pte_defs)

lemma unmap_undone:
  assumes kv: "kinv (s\<lparr>pm := q\<rparr>) dp L X c" and vas: "\<forall>va \<in> set vas. \<not> is_illegal_va va \<and> maps q (dp ` live s) (key (dp c) va) \<noteq> None"
    "distinct (map (key (dp c)) vas)" and M: "foldl (\<lambda>m va. m(key (dp c) va := None)) (maps q (dp ` live s)) vas = M"
  shows "undone s dp X c (unmap_all vas (neg_errno E_NO_MEM) (s\<lparr>pm := q\<rparr>)) M"
    "undone s dp X c (unmap_all vas (neg_errno E_MAX_OPEN) (s\<lparr>pm := q\<rparr>)) M"
proof -
  have vas': "\<forall>va \<in> set vas. \<not> is_illegal_va va \<and> umaps (s\<lparr>pm := q\<rparr>) dp (key (dp c) va) \<noteq> None" using vas(1) by simp
  obtain q1 where "unmap_all vas (neg_errno E_NO_MEM) (s\<lparr>pm := q\<rparr>) = Some (Inl (neg_errno E_NO_MEM), s\<lparr>pm := q1\<rparr>)" "kinv (s\<lparr>pm := q1\<rparr>) dp L X c"
    "maps q1 (dp ` live s) = M" using unmap_all_run [OF kv vas' vas(2), of "neg_errno E_NO_MEM"] M by auto
  then show "undone s dp X c (unmap_all vas (neg_errno E_NO_MEM) (s\<lparr>pm := q\<rparr>)) M" unfolding undone_def by blast
  obtain q2 where "unmap_all vas (neg_errno E_MAX_OPEN) (s\<lparr>pm := q\<rparr>) = Some (Inl (neg_errno E_MAX_OPEN), s\<lparr>pm := q2\<rparr>)" "kinv (s\<lparr>pm := q2\<rparr>) dp L X c"
    "maps q2 (dp ` live s) = M" using unmap_all_run [OF kv vas' vas(2), of "neg_errno E_MAX_OPEN"] M by auto
  then show "undone s dp X c (unmap_all vas (neg_errno E_MAX_OPEN) (s\<lparr>pm := q\<rparr>)) M" unfolding undone_def by blast
qed

lemma pipe_tail_cases:
  assumes kv: "kinv s dp L X c" and ij: "i < 32" "j < 32" "i \<noteq> j" and B: "umaps s dp = B(key (dp c) (fd_va i) \<mapsto> p0, key (dp c) (fd_va j) \<mapsto> p1)"
    and un: "B (key (dp c) (fd_va i)) = None" "B (key (dp c) (fd_va j)) = None" "B (key (dp c) (data_va i)) = None"
    and fr: "\<And>ky. B ky \<noteq> Some p0" "\<And>ky. B ky \<noteq> Some p1" "p0 \<noteq> p1" "X p0 = 0" "X p1 = 0"
    and w: "has (ptes (pm s) (dp ` live s) (key (dp c) (fd_va i))) PTE_W" "has (ptes (pm s) (dp ` live s) (key (dp c) (fd_va j))) PTE_W"
  obtains (undo) "undone s dp X c (pipe_tail i j s) B"
  | (ok) q p where "pipe_tail i j s = Some (Inr (of_nat i, of_nat j), s\<lparr>pm := q\<rparr>)" "kinv (s\<lparr>pm := q\<rparr>) dp L X c"
      "maps q (dp ` live s) = B(key (dp c) (fd_va i) \<mapsto> p0, key (dp c) (fd_va j) \<mapsto> p1, key (dp c) (data_va i) \<mapsto> p, key (dp c) (data_va j) \<mapsto> p)"
      "p \<noteq> p0" "p \<noteq> p1" "\<And>ky. B ky \<noteq> Some p" "X p = 0" "ent (mem q) p0 0 = 112" "ent (mem q) p0 2 = O_RDONLY" "ent (mem q) p1 0 = 112" "ent (mem q) p1 2 = O_WRONLY"
      "zero_frame (mem q) p" "\<And>x ky. B ky = Some x \<Longrightarrow> same_frame (mem (pm s)) (mem q) x"
proof -
  note K = fd_va_keys [OF ij(1,2)] fd_va_keys [OF ij(2,1)] fd_va_keys [OF ij(1,1)] fd_va_keys [OF ij(2,2)] and F = fd_va_facts [OF ij(1)] fd_va_facts [OF ij(2)]
  let ?k = "key (dp c)"
  show thesis
  proof (cases rule: alloc_step [OF kv F(4) lib_flags])
    case (1 q L')
    have "undone s dp X c (unmap_all [fd_va j, fd_va i] (neg_errno E_NO_MEM) (s\<lparr>pm := q\<rparr>)) B"
      by (rule unmap_undone(1) [OF 1(2)]) (use 1(3) B F K ij un in \<open>auto simp: fun_eq_iff\<close>)
    then show thesis using 1(1) by (intro undo) (simp add: pipe_tail_def negative_err)
  next
    case (2 p q1)
    let ?s = "s\<lparr>pm := q1\<rparr>"
    have mp: "maps q1 (dp ` live s) = B(?k (fd_va i) \<mapsto> p0, ?k (fd_va j) \<mapsto> p1, ?k (data_va i) \<mapsto> p)" using 2(3) B by simp
    have pn: "p \<noteq> p0" "p \<noteq> p1" "B ky \<noteq> Some p" for ky
      using 2(4) [of "?k (fd_va i)"] 2(4) [of "?k (fd_va j)"] 2(4) [of ky] un B K ij by (auto split: if_splits)
    have one: "{ky. umaps ?s dp ky = Some p} = {?k (data_va i)}" using mp pn K ij by (auto split: if_splits)
    have mi: "umaps ?s dp (?k (data_va i)) = Some p" using 2(3) by simp
    have rc: "unat (pp_ref (pm ?s) p) < 65535" using ref_count [OF 2(2) mi 2(5)] unfolding one by simp
    show thesis
    proof (cases rule: map_step [OF 2(2) F(4) F(10) lib_flags mi rc])
      case n: 1
      have "undone s dp X c (unmap_all [data_va i, fd_va j, fd_va i] (neg_errno E_NO_MEM) ?s) B"
        by (rule unmap_undone(1) [OF 2(2)]) (use mp F K ij un in \<open>auto simp: fun_eq_iff\<close>)
      then show thesis using 2(1) n by (intro undo) (simp add: pipe_tail_def negative_err)
    next
      case o: (2 q2)
      let ?t = "s\<lparr>pm := q2\<rparr>"
      have kt: "kinv ?t dp L X c" using o(2) by simp
      have mt: "maps q2 (dp ` live s) = B(?k (fd_va i) \<mapsto> p0, ?k (fd_va j) \<mapsto> p1, ?k (data_va i) \<mapsto> p, ?k (data_va j) \<mapsto> p)" using o(3) mp by simp
      have e: "umaps ?t dp (?k (fd_va i)) = Some p0" "umaps ?t dp (?k (fd_va j)) = Some p1" using K ij by (simp_all add: mt)
      have wt: "has (ptes (pm ?t) (dp ` live ?t) (?k (fd_va i))) PTE_W" "has (ptes (pm ?t) (dp ` live ?t) (?k (fd_va j))) PTE_W"
        using o(5) 2(8) w K ij by simp_all
      obtain m' where m': "do { s \<leftarrow> uput (fd_va i) 112 ?t; s \<leftarrow> uput (fd_omode (fd_va i)) O_RDONLY s; s \<leftarrow> uput (fd_va j) 112 s;
          s \<leftarrow> uput (fd_omode (fd_va j)) O_WRONLY s; Some (Inr (of_nat i :: u32, of_nat j :: u32) :: u32 + u32 \<times> u32, s) } = Some (Inr (of_nat i, of_nat j), memupd ?t m')"
        "uview ?t dp L X c m'" "ent m' p0 0 = 112" "ent m' p0 2 = O_RDONLY" "ent m' p1 0 = 112" "ent m' p1 2 = O_WRONLY"
        "\<And>x. x < page_bound \<Longrightarrow> x \<noteq> p0 \<Longrightarrow> x \<noteq> p1 \<Longrightarrow> same_frame (mem (pm ?t)) m' x"
        using pipe_stores [OF kt ij(1,2) e fr(3) wt, where f = "\<lambda>s. (Inr (of_nat i, of_nat j), s)"] by blast
      define q where "q = q2\<lparr>mem := m'\<rparr>"
      have st: "memupd ?t m' = s\<lparr>pm := q\<rparr>" by (simp add: memupd_def q_def)
      have nb: "x < page_bound" if "umaps ?t dp ky = Some x" for x ky
        using umapped_data(1) [OF kt that] by (simp add: data_frame_def)
      have sf: "same_frame (mem (pm s)) m' x" if "B ky = Some x" for x ky
      proof -
        have x: "x \<noteq> p0" "x \<noteq> p1" "x \<noteq> p" using fr(1) [of ky] fr(2) [of ky] pn(3) [of ky] that by auto
        have ky: "ky \<noteq> ?k (fd_va i)" "ky \<noteq> ?k (fd_va j)" "ky \<noteq> ?k (data_va i)" using that un by auto
        then have u: "umaps s dp ky = Some x" "umaps ?s dp ky = Some x" using that B mp by simp_all
        have "x < page_bound" using umapped_data(1) [OF kv u(1)] by (simp add: data_frame_def)
        moreover have "same_frame (mem (pm s)) (mem q1) x" using 2(7) u(1) by (auto simp: keeps_def)
        moreover have "same_frame (mem q1) (mem q2) x" using o(4) u(2) by (auto simp: keeps_def)
        moreover have "same_frame (mem q2) m' x" using m'(7) [of x] x calculation(1) by simp
        ultimately show ?thesis by (blast intro: same_frame_trans)
      qed
      have zf: "zero_frame m' p"
      proof -
        have "same_frame (mem q1) (mem q2) p" using o(4) mi by (auto simp: keeps_def)
        moreover have "p < page_bound" by (rule nb [of "?k (data_va j)"]) (simp add: mt)
        moreover have "same_frame (mem q2) m' p" using m'(7) [of p] pn(1,2) calculation(2) by simp
        ultimately show ?thesis using zero_frame_same [OF zero_frame_same [OF 2(6)]] by simp
      qed
      have run: "pipe_tail i j s = Some (Inr (of_nat i, of_nat j), s\<lparr>pm := q\<rparr>)"
        using 2(1) o(1) m'(1) unfolding st by (simp add: pipe_tail_def)
      have kq: "kinv (s\<lparr>pm := q\<rparr>) dp L X c" using m'(2) unfolding uview_def st by simp
      have mq: "maps q (dp ` live s) = umaps ?t dp" using uview_maps [OF m'(2)] by (simp add: q_def)
      show thesis by (rule ok [OF run kq]) (use mq mt pn 2(5) m'(3-6) zf sf in \<open>simp_all add: q_def\<close>)
    qed
  qed
qed


lemma upipe_pages:
  assumes "alloc_fd_page s = Some (Inr (fd_va i), s1)" "alloc_fd_page s1 = Some (Inr (fd_va j), s2)" "i < 32" "j < 32"
  shows "upipe s = pipe_tail i j s2"
  unfolding pipe_tail_def fd_va_facts(5,6) [OF assms(3), symmetric] fd_va_facts(5,6) [OF assms(4), symmetric]
  using assms(1,2) by (simp add: upipe_def Let_def)

text \<open>The two descriptors: the lowest two that are free, each with a fresh page.\<close>

lemma two_fd_pages_cases:
  assumes kv: "kinv s dp L X c"
  obtains (undo) "undone s dp X c (upipe s) (umaps s dp)"
  | (ok) i j p0 p1 q where "upipe s = pipe_tail i j (s\<lparr>pm := q\<rparr>)" "kinv (s\<lparr>pm := q\<rparr>) dp L X c" "i < j" "j < 31"
      "{k. k \<le> j \<and> umaps s dp (key (dp c) (fd_va k)) = None} = {i, j}"
      "maps q (dp ` live s) = (umaps s dp)(key (dp c) (fd_va i) \<mapsto> p0, key (dp c) (fd_va j) \<mapsto> p1)"
      "\<And>ky. umaps s dp ky \<noteq> Some p0" "\<And>ky. umaps s dp ky \<noteq> Some p1" "p0 \<noteq> p1" "X p0 = 0" "X p1 = 0"
      "has (ptes q (dp ` live s) (key (dp c) (fd_va i))) PTE_W" "has (ptes q (dp ` live s) (key (dp c) (fd_va j))) PTE_W" "keeps s dp (mem q)"
proof (cases rule: alloc_fd_page_cases [OF kv])
  case 1
  then have "upipe s = Some (Inl (neg_errno E_MAX_OPEN), s\<lparr>pm := pm s\<rparr>)" by (simp add: upipe_def)
  then have "undone s dp X c (upipe s) (umaps s dp)" unfolding undone_def using kv by fastforce
  then show thesis by (rule undo)
next
  case (2 q L')
  then have "upipe s = Some (Inl (neg_errno E_NO_MEM), s\<lparr>pm := q\<rparr>)" by (simp add: upipe_def)
  then have "undone s dp X c (upipe s) (umaps s dp)" unfolding undone_def using 2 by fastforce
  then show thesis by (rule undo)
next
  case a: (3 i p0 q1)
  let ?k = "key (dp c)"
  have i: "i < 32" using a(9) by simp
  have undo1: "foldl (\<lambda>m va. m(?k va := None)) (maps q1 (dp ` live s)) [fd_va i] = umaps s dp" using a(3,10) by (simp add: fun_eq_iff)
  have ok1: "\<forall>va \<in> set [fd_va i]. \<not> is_illegal_va va \<and> maps q1 (dp ` live s) (?k va) \<noteq> None" using a(3) fd_va_facts(3) [OF i] by simp
  show thesis
  proof (cases rule: alloc_fd_page_cases [OF a(2)])
    case 1
    then have "upipe s = unmap_all [fd_va i] (neg_errno E_MAX_OPEN) (s\<lparr>pm := q1\<rparr>)" using a(1) by (simp add: upipe_def)
    then show thesis using unmap_undone(2) [OF a(2) ok1 _ undo1] by (intro undo) simp
  next
    case n: (2 q2 L')
    have "upipe s = unmap_all [fd_va i] (neg_errno E_NO_MEM) (s\<lparr>pm := q2\<rparr>)" using a(1) n(1) by (simp add: upipe_def)
    then show thesis using unmap_undone(1) [of q2 s dp L' X c "[fd_va i]"] ok1 undo1 n(2,3) by (intro undo) simp
  next
    case b: (3 j p1 q2)
    have j: "j < 32" "j < 31" using b(9) by simp_all
    have unused: "umaps s dp (?k (fd_va j)) = None" "i \<noteq> j"
      using b(10) a(3) fd_va_keys(1) [OF i j(1), of "dp c"] by (auto split: if_splits)
    have lower: "umaps s dp (?k (fd_va k)) \<noteq> None" if "k < j" "k \<noteq> i" for k
      using b(11) [OF that(1)] a(3) fd_va_keys(1) [of k i "dp c"] that i j by (auto split: if_splits)
    have ij: "i < j" using a(11) [of j] unused by (meson linorder_neqE_nat)
    show thesis
    proof (rule ok [of i j q2 p0 p1])
      show "upipe s = pipe_tail i j (s\<lparr>pm := q2\<rparr>)" using upipe_pages [OF a(1), of j "s\<lparr>pm := q2\<rparr>"] b(1) i j by simp
      show "{k. k \<le> j \<and> umaps s dp (?k (fd_va k)) = None} = {i, j}" using lower unused(1) a(10) ij by (force simp: le_less)
      show "umaps s dp ky \<noteq> Some p0" "umaps s dp ky \<noteq> Some p1" "p0 \<noteq> p1" for ky
        using a(4) [of ky] b(4) [of "?k (fd_va i)"] b(4) [of ky] a(10) a(3) by (auto split: if_splits)
      show "has (ptes q2 (dp ` live s) (?k (fd_va i))) PTE_W" "has (ptes q2 (dp ` live s) (?k (fd_va j))) PTE_W"
        using b(8) a(8) lib_W fd_va_keys(1) [OF i j(1), of "dp c"] unused(2) by simp_all
      show "keeps s dp (mem q2)" by (rule keeps_trans [OF a(7) b(7)]) (use a(3,10) in auto)
    qed (use a b ij j in simp_all)
  qed
qed




end
