(* ===== verification/Mos_Spawn.thy ===== *)
theory Mos_Spawn
  imports Mos_Fd_Pipe
begin

text \<open>
  Starting a program from a file: \<^verbatim>\<open>user/lib/spawn.c\<close> on the model of the kernel.  The arguments are lists of bytes without the terminating zero;
  the local arrays of \<^verbatim>\<open>spawn\<close> are at addresses that are parameters.  Shown is what the new program finds on its stack.
\<close>

declare split_paired_All [simp del] split_paired_Ex [simp del]

section \<open>The stack of the new program (spawn.c)\<close>

fun put_strings :: "u32 \<Rightarrow> u8 list list \<Rightarrow> kstate \<Rightarrow> kstate option" where
  "put_strings ctemp [] s = Some s"
| "put_strings ctemp (a # argv) s = do {
     s \<leftarrow> kstores ctemp a s;
     s \<leftarrow> kstore8 (ctemp + of_nat (length a)) 0 s;
     put_strings (ctemp + of_nat (length a) + 1) argv s }"

fun put_args :: "u32 \<Rightarrow> u32 \<Rightarrow> u8 list list \<Rightarrow> kstate \<Rightarrow> (u32 \<times> kstate) option" where
  "put_args args ctemp [] s = Some (ctemp, s)"
| "put_args args ctemp (a # argv) s = do {
     s \<leftarrow> uput args ctemp s;
     put_args (args + 4) (ctemp + (of_nat (length a) + 1)) argv s }"

definition args_size :: "u8 list list \<Rightarrow> nat" where
  "args_size argv = sum_list (map (\<lambda>a. length a + 1) argv)"

definition init_stack :: "u32 \<Rightarrow> u8 list list \<Rightarrow> kstate \<Rightarrow> ((u32 + u32) \<times> kstate) option" where
  "init_stack child argv s =
     (let tot = of_nat (args_size argv); argc = of_nat (length argv)
      in if ROUND tot 4 + 4 * (argc + 3) > BY2PG then Some (Inl (neg_errno E_NO_MEM), s)
         else do {
           let strings = UTEMP + BY2PG - tot;
           let args = UTEMP + BY2PG - ROUND tot 4 - 4 * (argc + 1);
           (r, s) \<leftarrow> sysval (sys_mem_alloc 0 UTEMP PTE_W s);
           if negative r then Some (Inl r, s)
           else do {
             s \<leftarrow> put_strings strings argv s;
             (ctemp, s) \<leftarrow> put_args args (USTACKTOP - UTEMP - BY2PG + strings) argv s;
             s \<leftarrow> uput (args + 4 * argc) (ctemp - 1) s;
             s \<leftarrow> uput (args - 4) (USTACKTOP - UTEMP - BY2PG + args) s;
             s \<leftarrow> uput (args - 8) argc s;
             let init_sp = USTACKTOP - UTEMP - BY2PG + (args - 8);
             (r, s) \<leftarrow> sysval (sys_mem_map 0 UTEMP child (USTACKTOP - BY2PG) PTE_W s);
             if negative r then do { (_, s) \<leftarrow> sysval (sys_mem_unmap 0 UTEMP s); Some (Inl r, s) }
             else do {
               (r, s) \<leftarrow> sysval (sys_mem_unmap 0 UTEMP s);
               if negative r then do { (_, s) \<leftarrow> sysval (sys_mem_unmap 0 UTEMP s); Some (Inl r, s) }
               else Some (Inr init_sp, s) } } })"

section \<open>Loading the program\<close>

text \<open>The value that a system call returns, as an error of \<open>elf_load_seg\<close>.\<close>

definition err_of :: "u32 \<Rightarrow> err" where
  "err_of r = (case find (\<lambda>e. neg_errno e = r) [E_BAD_ENV, E_INVAL, E_NO_MEM] of Some e \<Rightarrow> e | None \<Rightarrow> E_UNSPECIFIED)"

definition spawn_mapper :: "u32 \<Rightarrow> kstate elf_mapper" where
  "spawn_mapper child_id va offset perm src n s = do {
     (r, s) \<leftarrow> sysval (sys_mem_alloc child_id va perm s);
     if r \<noteq> 0 then Some (Inl (err_of r), s)
     else case src of
            None \<Rightarrow> Some (Inr (), s)
          | Some src \<Rightarrow> do {
              (r, s) \<leftarrow> sysval (sys_mem_map child_id va 0 UTEMP (perm OR PTE_W) s);
              if r \<noteq> 0 then do { (_, s) \<leftarrow> sysval (sys_mem_unmap child_id va s); Some (Inl (err_of r), s) }
              else do {
                s \<leftarrow> ucopy (UTEMP + offset) src (unat n) s;
                (r, s) \<leftarrow> sysval (sys_mem_unmap 0 UTEMP s);
                Some (if r \<noteq> 0 then Inl (err_of r) else Inr (), s) } } }"

text \<open>\<^verbatim>\<open>elfbuf\<close> as the loader functions read it.\<close>

definition buf_mem :: "u8 list \<Rightarrow> mem" where
  "buf_mem bs = (\<lambda>a. if unat a < length bs then bs ! unat a else 0)"

definition uget16 :: "u32 \<Rightarrow> kstate \<Rightarrow> (u32 \<times> kstate) option" where
  "uget16 va s = do { (bs, s) \<leftarrow> kloads va 2 s; Some (ucast (ld16 (buf_mem bs) 0), s) }"

text \<open>One turn of the loop over the program headers; \<open>Inl\<close> is the \<^verbatim>\<open>goto err1\<close>.  \<^verbatim>\<open>e_phnum\<close> and \<^verbatim>\<open>e_phentsize\<close> are read from \<^verbatim>\<open>elfbuf\<close> each time, of which
  \<^verbatim>\<open>readn\<close> has overwritten the beginning.\<close>

definition spawn_phdr :: "uio \<Rightarrow> u32 \<Rightarrow> u32 \<Rightarrow> u32 \<Rightarrow> u32 \<Rightarrow> kstate \<Rightarrow> ((u32 + unit) \<times> kstate) option" where
  "spawn_phdr io fd elfbuf child ph_off s = do {
     (r, s) \<leftarrow> useek fd ph_off s;
     if negative r then Some (Inl r, s)
     else do {
       (phentsize, s) \<leftarrow> uget16 (elfbuf + 42) s;
       (r, s) \<leftarrow> readn io fd elfbuf phentsize s;
       if negative r then Some (Inl r, s)
       else do {
         (bs, s) \<leftarrow> kloads elfbuf 32 s;
         let ph = read_phdr (buf_mem bs) 0;
         if p_type ph \<noteq> PT_LOAD then Some (Inr (), s)
         else do {
           (b, s) \<leftarrow> read_map fd (p_offset ph) s;
           case b of
             Inl e \<Rightarrow> Some (Inl (neg_errno e), s)
           | Inr bin \<Rightarrow> do {
               (r, s) \<leftarrow> elf_load_seg ph bin (spawn_mapper child) s;
               Some (case r of Inl e \<Rightarrow> Inl (neg_errno e) | Inr _ \<Rightarrow> Inr (), s) } } } } }"

partial_function (option) spawn_phdrs :: "uio \<Rightarrow> u32 \<Rightarrow> u32 \<Rightarrow> u32 \<Rightarrow> nat \<Rightarrow> u32 \<Rightarrow> kstate \<Rightarrow> ((u32 + unit) \<times> kstate) option" where
  "spawn_phdrs io fd elfbuf child idx ph_off s = do {
     (phnum, s) \<leftarrow> uget16 (elfbuf + 44) s;
     if idx < unat phnum then do {
       (r, s) \<leftarrow> spawn_phdr io fd elfbuf child ph_off s;
       case r of
         Inl e \<Rightarrow> Some (Inl e, s)
       | Inr _ \<Rightarrow> do {
           (phentsize, s) \<leftarrow> uget16 (elfbuf + 42) s;
           spawn_phdrs io fd elfbuf child (idx + 1) (ph_off + phentsize) s } }
     else Some (Inr (), s) }"

text \<open>The pages that parent and child share.\<close>

fun share_ptes :: "u32 \<Rightarrow> nat \<Rightarrow> nat list \<Rightarrow> kstate \<Rightarrow> ures" where
  "share_ptes child pdeno [] s = Some (0, s)"
| "share_ptes child pdeno (pteno # rest) s = do {
     let va = of_nat (pdeno * 1024 + pteno) * BY2PG;
     pte \<leftarrow> vpt_at s va;
     let perm = pte AND 0xFFF;
     if has perm PTE_V \<and> has perm PTE_LIBRARY then do {
       (r, s) \<leftarrow> sysval (sys_mem_map 0 va child va perm s);
       if negative r then Some (r, s) else share_ptes child pdeno rest s }
     else share_ptes child pdeno rest s }"

fun share_pdes :: "u32 \<Rightarrow> nat list \<Rightarrow> kstate \<Rightarrow> ures" where
  "share_pdes child [] s = Some (0, s)"
| "share_pdes child (pdeno # rest) s =
     (if \<not> has (vpd_at s (of_nat pdeno * PDMAP)) PTE_V then share_pdes child rest s
      else do {
        (r, s) \<leftarrow> share_ptes child pdeno [0..<1024] s;
        if negative r then Some (r, s) else share_pdes child rest s })"

text \<open>The labels \<^verbatim>\<open>err2\<close>, \<^verbatim>\<open>err1\<close> and \<^verbatim>\<open>err\<close>.  \<open>R\<close> are the bits that the scheduler reads when an environment is destroyed; \<^verbatim>\<open>elfbuf\<close> and \<^verbatim>\<open>tf\<close> are on the
  stack, at the addresses \<open>elfbuf\<close> and \<open>tfva\<close>.\<close>

definition spawn_err2 :: "(u32 \<Rightarrow> u32) \<Rightarrow> u32 \<Rightarrow> u32 \<Rightarrow> kstate \<Rightarrow> ures" where
  "spawn_err2 R child r s = do { (_, s) \<leftarrow> sysval (sys_env_destroy R child s); Some (r, s) }"

definition spawn_err :: "uio \<Rightarrow> u32 \<Rightarrow> u32 \<Rightarrow> kstate \<Rightarrow> ures" where
  "spawn_err io fd r s = do { (_, s) \<leftarrow> uclose io fd s; Some (r, s) }"

definition spawn_err1 :: "uio \<Rightarrow> (u32 \<Rightarrow> u32) \<Rightarrow> u32 \<Rightarrow> u32 \<Rightarrow> u32 \<Rightarrow> kstate \<Rightarrow> ures" where
  "spawn_err1 io R child fd r s = do { (_, s) \<leftarrow> sysval (sys_env_destroy R child s); spawn_err io fd r s }"

text \<open>From the loaded program to the running child.\<close>

definition spawn_start :: "(u32 \<Rightarrow> u32) \<Rightarrow> u32 \<Rightarrow> u32 \<Rightarrow> u32 \<Rightarrow> u32 \<Rightarrow> kstate \<Rightarrow> ures" where
  "spawn_start R tfva child entrypoint sp s = do {
     s \<leftarrow> kstores tfva (tf_bytes ((env_tf (envs s (ENVX child)))\<lparr>tf_sepc := entrypoint, tf_sscratch := sp\<rparr>)) s;
     (r, s) \<leftarrow> sysval (sys_set_trapframe child tfva s);
     if r \<noteq> 0 then spawn_err2 R child r s
     else do {
       (r, s) \<leftarrow> share_pdes child [0..<unat (PDX USTACKTOP) + 1] s;
       if negative r then spawn_err2 R child r s
       else do {
         (r, s) \<leftarrow> sysval (sys_set_env_status child ENV_RUNNABLE s);
         if negative r then spawn_err2 R child r s else Some (child, s) } } }"

definition spawn :: "uio \<Rightarrow> (u32 \<Rightarrow> u32) \<Rightarrow> u32 \<Rightarrow> u32 \<Rightarrow> u8 list \<Rightarrow> u8 list list \<Rightarrow> kstate \<Rightarrow> ures" where
  "spawn io R elfbuf tfva prog argv s = do {
     (fd, s) \<leftarrow> uopen io prog O_RDONLY s;
     if negative fd then Some (fd, s)
     else do {
       (r, s) \<leftarrow> readn io fd elfbuf 512 s;
       if negative r then spawn_err io fd r s
       else do {
         (bs, s) \<leftarrow> kloads elfbuf (unat sizeof_Elf32_Ehdr) s;
         case elf_from (buf_mem bs) 0 sizeof_Elf32_Ehdr of
           None \<Rightarrow> spawn_err io fd (neg_errno E_NOT_EXEC) s
         | Some ehdr \<Rightarrow> do {
             (child, s) \<leftarrow> sysval (sys_exofork s);
             if negative child then spawn_err io fd child s
             else do {
               (r, s) \<leftarrow> init_stack child argv s;
               case r of
                 Inl r \<Rightarrow> spawn_err1 io R child fd r s
               | Inr sp \<Rightarrow> do {
                   (r, s) \<leftarrow> spawn_phdrs io fd elfbuf child 0 (e_phoff ehdr) s;
                   case r of
                     Inl r \<Rightarrow> spawn_err1 io R child fd r s
                   | Inr _ \<Rightarrow> do {
                       (_, s) \<leftarrow> uclose io fd s;
                       spawn_start R tfva child (e_entry ehdr) sp s } } } } } } }"

text \<open>\<^verbatim>\<open>spawnl\<close> collects its arguments in an array of \<^verbatim>\<open>MAXARGS\<close> entries, the last of which is the null pointer.\<close>

definition spawnl :: "uio \<Rightarrow> (u32 \<Rightarrow> u32) \<Rightarrow> u32 \<Rightarrow> u32 \<Rightarrow> u8 list \<Rightarrow> u8 list list \<Rightarrow> kstate \<Rightarrow> ures" where
  "spawnl io R elfbuf tfva prog args s = (if length args + 1 > 128 then None else spawn io R elfbuf tfva prog args s)"

section \<open>Stores within one page\<close>

lemma kstores_append: "kstores va (xs @ ys) s = do { s \<leftarrow> kstores va xs s; kstores (va + of_nat (length xs)) ys s }"
  by (induction xs arbitrary: va s) (simp_all add: ac_simps split: Option.bind_split)

lemma put_strings_bytes: "put_strings c argv s = kstores c (concat (map (\<lambda>a. a @ [0]) argv)) s"
  by (induction argv arbitrary: c s) (simp_all add: kstores_append ac_simps split: Option.bind_split)

fun str_ptrs :: "u32 \<Rightarrow> u8 list list \<Rightarrow> u32 list" where
  "str_ptrs c [] = []"
| "str_ptrs c (a # argv) = c # str_ptrs (c + (of_nat (length a) + 1)) argv"

lemma length_str_ptrs [simp]: "length (str_ptrs c argv) = length argv"
  by (induction argv arbitrary: c) simp_all

lemma args_size_simps [simp]: "args_size [] = 0" "args_size (a # argv) = Suc (length a) + args_size argv"
  by (simp_all add: args_size_def)

lemma put_args_bytes:
  "put_args p c argv s = do { s \<leftarrow> kstores p (concat (map bytes32 (str_ptrs c argv))) s; Some (c + of_nat (args_size argv), s) }"
proof (induction argv arbitrary: p c s)
  case (Cons a argv)
  have l: "length (bytes32 c) = 4" by (simp add: bytes32_def)
  show ?case by (simp add: uput_def kstores_append l Cons.IH ac_simps split: Option.bind_split)
qed simp

lemma str_ptrs_nth: "i < length argv \<Longrightarrow> str_ptrs c argv ! i = c + of_nat (args_size (take i argv))"
proof (induction argv arbitrary: c i)
  case (Cons a argv)
  then show ?case by (cases i) (simp_all add: ac_simps)
qed simp

lemma length_strings: "length (concat (map (\<lambda>a. a @ [0]) argv)) = args_size argv"
  by (induction argv) simp_all

lemma strings_nth:
  "i < length argv \<Longrightarrow> k \<le> length (argv ! i) \<Longrightarrow> concat (map (\<lambda>a. a @ [0]) argv) ! (args_size (take i argv) + k) = (argv ! i @ [0]) ! k"
proof (induction argv arbitrary: i)
  case (Cons a argv)
  show ?case
  proof (cases i)
    case 0
    then show ?thesis using Cons.prems by (simp add: nth_append)
  next
    case (Suc j)
    then show ?thesis using Cons.IH [of j] Cons.prems by (simp add: nth_append)
  qed
qed simp

lemma args_size_take: "i < length argv \<Longrightarrow> args_size (take i argv) + length (argv ! i) < args_size argv"
proof (induction argv arbitrary: i)
  case (Cons a argv)
  then show ?case by (cases i) simp_all
qed simp

lemma args_size_length: "length argv \<le> args_size argv"
  by (induction argv) simp_all

lemma put_page:
  assumes "off + length bs \<le> 4096" "k < 4096"
  shows "put_bytes m (A + of_nat off) bs (A + of_nat k) = (if off \<le> k \<and> k < off + length bs then bs ! (k - off) else m (A + of_nat k))"
proof -
  have d: "A + of_nat k - (A + of_nat off) = (of_nat k - of_nat off :: u32)" by simp
  have "unat (of_nat k :: u32) = k" "unat (of_nat off :: u32) = off" using assms by (simp_all add: unat_of_nat)
  then have u: "unat (of_nat k - of_nat off :: u32) = (if off \<le> k then k - off else k + 4294967296 - off)"
    by (simp add: unat_sub_if')
  show ?thesis using put_bytes_apply [of bs m "A + of_nat off" "A + of_nat k"] assms unfolding d u by auto
qed

definition pword :: "mem \<Rightarrow> u32 \<Rightarrow> nat \<Rightarrow> u32" where
  "pword m A k = ld32 m (A + of_nat k)"

lemma pword_other:
  assumes "off + length bs \<le> 4096" "k + 4 \<le> off \<or> off + length bs \<le> k" "k + 4 \<le> 4096"
  shows "pword (put_bytes m (A + of_nat off) bs) A k = pword m A k"
  unfolding pword_def
proof (rule ld32_eqI)
  fix j assume j: "j < (4 :: nat)"
  have e: "A + of_nat k + of_nat j = A + of_nat (k + j)" by simp
  show "put_bytes m (A + of_nat off) bs (A + of_nat k + of_nat j) = m (A + of_nat k + of_nat j)"
    unfolding e using put_page [OF assms(1), of "k + j"] assms(2,3) j by auto
qed

lemma pword_same:
  assumes "off + 4 * length ws \<le> 4096" "i < length ws"
  shows "pword (put_bytes m (A + of_nat off) (concat (map bytes32 ws))) A (off + 4 * i) = ws ! i"
proof -
  let ?bs = "concat (map bytes32 ws)" and ?m = "put_bytes m (A + of_nat off) (concat (map bytes32 ws))"
  have "?m (A + of_nat (off + 4 * i) + of_nat j) = ?bs ! (4 * i + j)" if "j < 4" for j
    using put_page [of off ?bs "off + 4 * i + j" m A] assms that by (simp add: length_bytes ac_simps)
  from this [of 0] this [of 1] this [of 2] this [of 3] show ?thesis
    using word_at_bytes [OF assms(2)] by (simp add: pword_def ld32_def word_at_def)
qed

lemma pword_one: "off + 4 \<le> 4096 \<Longrightarrow> pword (put_bytes m (A + of_nat off) (bytes32 w)) A off = w"
  using pword_same [of off "[w]" 0 m A] by simp

lemma kstores_page:
  assumes v: "uview s dp L X c m" and p: "umaps s dp (key (dp c) base) = Some p" "has (ptes (pm s) (dp ` live s) (key (dp c) base)) PTE_W"
    and al: "unat base mod 4096 = 0" and l: "off + length bs \<le> 4096"
  shows "kstores (base + of_nat off) bs (memupd s m) = Some (memupd s (put_bytes m (page2pa p + of_nat off) bs)) \<and>
    uview s dp L X c (put_bytes m (page2pa p + of_nat off) bs)"
proof (cases "bs = []")
  case True
  then show ?thesis using v by simp
next
  case False
  then have "off < 4096" using l by (cases bs) auto
  then have o: "unat base mod 4096 + off < 4096" using al l by simp
  note P = in_page_offset [OF o]
  let ?m = "put_bytes m (page2pa p + of_nat off) bs"
  have k: "kstores (base + of_nat off) bs (memupd s m) = Some ((memupd s m)\<lparr>pm := (pm s)\<lparr>mem := ?m\<rparr>\<rparr>)"
    "vm_inv ((pm s)\<lparr>mem := ?m\<rparr>) (dp ` live s) L X" "ptes ((pm s)\<lparr>mem := ?m\<rparr>) (dp ` live s) = ptes (pm s) (dp ` live s)"
    using kstores_run [of "memupd s m" "dp ` live s" L X "dp c" "base + of_nat off" p bs] uview_inv [OF v] uview_maps [OF v] p l al P
    by simp_all
  then have run: "kstores (base + of_nat off) bs (memupd s m) = Some (memupd s ?m)" by (simp add: memupd_def)
  have "kinv (memupd s m) dp L X c" using v by (simp add: uview_def)
  from kinv_pm [OF this, of "(pm s)\<lparr>mem := ?m\<rparr>"] k(2) have "kinv (memupd s ?m) dp L X c" by simp (simp add: memupd_def)
  then show ?thesis using run k(3) by (simp add: uview_def)
qed

text \<open>The page that the new program finds below \<^verbatim>\<open>USTACKTOP\<close>: at \<open>sp\<close> the number of arguments and the address of the array of pointers, which follows;
  every pointer leads to a string in the same page.  The entry after the last pointer is not 0.\<close>

abbreviation stack_page :: u32 where
  "stack_page \<equiv> USTACKTOP - BY2PG"

definition stack_layout :: "mem \<Rightarrow> nat \<Rightarrow> u8 list list \<Rightarrow> u32 \<Rightarrow> bool" where
  "stack_layout m p argv sp \<longleftrightarrow> (\<exists>ao. 8 \<le> ao \<and> ao + 4 * (length argv + 1) \<le> 4096 \<and> sp = stack_page + of_nat (ao - 8) \<and>
     pword m (page2pa p) (ao - 8) = of_nat (length argv) \<and> pword m (page2pa p) (ao - 4) = stack_page + of_nat ao \<and>
     (\<forall>i < length argv. \<exists>so. pword m (page2pa p) (ao + 4 * i) = stack_page + of_nat so \<and> so + length (argv ! i) < 4096 \<and>
        map (\<lambda>k. m (page2pa p + of_nat (so + k))) [0..<length (argv ! i) + 1] = argv ! i @ [0]) \<and>
     pword m (page2pa p) (ao + 4 * length argv) = USTACKTOP - 1)"

text \<open>The stores of \<^verbatim>\<open>init_stack\<close>, by their offsets in the page.\<close>

definition stack_mem :: "mem \<Rightarrow> u32 \<Rightarrow> nat \<Rightarrow> u8 list list \<Rightarrow> mem" where
  "stack_mem m A ao argv =
     (let m = put_bytes m (A + of_nat (4096 - args_size argv)) (concat (map (\<lambda>a. a @ [0]) argv));
          m = put_bytes m (A + of_nat ao) (concat (map bytes32 (str_ptrs (stack_page + of_nat (4096 - args_size argv)) argv)));
          m = put_bytes m (A + of_nat (ao + 4 * length argv)) (bytes32 (USTACKTOP - 1));
          m = put_bytes m (A + of_nat (ao - 4)) (bytes32 (stack_page + of_nat ao))
      in put_bytes m (A + of_nat (ao - 8)) (bytes32 (of_nat (length argv))))"

lemma stack_mem_layout:
  assumes ao: "8 \<le> ao" "ao + 4 * (length argv + 1) + args_size argv \<le> 4096"
  shows "stack_layout (stack_mem m (page2pa p) ao argv) p argv (stack_page + of_nat (ao - 8))"
proof -
  let ?A = "page2pa p" and ?n = "length argv" and ?t = "args_size argv"
  define so where "so = 4096 - ?t"
  have sot: "so + ?t = 4096" using ao by (simp add: so_def)
  define m1 where "m1 = put_bytes m (?A + of_nat (so)) (concat (map (\<lambda>a. a @ [0]) argv))"
  define m2 where "m2 = put_bytes m1 (?A + of_nat ao) (concat (map bytes32 (str_ptrs (stack_page + of_nat (so)) argv)))"
  define m3 where "m3 = put_bytes m2 (?A + of_nat (ao + 4 * ?n)) (bytes32 (USTACKTOP - 1))"
  define m4 where "m4 = put_bytes m3 (?A + of_nat (ao - 4)) (bytes32 (stack_page + of_nat ao))"
  define m5 where "m5 = put_bytes m4 (?A + of_nat (ao - 8)) (bytes32 (of_nat ?n))"
  have e: "stack_mem m ?A ao argv = m5" by (simp add: stack_mem_def Let_def m1_def m2_def m3_def m4_def m5_def so_def del: of_nat_diff)
  have l: "length (bytes32 w) = 4" for w by (simp add: bytes32_def)
  have lp: "length (concat (map bytes32 (str_ptrs c argv))) = 4 * ?n" for c by (simp add: length_bytes)
  have w1: "pword m5 ?A (ao - 8) = of_nat ?n" unfolding m5_def by (rule pword_one) (use ao in simp)
  have w5: "pword m5 ?A k = pword m4 ?A k" if "ao - 4 \<le> k" "k + 4 \<le> 4096" for k
    unfolding m5_def by (rule pword_other) (use ao that l in auto)
  have w2: "pword m4 ?A (ao - 4) = stack_page + of_nat ao" unfolding m4_def by (rule pword_one) (use ao in simp)
  have w4: "pword m4 ?A k = pword m3 ?A k" if "ao \<le> k" "k + 4 \<le> 4096" for k
    unfolding m4_def by (rule pword_other) (use ao that l in auto)
  have w3: "pword m3 ?A (ao + 4 * ?n) = USTACKTOP - 1" unfolding m3_def by (rule pword_one) (use ao in simp)
  have ptr: "pword m5 ?A (ao + 4 * i) = stack_page + of_nat (so + args_size (take i argv))" if i: "i < ?n" for i
  proof -
    have "pword m5 ?A (ao + 4 * i) = pword m3 ?A (ao + 4 * i)" using w5 [of "ao + 4 * i"] w4 [of "ao + 4 * i"] ao i by simp
    also have "\<dots> = pword m2 ?A (ao + 4 * i)" unfolding m3_def by (rule pword_other) (use ao i l in auto)
    also have "\<dots> = str_ptrs (stack_page + of_nat (so)) argv ! i" unfolding m2_def by (rule pword_same) (use ao i in simp_all)
    finally show ?thesis using str_ptrs_nth [OF i] by (simp add: add.assoc)
  qed
  have high: "m5 (?A + of_nat k) = m1 (?A + of_nat k)" if "k < 4096" "ao + 4 * (?n + 1) \<le> k" for k
  proof -
    have "\<not> (ao - 8 \<le> k \<and> k < ao - 8 + 4)" "\<not> (ao - 4 \<le> k \<and> k < ao - 4 + 4)" "\<not> (ao + 4 * ?n \<le> k \<and> k < ao + 4 * ?n + 4)" "\<not> (ao \<le> k \<and> k < ao + 4 * ?n)"
      using that ao by auto
    then show ?thesis unfolding m5_def m4_def m3_def m2_def using that ao by (simp add: put_page l lp del: of_nat_add of_nat_diff)
  qed
  have byte: "m5 (?A + of_nat (so + j)) = concat (map (\<lambda>a. a @ [0]) argv) ! j" if j: "j < ?t" for j
  proof -
    let ?k = "so + j"
    have k: "?k < 4096" "ao + 4 * (?n + 1) \<le> ?k" using sot ao j by simp_all
    have "m5 (?A + of_nat ?k) = m1 (?A + of_nat ?k)" by (rule high [OF k])
    also have "\<dots> = concat (map (\<lambda>a. a @ [0]) argv) ! j"
      unfolding m1_def using put_page [of "so" "concat (map (\<lambda>a. a @ [0]) argv)" ?k m ?A] k j sot
      by (simp add: length_strings del: of_nat_add of_nat_diff)
    finally show ?thesis .
  qed
  have str: "map (\<lambda>k. m5 (?A + of_nat (so + args_size (take i argv) + k))) [0..<length (argv ! i) + 1] = argv ! i @ [0]" if i: "i < ?n" for i
  proof (rule nth_equalityI)
    fix k assume "k < length (map (\<lambda>k. m5 (?A + of_nat (so + args_size (take i argv) + k))) [0..<length (argv ! i) + 1])"
    then have k: "k \<le> length (argv ! i)" by simp
    then show "map (\<lambda>k. m5 (?A + of_nat (so + args_size (take i argv) + k))) [0..<length (argv ! i) + 1] ! k = (argv ! i @ [0]) ! k"
      using byte [of "args_size (take i argv) + k"] strings_nth [OF i k] args_size_take [OF i] by (simp add: add.assoc del: of_nat_add of_nat_diff upt_Suc)
  qed simp
  have "\<exists>so. pword m5 ?A (ao + 4 * i) = stack_page + of_nat so \<and> so + length (argv ! i) < 4096 \<and>
      map (\<lambda>k. m5 (?A + of_nat (so + k))) [0..<length (argv ! i) + 1] = argv ! i @ [0]" if i: "i < ?n" for i
    using ptr [OF i] str [OF i] args_size_take [OF i] sot by (intro exI [of _ "so + args_size (take i argv)"]) simp
  then show ?thesis unfolding stack_layout_def e
    using ao w1 w2 w3 w4 [of "ao + 4 * ?n"] w5 [of "ao - 4"] w5 [of "ao + 4 * ?n"] by (intro exI [of _ ao]) simp
qed


lemma init_stores:
  assumes v: "uview s dp L X c m" and p: "umaps s dp (key (dp c) base) = Some p" "has (ptes (pm s) (dp ` live s) (key (dp c) base)) PTE_W"
    and al: "unat base mod 4096 = 0" and ao: "8 \<le> ao" "ao + 4 * (length argv + 1) + args_size argv \<le> 4096" and so: "so = 4096 - args_size argv"
  shows "do { s \<leftarrow> put_strings (base + of_nat so) argv (memupd s m);
      (ctemp, s) \<leftarrow> put_args (base + of_nat ao) (stack_page + of_nat so) argv s;
      s \<leftarrow> uput (base + of_nat (ao + 4 * length argv)) (ctemp - 1) s;
      s \<leftarrow> uput (base + of_nat (ao - 4)) (stack_page + of_nat ao) s;
      s \<leftarrow> uput (base + of_nat (ao - 8)) (of_nat (length argv)) s;
      k s } = k (memupd s (stack_mem m (page2pa p) ao argv)) \<and> uview s dp L X c (stack_mem m (page2pa p) ao argv)"
proof -
  note K = kstores_page [OF _ p al]
  have l: "length (bytes32 w) = 4" for w by (simp add: bytes32_def)
  have top: "stack_page + of_nat so + of_nat (args_size argv) - 1 = USTACKTOP - 1"
    using ao(2) so by (simp add: of_nat_diff) (simp add: layout_defs)
  define m1 where "m1 = put_bytes m (page2pa p + of_nat so) (concat (map (\<lambda>a. a @ [0]) argv))"
  define m2 where "m2 = put_bytes m1 (page2pa p + of_nat ao) (concat (map bytes32 (str_ptrs (stack_page + of_nat so) argv)))"
  define m3 where "m3 = put_bytes m2 (page2pa p + of_nat (ao + 4 * length argv)) (bytes32 (USTACKTOP - 1))"
  define m4 where "m4 = put_bytes m3 (page2pa p + of_nat (ao - 4)) (bytes32 (stack_page + of_nat ao))"
  define m5 where "m5 = put_bytes m4 (page2pa p + of_nat (ao - 8)) (bytes32 (of_nat (length argv)))"
  have 1: "put_strings (base + of_nat so) argv (memupd s m) = Some (memupd s m1) \<and> uview s dp L X c m1"
    unfolding put_strings_bytes m1_def by (rule K [OF v]) (use so ao in \<open>simp add: length_strings\<close>)
  have 2: "kstores (base + of_nat ao) (concat (map bytes32 (str_ptrs (stack_page + of_nat so) argv))) (memupd s m1) = Some (memupd s m2) \<and> uview s dp L X c m2"
    unfolding m2_def by (rule K) (use 1 ao in \<open>simp_all add: length_bytes\<close>)
  have 3: "uput (base + of_nat (ao + 4 * length argv)) (USTACKTOP - 1) (memupd s m2) = Some (memupd s m3) \<and> uview s dp L X c m3"
    unfolding uput_def m3_def by (rule K) (use 2 ao l in simp_all)
  have 4: "uput (base + of_nat (ao - 4)) (stack_page + of_nat ao) (memupd s m3) = Some (memupd s m4) \<and> uview s dp L X c m4"
    unfolding uput_def m4_def by (rule K) (use 3 ao l in simp_all)
  have 5: "uput (base + of_nat (ao - 8)) (of_nat (length argv)) (memupd s m4) = Some (memupd s m5) \<and> uview s dp L X c m5"
    unfolding uput_def m5_def by (rule K) (use 4 ao l in simp_all)
  have "stack_mem m (page2pa p) ao argv = m5"
    by (simp add: stack_mem_def Let_def m1_def m2_def m3_def m4_def m5_def so del: of_nat_diff)
  then show ?thesis using 1 2 3 4 5 by (simp add: put_args_bytes top del: of_nat_diff of_nat_add)
qed

lemma ROUND_4: "ROUND (of_nat t) 4 = (of_nat ((t + 3) div 4 * 4) :: u32)"
proof -
  have m: "(3 :: u32) = mask 2" by (simp add: mask_eq_exp_minus_1)
  have s: "x AND NOT 3 = x - (x AND 3)" for x :: u32 unfolding m using word_split_mask [of x 2] by (metis add_diff_cancel_right')
  have "ROUND (of_nat t) 4 = (of_nat (t + 3) :: u32) AND NOT 3" by (simp add: ROUND_def ac_simps)
  also have "\<dots> = of_nat (t + 3) - (of_nat (t + 3) AND 3)" by (rule s)
  also have "(of_nat (t + 3) :: u32) AND 3 = of_nat ((t + 3) mod 4)"
    unfolding m take_bit_eq_mask [symmetric] take_bit_of_nat by (simp add: take_bit_eq_mod del: of_nat_add)
  also have "(of_nat (t + 3) :: u32) - of_nat ((t + 3) mod 4) = of_nat (t + 3 - (t + 3) mod 4)"
    by (simp add: of_nat_diff del: of_nat_add)
  finally show ?thesis by (simp add: minus_mod_eq_div_mult del: of_nat_add)
qed

text \<open>The space the arguments need, and the offset of the array of pointers in the page.\<close>

definition stack_need :: "u8 list list \<Rightarrow> nat" where
  "stack_need argv = (args_size argv + 3) div 4 * 4 + 4 * (length argv + 3)"

definition stack_args :: "u8 list list \<Rightarrow> nat" where
  "stack_args argv = 4096 - (args_size argv + 3) div 4 * 4 - 4 * (length argv + 1)"

text \<open>The end of \<^verbatim>\<open>init_stack\<close>, where the page goes to the child.\<close>

definition hand_over :: "u32 \<Rightarrow> u32 \<Rightarrow> kstate \<Rightarrow> ((u32 + u32) \<times> kstate) option" where
  "hand_over child sp s = do {
     (r, s) \<leftarrow> sysval (sys_mem_map 0 UTEMP child stack_page PTE_W s);
     if negative r then do { (_, s) \<leftarrow> sysval (sys_mem_unmap 0 UTEMP s); Some (Inl r, s) }
     else do {
       (r, s) \<leftarrow> sysval (sys_mem_unmap 0 UTEMP s);
       if negative r then do { (_, s) \<leftarrow> sysval (sys_mem_unmap 0 UTEMP s); Some (Inl r, s) }
       else Some (Inr sp, s) } }"

lemma init_stack_unfold:
  assumes t: "args_size argv < 2 ^ 29"
  shows "init_stack child argv s =
    (if stack_need argv > 4096 then Some (Inl (neg_errno E_NO_MEM), s)
     else do {
       (r, s) \<leftarrow> sysval (sys_mem_alloc 0 UTEMP PTE_W s);
       if negative r then Some (Inl r, s)
       else do {
         s \<leftarrow> put_strings (UTEMP + of_nat (4096 - args_size argv)) argv s;
         (ctemp, s) \<leftarrow> put_args (UTEMP + of_nat (stack_args argv)) (stack_page + of_nat (4096 - args_size argv)) argv s;
         s \<leftarrow> uput (UTEMP + of_nat (stack_args argv + 4 * length argv)) (ctemp - 1) s;
         s \<leftarrow> uput (UTEMP + of_nat (stack_args argv - 4)) (stack_page + of_nat (stack_args argv)) s;
         s \<leftarrow> uput (UTEMP + of_nat (stack_args argv - 8)) (of_nat (length argv)) s;
         hand_over child (stack_page + of_nat (stack_args argv - 8)) s } })"
proof -
  let ?t = "args_size argv" and ?n = "length argv" and ?R = "(args_size argv + 3) div 4 * 4"
  have nt: "?n \<le> ?t" by (rule args_size_length)
  have R: "?t \<le> ?R" "?R \<le> ?t + 3" by presburger+
  have w: "ROUND (of_nat ?t) 4 + 4 * (of_nat ?n + 3) = (of_nat (stack_need argv) :: u32)"
    unfolding ROUND_4 stack_need_def by simp
  have "stack_need argv < 2 ^ 32" unfolding stack_need_def using R nt t by simp
  then have "unat (of_nat (stack_need argv) :: u32) = stack_need argv" by (rule unat_of_nat_u32)
  then have c: "ROUND (of_nat ?t) 4 + 4 * (of_nat ?n + 3) > BY2PG \<longleftrightarrow> stack_need argv > 4096"
    unfolding w by (simp add: word_less_nat_alt layout_defs)
  show ?thesis
  proof (cases "stack_need argv > 4096")
    case True
    then show ?thesis using c by (simp add: init_stack_def Let_def)
  next
    case False
    then have fit: "?R + 4 * (?n + 3) \<le> 4096" by (simp add: stack_need_def)
    define ao where "ao = stack_args argv"
    have ao: "ao + ?R + 4 * (?n + 1) = 4096" "8 \<le> ao" using fit by (simp_all add: ao_def stack_args_def)
    define U where "U = UTEMP"
    have B: "BY2PG = of_nat 4096" by (simp add: BY2PG_def)
    have s1: "U + BY2PG - of_nat ?t = U + of_nat (4096 - ?t)" using fit R by (simp add: B of_nat_diff)
    have "(of_nat 4096 :: u32) = of_nat (ao + ?R + 4 * (?n + 1))" by (simp only: ao(1))
    then have s2: "U + BY2PG - ROUND (of_nat ?t) 4 - 4 * (of_nat ?n + 1) = U + of_nat ao"
      unfolding ROUND_4 B by (simp add: algebra_simps)
    have s3: "USTACKTOP - U - BY2PG + (U + x) = stack_page + x" for x by simp
    have s4: "U + of_nat ao + 4 * of_nat ?n = U + of_nat (ao + 4 * ?n)" "U + of_nat ao - 4 = U + of_nat (ao - 4)" "U + of_nat ao - 8 = U + of_nat (ao - 8)"
      using ao(2) by (simp_all add: of_nat_diff)
    show ?thesis
      unfolding init_stack_def hand_over_def Let_def ao_def [symmetric] U_def [symmetric] using False c
      by (simp only: s1 s2 s3 s4 if_False not_less linorder_not_le)
  qed
qed

lemma UTEMP_facts: "\<not> is_illegal_va UTEMP" "unat UTEMP mod 4096 = 0" "\<not> is_illegal_va stack_page" "key d UTEMP \<noteq> key d' stack_page"
proof -
  show "\<not> is_illegal_va UTEMP" "unat UTEMP mod 4096 = 0" "\<not> is_illegal_va stack_page" by (simp_all add: is_illegal_va_def layout_defs)
  show "key d UTEMP \<noteq> key d' stack_page" by (simp add: key_def PDX_def PTX_def layout_defs)
qed

lemma W_flags: "flag_bits PTE_W" "has (new_pte p (PTE_W OR PTE_U)) PTE_W"
  unfolding has_new_pte by (simp add: flag_bits_def pte_defs, simp add: has_bits bit_or_iff) (simp add: pte_defs)

text \<open>What the last two calls of \<^verbatim>\<open>init_stack\<close> do with the finished page.\<close>

lemma init_stack_hand_over:
  assumes kv: "kinv s dp L X c" and e: "envid2env child True s = Some (Inr (Some e))" "e \<in> live s"
    and p: "umaps s dp = B(key (dp c) UTEMP \<mapsto> p)" "\<And>ky. B ky \<noteq> Some p" "X p = 0"
  obtains (no_mem) q where "sysval (sys_mem_map 0 UTEMP child stack_page PTE_W s) = Some (neg_errno E_NO_MEM, s)"
      "sysval (sys_mem_unmap 0 UTEMP s) = Some (0, s\<lparr>pm := q\<rparr>)" "kinv (s\<lparr>pm := q\<rparr>) dp L X c" "maps q (dp ` live s) = B(key (dp c) UTEMP := None)"
  | (ok) q1 q where "sysval (sys_mem_map 0 UTEMP child stack_page PTE_W s) = Some (0, s\<lparr>pm := q1\<rparr>)"
      "sysval (sys_mem_unmap 0 UTEMP (s\<lparr>pm := q1\<rparr>)) = Some (0, s\<lparr>pm := q\<rparr>)" "kinv (s\<lparr>pm := q\<rparr>) dp L X c"
      "maps q (dp ` live s) = B(key (dp c) UTEMP := None, key (dp e) stack_page \<mapsto> p)" "\<And>ky x. umaps s dp ky = Some x \<Longrightarrow> ky \<noteq> key (dp e) stack_page \<Longrightarrow> same_frame (mem (pm s)) (mem q) x"
proof -
  note U = UTEMP_facts
  have m: "umaps s dp (key (dp c) UTEMP) = Some p" by (simp add: p(1))
  have "{ky. umaps s dp ky = Some p} = {key (dp c) UTEMP}" unfolding p(1) using p(2) by auto
  then have r: "unat (pp_ref (pm s) p) < 65535" using ref_count [OF kv m p(3)] by simp
  show thesis
  proof (cases rule: map_to_step [OF kv U(1,3) W_flags(1) e m r])
    case 1
    obtain q where q: "sysval (sys_mem_unmap 0 UTEMP s) = Some (0, s\<lparr>pm := q\<rparr>)" "kinv (s\<lparr>pm := q\<rparr>) dp L X c"
      "maps q (dp ` live s) = (umaps s dp)(key (dp c) UTEMP := None)" "keeps s dp (mem q)" by (rule unmap_step [OF kv U(1) m])
    show thesis by (rule no_mem [OF 1 q(1,2)]) (simp add: q(3) p(1))
  next
    case (2 q1)
    have m1: "umaps (s\<lparr>pm := q1\<rparr>) dp (key (dp c) UTEMP) = Some p" using 2(3) m by simp
    obtain q where q: "sysval (sys_mem_unmap 0 UTEMP (s\<lparr>pm := q1\<rparr>)) = Some (0, s\<lparr>pm := q1, pm := q\<rparr>)" "kinv (s\<lparr>pm := q1, pm := q\<rparr>) dp L X c"
      "maps q (dp ` live (s\<lparr>pm := q1\<rparr>)) = (umaps (s\<lparr>pm := q1\<rparr>) dp)(key (dp c) UTEMP := None)" "keeps (s\<lparr>pm := q1\<rparr>) dp (mem q)"
      by (rule unmap_step [OF 2(2) U(1) m1])
    have mq: "maps q (dp ` live s) = B(key (dp c) UTEMP := None, key (dp e) stack_page \<mapsto> p)"
      using q(3) 2(3) p(1) U(4) [of "dp c" "dp e"] by (auto simp: fun_eq_iff)
    show thesis
    proof (rule ok [OF 2(1) _ _ mq])
      show "same_frame (mem (pm s)) (mem q) x" if u: "umaps s dp ky = Some x" "ky \<noteq> key (dp e) stack_page" for ky x
        using same_frame_trans [OF keepsD [OF 2(4) u(1)], of "mem q"] keepsD [OF q(4), of ky x] 2(3) u by simp
    qed (use q in simp_all)
  qed
qed


lemma stack_layout_same:
  assumes "stack_layout m p argv sp" "same_frame m m' p"
  shows "stack_layout m' p argv sp"
proof -
  have b: "m' (page2pa p + of_nat k) = m (page2pa p + of_nat k)" if "k < 4096" for k using assms(2) that by (simp add: same_frame_def)
  have w: "pword m' (page2pa p) k = pword m (page2pa p) k" if "k + 4 \<le> 4096" for k
    unfolding pword_def
  proof (rule ld32_eqI)
    fix j assume "j < (4 :: nat)"
    then show "m' (page2pa p + of_nat k + of_nat j) = m (page2pa p + of_nat k + of_nat j)" using b [of "k + j"] that by (simp add: add.assoc)
  qed
  obtain ao where ao: "8 \<le> ao" "ao + 4 * (length argv + 1) \<le> 4096" "sp = stack_page + of_nat (ao - 8)"
    "pword m (page2pa p) (ao - 8) = of_nat (length argv)" "pword m (page2pa p) (ao - 4) = stack_page + of_nat ao"
    "\<And>i. i < length argv \<Longrightarrow> \<exists>so. pword m (page2pa p) (ao + 4 * i) = stack_page + of_nat so \<and> so + length (argv ! i) < 4096 \<and>
        map (\<lambda>k. m (page2pa p + of_nat (so + k))) [0..<length (argv ! i) + 1] = argv ! i @ [0]"
    "pword m (page2pa p) (ao + 4 * length argv) = USTACKTOP - 1"
    using assms(1) unfolding stack_layout_def by blast
  have "\<exists>so. pword m' (page2pa p) (ao + 4 * i) = stack_page + of_nat so \<and> so + length (argv ! i) < 4096 \<and>
      map (\<lambda>k. m' (page2pa p + of_nat (so + k))) [0..<length (argv ! i) + 1] = argv ! i @ [0]" if i: "i < length argv" for i
  proof -
    obtain so where so: "pword m (page2pa p) (ao + 4 * i) = stack_page + of_nat so" "so + length (argv ! i) < 4096"
      "map (\<lambda>k. m (page2pa p + of_nat (so + k))) [0..<length (argv ! i) + 1] = argv ! i @ [0]" using ao(6) [OF i] by blast
    have eq: "map (\<lambda>k. m' (page2pa p + of_nat (so + k))) [0..<length (argv ! i) + 1] = map (\<lambda>k. m (page2pa p + of_nat (so + k))) [0..<length (argv ! i) + 1]"
      by (rule map_cong [OF refl], rule b) (use so(2) in auto)
    show ?thesis
    proof (intro exI conjI)
      show "pword m' (page2pa p) (ao + 4 * i) = stack_page + of_nat so" using so(1) w [of "ao + 4 * i"] ao(2) i by simp
      show "map (\<lambda>k. m' (page2pa p + of_nat (so + k))) [0..<length (argv ! i) + 1] = argv ! i @ [0]" unfolding eq by (rule so(3))
    qed (rule so(2))
  qed
  then show ?thesis
    unfolding stack_layout_def using ao w [of "ao - 8"] w [of "ao - 4"] w [of "ao + 4 * length argv"] by (intro exI [of _ ao]) simp
qed

lemma put_bytes_frame:
  assumes "p < page_bound" "x < page_bound" "x \<noteq> p" "off + length bs \<le> 4096"
  shows "same_frame m (put_bytes m (page2pa p + of_nat off) bs) x"
  unfolding same_frame_def
proof (intro allI impI)
  fix k assume k: "k < (4096 :: nat)"
  have "page2pa x + of_nat k \<noteq> page2pa p + of_nat off + of_nat j" if "j < length bs" for j
    using frame_byte_inj(1) [OF assms(2) k assms(1), of "off + j"] assms(3,4) that by (auto simp: add.assoc)
  moreover have "page2pa x + of_nat k = page2pa p + of_nat off + of_nat (unat (page2pa x + of_nat k - (page2pa p + of_nat off)))" by simp
  ultimately have "\<not> unat (page2pa x + of_nat k - (page2pa p + of_nat off)) < length bs" by metis
  then show "put_bytes m (page2pa p + of_nat off) bs (page2pa x + of_nat k) = m (page2pa x + of_nat k)"
    using put_bytes_apply [of bs m] assms(4) by simp
qed

lemma stack_mem_frame:
  assumes "p < page_bound" "x < page_bound" "x \<noteq> p" and ao: "8 \<le> ao" "ao + 4 * (length argv + 1) + args_size argv \<le> 4096"
  shows "same_frame m (stack_mem m (page2pa p) ao argv) x"
proof -
  have l: "length (bytes32 w) = 4" for w by (simp add: bytes32_def)
  note F = put_bytes_frame [OF assms(1-3)]
  show ?thesis unfolding stack_mem_def Let_def
    by (rule same_frame_trans [OF same_frame_trans [OF same_frame_trans [OF same_frame_trans [OF F F] F] F] F])
       (use ao in \<open>simp_all add: l length_strings length_bytes\<close>)
qed

text \<open>The page is allocated: \<^verbatim>\<open>init_stack\<close> fills it and hands it over.\<close>

lemma init_stack_fill:
  assumes t: "args_size argv < 2 ^ 29" and ao: "8 \<le> stack_args argv" "stack_args argv + 4 * (length argv + 1) + args_size argv \<le> 4096"
    and need: "\<not> stack_need argv > 4096" and al: "sysval (sys_mem_alloc 0 UTEMP PTE_W s) = Some (0, s\<lparr>pm := q\<rparr>)"
    and kv: "kinv (s\<lparr>pm := q\<rparr>) dp L X c" and p: "maps q (dp ` live s) (key (dp c) UTEMP) = Some p"
    and w: "has (ptes q (dp ` live s) (key (dp c) UTEMP)) PTE_W"
  obtains q' where "init_stack child argv s = hand_over child (stack_page + of_nat (stack_args argv - 8)) (s\<lparr>pm := q'\<rparr>)"
    "kinv (s\<lparr>pm := q'\<rparr>) dp L X c" "maps q' (dp ` live s) = maps q (dp ` live s)"
    "stack_layout (mem q') p argv (stack_page + of_nat (stack_args argv - 8))"
    "\<And>ky x. maps q (dp ` live s) ky = Some x \<Longrightarrow> x \<noteq> p \<Longrightarrow> same_frame (mem q) (mem q') x"
proof -
  let ?ao = "stack_args argv" and ?s = "s\<lparr>pm := q\<rparr>"
  have mu: "umaps ?s dp (key (dp c) UTEMP) = Some p" "has (ptes (pm ?s) (dp ` live ?s) (key (dp c) UTEMP)) PTE_W" using p w by simp_all
  define m where "m = stack_mem (mem q) (page2pa p) ?ao argv"
  have v0: "uview ?s dp L X c (mem q)" and id: "memupd ?s (mem q) = ?s" using uview_init [OF kv] by (simp_all add: memupd_def)
  note st = init_stores [OF v0 mu UTEMP_facts(2) ao refl, unfolded id]
  have t1: "memupd ?s m = s\<lparr>pm := q\<lparr>mem := m\<rparr>\<rparr>" by (simp add: memupd_def)
  have v: "uview ?s dp L X c m" unfolding m_def by (rule conjunct2 [OF st])
  show thesis
  proof (rule that [of "q\<lparr>mem := m\<rparr>"])
    show "init_stack child argv s = hand_over child (stack_page + of_nat (?ao - 8)) (s\<lparr>pm := q\<lparr>mem := m\<rparr>\<rparr>)"
      using need al conjunct1 [OF st] t1 by (simp add: init_stack_unfold [OF t] m_def del: of_nat_diff of_nat_add)
    show "kinv (s\<lparr>pm := q\<lparr>mem := m\<rparr>\<rparr>) dp L X c" using v unfolding uview_def t1 by simp
    show "maps (q\<lparr>mem := m\<rparr>) (dp ` live s) = maps q (dp ` live s)" using uview_maps [OF v] by simp
    show "stack_layout (mem (q\<lparr>mem := m\<rparr>)) p argv (stack_page + of_nat (?ao - 8))" unfolding m_def using stack_mem_layout [OF ao] by simp
    show "same_frame (mem q) (mem (q\<lparr>mem := m\<rparr>)) x" if "maps q (dp ` live s) ky = Some x" "x \<noteq> p" for ky x
    proof -
      have "x < page_bound" "p < page_bound" using umapped_data(1) [OF kv, of ky x] umapped_data(1) [OF kv mu(1)] that by (simp_all add: data_frame_def)
      then show ?thesis unfolding m_def using stack_mem_frame [OF _ _ that(2) ao] by simp
    qed
  qed
qed


end
