(* ===== verification/Mos_Cat.thy ===== *)
theory Mos_Cat
  imports Mos_Fd_Io
begin

text \<open>
  Programs on top of the descriptors: \<^verbatim>\<open>user/cat.c\<close>, and the calls of the library it makes, down to the console of the kernel.
\<close>

declare split_paired_All [simp del] split_paired_Ex [simp del]

section \<open>The program (cat.c)\<close>

text \<open>\<^verbatim>\<open>cat\<close> copies a descriptor to the standard output through \<^verbatim>\<open>buf\<close>, an array of 8192 bytes; \<open>None\<close> is \<^verbatim>\<open>user_panic\<close>.\<close>

partial_function (option) cat_loop :: "uio \<Rightarrow> u32 \<Rightarrow> u32 \<Rightarrow> kstate \<Rightarrow> ures" where
  "cat_loop io f buf s = do {
     (n, s) \<leftarrow> uread io f buf 8192 s;
     if sint n > 0 then do {
       (r, s) \<leftarrow> uwrite io 1 buf n s;
       if r \<noteq> n then None else cat_loop io f buf s }
     else Some (n, s) }"

definition cat :: "uio \<Rightarrow> u32 \<Rightarrow> u32 \<Rightarrow> kstate \<Rightarrow> kstate option" where
  "cat io f buf s = do { (n, s) \<leftarrow> cat_loop io f buf s; if negative n then None else Some s }"

fun cat_files :: "uio \<Rightarrow> u32 \<Rightarrow> u8 list list \<Rightarrow> kstate \<Rightarrow> kstate option" where
  "cat_files io buf [] s = Some s"
| "cat_files io buf (a # argv) s = do {
     (f, s) \<leftarrow> uopen io a O_RDONLY s;
     if negative f then None
     else do { s \<leftarrow> cat io f buf s; (_, s) \<leftarrow> uclose io f s; cat_files io buf argv s } }"

text \<open>\<open>argv\<close> is the list of arguments, the name of the program included.\<close>

definition cat_main :: "uio \<Rightarrow> u32 \<Rightarrow> u8 list list \<Rightarrow> kstate \<Rightarrow> kstate option" where
  "cat_main io buf argv s = (if length argv = 1 then cat io 0 buf s else cat_files io buf (tl argv) s)"

section \<open>The console as a device\<close>

definition con :: "u8 list \<Rightarrow> kstate \<Rightarrow> kstate" where
  "con bs s = s\<lparr>console_out := console_out s @ bs\<rparr>"

lemma con_simps [simp]: "pm (con bs s) = pm s" "live (con bs s) = live s" "cur_pgdir (con bs s) = cur_pgdir s" "curenv (con bs s) = curenv s"
  "envs (con bs s) = envs s" "console_out (con bs s) = console_out s @ bs" "con [] s = s" "con cs (con bs s) = con (bs @ cs) s"
  "memupd (con bs s) m = con bs (memupd s m)"
  by (simp_all add: con_def memupd_def live_def)

lemma con_view [simp]: "upa (con bs s) = upa s" "ucan (con bs s) = ucan s" "uview (con bs s) = uview s"
proof -
  show "upa (con bs s) = upa s" "ucan (con bs s) = ucan s" by (intro ext, simp add: upa_def ucan_def)+
  show "uview (con bs s) = uview s" by (intro ext) (simp add: uview_def kinv_def space_inv_def)
qed

lemma con_file [simp]: "file_at (con bs s) = file_at s" "span (con bs s) = span s" "fd_span (con bs s) = fd_span s" "off_span (con bs s) = off_span s"
  "ubuf (con bs s) = ubuf s"
proof -
  show sp: "span (con bs s) = span s" "fd_span (con bs s) = fd_span s" "off_span (con bs s) = off_span s" "ubuf (con bs s) = ubuf s"
    by (intro ext, simp add: span_def fd_span_def off_span_def ubuf_def)+
  show "file_at (con bs s) = file_at s" by (intro ext) (simp add: file_at_def sp)
qed

lemma print_cons_loop_view:
  assumes "uview s dp L X c m" "\<And>i. i < n \<Longrightarrow> ucan s dp c PTE_R (va + of_nat i)"
  shows "print_cons_loop va n (memupd s m) = Some (con (map (\<lambda>i. m (upa s dp c (va + of_nat i))) [0..<n]) (memupd s m))"
  using assms
proof (induction n arbitrary: va s)
  case (Suc n)
  have sh: "va + 1 + of_nat i = va + of_nat (Suc i)" for i by simp
  have ld: "kload8 va (memupd s m) = Some (m (upa s dp c va), memupd s m)"
    using kload8_view [OF Suc.prems(1), of va] Suc.prems(2) [of 0] by simp
  have "print_cons_loop (va + 1) n (memupd (con [m (upa s dp c va)] s) m)
      = Some (con (map (\<lambda>i. m (upa (con [m (upa s dp c va)] s) dp c (va + 1 + of_nat i))) [0..<n]) (memupd (con [m (upa s dp c va)] s) m))"
  proof (rule Suc.IH)
    show "uview (con [m (upa s dp c va)] s) dp L X c m" using Suc.prems(1) by simp
    show "ucan (con [m (upa s dp c va)] s) dp c PTE_R (va + 1 + of_nat i)" if "i < n" for i
      using Suc.prems(2) [of "Suc i"] that by (simp add: sh del: of_nat_Suc)
  qed
  moreover have "map f [0..<Suc n] = f 0 # map (\<lambda>i. f (Suc i)) [0..<n]" for f :: "nat \<Rightarrow> u8"
    by (simp add: map_Suc_upt [symmetric] upt_conv_Cons del: upt_Suc) 
  ultimately show ?case using ld by (simp add: con_def [symmetric] del: upt_Suc) (simp add: add.assoc)
qed simp

text \<open>Descriptor \<open>fdnum\<close> is the console, opened in mode \<open>omode\<close>.\<close>

definition cons_at :: "kstate \<Rightarrow> (nat \<Rightarrow> nat) \<Rightarrow> nat \<Rightarrow> mem \<Rightarrow> u32 \<Rightarrow> u32 \<Rightarrow> bool" where
  "cons_at s dp c m fdnum omode \<longleftrightarrow>
     (let fd = INDEX2FD fdnum; A = upa s dp c fd in
      fdnum < 32 \<and> ucan s dp c PTE_R fd \<and> ucan s dp c PTE_W fd \<and> ld32 m A = 99 \<and> ld32 m (A + 8) = omode)"

lemma con_cons [simp]: "cons_at (con bs s) = cons_at s"
  by (intro ext) (simp add: cons_at_def)

lemma cons_atD:
  assumes "cons_at s dp c m fdnum omode"
  shows "fdnum < 32" "ucan s dp c PTE_R (INDEX2FD fdnum)" "ucan s dp c PTE_W (INDEX2FD fdnum)"
    "ld32 m (upa s dp c (INDEX2FD fdnum)) = 99" "ld32 m (upa s dp c (INDEX2FD fdnum) + 8) = omode"
  using assms by (simp_all add: cons_at_def Let_def)

lemma cons_at_cong:
  assumes "cons_at s dp c m fdnum omode" and "\<And>x. x \<in> fd_span s dp c fdnum \<Longrightarrow> m' x = m x"
  shows "cons_at s dp c m' fdnum omode"
proof -
  let ?A = "upa s dp c (INDEX2FD fdnum)"
  have w: "ld32 m' (?A + of_nat k) = ld32 m (?A + of_nat k)" if "k < 268" for k
  proof (rule ld32_eqI)
    fix j assume j: "j < (4 :: nat)"
    have "?A + of_nat (k + j) \<in> fd_span s dp c fdnum" unfolding fd_span_def by (rule imageI) (use that j in simp)
    then show "m' (?A + of_nat k + of_nat j) = m (?A + of_nat k + of_nat j)" using assms(2) by (simp add: add.assoc)
  qed
  show ?thesis using assms(1) w [of 0] w [of 8] by (simp add: cons_at_def Let_def)
qed

lemma uwrite_cons:
  assumes v: "uview s dp L X c m" and f: "cons_at s dp c m fdnum omode" and om: "omode AND O_ACCMODE \<noteq> O_RDONLY"
    and b: "\<And>i. i < n \<Longrightarrow> ucan s dp c PTE_R (buf + of_nat i)" and n: "0 < n" "n < 2 ^ 31" and u: "unat buf + n \<le> unat UTOP"
  shows "\<exists>m'. uwrite io fdnum buf (of_nat n) (memupd s m)
        = Some (of_nat n, con (map (\<lambda>i. m (upa s dp c (buf + of_nat i))) [0..<n]) (memupd s m')) \<and> uview s dp L X c m' \<and>
    cons_at s dp c m' fdnum omode \<and> (\<forall>x. x \<notin> off_span s dp c fdnum \<longrightarrow> m' x = m x)"
proof -
  let ?A = "upa s dp c (INDEX2FD fdnum)" and ?bs = "map (\<lambda>i. m (upa s dp c (buf + of_nat i))) [0..<n]"
  note D = cons_atD [OF f]
  have un: "unat (of_nat n :: u32) = n" using n by (simp add: unat_of_nat)
  have sn: "sint (of_nat n :: u32) = int n" using n sint_unat [of "of_nat n"] un by simp
  have ub: "unat UTOP < 2 ^ 32" by (rule unat_less_2_32)
  then have sum: "unat (buf + of_nat n) = unat buf + n" using u n by (simp add: unat_word_ariths un)
  have pr: "sys_print_cons buf (of_nat n) (memupd s m) = Some (KReturn 0, con ?bs (memupd s m))"
    using print_cons_loop_view [OF v b] u n sum un by (simp add: sys_print_cons_def word_less_nat_alt word_le_nat_alt ret_def)
  have fd: "fd_dev fdnum (memupd s m) = Some (Inr (INDEX2FD fdnum, DevCons), memupd s m)"
    using fd_lookup_view [OF v D(1)] fd_word(1) [OF v D(1,2)] D(2,4) by (simp add: fd_dev_def ucan_def dev_lookup_def)
  define off where "off = ld32 m (?A + 4)"
  define m' where "m' = st32 m (?A + 4) (off + of_nat n)"
  have v2: "uview (con ?bs s) dp L X c m" using v by simp
  have D2: "ucan (con ?bs s) dp c PTE_R (INDEX2FD fdnum)" "ucan (con ?bs s) dp c PTE_W (INDEX2FD fdnum)" using D by simp_all
  have p: "uput (INDEX2FD fdnum + 4) (off + of_nat n) (con ?bs (memupd s m)) = Some (con ?bs (memupd s m'))" "uview s dp L X c m'"
    using uput_fd [OF v2 D(1) D2(2), of 4 "off + of_nat n"] by (simp_all add: m'_def)
  have g: "uget (INDEX2FD fdnum + 4) (con ?bs (memupd s m)) = Some (off, con ?bs (memupd s m))"
    using fd_word(2) [OF v2 D(1) D2(1)] by (simp add: off_def)
  have run: "uwrite io fdnum buf (of_nat n) (memupd s m) = Some (of_nat n, con ?bs (memupd s m'))"
    using fd fd_word(2,3) [OF v D(1,2)] D(5) om pr p(1) g sn n
    by (simp add: uwrite_def fd_omode_def fd_offset_def dev_write_def cons_write_def sysval_def off_def)
  have o: "m' x = m x" if "x \<notin> off_span s dp c fdnum" for x
    unfolding m'_def by (rule st32_other) (use that in \<open>simp add: off_span_def\<close>)
  have "ld32 m' ?A = ld32 m ?A" "ld32 m' (?A + 8) = ld32 m (?A + 8)" by (simp_all add: m'_def ld32_def st32_def add.assoc)
  then have "cons_at s dp c m' fdnum omode" using f by (simp add: cons_at_def Let_def)
  then show ?thesis using run p(2) o by blast
qed

section \<open>The copy loop\<close>

text \<open>The places that \<^verbatim>\<open>cat\<close> works on do not overlap: the buffer, the descriptor and the contents of the file, and the descriptor of the console.\<close>

definition cat_apart :: "kstate \<Rightarrow> (nat \<Rightarrow> nat) \<Rightarrow> nat \<Rightarrow> u32 \<Rightarrow> u32 \<Rightarrow> nat \<Rightarrow> bool" where
  "cat_apart s dp c buf fdnum len \<longleftrightarrow>
     ubuf s dp c buf 8192 \<and> (\<forall>i < 8192. ucan s dp c PTE_R (buf + of_nat i)) \<and> unat buf + 8192 \<le> unat UTOP \<and>
     span s dp c buf 8192 \<inter> (fd_span s dp c fdnum \<union> span s dp c (INDEX2DATA fdnum) len) = {} \<and>
     fd_span s dp c 1 \<inter> (span s dp c buf 8192 \<union> fd_span s dp c fdnum \<union> span s dp c (INDEX2DATA fdnum) len) = {}"

lemma con_apart [simp]: "cat_apart (con bs s) = cat_apart s"
  by (intro ext) (simp add: cat_apart_def)

text \<open>One round: a block of the file goes to the console.\<close>

lemma cat_round:
  assumes v: "uview s dp L X c m" and f: "file_at s dp c m fdnum omode off cont" and om: "omode AND O_ACCMODE \<noteq> O_WRONLY"
    and cn: "cons_at s dp c m 1 cmode" and cm: "cmode AND O_ACCMODE \<noteq> O_RDONLY" and ap: "cat_apart s dp c buf fdnum (length cont)"
    and o: "off + 8192 < 2 ^ 32" and k: "k = min 8192 (length cont - off)"
  shows "\<exists>m'. cat_loop io fdnum buf (memupd s m) =
        (if k = 0 then Some (0, memupd s m') else cat_loop io fdnum buf (memupd (con (take k (drop off cont)) s) m')) \<and>
      uview s dp L X c m' \<and> file_at s dp c m' fdnum omode (off + k) cont \<and> cons_at s dp c m' 1 cmode \<and>
      (\<forall>x. x \<notin> span s dp c buf 8192 \<union> off_span s dp c fdnum \<union> off_span s dp c 1 \<longrightarrow> m' x = m x)"
proof -
  have a: "ubuf s dp c buf 8192" "\<And>i. i < 8192 \<Longrightarrow> ucan s dp c PTE_R (buf + of_nat i)" "unat buf + 8192 \<le> unat UTOP"
    "span s dp c buf 8192 \<inter> (fd_span s dp c fdnum \<union> span s dp c (INDEX2DATA fdnum) (length cont)) = {}"
    "fd_span s dp c 1 \<inter> (span s dp c buf 8192 \<union> fd_span s dp c fdnum \<union> span s dp c (INDEX2DATA fdnum) (length cont)) = {}"
    using ap by (auto simp: cat_apart_def)
  have sub: "span s dp c buf k \<subseteq> span s dp c buf 8192" using k by (auto simp: span_def)
  have k8: "k \<le> 8192" using k by simp
  then have uk: "unat (of_nat k :: u32) = k" by (simp add: unat_of_nat)
  then have sk: "sint (of_nat k :: u32) = int k" using k8 sint_unat [of "of_nat k"] by simp
  obtain m1 where m1: "uread io fdnum buf 8192 (memupd s m) = Some (of_nat k, memupd s m1)" "uview s dp L X c m1"
    "file_at s dp c m1 fdnum omode (off + k) cont" "\<And>i. i < k \<Longrightarrow> m1 (upa s dp c (buf + of_nat i)) = cont ! (off + i)"
    "\<And>x. x \<notin> span s dp c buf k \<union> off_span s dp c fdnum \<Longrightarrow> m1 x = m x"
    using uread_file [OF v f om a(1,4) o k, of io] by auto
  have o1: "m1 x = m x" if "x \<notin> span s dp c buf 8192 \<union> off_span s dp c fdnum" for x using m1(5) that sub by blast
  have c1: "cons_at s dp c m1 1 cmode"
    by (rule cons_at_cong [OF cn]) (use o1 a(5) off_span_fd [of s dp c fdnum] in blast)
  note L = cat_loop.simps [of io fdnum buf "memupd s m"]
  show ?thesis
  proof (cases "k = 0")
    case True
    then show ?thesis using L m1 c1 o1 by (intro exI [of _ m1]) auto
  next
    case False
    have bs: "map (\<lambda>i. m1 (upa s dp c (buf + of_nat i))) [0..<k] = take k (drop off cont)"
      by (rule nth_equalityI) (use m1(4) k in auto)
    obtain m2 where m2: "uwrite io 1 buf (of_nat k) (memupd s m1) = Some (of_nat k, con (take k (drop off cont)) (memupd s m2))" "uview s dp L X c m2"
      "cons_at s dp c m2 1 cmode" "\<And>x. x \<notin> off_span s dp c 1 \<Longrightarrow> m2 x = m1 x"
      using uwrite_cons [OF m1(2) c1 cm a(2), of k io] False k8 a(3) bs by auto
    have "file_at s dp c m2 fdnum omode (off + k) cont"
      by (rule file_at_cong [OF m1(3)]) (use m2(4) a(5) off_span_fd [of s dp c 1] in blast)
    then show ?thesis using L m1(1) m2 sk o1 False by (intro exI [of _ m2]) auto
  qed
qed

lemma cat_loop_file:
  assumes "uview s dp L X c m" "file_at s dp c m fdnum omode off cont" "omode AND O_ACCMODE \<noteq> O_WRONLY" "cons_at s dp c m 1 cmode"
    "cmode AND O_ACCMODE \<noteq> O_RDONLY" "cat_apart s dp c buf fdnum (length cont)" "off + 8192 < 2 ^ 32"
  shows "\<exists>m'. cat_loop io fdnum buf (memupd s m) = Some (0, con (drop off cont) (memupd s m')) \<and> uview s dp L X c m' \<and>
      file_at s dp c m' fdnum omode (max off (length cont)) cont \<and> cons_at s dp c m' 1 cmode \<and>
      (\<forall>x. x \<notin> span s dp c buf 8192 \<union> off_span s dp c fdnum \<union> off_span s dp c 1 \<longrightarrow> m' x = m x)"
  using assms
proof (induction "length cont - off" arbitrary: s m off rule: less_induct)
  case less
  define k where "k = min 8192 (length cont - off)"
  obtain m1 where m1: "cat_loop io fdnum buf (memupd s m) =
        (if k = 0 then Some (0, memupd s m1) else cat_loop io fdnum buf (memupd (con (take k (drop off cont)) s) m1))"
    "uview s dp L X c m1" "file_at s dp c m1 fdnum omode (off + k) cont" "cons_at s dp c m1 1 cmode"
    "\<And>x. x \<notin> span s dp c buf 8192 \<union> off_span s dp c fdnum \<union> off_span s dp c 1 \<Longrightarrow> m1 x = m x"
    using cat_round [OF less.prems k_def, of io] by blast
  show ?case
  proof (cases "k = 0")
    case True
    then have "length cont \<le> off" by (auto simp: k_def)
    then show ?thesis using m1 True by (intro exI [of _ m1]) (auto simp: max_def)
  next
    case False
    let ?s = "con (take k (drop off cont)) s"
    have lt: "length cont - (off + k) < length cont - off" using False by (auto simp: k_def)
    have o: "off + k + 8192 < 2 ^ 32" using False file_atD(9) [OF less.prems(2)] by (auto simp: k_def)
    obtain m2 where m2: "cat_loop io fdnum buf (memupd ?s m1) = Some (0, con (drop (off + k) cont) (memupd ?s m2))" "uview s dp L X c m2"
      "file_at s dp c m2 fdnum omode (max (off + k) (length cont)) cont" "cons_at s dp c m2 1 cmode"
      "\<And>x. x \<notin> span s dp c buf 8192 \<union> off_span s dp c fdnum \<union> off_span s dp c 1 \<Longrightarrow> m2 x = m1 x"
      using less.hyps [OF lt, of ?s m1] m1(2-4) less.prems(3,5,6) o by auto
    have "take k (drop off cont) @ drop (off + k) cont = drop off cont" by (metis append_take_drop_id drop_drop add.commute)
    moreover have "max (off + k) (length cont) = max off (length cont)" using False by (auto simp: k_def)
    ultimately show ?thesis using m1(1,5) m2 False by (intro exI [of _ m2]) auto
  qed
qed

section \<open>A program with a file and the console\<close>

text \<open>Environment 0 has the file with the bytes \<open>97, 98, 99\<close> (frame 6) as descriptor 0 (frame 2) and the console as descriptor 1 (frame 7); its
  buffer is in the frames 8 and 9.  Frames 1 and 5 are page tables, and frames 10 to 15 are free.\<close>

definition kcat_mem :: mem where
  "kcat_mem = fold (\<lambda>(a, v) m. st32 m a v)
     [(slot 0 383, ADDR_PTE (page2pa 1) OR 0 OR PTE_V), (slot 0 384, ADDR_PTE (page2pa 5) OR 0 OR PTE_V), (slot 1 0, new_pte 2 rw_bits),
      (slot 1 1, new_pte 7 rw_bits), (slot 5 0, new_pte 6 rw_bits), (slot 5 1, new_pte 8 rw_bits), (slot 5 2, new_pte 9 rw_bits),
      (slot 2 0, 102), (slot 2 36, 3), (slot 6 0, 0x636261), (slot 7 0, 99), (slot 7 2, 2)] (\<lambda>_. 0)"

definition kcat_pm :: pmap where
  "kcat_pm = kdemo_pm\<lparr>mem := kcat_mem, npage := 16, pp_ref := (\<lambda>p. if p < 10 then 1 else 0),
     page_free_list := fold (\<lambda>p q. LIST_INSERT_HEAD q p) (rev [10..<16]) (LIST_INIT zero_links)\<rparr>"

definition kcat :: kstate where
  "kcat = kdemo\<lparr>pm := kcat_pm\<rparr>"

lemma kcat_ent:
  assumes "d < page_bound" "i < 1024"
  shows "ent (mem kcat_pm) d i = (if d = 0 \<and> i = 383 then ADDR_PTE (page2pa 1) OR 0 OR PTE_V
     else if d = 0 \<and> i = 384 then ADDR_PTE (page2pa 5) OR 0 OR PTE_V
     else if d = 1 \<and> i = 0 then new_pte 2 rw_bits else if d = 1 \<and> i = 1 then new_pte 7 rw_bits
     else if d = 5 \<and> i = 0 then new_pte 6 rw_bits else if d = 5 \<and> i = 1 then new_pte 8 rw_bits else if d = 5 \<and> i = 2 then new_pte 9 rw_bits
     else if d = 2 \<and> i = 0 then 102 else if d = 2 \<and> i = 36 then 3
     else if d = 6 \<and> i = 0 then 0x636261 else if d = 7 \<and> i = 0 then 99 else if d = 7 \<and> i = 2 then 2 else 0)"
proof -
  have z: "ent (\<lambda>_. 0) d i = 0" by (simp add: ent_def ld32_def)
  show ?thesis using assms by (simp add: kcat_pm_def kcat_mem_def ent_st32 z page_bound_def)
qed

lemma kcat_fields: "npage kcat_pm = 16" "unat (npage kcat_pm) \<le> page_bound"
  by (simp_all add: kcat_pm_def page_bound_def)

lemma kcat_frames: "entry_frame kcat_pm (ADDR_PTE (page2pa 1) OR 0 OR PTE_V) = Some 1" "entry_frame kcat_pm (ADDR_PTE (page2pa 5) OR 0 OR PTE_V) = Some 5"
  "p < 16 \<Longrightarrow> entry_frame kcat_pm (new_pte p rw_bits) = Some p"
  using kcat_fields entry_frame_new [of 1 kcat_pm 0] entry_frame_new [of 5 kcat_pm 0] new_pte_frame [of p kcat_pm rw_bits]
  by (simp_all add: flag_bits_or) (simp_all add: flag_bits_def)

lemma kcat_ptab: "ptab kcat_pm {0} = [(0, 383) \<mapsto> 1, (0, 384) \<mapsto> 5]"
proof
  fix k :: "nat \<times> u32"
  obtain d i where k: "k = (d, i)" by (cases k)
  show "ptab kcat_pm {0} k = [(0, 383) \<mapsto> 1, (0, 384) \<mapsto> 5] k"
    using kcat_ent [of 0 i] user_slot_less [of i] kcat_frames(1,2)
    by (auto simp: k ptab_def table_at_def page_bound_def user_slots split: if_splits)
qed

definition kcat_map :: "nat \<times> u32 \<times> u32 \<rightharpoonup> nat" where
  "kcat_map = [(0, 383, 0) \<mapsto> 2, (0, 383, 1) \<mapsto> 7, (0, 384, 0) \<mapsto> 6, (0, 384, 1) \<mapsto> 8, (0, 384, 2) \<mapsto> 9]"

lemma kcat_ptes: "ptes kcat_pm {0} k = (case kcat_map k of None \<Rightarrow> 0 | Some p \<Rightarrow> new_pte p rw_bits)"
proof -
  obtain d i j where k: "k = (d, i, j)" by (cases k)
  show ?thesis using kcat_ent [of 1 j] kcat_ent [of 5 j] by (auto simp: k ptes_def kcat_ptab kcat_map_def page_bound_def)
qed

lemma kcat_map_less: "kcat_map k = Some p \<Longrightarrow> p < 16"
  by (auto simp: kcat_map_def split: if_splits)

lemma kcat_maps: "maps kcat_pm {0} = kcat_map"
proof
  fix k
  show "maps kcat_pm {0} k = kcat_map k"
    using kcat_map_less [of k] kcat_frames(3) by (cases "kcat_map k") (simp_all add: maps_def kcat_ptes)
qed

lemma kcat_vm: "vm_inv kcat_pm {0} {} kdemo_X"
proof -
  have "tables_ok kcat_pm {0}"
  proof (rule tables_okI)
    fix d i assume "d \<in> {0 :: nat}" "i < PDX UTOP" "has (ent (mem kcat_pm) d i) PTE_V"
    then show "ptab kcat_pm {0} (d, i) \<noteq> None" using kcat_ent [of 0 i] user_slot_less [of i] by (auto simp: kcat_ptab page_bound_def split: if_splits)
  next
    fix k assume "has (ptes kcat_pm {0} k) PTE_V"
    then show "maps kcat_pm {0} k \<noteq> None" by (auto simp: kcat_ptes kcat_maps split: option.splits)
  qed (use kcat_fields in \<open>auto simp: kcat_ptab kcat_maps kcat_map_def split: if_splits\<close>)
  moreover have "refs_ok kcat_pm {0} kdemo_X"
    unfolding refs_ok_def
  proof (intro allI impI)
    fix p assume "p < unat (npage kcat_pm)"
    have m: "{k. maps kcat_pm {0} k = Some p} = (if p = 2 then {(0, 383, 0)} else if p = 6 then {(0, 384, 0)} else if p = 7 then {(0, 383, 1)}
        else if p = 8 then {(0, 384, 1)} else if p = 9 then {(0, 384, 2)} else {})"
      "{k. ptab kcat_pm {0} k = Some p} = (if p = 1 then {(0, 383)} else if p = 5 then {(0, 384)} else {})"
      by (auto simp: kcat_maps kcat_map_def kcat_ptab split: if_splits)
    show "unat (pp_ref kcat_pm p) = Mos_Vm.refs kcat_pm {0} p + kdemo_X p"
      unfolding Mos_Vm.refs_def m by (auto simp: kcat_pm_def kdemo_X_def)
  qed
  moreover have "free_ok kcat_pm {}"
  proof -
    have "list_rep (page_free_list kcat_pm) [10..<16]"
      using list_rep_fold [of "rev [10..<16]" "[]" "LIST_INIT zero_links", OF _ list_rep_init] by (simp add: kcat_pm_def)
    moreover have "set [10..<16] = {p. p < unat (npage kcat_pm) \<and> pp_ref kcat_pm p = 0 \<and> p \<notin> {}}"
    proof (rule set_eqI)
      fix p :: nat
      have "10 \<le> p \<and> p < 16 \<longleftrightarrow> p < unat (npage kcat_pm) \<and> pp_ref kcat_pm p = 0" by (auto simp: kcat_pm_def)
      then show "p \<in> set [10..<16] \<longleftrightarrow> p \<in> {p. p < unat (npage kcat_pm) \<and> pp_ref kcat_pm p = 0 \<and> p \<notin> {}}" unfolding set_upt by simp
    qed
    ultimately show ?thesis unfolding free_ok_def by blast
  qed
  ultimately show ?thesis by (simp add: vm_inv_def)
qed

lemma kcat_kinv: "kinv kcat (\<lambda>_. 0) {} kdemo_X 0" "(\<lambda>_. 0) ` live kcat = {0}" "pm kcat = kcat_pm"
proof -
  have lv: "live kcat = live kdemo" by (simp add: kcat_def live_def)
  show pm: "pm kcat = kcat_pm" by (simp add: kcat_def)
  show im: "(\<lambda>_. 0) ` live kcat = {0}" using lv kdemo_live by simp
  have "curenv kcat = Some 0" "cur_pgdir kcat = env_pgdir (envs kcat 0)" "env_pgdir (envs kcat 0) = page2pa 0" by (simp_all add: kcat_def kdemo_def)
  then show "kinv kcat (\<lambda>_. 0) {} kdemo_X 0"
    using kcat_vm kdemo_live unfolding kinv_def space_inv_def im pm lv by simp
qed

lemma kcat_page:
  assumes "(b, p) \<in> {(0x5fc00000, 2), (0x5fc01000, 7), (0x60000000, 6), (0x60001000, 8), (0x60002000, 9)}" "n < 4096"
  shows "ucan kcat (\<lambda>_. 0) 0 PTE_R (b + of_nat n)" "ucan kcat (\<lambda>_. 0) 0 PTE_W (b + of_nat n)" "upa kcat (\<lambda>_. 0) 0 (b + of_nat n) = page2pa p + of_nat n"
proof -
  have e: "has (new_pte p rw_bits) PTE_R" "has (new_pte p rw_bits) PTE_W"
    unfolding has_new_pte by (simp_all add: has_bits new_pte_def insert_perm_def bit_or_iff, simp_all add: pte_defs)
  have b: "unat b mod 4096 = 0" "kcat_map (key 0 b) = Some p" using assms(1) by (auto simp: kcat_map_def key_def PDX_def PTX_def)
  then have c: "ucan kcat (\<lambda>_. 0) 0 PTE_R b" "ucan kcat (\<lambda>_. 0) 0 PTE_W b" "upa kcat (\<lambda>_. 0) 0 b = page2pa p"
    by (simp_all add: ucan_def upa_def kcat_kinv kcat_maps kcat_ptes e)
  have "unat b mod 4096 + n < 4096" using b(1) assms(2) by simp
  note in_page_offset(2,3) [OF this, of kcat "\<lambda>_. 0" 0]
  then show "ucan kcat (\<lambda>_. 0) 0 PTE_R (b + of_nat n)" "ucan kcat (\<lambda>_. 0) 0 PTE_W (b + of_nat n)" "upa kcat (\<lambda>_. 0) 0 (b + of_nat n) = page2pa p + of_nat n"
    using c by simp_all
qed

lemma kcat_buf:
  assumes "i < 8192"
  shows "ucan kcat (\<lambda>_. 0) 0 PTE_R (0x60001000 + of_nat i)" "ucan kcat (\<lambda>_. 0) 0 PTE_W (0x60001000 + of_nat i)"
    "upa kcat (\<lambda>_. 0) 0 (0x60001000 + of_nat i) = page2pa 8 + of_nat i"
proof -
  consider "i < 4096" | j where "i = 4096 + j" "j < 4096" using assms le_Suc_ex [of 4096 i] by (cases "i < 4096") (auto simp: not_less)
  note c = this
  have p9: "page2pa 9 = page2pa 8 + 4096" by (simp add: page2pa_def page2ppn_def KERNBASE_def PPN_def push_bit_eq_mult drop_bit_eq_div)
  from c show "ucan kcat (\<lambda>_. 0) 0 PTE_R (0x60001000 + of_nat i)" "ucan kcat (\<lambda>_. 0) 0 PTE_W (0x60001000 + of_nat i)"
    "upa kcat (\<lambda>_. 0) 0 (0x60001000 + of_nat i) = page2pa 8 + of_nat i"
    using kcat_page [of "0x60001000" 8 i] kcat_page [of "0x60002000" 9 "i - 4096"]
    by (cases; auto simp: p9 add.assoc [symmetric])+
qed

lemma kcat_unat: "p < 16 \<Longrightarrow> i < 8192 \<Longrightarrow> unat (page2pa p + of_nat i) = 4096 * (p + 0x80200) + i"
  using page2pa_unat [of p] by (simp add: page_bound_def unat_word_ariths unat_of_nat)

lemma kcat_spans: "fd_span kcat (\<lambda>_. 0) 0 0 = (\<lambda>i. page2pa 2 + of_nat i) ` {..<272}" "fd_span kcat (\<lambda>_. 0) 0 1 = (\<lambda>i. page2pa 7 + of_nat i) ` {..<272}"
  "span kcat (\<lambda>_. 0) 0 0x60000000 3 = (\<lambda>i. page2pa 6 + of_nat i) ` {..<3}" "span kcat (\<lambda>_. 0) 0 0x60001000 8192 = (\<lambda>i. page2pa 8 + of_nat i) ` {..<8192}"
proof -
  show "fd_span kcat (\<lambda>_. 0) 0 0 = (\<lambda>i. page2pa 2 + of_nat i) ` {..<272}" "fd_span kcat (\<lambda>_. 0) 0 1 = (\<lambda>i. page2pa 7 + of_nat i) ` {..<272}"
    using kcat_page(3) [of "0x5fc00000" 2 0] kcat_page(3) [of "0x5fc01000" 7 0] by (simp_all add: fd_span_def INDEX2FD_def fd_consts)
  show "span kcat (\<lambda>_. 0) 0 0x60000000 3 = (\<lambda>i. page2pa 6 + of_nat i) ` {..<3}"
    unfolding span_def by (rule image_cong [OF refl]) (use kcat_page(3) [of "0x60000000" 6] in simp)
  show "span kcat (\<lambda>_. 0) 0 0x60001000 8192 = (\<lambda>i. page2pa 8 + of_nat i) ` {..<8192}"
    unfolding span_def by (rule image_cong [OF refl]) (use kcat_buf(3) in simp)
qed

lemma kcat_apart_frames:
  assumes "p < 16" "q < 16" "m \<le> 8192" "n \<le> 8192" "4096 * p + m \<le> 4096 * q \<or> 4096 * q + n \<le> 4096 * p"
  shows "(\<lambda>i. page2pa p + of_nat i) ` {..<m} \<inter> (\<lambda>i. page2pa q + of_nat i) ` {..<n} = {}"
proof -
  have "page2pa p + of_nat i \<noteq> page2pa q + of_nat j" if "i < m" "j < n" for i j
  proof
    assume "page2pa p + of_nat i = page2pa q + of_nat j"
    then have "4096 * (p + 0x80200) + i = 4096 * (q + 0x80200) + j" using kcat_unat [of p i] kcat_unat [of q j] that assms(1-4) by simp
    then have "4096 * p + i = 4096 * q + j" by simp
    moreover have "4096 * p + i < 4096 * q \<or> 4096 * q + j < 4096 * p" using assms(5) that by (auto intro: less_le_trans)
    ultimately show False using trans_less_add1 [of "4096 * p" "4096 * q" j] trans_less_add1 [of "4096 * q" "4096 * p" i] by auto
  qed
  then show ?thesis by blast
qed

lemma kcat_apart: "cat_apart kcat (\<lambda>_. 0) 0 0x60001000 0 3"
proof -
  have "inj_on (\<lambda>i. upa kcat (\<lambda>_. 0) 0 (0x60001000 + of_nat i)) {..<8192}"
  proof (rule inj_onI)
    fix i j assume "i \<in> {..<8192}" "j \<in> {..<8192}" and e: "upa kcat (\<lambda>_. 0) 0 (0x60001000 + of_nat i) = upa kcat (\<lambda>_. 0) 0 (0x60001000 + of_nat j)"
    then have l: "i < 8192" "j < 8192" by simp_all
    have "unat (page2pa 8 + of_nat i) = unat (page2pa 8 + of_nat j)" using e unfolding kcat_buf(3) [OF l(1)] kcat_buf(3) [OF l(2)] by (rule arg_cong)
    then show "i = j" unfolding kcat_unat [OF _ l(1), of 8, simplified] kcat_unat [OF _ l(2), of 8, simplified] by simp
  qed
  then have u: "ubuf kcat (\<lambda>_. 0) 0 0x60001000 8192" using kcat_buf(2) by (simp add: ubuf_def)
  have d: "INDEX2DATA 0 = 0x60000000" "unat (0x60001000 :: u32) + 8192 \<le> unat UTOP" by (simp_all add: INDEX2DATA_def fd_consts layout_defs)
  show ?thesis unfolding cat_apart_def d(1) kcat_spans Int_Un_distrib
  proof (intro conjI u d(2) Un_empty [THEN iffD2])
    show "\<forall>i < 8192. ucan kcat (\<lambda>_. 0) 0 PTE_R (0x60001000 + of_nat i)" using kcat_buf(1) by blast
  qed (rule kcat_apart_frames; simp)+
qed

lemma kcat_words: "ld32 (mem kcat_pm) (page2pa 2) = 102" "ld32 (mem kcat_pm) (page2pa 2 + 4) = 0" "ld32 (mem kcat_pm) (page2pa 2 + 8) = 0"
  "ld32 (mem kcat_pm) (page2pa 2 + 144) = 3" "ld32 (mem kcat_pm) (page2pa 6) = 0x636261" "ld32 (mem kcat_pm) (page2pa 7) = 99"
  "ld32 (mem kcat_pm) (page2pa 7 + 8) = 2"
  using kcat_ent [of 2 0] kcat_ent [of 2 1] kcat_ent [of 2 2] kcat_ent [of 2 36] kcat_ent [of 6 0] kcat_ent [of 7 0] kcat_ent [of 7 2]
  by (simp_all add: ent_def slot_def page_bound_def)

lemma kcat_file: "file_at kcat (\<lambda>_. 0) 0 (mem kcat_pm) 0 O_RDONLY 0 [97, 98, 99]"
proof -
  have b: "mem kcat_pm (page2pa 6) = 97" "mem kcat_pm (page2pa 6 + 1) = 98" "mem kcat_pm (page2pa 6 + 2) = 99"
    using bytes_of_ld32 [of "mem kcat_pm" "page2pa 6"] unfolding kcat_words by simp_all
  have d: "ucan kcat (\<lambda>_. 0) 0 PTE_R (0x60000000 + of_nat i) \<and> mem kcat_pm (upa kcat (\<lambda>_. 0) 0 (0x60000000 + of_nat i)) = [97, 98, 99] ! i" if "i < 3" for i
  proof -
    have "i = 0 \<or> i = 1 \<or> i = 2" using that by auto
    moreover have "mem kcat_pm (page2pa 6 + of_nat i) = [97, 98, 99] ! i" using calculation b by auto
    ultimately show ?thesis using kcat_page(1,3) [of "0x60000000" 6 i] by auto
  qed
  have "fd_span kcat (\<lambda>_. 0) 0 0 \<inter> span kcat (\<lambda>_. 0) 0 0x60000000 3 = {}" by (simp add: kcat_spans kcat_apart_frames)
  moreover have "length [97, 98, 99 :: u8] = 3" by simp
  ultimately show ?thesis using kcat_words d kcat_page [of "0x5fc00000" 2 0] unfolding file_at_def Let_def
    by (simp del: list.size add: INDEX2FD_def INDEX2DATA_def fd_consts O_RDONLY_def)
qed

lemma kcat_cons: "cons_at kcat (\<lambda>_. 0) 0 (mem kcat_pm) 1 O_RDWR"
  using kcat_words kcat_page [of "0x5fc01000" 7 0] by (simp add: cons_at_def INDEX2FD_def fd_consts O_RDWR_def)

section \<open>The property\<close>

text \<open>Property C39.  \<^verbatim>\<open>cat\<close> ends, and what it has printed on the console is exactly the rest of the file from the current position on, however many
  blocks that takes; it leaves the file at its end and changes no memory but its buffer and the two positions.  On a file opened for writing only it
  panics.\<close>

theorem cat_correct:
  assumes kv: "kinv s dp L X c" and f: "file_at s dp c (mem (pm s)) fdnum omode off cont"
    and cn: "cons_at s dp c (mem (pm s)) 1 cmode" and cm: "cmode AND O_ACCMODE \<noteq> O_RDONLY"
    and ap: "cat_apart s dp c buf fdnum (length cont)" and o: "off + 8192 < 2 ^ 32"
  shows "(omode AND O_ACCMODE = O_WRONLY \<longrightarrow> cat io fdnum buf s = None) \<and>
    (omode AND O_ACCMODE \<noteq> O_WRONLY \<longrightarrow> (\<exists>m'. cat io fdnum buf s = Some ((memupd s m')\<lparr>console_out := console_out s @ drop off cont\<rparr>) \<and>
      uview s dp L X c m' \<and> file_at s dp c m' fdnum omode (max off (length cont)) cont \<and> cons_at s dp c m' 1 cmode \<and>
      (\<forall>x. x \<notin> span s dp c buf 8192 \<union> off_span s dp c fdnum \<union> off_span s dp c 1 \<longrightarrow> m' x = mem (pm s) x)))"
proof (cases "omode AND O_ACCMODE = O_WRONLY")
  case True
  note v = uview_init [OF kv] and D = file_atD [OF f]
  have "uread io fdnum buf 8192 s = Some (neg_errno E_INVAL, s)"
    using fd_dev_file [OF v f] fd_word(3) [OF v D(1,2)] D(6) True by (simp add: uread_def fd_omode_def)
  then have "cat io fdnum buf s = None" using cat_loop.simps [of io fdnum buf s] by (simp add: cat_def neg_errno_def)
  then show ?thesis using True by simp
next
  case False
  have out: "con bs (memupd s m) = (memupd s m)\<lparr>console_out := console_out s @ bs\<rparr>" for bs m by (simp add: con_def memupd_def)
  obtain m' where "cat_loop io fdnum buf (memupd s (mem (pm s))) = Some (0, con (drop off cont) (memupd s m'))" "uview s dp L X c m'"
    "file_at s dp c m' fdnum omode (max off (length cont)) cont" "cons_at s dp c m' 1 cmode"
    "\<forall>x. x \<notin> span s dp c buf 8192 \<union> off_span s dp c fdnum \<union> off_span s dp c 1 \<longrightarrow> m' x = mem (pm s) x"
    using cat_loop_file [OF uview_init [OF kv] f False cn cm ap o, of io] by blast
  then show ?thesis using False unfolding out [symmetric] by (auto simp: cat_def)
qed

theorem cat_correct_witness:
  "\<forall>io. \<exists>m'. cat io 0 0x60001000 kcat = Some ((memupd kcat m')\<lparr>console_out := console_out kcat @ [97, 98, 99]\<rparr>)"
proof
  fix io
  have l: "length [97, 98, 99 :: u8] = 3" by simp
  have "O_RDWR AND O_ACCMODE \<noteq> O_RDONLY" "O_RDONLY AND O_ACCMODE \<noteq> O_WRONLY" by (simp_all add: O_RDWR_def O_ACCMODE_def O_RDONLY_def O_WRONLY_def)
  then show "\<exists>m'. cat io 0 0x60001000 kcat = Some ((memupd kcat m')\<lparr>console_out := console_out kcat @ [97, 98, 99]\<rparr>)"
    using cat_correct [OF kcat_kinv(1), unfolded kcat_kinv, OF kcat_file kcat_cons, unfolded l, OF _ kcat_apart, of io] by auto
qed
end
