(* ===== verification/Mos_Stdio.thy ===== *)
theory Mos_Stdio
  imports Mos_Print Mos_Cat
begin

text \<open>
  Formatted output to a descriptor: \<^verbatim>\<open>user/lib/fprintf.c\<close>, and \<^verbatim>\<open>user/echo.c\<close> on top of it.

  \<^verbatim>\<open>write\<close> is a parameter \<open>W fd bs\<close>, the call with the bytes that the pointer and the length stand for.  The locale \<open>file_out\<close> is what \<^verbatim>\<open>fprintf\<close> needs of
  it: up to \<open>cap\<close> bytes are taken as they are.  It is interpreted on the \<^verbatim>\<open>write\<close> of theory \<open>Mos_Fd\<close> and the console, for bytes that the program
  has put into a buffer.
\<close>

declare split_paired_All [simp del] split_paired_Ex [simp del]

section \<open>The callback (fprintf.c)\<close>

type_synonym 'w writer = "u32 \<Rightarrow> u8 list \<Rightarrow> 'w \<Rightarrow> (u32 \<times> 'w) option"

text \<open>The context is the result so far and the world.\<close>

fun print_output :: "'w writer \<Rightarrow> u32 \<Rightarrow> u8 list \<Rightarrow> u32 \<times> 'w \<Rightarrow> (u32 \<times> 'w) option" where
  "print_output W fd s (r0, w) =
     (if negative r0 then Some (r0, w)
      else do { (r, w) \<leftarrow> W fd s w; Some (if negative r then r else r0 + r, w) })"

definition vfprintf :: "'w writer \<Rightarrow> mem \<Rightarrow> (nat \<Rightarrow> u8) \<Rightarrow> u32 \<Rightarrow> u8 list \<Rightarrow> u32 list \<Rightarrow> 'w \<Rightarrow> (u32 \<times> 'w) option" where
  "vfprintf W m buf fd fmt ap w = vprintfmt (print_output W fd) m buf fmt ap (0, w)"

definition fprintf :: "'w writer \<Rightarrow> mem \<Rightarrow> (nat \<Rightarrow> u8) \<Rightarrow> u32 \<Rightarrow> u8 list \<Rightarrow> u32 list \<Rightarrow> 'w \<Rightarrow> (u32 \<times> 'w) option" where
  "fprintf W m buf fd fmt ap w = vfprintf W m buf fd fmt ap w"

definition printf :: "'w writer \<Rightarrow> mem \<Rightarrow> (nat \<Rightarrow> u8) \<Rightarrow> u8 list \<Rightarrow> u32 list \<Rightarrow> 'w \<Rightarrow> (u32 \<times> 'w) option" where
  "printf W m buf fmt ap w = vfprintf W m buf 1 fmt ap w"

text \<open>\<^verbatim>\<open>echo\<close>: \<open>argv\<close> are the addresses of the arguments and \<open>dash_n\<close> the address of the string \<^verbatim>\<open>"-n"\<close>.\<close>

definition lit :: "string \<Rightarrow> u8 list" where
  "lit s = map ch s"

fun echo_loop :: "'w writer \<Rightarrow> mem \<Rightarrow> (nat \<Rightarrow> u8) \<Rightarrow> nat \<Rightarrow> u32 list \<Rightarrow> 'w \<Rightarrow> 'w option" where
  "echo_loop W m buf i [] w = Some w"
| "echo_loop W m buf i (a # argv) w = do {
     w \<leftarrow> (if i > 1 then do { (_, w) \<leftarrow> printf W m buf (lit '' '') [] w; Some w } else Some w);
     (_, w) \<leftarrow> printf W m buf (lit ''%s'') [a] w;
     echo_loop W m buf (i + 1) argv w }"

definition echo_main :: "'w writer \<Rightarrow> mem \<Rightarrow> (nat \<Rightarrow> u8) \<Rightarrow> u32 \<Rightarrow> u32 list \<Rightarrow> 'w \<Rightarrow> 'w option" where
  "echo_main W m buf dash_n argv w = do {
     nflag \<leftarrow> (if length argv > 1 then do { r \<leftarrow> strcmp m (argv ! 1) dash_n; Some (r = 0) } else Some False);
     let argv = (if nflag then tl argv else argv);
     w \<leftarrow> echo_loop W m buf 1 (tl argv) w;
     if \<not> nflag then do { (_, w) \<leftarrow> printf W m buf (lit [CHR 0x0A]) [] w; Some w } else Some w }"

section \<open>What \<^verbatim>\<open>fprintf\<close> needs of \<^verbatim>\<open>write\<close>\<close>

locale file_out =
  fixes W :: "u32 \<Rightarrow> u8 list \<Rightarrow> 'w \<Rightarrow> (u32 \<times> 'w) option" and fd :: u32 and ok :: "'w \<Rightarrow> bool" and contents :: "'w \<Rightarrow> u8 list" and cap :: nat
  assumes write_ok: "ok w \<Longrightarrow> length bs \<le> cap \<Longrightarrow> \<exists>w'. W fd bs w = Some (of_nat (length bs), w') \<and> ok w' \<and> contents w' = contents w @ bs"
    and cap_ok: "ok w \<Longrightarrow> cap < 2 ^ 31"
begin

lemma small_nonneg: "n < 2 ^ 31 \<Longrightarrow> \<not> negative (of_nat n)"
  using sint_unat [of "of_nat n"] by (simp add: unat_of_nat)
end

sublocale file_out \<subseteq> sink "print_output W fd"
  "\<lambda>(r, w). ok w \<and> take (length base) (contents w) = base \<and> r = of_nat (length (contents w) - length base)" "\<lambda>(r, w). drop (length base) (contents w)"
  "\<lambda>xs. length xs \<le> cap" for base
proof unfold_locales
  fix d :: "u32 \<times> 'w" and bs
  assume i: "case d of (r, w) \<Rightarrow> ok w \<and> take (length base) (contents w) = base \<and> r = of_nat (length (contents w) - length base)"
    and l: "length ((case d of (r, w) \<Rightarrow> drop (length base) (contents w)) @ bs) \<le> cap"
  obtain r w where d: "d = (r, w)" by (cases d)
  have o: "ok w" "take (length base) (contents w) = base" "r = of_nat (length (contents w) - length base)" "length (contents w) - length base + length bs \<le> cap"
    using i l d by simp_all
  have b: "length base \<le> length (contents w)" using arg_cong [OF o(2), of length] by simp
  obtain w' where w': "W fd bs w = Some (of_nat (length bs), w')" "ok w'" "contents w' = contents w @ bs" using write_ok [OF o(1), of bs] o(4) by auto
  have "\<not> negative r" "\<not> negative (of_nat (length bs))" using small_nonneg cap_ok [OF o(1)] o(3,4) by simp_all
  moreover have "length (contents w') - length base = length (contents w) - length base + length bs" using w'(3) b by simp
  ultimately show "\<exists>d'. print_output W fd bs d = Some d' \<and>
      (case d' of (r, w) \<Rightarrow> ok w \<and> take (length base) (contents w) = base \<and> r = of_nat (length (contents w) - length base)) \<and>
      (case d' of (r, w) \<Rightarrow> drop (length base) (contents w)) = (case d of (r, w) \<Rightarrow> drop (length base) (contents w)) @ bs"
    using w' o b by (simp add: d)
qed simp

lemma loads_cstr: "cstr m a xs \<Longrightarrow> loads m a (length xs) = xs"
proof (induction m a xs rule: cstr.induct)
  case (2 m s x xs)
  have sh: "s + 1 + of_nat i = s + of_nat (Suc i)" for i by simp
  have "loads m s (Suc (length xs)) = m s # loads m (s + 1) (length xs)"
    unfolding loads_def sh by (simp add: upt_conv_Cons map_Suc_upt [symmetric] del: upt_Suc of_nat_Suc)
  then show ?case using 2 by simp
qed (simp add: loads_def)

text \<open>What \<^verbatim>\<open>echo\<close> should print: the words with single spaces between them.\<close>

fun words :: "u8 list list \<Rightarrow> u8 list" where
  "words [] = []"
| "words (x # xs) = x @ concat (map ((#) 32) xs)"

lemma lit_tokens: "lit '' '' = concat (map unparse [Text [32]])" "lit ''%s'' = concat (map unparse [Field False False 0 False (ch CHR ''s'')])"
  "lit [CHR 0x0A] = concat (map unparse [Text [10]])"
  by (simp_all add: lit_def ch_def)

context file_out
begin

lemma vfprintf_tokens:
  assumes "ok w" "list_all wf_token ts" "render m ts ap = Some bs" "length bs \<le> cap"
  shows "\<exists>w'. vfprintf W m buf fd (concat (map unparse ts)) ap w = Some (of_nat (length bs), w') \<and> ok w' \<and> contents w' = contents w @ bs"
proof -
  from vprintfmt_tokens [OF assms(2,3), where base = "contents w" and d = "(0, w)" and buf = buf] assms(1,4)
  obtain r w' where "vprintfmt (print_output W fd) m buf (concat (map unparse ts)) ap (0, w) = Some (r, w')" "ok w'"
    "take (length (contents w)) (contents w') = contents w" "r = of_nat (length (contents w') - length (contents w))"
    "drop (length (contents w)) (contents w') = bs" by auto
  moreover from this have "contents w' = contents w @ bs" by (metis append_take_drop_id)
  ultimately show ?thesis by (simp add: vfprintf_def)
qed

lemma printf_out:
  assumes "fd = 1" "ok w" "list_all wf_token ts" "render m ts ap = Some bs" "length bs \<le> cap"
  shows "\<exists>w'. printf W m buf (concat (map unparse ts)) ap w = Some (of_nat (length bs), w') \<and> ok w' \<and> contents w' = contents w @ bs"
  using vfprintf_tokens [OF assms(2-5), of buf] assms(1) by (simp add: printf_def)

lemma printf_str:
  assumes "fd = 1" "ok w" "cstr m a x" "length x \<le> cap"
  shows "\<exists>w'. printf W m buf (lit ''%s'') [a] w = Some (of_nat (length x), w') \<and> ok w' \<and> contents w' = contents w @ x"
proof -
  have u: "unat (of_nat (length x) :: u32) = length x" using assms(4) cap_ok [OF assms(2)] by (simp add: unat_of_nat)
  have "render m [Field False False 0 False (ch CHR ''s'')] [a] = Some x"
    using strlen_cstr [OF assms(3)] loads_cstr [OF assms(3)] u by (simp add: va_arg_def field_def pad_def ch_def)
  moreover have "ch CHR ''s'' \<in> conversions" by (simp add: conversions_def)
  ultimately show ?thesis unfolding lit_tokens(2) using assms by (intro printf_out) simp_all
qed

lemma printf_lit:
  assumes "fd = 1" "ok w" "1 \<le> cap" "b = 10 \<or> b = 32"
  shows "\<exists>w'. printf W m buf [b] [] w = Some (1, w') \<and> ok w' \<and> contents w' = contents w @ [b]"
  using printf_out [OF assms(1,2), of "[Text [b]]" m "[]" "[b]" buf] assms(3,4) by (auto simp: ch_def)

lemma echo_loop_prints:
  assumes "fd = 1" "ok w" "list_all2 (cstr m) argv xs" "\<forall>x \<in> set xs. length x \<le> cap" "1 \<le> cap" "1 \<le> i"
  shows "\<exists>w'. echo_loop W m buf i argv w = Some w' \<and> ok w' \<and>
    contents w' = contents w @ (if i > 1 then concat (map ((#) 32) xs) else words xs)"
  using assms(2-4,6)
proof (induction argv arbitrary: i w xs)
  case (Cons a argv)
  obtain x ys where xs: "xs = x # ys" "cstr m a x" "list_all2 (cstr m) argv ys" using Cons.prems(2) by (auto simp: list_all2_Cons1)
  have sp: "lit '' '' = [32]" by (simp add: lit_def ch_def)
  obtain w1 where w1: "(if i > 1 then do { (_, w) \<leftarrow> printf W m buf (lit '' '') [] w; Some w } else Some w) = Some w1" "ok w1"
    "contents w1 = contents w @ (if i > 1 then [32] else [])"
    using printf_lit [OF assms(1) Cons.prems(1) assms(5), of 32 m buf] Cons.prems(1) unfolding sp by (cases "i > 1") auto
  obtain w2 where w2: "printf W m buf (lit ''%s'') [a] w1 = Some (of_nat (length x), w2)" "ok w2" "contents w2 = contents w1 @ x"
    using printf_str [OF assms(1) w1(2) xs(2), of buf] Cons.prems(3) xs(1) by auto
  obtain w' where "echo_loop W m buf (i + 1) argv w2 = Some w'" "ok w'"
    "contents w' = contents w2 @ (if i + 1 > 1 then concat (map ((#) 32) ys) else words ys)"
    using Cons.IH [OF w2(2) xs(3), of "i + 1"] Cons.prems(3) xs(1) by auto
  then show ?case using w1 w2 xs(1) Cons.prems(4) by auto
qed simp

lemma echo_prints:
  assumes "fd = 1" "ok w" "list_all2 (cstr m) argv (name # xs)" "cstr m dash_n (lit ''-n'')" "\<forall>x \<in> set xs. length x \<le> cap" "1 \<le> cap"
  shows "\<exists>w'. echo_main W m buf dash_n argv w = Some w' \<and> ok w' \<and>
    contents w' = contents w @ (if xs \<noteq> [] \<and> hd xs = lit ''-n'' then words (tl xs) else words xs @ [10])"
proof -
  obtain a argv' where av: "argv = a # argv'" "list_all2 (cstr m) argv' xs" using assms(3) by (auto simp: list_all2_Cons2)
  have nl: "lit [CHR 0x0A] = [10]" by (simp add: lit_def ch_def)
  have flag: "(if length argv > 1 then do { r \<leftarrow> strcmp m (argv ! 1) dash_n; Some (r = 0) } else Some False) = Some (xs \<noteq> [] \<and> hd xs = lit ''-n'')"
  proof (cases xs)
    case (Cons x ys)
    then obtain b bs where b: "argv' = b # bs" "cstr m b x" using av(2) by (auto simp: list_all2_Cons2)
    obtain r where r: "strcmp m b dash_n = Some r" using strcmp_lex [OF b(2) assms(4)] by auto
    then show ?thesis using strcmp_0_iff [OF b(2) assms(4)] av(1) b(1) Cons by auto
  qed (use av in simp)
  show ?thesis
  proof (cases "xs \<noteq> [] \<and> hd xs = lit ''-n''")
    case True
    have "list_all2 (cstr m) (tl argv') (tl xs)" using av(2) by (auto simp: list_all2_conv_all_nth nth_tl)
    moreover have "\<forall>x \<in> set (tl xs). length x \<le> cap" using assms(5) True by (cases xs) auto
    ultimately obtain w' where "echo_loop W m buf 1 (tl argv') w = Some w'" "ok w'" "contents w' = contents w @ words (tl xs)"
      using echo_loop_prints [OF assms(1,2), of m "tl argv'" "tl xs" 1 buf] assms(6) by auto
    then show ?thesis unfolding echo_main_def flag using True av(1) by simp
  next
    case False
    obtain w1 where w1: "echo_loop W m buf 1 argv' w = Some w1" "ok w1" "contents w1 = contents w @ words xs"
      using echo_loop_prints [OF assms(1,2) av(2) assms(5,6), of 1 buf] by auto
    obtain w' where "printf W m buf [10] [] w1 = Some (1, w')" "ok w'" "contents w' = contents w1 @ [10]"
      using printf_lit [OF assms(1) w1(2) assms(6), of 10 m buf] by auto
    moreover have nf: "(xs \<noteq> [] \<and> hd xs = lit ''-n'') = False" using False by simp
    ultimately show ?thesis unfolding echo_main_def flag nl nf using av(1) w1 by simp
  qed
qed
end

section \<open>The console as the output\<close>

text \<open>\<^verbatim>\<open>write\<close> for bytes that the program has at \<open>tmp\<close>, where it puts them first.\<close>

definition write_bytes :: "uio \<Rightarrow> u32 \<Rightarrow> kstate writer" where
  "write_bytes io tmp fd bs s = do { s \<leftarrow> kstores tmp bs s; uwrite io fd tmp (of_nat (length bs)) s }"

definition cons_ok :: "(nat \<Rightarrow> nat) \<Rightarrow> nat set \<Rightarrow> (nat \<Rightarrow> nat) \<Rightarrow> nat \<Rightarrow> u32 \<Rightarrow> u32 \<Rightarrow> nat \<Rightarrow> kstate \<Rightarrow> bool" where
  "cons_ok dp L X c fd tmp cap s \<longleftrightarrow> kinv s dp L X c \<and>
     (\<exists>omode. cons_at s dp c (mem (pm s)) fd omode \<and> omode AND O_ACCMODE \<noteq> O_RDONLY) \<and>
     ubuf s dp c tmp cap \<and> (\<forall>i < cap. ucan s dp c PTE_R (tmp + of_nat i)) \<and> unat tmp < unat UTOP \<and> unat tmp + cap \<le> unat UTOP \<and>
     span s dp c tmp cap \<inter> fd_span s dp c fd = {} \<and> cap < 2 ^ 31"

lemma view_memupd:
  assumes "uview s dp L X c m"
  shows "upa (memupd s m) dp c = upa s dp c" "ucan (memupd s m) dp c = ucan s dp c"
  by (intro ext, simp add: upa_def ucan_def uview_maps [OF assms] uview_inv(3) [OF assms])+

lemma cons_ok_view:
  assumes "cons_ok dp L X c fd tmp cap s" "uview s dp L X c m" "cons_at s dp c m fd omode" "omode AND O_ACCMODE \<noteq> O_RDONLY"
  shows "cons_ok dp L X c fd tmp cap (con bs (memupd s m))"
proof -
  note u = view_memupd [OF assms(2)]
  have "kinv (con bs (memupd s m)) dp L X c" using assms(2) by (simp add: uview_def kinv_def space_inv_def)
  moreover have "cons_at (memupd s m) dp c m fd omode" using assms(3) by (simp add: cons_at_def u)
  moreover have "span (memupd s m) dp c = span s dp c" "fd_span (memupd s m) dp c = fd_span s dp c" "ubuf (memupd s m) dp c = ubuf s dp c"
    by (intro ext, simp add: span_def fd_span_def ubuf_def u)+
  ultimately show ?thesis using assms(1,4) unfolding cons_ok_def by (auto simp: u)
qed

lemma kstores_view:
  assumes "uview s dp L X c m" "ubuf s dp c va (length bs)"
  shows "\<exists>m'. kstores va bs (memupd s m) = Some (memupd s m') \<and> uview s dp L X c m' \<and>
    map (\<lambda>i. m' (upa s dp c (va + of_nat i))) [0..<length bs] = bs \<and> (\<forall>x. x \<notin> span s dp c va (length bs) \<longrightarrow> m' x = m x)"
  using assms
proof (induction bs arbitrary: va m)
  case (Cons b bs)
  let ?d = "\<lambda>i. upa s dp c (va + of_nat i)" and ?n = "length bs"
  have sh: "va + 1 + of_nat i = va + of_nat (Suc i)" for i by simp
  have w: "ucan s dp c PTE_W (va + of_nat i)" if "i < Suc ?n" for i using Cons.prems(2) that by (simp add: ubuf_def)
  have inj: "inj_on ?d {..<Suc ?n}" using Cons.prems(2) by (simp add: ubuf_def)
  note st = kstore8_view [OF Cons.prems(1), of va b]
  have w0: "ucan s dp c PTE_W va" using w [of 0] by simp
  have tl: "ubuf s dp c (va + 1) ?n" unfolding ubuf_def sh
  proof (intro conjI allI impI inj_onI)
    fix i j assume "i \<in> {..<?n}" "j \<in> {..<?n}" "?d (Suc i) = ?d (Suc j)"
    then show "i = j" using inj_onD [OF inj, of "Suc i" "Suc j"] by simp
  next
    fix i assume "i < ?n"
    then show "ucan s dp c PTE_W (va + of_nat (Suc i))" by (intro w) simp
  qed
  have v1: "uview s dp L X c (m(?d 0 := b))" using st(2) [OF w0] by simp
  obtain m' where m': "kstores (va + 1) bs (memupd s (m(?d 0 := b))) = Some (memupd s m')" "uview s dp L X c m'"
    "map (\<lambda>i. m' (?d (Suc i))) [0..<?n] = bs" "\<And>x. x \<notin> (\<lambda>i. ?d (Suc i)) ` {..<?n} \<Longrightarrow> m' x = (m(?d 0 := b)) x"
    using Cons.IH [OF v1 tl] unfolding span_def sh by blast
  have n0: "?d 0 \<notin> (\<lambda>i. ?d (Suc i)) ` {..<?n}"
  proof
    assume "?d 0 \<in> (\<lambda>i. ?d (Suc i)) ` {..<?n}"
    then obtain i where "i < ?n" "?d 0 = ?d (Suc i)" by auto
    then show False using inj_onD [OF inj, of 0 "Suc i"] by simp
  qed
  have "map (\<lambda>i. m' (?d i)) [0..<Suc ?n] = b # bs"
    using m'(3) m'(4) [OF n0] by (simp add: map_Suc_upt [symmetric] upt_conv_Cons comp_def del: upt_Suc)
  moreover have "m' x = m x" if "x \<notin> span s dp c va (Suc ?n)" for x
  proof -
    have "x \<noteq> ?d 0" "x \<notin> (\<lambda>i. ?d (Suc i)) ` {..<?n}" using that unfolding span_def by force+
    then show ?thesis using m'(4) by simp
  qed
  moreover have "kstores va (b # bs) (memupd s m) = Some (memupd s m')" using st(1) [OF w0] m'(1) by simp
  ultimately show ?case using m'(2) by auto
qed auto

lemma uwrite_cons_empty:
  assumes v: "uview s dp L X c m" and f: "cons_at s dp c m fdnum omode" and om: "omode AND O_ACCMODE \<noteq> O_RDONLY" and b: "unat buf < unat UTOP"
  shows "uwrite io fdnum buf 0 (memupd s m) = Some (0, memupd s m)"
proof -
  note D = cons_atD [OF f]
  have fd: "fd_dev fdnum (memupd s m) = Some (Inr (INDEX2FD fdnum, DevCons), memupd s m)"
    using fd_lookup_view [OF v D(1)] fd_word(1) [OF v D(1,2)] D(2,4) by (simp add: fd_dev_def ucan_def dev_lookup_def)
  have "sys_print_cons buf 0 (memupd s m) = Some (KReturn 0, memupd s m)"
    using b by (simp add: sys_print_cons_def word_less_nat_alt word_le_nat_alt ret_def)
  then show ?thesis using fd fd_word(2,3) [OF v D(1,2)] D(5) om
    by (simp add: uwrite_def fd_omode_def fd_offset_def dev_write_def cons_write_def sysval_def)
qed

lemma write_bytes_cons:
  assumes ok: "cons_ok dp L X c fd tmp cap s" and l: "length bs \<le> cap"
  shows "\<exists>s'. write_bytes io tmp fd bs s = Some (of_nat (length bs), s') \<and> cons_ok dp L X c fd tmp cap s' \<and> console_out s' = console_out s @ bs"
proof -
  let ?n = "length bs"
  obtain omode where kv: "kinv s dp L X c" and cn: "cons_at s dp c (mem (pm s)) fd omode" and om: "omode AND O_ACCMODE \<noteq> O_RDONLY"
    and b: "ubuf s dp c tmp cap" and r: "\<And>i. i < cap \<Longrightarrow> ucan s dp c PTE_R (tmp + of_nat i)" and u: "unat tmp < unat UTOP" "unat tmp + cap \<le> unat UTOP"
    and dj: "span s dp c tmp cap \<inter> fd_span s dp c fd = {}" and cap: "cap < 2 ^ 31"
    using ok unfolding cons_ok_def by auto
  have sub: "span s dp c tmp ?n \<subseteq> span s dp c tmp cap" using l by (auto simp: span_def)
  have "ubuf s dp c tmp ?n" using b l unfolding ubuf_def by (auto intro: inj_on_subset)
  then obtain m1 where m1: "kstores tmp bs s = Some (memupd s m1)" "uview s dp L X c m1"
    "map (\<lambda>i. m1 (upa s dp c (tmp + of_nat i))) [0..<?n] = bs" "\<And>x. x \<notin> span s dp c tmp ?n \<Longrightarrow> m1 x = mem (pm s) x"
    using kstores_view [OF uview_init [OF kv], of tmp bs] by auto
  have c1: "cons_at s dp c m1 fd omode" by (rule cons_at_cong [OF cn]) (use m1(4) dj sub in blast)
  have "\<exists>m2. uwrite io fd tmp (of_nat ?n) (memupd s m1) = Some (of_nat ?n, con bs (memupd s m2)) \<and> uview s dp L X c m2 \<and> cons_at s dp c m2 fd omode"
  proof (cases "?n = 0")
    case True
    then show ?thesis using uwrite_cons_empty [OF m1(2) c1 om u(1), of io] m1(2) c1 by auto
  next
    case False
    then show ?thesis using uwrite_cons [OF m1(2) c1 om r, of ?n io] m1(3) l u(2) cap by auto
  qed
  then obtain m2 where m2: "uwrite io fd tmp (of_nat ?n) (memupd s m1) = Some (of_nat ?n, con bs (memupd s m2))" "uview s dp L X c m2"
    "cons_at s dp c m2 fd omode" by blast
  have "console_out (con bs (memupd s m2)) = console_out s @ bs" by (simp add: memupd_def)
  then show ?thesis using m1(1) m2(1) cons_ok_view [OF ok m2(2,3) om] by (auto simp: write_bytes_def)
qed

interpretation cons_file: file_out "write_bytes io tmp" fd "cons_ok dp L X c fd tmp cap" console_out cap for io tmp fd dp L X c cap
proof
  show "\<exists>w'. write_bytes io tmp fd bs w = Some (of_nat (length bs), w') \<and> cons_ok dp L X c fd tmp cap w' \<and> console_out w' = console_out w @ bs"
    if "cons_ok dp L X c fd tmp cap w" "length bs \<le> cap" for w bs using write_bytes_cons that .
qed (simp add: cons_ok_def)

section \<open>The properties\<close>

text \<open>\<^verbatim>\<open>fprintf\<close> to the console prints what the format means and returns the number of bytes.\<close>

theorem fprintf_correct:
  assumes "cons_ok dp L X c fd tmp cap s" "list_all wf_token ts" "render m ts ap = Some bs" "length bs \<le> cap"
  shows "\<exists>s'. fprintf (write_bytes io tmp) m buf fd (concat (map unparse ts)) ap s = Some (of_nat (length bs), s') \<and> cons_ok dp L X c fd tmp cap s' \<and>
    console_out s' = console_out s @ bs"
  using cons_file.vfprintf_tokens [OF assms] unfolding fprintf_def .


definition echo_demo :: mem where
  "echo_demo = (\<lambda>_. 0)(0 := 101, 2 := 104, 3 := 105, 5 := 45, 6 := 110)"

lemma kcat_cons_ok: "cons_ok (\<lambda>_. 0) {} kdemo_X 0 1 0x60001000 8192 kcat"
proof -
  have "O_RDWR AND O_ACCMODE \<noteq> O_RDONLY" by (simp add: O_RDWR_def O_ACCMODE_def O_RDONLY_def)
  moreover have "unat (0x60001000 :: u32) < unat UTOP" by (simp add: layout_defs)
  moreover have "span kcat (\<lambda>_. 0) 0 0x60001000 8192 \<inter> fd_span kcat (\<lambda>_. 0) 0 1 = {}" using kcat_apart by (auto simp: cat_apart_def)
  ultimately show ?thesis using kcat_kinv(1,3) kcat_cons kcat_apart unfolding cons_ok_def cat_apart_def by auto
qed


end
