(* ===== verification/Mos_Fsformat.thy ===== *)
theory Mos_Fsformat
  imports Mos_Fs_Path
begin

text \<open>
  \<^verbatim>\<open>tools/fsformat.c\<close>, the host tool that builds the disk image.  Its memory is addressed by natural numbers: \<^verbatim>\<open>disk[b].data[i]\<close> is at
  \<open>4096 * b + i\<close> and the static \<^verbatim>\<open>super\<close> follows the last block; the member \<^verbatim>\<open>type\<close> of a block is kept apart.  A \<^verbatim>\<open>struct File *\<close> is an
  address in this memory.  The files of the host are a tree; the order of a directory is the order in which \<^verbatim>\<open>readdir\<close> returns its entries.

  \<open>None\<close> is \<^verbatim>\<open>exit\<close>, a failed \<^verbatim>\<open>assert\<close> or a store outside an array: the code takes blocks without looking at the size of the disk, and copies
  the name of a file without looking at its length.
\<close>

declare split_paired_All [simp del] split_paired_Ex [simp del]

section \<open>The tool\<close>

text \<open>The constants of \<^verbatim>\<open>fs.h\<close> and of the tool, as numbers.\<close>

abbreviation NBLOCK :: nat where "NBLOCK \<equiv> 1024"

type_synonym hmem = "nat \<Rightarrow> u8"

definition get32 :: "hmem \<Rightarrow> nat \<Rightarrow> u32" where
  "get32 m a = ucast (m a) OR push_bit 8 (ucast (m (a + 1))) OR push_bit 16 (ucast (m (a + 2))) OR push_bit 24 (ucast (m (a + 3)))"

definition put32 :: "nat \<Rightarrow> u32 \<Rightarrow> hmem \<Rightarrow> hmem" where
  "put32 a v m = m(a := ucast v, a + 1 := ucast (drop_bit 8 v), a + 2 := ucast (drop_bit 16 v), a + 3 := ucast (drop_bit 24 v))"

definition fill_bytes :: "nat \<Rightarrow> u8 \<Rightarrow> nat \<Rightarrow> hmem \<Rightarrow> hmem" where
  "fill_bytes a v n m = (\<lambda>x. if a \<le> x \<and> x < a + n then v else m x)"

definition put_list :: "nat \<Rightarrow> u8 list \<Rightarrow> hmem \<Rightarrow> hmem" where
  "put_list a xs m = (\<lambda>x. if a \<le> x \<and> x < a + length xs then xs ! (x - a) else m x)"

datatype block_type = BLOCK_FREE | BLOCK_BOOT | BLOCK_BMAP | BLOCK_SUPER | BLOCK_DATA | BLOCK_FILE | BLOCK_INDEX

record ffstate =
  hdisk :: hmem
  btype :: "nat \<Rightarrow> block_type"
  nextbno :: nat

definition SUPER :: nat where "SUPER = 4096 * NBLOCK"
definition ROOT :: nat where "ROOT = SUPER + 8"

definition nbitblock :: nat where
  "nbitblock = (NBLOCK + 32768 - 1) div 32768"

text \<open>The members of \<^verbatim>\<open>struct File\<close>.\<close>

definition fo_size :: "nat \<Rightarrow> nat" where "fo_size f = f + 128"
definition fo_type :: "nat \<Rightarrow> nat" where "fo_type f = f + 132"
definition fo_direct :: "nat \<Rightarrow> nat \<Rightarrow> nat" where "fo_direct f i = f + 136 + 4 * i"
definition fo_indirect :: "nat \<Rightarrow> nat" where "fo_indirect f = f + 176"

lemmas fo_defs = fo_size_def fo_type_def fo_direct_def fo_indirect_def

definition upd_disk :: "(hmem \<Rightarrow> hmem) \<Rightarrow> ffstate \<Rightarrow> ffstate" where
  "upd_disk g s = s\<lparr>hdisk := g (hdisk s)\<rparr>"

text \<open>\<^verbatim>\<open>init_disk\<close> on the zero-initialised globals of the program.\<close>

definition init_disk :: ffstate where
  "init_disk =
     (let ty = (\<lambda>b. if b = 0 then BLOCK_BOOT else if b = 1 then BLOCK_SUPER else if 2 \<le> b \<and> b < 2 + nbitblock then BLOCK_BMAP else BLOCK_FREE);
          m = fill_bytes (4096 * 2) 0xff (4096 * nbitblock) (\<lambda>_. 0);
          diff = NBLOCK mod 32768 div 8;
          m = (if NBLOCK \<noteq> nbitblock * 32768 then fill_bytes (4096 * (2 + (nbitblock - 1)) + diff) 0 (4096 - diff) m else m);
          m = put32 SUPER FS_MAGIC m;
          m = put32 (SUPER + 4) (of_nat NBLOCK) m;
          m = put32 (fo_type ROOT) FTYPE_DIR m;
          m = put_list ROOT [47, 0] m
      in \<lparr>hdisk = m, btype = ty, nextbno = 2 + nbitblock\<rparr>)"

definition next_block :: "block_type \<Rightarrow> ffstate \<Rightarrow> (nat \<times> ffstate) option" where
  "next_block ty s =
     (if nextbno s < NBLOCK then Some (nextbno s, s\<lparr>btype := (btype s)(nextbno s := ty), nextbno := nextbno s + 1\<rparr>) else None)"

definition clear_bit :: "nat \<Rightarrow> hmem \<Rightarrow> hmem" where
  "clear_bit i m =
     (let a = 4096 * (2 + i div 32768) + 4 * (i mod 32768 div 32)
      in put32 a (get32 m a AND NOT (push_bit (i mod 32) 1)) m)"

definition flush_bitmap :: "ffstate \<Rightarrow> ffstate" where
  "flush_bitmap s = upd_disk (fold clear_bit [0..<nextbno s]) s"

text \<open>\<^verbatim>\<open>finish_fs\<close>: the super block is copied into block 1 and the blocks are written to the image one after the other.\<close>

definition finish_fs :: "ffstate \<Rightarrow> nat \<Rightarrow> nat \<Rightarrow> u8" where
  "finish_fs s = (let m = put_list 4096 (map (\<lambda>i. hdisk s (SUPER + i)) [0..<264]) (hdisk s) in (\<lambda>b i. m (4096 * b + i)))"

definition save_block_link :: "nat \<Rightarrow> nat \<Rightarrow> nat \<Rightarrow> ffstate \<Rightarrow> ffstate option" where
  "save_block_link f nblk bno s =
     (if nblk \<ge> 1024 then None
      else if nblk < 10 then Some (upd_disk (put32 (fo_direct f nblk) (of_nat bno)) s)
      else do {
        s \<leftarrow> (if get32 (hdisk s) (fo_indirect f) = 0
              then do { (b, s) \<leftarrow> next_block BLOCK_INDEX s; Some (upd_disk (put32 (fo_indirect f) (of_nat b)) s) }
              else Some s);
        let ib = unat (get32 (hdisk s) (fo_indirect f));
        if ib < NBLOCK then Some (upd_disk (put32 (4096 * ib + 4 * nblk) (of_nat bno)) s) else None })"

definition make_link_block :: "nat \<Rightarrow> nat \<Rightarrow> ffstate \<Rightarrow> (nat \<times> ffstate) option" where
  "make_link_block dirf nblk s = do {
     (bno, s) \<leftarrow> next_block BLOCK_FILE s;
     s \<leftarrow> save_block_link dirf nblk bno s;
     Some (bno, upd_disk (\<lambda>m. put32 (fo_size dirf) (get32 m (fo_size dirf) + 4096) m) s) }"

text \<open>The number of the \<open>i\<close>-th block of a file.\<close>

definition blk :: "hmem \<Rightarrow> nat \<Rightarrow> nat \<Rightarrow> nat" where
  "blk m f i = unat (if i < 10 then get32 m (fo_direct f i) else get32 m (4096 * unat (get32 m (fo_indirect f)) + 4 * i))"

text \<open>The search of \<^verbatim>\<open>create_file\<close> for an unused \<^verbatim>\<open>struct File\<close>, through the given blocks of the directory.\<close>

fun find_unused :: "hmem \<Rightarrow> nat \<Rightarrow> nat list \<Rightarrow> nat option option" where
  "find_unused m dirf [] = Some None"
| "find_unused m dirf (i # is) =
     (if blk m dirf i \<ge> NBLOCK then None
      else
        (case find (\<lambda>j. m (4096 * blk m dirf i + 256 * j) = 0) [0..<16] of
           Some j \<Rightarrow> Some (Some (4096 * blk m dirf i + 256 * j))
         | None \<Rightarrow> find_unused m dirf is))"

definition create_file :: "nat \<Rightarrow> ffstate \<Rightarrow> (nat \<times> ffstate) option" where
  "create_file dirf s = do {
     let nblk = unat (get32 (hdisk s) (fo_size dirf)) div 4096;
     r \<leftarrow> find_unused (hdisk s) dirf [0..<nblk];
     case r of
       Some f \<Rightarrow> Some (f, s)
     | None \<Rightarrow> do { (bno, s) \<leftarrow> make_link_block dirf nblk s; Some (4096 * bno, s) } }"

text \<open>The part of a path behind the last slash, and \<^verbatim>\<open>basename\<close>.\<close>

definition fname :: "u8 list \<Rightarrow> u8 list" where
  "fname path = rev (takeWhile (\<lambda>c. c \<noteq> 47) (rev path))"

definition basename :: "u8 list \<Rightarrow> u8 list" where
  "basename path =
     (let q = rev (dropWhile (\<lambda>c. c = 47) (rev path))
      in if path = [] then [46] else if q = [] then [47] else fname q)"

text \<open>The copying loop of \<^verbatim>\<open>write_file\<close>: \<^verbatim>\<open>read\<close> puts the next chunk into the block after the last one, before it is allocated.\<close>

function write_blocks :: "nat \<Rightarrow> nat \<Rightarrow> u8 list \<Rightarrow> ffstate \<Rightarrow> ffstate option" where
  "write_blocks t iblk bs s =
     (if bs = [] then Some s
      else if nextbno s \<ge> NBLOCK then None
      else do {
        (bno, s) \<leftarrow> next_block BLOCK_DATA (upd_disk (put_list (4096 * nextbno s) (take 4096 bs)) s);
        s \<leftarrow> save_block_link t iblk bno s;
        write_blocks t (iblk + 1) (drop 4096 bs) s })"
  by pat_completeness auto
termination
  by (relation "measure (\<lambda>(t, i, bs, s). length bs)") auto

declare write_blocks.simps [simp del]

definition write_file :: "nat \<Rightarrow> u8 list \<Rightarrow> u8 list \<Rightarrow> ffstate \<Rightarrow> ffstate option" where
  "write_file dirf path bs s = do {
     (t, s) \<leftarrow> create_file dirf s;
     s \<leftarrow> (if length (fname path) < 128 then Some (upd_disk (put_list t (fname path @ [0])) s) else None);
     let s = upd_disk (put32 (fo_type t) 0) (upd_disk (put32 (fo_size t) (of_nat (length bs))) s);
     write_blocks t 0 bs s }"

datatype host = HFile "u8 list" | HDir "(u8 list \<times> host) list"

text \<open>\<^verbatim>\<open>strncpy(pdir->f_name, basename(path), MAXNAMELEN - 1)\<close> fills 127 bytes; the test of the last one follows.\<close>

definition start_dir :: "nat \<Rightarrow> u8 list \<Rightarrow> ffstate \<Rightarrow> (nat \<times> ffstate) option" where
  "start_dir dirf path s = do {
     (p, s) \<leftarrow> create_file dirf s;
     let s = upd_disk (put_list p (take 127 (basename path) @ replicate (127 - length (basename path)) 0)) s;
     if hdisk s (p + 127) \<noteq> 0 then None
     else Some (p, upd_disk (put32 (fo_type p) FTYPE_DIR) s) }"

fun write_node :: "nat \<Rightarrow> u8 list \<Rightarrow> host \<Rightarrow> ffstate \<Rightarrow> ffstate option"
  and write_entries :: "nat \<Rightarrow> u8 list \<Rightarrow> (u8 list \<times> host) list \<Rightarrow> ffstate \<Rightarrow> ffstate option" where
  "write_node dirf path (HFile bs) s = write_file dirf path bs s"
| "write_node dirf path (HDir es) s = do { (pdir, s) \<leftarrow> start_dir dirf path s; write_entries pdir path es s }"
| "write_entries pdir path [] s = Some s"
| "write_entries pdir path ((n, h) # es) s =
     (if n = [46] \<or> n = [46, 46] then write_entries pdir path es s
      else do { s \<leftarrow> write_node pdir (path @ 47 # n) h s; write_entries pdir path es s })"

text \<open>\<^verbatim>\<open>main\<close>, given the arguments after the name of the image with what \<^verbatim>\<open>stat\<close> finds there; the result is the image.\<close>

fun write_args :: "(u8 list \<times> host) list \<Rightarrow> ffstate \<Rightarrow> ffstate option" where
  "write_args [] s = Some s"
| "write_args ((path, h) # args) s = do { s \<leftarrow> write_node ROOT path h s; write_args args s }"

definition fsformat :: "(u8 list \<times> host) list \<Rightarrow> (nat \<Rightarrow> nat \<Rightarrow> u8) option" where
  "fsformat args =
     (if args = [] then None else do { s \<leftarrow> write_args args init_disk; Some (finish_fs (flush_bitmap s)) })"

section \<open>Memory\<close>

lemma get32_put32 [simp]: "get32 (put32 a v m) a = v"
proof -
  have "get32 (put32 a v m) a = ld32 (st32 (\<lambda>i. m (a + unat i)) 0 v) 0"
    by (simp add: get32_def ld32_def put32_def st32_def)
  then show ?thesis by (simp add: mem_simps)
qed

lemma get32_cong: "(\<And>x. a \<le> x \<Longrightarrow> x < a + 4 \<Longrightarrow> m' x = m x) \<Longrightarrow> get32 m' a = get32 m a"
  by (simp add: get32_def)

lemma put32_outside: "x < a \<or> a + 4 \<le> x \<Longrightarrow> put32 a v m x = m x"
  by (auto simp: put32_def)

lemma get32_put32_other [simp]: "b + 4 \<le> a \<or> a + 4 \<le> b \<Longrightarrow> get32 (put32 a v m) b = get32 m b"
  by (rule get32_cong) (auto simp: put32_outside)

lemma upd_disk_simps [simp]:
  "hdisk (upd_disk g s) = g (hdisk s)" "btype (upd_disk g s) = btype s" "nextbno (upd_disk g s) = nextbno s"
  by (simp_all add: upd_disk_def)

lemma unat_block [simp]: "b < 1024 \<Longrightarrow> unat (of_nat b :: u32) = b"
  by (rule unat_of_nat_u32) simp

section \<open>The blocks of a file\<close>

text \<open>The number of the block of links, and: the first \<open>k\<close> links of the file at \<open>f\<close> are distinct blocks in \<open>[lo, hi)\<close>, and so is the block of
  links when there is one.\<close>

definition idx :: "hmem \<Rightarrow> nat \<Rightarrow> nat" where
  "idx m f = unat (get32 m (fo_indirect f))"

definition file_links :: "hmem \<Rightarrow> nat \<Rightarrow> nat \<Rightarrow> nat \<Rightarrow> nat \<Rightarrow> bool" where
  "file_links m f k lo hi \<longleftrightarrow> k \<le> 1024 \<and> (\<forall>i < k. lo \<le> blk m f i \<and> blk m f i < hi) \<and> inj_on (blk m f) {..<k} \<and>
     (if k \<le> 10 then get32 m (fo_indirect f) = 0 else lo \<le> idx m f \<and> idx m f < hi \<and> idx m f \<notin> blk m f ` {..<k})"

text \<open>The structure of the file is not inside the blocks from \<open>lo\<close> on.\<close>

definition apart :: "nat \<Rightarrow> nat \<Rightarrow> bool" where
  "apart f lo \<longleftrightarrow> f + 256 \<le> 4096 * lo \<or> 4096 * 1024 \<le> f"

text \<open>Two memories agree on the structure, which is at \<open>f\<close> in the one and at \<open>g\<close> in the other, and on the blocks in \<open>[lo, hi)\<close>.\<close>

definition agree :: "hmem \<Rightarrow> hmem \<Rightarrow> nat \<Rightarrow> nat \<Rightarrow> nat \<Rightarrow> nat \<Rightarrow> bool" where
  "agree m m' f g lo hi \<longleftrightarrow> (\<forall>x < 256. m' (g + x) = m (f + x)) \<and> (\<forall>x. 4096 * lo \<le> x \<longrightarrow> x < 4096 * hi \<longrightarrow> m' x = m x)"

lemma get32_agree: "agree m m' f g lo hi \<Longrightarrow> a + 4 \<le> 256 \<Longrightarrow> get32 m' (g + a) = get32 m (f + a)"
proof -
  assume "agree m m' f g lo hi" "a + 4 \<le> 256"
  then have "m' (g + (a + i)) = m (f + (a + i))" if "i < 4" for i using that by (simp add: agree_def)
  from this [of 0] this [of 1] this [of 2] this [of 3] show ?thesis by (simp add: get32_def add.assoc)
qed

lemma indirect_agree: "agree m m' f g lo hi \<Longrightarrow> get32 m' (fo_indirect g) = get32 m (fo_indirect f)"
  by (simp add: fo_defs get32_agree)

lemma idx_agree: "agree m m' f g lo hi \<Longrightarrow> idx m' g = idx m f"
  by (simp add: idx_def indirect_agree)

lemma blk_agree:
  assumes "agree m m' f g lo hi" "file_links m f k lo hi" "i < k"
  shows "blk m' g i = blk m f i"
proof (cases "i < 10")
  case True
  then show ?thesis by (simp add: blk_def fo_defs add.assoc get32_agree [OF assms(1)])
next
  case False
  have i: "lo \<le> idx m f" "idx m f < hi" "i < 1024" using assms(2,3) False by (auto simp: file_links_def split: if_splits)
  have "get32 m' (4096 * idx m f + 4 * i) = get32 m (4096 * idx m f + 4 * i)"
  proof (rule get32_cong)
    fix x assume x: "4096 * idx m f + 4 * i \<le> x" "x < 4096 * idx m f + 4 * i + 4"
    have "4096 * lo \<le> x" using x i by linarith
    moreover have "x < 4096 * hi" using x i by linarith
    ultimately show "m' x = m x" using assms(1) by (simp add: agree_def)
  qed
  then show ?thesis using False idx_agree [OF assms(1)] by (simp add: blk_def idx_def)
qed

lemma links_agree:
  assumes "agree m m' f g lo hi" "file_links m f k lo hi" shows "file_links m' g k lo hi"
proof -
  have b: "blk m' g i = blk m f i" if "i < k" for i using blk_agree [OF assms that] .
  then have "inj_on (blk m' g) {..<k} = inj_on (blk m f) {..<k}" "blk m' g ` {..<k} = blk m f ` {..<k}"
    by (auto simp: inj_on_def image_def)
  then show ?thesis using assms(2) b idx_agree [OF assms(1)] indirect_agree [OF assms(1)] by (simp add: file_links_def)
qed

lemma links_Suc:
  assumes "file_links m f k lo hi" "k < 1024" "hi \<le> hi'" "\<And>i. i < k \<Longrightarrow> blk m' f i = blk m f i"
    and "lo \<le> blk m' f k" "blk m' f k < hi'" "blk m' f k \<notin> blk m f ` {..<k}"
    and "k < 10 \<Longrightarrow> get32 m' (fo_indirect f) = 0"
    and "10 \<le> k \<Longrightarrow> lo \<le> idx m' f \<and> idx m' f < hi' \<and> idx m' f \<notin> blk m f ` {..<k} \<and> idx m' f \<noteq> blk m' f k"
  shows "file_links m' f (Suc k) lo hi'"
proof -
  have img: "blk m' f ` {..<k} = blk m f ` {..<k}" using assms(4) by (auto simp: image_def)
  have "inj_on (blk m' f) {..<k}" using assms(1,4) by (auto simp: file_links_def inj_on_def)
  then have "inj_on (blk m' f) {..<Suc k}" using assms(7) img by (simp add: lessThan_Suc)
  moreover have "lo \<le> blk m' f i \<and> blk m' f i < hi'" if "i < Suc k" for i
    using that assms(1,3,4,5,6) by (cases "i = k") (fastforce simp: file_links_def less_Suc_eq)+
  moreover have "idx m' f \<notin> blk m' f ` {..<Suc k}" if "10 \<le> k" using assms(9) [OF that] img by (simp add: lessThan_Suc)
  ultimately show ?thesis using assms(2,8,9) by (auto simp: file_links_def)
qed

text \<open>\<^verbatim>\<open>save_block_link\<close> adds one link and keeps the others; besides the links in the structure it changes only the block of links.\<close>

lemma save_block_link_ok:
  assumes l: "file_links (hdisk s) f k lo (nextbno s)" and k: "k < 1024" and b: "lo \<le> b" "b < nextbno s" "b \<notin> blk (hdisk s) f ` {..<k}"
    and bi: "10 < k \<Longrightarrow> b \<noteq> idx (hdisk s) f" and ap: "apart f lo" and lo: "0 < lo"
    and room: "nextbno s + (if k = 10 then 1 else 0) \<le> 1024"
  shows "\<exists>s'. save_block_link f k b s = Some s' \<and> nextbno s' = nextbno s + (if k = 10 then 1 else 0) \<and>
    file_links (hdisk s') f (Suc k) lo (nextbno s') \<and> blk (hdisk s') f k = b \<and> (\<forall>i < k. blk (hdisk s') f i = blk (hdisk s) f i) \<and>
    idx (hdisk s') f = (if k = 10 then nextbno s else idx (hdisk s) f) \<and>
    (\<forall>x. \<not> (f + 136 \<le> x \<and> x < f + 180) \<and> \<not> (10 \<le> k \<and> 4096 * idx (hdisk s') f \<le> x \<and> x < 4096 * idx (hdisk s') f + 4096) \<longrightarrow>
       hdisk s' x = hdisk s x)"
proof -
  have bn: "b < 1024" using b(2) room by (simp split: if_splits)
  have ub: "unat (of_nat b :: u32) = b" using bn by simp
  consider (direct) "k < 10" | (first) "k = 10" | (more) "10 < k" by linarith
  then show ?thesis
  proof cases
    case direct
    let ?s = "upd_disk (put32 (fo_direct f k) (of_nat b)) s"
    have old: "blk (hdisk ?s) f i = blk (hdisk s) f i" if "i < k" for i
      using that direct by (auto simp: blk_def fo_defs)
    have new: "blk (hdisk ?s) f k = b" using direct ub by (simp add: blk_def)
    have ind: "get32 (hdisk ?s) (fo_indirect f) = get32 (hdisk s) (fo_indirect f)" using direct by (simp add: fo_defs)
    have "file_links (hdisk ?s) f (Suc k) lo (nextbno s)"
      by (rule links_Suc [OF l k order_refl old]) (use new b direct ind l in \<open>auto simp: file_links_def\<close>)
    moreover have "\<forall>x. \<not> (f + 136 \<le> x \<and> x < f + 180) \<longrightarrow> hdisk ?s x = hdisk s x"
      using direct by (auto simp: put32_outside fo_defs)
    ultimately show ?thesis using direct k old new ind by (intro exI [of _ ?s]) (auto simp: save_block_link_def idx_def)
  next
    case first
    let ?c = "nextbno s"
    let ?m1 = "put32 (fo_indirect f) (of_nat ?c) (hdisk s)"
    let ?s = "upd_disk (put32 (4096 * ?c + 4 * k) (of_nat b)) (upd_disk (put32 (fo_indirect f) (of_nat ?c)) (s\<lparr>btype := (btype s)(?c := BLOCK_INDEX), nextbno := ?c + 1\<rparr>))"
    have c: "?c < 1024" using room first by simp
    have far: "f + 180 \<le> 4096 * ?c \<or> 4096 * ?c + 4096 \<le> f" using ap b first c by (auto simp: apart_def)
    have ind: "get32 (hdisk ?s) (fo_indirect f) = of_nat ?c" using far first by (auto simp: fo_defs)
    have ix: "idx (hdisk ?s) f = ?c" using ind c by (simp add: idx_def)
    have old: "blk (hdisk ?s) f i = blk (hdisk s) f i" if "i < k" for i
      using that first far by (auto simp: blk_def fo_defs)
    have new: "blk (hdisk ?s) f k = b" using first ub ind c by (simp add: blk_def)
    have "file_links (hdisk ?s) f (Suc k) lo (?c + 1)"
      by (rule links_Suc [OF l k _ old]) (use new b first ix l in \<open>auto simp: file_links_def\<close>)
    moreover have "save_block_link f k b s = Some ?s"
      using first l c ind by (simp add: save_block_link_def next_block_def file_links_def Let_def upd_disk_def)
    moreover have "hdisk ?s x = hdisk s x" if "\<not> (f + 136 \<le> x \<and> x < f + 180)" "\<not> (4096 * ?c \<le> x \<and> x < 4096 * ?c + 4096)" for x
      using that first by (auto simp: put32_outside fo_defs)
    ultimately show ?thesis using first old new ix by (intro exI [of _ ?s]) auto
  next
    case more
    let ?c = "idx (hdisk s) f"
    let ?s = "upd_disk (put32 (4096 * ?c + 4 * k) (of_nat b)) s"
    have c: "lo \<le> ?c" "?c < nextbno s" "?c < 1024" "?c \<notin> blk (hdisk s) f ` {..<k}" using l more room by (auto simp: file_links_def)
    then have nz: "get32 (hdisk s) (fo_indirect f) \<noteq> 0" using lo by (auto simp: idx_def)
    have far: "f + 180 \<le> 4096 * ?c \<or> 4096 * ?c + 4096 \<le> f" using ap c by (auto simp: apart_def)
    have ind: "get32 (hdisk ?s) (fo_indirect f) = get32 (hdisk s) (fo_indirect f)" using far more k by (auto simp: fo_defs)
    then have ix: "idx (hdisk ?s) f = ?c" by (simp add: idx_def)
    have old: "blk (hdisk ?s) f i = blk (hdisk s) f i" if "i < k" for i
    proof (cases "i < 10")
      case True
      then show ?thesis using far more k by (auto simp: blk_def fo_defs)
    next
      case False
      then show ?thesis using that ind by (simp add: blk_def) (simp add: idx_def)
    qed
    have new: "blk (hdisk ?s) f k = b" using more ub ix by (simp add: blk_def flip: idx_def)
    have "file_links (hdisk ?s) f (Suc k) lo (nextbno s)"
      by (rule links_Suc [OF l k order_refl old]) (use new b more ix c bi in \<open>auto simp: file_links_def\<close>)
    moreover have "save_block_link f k b s = Some ?s"
      using more k nz c(3) by (simp add: save_block_link_def flip: idx_def)
    moreover have "hdisk ?s x = hdisk s x" if "\<not> (4096 * ?c \<le> x \<and> x < 4096 * ?c + 4096)" for x
      using that k by (auto simp: put32_outside)
    ultimately show ?thesis using more old new ix by (intro exI [of _ ?s]) auto
  qed
qed

section \<open>The contents of a file\<close>

definition nblocks :: "nat \<Rightarrow> nat" where
  "nblocks n = (n + 4095) div 4096"

text \<open>How many blocks a file with \<open>k\<close> blocks of its own takes, with the block of links.\<close>

definition with_index :: "nat \<Rightarrow> nat" where
  "with_index k = k + (if 10 < k then 1 else 0)"

definition contents :: "hmem \<Rightarrow> nat \<Rightarrow> u8 list \<Rightarrow> bool" where
  "contents m f bs \<longleftrightarrow> (\<forall>i < length bs. m (4096 * blk m f (i div 4096) + i mod 4096) = bs ! i)"

lemma with_index_Suc: "with_index (Suc k) = with_index k + 1 + (if k = 10 then 1 else 0)"
  by (simp add: with_index_def)

lemma nblocks_step: "bs \<noteq> [] \<Longrightarrow> nblocks (length bs) = Suc (nblocks (length (drop 4096 bs)))"
proof -
  assume "bs \<noteq> []"
  then have "0 < length bs" by simp
  then show ?thesis unfolding nblocks_def length_drop by (cases "length bs < 4096") (auto simp: div_if)
qed

lemma with_index_mono: "i \<le> j \<Longrightarrow> with_index i \<le> with_index j"
  by (simp add: with_index_def)

lemma links_mono: "file_links m f k lo hi \<Longrightarrow> hi \<le> hi' \<Longrightarrow> file_links m f k lo hi'"
  by (fastforce simp: file_links_def)

lemma links_k: "file_links m f k lo hi \<Longrightarrow> k \<le> hi - lo"
proof -
  assume l: "file_links m f k lo hi"
  then have "blk m f ` {..<k} \<subseteq> {lo..<hi}" "inj_on (blk m f) {..<k}" by (auto simp: file_links_def)
  then have "card {..<k} \<le> card {lo..<hi}" by (metis card_image card_mono finite_atLeastLessThan)
  then show ?thesis by simp
qed

lemma agree_apart:
  assumes "apart f lo" "lo \<le> hi" "hi < 1024" "\<And>x. \<not> (4096 * hi \<le> x \<and> x < 4096 * hi + 4096) \<Longrightarrow> m' x = m x"
  shows "agree m m' f f lo hi"
  unfolding agree_def
proof (intro conjI allI impI assms(4))
  show "\<not> (4096 * hi \<le> f + x \<and> f + x < 4096 * hi + 4096)" if "x < 256" for x using that assms(1-3) by (auto simp: apart_def)
qed auto

text \<open>One round of the loop of \<^verbatim>\<open>write_file\<close>.\<close>

lemma write_chunk_ok:
  assumes l: "file_links (hdisk s) f k lo (nextbno s)" and k: "k < 1024" and ap: "apart f lo" and lo: "0 < lo" "lo \<le> nextbno s"
    and room: "nextbno s + 1 + (if k = 10 then 1 else 0) \<le> 1024" and len: "length ch \<le> 4096"
    and c: "contents (hdisk s) f pre" "length pre = 4096 * k"
  shows "\<exists>s'. do { (bno, s) \<leftarrow> next_block BLOCK_DATA (upd_disk (put_list (4096 * nextbno s) ch) s); save_block_link f k bno s } = Some s' \<and>
    nextbno s' = nextbno s + 1 + (if k = 10 then 1 else 0) \<and> file_links (hdisk s') f (Suc k) lo (nextbno s') \<and> contents (hdisk s') f (pre @ ch) \<and>
    (\<forall>x. \<not> (f + 136 \<le> x \<and> x < f + 180) \<and> \<not> (4096 * lo \<le> x \<and> x < 4096 * nextbno s') \<longrightarrow> hdisk s' x = hdisk s x)"
proof -
  let ?c = "nextbno s" and ?m1 = "put_list (4096 * nextbno s) ch (hdisk s)"
  let ?s1 = "s\<lparr>hdisk := ?m1, btype := (btype s)(nextbno s := BLOCK_DATA), nextbno := ?c + 1\<rparr>"
  have cl: "?c < 1024" using room by (simp split: if_splits)
  have out: "?m1 x = hdisk s x" if "\<not> (4096 * ?c \<le> x \<and> x < 4096 * ?c + 4096)" for x using that len by (auto simp: put_list_def)
  have ag: "agree (hdisk s) ?m1 f f lo ?c" by (rule agree_apart [OF ap lo(2) cl out])
  have nb: "next_block BLOCK_DATA (upd_disk (put_list (4096 * nextbno s) ch) s) = Some (?c, ?s1)"
    using cl by (simp add: next_block_def upd_disk_def)
  have blk1: "blk ?m1 f i = blk (hdisk s) f i" if "i < k" for i by (rule blk_agree [OF ag l that])
  have bnd: "lo \<le> blk (hdisk s) f i" "blk (hdisk s) f i < ?c" if "i < k" for i using l that by (simp_all add: file_links_def)
  have l1: "file_links (hdisk ?s1) f k lo (nextbno ?s1)" using links_mono [OF links_agree [OF ag l]] by simp
  have fresh: "?c \<notin> blk (hdisk ?s1) f ` {..<k}" using blk1 bnd by fastforce
  have fi: "?c \<noteq> idx (hdisk ?s1) f" if "10 < k" using l that idx_agree [OF ag] by (auto simp: file_links_def)
  from save_block_link_ok [OF l1 k lo(2) _ fresh fi ap lo(1)] room obtain s' where
    s': "save_block_link f k ?c ?s1 = Some s'" "nextbno s' = ?c + 1 + (if k = 10 then 1 else 0)"
      "file_links (hdisk s') f (Suc k) lo (nextbno s')" "blk (hdisk s') f k = ?c" "\<And>i. i < k \<Longrightarrow> blk (hdisk s') f i = blk ?m1 f i"
      "idx (hdisk s') f = (if k = 10 then ?c + 1 else idx ?m1 f)"
    and fr: "\<And>x. \<not> (f + 136 \<le> x \<and> x < f + 180) \<Longrightarrow> \<not> (10 \<le> k \<and> 4096 * idx (hdisk s') f \<le> x \<and> x < 4096 * idx (hdisk s') f + 4096) \<Longrightarrow>
       hdisk s' x = ?m1 x" by auto
  have ib: "lo \<le> idx (hdisk s') f" "idx (hdisk s') f < nextbno s'" "idx (hdisk s') f \<notin> blk (hdisk s') f ` {..<Suc k}" if "10 \<le> k"
    using s'(3) that by (auto simp: file_links_def)
  have keep: "hdisk s' (4096 * blk (hdisk s') f i + j) = ?m1 (4096 * blk (hdisk s') f i + j)" if "i \<le> k" "j < 4096" for i j
  proof (rule fr)
    have "lo \<le> blk (hdisk s') f i" "blk (hdisk s') f i < nextbno s'" using s'(3) that(1) by (simp_all add: file_links_def)
    moreover have "nextbno s' \<le> 1024" using s'(2) room by simp
    ultimately show "\<not> (f + 136 \<le> 4096 * blk (hdisk s') f i + j \<and> 4096 * blk (hdisk s') f i + j < f + 180)"
      using ap that(2) by (auto simp: apart_def)
    have "idx (hdisk s') f \<noteq> blk (hdisk s') f i" if "10 \<le> k" using ib(3) [OF that] \<open>i \<le> k\<close> by auto
    then show "\<not> (10 \<le> k \<and> 4096 * idx (hdisk s') f \<le> 4096 * blk (hdisk s') f i + j \<and>
        4096 * blk (hdisk s') f i + j < 4096 * idx (hdisk s') f + 4096)" using that(2) by auto
  qed
  have "hdisk s' (4096 * blk (hdisk s') f (i div 4096) + i mod 4096) = (pre @ ch) ! i" if "i < length (pre @ ch)" for i
  proof (cases "i < length pre")
    case True
    then have q: "i div 4096 < k" using c(2) by (simp add: less_mult_imp_div_less mult.commute)
    have "blk (hdisk s') f (i div 4096) = blk (hdisk s) f (i div 4096)" using s'(5) [OF q] blk1 [OF q] by simp
    moreover have "?m1 (4096 * blk (hdisk s) f (i div 4096) + i mod 4096) = hdisk s (4096 * blk (hdisk s) f (i div 4096) + i mod 4096)"
      using bnd [OF q] by (intro out) auto
    ultimately show ?thesis using keep [of "i div 4096" "i mod 4096"] q c(1) True by (simp add: contents_def nth_append)
  next
    case False
    then obtain j where i: "i = 4096 * k + j" using c(2) by (metis le_Suc_ex not_less)
    have j: "j < length ch" using i that c(2) by simp
    then have "i div 4096 = k" "i mod 4096 = j" using i len by simp_all
    moreover have "(pre @ ch) ! i = ch ! j" using i c(2) by (simp add: nth_append)
    ultimately show ?thesis using keep [of k j] s'(4) j len by (simp add: put_list_def)
  qed
  moreover have "hdisk s' x = hdisk s x" if "\<not> (f + 136 \<le> x \<and> x < f + 180)" "\<not> (4096 * lo \<le> x \<and> x < 4096 * nextbno s')" for x
  proof -
    have "hdisk s' x = ?m1 x"
    proof (rule fr [OF that(1)])
      show "\<not> (10 \<le> k \<and> 4096 * idx (hdisk s') f \<le> x \<and> x < 4096 * idx (hdisk s') f + 4096)" using ib that(2) by fastforce
    qed
    also have "\<dots> = hdisk s x" using that(2) lo s'(2) by (intro out) auto
    finally show ?thesis .
  qed
  ultimately show ?thesis using nb s'(1-3) by (intro exI [of _ s']) (auto simp: contents_def)
qed

lemma write_blocks_ok:
  assumes "file_links (hdisk s) f k lo (nextbno s)" "apart f lo" "0 < lo" "lo \<le> nextbno s"
    and "nextbno s + with_index (k + nblocks (length bs)) \<le> 1024 + with_index k"
    and "contents (hdisk s) f pre" "length pre = 4096 * k \<or> bs = []"
  shows "\<exists>s'. write_blocks f k bs s = Some s' \<and> nextbno s' + with_index k = nextbno s + with_index (k + nblocks (length bs)) \<and>
    file_links (hdisk s') f (k + nblocks (length bs)) lo (nextbno s') \<and> contents (hdisk s') f (pre @ bs) \<and>
    (\<forall>x. \<not> (f + 136 \<le> x \<and> x < f + 180) \<and> \<not> (4096 * lo \<le> x \<and> x < 4096 * nextbno s') \<longrightarrow> hdisk s' x = hdisk s x)"
  using assms
proof (induction f k bs s arbitrary: pre rule: write_blocks.induct)
  case (1 f k bs s)
  show ?case
  proof (cases "bs = []")
    case True
    then show ?thesis using "1.prems" by (simp add: write_blocks.simps [of f k] nblocks_def)
  next
    case False
    let ?ch = "take 4096 bs" and ?r = "drop 4096 bs"
    let ?n = "nblocks (length ?r)"
    have n: "nblocks (length bs) = Suc ?n" using nblocks_step [OF False] .
    have w: "with_index (Suc k) \<le> with_index (Suc k + ?n)" by (rule with_index_mono) simp
    have room: "nextbno s + 1 + (if k = 10 then 1 else 0) \<le> 1024" using "1.prems"(5) w n with_index_Suc [of k] by simp
    have kl: "k < 1024" using "1.prems"(1,4) room links_k [OF "1.prems"(1)] "1.prems"(3) by simp
    have len: "length pre = 4096 * k" using "1.prems"(7) False by simp
    from write_chunk_ok [OF "1.prems"(1) kl "1.prems"(2-4) room _ "1.prems"(6) len, of ?ch] obtain s1 where
      s1: "do { (bno, s) \<leftarrow> next_block BLOCK_DATA (upd_disk (put_list (4096 * nextbno s) ?ch) s); save_block_link f k bno s } = Some s1"
        "nextbno s1 = nextbno s + 1 + (if k = 10 then 1 else 0)" "file_links (hdisk s1) f (Suc k) lo (nextbno s1)" "contents (hdisk s1) f (pre @ ?ch)"
      and fr: "\<And>x. \<not> (f + 136 \<le> x \<and> x < f + 180) \<Longrightarrow> \<not> (4096 * lo \<le> x \<and> x < 4096 * nextbno s1) \<Longrightarrow> hdisk s1 x = hdisk s x" by auto
    from s1(1) obtain bno s0 where nb: "next_block BLOCK_DATA (upd_disk (put_list (4096 * nextbno s) ?ch) s) = Some (bno, s0)"
      "save_block_link f k bno s0 = Some s1" by (auto split: bind_splits)
    have IH: "\<exists>s'. write_blocks f (k + 1) ?r s1 = Some s' \<and> nextbno s' + with_index (k + 1) = nextbno s1 + with_index (k + 1 + ?n) \<and>
        file_links (hdisk s') f (k + 1 + ?n) lo (nextbno s') \<and> contents (hdisk s') f ((pre @ ?ch) @ ?r) \<and>
        (\<forall>x. \<not> (f + 136 \<le> x \<and> x < f + 180) \<and> \<not> (4096 * lo \<le> x \<and> x < 4096 * nextbno s') \<longrightarrow> hdisk s' x = hdisk s1 x)"
    proof (rule "1.IH" [OF False _ nb(1) refl nb(2)])
      show "\<not> nextbno s \<ge> 1024" using room by simp
      show "nextbno s1 + with_index (k + 1 + ?n) \<le> 1024 + with_index (k + 1)" using "1.prems"(5) n s1(2) with_index_Suc [of k] by simp
      show "length (pre @ ?ch) = 4096 * (k + 1) \<or> ?r = []" using len by auto
    qed (use s1 "1.prems" in simp_all)
    then obtain s' where s': "write_blocks f (k + 1) ?r s1 = Some s'" "nextbno s' + with_index (k + 1) = nextbno s1 + with_index (k + 1 + ?n)"
        "file_links (hdisk s') f (k + 1 + ?n) lo (nextbno s')" "contents (hdisk s') f ((pre @ ?ch) @ ?r)"
      and fr': "\<And>x. \<not> (f + 136 \<le> x \<and> x < f + 180) \<Longrightarrow> \<not> (4096 * lo \<le> x \<and> x < 4096 * nextbno s') \<Longrightarrow> hdisk s' x = hdisk s1 x" by auto
    have le: "nextbno s1 \<le> nextbno s'" using s'(2) w by simp
    have "hdisk s' x = hdisk s x" if "\<not> (f + 136 \<le> x \<and> x < f + 180)" "\<not> (4096 * lo \<le> x \<and> x < 4096 * nextbno s')" for x
      using fr' [OF that] fr [OF that(1)] that(2) le by (metis less_le_trans mult_le_mono2)
    moreover have "write_blocks f k bs s = Some s'"
      using False room nb s'(1) by (simp add: write_blocks.simps [of f k bs])
    ultimately show ?thesis using s' s1(2) n with_index_Suc [of k] by simp
  qed
qed

end
