(* ===== verification/Mos_Fsformat_Tree.thy ===== *)
theory Mos_Fsformat_Tree
  imports Mos_Fsformat
begin

text \<open>
  What the disk image of \<^verbatim>\<open>tools/fsformat.c\<close> contains: a predicate that a tree of host files is stored at a place of the disk, its frame rule,
  the invariant of a directory that is being filled, and the theorem that the whole image is right.
\<close>

declare split_paired_All [simp del] split_paired_Ex [simp del]

section \<open>Trees on the disk\<close>

definition dblocks :: "nat \<Rightarrow> nat" where
  "dblocks n = (n + 15) div 16"

definition name_ok :: "u8 list \<Rightarrow> bool" where
  "name_ok n \<longleftrightarrow> n \<noteq> [] \<and> length n < 128 \<and> 0 \<notin> set n"

definition named :: "hmem \<Rightarrow> nat \<Rightarrow> u8 list \<Rightarrow> bool" where
  "named m f n \<longleftrightarrow> name_ok n \<and> (\<forall>i < length n. m (f + i) = n ! i) \<and> m (f + length n) = 0"

text \<open>The address of the \<open>j\<close>-th entry of a directory, and the entries of a host directory that count.\<close>

definition entry :: "hmem \<Rightarrow> nat \<Rightarrow> nat \<Rightarrow> nat" where
  "entry m d j = 4096 * blk m d (j div 16) + 256 * (j mod 16)"

definition visible :: "(u8 list \<times> host) list \<Rightarrow> (u8 list \<times> host) list" where
  "visible es = filter (\<lambda>(n, h). \<not> (n = [46] \<or> n = [46, 46])) es"

text \<open>The \<^verbatim>\<open>struct File\<close> at \<open>f\<close> is the host file or directory \<open>h\<close> under the name \<open>n\<close>, with all its blocks in \<open>[lo, hi)\<close>.\<close>

inductive holds :: "hmem \<Rightarrow> nat \<Rightarrow> nat \<Rightarrow> nat \<Rightarrow> u8 list \<Rightarrow> host \<Rightarrow> bool" for m where
  hfile: "named m f n \<Longrightarrow> get32 m (fo_size f) = of_nat (length bs) \<Longrightarrow> get32 m (fo_type f) = 0 \<Longrightarrow>
    file_links m f (nblocks (length bs)) lo hi \<Longrightarrow> contents m f bs \<Longrightarrow> holds m f lo hi n (HFile bs)"
| hdir: "named m f n \<Longrightarrow> get32 m (fo_size f) = of_nat (4096 * dblocks (length (visible es))) \<Longrightarrow> get32 m (fo_type f) = FTYPE_DIR \<Longrightarrow>
    file_links m f (dblocks (length (visible es))) lo hi \<Longrightarrow>
    (\<forall>j < length (visible es). \<exists>lo' hi'. lo \<le> lo' \<and> hi' \<le> hi \<and>
       holds m (entry m f j) lo' hi' (fst (visible es ! j)) (snd (visible es ! j))) \<Longrightarrow>
    (\<forall>j. length (visible es) \<le> j \<and> j < 16 * dblocks (length (visible es)) \<longrightarrow> m (entry m f j) = 0) \<Longrightarrow>
    holds m f lo hi n (HDir es)"

lemma named_agree: "agree m m' f g lo hi \<Longrightarrow> named m f n \<Longrightarrow> named m' g n"
  by (auto simp: named_def agree_def name_ok_def)

lemma contents_agree:
  assumes "agree m m' f g lo hi" "file_links m f (nblocks (length bs)) lo hi" "contents m f bs" shows "contents m' g bs"
  unfolding contents_def
proof (intro allI impI)
  fix i assume i: "i < length bs"
  then have k: "i div 4096 < nblocks (length bs)" by (simp add: nblocks_def div_less_iff_less_mult)
  have "lo \<le> blk m f (i div 4096)" "blk m f (i div 4096) < hi" using assms(2) k by (simp_all add: file_links_def)
  then have "m' (4096 * blk m f (i div 4096) + i mod 4096) = m (4096 * blk m f (i div 4096) + i mod 4096)"
    using assms(1) mod_less_divisor [of 4096 i] by (simp add: agree_def)
  then show "m' (4096 * blk m' g (i div 4096) + i mod 4096) = bs ! i"
    using blk_agree [OF assms(1,2) k] assms(3) i by (simp add: contents_def)
qed

lemma dblocks_less: "j < n \<Longrightarrow> j div 16 < dblocks n"
  by (simp add: dblocks_def div_less_iff_less_mult)

lemma entry_slot:
  assumes "file_links m f k lo hi" "j div 16 < k" "x < 256"
  shows "4096 * lo \<le> entry m f j + x" "entry m f j + x < 4096 * hi"
proof -
  have "lo \<le> blk m f (j div 16)" "blk m f (j div 16) < hi" using assms(1,2) by (simp_all add: file_links_def)
  then show "4096 * lo \<le> entry m f j + x" "entry m f j + x < 4096 * hi"
    using assms(3) mod_less_divisor [of 16 j] by (simp_all add: entry_def)
qed

lemma entry_agree: "agree m m' f g lo hi \<Longrightarrow> file_links m f k lo hi \<Longrightarrow> j div 16 < k \<Longrightarrow> entry m' g j = entry m f j"
  by (simp add: entry_def blk_agree)

lemma agree_child:
  assumes "agree m m' f g lo hi" "file_links m f k lo hi" "j div 16 < k" "lo \<le> lo'" "hi' \<le> hi"
  shows "agree m m' (entry m f j) (entry m f j) lo' hi'"
  unfolding agree_def
proof (intro conjI allI impI)
  show "m' (entry m f j + x) = m (entry m f j + x)" if "x < 256" for x
    using entry_slot [OF assms(2,3) that] assms(1) by (simp add: agree_def)
  fix x assume "4096 * lo' \<le> x" "x < 4096 * hi'"
  then have "4096 * lo \<le> x" "x < 4096 * hi" using assms(4,5) by auto
  then show "m' x = m x" using assms(1) by (simp add: agree_def)
qed

text \<open>The frame rule: a tree on the disk depends only on its structure, wherever that is, and its own blocks.\<close>

lemma holds_agree: "holds m f lo hi n h \<Longrightarrow> agree m m' f g lo hi \<Longrightarrow> holds m' g lo hi n h"
proof (induction arbitrary: g rule: holds.induct)
  case (hfile f n bs lo hi)
  show ?case by (rule holds.hfile)
      (use hfile named_agree links_agree contents_agree get32_agree in \<open>auto simp: fo_defs\<close>)
next
  case (hdir f n es lo hi)
  let ?k = "dblocks (length (visible es))"
  have e: "entry m' g j = entry m f j" if "j < 16 * ?k" for j
    using entry_agree [OF hdir.prems hdir.hyps(4)] that by (simp add: div_less_iff_less_mult mult.commute)
  have le: "length (visible es) \<le> 16 * ?k" by (simp add: dblocks_def)
  show ?case
  proof (rule holds.hdir)
    show "named m' g n" using named_agree [OF hdir.prems hdir.hyps(1)] .
    show "get32 m' (fo_size g) = of_nat (4096 * ?k)" "get32 m' (fo_type g) = FTYPE_DIR"
      using hdir.hyps(2,3) get32_agree [OF hdir.prems] by (simp_all add: fo_defs)
    show "file_links m' g ?k lo hi" using links_agree [OF hdir.prems hdir.hyps(4)] .
    show "\<forall>j < length (visible es). \<exists>lo' hi'. lo \<le> lo' \<and> hi' \<le> hi \<and>
        holds m' (entry m' g j) lo' hi' (fst (visible es ! j)) (snd (visible es ! j))"
    proof (intro allI impI)
      fix j assume j: "j < length (visible es)"
      then obtain lo' hi' where r: "lo \<le> lo'" "hi' \<le> hi"
        "\<forall>g. agree m m' (entry m f j) g lo' hi' \<longrightarrow> holds m' g lo' hi' (fst (visible es ! j)) (snd (visible es ! j))"
        using hdir.IH by blast
      have "agree m m' (entry m f j) (entry m f j) lo' hi'"
        by (rule agree_child [OF hdir.prems hdir.hyps(4) dblocks_less [OF j] r(1,2)])
      then show "\<exists>lo' hi'. lo \<le> lo' \<and> hi' \<le> hi \<and> holds m' (entry m' g j) lo' hi' (fst (visible es ! j)) (snd (visible es ! j))"
        using r e [of j] j le by (intro exI [of _ lo'] exI [of _ hi']) simp
    qed
    show "\<forall>j. length (visible es) \<le> j \<and> j < 16 * ?k \<longrightarrow> m' (entry m' g j) = 0"
    proof (intro allI impI)
      fix j assume j: "length (visible es) \<le> j \<and> j < 16 * ?k"
      then have "j div 16 < ?k" by (simp add: div_less_iff_less_mult mult.commute)
      then have "m' (entry m f j) = m (entry m f j)"
        using entry_slot [OF hdir.hyps(4), of j 0] hdir.prems by (simp add: agree_def)
      then show "m' (entry m' g j) = 0" using hdir.hyps(5) e j by simp
    qed
  qed
qed

section \<open>A directory that is being filled\<close>

text \<open>The directory at \<open>d\<close> has \<open>k\<close> blocks in \<open>[lo, cur)\<close>; the first entries are \<open>es\<close>, whose own blocks are apart from those of the directory, and the
  entries behind them are zero.\<close>

definition holds_in :: "hmem \<Rightarrow> nat \<Rightarrow> nat \<Rightarrow> nat \<Rightarrow> nat \<Rightarrow> nat \<Rightarrow> u8 list \<times> host \<Rightarrow> bool" where
  "holds_in m d k lo cur a e \<longleftrightarrow> (\<exists>lo' hi'. lo \<le> lo' \<and> hi' \<le> cur \<and> holds m a lo' hi' (fst e) (snd e) \<and>
     (\<forall>i < k. \<not> (lo' \<le> blk m d i \<and> blk m d i < hi')) \<and> (10 < k \<longrightarrow> \<not> (lo' \<le> idx m d \<and> idx m d < hi')))"

definition building :: "hmem \<Rightarrow> nat \<Rightarrow> nat \<Rightarrow> nat \<Rightarrow> nat \<Rightarrow> (u8 list \<times> host) list \<Rightarrow> bool" where
  "building m d lo cur k es \<longleftrightarrow> get32 m (fo_size d) = of_nat (4096 * k) \<and> file_links m d k lo cur \<and> length es \<le> 16 * k \<and>
     (\<forall>j < length es. holds_in m d k lo cur (entry m d j) (es ! j)) \<and>
     (\<forall>j x. length es \<le> j \<longrightarrow> j < 16 * k \<longrightarrow> x < 256 \<longrightarrow> m (entry m d j + x) = 0)"

definition zero_from :: "hmem \<Rightarrow> nat \<Rightarrow> bool" where
  "zero_from m c \<longleftrightarrow> (\<forall>x. 4096 * c \<le> x \<longrightarrow> x < 4096 * 1024 \<longrightarrow> m x = 0)"

text \<open>The links of a file depend only on its structure and its block of links.\<close>

definition same_links :: "hmem \<Rightarrow> hmem \<Rightarrow> nat \<Rightarrow> nat \<Rightarrow> bool" where
  "same_links m m' f k \<longleftrightarrow> (\<forall>x. f + 136 \<le> x \<longrightarrow> x < f + 180 \<longrightarrow> m' x = m x) \<and>
     (10 < k \<longrightarrow> (\<forall>x. 4096 * idx m f \<le> x \<longrightarrow> x < 4096 * idx m f + 4096 \<longrightarrow> m' x = m x))"

lemma same_links_idx: "same_links m m' f k \<Longrightarrow> get32 m' (fo_indirect f) = get32 m (fo_indirect f)"
  by (rule get32_cong) (auto simp: same_links_def fo_defs)

lemma same_links_blk:
  assumes "same_links m m' f k" "i < k" "k \<le> 1024" shows "blk m' f i = blk m f i"
proof (cases "i < 10")
  case True
  then have "get32 m' (fo_direct f i) = get32 m (fo_direct f i)" using assms(1) by (intro get32_cong) (auto simp: same_links_def fo_defs)
  then show ?thesis using True by (simp add: blk_def)
next
  case False
  then have "get32 m' (4096 * idx m f + 4 * i) = get32 m (4096 * idx m f + 4 * i)"
    using assms by (intro get32_cong) (auto simp: same_links_def)
  then show ?thesis using False same_links_idx [OF assms(1)] by (simp add: blk_def idx_def)
qed

lemma same_links_links:
  assumes "same_links m m' f k" "file_links m f k lo hi" shows "file_links m' f k lo hi"
proof -
  have b: "blk m' f i = blk m f i" if "i < k" for i using same_links_blk [OF assms(1) that] assms(2) by (simp add: file_links_def)
  then have "inj_on (blk m' f) {..<k} = inj_on (blk m f) {..<k}" "blk m' f ` {..<k} = blk m f ` {..<k}"
    by (auto simp: inj_on_def image_def)
  moreover have "idx m' f = idx m f" using same_links_idx [OF assms(1)] by (simp add: idx_def)
  ultimately show ?thesis using assms(2) b same_links_idx [OF assms(1)] by (simp add: file_links_def)
qed

lemma holds_nonzero: "holds m a lo hi n h \<Longrightarrow> m a \<noteq> 0"
proof -
  assume "holds m a lo hi n h"
  then have "named m a n" by cases
  then have "m (a + 0) = n ! 0" "n ! 0 \<in> set n" "0 \<notin> set n" unfolding named_def name_ok_def by auto
  then show ?thesis by auto
qed

lemma entry_inj:
  assumes "file_links m d k lo hi" "i < 16 * k" "j < 16 * k" "i \<noteq> j" "x < 256" "y < 256"
  shows "entry m d i + x \<noteq> entry m d j + y"
proof
  assume eq: "entry m d i + x = entry m d j + y"
  have d: "i div 16 < k" "j div 16 < k" using assms(2,3) by (simp_all add: div_less_iff_less_mult mult.commute)
  have r: "256 * (i mod 16) + x < 4096" "256 * (j mod 16) + y < 4096" using assms(5,6) mod_less_divisor [of 16 i] mod_less_divisor [of 16 j] by simp_all
  have b: "blk m d (i div 16) = blk m d (j div 16)" using eq r by (simp add: entry_def)
  then have "i div 16 = j div 16" using assms(1) d by (auto simp: file_links_def inj_on_def)
  moreover have "i mod 16 = j mod 16" using eq b assms(5,6) by (simp add: entry_def)
  ultimately show False using assms(4) by (metis div_mult_mod_eq)
qed

lemma entry_same: "same_links m m' d k \<Longrightarrow> k \<le> 1024 \<Longrightarrow> j < 16 * k \<Longrightarrow> entry m' d j = entry m d j"
  by (simp add: entry_def same_links_blk div_less_iff_less_mult mult.commute)

text \<open>What an entry is stays true when neither its place nor its blocks are written to.\<close>

lemma holds_in_keep:
  assumes h: "holds_in m d k lo cur a e" and c: "cur \<le> cur'"
    and own: "\<And>i. i < k' \<Longrightarrow> cur \<le> blk m' d i \<or> (\<exists>i' < k. blk m' d i = blk m d i')"
      "10 < k' \<Longrightarrow> cur \<le> idx m' d \<or> 10 < k \<and> idx m' d = idx m d"
    and a: "\<And>x. x < 256 \<Longrightarrow> m' (a + x) = m (a + x)"
    and b: "\<And>b x. lo \<le> b \<Longrightarrow> b < cur \<Longrightarrow> x < 4096 \<Longrightarrow> (\<forall>i < k. b \<noteq> blk m d i) \<Longrightarrow> (10 < k \<longrightarrow> b \<noteq> idx m d) \<Longrightarrow> m' (4096 * b + x) = m (4096 * b + x)"
  shows "holds_in m' d k' lo cur' a e"
proof -
  from h obtain lo' hi' where r: "lo \<le> lo'" "hi' \<le> cur" "holds m a lo' hi' (fst e) (snd e)"
    and n: "\<forall>i < k. \<not> (lo' \<le> blk m d i \<and> blk m d i < hi')" "10 < k \<longrightarrow> \<not> (lo' \<le> idx m d \<and> idx m d < hi')" by (auto simp: holds_in_def)
  have "agree m m' a a lo' hi'"
    unfolding agree_def
  proof (intro conjI allI impI a)
    fix x assume x: "4096 * lo' \<le> x" "x < 4096 * hi'"
    let ?b = "x div 4096"
    have bb: "lo' \<le> ?b" "?b < hi'" using x by (auto simp: less_eq_div_iff_mult_less_eq div_less_iff_less_mult)
    have "m' (4096 * ?b + x mod 4096) = m (4096 * ?b + x mod 4096)" by (rule b) (use bb r n in auto)
    then show "m' x = m x" by simp
  qed
  from holds_agree [OF r(3) this] have "holds m' a lo' hi' (fst e) (snd e)" .
  moreover have "\<forall>i < k'. \<not> (lo' \<le> blk m' d i \<and> blk m' d i < hi')" using own(1) n(1) r(2) by fastforce
  moreover have "10 < k' \<longrightarrow> \<not> (lo' \<le> idx m' d \<and> idx m' d < hi')" using own(2) n(2) r(2) by fastforce
  moreover have "hi' \<le> cur'" using r(2) c by simp
  ultimately show ?thesis unfolding holds_in_def using r(1) by blast
qed

text \<open>The next entry has been written, into its place and new blocks.\<close>

lemma building_add:
  assumes bd: "building m d lo cur k es" and room: "length es < 16 * k" and ap: "apart d lo" and cur: "cur \<le> 1024"
    and h: "holds m' (entry m d (length es)) cur cur' (fst e) (snd e)" and cc: "cur \<le> cur'" and lc: "lo \<le> cur"
    and fr: "\<And>x. \<not> (entry m d (length es) \<le> x \<and> x < entry m d (length es) + 256) \<Longrightarrow> \<not> (4096 * cur \<le> x \<and> x < 4096 * cur') \<Longrightarrow> m' x = m x"
    and up: "cur' \<le> 1024"
  shows "building m' d lo cur' k (es @ [e])"
proof -
  let ?t = "entry m d (length es)"
  have l: "file_links m d k lo cur" using bd by (simp add: building_def)
  have k: "k \<le> 1024" using l by (simp add: file_links_def)
  have td: "length es div 16 < k" using room by (simp add: div_less_iff_less_mult mult.commute)
  have t: "4096 * lo \<le> ?t" "?t + 256 \<le> 4096 * cur" using entry_slot [OF l td, of 0] entry_slot [OF l td, of 255] by simp_all
  have tb: "4096 * blk m d (length es div 16) \<le> ?t" "?t + 256 \<le> 4096 * blk m d (length es div 16) + 4096"
    using mod_less_divisor [of 16 "length es"] by (simp_all add: entry_def)
  have keep: "m' (4096 * b + x) = m (4096 * b + x)" if "b < cur" "x < 4096" "b \<noteq> blk m d (length es div 16)" for b x
  proof (rule fr)
    show "\<not> (?t \<le> 4096 * b + x \<and> 4096 * b + x < ?t + 256)" using tb that by auto
    show "\<not> (4096 * cur \<le> 4096 * b + x \<and> 4096 * b + x < 4096 * cur')" using that by auto
  qed
  have dkeep: "m' x = m x" if "d \<le> x" "x < d + 256" for x
    by (rule fr) (use that ap t cur up lc cc in \<open>auto simp: apart_def\<close>)
  have sl: "same_links m m' d k"
    unfolding same_links_def
  proof (intro conjI allI impI)
    show "m' x = m x" if "d + 136 \<le> x" "x < d + 180" for x using dkeep [of x] that by simp
    fix x assume kx: "10 < k" "4096 * idx m d \<le> x" "x < 4096 * idx m d + 4096"
    have "idx m d < cur" "idx m d \<noteq> blk m d (length es div 16)" using l kx(1) td by (auto simp: file_links_def)
    then show "m' x = m x" using keep [of "idx m d" "x - 4096 * idx m d"] kx by auto
  qed
  have e: "entry m' d j = entry m d j" if "j < 16 * k" for j by (rule entry_same [OF sl k that])
  have slot: "m' (entry m d j + x) = m (entry m d j + x)" if "j < 16 * k" "j \<noteq> length es" "x < 256" for j x
  proof (rule fr)
    have "j div 16 < k" using that(1) by (simp add: div_less_iff_less_mult mult.commute)
    from entry_slot [OF l this that(3)] show "\<not> (4096 * cur \<le> entry m d j + x \<and> entry m d j + x < 4096 * cur')" by simp
    show "\<not> (?t \<le> entry m d j + x \<and> entry m d j + x < ?t + 256)"
    proof
      assume a: "?t \<le> entry m d j + x \<and> entry m d j + x < ?t + 256"
      then have "entry m d j + x - ?t < 256" by linarith
      from entry_inj [OF l that(1) room that(2,3) this] a show False by simp
    qed
  qed
  have "holds_in m' d k lo cur' (entry m' d j) ((es @ [e]) ! j)" if "j < length (es @ [e])" for j
  proof (cases "j < length es")
    case True
    have "holds_in m d k lo cur (entry m d j) (es ! j)" using bd True by (simp add: building_def)
    then have "holds_in m' d k lo cur' (entry m d j) (es ! j)"
    proof (rule holds_in_keep [OF _ cc])
      show "cur \<le> blk m' d i \<or> (\<exists>i' < k. blk m' d i = blk m d i')" if "i < k" for i using same_links_blk [OF sl that k] that by blast
      show "cur \<le> idx m' d \<or> 10 < k \<and> idx m' d = idx m d" if "10 < k" using same_links_idx [OF sl] that by (simp add: idx_def)
    qed (use slot keep True room td in fastforce)+
    then show ?thesis using True e [of j] room by (simp add: nth_append)
  next
    case False
    then have j: "j = length es" using that by simp
    have "blk m' d i < cur" if "i < k" for i using l that same_links_blk [OF sl that k] by (simp add: file_links_def)
    moreover have "idx m' d < cur" if "10 < k" using l that same_links_idx [OF sl] by (simp add: file_links_def idx_def)
    ultimately have "(\<forall>i < k. \<not> (cur \<le> blk m' d i \<and> blk m' d i < cur')) \<and> (10 < k \<longrightarrow> \<not> (cur \<le> idx m' d \<and> idx m' d < cur'))"
      by (simp add: not_le)
    then have "holds_in m' d k lo cur' ?t e" unfolding holds_in_def using h lc by blast
    then show ?thesis using j e room by simp
  qed
  moreover have "m' (entry m' d j + x) = 0" if "length (es @ [e]) \<le> j" "j < 16 * k" "x < 256" for j x
    using that slot [of j x] e [of j] bd by (simp add: building_def)
  moreover have "get32 m' (fo_size d) = get32 m (fo_size d)" by (rule get32_cong) (use dkeep in \<open>auto simp: fo_defs\<close>)
  moreover have "file_links m' d k lo cur'" using links_mono [OF same_links_links [OF sl l] cc] .
  ultimately show ?thesis using bd room by (simp add: building_def)
qed

section \<open>Creating an entry\<close>

lemma entry_at: "j < 16 \<Longrightarrow> entry m d (16 * i + j) = 4096 * blk m d i + 256 * j"
  by (simp add: entry_def)

lemma find_upt: "j < n \<Longrightarrow> P j \<Longrightarrow> (\<And>i. i < j \<Longrightarrow> \<not> P i) \<Longrightarrow> find P [0..<n] = Some j"
  by (auto simp: find_Some_iff intro!: exI [of _ j])

lemma find_unused_used:
  assumes "file_links m d k lo hi" "hi \<le> 1024" "i < k" "\<And>j. j < 16 \<Longrightarrow> m (entry m d (16 * i + j)) \<noteq> 0"
  shows "find_unused m d [i..<k] = find_unused m d [Suc i..<k]"
proof -
  have "find (\<lambda>j. m (4096 * blk m d i + 256 * j) = 0) [0..<16] = None"
    using assms(4) by (auto simp: find_None_iff entry_at)
  moreover have "\<not> 1024 \<le> blk m d i" using assms(1-3) by (fastforce simp: file_links_def)
  ultimately show ?thesis using assms(3) by (simp add: upt_conv_Cons)
qed

lemma find_unused_skip:
  assumes "file_links m d k lo hi" "hi \<le> 1024" "n \<le> k" "\<And>j. j < 16 * n \<Longrightarrow> m (entry m d j) \<noteq> 0"
  shows "find_unused m d [0..<k] = find_unused m d [n..<k]"
  using assms(3,4)
proof (induction n)
  case (Suc n)
  have "find_unused m d [0..<k] = find_unused m d [n..<k]" using Suc by simp
  also have "\<dots> = find_unused m d [Suc n..<k]"
    by (rule find_unused_used [OF assms(1,2)]) (use Suc.prems in auto)
  finally show ?case .
qed simp

lemma find_unused_ok:
  assumes "file_links m d k lo hi" "hi \<le> 1024" "n \<le> 16 * k" "\<And>j. j < n \<Longrightarrow> m (entry m d j) \<noteq> 0" "n < 16 * k \<Longrightarrow> m (entry m d n) = 0"
  shows "find_unused m d [0..<k] = Some (if n < 16 * k then Some (entry m d n) else None)"
proof (cases "n < 16 * k")
  case True
  let ?i = "n div 16" and ?j = "n mod 16"
  have i: "?i < k" using True by (simp add: div_less_iff_less_mult mult.commute)
  have "find_unused m d [0..<k] = find_unused m d [?i..<k]"
    by (rule find_unused_skip [OF assms(1,2)]) (use i assms(4) in auto)
  moreover have "find (\<lambda>j. m (4096 * blk m d ?i + 256 * j) = 0) [0..<16] = Some ?j"
  proof (rule find_upt)
    show "m (4096 * blk m d ?i + 256 * ?j) = 0" using assms(5) [OF True] by (simp add: entry_def)
    fix j assume "j < ?j"
    then have "16 * ?i + j < n" "j < 16" by (metis add_less_cancel_left mult_div_mod_eq, simp add: less_trans [of j ?j])
    then show "m (4096 * blk m d ?i + 256 * j) \<noteq> 0" using assms(4) [of "16 * ?i + j"] by (simp add: entry_at)
  qed simp
  moreover have "\<not> 1024 \<le> blk m d ?i" using assms(1,2) i by (fastforce simp: file_links_def)
  ultimately show ?thesis using i True by (simp add: upt_conv_Cons entry_def)
next
  case False
  have "find_unused m d [0..<k] = find_unused m d [k..<k]"
    by (rule find_unused_skip [OF assms(1,2)]) (use assms(3,4) False in auto)
  then show ?thesis using False by simp
qed

text \<open>A directory that is full gets a new block.\<close>

lemma make_link_block_ok:
  assumes bd: "building (hdisk s) d lo (nextbno s) k es" and full: "length es = 16 * k" and ap: "apart d lo" and lo: "0 < lo" "lo \<le> nextbno s"
    and z: "zero_from (hdisk s) (nextbno s)" and room: "nextbno s + 1 + (if k = 10 then 1 else 0) \<le> 1024"
  shows "\<exists>s'. make_link_block d k s = Some (nextbno s, s') \<and> nextbno s' = nextbno s + 1 + (if k = 10 then 1 else 0) \<and>
    building (hdisk s') d lo (nextbno s') (Suc k) es \<and> blk (hdisk s') d k = nextbno s \<and> zero_from (hdisk s') (nextbno s') \<and>
    (\<forall>x. (x < d + 128 \<or> d + 132 \<le> x \<and> x < d + 136 \<or> d + 180 \<le> x) \<and> \<not> (4096 * lo \<le> x \<and> x < 4096 * nextbno s') \<longrightarrow> hdisk s' x = hdisk s x)"
proof -
  let ?c = "nextbno s" and ?m = "hdisk s"
  let ?s1 = "s\<lparr>btype := (btype s)(nextbno s := BLOCK_FILE), nextbno := ?c + 1\<rparr>"
  have l: "file_links ?m d k lo ?c" using bd by (simp add: building_def)
  have k: "k < 1024" using links_k [OF l] lo room by simp
  have cl: "?c < 1024" using room by simp
  have bnd: "lo \<le> blk ?m d i" "blk ?m d i < ?c" if "i < k" for i using l that by (simp_all add: file_links_def)
  have fresh: "?c \<notin> blk (hdisk ?s1) d ` {..<k}" using bnd by fastforce
  have fi: "?c \<noteq> idx (hdisk ?s1) d" if "10 < k" using l that by (auto simp: file_links_def)
  have l1: "file_links (hdisk ?s1) d k lo (nextbno ?s1)" using links_mono [OF l] by simp
  from save_block_link_ok [OF l1 k lo(2) _ fresh fi ap lo(1)] room obtain s2 where
    s2: "save_block_link d k ?c ?s1 = Some s2" "nextbno s2 = ?c + 1 + (if k = 10 then 1 else 0)"
      "file_links (hdisk s2) d (Suc k) lo (nextbno s2)" "blk (hdisk s2) d k = ?c" "\<And>i. i < k \<Longrightarrow> blk (hdisk s2) d i = blk ?m d i"
      "idx (hdisk s2) d = (if k = 10 then ?c + 1 else idx ?m d)"
    and fr: "\<And>x. \<not> (d + 136 \<le> x \<and> x < d + 180) \<Longrightarrow> \<not> (10 \<le> k \<and> 4096 * idx (hdisk s2) d \<le> x \<and> x < 4096 * idx (hdisk s2) d + 4096) \<Longrightarrow>
       hdisk s2 x = ?m x" by auto
  let ?s3 = "upd_disk (\<lambda>m. put32 (fo_size d) (get32 m (fo_size d) + 4096) m) s2"
  have run: "make_link_block d k s = Some (?c, ?s3)" using cl s2(1) by (simp add: make_link_block_def next_block_def)
  have cb: "nextbno s2 \<le> 1024" using s2(2) room by simp
  have ib: "lo \<le> idx (hdisk s2) d" "idx (hdisk s2) d < nextbno s2" "idx (hdisk s2) d \<notin> blk (hdisk s2) d ` {..<Suc k}" if "10 \<le> k"
    using s2(3) that by (auto simp: file_links_def)
  have nidx: "blk ?m d i \<noteq> idx (hdisk s2) d" if "i < k" "10 \<le> k" for i
    using ib(3) [OF that(2)] s2(5) [OF that(1)] that(1) by (metis imageI lessThan_iff less_SucI)
  have fr3: "hdisk ?s3 x = ?m x"
    if "(x < d + 128 \<or> d + 132 \<le> x \<and> x < d + 136 \<or> d + 180 \<le> x)" "\<not> (10 \<le> k \<and> 4096 * idx (hdisk s2) d \<le> x \<and> x < 4096 * idx (hdisk s2) d + 4096)" for x
    using fr [of x] that by (auto simp: put32_outside fo_defs)
  have keep: "hdisk ?s3 (4096 * b + x) = ?m (4096 * b + x)" if "lo \<le> b" "b < 1024" "x < 4096" "10 \<le> k \<longrightarrow> b \<noteq> idx (hdisk s2) d" for b x
    by (rule fr3) (use that ap in \<open>auto simp: apart_def\<close>)
  have sl3: "same_links (hdisk s2) (hdisk ?s3) d (Suc k)"
    unfolding same_links_def using ib ap cb by (auto simp: put32_outside fo_defs apart_def)
  have blk3: "blk (hdisk ?s3) d i = blk (hdisk s2) d i" if "i < Suc k" for i using same_links_blk [OF sl3 that] k by simp
  have l3: "file_links (hdisk ?s3) d (Suc k) lo (nextbno s2)" by (rule same_links_links [OF sl3 s2(3)])
  have idx3: "idx (hdisk ?s3) d = idx (hdisk s2) d" using same_links_idx [OF sl3] by (simp add: idx_def)
  have ent: "entry (hdisk ?s3) d j = entry ?m d j" if "j < 16 * k" for j
    using that blk3 [of "j div 16"] s2(5) [of "j div 16"] by (simp add: entry_def div_less_iff_less_mult mult.commute)
  have esl: "\<exists>b x'. entry ?m d j + x = 4096 * b + x' \<and> x' < 4096 \<and> lo \<le> b \<and> b < ?c \<and> (10 \<le> k \<longrightarrow> b \<noteq> idx (hdisk s2) d)" if "j < 16 * k" "x < 256" for j x
  proof -
    have "j div 16 < k" using that(1) by (simp add: div_less_iff_less_mult mult.commute)
    moreover have "256 * (j mod 16) + x < 4096" using that(2) mod_less_divisor [of 16 j] by simp
    moreover have "10 \<le> k \<longrightarrow> blk ?m d (j div 16) \<noteq> idx (hdisk s2) d" using nidx calculation(1) by blast
    ultimately show ?thesis using bnd [of "j div 16"] by (intro exI [of _ "blk ?m d (j div 16)"] exI [of _ "256 * (j mod 16) + x"]) (simp add: entry_def)
  qed
  have slot: "hdisk ?s3 (entry ?m d j + x) = ?m (entry ?m d j + x)" if "j < 16 * k" "x < 256" for j x
  proof -
    from esl [OF that] obtain b x' where
      b: "entry ?m d j + x = 4096 * b + x'" "x' < 4096" "lo \<le> b" "b < ?c" "10 \<le> k \<longrightarrow> b \<noteq> idx (hdisk s2) d" by blast
    show ?thesis unfolding b(1) by (rule keep) (use b cl in auto)
  qed
  have "holds_in (hdisk ?s3) d (Suc k) lo (nextbno s2) (entry (hdisk ?s3) d j) (es ! j)" if "j < length es" for j
  proof -
    have j: "j < 16 * k" using that full by simp
    have "holds_in ?m d k lo ?c (entry ?m d j) (es ! j)" using bd that by (simp add: building_def)
    then show ?thesis unfolding ent [OF j]
    proof (rule holds_in_keep)
      show "?c \<le> blk (hdisk ?s3) d i \<or> (\<exists>i' < k. blk (hdisk ?s3) d i = blk ?m d i')" if "i < Suc k" for i
        using blk3 [OF that] s2(4,5) that by (cases "i = k") (auto simp: less_Suc_eq)
      show "?c \<le> idx (hdisk ?s3) d \<or> 10 < k \<and> idx (hdisk ?s3) d = idx ?m d" if "10 < Suc k" using idx3 s2(6) that by auto
      show "hdisk ?s3 (4096 * b + x) = ?m (4096 * b + x)"
        if "lo \<le> b" "b < ?c" "x < 4096" "\<forall>i < k. b \<noteq> blk ?m d i" "10 < k \<longrightarrow> b \<noteq> idx ?m d" for b x
        by (rule keep) (use that cl s2(6) in auto)
    qed (use slot [OF j] s2(2) in auto)
  qed
  moreover have "hdisk ?s3 (entry (hdisk ?s3) d j + x) = 0" if "length es \<le> j" "j < 16 * Suc k" "x < 256" for j x
  proof -
    have "j div 16 = k" using that full by (intro div_nat_eqI) auto
    then have e: "entry (hdisk ?s3) d j = 4096 * ?c + 256 * (j mod 16)" using blk3 [of k] s2(4) by (simp add: entry_def)
    have x: "256 * (j mod 16) + x < 4096" using that(3) mod_less_divisor [of 16 j] by simp
    have "hdisk ?s3 (4096 * ?c + (256 * (j mod 16) + x)) = ?m (4096 * ?c + (256 * (j mod 16) + x))"
      by (rule keep) (use x lo cl ib(3) s2(4) in \<open>auto simp: lessThan_Suc\<close>)
    also have "\<dots> = 0" using z x cl by (simp add: zero_from_def)
    finally show ?thesis using e by (simp add: add.assoc)
  qed
  moreover have "get32 (hdisk ?s3) (fo_size d) = of_nat (4096 * Suc k)"
  proof -
    have "get32 (hdisk s2) (fo_size d) = get32 ?m (fo_size d)"
      by (rule get32_cong, rule fr) (use ib ap cb in \<open>auto simp: fo_defs apart_def\<close>)
    then show ?thesis using bd by (simp add: building_def algebra_simps)
  qed
  ultimately have "building (hdisk ?s3) d lo (nextbno s2) (Suc k) es" using l3 full by (simp add: building_def)
  moreover have "zero_from (hdisk ?s3) (nextbno s2)"
    unfolding zero_from_def
  proof (intro allI impI)
    fix x assume x: "4096 * nextbno s2 \<le> x" "x < 4096 * 1024"
    have "hdisk ?s3 x = ?m x" by (rule fr3) (use x ap lo s2(2) ib in \<open>auto simp: apart_def\<close>)
    then show "hdisk ?s3 x = 0" using z x s2(2) by (simp add: zero_from_def)
  qed
  moreover have "hdisk ?s3 x = ?m x" if "(x < d + 128 \<or> d + 132 \<le> x \<and> x < d + 136 \<or> d + 180 \<le> x)" "\<not> (4096 * lo \<le> x \<and> x < 4096 * nextbno s2)" for x
    by (rule fr3) (use that ib in fastforce)+
  ultimately show ?thesis using run s2(2,4) blk3 [of k] by (intro exI [of _ ?s3]) auto
qed

lemma dblocks_Suc: "dblocks (Suc n) = (if n = 16 * dblocks n then Suc (dblocks n) else dblocks n)"
proof -
  obtain q r where n: "n = 16 * q + r" "r < 16" by (metis mult_div_mod_eq mod_less_divisor zero_less_numeral)
  then show ?thesis by (cases "r = 0") (auto simp: dblocks_def div_nat_eqI)
qed

lemma dblocks_le: "n \<le> 16 * dblocks n"
  by (simp add: dblocks_def)

lemma building_zero: "building m d lo cur k es \<Longrightarrow> length es \<le> j \<Longrightarrow> j < 16 * k \<Longrightarrow> x < 256 \<Longrightarrow> m (entry m d j + x) = 0"
  by (simp add: building_def)

lemma building_used:
  assumes "building m d lo cur k es" "j < length es" shows "m (entry m d j) \<noteq> 0"
proof -
  have "holds_in m d k lo cur (entry m d j) (es ! j)" using assms by (simp add: building_def)
  then obtain lo' hi' where "holds m (entry m d j) lo' hi' (fst (es ! j)) (snd (es ! j))" by (auto simp: holds_in_def)
  then show ?thesis by (rule holds_nonzero)
qed

text \<open>\<^verbatim>\<open>create_file\<close> finds the place of the next entry, which is all zero, and adds a block when there is none.\<close>

lemma create_file_ok:
  assumes bd: "building (hdisk s) d lo (nextbno s) (dblocks (length es)) es" and ap: "apart d lo" and lo: "0 < lo" "lo \<le> nextbno s"
    and z: "zero_from (hdisk s) (nextbno s)"
    and room: "nextbno s + with_index (dblocks (Suc (length es))) \<le> 1024 + with_index (dblocks (length es))"
  shows "\<exists>s'. create_file d s = Some (entry (hdisk s') d (length es), s') \<and>
    nextbno s' + with_index (dblocks (length es)) = nextbno s + with_index (dblocks (Suc (length es))) \<and>
    building (hdisk s') d lo (nextbno s') (dblocks (Suc (length es))) es \<and> length es < 16 * dblocks (Suc (length es)) \<and>
    zero_from (hdisk s') (nextbno s') \<and>
    (\<forall>x. (x < d + 128 \<or> d + 132 \<le> x \<and> x < d + 136 \<or> d + 180 \<le> x) \<and> \<not> (4096 * lo \<le> x \<and> x < 4096 * nextbno s') \<longrightarrow> hdisk s' x = hdisk s x)"
proof -
  let ?n = "length es" and ?m = "hdisk s"
  let ?k = "dblocks ?n"
  have l: "file_links ?m d ?k lo (nextbno s)" and sz: "get32 ?m (fo_size d) = of_nat (4096 * ?k)" using bd by (simp_all add: building_def)
  have cur: "nextbno s \<le> 1024" using room with_index_mono [of ?k "dblocks (Suc ?n)"] dblocks_Suc [of ?n] by (simp split: if_splits)
  have "?k \<le> 1024" using l by (simp add: file_links_def)
  then have nb: "unat (get32 ?m (fo_size d)) div 4096 = ?k" unfolding sz by (subst unat_of_nat_u32) simp_all
  have used: "?m (entry ?m d j) \<noteq> 0" if "j < ?n" for j using building_used [OF bd that] .
  have free: "?m (entry ?m d ?n) = 0" if "?n < 16 * ?k" using building_zero [OF bd order_refl that, of 0] by simp
  have find: "find_unused ?m d [0..<?k] = Some (if ?n < 16 * ?k then Some (entry ?m d ?n) else None)"
    by (rule find_unused_ok [OF l cur dblocks_le used free])
  show ?thesis
  proof (cases "?n < 16 * ?k")
    case True
    then show ?thesis using find nb bd z dblocks_Suc [of ?n] by (intro exI [of _ s]) (simp add: create_file_def)
  next
    case False
    then have full: "?n = 16 * ?k" using dblocks_le [of ?n] by simp
    then have k: "dblocks (Suc ?n) = Suc ?k" using dblocks_Suc by simp
    have "nextbno s + 1 + (if ?k = 10 then 1 else 0) \<le> 1024" using room k with_index_Suc [of ?k] by simp
    from make_link_block_ok [OF bd full ap lo z this] obtain s' where
      s': "make_link_block d ?k s = Some (nextbno s, s')" "nextbno s' = nextbno s + 1 + (if ?k = 10 then 1 else 0)"
        "building (hdisk s') d lo (nextbno s') (Suc ?k) es" "blk (hdisk s') d ?k = nextbno s" "zero_from (hdisk s') (nextbno s')"
        "\<forall>x. (x < d + 128 \<or> d + 132 \<le> x \<and> x < d + 136 \<or> d + 180 \<le> x) \<and> \<not> (4096 * lo \<le> x \<and> x < 4096 * nextbno s') \<longrightarrow> hdisk s' x = hdisk s x" by blast
    have q: "?n div 16 = ?k" "?n mod 16 = 0" using arg_cong [OF full, of "\<lambda>x. x div 16"] arg_cong [OF full, of "\<lambda>x. x mod 16"] by simp_all
    have "entry (hdisk s') d ?n = 4096 * nextbno s" using s'(4) by (simp add: entry_def q)
    moreover have "create_file d s = Some (4096 * nextbno s, s')" using find nb s'(1) False by (simp add: create_file_def)
    moreover have "?n < 16 * Suc ?k" using full by simp
    ultimately show ?thesis using s' k with_index_Suc [of ?k] by (intro exI [of _ s']) simp
  qed
qed

section \<open>Writing a file\<close>

definition zero_slot :: "hmem \<Rightarrow> nat \<Rightarrow> bool" where
  "zero_slot m t \<longleftrightarrow> (\<forall>x < 256. m (t + x) = 0)"

lemma links_0: "get32 m (fo_indirect f) = 0 \<Longrightarrow> file_links m f 0 lo hi"
  by (simp add: file_links_def)

lemma get32_zero: "(\<And>x. a \<le> x \<Longrightarrow> x < a + 4 \<Longrightarrow> m x = 0) \<Longrightarrow> get32 m a = 0"
  by (simp add: get32_def)

lemma put_list_in: "i < length xs \<Longrightarrow> put_list a xs m (a + i) = xs ! i"
  by (simp add: put_list_def)

lemma put_list_out: "x < a \<or> a + length xs \<le> x \<Longrightarrow> put_list a xs m x = m x"
  by (auto simp: put_list_def)

text \<open>The part of \<^verbatim>\<open>write_file\<close> after \<^verbatim>\<open>create_file\<close>, on an empty place \<open>t\<close>.\<close>

definition fill_file :: "nat \<Rightarrow> u8 list \<Rightarrow> u8 list \<Rightarrow> ffstate \<Rightarrow> ffstate option" where
  "fill_file t n bs s = write_blocks t 0 bs (upd_disk (put32 (fo_type t) 0) (upd_disk (put32 (fo_size t) (of_nat (length bs))) (upd_disk (put_list t (n @ [0])) s)))"

lemma named_frame: "named m f n \<Longrightarrow> (\<And>x. f \<le> x \<Longrightarrow> x < f + 128 \<Longrightarrow> m' x = m x) \<Longrightarrow> named m' f n"
  by (auto simp: named_def name_ok_def)

lemma fill_file_ok:
  assumes "zero_slot (hdisk s) t" "name_ok n" "apart t (nextbno s)" "0 < nextbno s"
    and room: "nextbno s + with_index (nblocks (length bs)) \<le> 1024"
  shows "\<exists>s'. fill_file t n bs s = Some s' \<and> nextbno s' = nextbno s + with_index (nblocks (length bs)) \<and>
    holds (hdisk s') t (nextbno s) (nextbno s') n (HFile bs) \<and>
    (\<forall>x. \<not> (t \<le> x \<and> x < t + 256) \<and> \<not> (4096 * nextbno s \<le> x \<and> x < 4096 * nextbno s') \<longrightarrow> hdisk s' x = hdisk s x)"
proof -
  let ?s = "upd_disk (put32 (fo_type t) 0) (upd_disk (put32 (fo_size t) (of_nat (length bs))) (upd_disk (put_list t (n @ [0])) s))"
  have len: "length n < 128" using assms(2) by (simp add: name_ok_def)
  have out: "hdisk ?s x = hdisk s x" if "x < t \<or> t + 136 \<le> x" for x
    using that len by (auto simp: put32_outside put_list_out fo_defs)
  have z: "hdisk s x = 0" if "t \<le> x" "x < t + 256" for x using assms(1) that unfolding zero_slot_def
    by (metis add_less_cancel_left le_add_diff_inverse)
  have "get32 (hdisk ?s) (fo_indirect t) = 0" by (rule get32_zero) (use out z in \<open>auto simp: fo_defs\<close>)
  then have l: "file_links (hdisk ?s) t 0 (nextbno s) (nextbno ?s)" by (rule links_0)
  have "contents (hdisk ?s) t []" by (simp add: contents_def)
  from write_blocks_ok [OF l assms(3,4) _ _ this, of bs] room obtain s' where
    s': "write_blocks t 0 bs ?s = Some s'" "nextbno s' = nextbno s + with_index (nblocks (length bs))"
      "file_links (hdisk s') t (nblocks (length bs)) (nextbno s) (nextbno s')" "contents (hdisk s') t bs"
    and fr: "\<And>x. \<not> (t + 136 \<le> x \<and> x < t + 180) \<Longrightarrow> \<not> (4096 * nextbno s \<le> x \<and> x < 4096 * nextbno s') \<Longrightarrow> hdisk s' x = hdisk ?s x"
    by (auto simp: with_index_def)
  have hd: "hdisk s' x = hdisk ?s x" if "t \<le> x" "x < t + 136" for x
    by (rule fr) (use that assms(3) s'(2) room in \<open>auto simp: apart_def\<close>)
  have "named (hdisk ?s) t n"
    using assms(2) len by (auto simp: named_def name_ok_def put32_outside fo_defs put_list_in nth_append)
  then have "named (hdisk s') t n" by (rule named_frame) (use hd in auto)
  moreover have "get32 (hdisk s') a = get32 (hdisk ?s) a" if "a = fo_size t \<or> a = fo_type t" for a
    by (rule get32_cong, rule hd) (use that in \<open>auto simp: fo_defs\<close>)
  moreover have "get32 (hdisk ?s) (fo_size t) = of_nat (length bs)" "get32 (hdisk ?s) (fo_type t) = 0" by (simp_all add: fo_defs)
  ultimately have "holds (hdisk s') t (nextbno s) (nextbno s') n (HFile bs)" using s'(3,4) by (intro hfile) auto
  moreover have "hdisk s' x = hdisk s x" if "\<not> (t \<le> x \<and> x < t + 256)" "\<not> (4096 * nextbno s \<le> x \<and> x < 4096 * nextbno s')" for x
    using fr [of x] out [of x] that by auto
  ultimately show ?thesis using s'(1,2) by (auto simp: fill_file_def)
qed

section \<open>Writing a tree\<close>

text \<open>The number of blocks a tree takes, and the trees whose names fit: an entry of a host directory has a name without a slash.\<close>

fun need :: "host \<Rightarrow> nat" and need_list :: "(u8 list \<times> host) list \<Rightarrow> nat" where
  "need (HFile bs) = with_index (nblocks (length bs))"
| "need (HDir es) = with_index (dblocks (length (visible es))) + need_list es"
| "need_list [] = 0"
| "need_list ((n, h) # es) = (if n = [46] \<or> n = [46, 46] then 0 else need h) + need_list es"

fun tree_ok :: "host \<Rightarrow> bool" and trees_ok :: "(u8 list \<times> host) list \<Rightarrow> bool" where
  "tree_ok (HFile bs) = True"
| "tree_ok (HDir es) = trees_ok es"
| "trees_ok [] = True"
| "trees_ok ((n, h) # es) = ((n = [46] \<or> n = [46, 46] \<or> name_ok n \<and> 47 \<notin> set n \<and> tree_ok h) \<and> trees_ok es)"

text \<open>The name under which a path is written.\<close>

fun node_name :: "u8 list \<Rightarrow> host \<Rightarrow> u8 list" where
  "node_name path (HFile _) = fname path"
| "node_name path (HDir _) = basename path"

lemma fname_entry: "47 \<notin> set n \<Longrightarrow> fname (path @ 47 # n) = n"
proof -
  assume "47 \<notin> set n"
  then have "takeWhile (\<lambda>c. c \<noteq> 47) (rev n @ 47 # rev path) = rev n" by (subst takeWhile_append2) auto
  then show ?thesis by (simp add: fname_def)
qed

lemma basename_entry:
  assumes "47 \<notin> set n" "n \<noteq> []" shows "basename (path @ 47 # n) = n"
proof -
  have "rev n \<noteq> []" "hd (rev n) \<noteq> 47" using assms by (simp, metis hd_in_set rev_is_Nil_conv set_rev)
  then have "dropWhile (\<lambda>c. c = 47) (rev n @ 47 # rev path) = rev n @ 47 # rev path" by (cases "rev n") auto
  then show ?thesis using fname_entry [OF assms(1)] by (simp add: basename_def)
qed

lemma node_name_entry: "name_ok n \<Longrightarrow> 47 \<notin> set n \<Longrightarrow> node_name (path @ 47 # n) h = n"
  by (cases h) (simp_all add: fname_entry basename_entry name_ok_def)

definition dir_state :: "ffstate \<Rightarrow> nat \<Rightarrow> nat \<Rightarrow> (u8 list \<times> host) list \<Rightarrow> bool" where
  "dir_state s d lo es \<longleftrightarrow> building (hdisk s) d lo (nextbno s) (dblocks (length es)) es \<and> apart d lo \<and> 0 < lo \<and> lo \<le> nextbno s \<and>
     nextbno s \<le> 1024 \<and> zero_from (hdisk s) (nextbno s)"

definition dir_frame :: "ffstate \<Rightarrow> ffstate \<Rightarrow> nat \<Rightarrow> nat \<Rightarrow> bool" where
  "dir_frame s s' d lo \<longleftrightarrow> nextbno s \<le> nextbno s' \<and>
     (\<forall>x. (x < d + 128 \<or> d + 132 \<le> x \<and> x < d + 136 \<or> d + 180 \<le> x) \<and> \<not> (4096 * lo \<le> x \<and> x < 4096 * nextbno s') \<longrightarrow> hdisk s' x = hdisk s x)"

lemma dir_frame_refl: "dir_frame s s d lo"
  by (simp add: dir_frame_def)

lemma dir_frame_trans:
  assumes "dir_frame s s1 d lo" "dir_frame s1 s2 d lo" shows "dir_frame s s2 d lo"
  unfolding dir_frame_def
proof (intro conjI allI impI)
  show "nextbno s \<le> nextbno s2" using assms by (simp add: dir_frame_def)
  fix x assume x: "(x < d + 128 \<or> d + 132 \<le> x \<and> x < d + 136 \<or> d + 180 \<le> x) \<and> \<not> (4096 * lo \<le> x \<and> x < 4096 * nextbno s2)"
  then have "\<not> (4096 * lo \<le> x \<and> x < 4096 * nextbno s1)" using assms(2) by (auto simp: dir_frame_def)
  then show "hdisk s2 x = hdisk s x" using assms x by (simp add: dir_frame_def)
qed

text \<open>What a writer of one tree into an empty place has to do.\<close>

definition fills :: "(nat \<Rightarrow> ffstate \<Rightarrow> ffstate option) \<Rightarrow> u8 list \<Rightarrow> host \<Rightarrow> bool" where
  "fills w n h \<longleftrightarrow> (\<forall>t s. zero_slot (hdisk s) t \<longrightarrow> apart t (nextbno s) \<longrightarrow> 0 < nextbno s \<longrightarrow> zero_from (hdisk s) (nextbno s) \<longrightarrow>
     nextbno s + need h \<le> 1024 \<longrightarrow>
     (\<exists>s'. w t s = Some s' \<and> nextbno s' = nextbno s + need h \<and> holds (hdisk s') t (nextbno s) (nextbno s') n h \<and>
       (\<forall>x. \<not> (t \<le> x \<and> x < t + 256) \<and> \<not> (4096 * nextbno s \<le> x \<and> x < 4096 * nextbno s') \<longrightarrow> hdisk s' x = hdisk s x)))"

lemma entry_written:
  assumes st: "dir_state s d lo es" and w: "fills w n h"
    and room: "nextbno s + with_index (dblocks (Suc (length es))) + need h \<le> 1024 + with_index (dblocks (length es))"
  shows "\<exists>s'. do { (t, s) \<leftarrow> create_file d s; w t s } = Some s' \<and>
    nextbno s' + with_index (dblocks (length es)) = nextbno s + with_index (dblocks (Suc (length es))) + need h \<and>
    dir_state s' d lo (es @ [(n, h)]) \<and> dir_frame s s' d lo"
proof -
  let ?k = "dblocks (Suc (length es))"
  have bd: "building (hdisk s) d lo (nextbno s) (dblocks (length es)) es" and ap: "apart d lo" and lo: "0 < lo" "lo \<le> nextbno s"
    and z: "zero_from (hdisk s) (nextbno s)" using st by (simp_all add: dir_state_def)
  have "nextbno s + with_index ?k \<le> 1024 + with_index (dblocks (length es))" using room by simp
  from create_file_ok [OF bd ap lo z this] obtain s1 where
    s1: "create_file d s = Some (entry (hdisk s1) d (length es), s1)"
      "nextbno s1 + with_index (dblocks (length es)) = nextbno s + with_index ?k"
      "building (hdisk s1) d lo (nextbno s1) ?k es" "length es < 16 * ?k" "zero_from (hdisk s1) (nextbno s1)"
    and fr1: "\<And>x. (x < d + 128 \<or> d + 132 \<le> x \<and> x < d + 136 \<or> d + 180 \<le> x) \<Longrightarrow> \<not> (4096 * lo \<le> x \<and> x < 4096 * nextbno s1) \<Longrightarrow> hdisk s1 x = hdisk s x" by blast
  let ?t = "entry (hdisk s1) d (length es)"
  have "with_index (dblocks (length es)) \<le> with_index ?k" by (intro with_index_mono) (simp add: dblocks_Suc)
  then have le1: "nextbno s \<le> nextbno s1" using s1(2) by simp
  have l: "file_links (hdisk s1) d ?k lo (nextbno s1)" using s1(3) by (simp add: building_def)
  have "length es div 16 < ?k" using s1(4) by (simp add: div_less_iff_less_mult mult.commute)
  from entry_slot [OF l this, of 0] entry_slot [OF l this, of 255]
  have t: "4096 * lo \<le> ?t" "?t + 256 \<le> 4096 * nextbno s1" by simp_all
  have zs: "zero_slot (hdisk s1) ?t" using building_zero [OF s1(3) order_refl s1(4)] by (simp add: zero_slot_def)
  have "apart ?t (nextbno s1)" "0 < nextbno s1" "nextbno s1 + need h \<le> 1024" using t lo le1 s1(2) room by (simp_all add: apart_def)
  with w zs s1(5) obtain s2 where
    s2: "w ?t s1 = Some s2" "nextbno s2 = nextbno s1 + need h" "holds (hdisk s2) ?t (nextbno s1) (nextbno s2) n h"
    and fr2: "\<And>x. \<not> (?t \<le> x \<and> x < ?t + 256) \<Longrightarrow> \<not> (4096 * nextbno s1 \<le> x \<and> x < 4096 * nextbno s2) \<Longrightarrow> hdisk s2 x = hdisk s1 x"
    unfolding fills_def by blast
  have up: "nextbno s2 \<le> 1024" using s1(2) s2(2) room by simp
  have "building (hdisk s2) d lo (nextbno s2) ?k (es @ [(n, h)])"
    by (rule building_add [OF s1(3,4) ap _ _ _ _ fr2 up]) (use s2 up lo le1 in auto)
  moreover have "zero_from (hdisk s2) (nextbno s2)"
    unfolding zero_from_def
  proof (intro allI impI)
    fix x assume x: "4096 * nextbno s2 \<le> x" "x < 4096 * 1024"
    then have "hdisk s2 x = hdisk s1 x" using t s2(2) by (intro fr2) auto
    then show "hdisk s2 x = 0" using s1(5) x s2(2) by (simp add: zero_from_def)
  qed
  moreover have "hdisk s2 x = hdisk s x" if "(x < d + 128 \<or> d + 132 \<le> x \<and> x < d + 136 \<or> d + 180 \<le> x)" "\<not> (4096 * lo \<le> x \<and> x < 4096 * nextbno s2)" for x
    using fr1 [of x] fr2 [of x] that t s2(2) lo le1 by auto
  ultimately show ?thesis using s1(1,2) s2(1,2) le1 ap lo up by (simp add: dir_state_def dir_frame_def)
qed

text \<open>The two kinds of trees: a file, and a directory given that its entries can be written.\<close>

lemma fills_file: "name_ok n \<Longrightarrow> fills (\<lambda>t. fill_file t n bs) n (HFile bs)"
  unfolding fills_def need.simps by (intro allI impI) (rule fill_file_ok)

definition fill_dir :: "u8 list \<Rightarrow> u8 list \<Rightarrow> (u8 list \<times> host) list \<Rightarrow> nat \<Rightarrow> ffstate \<Rightarrow> ffstate option" where
  "fill_dir path n es p s =
     (let s = upd_disk (put_list p (take 127 n @ replicate (127 - length n) 0)) s
      in if hdisk s (p + 127) \<noteq> 0 then None else write_entries p path es (upd_disk (put32 (fo_type p) FTYPE_DIR) s))"

text \<open>Every directory being filled can take the entries \<open>es\<close>.\<close>

definition adds :: "u8 list \<Rightarrow> (u8 list \<times> host) list \<Rightarrow> bool" where
  "adds path es \<longleftrightarrow> (\<forall>d lo es0 s. dir_state s d lo es0 \<longrightarrow>
     nextbno s + with_index (dblocks (length es0 + length (visible es))) + need_list es \<le> 1024 + with_index (dblocks (length es0)) \<longrightarrow>
     (\<exists>s'. write_entries d path es s = Some s' \<and>
       nextbno s' + with_index (dblocks (length es0)) = nextbno s + with_index (dblocks (length es0 + length (visible es))) + need_list es \<and>
       dir_state s' d lo (es0 @ visible es) \<and> dir_frame s s' d lo))"

lemma building_new: "zero_slot m t \<Longrightarrow> building m t c c 0 []"
proof -
  assume z: "zero_slot m t"
  have "m x = 0" if "t \<le> x" "x < t + 256" for x using z that unfolding zero_slot_def by (metis add_less_cancel_left le_add_diff_inverse)
  then have "get32 m (fo_size t) = 0" "get32 m (fo_indirect t) = 0" by (auto intro!: get32_zero simp: fo_defs)
  then show ?thesis by (simp add: building_def links_0)
qed

lemma building_size_type:
  assumes "building m t c c 0 []" "\<And>x. t + 128 \<le> x \<Longrightarrow> x < t + 132 \<Longrightarrow> m' x = m x" "\<And>x. t + 136 \<le> x \<Longrightarrow> x < t + 180 \<Longrightarrow> m' x = m x"
  shows "building m' t c c 0 []"
proof -
  have "get32 m' (fo_size t) = get32 m (fo_size t)" "get32 m' (fo_indirect t) = get32 m (fo_indirect t)"
    by (rule get32_cong, use assms in \<open>simp add: fo_defs\<close>)+
  then show ?thesis using assms(1) by (simp add: building_def file_links_def)
qed

lemma fills_dir:
  assumes n: "name_ok n" and a: "adds path es"
  shows "fills (fill_dir path n es) n (HDir es)"
  unfolding fills_def
proof (intro allI impI)
  fix t and s :: ffstate
  assume zs: "zero_slot (hdisk s) t" and ap: "apart t (nextbno s)" and pos: "0 < nextbno s" and z: "zero_from (hdisk s) (nextbno s)"
    and room: "nextbno s + need (HDir es) \<le> 1024"
  let ?c = "nextbno s" and ?nm = "take 127 n @ replicate (127 - length n) 0"
  let ?s0 = "upd_disk (put_list t ?nm) s"
  let ?s1 = "upd_disk (put32 (fo_type t) FTYPE_DIR) ?s0"
  have len: "length n < 128" "length ?nm = 127" using n by (auto simp: name_ok_def)
  have z127: "hdisk s (t + 127) = 0" using zs by (simp add: zero_slot_def)
  have last: "hdisk ?s0 (t + 127) = 0" using z127 len(2) by (simp add: put_list_out)
  have out: "hdisk ?s1 x = hdisk s x" if "x < t \<or> t + 136 \<le> x \<or> t + 127 \<le> x \<and> x < t + 132" for x
    using that len by (auto simp: put32_outside put_list_out fo_defs)
  have "building (hdisk ?s1) t ?c ?c 0 []" by (rule building_size_type [OF building_new [OF zs]]) (use out in auto)
  moreover have "zero_from (hdisk ?s1) ?c"
    unfolding zero_from_def
  proof (intro allI impI)
    fix x assume x: "4096 * ?c \<le> x" "x < 4096 * 1024"
    then have "hdisk ?s1 x = hdisk s x" using ap by (intro out) (auto simp: apart_def)
    then show "hdisk ?s1 x = 0" using z x by (simp add: zero_from_def)
  qed
  ultimately have st: "dir_state ?s1 t ?c []" using ap pos room by (simp add: dir_state_def dblocks_def)
  have r0: "nextbno ?s1 + with_index (dblocks (length [] + length (visible es))) + need_list es \<le> 1024 + with_index (dblocks (length []))"
    using room by simp
  have w0: "with_index (dblocks 0) = 0" by (simp add: dblocks_def with_index_def)
  from a [unfolded adds_def, rule_format, OF st r0] w0 obtain s2 where
    s2: "write_entries t path es ?s1 = Some s2" "nextbno s2 = ?c + need (HDir es)" "dir_state s2 t ?c (visible es)" "dir_frame ?s1 s2 t ?c" by auto
  have fr: "hdisk s2 x = hdisk ?s1 x"
    if "x < t + 128 \<or> t + 132 \<le> x \<and> x < t + 136 \<or> t + 180 \<le> x" "\<not> (4096 * ?c \<le> x \<and> x < 4096 * nextbno s2)" for x
    using s2(4) that by (simp add: dir_frame_def)
  have hd: "hdisk s2 x = hdisk ?s1 x" if "t \<le> x" "x < t + 128 \<or> t + 132 \<le> x \<and> x < t + 136" for x
    by (rule fr) (use that ap s2(2) room in \<open>auto simp: apart_def\<close>)
  have "named (hdisk ?s1) t n"
  proof -
    have "hdisk ?s1 (t + i) = n ! i" if "i < length n" for i
      using that len by (simp add: put32_outside fo_defs put_list_in nth_append)
    moreover have "hdisk ?s1 (t + length n) = 0"
    proof (cases "length n < 127")
      case True
      then show ?thesis using len by (simp add: put32_outside fo_defs put_list_in nth_append)
    next
      case False
      then have "length n = 127" using len by simp
      then show ?thesis using last by (simp add: put32_outside fo_defs)
    qed
    ultimately show ?thesis using n by (simp add: named_def)
  qed
  then have nm: "named (hdisk s2) t n" by (rule named_frame) (use hd in auto)
  have ty: "get32 (hdisk s2) (fo_type t) = FTYPE_DIR"
  proof -
    have "get32 (hdisk s2) (fo_type t) = get32 (hdisk ?s1) (fo_type t)" by (rule get32_cong, rule hd) (auto simp: fo_defs)
    then show ?thesis by simp
  qed
  have bd: "building (hdisk s2) t ?c (nextbno s2) (dblocks (length (visible es))) (visible es)" using s2(3) by (simp add: dir_state_def)
  have "holds (hdisk s2) t ?c (nextbno s2) n (HDir es)"
  proof (rule hdir [OF nm _ ty])
    show "\<forall>j < length (visible es). \<exists>lo' hi'. ?c \<le> lo' \<and> hi' \<le> nextbno s2 \<and>
        holds (hdisk s2) (entry (hdisk s2) t j) lo' hi' (fst (visible es ! j)) (snd (visible es ! j))"
      using bd unfolding building_def holds_in_def by blast
    show "\<forall>j. length (visible es) \<le> j \<and> j < 16 * dblocks (length (visible es)) \<longrightarrow> hdisk s2 (entry (hdisk s2) t j) = 0"
      using building_zero [OF bd, of _ 0] by simp
  qed (use bd in \<open>simp_all add: building_def\<close>)
  moreover have "hdisk s2 x = hdisk s x" if "\<not> (t \<le> x \<and> x < t + 256)" "\<not> (4096 * ?c \<le> x \<and> x < 4096 * nextbno s2)" for x
    using fr [of x] out [of x] that by auto
  moreover have "fill_dir path n es t s = Some s2" using last s2(1) by (simp add: fill_dir_def)
  ultimately show "\<exists>s'. fill_dir path n es t s = Some s' \<and> nextbno s' = nextbno s + need (HDir es) \<and> holds (hdisk s') t (nextbno s) (nextbno s') n (HDir es) \<and>
      (\<forall>x. \<not> (t \<le> x \<and> x < t + 256) \<and> \<not> (4096 * nextbno s \<le> x \<and> x < 4096 * nextbno s') \<longrightarrow> hdisk s' x = hdisk s x)" using s2(2) by blast
qed

lemma write_node_fill:
  "name_ok (node_name path (HFile bs)) \<Longrightarrow>
     write_node d path (HFile bs) s = do { (t, s) \<leftarrow> create_file d s; fill_file t (node_name path (HFile bs)) bs s }"
  "write_node d path (HDir es) s = do { (t, s) \<leftarrow> create_file d s; fill_dir path (node_name path (HDir es)) es t s }"
  by (auto simp: write_file_def fill_file_def fill_dir_def start_dir_def name_ok_def Let_def split: option.splits intro!: Option.bind_cong)

definition writes :: "u8 list \<Rightarrow> host \<Rightarrow> bool" where
  "writes path h \<longleftrightarrow> (\<exists>w. fills w (node_name path h) h \<and> (\<forall>d s. write_node d path h s = do { (t, s) \<leftarrow> create_file d s; w t s }))"

lemma write_node_ok:
  assumes "writes path h" "dir_state s d lo es"
    and "nextbno s + with_index (dblocks (Suc (length es))) + need h \<le> 1024 + with_index (dblocks (length es))"
  shows "\<exists>s'. write_node d path h s = Some s' \<and>
    nextbno s' + with_index (dblocks (length es)) = nextbno s + with_index (dblocks (Suc (length es))) + need h \<and>
    dir_state s' d lo (es @ [(node_name path h, h)]) \<and> dir_frame s s' d lo"
proof -
  from assms(1) obtain w where w: "fills w (node_name path h) h" "write_node d path h s = do { (t, s) \<leftarrow> create_file d s; w t s }"
    unfolding writes_def by blast
  show ?thesis unfolding w(2) by (rule entry_written [OF assms(2) w(1) assms(3)])
qed

lemma with_index_dblocks_mono: "i \<le> j \<Longrightarrow> with_index (dblocks i) \<le> with_index (dblocks j)"
  by (intro with_index_mono) (simp add: dblocks_def div_le_mono)

lemma adds_ok:
  assumes "trees_ok es" "\<And>n h path. (n, h) \<in> set es \<Longrightarrow> tree_ok h \<Longrightarrow> name_ok (node_name path h) \<Longrightarrow> writes path h"
  shows "adds path es"
  using assms
proof (induction es)
  case Nil
  then show ?case by (simp add: adds_def visible_def dir_frame_refl)
next
  case (Cons e es)
  obtain n h where e: "e = (n, h)" by fastforce
  have IH: "adds path es" using Cons by (auto simp: e)
  show ?case
  proof (cases "n = [46] \<or> n = [46, 46]")
    case True
    then have "visible (e # es) = visible es" "need_list (e # es) = need_list es"
      "\<And>d s. write_entries d path (e # es) s = write_entries d path es s" by (auto simp: visible_def e)
    then show ?thesis using IH by (simp add: adds_def)
  next
    case False
    then have ok: "name_ok n" "47 \<notin> set n" "tree_ok h" using Cons.prems(1) by (auto simp: e)
    let ?p = "path @ 47 # n"
    have nm: "node_name ?p h = n" by (rule node_name_entry [OF ok(1,2)])
    have w: "writes ?p h" by (rule Cons.prems(2) [of n]) (use ok nm in \<open>simp_all add: e\<close>)
    have v: "visible (e # es) = (n, h) # visible es" using False by (auto simp: visible_def e)
    show ?thesis
      unfolding adds_def
    proof (intro allI impI)
      fix d lo es0 and s :: ffstate
      assume st: "dir_state s d lo es0"
        and room: "nextbno s + with_index (dblocks (length es0 + length (visible (e # es)))) + need_list (e # es) \<le> 1024 + with_index (dblocks (length es0))"
      have m: "with_index (dblocks (Suc (length es0))) \<le> with_index (dblocks (length es0 + length (visible (e # es))))"
        by (rule with_index_dblocks_mono) (simp add: v)
      have "nextbno s + with_index (dblocks (Suc (length es0))) + need h \<le> 1024 + with_index (dblocks (length es0))"
        using room m False by (simp add: e)
      from write_node_ok [OF w st this] obtain s1 where
        s1: "write_node d ?p h s = Some s1" "nextbno s1 + with_index (dblocks (length es0)) = nextbno s + with_index (dblocks (Suc (length es0))) + need h"
          "dir_state s1 d lo (es0 @ [(n, h)])" "dir_frame s s1 d lo" unfolding nm by blast
      have "nextbno s1 + with_index (dblocks (length (es0 @ [(n, h)]) + length (visible es))) + need_list es \<le> 1024 + with_index (dblocks (length (es0 @ [(n, h)])))"
        using room s1(2) False v by (simp add: e)
      from IH [unfolded adds_def, rule_format, OF s1(3) this] obtain s' where
        s': "write_entries d path es s1 = Some s'"
          "nextbno s' + with_index (dblocks (length (es0 @ [(n, h)]))) = nextbno s1 + with_index (dblocks (length (es0 @ [(n, h)]) + length (visible es))) + need_list es"
          "dir_state s' d lo ((es0 @ [(n, h)]) @ visible es)" "dir_frame s1 s' d lo" by blast
      show "\<exists>s'. write_entries d path (e # es) s = Some s' \<and>
          nextbno s' + with_index (dblocks (length es0)) = nextbno s + with_index (dblocks (length es0 + length (visible (e # es)))) + need_list (e # es) \<and>
          dir_state s' d lo (es0 @ visible (e # es)) \<and> dir_frame s s' d lo"
        using s' s1 False v dir_frame_trans [OF s1(4) s'(4)] by (intro exI [of _ s']) (simp add: e)
    qed
  qed
qed

lemma writes_ok: "tree_ok h \<Longrightarrow> name_ok (node_name path h) \<Longrightarrow> writes path h"
proof (induction h arbitrary: path)
  case (HFile bs)
  then show ?case using fills_file write_node_fill(1) unfolding writes_def by (metis node_name.simps(1))
next
  case (HDir es)
  have "adds path es" by (rule adds_ok) (use HDir in \<open>auto simp: snds.simps\<close>)
  then have "fills (fill_dir path (node_name path (HDir es)) es) (node_name path (HDir es)) (HDir es)" using fills_dir HDir.prems(2) by blast
  then show ?case using write_node_fill(2) unfolding writes_def by blast
qed

section \<open>The image\<close>

text \<open>The names of the arguments are those of files that can be found, and the trees are fit to be written.\<close>

definition args_named :: "(u8 list \<times> host) list \<Rightarrow> (u8 list \<times> host) list" where
  "args_named args = map (\<lambda>(path, h). (node_name path h, h)) args"

definition formattable :: "(u8 list \<times> host) list \<Rightarrow> bool" where
  "formattable args \<longleftrightarrow> args \<noteq> [] \<and> (\<forall>(path, h) \<in> set args. tree_ok h \<and> name_ok (node_name path h) \<and> node_name path h \<noteq> [46] \<and> node_name path h \<noteq> [46, 46]) \<and>
     3 + need (HDir (args_named args)) \<le> 1024"

lemma visible_args: "\<forall>(path, h) \<in> set args. node_name path h \<noteq> [46] \<and> node_name path h \<noteq> [46, 46] \<Longrightarrow> visible (args_named args) = args_named args"
  by (induction args) (auto simp: visible_def args_named_def)

lemma write_args_ok:
  assumes "\<forall>(path, h) \<in> set args. tree_ok h \<and> name_ok (node_name path h) \<and> node_name path h \<noteq> [46] \<and> node_name path h \<noteq> [46, 46]"
    and "dir_state s ROOT lo es0"
    and "nextbno s + with_index (dblocks (length es0 + length args)) + need_list (args_named args) \<le> 1024 + with_index (dblocks (length es0))"
  shows "\<exists>s'. write_args args s = Some s' \<and>
    nextbno s' + with_index (dblocks (length es0)) = nextbno s + with_index (dblocks (length es0 + length args)) + need_list (args_named args) \<and>
    dir_state s' ROOT lo (es0 @ args_named args) \<and> dir_frame s s' ROOT lo"
  using assms
proof (induction args arbitrary: s es0)
  case Nil
  then show ?case by (simp add: args_named_def dir_frame_refl)
next
  case (Cons a args)
  obtain path h where a: "a = (path, h)" by fastforce
  let ?e = "(node_name path h, h)"
  have w: "writes path h" using Cons.prems(1) by (auto simp: a intro: writes_ok)
  have nl: "need_list (args_named (a # args)) = need h + need_list (args_named args)" using Cons.prems(1) by (auto simp: a args_named_def)
  have "with_index (dblocks (Suc (length es0))) \<le> with_index (dblocks (length es0 + length (a # args)))" by (rule with_index_dblocks_mono) simp
  then have "nextbno s + with_index (dblocks (Suc (length es0))) + need h \<le> 1024 + with_index (dblocks (length es0))" using Cons.prems(3) nl by simp
  from write_node_ok [OF w Cons.prems(2) this] obtain s1 where
    s1: "write_node ROOT path h s = Some s1" "nextbno s1 + with_index (dblocks (length es0)) = nextbno s + with_index (dblocks (Suc (length es0))) + need h"
      "dir_state s1 ROOT lo (es0 @ [?e])" "dir_frame s s1 ROOT lo" by blast
  have "nextbno s1 + with_index (dblocks (length (es0 @ [?e]) + length args)) + need_list (args_named args) \<le> 1024 + with_index (dblocks (length (es0 @ [?e])))"
    using Cons.prems(3) nl s1(2) by simp
  from Cons.IH [OF _ s1(3) this] Cons.prems(1) obtain s' where
    s': "write_args args s1 = Some s'"
      "nextbno s' + with_index (dblocks (length (es0 @ [?e]))) = nextbno s1 + with_index (dblocks (length (es0 @ [?e]) + length args)) + need_list (args_named args)"
      "dir_state s' ROOT lo ((es0 @ [?e]) @ args_named args)" "dir_frame s1 s' ROOT lo" by auto
  show ?case using s' s1 nl dir_frame_trans [OF s1(4) s'(4)] by (intro exI [of _ s']) (simp add: a args_named_def)
qed

text \<open>The state that \<^verbatim>\<open>init_disk\<close> leaves: an empty root directory, and a bitmap in which the blocks of the disk are free.\<close>

definition map_bit :: "hmem \<Rightarrow> nat \<Rightarrow> bool" where
  "map_bit m b = bit (get32 m (8192 + 4 * (b div 32))) (b mod 32)"

lemma nbitblock_1: "nbitblock = 1"
  by (simp add: nbitblock_def)

lemma init_disk_mem:
  "hdisk init_disk = put_list ROOT [47, 0] (put32 (fo_type ROOT) FTYPE_DIR (put32 (SUPER + 4) 1024 (put32 SUPER FS_MAGIC
     (\<lambda>x. if 8192 \<le> x \<and> x < 8320 then 0xff else 0))))"
proof -
  have "fill_bytes 8320 0 3968 (fill_bytes 8192 0xff 4096 (\<lambda>_. 0)) = (\<lambda>x. if 8192 \<le> x \<and> x < 8320 then 0xff else 0)"
    by (auto simp: fill_bytes_def)
  then show ?thesis by (simp add: init_disk_def nbitblock_1 Let_def)
qed

lemma init_disk_low: "x < 4096 * 1024 \<Longrightarrow> hdisk init_disk x = (if 8192 \<le> x \<and> x < 8320 then 0xff else 0)"
  by (simp add: init_disk_mem put_list_out put32_outside fo_defs ROOT_def SUPER_def)

lemma init_disk_root: "ROOT + 2 \<le> x \<Longrightarrow> x < ROOT + 132 \<or> ROOT + 136 \<le> x \<Longrightarrow> hdisk init_disk x = 0"
  by (auto simp: init_disk_mem put_list_out put32_outside fo_defs ROOT_def SUPER_def)

lemma init_disk_state: "dir_state init_disk ROOT 3 []"
proof -
  have "nextbno init_disk = 3" by (simp add: init_disk_def nbitblock_1 Let_def)
  moreover have "get32 (hdisk init_disk) (fo_size ROOT) = 0" "get32 (hdisk init_disk) (fo_indirect ROOT) = 0"
    by (auto intro!: get32_zero init_disk_root simp: fo_defs)
  ultimately show ?thesis
    by (simp add: dir_state_def building_def links_0 dblocks_def apart_def ROOT_def SUPER_def zero_from_def init_disk_low)
qed

lemma get32_all_ones: "(\<And>x. a \<le> x \<Longrightarrow> x < a + 4 \<Longrightarrow> m x = 0xff) \<Longrightarrow> get32 m a = - 1"
  by (simp add: get32_def)

lemma init_disk_map: "b < 32768 \<Longrightarrow> map_bit (hdisk init_disk) b \<longleftrightarrow> b < 1024"
proof (cases "b < 1024")
  case True
  then have "b div 32 < 32" by (simp add: div_less_iff_less_mult)
  then have "get32 (hdisk init_disk) (8192 + 4 * (b div 32)) = - 1" by (intro get32_all_ones) (simp add: init_disk_low)
  then show ?thesis using True by (simp add: map_bit_def)
next
  case False
  assume "b < 32768"
  then have "b div 32 < 1024" "32 \<le> b div 32" using False by (auto simp: div_less_iff_less_mult less_eq_div_iff_mult_less_eq)
  then have "get32 (hdisk init_disk) (8192 + 4 * (b div 32)) = 0" by (intro get32_zero) (simp add: init_disk_low)
  then show ?thesis using False by (simp add: map_bit_def)
qed

lemma clear_bit_out: "i < 1024 \<Longrightarrow> x < 8192 \<or> 8320 \<le> x \<Longrightarrow> clear_bit i m x = m x"
proof -
  assume i: "i < 1024" and x: "x < 8192 \<or> 8320 \<le> x"
  have "i div 32 < 32" using i by (simp add: div_less_iff_less_mult)
  then show ?thesis using i x by (auto simp: clear_bit_def Let_def put32_outside)
qed

lemma clear_bit_map:
  assumes "i < 1024" "b < 32768" shows "map_bit (clear_bit i m) b \<longleftrightarrow> map_bit m b \<and> b \<noteq> i"
proof (cases "b div 32 = i div 32")
  case True
  then have "b \<noteq> i \<longleftrightarrow> b mod 32 \<noteq> i mod 32" by (metis div_mult_mod_eq)
  then show ?thesis using assms(1) True by (auto simp: map_bit_def clear_bit_def Let_def bit_simps)
next
  case False
  then have "8192 + 4 * (b div 32) + 4 \<le> 8192 + 4 * (i div 32) \<or> 8192 + 4 * (i div 32) + 4 \<le> 8192 + 4 * (b div 32)" by linarith
  then show ?thesis using assms(1) False by (auto simp: map_bit_def clear_bit_def Let_def)
qed

lemma clear_bits:
  "n \<le> 1024 \<Longrightarrow> (\<forall>b < 32768. map_bit (fold clear_bit [0..<n] m) b \<longleftrightarrow> map_bit m b \<and> n \<le> b) \<and>
     (\<forall>x. x < 8192 \<or> 8320 \<le> x \<longrightarrow> fold clear_bit [0..<n] m x = m x)"
proof (induction n)
  case (Suc n)
  then show ?case by (auto simp: clear_bit_map clear_bit_out)
qed simp

text \<open>The image as one memory; the root directory is in the super block.\<close>

definition img_mem :: "(nat \<Rightarrow> nat \<Rightarrow> u8) \<Rightarrow> hmem" where
  "img_mem img = (\<lambda>x. img (x div 4096) (x mod 4096))"

lemma img_mem_finish: "img_mem (finish_fs s) x = (if 4096 \<le> x \<and> x < 4360 then hdisk s (SUPER + (x - 4096)) else hdisk s x)"
  by (auto simp: img_mem_def finish_fs_def put_list_def)



text \<open>The root directory in the memory of the tool, once everything is written.\<close>

lemma root_holds:
  assumes "dir_state s ROOT 3 es" "dir_frame init_disk s ROOT 3" "visible es = es"
  shows "holds (hdisk s) ROOT 3 (nextbno s) [47] (HDir es)"
proof -
  have bd: "building (hdisk s) ROOT 3 (nextbno s) (dblocks (length es)) es" and cur: "nextbno s \<le> 1024" using assms(1) by (simp_all add: dir_state_def)
  have same: "hdisk s x = hdisk init_disk x" if "ROOT \<le> x" "x < ROOT + 128 \<or> ROOT + 132 \<le> x \<and> x < ROOT + 136" for x
    using assms(2) that cur by (auto simp: dir_frame_def ROOT_def SUPER_def)
  have "named (hdisk init_disk) ROOT [47]"
    by (simp add: named_def name_ok_def init_disk_mem put_list_def)
  then have nm: "named (hdisk s) ROOT [47]" by (rule named_frame) (use same in auto)
  have "get32 (hdisk s) (fo_type ROOT) = get32 (hdisk init_disk) (fo_type ROOT)" by (rule get32_cong, rule same) (auto simp: fo_defs)
  also have "\<dots> = get32 (put32 (fo_type ROOT) FTYPE_DIR (put32 (SUPER + 4) 1024 (put32 SUPER FS_MAGIC
     (\<lambda>x. if 8192 \<le> x \<and> x < 8320 then 0xff else 0)))) (fo_type ROOT)"
    unfolding init_disk_mem by (rule get32_cong) (simp add: put_list_out fo_defs)
  finally have ty: "get32 (hdisk s) (fo_type ROOT) = FTYPE_DIR" by simp
  show ?thesis
  proof (rule hdir [OF nm _ ty])
    show "\<forall>j < length (visible es). \<exists>lo' hi'. 3 \<le> lo' \<and> hi' \<le> nextbno s \<and>
        holds (hdisk s) (entry (hdisk s) ROOT j) lo' hi' (fst (visible es ! j)) (snd (visible es ! j))"
      using bd unfolding building_def holds_in_def assms(3) by blast
    show "\<forall>j. length (visible es) \<le> j \<and> j < 16 * dblocks (length (visible es)) \<longrightarrow> hdisk s (entry (hdisk s) ROOT j) = 0"
      using building_zero [OF bd, of _ 0] assms(3) by simp
  qed (use bd assms(3) in \<open>simp_all add: building_def\<close>)
qed

lemma super_kept:
  assumes "dir_frame init_disk s ROOT 3" "nextbno s \<le> 1024"
  shows "get32 (hdisk s) SUPER = FS_MAGIC" "get32 (hdisk s) (SUPER + 4) = 1024"
proof -
  have "hdisk s x = hdisk init_disk x" if "SUPER \<le> x" "x < ROOT" for x
    using assms that by (auto simp: dir_frame_def ROOT_def SUPER_def)
  then have "get32 (hdisk s) a = get32 (hdisk init_disk) a" if "a = SUPER \<or> a = SUPER + 4" for a
    using that by (intro get32_cong) (auto simp: ROOT_def)
  moreover have "get32 (hdisk init_disk) a = get32 (put32 (SUPER + 4) 1024 (put32 SUPER FS_MAGIC (\<lambda>x. if 8192 \<le> x \<and> x < 8320 then 0xff else 0))) a"
    if "a = SUPER \<or> a = SUPER + 4" for a
    unfolding init_disk_mem using that by (intro get32_cong) (auto simp: put_list_out put32_outside fo_defs ROOT_def)
  ultimately show "get32 (hdisk s) SUPER = FS_MAGIC" "get32 (hdisk s) (SUPER + 4) = 1024" by simp_all
qed

text \<open>Property C33. The disk image is right.  For every list of files and directory trees of the host whose names fit and which need at most
  the 1021 blocks that are left, \<^verbatim>\<open>fsformat\<close> comes to an end and the image it writes has a valid super block for 1024 blocks; the root
  directory in it contains exactly the given files and trees, in order and with the entries \<^verbatim>\<open>.\<close> and \<^verbatim>\<open>..\<close> left out, each file with its
  name, its size and all its bytes, whether its blocks are reached directly or through the block of links, and the entries behind the last one
  empty; and the bitmap has exactly the blocks behind the last one used as free, and nothing beyond the end of the disk.\<close>

theorem fsformat_correct:
  assumes "formattable args"
  defines "es \<equiv> args_named args" and "used \<equiv> 3 + need (HDir (args_named args))"
  shows "\<exists>img. fsformat args = Some img \<and>
    get32 (img_mem img) 4096 = FS_MAGIC \<and> get32 (img_mem img) 4100 = 1024 \<and>
    holds (img_mem img) 4104 3 used [47] (HDir es) \<and>
    (\<forall>b < 32768. map_bit (img_mem img) b \<longleftrightarrow> used \<le> b \<and> b < 1024)"
proof -
  have ok: "\<forall>(path, h) \<in> set args. tree_ok h \<and> name_ok (node_name path h) \<and> node_name path h \<noteq> [46] \<and> node_name path h \<noteq> [46, 46]"
    and room: "used \<le> 1024" and ne: "args \<noteq> []" using assms(1) by (auto simp: formattable_def used_def)
  have vis: "visible es = es" using visible_args ok unfolding es_def by fastforce
  have len: "length es = length args" by (simp add: es_def args_named_def)
  have n0: "nextbno init_disk = 3" by (simp add: init_disk_def nbitblock_1 Let_def)
  have w0: "with_index (dblocks 0) = 0" by (simp add: dblocks_def with_index_def)
  have u: "used = 3 + with_index (dblocks (length args)) + need_list es" using vis len by (simp add: used_def es_def)
  from write_args_ok [OF ok init_disk_state] room u n0 w0 obtain s where
    s: "write_args args init_disk = Some s" "nextbno s = used" "dir_state s ROOT 3 es" "dir_frame init_disk s ROOT 3" by (auto simp: es_def)
  let ?s = "flush_bitmap s" and ?m = "img_mem (finish_fs (flush_bitmap s))"
  have cur: "nextbno s \<le> 1024" using s(2) room by simp
  note cb = clear_bits [OF cur, of "hdisk s"]
  have fl: "hdisk ?s x = hdisk s x" if "x < 8192 \<or> 8320 \<le> x" for x using cb that unfolding flush_bitmap_def upd_disk_simps by blast
  have sup: "?m (4096 + x) = hdisk s (SUPER + x)" if "x < 264" for x using that fl [of "SUPER + x"] by (simp add: img_mem_finish SUPER_def)
  have rest: "?m x = hdisk ?s x" if "4360 \<le> x" for x using that by (simp add: img_mem_finish)
  have sg: "get32 ?m (4096 + a) = get32 (hdisk s) (SUPER + a)" if "a + 4 \<le> 264" for a
    using sup [of a] sup [of "a + 1"] sup [of "a + 2"] sup [of "a + 3"] that by (simp add: get32_def add.assoc)
  have "agree (hdisk s) ?m ROOT 4104 3 used"
    unfolding agree_def
  proof (intro conjI allI impI)
    show "?m (4104 + x) = hdisk s (ROOT + x)" if "x < 256" for x using sup [of "8 + x"] that by (simp add: ROOT_def add.assoc)
    show "?m x = hdisk s x" if "4096 * 3 \<le> x" for x using that rest [of x] fl [of x] by simp
  qed
  with root_holds [OF s(3,4) vis] have "holds ?m 4104 3 used [47] (HDir es)" unfolding s(2) by (rule holds_agree)
  moreover have "get32 ?m 4096 = FS_MAGIC" "get32 ?m 4100 = 1024" using sg [of 0] sg [of 4] super_kept [OF s(4) cur] by simp_all
  moreover have "map_bit ?m b \<longleftrightarrow> used \<le> b \<and> b < 1024" if b: "b < 32768" for b
  proof -
    have "map_bit ?m b = map_bit (hdisk ?s) b" unfolding map_bit_def by (subst get32_cong [of _ ?m "hdisk ?s"]) (auto intro: rest)
    also have "\<dots> \<longleftrightarrow> map_bit (hdisk s) b \<and> used \<le> b" using cb b s(2) by (simp add: flush_bitmap_def)
    also have "map_bit (hdisk s) b = map_bit (hdisk init_disk) b"
    proof -
      have q: "b div 32 < 1024" using b by (simp add: div_less_iff_less_mult)
      have "hdisk s x = hdisk init_disk x" if "x < 12288" for x using s(4) that by (auto simp: dir_frame_def ROOT_def SUPER_def)
      then have "get32 (hdisk s) (8192 + 4 * (b div 32)) = get32 (hdisk init_disk) (8192 + 4 * (b div 32))" using q by (intro get32_cong) auto
      then show ?thesis by (simp add: map_bit_def)
    qed
    finally show ?thesis using init_disk_map [OF b] by auto
  qed
  ultimately show ?thesis using s(1) ne by (intro exI [of _ "finish_fs ?s"]) (simp add: fsformat_def)
qed

text \<open>A file of three bytes next to a directory with its dot entries and one empty file.\<close>

definition format_demo :: "(u8 list \<times> host) list" where
  "format_demo = [([97, 47, 98], HFile [1, 2, 3]), ([100, 47], HDir [([46], HDir []), ([46, 46], HDir []), ([99], HFile [])])]"

theorem fsformat_correct_witness:
  "formattable format_demo \<and> (\<exists>img. fsformat format_demo = Some img \<and>
     holds (img_mem img) 4104 3 6 [47] (HDir [([98], HFile [1, 2, 3]), ([100], HDir [([46], HDir []), ([46, 46], HDir []), ([99], HFile [])])]) \<and>
     map_bit (img_mem img) 6 \<and> \<not> map_bit (img_mem img) 5)"
proof -
  have nm: "args_named format_demo = [([98], HFile [1, 2, 3]), ([100], HDir [([46], HDir []), ([46, 46], HDir []), ([99], HFile [])])]"
    by (simp add: args_named_def format_demo_def fname_def basename_def)
  have nd: "need (HDir (args_named format_demo)) = 3"
    unfolding nm by (simp add: visible_def with_index_def dblocks_def nblocks_def)
  have f: "formattable format_demo" unfolding formattable_def nd
    by (simp add: format_demo_def name_ok_def fname_def basename_def)
  note r = fsformat_correct [OF f, unfolded nd, unfolded nm]
  then show ?thesis using f by auto
qed
end
