(* ===== verification/Spec2Isabelle.thy ===== *)
theory Spec2Isabelle
  imports Mos_Boot Mos_Ipc Mos_Disk Mos_Elf Mos_Print Mos_Serv Mos_Fs_Path Mos_Pipe Mos_Cow Mos_Sh Mos_Spawn Mos_Stdio Mos_Fsformat_Tree
begin

text \<open>
  \<^bold>\<open>Run-MOS-on-RISC-V\<close>: a small operating system for 32-bit RISC-V with Sv32 paging.

  \<^bold>\<open>The program and its parts.\<close>  The kernel (\<^verbatim>\<open>kern\<close>, \<^verbatim>\<open>lib\<close>, \<^verbatim>\<open>include\<close>) manages physical frames and two-level page tables, environments
  (processes) with a round-robin scheduler, traps, seventeen system calls and a virtio disk.  Everything else runs in user mode: the file-system
  server (\<^verbatim>\<open>fs\<close>) answers requests that arrive as messages with a shared page; the user library (\<^verbatim>\<open>user/lib\<close>) builds descriptors, files, pipes,
  copy-on-write \<^verbatim>\<open>fork\<close> and \<^verbatim>\<open>spawn\<close> on the system calls; the shell (\<^verbatim>\<open>user/sh.c\<close>) builds on the library.  The host tool
  \<^verbatim>\<open>tools/fsformat.c\<close> writes the disk image that the server mounts.

  \<^bold>\<open>Conventions.\<close>  Integers are words of their C width and wrap around; memory is a function from 32-bit addresses to bytes, and page tables,
  directories and trap frames are bytes of it, so that aliasing is visible.  A \<^verbatim>\<open>struct Page *\<close> or \<^verbatim>\<open>struct Env *\<close> is an index.  State is passed
  explicitly.  A C function that returns an error code has a result of type \<open>err + 'a\<close> in the kernel, and the register value itself at the
  level of system calls.  The result \<open>None\<close> of an operation means that it does not return to its caller: a panic, a failed assertion, an access
  that C leaves undefined, or a loop that does not end.  Loops whose end depends on the machine are \<open>partial_function (option)\<close>; no definition has
  a fuel argument.  What a device or another process delivers is a parameter (\<open>R\<close>, the registers that a driver reads; \<open>io\<close>, a meeting with the
  file server) or a list of the coming results in the state (\<open>dev_results\<close>, \<open>console_in\<close>), so that the statements cover every behaviour of it.

  \<^bold>\<open>Foundations.\<close>
  \<^item> \<open>Mos_Prelude\<close>: integer types, error codes (\<^verbatim>\<open>include/error.h\<close>), rule collections.
  \<^item> \<open>Mos_Memory\<close>: \<^verbatim>\<open>lib/string.c\<close> with its word-at-a-time loops, shown equal to byte-wise references.
  \<^item> \<open>Mos_Queue\<close>: the \<^verbatim>\<open>LIST\<close> and \<^verbatim>\<open>TAILQ\<close> macros of \<^verbatim>\<open>include/queue.h\<close>, assignment by assignment.  The locales \<open>intrusive_list\<close> and
    \<open>tail_queue\<close> are the contract that the allocators and the scheduler use; they are interpreted on the macros.
  \<^item> \<open>Mos_Pool\<close>: the locale \<open>resource_pool\<close>, interpreted on the disk's descriptors (\<open>Mos_Disk\<close>) and on ASIDs (\<open>Mos_Env_Alloc\<close>).

  \<^bold>\<open>Kernel memory\<close> (\<^verbatim>\<open>kern/pmap.c\<close>, \<^verbatim>\<open>include/mmu.h\<close>, \<^verbatim>\<open>include/pmap.h\<close>).
  \<^item> \<open>Mos_Pmap\<close> has the operations on the record \<open>pmap\<close>.  \<open>Mos_Frames\<close> is the arithmetic of frames and entries.
  \<^item> \<open>Mos_Vm\<close> abstracts the tables to a map from (directory, slot, slot) to frames (\<open>maps\<close>) and states the invariant \<open>vm_inv\<close>: no aliasing
    between tables, exact reference counts, an exact free list.  \<open>Mos_Vm_Ops\<close> shows for every operation what it does to the abstraction on
    every path, that it keeps \<open>vm_inv\<close> and that it does not panic; \<open>Mos_Data\<close> that frames with data keep their bytes; \<open>Mos_Space\<close> how
    directories come and go.
  \<^item> Frames have indices below \<open>page_bound = 0x70000\<close>, so that their addresses do not wrap; the machine has 15872 of them.

  \<^bold>\<open>Processes.\<close>
  \<^item> \<open>Mos_Elf\<close> (\<^verbatim>\<open>lib/elfloader.c\<close>): the calls of the mapper that a segment leads to, for the kernel's mapper and the user's.
  \<^item> \<open>Mos_Env\<close>, \<open>Mos_Env_Alloc\<close>, \<open>Mos_Env_Free\<close>, \<open>Mos_Sched\<close> (\<^verbatim>\<open>kern/env.c\<close>, \<^verbatim>\<open>kern/sched.c\<close>): the record \<open>kstate\<close> is the whole kernel;
    \<open>space_inv\<close> ties live environments to address spaces, \<open>table_inv\<close> the environment table to its two lists.  Allocation, destruction and
    scheduling keep them; environment ids and ASIDs in use are distinct; every runnable environment gets its turn.
  \<^item> \<open>Mos_Boot\<close> (\<^verbatim>\<open>init/init.c\<close>, \<^verbatim>\<open>env_init\<close>): the start of the kernel establishes these invariants, and the template directory that every address
    space is copied from.  Memory has at most \<open>0x55555\<close> frames there, as the array \<^verbatim>\<open>pages\<close> has to fit into its window of 4 megabytes.
  \<^item> \<open>Mos_Trap\<close> (\<^verbatim>\<open>kern/tlbex.c\<close>, \<^verbatim>\<open>kern/traps.c\<close>): demand paging, the self-mapped page tables, the up-call for copy-on-write faults.
  \<^item> \<open>Mos_Syscall\<close>, \<open>Mos_Sys_Mem\<close>, \<open>Mos_Ipc\<close> (\<^verbatim>\<open>kern/syscall_all.c\<close>): all calls and their dispatch; \<open>kinv\<close> is the invariant between two traps.
    Memory calls do what their comments say and touch only environments that the caller may manipulate; messages arrive whole.
  \<^item> \<open>Mos_Disk\<close> (\<^verbatim>\<open>kern/disk_driver.c\<close>): driver and device as a step relation \<open>disk_step\<close>, with the invariant of the reachable states.
  \<^item> \<open>Mos_Print\<close> (\<^verbatim>\<open>lib/print.c\<close>, \<^verbatim>\<open>kern/printk.c\<close>, \<^verbatim>\<open>user/lib/debugf.c\<close>): the formatter against a grammar of format strings; the locale \<open>sink\<close>
    is the contract of its output callbacks.

  \<^bold>\<open>File system.\<close>
  \<^item> \<open>Mos_Fs\<close>, \<open>Mos_Fs_Block\<close>, \<open>Mos_Fs_Path\<close> (\<^verbatim>\<open>fs/fs.c\<close>, \<^verbatim>\<open>fs/ide.c\<close>): block cache, bitmap, files and directories; blocks survive a round trip to the
    disk, allocation hands out a block that was free, lookups find the first entry of a name, paths resolve element by element.
  \<^item> \<open>Mos_Serv\<close> (\<^verbatim>\<open>fs/serv.c\<close>): the open-file table and the handlers; every request gets one reply.
  \<^item> \<open>Mos_Fsformat\<close>, \<open>Mos_Fsformat_Tree\<close> (\<^verbatim>\<open>tools/fsformat.c\<close>): the image holds exactly the given tree of files.

  \<^bold>\<open>User library and shell.\<close>  The code runs as the current environment of a \<open>kstate\<close>: its loads and stores go through the page table, its system calls
  are those of \<open>Mos_Syscall\<close>.
  \<^item> \<open>Mos_Fork\<close>, \<open>Mos_Cow\<close> (\<^verbatim>\<open>user/lib/fork.c\<close>): what the child gets, and that a write fault on a copy-on-write page ends with a private copy.
  \<^item> \<open>Mos_Fd\<close>, \<open>Mos_View\<close>, \<open>Mos_Fd_Io\<close>, \<open>Mos_Fd_Pipe\<close> (\<^verbatim>\<open>fd.c\<close>, \<^verbatim>\<open>file.c\<close>, \<^verbatim>\<open>fsipc.c\<close>, \<^verbatim>\<open>console.c\<close>, \<^verbatim>\<open>pipe.c\<close>): descriptors and devices; reading and
    writing files through the mapped pages; setting up a pipe.  Sums of a position and a length are assumed to stay below \<open>2 ^ 32\<close>, as the
    code does not check them.
  \<^item> \<open>Mos_Pipe\<close> (\<^verbatim>\<open>pipe.c\<close>): reader and writer as interleaved steps; bytes arrive in order, and the race that the reference counts leave open.
  \<^item> \<open>Mos_Spawn\<close> (\<^verbatim>\<open>spawn.c\<close>): starting a program; the stack that it finds.  The arguments are shorter than \<open>2 ^ 29\<close> bytes in total.
  \<^item> \<open>Mos_Cat\<close> (\<^verbatim>\<open>user/cat.c\<close>): a whole program, from its loop through \<^verbatim>\<open>read\<close>, \<^verbatim>\<open>write\<close> and the system call down to the bytes on the console.
  \<^item> \<open>Mos_Stdio\<close> (\<^verbatim>\<open>user/lib/fprintf.c\<close>, \<^verbatim>\<open>user/echo.c\<close>): \<^verbatim>\<open>printf\<close> on top of \<^verbatim>\<open>write\<close>, and \<^verbatim>\<open>echo\<close> on top of it.  The locale \<open>file_out\<close> says what \<^verbatim>\<open>printf\<close>
    needs of \<^verbatim>\<open>write\<close>; it gives an instance of the locale \<open>sink\<close> of \<open>Mos_Print\<close>, and the console of the kernel model is an instance of it.
  \<^item> \<open>Mos_Sh\<close> (\<^verbatim>\<open>user/sh.c\<close>): tokenizer, parser and execution of a command line against a grammar of commands, and the line editor.

  \<^bold>\<open>Not modelled.\<close>  Assembly (\<^verbatim>\<open>init/start.S\<close>, \<^verbatim>\<open>kern/*.S\<close>, \<^verbatim>\<open>user/lib/entry.S\<close>, \<^verbatim>\<open>syscall_wrap.S\<close>), which saves and restores registers; the calls of the
  firmware in \<^verbatim>\<open>kern/console.c\<close>; the register dump of \<^verbatim>\<open>kern/panic.c\<close>; the self tests (\<^verbatim>\<open>page_check\<close>, \<^verbatim>\<open>env_check\<close>, \<^verbatim>\<open>fs/check.c\<close>, \<^verbatim>\<open>tests\<close>), which are
  not operations of the system; the other small programs under \<^verbatim>\<open>user\<close> and the tools \<^verbatim>\<open>readelf\<close> and \<^verbatim>\<open>bintoc\<close>, which only print; macros of \<^verbatim>\<open>queue.h\<close> that no
  file uses.
\<close>

end
